(* ===== verification/Broker_Prelude.thy ===== *)
theory Broker_Prelude
  imports Main "HOL-Library.Word" "HOL-Library.Monad_Syntax"
begin

text \<open>
  Shared vocabulary of the development: the machine types of the C code, C strings, slot
  tables, and the lemma collections the component theories add to.

  \<^item> \<open>byte\<close>, \<open>u16\<close>, \<open>u32\<close> are the C types \<open>uint8_t\<close>, \<open>uint16_t\<close>, \<open>uint32_t\<close>.
  \<^item> A C string in a fixed \<open>char\<close> array is the list of its bytes before the terminating NUL.
    Copying with \<open>strncpy (dst, src, sizeof dst - 1)\<close> is \<open>strncpy_str\<close>.
  \<^item> Every table of the program is a fixed array of slots with an \<open>in_use\<close> flag, searched
    from slot 0. Here it is a list whose length is the configured capacity;
    \<open>find_idx\<close> is the search loop and \<open>upd_nth\<close> the write to one slot.
  \<^item> The locale \<open>slot_table\<close> states what the code relies on of such a table, once for all
    tables; every component interprets it on its own slot type.
\<close>

unbundle bit_operations_syntax

type_synonym byte = "8 word"
type_synonym u16 = "16 word"
type_synonym u32 = "32 word"
type_synonym cstr = "byte list"

named_theorems slot_simps \<open>search and update of slot tables\<close>
named_theorems wf_intros \<open>well-formedness of the records the operations build\<close>

subsection \<open>Bytes\<close>

lemma byte_bound: "unat (b :: byte) < 256"
  using unsigned_less [of b] by simp

lemma unat_and_127: "unat ((b :: byte) AND 127) = unat b mod 128"
proof -
  have "b AND 127 = take_bit 7 b" by (simp add: take_bit_eq_mask mask_eq_exp_minus_1)
  then show ?thesis by (simp add: unsigned_take_bit_eq take_bit_eq_mod unat_mod)
qed

lemma bit_7_byte: "bit (b :: byte) 7 \<longleftrightarrow> \<not> unat b < 128"
proof -
  have "bit b 7 \<longleftrightarrow> bit (unat b) 7" by (simp add: bit_unsigned_iff)
  also have "\<dots> \<longleftrightarrow> odd (unat b div 128)" by (simp add: bit_iff_odd)
  also have "unat b div 128 = (if unat b < 128 then 0 else 1)"
    using byte_bound [of b] by auto
  finally show ?thesis by simp
qed

lemma and_128_eq_0: "(b :: byte) AND 128 = 0 \<longleftrightarrow> unat b < 128"
proof -
  have "b AND 128 = 0 \<longleftrightarrow> \<not> bit b 7" using and_exp_eq_0_iff_not_bit [of b 7] by simp
  then show ?thesis by (simp add: bit_7_byte)
qed

lemma unat_or_128: "unat b < 128 \<Longrightarrow> unat ((b :: byte) OR 128) = unat b + 128"
proof -
  assume b: "unat b < 128"
  then have "b AND 128 = 0" by (simp add: and_128_eq_0)
  then have "b OR 128 = b + 128" by (simp add: disjunctive_add_eq_or)
  then show ?thesis using b by (simp add: unat_word_ariths)
qed

lemma unat_ucast_byte_u32: "unat (ucast (b :: byte) :: u32) = unat b"
  using byte_bound [of b] by (simp add: unsigned_ucast_eq take_bit_eq_mod)

lemma unat_ucast_u32_byte: "unat (ucast (x :: u32) :: byte) = unat x mod 256"
  by (simp add: unsigned_ucast_eq take_bit_eq_mod)

lemma bit_255: "bit (255 :: int) n \<longleftrightarrow> n < 8" "bit (255 :: nat) n \<longleftrightarrow> n < 8"
proof -
  have "mask 8 = (255 :: int)" "mask 8 = (255 :: nat)" by (simp_all add: mask_eq_exp_minus_1)
  then show "bit (255 :: int) n \<longleftrightarrow> n < 8" "bit (255 :: nat) n \<longleftrightarrow> n < 8"
    using bit_mask_iff [of 8 n, where 'a = int] bit_mask_iff [of 8 n, where 'a = nat] by simp_all
qed

lemma u16_split_join:
  "push_bit 8 (ucast (ucast (drop_bit 8 v) :: byte)) OR ucast (ucast (v AND 255) :: byte) = (v :: u16)"
  by (rule bit_word_eqI) (auto simp: bit_simps bit_255 not_le)

subsection \<open>C strings\<close>

definition cstr_ok :: "cstr \<Rightarrow> bool" where
  "cstr_ok s \<longleftrightarrow> 0 \<notin> set s"

definition strncpy_str :: "nat \<Rightarrow> cstr \<Rightarrow> cstr" where
  "strncpy_str cap s = take (cap - 1) s"

lemma strncpy_str_id [simp]: "length s < cap \<Longrightarrow> strncpy_str cap s = s"
  by (simp add: strncpy_str_def)

lemma length_strncpy_str: "0 < cap \<Longrightarrow> length (strncpy_str cap s) < cap"
  by (simp add: strncpy_str_def)

lemma cstr_ok_strncpy [intro]: "cstr_ok s \<Longrightarrow> cstr_ok (strncpy_str cap s)"
  by (auto simp: cstr_ok_def strncpy_str_def dest: in_set_takeD)

lemma cstr_ok_Nil [simp]: "cstr_ok []"
  by (simp add: cstr_ok_def)

text \<open>\<open>strpbrk (s, "+#") != NULL\<close>: the string holds a wildcard character.\<close>

definition has_wildcard :: "cstr \<Rightarrow> bool" where
  "has_wildcard s \<longleftrightarrow> 35 \<in> set s \<or> 43 \<in> set s"

subsection \<open>Slot tables\<close>

fun find_idx :: "('a \<Rightarrow> bool) \<Rightarrow> 'a list \<Rightarrow> nat option" where
  "find_idx P [] = None"
| "find_idx P (x # xs) = (if P x then Some 0 else map_option Suc (find_idx P xs))"

fun find_last :: "('a \<Rightarrow> bool) \<Rightarrow> 'a list \<Rightarrow> nat option" where
  "find_last P [] = None"
| "find_last P (x # xs) =
     (case find_last P xs of Some i \<Rightarrow> Some (Suc i) | None \<Rightarrow> if P x then Some 0 else None)"

definition upd_nth :: "nat \<Rightarrow> ('a \<Rightarrow> 'a) \<Rightarrow> 'a list \<Rightarrow> 'a list" where
  "upd_nth i f xs = xs[i := f (xs ! i)]"

lemma find_idx_None [slot_simps]: "find_idx P xs = None \<longleftrightarrow> (\<forall>x \<in> set xs. \<not> P x)"
  by (induction xs) auto

lemma find_idx_None_nth: "find_idx P xs = None \<longleftrightarrow> (\<forall>i < length xs. \<not> P (xs ! i))"
  by (simp add: find_idx_None all_set_conv_all_nth)

lemma find_idx_Some:
  "find_idx P xs = Some i \<longleftrightarrow> i < length xs \<and> P (xs ! i) \<and> (\<forall>j < i. \<not> P (xs ! j))"
proof (induction xs arbitrary: i)
  case (Cons x xs)
  show ?case
  proof (cases i)
    case (Suc k)
    then show ?thesis using Cons.IH [of k] by (auto simp: less_Suc_eq_0_disj)
  qed auto
qed simp

lemma find_last_None: "find_last P xs = None \<longleftrightarrow> find_idx P xs = None"
  by (induction xs) (auto split: option.splits)

lemma find_last_SomeD: "find_last P xs = Some i \<Longrightarrow> i < length xs \<and> P (xs ! i)"
  by (induction xs arbitrary: i) (auto split: option.splits if_splits)

text \<open>The first and the last match agree when there is at most one.\<close>

lemma find_last_unique:
  assumes "\<And>i j. i < length xs \<Longrightarrow> j < length xs \<Longrightarrow> P (xs ! i) \<Longrightarrow> P (xs ! j) \<Longrightarrow> i = j"
  shows "find_last P xs = find_idx P xs"
proof (cases "find_idx P xs")
  case None
  then show ?thesis by (simp add: find_last_None)
next
  case (Some i)
  then obtain j where j: "find_last P xs = Some j"
    using find_last_None [of P xs] by fastforce
  have "i < length xs" "P (xs ! i)" using Some by (simp_all add: find_idx_Some)
  then show ?thesis
    using assms [of i j] find_last_SomeD [OF j] Some j by simp
qed

lemma find_idx_SomeD:
  assumes "find_idx P xs = Some i"
  shows "i < length xs" and "P (xs ! i)"
  using assms by (simp_all add: find_idx_Some)

lemma find_idx_exI: "i < length xs \<Longrightarrow> P (xs ! i) \<Longrightarrow> \<exists>j. find_idx P xs = Some j"
  using find_idx_None [of P xs] by (metis nth_mem option.exhaust)

lemma length_upd_nth [simp, slot_simps]: "length (upd_nth i f xs) = length xs"
  by (simp add: upd_nth_def)

lemma nth_upd_nth [slot_simps]:
  "j < length xs \<Longrightarrow> upd_nth i f xs ! j = (if j = i then f (xs ! j) else xs ! j)"
  by (simp add: upd_nth_def nth_list_update)

lemma nth_upd_nth_same [simp]: "i < length xs \<Longrightarrow> upd_nth i f xs ! i = f (xs ! i)"
  by (simp add: nth_upd_nth)

lemma nth_upd_nth_other [simp]: "i \<noteq> j \<Longrightarrow> upd_nth i f xs ! j = xs ! j"
  by (simp add: upd_nth_def)

lemma upd_nth_beyond: "length xs \<le> i \<Longrightarrow> upd_nth i f xs = xs"
  by (simp add: upd_nth_def list_update_beyond)

lemma map_upd_nth_same: "(\<And>x. g (f x) = g x) \<Longrightarrow> map g (upd_nth i f xs) = map g xs"
  by (cases "i < length xs")
    (auto simp: upd_nth_def map_update list_update_beyond intro!: nth_equalityI
      simp: nth_list_update)

lemma set_upd_nth: "y \<in> set (upd_nth i f xs) \<Longrightarrow> y \<in> set xs \<or> (i < length xs \<and> y = f (xs ! i))"
  by (auto simp: in_set_conv_nth nth_upd_nth split: if_splits)

lemma list_all_upd_nth:
  "\<forall>x \<in> set xs. P x \<Longrightarrow> (i < length xs \<Longrightarrow> P (f (xs ! i))) \<Longrightarrow> \<forall>x \<in> set (upd_nth i f xs). P x"
  by (auto dest: set_upd_nth)

text \<open>
  The slots in use, as pairs of index and slot, and the uniqueness of their keys. A slot
  table behaves as a finite map from keys to slots as long as the keys in use are unique.
\<close>

definition keys_unique :: "('e \<Rightarrow> bool) \<Rightarrow> ('e \<Rightarrow> 'k) \<Rightarrow> 'e list \<Rightarrow> bool" where
  "keys_unique used key xs \<longleftrightarrow>
     (\<forall>i < length xs. \<forall>j < length xs.
        used (xs ! i) \<longrightarrow> used (xs ! j) \<longrightarrow> key (xs ! i) = key (xs ! j) \<longrightarrow> i = j)"

definition slot_of :: "('e \<Rightarrow> bool) \<Rightarrow> ('e \<Rightarrow> 'k) \<Rightarrow> 'k \<Rightarrow> 'e list \<Rightarrow> nat option" where
  "slot_of used key k xs = find_idx (\<lambda>e. used e \<and> key e = k) xs"

definition free_slot :: "('e \<Rightarrow> bool) \<Rightarrow> 'e list \<Rightarrow> nat option" where
  "free_slot used xs = find_idx (\<lambda>e. \<not> used e) xs"

definition used_count :: "('e \<Rightarrow> bool) \<Rightarrow> 'e list \<Rightarrow> nat" where
  "used_count used xs = length (filter used xs)"

lemma keys_uniqueD:
  "keys_unique used key xs \<Longrightarrow> i < length xs \<Longrightarrow> j < length xs \<Longrightarrow> used (xs ! i) \<Longrightarrow>
   used (xs ! j) \<Longrightarrow> key (xs ! i) = key (xs ! j) \<Longrightarrow> i = j"
  by (auto simp: keys_unique_def)

text \<open>
  The contract of a slot type: \<open>release\<close> is the code's way to free a slot (clearing the flag
  or the whole slot), after which the slot does not count as in use.
\<close>

locale slot_table =
  fixes used :: "'e \<Rightarrow> bool"
    and key :: "'e \<Rightarrow> 'k"
    and release :: "'e \<Rightarrow> 'e"
  assumes release_unused: "\<not> used (release e)"
begin

lemma unique_release:
  "keys_unique used key xs \<Longrightarrow> keys_unique used key (upd_nth i release xs)"
  by (auto simp: keys_unique_def nth_upd_nth release_unused split: if_splits)

lemma unique_store:
  assumes "keys_unique used key xs"
    and "slot_of used key (key e) xs = None \<or> slot_of used key (key e) xs = Some i"
  shows "keys_unique used key (upd_nth i (\<lambda>_. e) xs)"
proof -
  have other: "j = i" if "j < length xs" "used (xs ! j)" "key (xs ! j) = key e" for j
    using assms(2)
  proof
    assume "slot_of used key (key e) xs = None"
    with that show ?thesis by (auto simp: slot_of_def find_idx_None)
  next
    assume "slot_of used key (key e) xs = Some i"
    then have "i < length xs" "used (xs ! i)" "key (xs ! i) = key e"
      by (auto simp: slot_of_def dest: find_idx_SomeD)
    with that assms(1) show ?thesis by (auto intro: keys_uniqueD)
  qed
  show ?thesis
    unfolding keys_unique_def
  proof (intro allI impI)
    fix a b
    assume ab: "a < length (upd_nth i (\<lambda>_. e) xs)" "b < length (upd_nth i (\<lambda>_. e) xs)"
      and u: "used (upd_nth i (\<lambda>_. e) xs ! a)" "used (upd_nth i (\<lambda>_. e) xs ! b)"
      and k: "key (upd_nth i (\<lambda>_. e) xs ! a) = key (upd_nth i (\<lambda>_. e) xs ! b)"
    have at: "used (xs ! c)" "key (xs ! c) = key (upd_nth i (\<lambda>_. e) xs ! c)"
      if "c \<noteq> i" "used (upd_nth i (\<lambda>_. e) xs ! c)" for c
      using that by simp_all
    have ei: "key (upd_nth i (\<lambda>_. e) xs ! i) = key e" if "i < length xs"
      using that by simp
    show "a = b"
      using other [of a] other [of b] at [of a] at [of b] ei ab u k
        keys_uniqueD [OF assms(1), of a b]
      by (metis length_upd_nth)
  qed
qed

lemma slot_of_store:
  assumes "keys_unique used key xs" and "i < length xs" and "used e"
    and "slot_of used key (key e) xs = None \<or> slot_of used key (key e) xs = Some i"
  shows "slot_of used key (key e) (upd_nth i (\<lambda>_. e) xs) = Some i"
proof -
  let ?ys = "upd_nth i (\<lambda>_. e) xs"
  have u: "keys_unique used key ?ys"
    using assms(1,4) by (rule unique_store)
  have "\<not> (used (?ys ! j) \<and> key (?ys ! j) = key e)" if "j < i" for j
    using keys_uniqueD [OF u, of j i] that assms(2,3) by auto
  then show ?thesis
    using assms(2,3) by (simp add: slot_of_def find_idx_Some)
qed

lemma slot_of_release:
  assumes "keys_unique used key xs" and "slot_of used key k xs = Some i"
  shows "slot_of used key k (upd_nth i release xs) = None"
proof -
  have i: "i < length xs" "used (xs ! i)" "key (xs ! i) = k"
    using assms(2) by (auto simp: slot_of_def dest: find_idx_SomeD)
  have "\<not> (used (upd_nth i release xs ! j) \<and> key (upd_nth i release xs ! j) = k)"
    if "j < length xs" for j
    using keys_uniqueD [OF assms(1), of j i] that i
    by (cases "j = i") (auto simp: release_unused)
  then show ?thesis
    by (simp add: slot_of_def find_idx_None_nth)
qed

lemma slot_of_release_other:
  assumes "keys_unique used key xs" and "slot_of used key k' xs = Some i" and "k \<noteq> k'"
  shows "slot_of used key k (upd_nth i release xs) = slot_of used key k xs"
proof -
  have i: "i < length xs" "key (xs ! i) = k'"
    using assms(2) by (auto simp: slot_of_def dest: find_idx_SomeD)
  have "find_idx P (upd_nth i release xs) = find_idx P xs"
    if "\<not> P (xs ! i)" and "\<not> P (release (xs ! i))" for P
    using that i(1)
    by (induction xs arbitrary: i) (auto simp: upd_nth_def split: nat.splits)
  then show ?thesis
    using i assms(3) by (simp add: slot_of_def release_unused)
qed

end

lemma used_count_Suc:
  assumes "i < length xs" and "\<not> used (xs ! i)" and "used e"
  shows "used_count used (upd_nth i (\<lambda>_. e) xs) = Suc (used_count used xs)"
  using assms by (induction xs arbitrary: i) (auto simp: used_count_def upd_nth_def split: nat.splits)

lemma used_count_le: "used_count used xs \<le> length xs"
  by (simp add: used_count_def)

subsection \<open>Node identifiers and hashing\<close>

text \<open>
  \<open>memcmp\<close> on two arrays of the same length: the sign of the first difference, as unsigned
  bytes. The FNV-1a step is shared by every hash of the program.
\<close>

fun memcmp :: "byte list \<Rightarrow> byte list \<Rightarrow> int" where
  "memcmp (a # as) (b # bs) = (if a < b then -1 else if b < a then 1 else memcmp as bs)"
| "memcmp _ _ = 0"

definition fnv_step :: "u32 \<Rightarrow> byte \<Rightarrow> u32" where
  "fnv_step h b = (h XOR ucast b) * 16777619"

lemma memcmp_refl [simp]: "memcmp a a = 0"
  by (induction a) auto

lemma memcmp_eq_0: "length a = length b \<Longrightarrow> memcmp a b = 0 \<longleftrightarrow> a = b"
  by (induction a b rule: memcmp.induct) auto

lemma memcmp_antisym: "memcmp b a = - memcmp a b"
  by (induction a b rule: memcmp.induct) auto

lemma memcmp_less_trans:
  "length a = length b \<Longrightarrow> length b = length c \<Longrightarrow> memcmp a b < 0 \<Longrightarrow> memcmp b c < 0 \<Longrightarrow> memcmp a c < 0"
proof (induction a b arbitrary: c rule: memcmp.induct)
  case (1 a as b bs)
  then obtain d ds where c: "c = d # ds" by (cases c) auto
  show ?case
    using 1 unfolding c by (auto split: if_splits)
qed auto

end
