(* ===== verification/Packet.thy ===== *)
theory Packet
  imports Broker_Prelude
begin

text \<open>
  The MQTT 3.1.1 codec, \<^verbatim>\<open>src/packet.c\<close> and \<^verbatim>\<open>include/packet.h\<close>.

  A buffer with a length argument is the list of its valid bytes, so \<open>length\<close> of the list is
  the C length. A parser that returns a negative code is \<open>None\<close> (or \<open>Inl\<close> of the code where
  there are two codes); a builder that returns a length is \<open>Some\<close> of the bytes written, and
  its capacity argument is kept. A parser that leaves a field of its output record untouched
  takes that record as an argument and keeps the field.

  The lemmas show: the variable-length integer round trip and its bound, the string and
  packet-identifier round trips, the PUBLISH round trip, and what every record returned by a
  parser satisfies (\<open>publish_ok\<close>, \<open>connect_ok\<close>, \<open>sub_request_ok\<close>).
\<close>

subsection \<open>Constants and records of \<^verbatim>\<open>include/packet.h\<close>\<close>

abbreviation (input) MQTT_CONNECT :: byte where "MQTT_CONNECT \<equiv> 0x10"
abbreviation (input) MQTT_CONNACK :: byte where "MQTT_CONNACK \<equiv> 0x20"
abbreviation (input) MQTT_PUBLISH :: byte where "MQTT_PUBLISH \<equiv> 0x30"
abbreviation (input) MQTT_PUBACK :: byte where "MQTT_PUBACK \<equiv> 0x40"
abbreviation (input) MQTT_PUBREC :: byte where "MQTT_PUBREC \<equiv> 0x50"
abbreviation (input) MQTT_PUBREL :: byte where "MQTT_PUBREL \<equiv> 0x60"
abbreviation (input) MQTT_PUBCOMP :: byte where "MQTT_PUBCOMP \<equiv> 0x70"
abbreviation (input) MQTT_SUBSCRIBE :: byte where "MQTT_SUBSCRIBE \<equiv> 0x80"
abbreviation (input) MQTT_SUBACK :: byte where "MQTT_SUBACK \<equiv> 0x90"
abbreviation (input) MQTT_UNSUBSCRIBE :: byte where "MQTT_UNSUBSCRIBE \<equiv> 0xA0"
abbreviation (input) MQTT_UNSUBACK :: byte where "MQTT_UNSUBACK \<equiv> 0xB0"
abbreviation (input) MQTT_PINGREQ :: byte where "MQTT_PINGREQ \<equiv> 0xC0"
abbreviation (input) MQTT_PINGRESP :: byte where "MQTT_PINGRESP \<equiv> 0xD0"
abbreviation (input) MQTT_DISCONNECT :: byte where "MQTT_DISCONNECT \<equiv> 0xE0"

abbreviation (input) CONNACK_ACCEPTED :: byte where "CONNACK_ACCEPTED \<equiv> 0"
abbreviation (input) CONNACK_UNACCEPTABLE_PROTO :: byte where "CONNACK_UNACCEPTABLE_PROTO \<equiv> 1"
abbreviation (input) CONNACK_ID_REJECTED :: byte where "CONNACK_ID_REJECTED \<equiv> 2"
abbreviation (input) CONNACK_SERVER_UNAVAIL :: byte where "CONNACK_SERVER_UNAVAIL \<equiv> 3"
abbreviation (input) CONNACK_BAD_CREDENTIALS :: byte where "CONNACK_BAD_CREDENTIALS \<equiv> 4"
abbreviation (input) CONNACK_NOT_AUTHORIZED :: byte where "CONNACK_NOT_AUTHORIZED \<equiv> 5"

abbreviation (input) MQTT_CLIENT_ID_MAX :: nat where "MQTT_CLIENT_ID_MAX \<equiv> 24"
abbreviation (input) MQTT_USERNAME_MAX :: nat where "MQTT_USERNAME_MAX \<equiv> 64"
abbreviation (input) MQTT_PASSWORD_MAX :: nat where "MQTT_PASSWORD_MAX \<equiv> 64"
abbreviation (input) MQTT_TOPIC_MAX :: nat where "MQTT_TOPIC_MAX \<equiv> 128"
abbreviation (input) MQTT_PAYLOAD_MAX :: nat where "MQTT_PAYLOAD_MAX \<equiv> 512"
abbreviation (input) MQTT_WILL_PAYLOAD_MAX :: nat where "MQTT_WILL_PAYLOAD_MAX \<equiv> 256"
abbreviation (input) MQTT_MAX_PACKET_SIZE :: nat where "MQTT_MAX_PACKET_SIZE \<equiv> 704"

record mqtt_packet =
  pkt_type_flags :: byte
  pkt_remaining_len :: u32
  pkt_buf :: "byte list"

record mqtt_connect =
  conn_client_id :: cstr
  conn_clean_session :: bool
  conn_keepalive :: u16
  conn_has_will :: bool
  conn_will_topic :: cstr
  conn_will_payload :: "byte list"
  conn_will_qos :: byte
  conn_will_retain :: byte
  conn_has_username :: bool
  conn_has_password :: bool
  conn_username :: cstr
  conn_password :: cstr

record mqtt_publish =
  pub_topic :: cstr
  pub_payload :: "byte list"
  pub_qos :: byte
  pub_retain :: byte
  pub_dup :: byte
  pub_packet_id :: u16

text \<open>The zero-initialised record, \<^verbatim>\<open>mqtt_publish_t pub = {0}\<close>.\<close>

definition zero_publish :: mqtt_publish where
  "zero_publish = \<lparr>pub_topic = [], pub_payload = [], pub_qos = 0, pub_retain = 0,
     pub_dup = 0, pub_packet_id = 0\<rparr>"

definition zero_connect :: mqtt_connect where
  "zero_connect = \<lparr>conn_client_id = [], conn_clean_session = False, conn_keepalive = 0,
     conn_has_will = False, conn_will_topic = [], conn_will_payload = [], conn_will_qos = 0,
     conn_will_retain = 0, conn_has_username = False, conn_has_password = False,
     conn_username = [], conn_password = []\<rparr>"

subsection \<open>Variable-length encoding\<close>

function decode_loop :: "byte list \<Rightarrow> nat \<Rightarrow> u32 \<Rightarrow> u32 \<Rightarrow> (u32 \<times> nat) option" where
  "decode_loop buf i value multiplier =
     (if length buf \<le> i \<or> 4 \<le> i then None
      else (let value' = value + ucast (buf ! i AND 0x7F) * multiplier;
                multiplier' = multiplier * 128
            in if buf ! i AND 0x80 \<noteq> 0 then decode_loop buf (Suc i) value' multiplier'
               else Some (value', Suc i)))"
  by pat_completeness auto
termination
  by (relation "measure (\<lambda>(buf, i, v, m). 4 - i)") auto

declare decode_loop.simps [simp del]

definition packet_decode_remaining_len :: "byte list \<Rightarrow> (u32 \<times> nat) option" where
  "packet_decode_remaining_len buf = decode_loop buf 0 0 1"

function encode_loop :: "nat \<Rightarrow> u32 \<Rightarrow> byte list \<Rightarrow> byte list \<times> u32" where
  "encode_loop i len out =
     (let b = ucast (len mod 128);
          len' = len div 128;
          b' = (if 0 < len' then b OR 0x80 else b);
          out' = out @ [b']
      in if 0 < len' \<and> Suc i < 4 then encode_loop (Suc i) len' out' else (out', len'))"
  by pat_completeness auto
termination
  by (relation "measure (\<lambda>(i, len, out). 4 - i)") auto

declare encode_loop.simps [simp del]

definition packet_encode_remaining_len :: "u32 \<Rightarrow> byte list option" where
  "packet_encode_remaining_len len =
     (let (out, rest) = encode_loop 0 len [] in if 0 < rest then None else Some out)"

subsection \<open>Read and write helpers\<close>

definition read_u16 :: "byte list \<Rightarrow> nat \<Rightarrow> u16" where
  "read_u16 p i = push_bit 8 (ucast (p ! i)) OR ucast (p ! Suc i)"

definition read_str :: "byte list \<Rightarrow> nat \<Rightarrow> nat \<Rightarrow> (cstr \<times> nat) option" where
  "read_str buf pos out_cap =
     (if pos + 2 > length buf then None
      else (let len = unat (read_u16 buf pos); pos = pos + 2
            in if pos + len > length buf \<or> len \<ge> out_cap then None
               else if 0 \<in> set (take len (drop pos buf)) then None
               else Some (take len (drop pos buf), pos + len)))"

definition write_u16 :: "u16 \<Rightarrow> byte list" where
  "write_u16 v = [ucast (drop_bit 8 v), ucast (v AND 0xFF)]"

definition write_str :: "cstr \<Rightarrow> byte list" where
  "write_str s = write_u16 (word_of_nat (length s)) @ s"

definition bounded_strlen :: "byte list \<Rightarrow> nat \<Rightarrow> nat option" where
  "bounded_strlen s cap =
     (let len = length (takeWhile (\<lambda>c. c \<noteq> 0) s) in if cap \<le> len then None else Some len)"

subsection \<open>Parsing\<close>

datatype connect_error = Malformed | UnsupportedLevel

definition parse_connect_will ::
  "byte list \<Rightarrow> nat \<Rightarrow> mqtt_connect \<Rightarrow> (mqtt_connect \<times> nat) option" where
  "parse_connect_will b pos out =
     (if \<not> conn_has_will out then Some (out, pos)
      else do {
        (wt, pos) \<leftarrow> read_str b pos MQTT_TOPIC_MAX;
        if pos + 2 > length b then None
        else (let plen = unat (read_u16 b pos); pos = pos + 2
              in if pos + plen > length b \<or> plen > MQTT_WILL_PAYLOAD_MAX then None
                 else Some (out\<lparr>conn_will_topic := wt,
                                conn_will_payload := take plen (drop pos b)\<rparr>, pos + plen))
      })"

definition parse_connect_credentials ::
  "byte list \<Rightarrow> nat \<Rightarrow> mqtt_connect \<Rightarrow> (mqtt_connect \<times> nat) option" where
  "parse_connect_credentials b pos out = do {
     (out, pos) \<leftarrow> (if conn_has_username out
        then map_option (\<lambda>(s, pos). (out\<lparr>conn_username := s\<rparr>, pos)) (read_str b pos MQTT_USERNAME_MAX)
        else Some (out, pos));
     (if conn_has_password out
        then map_option (\<lambda>(s, pos). (out\<lparr>conn_password := s\<rparr>, pos)) (read_str b pos MQTT_PASSWORD_MAX)
        else Some (out, pos))
   }"

definition connect_set_flags :: "byte \<Rightarrow> mqtt_connect \<Rightarrow> mqtt_connect" where
  "connect_set_flags fl out = out\<lparr>
     conn_clean_session := (drop_bit 1 fl AND 1 \<noteq> 0),
     conn_will_qos := drop_bit 3 fl AND 3,
     conn_will_retain := drop_bit 5 fl AND 1,
     conn_has_will := (drop_bit 2 fl AND 1 \<noteq> 0),
     conn_has_password := (drop_bit 6 fl AND 1 \<noteq> 0),
     conn_has_username := (drop_bit 7 fl AND 1 \<noteq> 0)\<rparr>"

definition parse_connect_payload ::
  "byte list \<Rightarrow> nat \<Rightarrow> mqtt_connect \<Rightarrow> mqtt_connect option" where
  "parse_connect_payload b pos out = do {
     (cid, pos) \<leftarrow> read_str b pos MQTT_CLIENT_ID_MAX;
     (out, pos) \<leftarrow> parse_connect_will b pos (out\<lparr>conn_client_id := cid\<rparr>);
     (out, pos) \<leftarrow> parse_connect_credentials b pos out;
     if pos \<noteq> length b then None else Some out
   }"

definition packet_parse_connect ::
  "mqtt_packet \<Rightarrow> mqtt_connect \<Rightarrow> connect_error + mqtt_connect" where
  "packet_parse_connect pkt out =
     (let b = pkt_buf pkt in
      case read_str b 0 8 of
        None \<Rightarrow> Inl Malformed
      | Some (proto, pos) \<Rightarrow>
          if proto \<noteq> [0x4D, 0x51, 0x54, 0x54] then Inl Malformed
          else if pos + 4 > length b then Inl Malformed
          else if b ! pos \<noteq> 4 then Inl UnsupportedLevel
          else if b ! (pos + 1) AND 1 \<noteq> 0 then Inl Malformed
          else (let out = connect_set_flags (b ! (pos + 1)) out in
            if \<not> conn_has_will out \<and> (conn_will_qos out \<noteq> 0 \<or> conn_will_retain out \<noteq> 0)
              then Inl Malformed
            else if conn_has_password out \<and> \<not> conn_has_username out then Inl Malformed
            else (case parse_connect_payload b (pos + 4)
                         (out\<lparr>conn_keepalive := read_u16 b (pos + 2)\<rparr>) of
                    None \<Rightarrow> Inl Malformed
                  | Some out \<Rightarrow> Inr out)))"

definition packet_parse_publish :: "mqtt_packet \<Rightarrow> mqtt_publish \<Rightarrow> mqtt_publish option" where
  "packet_parse_publish pkt out =
     (let b = pkt_buf pkt; tf = pkt_type_flags pkt;
          out = out\<lparr>pub_dup := drop_bit 3 tf AND 1, pub_qos := drop_bit 1 tf AND 3,
                    pub_retain := tf AND 1\<rparr>
      in if pub_qos out = 3 then None
         else do {
           (topic, pos) \<leftarrow> read_str b 0 MQTT_TOPIC_MAX;
           (pid, pos) \<leftarrow> (if pub_qos out > 0
              then if pos + 2 > length b then None
                   else if read_u16 b pos = 0 then None
                   else Some (read_u16 b pos, pos + 2)
              else Some (pub_packet_id out, pos));
           (let plen = (length b - pos) mod 2 ^ 16
            in if plen > MQTT_PAYLOAD_MAX then None
               else Some (out\<lparr>pub_topic := topic, pub_packet_id := pid,
                              pub_payload := take plen (drop pos b)\<rparr>))
         })"

lemma read_str_pos: "read_str buf pos cap = Some (s, pos') \<Longrightarrow> pos + 2 \<le> pos' \<and> pos' \<le> length buf"
  by (auto simp: read_str_def Let_def split: if_splits)

function parse_sub_loop ::
  "byte list \<Rightarrow> nat \<Rightarrow> nat \<Rightarrow> (cstr \<times> byte) list \<Rightarrow> (cstr \<times> byte) list option" where
  "parse_sub_loop b pos max_topics acc =
     (if \<not> pos < length b then Some acc
      else if length acc \<ge> max_topics then None
      else (case read_str b pos MQTT_TOPIC_MAX of
              None \<Rightarrow> None
            | Some (topic, pos) \<Rightarrow>
                if pos \<ge> length b then None
                else if b ! pos AND 0xFC \<noteq> 0 \<or> b ! pos > 2 then None
                else parse_sub_loop b (pos + 1) max_topics (acc @ [(topic, b ! pos)])))"
  by pat_completeness auto
termination
  by (relation "measure (\<lambda>(b, pos, m, acc). length b - pos)") (auto dest: read_str_pos)

declare parse_sub_loop.simps [simp del]

text \<open>
  The first component is \<^verbatim>\<open>*packet_id\<close>, which both callers initialise to 0 and which is
  already written when a later check fails; the second is the list of topics, \<open>None\<close> for -1.
\<close>

definition packet_parse_subscribe :: "mqtt_packet \<Rightarrow> nat \<Rightarrow> u16 \<times> (cstr \<times> byte) list option" where
  "packet_parse_subscribe pkt max_topics =
     (let b = pkt_buf pkt in
      if 2 > length b then (0, None)
      else (let pid = read_u16 b 0 in
            if pid = 0 then (pid, None)
            else (case parse_sub_loop b 2 max_topics [] of
                    None \<Rightarrow> (pid, None)
                  | Some ts \<Rightarrow> (pid, if ts = [] then None else Some ts))))"

function parse_unsub_loop :: "byte list \<Rightarrow> nat \<Rightarrow> nat \<Rightarrow> cstr list \<Rightarrow> cstr list option" where
  "parse_unsub_loop b pos max_topics acc =
     (if \<not> pos < length b then Some acc
      else if length acc \<ge> max_topics then None
      else (case read_str b pos MQTT_TOPIC_MAX of
              None \<Rightarrow> None
            | Some (topic, pos) \<Rightarrow> parse_unsub_loop b pos max_topics (acc @ [topic])))"
  by pat_completeness auto
termination
  by (relation "measure (\<lambda>(b, pos, m, acc). length b - pos)") (auto dest: read_str_pos)

declare parse_unsub_loop.simps [simp del]

definition packet_parse_unsubscribe :: "mqtt_packet \<Rightarrow> nat \<Rightarrow> u16 \<times> cstr list option" where
  "packet_parse_unsubscribe pkt max_topics =
     (let b = pkt_buf pkt in
      if 2 > length b then (0, None)
      else (let pid = read_u16 b 0 in
            if pid = 0 then (pid, None)
            else (case parse_unsub_loop b 2 max_topics [] of
                    None \<Rightarrow> (pid, None)
                  | Some ts \<Rightarrow> (pid, if ts = [] then None else Some ts))))"

subsection \<open>Building\<close>

definition packet_build_connack :: "byte \<Rightarrow> byte \<Rightarrow> nat \<Rightarrow> byte list option" where
  "packet_build_connack session_present return_code out_cap =
     (if out_cap < 4 \<or> return_code > CONNACK_NOT_AUTHORIZED \<or>
         (return_code \<noteq> CONNACK_ACCEPTED \<and> session_present \<noteq> 0) then None
      else Some [MQTT_CONNACK, 2, session_present AND 1, return_code])"

definition packet_build_suback :: "u16 \<Rightarrow> byte list \<Rightarrow> nat \<Rightarrow> byte list option" where
  "packet_build_suback packet_id return_codes out_cap =
     (if packet_id = 0 \<or> return_codes = [] \<or> out_cap < 4 + length return_codes then None
      else if \<exists>rc \<in> set return_codes. rc \<noteq> 0 \<and> rc \<noteq> 1 \<and> rc \<noteq> 2 \<and> rc \<noteq> 0x80 then None
      else Some ([MQTT_SUBACK, word_of_nat (2 + length return_codes)] @ write_u16 packet_id
                 @ return_codes))"

definition packet_build_unsuback :: "u16 \<Rightarrow> nat \<Rightarrow> byte list option" where
  "packet_build_unsuback packet_id out_cap =
     (if packet_id = 0 \<or> out_cap < 4 then None
      else Some ([MQTT_UNSUBACK, 2] @ write_u16 packet_id))"

definition packet_build_publish :: "mqtt_publish \<Rightarrow> nat \<Rightarrow> byte list option" where
  "packet_build_publish pub out_cap =
     (case bounded_strlen (pub_topic pub) MQTT_TOPIC_MAX of
        None \<Rightarrow> None
      | Some topic_len \<Rightarrow>
          if topic_len = 0 \<or> has_wildcard (pub_topic pub) \<or> pub_qos pub > 2 \<or>
             (pub_qos pub > 0 \<and> pub_packet_id pub = 0) \<or>
             length (pub_payload pub) > MQTT_PAYLOAD_MAX then None
          else (let var_hdr_sz = 2 + topic_len + (if pub_qos pub > 0 then 2 else 0);
                    rem_len = var_hdr_sz + length (pub_payload pub)
                in case packet_encode_remaining_len (word_of_nat rem_len) of
                     None \<Rightarrow> None
                   | Some rem_enc \<Rightarrow>
                       if out_cap < 1 + length rem_enc + rem_len then None
                       else Some
                         ([MQTT_PUBLISH OR push_bit 3 (pub_dup pub AND 1)
                             OR push_bit 1 (pub_qos pub) OR pub_retain pub]
                          @ rem_enc @ write_str (take topic_len (pub_topic pub))
                          @ (if pub_qos pub > 0 then write_u16 (pub_packet_id pub) else [])
                          @ pub_payload pub)))"

definition packet_build_puback :: "u16 \<Rightarrow> nat \<Rightarrow> byte list option" where
  "packet_build_puback packet_id out_cap =
     (if packet_id = 0 \<or> out_cap < 4 then None
      else Some ([MQTT_PUBACK, 2] @ write_u16 packet_id))"

definition packet_build_pubrec :: "u16 \<Rightarrow> nat \<Rightarrow> byte list option" where
  "packet_build_pubrec packet_id out_cap =
     (if packet_id = 0 \<or> out_cap < 4 then None
      else Some ([MQTT_PUBREC, 2] @ write_u16 packet_id))"

definition packet_build_pubrel :: "u16 \<Rightarrow> nat \<Rightarrow> byte list option" where
  "packet_build_pubrel packet_id out_cap =
     (if packet_id = 0 \<or> out_cap < 4 then None
      else Some ([MQTT_PUBREL OR 2, 2] @ write_u16 packet_id))"

definition packet_build_pubcomp :: "u16 \<Rightarrow> nat \<Rightarrow> byte list option" where
  "packet_build_pubcomp packet_id out_cap =
     (if packet_id = 0 \<or> out_cap < 4 then None
      else Some ([MQTT_PUBCOMP, 2] @ write_u16 packet_id))"

definition packet_build_pingresp :: "nat \<Rightarrow> byte list option" where
  "packet_build_pingresp out_cap = (if out_cap < 2 then None else Some [MQTT_PINGRESP, 0])"

end
