(* ===== verification/Broker_State.thy ===== *)
theory Broker_State
  imports Packet
begin

text \<open>
  The state the broker's translation units share: the client pool of \<^verbatim>\<open>src/client.c\<close>, the
  session pool of \<^verbatim>\<open>src/session.c\<close>, the subscription table and retained store of
  \<^verbatim>\<open>src/topic.c\<close>, and the sockets, clock and peer network they act on.

  \<^item> A \<open>client_t *\<close> is the index of the client in the pool; a \<open>session_t *\<close> the index in the
    session pool. The pools allocated on first use (\<open>sessions\<close>, \<open>retains\<close>) are \<open>None\<close> until
    then; \<open>bk_calloc_ok\<close> says whether an allocation succeeds.
  \<^item> The link fields of the subscription indexes hold a slot or a negative number: here
    \<open>nat option\<close>.
  \<^item> The socket layer is outside the repository. A socket is a script: \<open>so_tx\<close> lists the results of
    the next calls of \<open>plat_send\<close> (when it runs out the socket accepts what it is given),
    \<open>so_rx\<close> what the next calls of \<open>plat_recv\<close> see (when it runs out they time out). All
    statements are for arbitrary scripts.
  \<^item> \<open>bk_cfg_p2p\<close> and \<open>bk_cfg_auth\<close> are the build options \<open>CONFIG_MQTT_P2P_DYNAMIC\<close> and
    \<open>CONFIG_MQTT_AUTH_ENABLED\<close> (with the configured user name and password); no code changes them.
  \<^item> \<open>bk_p2p\<close> is the list of calls made into the peer network, in order.
  \<^item> \<open>th_errno\<close> is the thread-local \<open>errno\<close>, which a failing \<open>plat_recv\<close> sets and nothing resets.
\<close>

subsection \<open>Records\<close>

abbreviation (input) CLIENT_INFLIGHT_MAX :: nat where "CLIENT_INFLIGHT_MAX \<equiv> 4"
abbreviation (input) CLIENT_INFLIGHT_RETRY_MS :: int where "CLIENT_INFLIGHT_RETRY_MS \<equiv> 5000"
abbreviation (input) CLIENT_QOS2_IN_MAX :: nat where "CLIENT_QOS2_IN_MAX \<equiv> 4"
abbreviation (input) SESSION_QUEUE_MAX :: nat where "SESSION_QUEUE_MAX \<equiv> 8"
abbreviation (input) SESSION_SUB_MAX :: nat where "SESSION_SUB_MAX \<equiv> 4"
abbreviation (input) TOPIC_RETAIN_MAX :: nat where "TOPIC_RETAIN_MAX \<equiv> 8"

record inflight =
  if_packet_id :: u16
  if_buf :: "byte list"
  if_sent_at_ms :: int
  if_in_use :: bool
  if_qos :: byte
  if_waiting_pubcomp :: bool

record qos2_in =
  q2_packet_id :: u16
  q2_in_use :: bool

datatype client_state = CLIENT_STATE_FREE | CLIENT_STATE_CONNECTED | CLIENT_STATE_DISCONNECTING

record client =
  cl_fd :: int
  cl_state :: client_state
  cl_slot :: nat
  cl_client_id :: cstr
  cl_clean_session :: bool
  cl_keepalive :: u16
  cl_last_seen_ms :: int
  cl_will :: mqtt_publish
  cl_has_will :: bool
  cl_next_packet_id :: u16
  cl_inflight :: "inflight list"
  cl_qos2_in :: "qos2_in list"

record session_msg =
  msg_topic :: cstr
  msg_payload :: "byte list"
  msg_qos :: byte
  msg_packet_id :: u16
  msg_dup :: byte
  msg_in_use :: bool

record session =
  ses_client_id :: cstr
  ses_in_use :: bool
  ses_offline :: bool
  ses_next_packet_id :: u16
  ses_subs :: "(cstr \<times> byte) list"
  ses_queue :: "session_msg list"

record sub_entry =
  sub_client :: nat
  sub_filter :: cstr
  sub_qos :: byte
  sub_in_use :: bool
  sub_exact_next :: "nat option"
  sub_wildcard_next :: "nat option"
  sub_is_exact :: bool

record retain_entry =
  ret_topic :: cstr
  ret_payload :: "byte list"
  ret_qos :: byte
  ret_in_use :: bool

datatype errno = EOK | EAGAIN | ETIMEDOUT | EOTHER

datatype rx_event = RxData "byte list" | RxClosed | RxError errno

record sock =
  so_tx :: "int list"
  so_rx :: "rx_event list"
  so_sent :: "byte list"
  so_closed :: bool
  so_timeout :: nat

datatype p2p_event =
    P2PSubscribe cstr byte
  | P2PUnsubscribe cstr
  | P2PPublish mqtt_publish

datatype phase = ThreadIdle | ThreadFirst | ThreadLoop | ThreadRecv

record thread =
  th_phase :: phase
  th_errno :: errno

record broker =
  bk_cfg_p2p :: bool
  bk_cfg_auth :: "(cstr \<times> cstr) option"
  bk_clients :: "client list"
  bk_threads :: "thread list"
  bk_subs :: "sub_entry list"
  bk_exact_heads :: "nat option list"
  bk_wildcard_head :: "nat option"
  bk_retains :: "retain_entry list option"
  bk_sessions :: "session list option"
  bk_calloc_ok :: bool
  bk_socks :: "int \<Rightarrow> sock"
  bk_now :: int
  bk_p2p :: "p2p_event list"
  bk_activity :: nat

text \<open>The contents of zeroed memory.\<close>

definition zero_inflight :: inflight where
  "zero_inflight = \<lparr>if_packet_id = 0, if_buf = [], if_sent_at_ms = 0, if_in_use = False, if_qos = 0,
     if_waiting_pubcomp = False\<rparr>"

definition zero_qos2_in :: qos2_in where
  "zero_qos2_in = \<lparr>q2_packet_id = 0, q2_in_use = False\<rparr>"

definition zero_client :: client where
  "zero_client = \<lparr>cl_fd = 0, cl_state = CLIENT_STATE_FREE, cl_slot = 0, cl_client_id = [],
     cl_clean_session = False, cl_keepalive = 0, cl_last_seen_ms = 0, cl_will = zero_publish,
     cl_has_will = False, cl_next_packet_id = 0,
     cl_inflight = replicate CLIENT_INFLIGHT_MAX zero_inflight,
     cl_qos2_in = replicate CLIENT_QOS2_IN_MAX zero_qos2_in\<rparr>"

definition zero_msg :: session_msg where
  "zero_msg = \<lparr>msg_topic = [], msg_payload = [], msg_qos = 0, msg_packet_id = 0, msg_dup = 0,
     msg_in_use = False\<rparr>"

definition zero_session :: session where
  "zero_session = \<lparr>ses_client_id = [], ses_in_use = False, ses_offline = False,
     ses_next_packet_id = 0, ses_subs = [], ses_queue = replicate SESSION_QUEUE_MAX zero_msg\<rparr>"

definition zero_sub :: sub_entry where
  "zero_sub = \<lparr>sub_client = 0, sub_filter = [], sub_qos = 0, sub_in_use = False,
     sub_exact_next = None, sub_wildcard_next = None, sub_is_exact = False\<rparr>"

definition zero_retain :: retain_entry where
  "zero_retain = \<lparr>ret_topic = [], ret_payload = [], ret_qos = 0, ret_in_use = False\<rparr>"

text \<open>
  Static storage when the program starts, before any \<open>init\<close> function has run: \<open>n\<close> clients, \<open>m\<close>
  subscription slots, and index heads that are still zero.
\<close>

definition static_broker :: "nat \<Rightarrow> nat \<Rightarrow> (int \<Rightarrow> sock) \<Rightarrow> broker" where
  "static_broker n m socks = \<lparr>bk_cfg_p2p = True, bk_cfg_auth = None, bk_clients = replicate n zero_client,
     bk_threads = replicate n \<lparr>th_phase = ThreadIdle, th_errno = EOK\<rparr>,
     bk_subs = replicate m zero_sub, bk_exact_heads = replicate m (Some 0),
     bk_wildcard_head = Some 0, bk_retains = None, bk_sessions = None, bk_calloc_ok = True,
     bk_socks = socks, bk_now = 0, bk_p2p = [], bk_activity = 0\<rparr>"

definition client_pool_init :: "broker \<Rightarrow> broker" where
  "client_pool_init b = b\<lparr>bk_clients :=
     map (\<lambda>i. zero_client\<lparr>cl_slot := i, cl_state := CLIENT_STATE_FREE, cl_fd := -1\<rparr>)
       [0..<length (bk_clients b)]\<rparr>"

text \<open>A socket without traffic that accepts everything, and a pool of idle clients on such sockets.\<close>

definition quiet_sock :: sock where
  "quiet_sock = \<lparr>so_tx = [], so_rx = [], so_sent = [], so_closed = False, so_timeout = 0\<rparr>"

definition idle_broker :: "nat \<Rightarrow> nat \<Rightarrow> broker" where
  "idle_broker n m = client_pool_init (static_broker n m (\<lambda>_. quiet_sock))"

subsection \<open>Access\<close>

definition client_at :: "broker \<Rightarrow> nat \<Rightarrow> client" where
  "client_at b c = bk_clients b ! c"

definition upd_client :: "nat \<Rightarrow> (client \<Rightarrow> client) \<Rightarrow> broker \<Rightarrow> broker" where
  "upd_client c f b = b\<lparr>bk_clients := upd_nth c f (bk_clients b)\<rparr>"

definition set_state :: "client_state \<Rightarrow> client \<Rightarrow> client" where
  "set_state s cl = cl\<lparr>cl_state := s\<rparr>"

definition upd_sock :: "int \<Rightarrow> (sock \<Rightarrow> sock) \<Rightarrow> broker \<Rightarrow> broker" where
  "upd_sock fd f b = b\<lparr>bk_socks := (bk_socks b)(fd := f (bk_socks b fd))\<rparr>"

definition p2p_emit :: "p2p_event \<Rightarrow> broker \<Rightarrow> broker" where
  "p2p_emit e b = b\<lparr>bk_p2p := bk_p2p b @ [e]\<rparr>"

subsection \<open>The socket layer\<close>

definition plat_send :: "byte list \<Rightarrow> sock \<Rightarrow> int \<times> sock" where
  "plat_send buf s =
     (case so_tx s of
        [] \<Rightarrow> (int (length buf), s\<lparr>so_sent := so_sent s @ buf\<rparr>)
      | r # rs \<Rightarrow>
          if r \<le> 0 then (r, s\<lparr>so_tx := rs\<rparr>)
          else (int (min (nat r) (length buf)),
                s\<lparr>so_tx := rs, so_sent := so_sent s @ take (nat r) buf\<rparr>))"

definition plat_recv :: "nat \<Rightarrow> sock \<Rightarrow> (errno option + byte list) \<times> sock" where
  "plat_recv n s =
     (case so_rx s of
        [] \<Rightarrow> (Inl (Some EAGAIN), s)
      | RxClosed # _ \<Rightarrow> (Inl None, s)
      | RxError e # rs \<Rightarrow> (Inl (Some e), s\<lparr>so_rx := rs\<rparr>)
      | RxData bs # rs \<Rightarrow>
          if bs = [] then (Inl None, s\<lparr>so_rx := rs\<rparr>)
          else (Inr (take n bs),
                s\<lparr>so_rx := (if length bs \<le> n then rs else RxData (drop n bs) # rs)\<rparr>))"

text \<open>\<open>accepting\<close>: the socket takes every frame it is given, now and later.\<close>

definition accepting :: "sock \<Rightarrow> bool" where
  "accepting s \<longleftrightarrow> so_tx s = []"

lemma plat_send_progress:
  "plat_send buf s = (n, s') \<Longrightarrow> buf \<noteq> [] \<Longrightarrow> 0 < n \<Longrightarrow> 0 < nat n \<and> nat n \<le> length buf"
  by (auto simp: plat_send_def split: list.splits if_splits)

lemma plat_recv_progress:
  "plat_recv n s = (Inr bs, s') \<Longrightarrow> 0 < n \<Longrightarrow> 0 < length bs \<and> length bs \<le> n"
  by (auto simp: plat_recv_def split: list.splits rx_event.splits if_splits)

text \<open>The loop of \<open>client_send\<close>.\<close>

function send_loop :: "byte list \<Rightarrow> sock \<Rightarrow> bool \<times> sock" where
  "send_loop buf s =
     (if buf = [] then (True, s)
      else let (sent, s') = plat_send buf s
           in if sent \<le> 0 then (False, s') else send_loop (drop (nat sent) buf) s')"
  by pat_completeness auto
termination
  by (relation "measure (\<lambda>(buf, s). length buf)") (auto dest!: plat_send_progress [OF sym])

declare send_loop.simps [simp del]

definition client_send :: "nat \<Rightarrow> byte list \<Rightarrow> broker \<Rightarrow> broker" where
  "client_send c buf b =
     (let fd = cl_fd (client_at b c);
          (ok, s) = send_loop buf (bk_socks b fd);
          b = upd_sock fd (\<lambda>_. s) b
      in if ok then b else upd_client c (set_state CLIENT_STATE_DISCONNECTING) b)"

definition client_disconnect :: "nat \<Rightarrow> broker \<Rightarrow> broker" where
  "client_disconnect c b = upd_client c (set_state CLIENT_STATE_DISCONNECTING) b"

subsection \<open>Inflight slots\<close>

definition client_inflight_store :: "nat \<Rightarrow> u16 \<Rightarrow> byte list \<Rightarrow> byte \<Rightarrow> broker \<Rightarrow> broker" where
  "client_inflight_store c pid buf qos b =
     (case free_slot if_in_use (cl_inflight (client_at b c)) of
        None \<Rightarrow> b
      | Some i \<Rightarrow> upd_client c (\<lambda>cl. cl\<lparr>cl_inflight := upd_nth i
          (\<lambda>e. e\<lparr>if_packet_id := pid, if_buf := buf, if_sent_at_ms := bk_now b, if_in_use := True,
                 if_qos := qos, if_waiting_pubcomp := False\<rparr>) (cl_inflight cl)\<rparr>) b)"

definition client_inflight_ack :: "nat \<Rightarrow> u16 \<Rightarrow> broker \<Rightarrow> broker" where
  "client_inflight_ack c pid b =
     (case slot_of if_in_use if_packet_id pid (cl_inflight (client_at b c)) of
        None \<Rightarrow> b
      | Some i \<Rightarrow> upd_client c (\<lambda>cl. cl\<lparr>cl_inflight :=
          upd_nth i (\<lambda>e. e\<lparr>if_in_use := False\<rparr>) (cl_inflight cl)\<rparr>) b)"

definition set_dup :: "byte list \<Rightarrow> byte list" where
  "set_dup buf = upd_nth 0 (\<lambda>x. x OR 0x08) buf"

text \<open>One iteration of the loop of \<open>client_inflight_retry\<close>.\<close>

definition inflight_retry_slot :: "nat \<Rightarrow> nat \<Rightarrow> broker \<Rightarrow> broker" where
  "inflight_retry_slot c i b =
     (let e = cl_inflight (client_at b c) ! i in
      if \<not> if_in_use e then b
      else if bk_now b - if_sent_at_ms e < CLIENT_INFLIGHT_RETRY_MS then b
      else let e' = (if \<not> (if_qos e = 2 \<and> if_waiting_pubcomp e)
                     then e\<lparr>if_buf := set_dup (if_buf e)\<rparr> else e)\<lparr>if_sent_at_ms := bk_now b\<rparr>
           in client_send c (if_buf e')
                (upd_client c (\<lambda>cl. cl\<lparr>cl_inflight := upd_nth i (\<lambda>_. e') (cl_inflight cl)\<rparr>) b))"

definition client_inflight_retry :: "nat \<Rightarrow> broker \<Rightarrow> broker" where
  "client_inflight_retry c b =
     fold (inflight_retry_slot c) [0..<length (cl_inflight (client_at b c))] b"

end
