(* ===== verification/Packet_Correct.thy ===== *)
theory Packet_Correct
  imports Packet
begin

text \<open>
  Correctness of the codec of \<^verbatim>\<open>src/packet.c\<close>. For each packet type with a variable layout
  a wire form is given (\<open>connect_body\<close>, \<open>publish_body\<close>, \<open>sub_body\<close>, \<open>unsub_body\<close>) together with
  the records that have one (\<open>connect_ok\<close>, \<open>publish_ok\<close>, \<open>filter_ok\<close>), and the parser is shown to
  accept exactly the wire forms: every accepted buffer is the encoding of the record returned
  (the \<open>_inv\<close> lemmas) and every encoding is accepted (the \<open>_body\<close> lemmas). The properties at
  the end put the two directions together.
\<close>

subsection \<open>The variable-length integer\<close>

lemma encode_loop_acc:
  "encode_loop i len out = (out @ fst (encode_loop i len []), snd (encode_loop i len []))"
proof (induction "4 - i" arbitrary: i len out rule: less_induct)
  case less
  show ?case
  proof (cases "0 < len div 128 \<and> Suc i < 4")
    case True
    let ?b = "ucast (len mod 128) OR 0x80 :: byte"
    have "4 - Suc i < 4 - i" using True by (meson diff_less_mono2 lessI order.strict_trans)
    note IH = less [OF this]
    show ?thesis
      using True IH [of "len div 128" "out @ [?b]"] IH [of "len div 128" "[?b]"]
      by (subst (1 2 3) encode_loop.simps) (simp add: Let_def)
  next
    case False
    then show ?thesis by (subst (1 2 3) encode_loop.simps) (auto simp: Let_def)
  qed
qed

lemma low_digit:
  "ucast ((ucast (len mod 128) :: byte) AND 127) = (len mod 128 :: u32)"
  by (simp add: word_unat_eq_iff unat_ucast_byte_u32 unat_and_127 unat_ucast_u32_byte unat_mod
      mod_mod_cancel)

lemma low_digit_small: "unat (ucast (len mod 128 :: u32) :: byte) < 128"
  by (simp add: unat_ucast_u32_byte unat_mod)

lemma cont_digit:
  assumes "unat b < 128"
  shows "(b OR 128) AND 127 = b AND (127 :: byte)" and "(b OR 128) AND 128 \<noteq> (0 :: byte)"
  using assms by (simp_all add: word_unat_eq_iff unat_and_127 unat_or_128 and_128_eq_0)

lemma decode_encode_loop:
  assumes "encode_loop i len [] = (bs, 0)" and "i < 4" and "length pre = i"
  shows "decode_loop (pre @ bs @ rest) i v m = Some (v + len * m, i + length bs)"
  using assms
proof (induction "4 - i" arbitrary: i len bs pre v m rule: less_induct)
  case less
  let ?b = "ucast (len mod 128) :: byte"
  show ?case
  proof (cases "0 < len div 128 \<and> Suc i < 4")
    case True
    let ?b' = "?b OR 0x80"
    obtain bs' where bs: "bs = ?b' # bs'" and enc: "encode_loop (Suc i) (len div 128) [] = (bs', 0)"
      using less.prems(1) True
      by (subst (asm) encode_loop.simps)
        (auto simp: Let_def encode_loop_acc [of "Suc i" _ "[_]"] prod_eq_iff)
    have lt: "4 - Suc i < 4 - i"
      using True by (meson diff_less_mono2 lessI order.strict_trans)
    have "decode_loop ((pre @ [?b']) @ bs' @ rest) (Suc i) (v + (len mod 128) * m) (m * 128)
        = Some (v + (len mod 128) * m + (len div 128) * (m * 128), Suc i + length bs')"
      using less.hyps [OF lt enc, of "pre @ [?b']"] True less.prems(3) by simp
    moreover have "v + (len mod 128) * m + (len div 128) * (m * 128)
        = v + ((len div 128) * 128 + len mod 128) * m"
      by (simp add: algebra_simps)
    moreover have "(pre @ bs @ rest) ! i = ?b'"
      using less.prems(3) bs by (simp add: nth_append)
    ultimately show ?thesis
      using True less.prems(3) bs
      by (subst decode_loop.simps)
        (simp add: Let_def cont_digit [OF low_digit_small] low_digit word_mod_div_equality)
  next
    case False
    have bs: "bs = [?b]" and "len div 128 = 0"
      using less.prems(1) False
      by (subst (asm) encode_loop.simps, auto simp: Let_def word_neq_0_conv split: if_splits)+
    moreover have "len mod 128 = len"
      using word_mod_div_equality [of len 128] calculation(2) by simp
    moreover have "(pre @ bs @ rest) ! i = ?b"
      using less.prems(3) bs by (simp add: nth_append)
    ultimately show ?thesis
      using less.prems low_digit_small [of len] low_digit [of len]
      by (subst decode_loop.simps) (simp add: Let_def and_128_eq_0)
  qed
qed


lemma encode_loop_rest:
  "i < 4 \<Longrightarrow> unat (snd (encode_loop i len [])) = unat len div 128 ^ (4 - i)"
proof (induction "4 - i" arbitrary: i len rule: less_induct)
  case less
  show ?case
  proof (cases "0 < len div 128 \<and> Suc i < 4")
    case True
    then have "unat (snd (encode_loop (Suc i) (len div 128) [])) = unat (len div 128) div 128 ^ (4 - Suc i)"
      by (intro less.hyps) linarith+
    moreover have "4 - i = Suc (4 - Suc i)" using less.prems by simp
    ultimately show ?thesis
      using True
      by (subst encode_loop.simps)
        (simp add: Let_def encode_loop_acc [of "Suc i" _ "[_]"] unat_div div_mult2_eq)
  next
    case False
    have "unat (len div 128) = unat len div 128 ^ (4 - i)"
    proof (cases "Suc i < 4")
      case True
      with False have "len div 128 = 0" by (simp add: word_gt_0)
      then have "unat (len div 128) = 0" by simp
      then have "unat len div 128 = 0" by (simp add: unat_div)
      then have "unat len < 128" by (simp add: div_eq_0_iff)
      moreover have "128 ^ 1 \<le> (128 :: nat) ^ (4 - i)"
        using True by (intro power_increasing) simp_all
      ultimately show ?thesis by (simp add: unat_div)
    next
      case False
      with less.prems have "i = 3" by simp
      then show ?thesis by (simp add: unat_div)
    qed
    then show ?thesis using False by (subst encode_loop.simps) (auto simp: Let_def)
  qed
qed

lemma length_encode_loop: "i < 4 \<Longrightarrow> length (fst (encode_loop i len [])) + i \<le> 4
    \<and> fst (encode_loop i len []) \<noteq> []"
proof (induction "4 - i" arbitrary: i len rule: less_induct)
  case less
  show ?case
  proof (cases "0 < len div 128 \<and> Suc i < 4")
    case True
    then have "length (fst (encode_loop (Suc i) (len div 128) [])) + Suc i \<le> 4"
      using less.hyps [of "Suc i" "len div 128"] less.prems by linarith
    then show ?thesis
      using True
      by (subst (1 2) encode_loop.simps) (simp add: Let_def encode_loop_acc [of "Suc i" _ "[_]"])
  next
    case False
    then show ?thesis using less.prems by (subst (1 2) encode_loop.simps) (auto simp: Let_def)
  qed
qed

lemma encode_Some_iff: "(\<exists>bs. packet_encode_remaining_len len = Some bs) \<longleftrightarrow> unat len < 2 ^ 28"
proof -
  have "unat (snd (encode_loop 0 len [])) = unat len div 2 ^ 28"
    using encode_loop_rest [of 0 len] by simp
  then have "snd (encode_loop 0 len []) = 0 \<longleftrightarrow> unat len < 2 ^ 28"
    by (simp add: unat_eq_0 [symmetric] div_eq_0_iff)
  then show ?thesis
    by (auto simp: packet_encode_remaining_len_def word_gt_0 split: prod.splits)
qed

lemma encode_length: "packet_encode_remaining_len len = Some bs \<Longrightarrow> 0 < length bs \<and> length bs \<le> 4"
  using length_encode_loop [of 0 len]
  by (auto simp: packet_encode_remaining_len_def split: prod.splits if_splits)

lemma decode_encode:
  assumes "packet_encode_remaining_len len = Some bs"
  shows "packet_decode_remaining_len (bs @ rest) = Some (len, length bs)"
proof -
  have "encode_loop 0 len [] = (bs, 0)"
    using assms by (auto simp: packet_encode_remaining_len_def word_gt_0 split: prod.splits if_splits)
  from decode_encode_loop [OF this, of "[]" rest 0 1] show ?thesis
    by (simp add: packet_decode_remaining_len_def)
qed

lemma decode_loop_bound:
  "decode_loop buf i v m = Some (x, k) \<Longrightarrow> unat v < 128 ^ i \<Longrightarrow> m = 128 ^ i \<Longrightarrow>
   unat x < 128 ^ k \<and> i < k \<and> k \<le> 4 \<and> k \<le> length buf"
proof (induction buf i v m rule: decode_loop.induct)
  case (1 buf i v m)
  let ?d = "ucast (buf ! i AND 0x7F) :: u32"
  have i: "i < 4" "i < length buf"
    using "1.prems"(1) by (auto simp: decode_loop.simps [of buf i] split: if_splits)
  have d: "unat ?d < 128" by (simp add: unat_ucast_byte_u32 unat_and_127)
  have "i = 0 \<or> i = 1 \<or> i = 2 \<or> i = 3" using i(1) by arith
  then have m: "unat (128 ^ i :: u32) = 128 ^ i" by (elim disjE) simp_all
  have "unat ?d * 128 ^ i \<le> 127 * 128 ^ i" using d by (intro mult_le_mono1) simp
  with "1.prems"(2) have "unat v + unat ?d * 128 ^ i < 128 ^ Suc i"
    unfolding power_Suc by linarith
  moreover have "(128 :: nat) ^ Suc i \<le> 128 ^ 4"
    using i(1) by (intro power_increasing) simp_all
  ultimately have v': "unat (v + ?d * m) < 128 ^ Suc i"
    using "1.prems"(3) m by (simp add: unat_word_ariths)
  have m': "m * 128 = 128 ^ Suc i" using "1.prems"(3) by simp
  show ?case
  proof (cases "buf ! i AND 0x80 \<noteq> 0")
    case True
    with "1.prems"(1) i have "decode_loop buf (Suc i) (v + ?d * m) (m * 128) = Some (x, k)"
      by (simp add: decode_loop.simps [of buf i] Let_def)
    with "1.IH" [OF _ refl refl True] i v' m' show ?thesis by force
  next
    case False
    with "1.prems"(1) i have "x = v + ?d * m \<and> k = Suc i"
      by (simp add: decode_loop.simps [of buf i] Let_def)
    with i v' show ?thesis by simp
  qed
qed

lemma decode_bound:
  "packet_decode_remaining_len buf = Some (x, k) \<Longrightarrow> unat x < 2 ^ 28 \<and> 0 < k \<and> k \<le> 4 \<and> k \<le> length buf"
proof -
  assume *: "packet_decode_remaining_len buf = Some (x, k)"
  then have d: "unat x < 128 ^ k" "0 < k" "k \<le> 4" "k \<le> length buf"
    using decode_loop_bound [of buf 0 0 1 x k] by (simp_all add: packet_decode_remaining_len_def)
  have "(128 :: nat) ^ k \<le> 128 ^ 4" using d(3) by (intro power_increasing) simp_all
  with d show ?thesis by simp
qed


subsection \<open>Identifiers and strings\<close>

lemma length_write_u16 [simp]: "length (write_u16 v) = 2"
  by (simp add: write_u16_def)

lemma read_u16_append: "length pre = i \<Longrightarrow> read_u16 (pre @ write_u16 v @ rest) i = v"
  using u16_split_join [of v] by (simp add: read_u16_def write_u16_def nth_append)

lemma length_write_str [simp]: "length (write_str s) = length s + 2"
  by (simp add: write_str_def)

lemma read_str_append:
  assumes "length pre = i" and "length s < cap" and "cap \<le> 2 ^ 16" and "cstr_ok s"
  shows "read_str (pre @ write_str s @ rest) i cap = Some (s, i + 2 + length s)"
proof -
  have "unat (word_of_nat (length s) :: u16) = length s"
    using assms(2,3) by (simp add: unat_of_nat)
  moreover have "read_u16 (pre @ write_str s @ rest) i = word_of_nat (length s)"
    using read_u16_append [OF assms(1), of "word_of_nat (length s)" "s @ rest"]
    by (simp add: write_str_def)
  ultimately show ?thesis
    using assms(1,2,4) by (simp add: read_str_def Let_def write_str_def cstr_ok_def)
qed

lemma read_str_ok:
  assumes "read_str buf pos cap = Some (s, pos')"
  shows "cstr_ok s" and "length s < cap" and "pos' = pos + 2 + length s" and "pos' \<le> length buf"
    and "s = take (length s) (drop (pos + 2) buf)"
  using assms by (auto simp: read_str_def Let_def cstr_ok_def split: if_splits)


subsection \<open>PUBLISH\<close>

text \<open>What every parsed PUBLISH satisfies, and what the builder accepts.\<close>

definition publish_ok :: "mqtt_publish \<Rightarrow> bool" where
  "publish_ok p \<longleftrightarrow>
     cstr_ok (pub_topic p) \<and> length (pub_topic p) < MQTT_TOPIC_MAX \<and>
     length (pub_payload p) \<le> MQTT_PAYLOAD_MAX \<and>
     pub_qos p \<le> 2 \<and> pub_retain p \<le> 1 \<and> pub_dup p \<le> 1 \<and>
     (pub_qos p > 0 \<longrightarrow> pub_packet_id p \<noteq> 0)"

text \<open>A message whose packet id is still to be chosen.\<close>

definition message_ok :: "mqtt_publish \<Rightarrow> bool" where
  "message_ok p \<longleftrightarrow> publish_ok (p\<lparr>pub_packet_id := 1\<rparr>)"

lemma publish_message_ok: "publish_ok p \<Longrightarrow> message_ok p"
  by (simp add: message_ok_def publish_ok_def)

lemma message_copy_ok:
  assumes "message_ok p" and "q \<le> pub_qos p" and "q > 0 \<longrightarrow> i \<noteq> 0"
  shows "publish_ok (p\<lparr>pub_qos := q, pub_packet_id := i\<rparr>)"
    and "publish_ok (p\<lparr>pub_retain := 0, pub_qos := q, pub_packet_id := i\<rparr>)"
  using assms by (auto simp: message_ok_def publish_ok_def)

definition topic_publishable :: "cstr \<Rightarrow> bool" where
  "topic_publishable t \<longleftrightarrow> t \<noteq> [] \<and> \<not> has_wildcard t"

lemma and_1_le: "(x :: byte) AND 1 \<le> 1"
  by (rule word_and_le1)

lemma and_3_cases: "(x :: byte) AND 3 \<noteq> 3 \<Longrightarrow> x AND 3 \<le> 2"
proof -
  assume "x AND 3 \<noteq> 3"
  moreover have "x AND 3 \<le> 3" by (rule word_and_le1)
  ultimately show ?thesis by (simp add: word_le_nat_alt word_unat_eq_iff)
qed

lemma parse_publish_cases:
  assumes "packet_parse_publish pkt out = Some p"
  obtains topic pos pid pos' where
    "read_str (pkt_buf pkt) 0 MQTT_TOPIC_MAX = Some (topic, pos)"
    and "pub_qos p = drop_bit 1 (pkt_type_flags pkt) AND 3" and "pub_qos p \<noteq> 3"
    and "pub_retain p = pkt_type_flags pkt AND 1"
    and "pub_dup p = drop_bit 3 (pkt_type_flags pkt) AND 1"
    and "pub_topic p = topic" and "pub_packet_id p = pid"
    and "pub_qos p > 0 \<Longrightarrow> pid = read_u16 (pkt_buf pkt) pos \<and> pid \<noteq> 0 \<and> pos' = pos + 2
           \<and> pos' \<le> length (pkt_buf pkt)"
    and "pub_qos p = 0 \<Longrightarrow> pid = pub_packet_id out \<and> pos' = pos"
    and "pub_payload p = take ((length (pkt_buf pkt) - pos') mod 2 ^ 16) (drop pos' (pkt_buf pkt))"
    and "length (pub_payload p) \<le> MQTT_PAYLOAD_MAX"
proof -
  let ?q = "drop_bit 1 (pkt_type_flags pkt) AND 3"
  have q3: "?q \<noteq> 3"
    using assms by (auto simp: packet_parse_publish_def Let_def split: if_splits)
  obtain topic pos where rs: "read_str (pkt_buf pkt) 0 MQTT_TOPIC_MAX = Some (topic, pos)"
    using assms q3 by (auto simp: packet_parse_publish_def Let_def split: bind_splits)
  show ?thesis
  proof (cases "?q > 0")
    case True
    then show ?thesis
      using assms q3 rs that [of topic pos "read_u16 (pkt_buf pkt) pos" "pos + 2"]
      by (auto simp: packet_parse_publish_def Let_def split: if_splits)
  next
    case False
    then show ?thesis
      using assms q3 rs that [of topic pos "pub_packet_id out" pos]
      by (auto simp: packet_parse_publish_def Let_def word_gt_0 split: if_splits)
  qed
qed

lemma parse_publish_ok: "packet_parse_publish pkt out = Some p \<Longrightarrow> publish_ok p"
  by (erule parse_publish_cases)
    (auto simp: publish_ok_def and_1_le and_3_cases dest: read_str_ok)


lemma byte_le_1: "(x :: byte) \<le> 1 \<Longrightarrow> x = 0 \<or> x = 1"
  by (simp add: word_le_nat_alt word_unat_eq_iff) arith

lemma byte_le_2: "(x :: byte) \<le> 2 \<Longrightarrow> x = 0 \<or> x = 1 \<or> x = 2"
  by (simp add: word_le_nat_alt word_unat_eq_iff) arith

definition publish_header :: "mqtt_publish \<Rightarrow> byte" where
  "publish_header p = MQTT_PUBLISH OR push_bit 3 (pub_dup p AND 1) OR push_bit 1 (pub_qos p) OR pub_retain p"

lemma publish_header_bits:
  assumes "publish_ok p"
  shows "drop_bit 3 (publish_header p) AND 1 = pub_dup p"
    and "drop_bit 1 (publish_header p) AND 3 = pub_qos p"
    and "publish_header p AND 1 = pub_retain p"
    and "publish_header p AND 0xF0 = MQTT_PUBLISH"
proof -
  have "pub_dup p = 0 \<or> pub_dup p = 1" "pub_retain p = 0 \<or> pub_retain p = 1"
    "pub_qos p = 0 \<or> pub_qos p = 1 \<or> pub_qos p = 2"
    using assms by (simp_all add: publish_ok_def byte_le_1 byte_le_2)
  then show "drop_bit 3 (publish_header p) AND 1 = pub_dup p"
    and "drop_bit 1 (publish_header p) AND 3 = pub_qos p"
    and "publish_header p AND 1 = pub_retain p"
    and "publish_header p AND 0xF0 = MQTT_PUBLISH"
    by (elim disjE; simp add: publish_header_def)+
qed

definition publish_body :: "mqtt_publish \<Rightarrow> byte list" where
  "publish_body p = write_str (pub_topic p)
     @ (if pub_qos p > 0 then write_u16 (pub_packet_id p) else []) @ pub_payload p"

lemma length_publish_body: "publish_ok p \<Longrightarrow> length (publish_body p) \<le> 643"
  by (auto simp: publish_body_def publish_ok_def)

lemma build_publish_eq:
  assumes "publish_ok p" and "topic_publishable (pub_topic p)"
    and enc: "packet_encode_remaining_len (word_of_nat (length (publish_body p))) = Some enc"
  shows "packet_build_publish p cap =
    (if cap < 1 + length enc + length (publish_body p) then None
     else Some (publish_header p # enc @ publish_body p))"
proof -
  have nz: "\<forall>c \<in> set (pub_topic p). c \<noteq> 0"
    using assms(1) by (auto simp: publish_ok_def cstr_ok_def)
  have bs: "bounded_strlen (pub_topic p) MQTT_TOPIC_MAX = Some (length (pub_topic p))"
    using assms(1) nz by (simp add: bounded_strlen_def takeWhile_eq_all_conv [THEN iffD2] publish_ok_def)
  have len: "2 + length (pub_topic p) + (if pub_qos p > 0 then 2 else 0) + length (pub_payload p)
      = length (publish_body p)"
    by (simp add: publish_body_def)
  have body: "write_str (take (length (pub_topic p)) (pub_topic p))
      @ (if pub_qos p > 0 then write_u16 (pub_packet_id p) else []) @ pub_payload p = publish_body p"
    by (simp add: publish_body_def)
  show ?thesis
    unfolding packet_build_publish_def bs option.case Let_def len enc body publish_header_def
    using assms(1,2) by (auto simp: topic_publishable_def publish_ok_def not_less)
qed

lemma encode_small_ex:
  "n < 2 ^ 28 \<Longrightarrow> \<exists>enc. packet_encode_remaining_len (word_of_nat n) = Some enc"
  by (simp add: encode_Some_iff unat_of_nat)

lemma build_publish_total:
  assumes "publish_ok p" and "topic_publishable (pub_topic p)" and "MQTT_MAX_PACKET_SIZE + 8 \<le> cap"
  shows "\<exists>enc. packet_encode_remaining_len (word_of_nat (length (publish_body p))) = Some enc \<and>
    packet_build_publish p cap = Some (publish_header p # enc @ publish_body p)"
proof -
  obtain enc where enc: "packet_encode_remaining_len (word_of_nat (length (publish_body p))) = Some enc"
    using encode_small_ex [of "length (publish_body p)"] length_publish_body [OF assms(1)] by auto
  with build_publish_eq [OF assms(1,2) enc, of cap] encode_length [OF enc]
    length_publish_body [OF assms(1)] assms(3)
  show ?thesis by auto
qed

lemma parse_publish_body:
  assumes ok: "publish_ok p"
  shows "packet_parse_publish \<lparr>pkt_type_flags = publish_header p, pkt_remaining_len = r,
      pkt_buf = publish_body p\<rparr> out
    = Some (p\<lparr>pub_packet_id := if pub_qos p > 0 then pub_packet_id p else pub_packet_id out\<rparr>)"
proof -
  let ?t = "pub_topic p" and ?pay = "pub_payload p"
  let ?id = "if pub_qos p > 0 then write_u16 (pub_packet_id p) else []"
  have q3: "pub_qos p \<noteq> 3"
    using ok byte_le_2 [of "pub_qos p"] by (auto simp: publish_ok_def)
  have rs: "read_str (publish_body p) 0 128 = Some (?t, 2 + length ?t)"
    using read_str_append [of "[]" 0 ?t 128 "?id @ ?pay"] ok
    by (simp add: publish_body_def publish_ok_def)
  have ru: "read_u16 (publish_body p) (2 + length ?t) = pub_packet_id p" if "pub_qos p > 0"
    using read_u16_append [of "write_str ?t" "2 + length ?t" "pub_packet_id p" ?pay] that
    by (simp add: publish_body_def)
  have dr: "drop (2 + length ?t) (publish_body p) = ?id @ ?pay"
    by (simp add: publish_body_def)
  have "drop (4 + length ?t) (publish_body p) = ?pay" if "pub_qos p > 0"
    using that by (simp add: publish_body_def)
  then show ?thesis
    using ok q3 rs ru dr publish_header_bits [OF ok]
    by (auto simp: packet_parse_publish_def Let_def publish_ok_def word_gt_0 publish_body_def)
qed


lemma parse_publish_cong:
  assumes "pkt_buf pkt = pkt_buf pkt'"
    and "drop_bit 3 (pkt_type_flags pkt) AND 1 = drop_bit 3 (pkt_type_flags pkt') AND 1"
    and "drop_bit 1 (pkt_type_flags pkt) AND 3 = drop_bit 1 (pkt_type_flags pkt') AND 3"
    and "pkt_type_flags pkt AND 1 = pkt_type_flags pkt' AND 1"
  shows "packet_parse_publish pkt out = packet_parse_publish pkt' out"
  unfolding packet_parse_publish_def Let_def assms ..

subsection \<open>SUBSCRIBE and UNSUBSCRIBE\<close>

definition filter_ok :: "cstr \<Rightarrow> bool" where
  "filter_ok f \<longleftrightarrow> cstr_ok f \<and> length f < MQTT_TOPIC_MAX"

definition sub_body :: "(cstr \<times> byte) list \<Rightarrow> byte list" where
  "sub_body ts = concat (map (\<lambda>(f, q). write_str f @ [q]) ts)"

definition unsub_body :: "cstr list \<Rightarrow> byte list" where
  "unsub_body fs = concat (map write_str fs)"

lemma sub_body_Cons: "sub_body ((f, q) # ts) = write_str f @ q # sub_body ts"
  by (simp add: sub_body_def)

lemma unsub_body_Cons: "unsub_body (f # fs) = write_str f @ unsub_body fs"
  by (simp add: unsub_body_def)

lemma qos_byte_ok: "q \<le> 2 \<Longrightarrow> (q :: byte) AND 0xFC = 0"
  using byte_le_2 [of q] by auto

lemma parse_sub_loop_body:
  assumes "\<forall>(f, q) \<in> set ts. filter_ok f \<and> q \<le> 2" and "length acc + length ts \<le> n"
    and "length pre = pos"
  shows "parse_sub_loop (pre @ sub_body ts) pos n acc = Some (acc @ ts)"
  using assms
proof (induction ts arbitrary: pre pos acc)
  case Nil
  then show ?case by (simp add: sub_body_def parse_sub_loop.simps)
next
  case (Cons t ts)
  obtain f q where t: "t = (f, q)" by (cases t)
  have f: "filter_ok f" "q \<le> 2" using Cons.prems(1) t by auto
  let ?b = "pre @ sub_body (t # ts)"
  have rs: "read_str ?b pos 128 = Some (f, pos + 2 + length f)"
    using read_str_append [OF Cons.prems(3), of f 128 "q # sub_body ts"] f
    by (simp add: t sub_body_Cons filter_ok_def)
  have nth: "?b ! (pos + 2 + length f) = q" "pos + 2 + length f < length ?b"
    using Cons.prems(3) by (simp_all add: t sub_body_Cons nth_append)
  have "parse_sub_loop ((pre @ write_str f @ [q]) @ sub_body ts) (pos + 2 + length f + 1) n (acc @ [(f, q)])
      = Some ((acc @ [(f, q)]) @ ts)"
    using Cons.prems by (intro Cons.IH) auto
  then show ?case
    using rs nth f(2) Cons.prems(2,3)
    by (subst parse_sub_loop.simps) (auto simp: t sub_body_Cons qos_byte_ok not_less)
qed

lemma parse_subscribe_body:
  assumes "pid \<noteq> 0" and "ts \<noteq> []" and "length ts \<le> n"
    and "\<forall>(f, q) \<in> set ts. filter_ok f \<and> q \<le> 2"
    and "pkt_buf pkt = write_u16 pid @ sub_body ts"
  shows "packet_parse_subscribe pkt n = (pid, Some ts)"
  using assms parse_sub_loop_body [OF assms(4), of "[]" n "write_u16 pid" 2]
    read_u16_append [of "[]" 0 pid "sub_body ts"]
  by (simp add: packet_parse_subscribe_def Let_def)

lemma parse_sub_loop_ok:
  assumes "parse_sub_loop b pos n acc = Some ts" and "\<forall>(f, q) \<in> set acc. filter_ok f \<and> q \<le> 2"
    and "length acc \<le> n"
  shows "(\<forall>(f, q) \<in> set ts. filter_ok f \<and> q \<le> 2) \<and> length ts \<le> n"
  using assms
proof (induction b pos n acc rule: parse_sub_loop.induct)
  case (1 b pos n acc)
  show ?case
  proof (cases "pos < length b")
    case True
    then obtain f pos' where rs: "read_str b pos 128 = Some (f, pos')" and n: "length acc < n"
      and p: "pos' < length b" and q: "b ! pos' AND 0xFC = 0" "\<not> b ! pos' > 2"
      and rec: "parse_sub_loop b (pos' + 1) n (acc @ [(f, b ! pos')]) = Some ts"
      using "1.prems"(1) by (auto simp: parse_sub_loop.simps [of b pos] split: if_splits option.splits)
    have "filter_ok f" using read_str_ok [OF rs] by (simp add: filter_ok_def)
    then show ?thesis
      using "1.IH" [OF _ _ rs refl] True n p q rec "1.prems"(2) by (simp add: not_less)
  next
    case False
    then show ?thesis using "1.prems" by (simp add: parse_sub_loop.simps [of b pos])
  qed
qed

lemma parse_subscribe_ok:
  assumes "packet_parse_subscribe pkt n = (pid, Some ts)"
  shows "pid \<noteq> 0 \<and> ts \<noteq> [] \<and> length ts \<le> n \<and> (\<forall>(f, q) \<in> set ts. filter_ok f \<and> q \<le> 2)"
  using assms parse_sub_loop_ok [of "pkt_buf pkt" 2 n "[]"]
  by (auto simp: packet_parse_subscribe_def Let_def split: if_splits option.splits)

lemma parse_unsub_loop_body:
  assumes "\<forall>f \<in> set fs. filter_ok f" and "length acc + length fs \<le> n" and "length pre = pos"
  shows "parse_unsub_loop (pre @ unsub_body fs) pos n acc = Some (acc @ fs)"
  using assms
proof (induction fs arbitrary: pre pos acc)
  case Nil
  then show ?case by (simp add: unsub_body_def parse_unsub_loop.simps)
next
  case (Cons f fs)
  let ?b = "pre @ unsub_body (f # fs)"
  have rs: "read_str ?b pos 128 = Some (f, pos + 2 + length f)"
    using read_str_append [OF Cons.prems(3), of f 128 "unsub_body fs"] Cons.prems(1)
    by (simp add: unsub_body_Cons filter_ok_def)
  have "parse_unsub_loop ((pre @ write_str f) @ unsub_body fs) (pos + 2 + length f) n (acc @ [f])
      = Some ((acc @ [f]) @ fs)"
    using Cons.prems by (intro Cons.IH) auto
  then have rec: "parse_unsub_loop ?b (pos + 2 + length f) n (acc @ [f]) = Some (acc @ f # fs)"
    by (simp add: unsub_body_Cons)
  have "pos < length ?b" using read_str_pos [OF rs] by simp
  then show ?case
    using rs rec Cons.prems(2) by (subst parse_unsub_loop.simps) simp
qed

lemma parse_unsubscribe_body:
  assumes "pid \<noteq> 0" and "fs \<noteq> []" and "length fs \<le> n" and "\<forall>f \<in> set fs. filter_ok f"
    and "pkt_buf pkt = write_u16 pid @ unsub_body fs"
  shows "packet_parse_unsubscribe pkt n = (pid, Some fs)"
  using assms parse_unsub_loop_body [OF assms(4), of "[]" n "write_u16 pid" 2]
    read_u16_append [of "[]" 0 pid "unsub_body fs"]
  by (simp add: packet_parse_unsubscribe_def Let_def)

lemma parse_unsub_loop_ok:
  assumes "parse_unsub_loop b pos n acc = Some fs" and "\<forall>f \<in> set acc. filter_ok f"
    and "length acc \<le> n"
  shows "(\<forall>f \<in> set fs. filter_ok f) \<and> length fs \<le> n"
  using assms
proof (induction b pos n acc rule: parse_unsub_loop.induct)
  case (1 b pos n acc)
  show ?case
  proof (cases "pos < length b")
    case True
    then obtain f pos' where rs: "read_str b pos 128 = Some (f, pos')" and n: "length acc < n"
      and rec: "parse_unsub_loop b pos' n (acc @ [f]) = Some fs"
      using "1.prems"(1) by (auto simp: parse_unsub_loop.simps [of b pos] split: if_splits option.splits)
    have f: "filter_ok f" using read_str_ok [OF rs] by (simp add: filter_ok_def)
    have "\<not> \<not> pos < length b" "\<not> n \<le> length acc" using True n by simp_all
    note IH = "1.IH" [OF this rs refl rec]
    show ?thesis by (rule IH) (use f n "1.prems"(2) in auto)
  next
    case False
    then show ?thesis using "1.prems" by (simp add: parse_unsub_loop.simps [of b pos])
  qed
qed

lemma parse_unsubscribe_ok:
  assumes "packet_parse_unsubscribe pkt n = (pid, Some fs)"
  shows "pid \<noteq> 0 \<and> fs \<noteq> [] \<and> length fs \<le> n \<and> (\<forall>f \<in> set fs. filter_ok f)"
  using assms parse_unsub_loop_ok [of "pkt_buf pkt" 2 n "[]"]
  by (auto simp: packet_parse_unsubscribe_def Let_def split: if_splits option.splits)


subsection \<open>CONNECT\<close>

text \<open>The CONNECT records the parser can return, and their encoding on the wire.\<close>

definition connect_ok :: "mqtt_connect \<Rightarrow> bool" where
  "connect_ok c \<longleftrightarrow>
     cstr_ok (conn_client_id c) \<and> length (conn_client_id c) < MQTT_CLIENT_ID_MAX \<and>
     cstr_ok (conn_will_topic c) \<and> length (conn_will_topic c) < MQTT_TOPIC_MAX \<and>
     length (conn_will_payload c) \<le> MQTT_WILL_PAYLOAD_MAX \<and>
     cstr_ok (conn_username c) \<and> length (conn_username c) < MQTT_USERNAME_MAX \<and>
     cstr_ok (conn_password c) \<and> length (conn_password c) < MQTT_PASSWORD_MAX \<and>
     conn_will_qos c \<le> 3 \<and> conn_will_retain c \<le> 1 \<and>
     (\<not> conn_has_will c \<longrightarrow> conn_will_qos c = 0 \<and> conn_will_retain c = 0 \<and>
        conn_will_topic c = [] \<and> conn_will_payload c = []) \<and>
     (conn_has_password c \<longrightarrow> conn_has_username c) \<and>
     (\<not> conn_has_username c \<longrightarrow> conn_username c = []) \<and>
     (\<not> conn_has_password c \<longrightarrow> conn_password c = [])"

definition connect_flag_byte :: "mqtt_connect \<Rightarrow> byte" where
  "connect_flag_byte c =
     (if conn_clean_session c then 2 else 0) OR (if conn_has_will c then 4 else 0)
     OR push_bit 3 (conn_will_qos c) OR push_bit 5 (conn_will_retain c)
     OR (if conn_has_password c then 64 else 0) OR (if conn_has_username c then 128 else 0)"

definition connect_will_body :: "mqtt_connect \<Rightarrow> byte list" where
  "connect_will_body c = (if conn_has_will c
     then write_str (conn_will_topic c) @ write_u16 (word_of_nat (length (conn_will_payload c)))
          @ conn_will_payload c
     else [])"

definition connect_cred_body :: "mqtt_connect \<Rightarrow> byte list" where
  "connect_cred_body c = (if conn_has_username c then write_str (conn_username c) else [])
     @ (if conn_has_password c then write_str (conn_password c) else [])"

definition connect_body :: "mqtt_connect \<Rightarrow> byte list" where
  "connect_body c = write_str [0x4D, 0x51, 0x54, 0x54] @ [4, connect_flag_byte c]
     @ write_u16 (conn_keepalive c) @ write_str (conn_client_id c)
     @ connect_will_body c @ connect_cred_body c"

lemma byte_le_3: "(x :: byte) \<le> 3 \<Longrightarrow> x = 0 \<or> x = 1 \<or> x = 2 \<or> x = 3"
  by (simp add: word_le_nat_alt word_unat_eq_iff) arith

lemma connect_flag_bits:
  assumes "connect_ok c"
  shows "connect_flag_byte c AND 1 = 0"
    and "connect_set_flags (connect_flag_byte c) out = out\<lparr>
      conn_clean_session := conn_clean_session c, conn_will_qos := conn_will_qos c,
      conn_will_retain := conn_will_retain c, conn_has_will := conn_has_will c,
      conn_has_password := conn_has_password c, conn_has_username := conn_has_username c\<rparr>"
proof -
  have q: "conn_will_qos c = 0 \<or> conn_will_qos c = 1 \<or> conn_will_qos c = 2 \<or> conn_will_qos c = 3"
    and r: "conn_will_retain c = 0 \<or> conn_will_retain c = 1"
    using assms by (simp_all add: connect_ok_def byte_le_1 byte_le_3)
  show "connect_flag_byte c AND 1 = 0"
    using q r by (elim disjE; simp add: connect_flag_byte_def)
  show "connect_set_flags (connect_flag_byte c) out = out\<lparr>
      conn_clean_session := conn_clean_session c, conn_will_qos := conn_will_qos c,
      conn_will_retain := conn_will_retain c, conn_has_will := conn_has_will c,
      conn_has_password := conn_has_password c, conn_has_username := conn_has_username c\<rparr>"
    using q r by (elim disjE; simp add: connect_flag_byte_def connect_set_flags_def)
qed

lemma parse_connect_will_body:
  assumes "connect_ok c" and "length pre = pos" and "conn_has_will out = conn_has_will c"
  shows "parse_connect_will (pre @ connect_will_body c @ rest) pos out
    = Some (if conn_has_will c
            then out\<lparr>conn_will_topic := conn_will_topic c, conn_will_payload := conn_will_payload c\<rparr>
            else out, pos + length (connect_will_body c))"
proof (cases "conn_has_will c")
  case True
  let ?t = "conn_will_topic c" and ?p = "conn_will_payload c"
  let ?b = "pre @ connect_will_body c @ rest"
  have b: "?b = pre @ write_str ?t @ (write_u16 (word_of_nat (length ?p)) @ ?p @ rest)"
    using True by (simp add: connect_will_body_def)
  have rs: "read_str ?b pos 128 = Some (?t, pos + 2 + length ?t)"
    unfolding b using assms(1,2) by (intro read_str_append) (auto simp: connect_ok_def)
  have "unat (word_of_nat (length ?p) :: u16) = length ?p"
    using assms(1) by (simp add: unat_of_nat connect_ok_def)
  moreover have "read_u16 ?b (pos + 2 + length ?t) = word_of_nat (length ?p)"
    using read_u16_append [of "pre @ write_str ?t" "pos + 2 + length ?t"] assms(2)
    by (simp add: b)
  moreover have "take (length ?p) (drop (pos + 2 + length ?t + 2) ?b) = ?p"
    using assms(2) by (simp add: b)
  moreover have "length ?b = pos + 4 + length ?t + length ?p + length rest"
    using assms(2) by (simp add: b)
  ultimately show ?thesis
    using True assms rs by (simp add: parse_connect_will_def Let_def connect_ok_def connect_will_body_def)
next
  case False
  then show ?thesis using assms by (simp add: parse_connect_will_def connect_will_body_def)
qed

lemma parse_connect_credentials_body:
  assumes "connect_ok c" and "length pre = pos"
    and "conn_has_username out = conn_has_username c" and "conn_has_password out = conn_has_password c"
  shows "parse_connect_credentials (pre @ connect_cred_body c) pos out
    = Some (out\<lparr>conn_username := if conn_has_username c then conn_username c else conn_username out,
                conn_password := if conn_has_password c then conn_password c else conn_password out\<rparr>,
            pos + length (connect_cred_body c))"
proof -
  let ?u = "conn_username c" and ?p = "conn_password c"
  let ?pw = "if conn_has_password c then write_str ?p else []"
  have ru: "read_str (pre @ write_str ?u @ ?pw) pos 64 = Some (?u, pos + 2 + length ?u)"
    using assms(1,2) by (intro read_str_append) (auto simp: connect_ok_def)
  have rp: "read_str (pre @ write_str ?u @ write_str ?p) (pos + 2 + length ?u) 64
      = Some (?p, pos + 2 + length ?u + 2 + length ?p)"
    using read_str_append [of "pre @ write_str ?u" "pos + 2 + length ?u" ?p 64 "[]"] assms(1,2)
    by (simp add: connect_ok_def)
  have "conn_has_password c \<Longrightarrow> conn_has_username c"
    using assms(1) by (simp add: connect_ok_def)
  then consider "conn_has_username c" "conn_has_password c" | "conn_has_username c" "\<not> conn_has_password c"
    | "\<not> conn_has_username c" "\<not> conn_has_password c"
    by blast
  then show ?thesis
  proof cases
    case 1
    with ru rp assms(3,4) show ?thesis
      by (simp add: parse_connect_credentials_def connect_cred_body_def)
  next
    case 2
    with ru assms(3,4) show ?thesis
      by (simp add: parse_connect_credentials_def connect_cred_body_def)
  next
    case 3
    with assms(3,4) show ?thesis
      by (simp add: parse_connect_credentials_def connect_cred_body_def)
  qed
qed


lemma parse_connect_body:
  assumes ok: "connect_ok c" and buf: "pkt_buf pkt = connect_body c"
  shows "packet_parse_connect pkt zero_connect = Inr c"
proof -
  let ?fl = "connect_flag_byte c" and ?b = "connect_body c"
  let ?rest = "write_str (conn_client_id c) @ connect_will_body c @ connect_cred_body c"
  let ?pre = "write_str [0x4D, 0x51, 0x54, 0x54] @ [4, ?fl] @ write_u16 (conn_keepalive c)"
  let ?out = "connect_set_flags ?fl zero_connect \<lparr>conn_keepalive := conn_keepalive c\<rparr>"
  have b: "?b = ?pre @ ?rest" by (simp add: connect_body_def)
  have proto: "read_str ?b 0 8 = Some ([0x4D, 0x51, 0x54, 0x54], 6)"
    using read_str_append [of "[]" 0 "[0x4D, 0x51, 0x54, 0x54]" 8]
    by (simp add: connect_body_def cstr_ok_def)
  have hdr: "?b ! 6 = 4" "?b ! 7 = ?fl" "read_u16 ?b 8 = conn_keepalive c" "10 \<le> length ?b"
    using read_u16_append [of "write_str [0x4D, 0x51, 0x54, 0x54] @ [4, ?fl]" 8 "conn_keepalive c" ?rest]
    by (simp_all add: connect_body_def nth_append)
  have cid: "read_str ?b 10 24 = Some (conn_client_id c, 12 + length (conn_client_id c))"
    using read_str_append [of ?pre 10 "conn_client_id c" 24 "connect_will_body c @ connect_cred_body c"] ok
    by (simp add: b connect_ok_def)
  let ?pos1 = "12 + length (conn_client_id c)"
  let ?out1 = "?out \<lparr>conn_client_id := conn_client_id c\<rparr>"
  have flags: "conn_has_will ?out1 = conn_has_will c" "conn_has_username ?out1 = conn_has_username c"
    "conn_has_password ?out1 = conn_has_password c"
    using connect_flag_bits(2) [OF ok, of zero_connect] by simp_all
  have w: "parse_connect_will ?b ?pos1 ?out1 = Some (if conn_has_will c
      then ?out1\<lparr>conn_will_topic := conn_will_topic c, conn_will_payload := conn_will_payload c\<rparr>
      else ?out1, ?pos1 + length (connect_will_body c))" (is "_ = Some (?out2, ?pos2)")
    using parse_connect_will_body [OF ok _ flags(1), of "?pre @ write_str (conn_client_id c)" ?pos1
        "connect_cred_body c"]
    by (simp add: b)
  have cr: "parse_connect_credentials ?b ?pos2 ?out2
    = Some (?out2\<lparr>conn_username := if conn_has_username c then conn_username c else conn_username ?out2,
                   conn_password := if conn_has_password c then conn_password c else conn_password ?out2\<rparr>,
            ?pos2 + length (connect_cred_body c))" (is "_ = Some (?out3, ?pos3)")
    using parse_connect_credentials_body [OF ok, of "?pre @ write_str (conn_client_id c) @ connect_will_body c"
        ?pos2 ?out2] flags
    by (simp add: b)
  have len: "?pos3 = length ?b" by (simp add: b)
  have out3: "?out3 = c"
    using ok connect_flag_bits(2) [OF ok, of zero_connect]
    by (intro mqtt_connect.equality) (auto simp: zero_connect_def connect_ok_def)
  have "parse_connect_payload ?b 10 ?out = Some c"
    unfolding parse_connect_payload_def cid Option.bind.bind_lunit prod.case w cr len out3 by simp
  moreover have "conn_has_will c \<or> conn_will_qos c = 0 \<and> conn_will_retain c = 0"
    "conn_has_password c \<longrightarrow> conn_has_username c"
    using ok by (auto simp: connect_ok_def)
  ultimately show ?thesis
    unfolding packet_parse_connect_def buf Let_def proto option.case prod.case
    using hdr connect_flag_bits(1) [OF ok] connect_flag_bits(2) [OF ok, of zero_connect]
    by (cases "conn_has_will c"; cases "conn_has_username c") simp_all
qed


subsection \<open>Exactness: what a parser accepts is an encoding\<close>

lemma bit_numeral_small: "bit (3 :: byte) k \<longleftrightarrow> k = 0 \<or> k = 1" "bit (2 :: byte) k \<longleftrightarrow> k = 1"
  "bit (4 :: byte) k \<longleftrightarrow> k = 2" "bit (64 :: byte) k \<longleftrightarrow> k = 6" "bit (128 :: byte) k \<longleftrightarrow> k = 7"
proof -
  have p: "bit (2 ^ m :: byte) k \<longleftrightarrow> k = m" if "m < 8" for m
    using that by (auto simp: bit_exp_iff)
  show "bit (2 :: byte) k \<longleftrightarrow> k = 1" using p [of 1] by simp
  show "bit (4 :: byte) k \<longleftrightarrow> k = 2" using p [of 2] by simp
  show "bit (64 :: byte) k \<longleftrightarrow> k = 6" using p [of 6] by simp
  show "bit (128 :: byte) k \<longleftrightarrow> k = 7" using p [of 7] by simp
  have "mask 2 = (3 :: byte)" by (simp add: mask_eq_exp_minus_1)
  then show "bit (3 :: byte) k \<longleftrightarrow> k = 0 \<or> k = 1"
    using bit_mask_iff [of 2 k, where 'a = "8 word"] by auto
qed

lemma bit_24_32: "bit (24 :: byte) 3" "bit (24 :: byte) 4" "\<not> bit (24 :: byte) 5" "bit (32 :: byte) 5"
  by (simp_all add: bit_iff_odd)

lemma and_1_bit: "drop_bit n (fl :: byte) AND 1 \<noteq> 0 \<longleftrightarrow> bit fl n"
  by (simp add: and_one_eq bit_iff_odd_drop_bit mod2_eq_if)

lemma flag_byte_of_flags:
  assumes "fl AND 1 = (0 :: byte)"
  shows "(if drop_bit 1 fl AND 1 \<noteq> 0 then 2 else 0) OR (if drop_bit 2 fl AND 1 \<noteq> 0 then 4 else 0)
     OR push_bit 3 (drop_bit 3 fl AND 3) OR push_bit 5 (drop_bit 5 fl AND 1)
     OR (if drop_bit 6 fl AND 1 \<noteq> 0 then 64 else 0) OR (if drop_bit 7 fl AND 1 \<noteq> 0 then 128 else 0) = fl"
proof (rule bit_word_eqI)
  fix n assume n: "n < LENGTH(8)"
  have 0: "\<not> bit fl 0" using and_1_bit [of 0 fl] assms by simp
  consider "n = 0" | "n = 1" | "n = 2" | "n = 3" | "n = 4" | "n = 5" | "n = 6" | "n = 7"
    using n by fastforce
  then show "bit ((if drop_bit 1 fl AND 1 \<noteq> 0 then 2 else 0) OR (if drop_bit 2 fl AND 1 \<noteq> 0 then 4 else 0)
     OR push_bit 3 (drop_bit 3 fl AND 3) OR push_bit 5 (drop_bit 5 fl AND 1)
     OR (if drop_bit 6 fl AND 1 \<noteq> 0 then 64 else 0) OR (if drop_bit 7 fl AND 1 \<noteq> 0 then 128 else 0)) n = bit fl n"
    unfolding and_1_bit
    by cases (use 0 bit_24_32 in \<open>auto simp: bit_or_iff bit_and_iff bit_push_bit_iff bit_drop_bit_eq bit_numeral_small bit_1_iff simp del: bit_numeral_word_iff\<close>)
qed
lemma u16_join_split:
  "ucast (drop_bit 8 (push_bit 8 (ucast a) OR ucast b :: u16)) = (a :: byte)"
  "ucast ((push_bit 8 (ucast a) OR ucast b :: u16) AND 255) = (b :: byte)"
  by (rule bit_word_eqI, auto simp: bit_simps bit_255 not_le dest: bit_imp_le_length)+

lemma drop_two:
  "pos + 2 \<le> length buf \<Longrightarrow> drop pos buf = [buf ! pos, buf ! Suc pos] @ drop (pos + 2) buf"
  by (simp add: Cons_nth_drop_Suc)

lemma write_read_u16: "write_u16 (read_u16 buf pos) = [buf ! pos, buf ! Suc pos]"
  unfolding write_u16_def read_u16_def u16_join_split ..

lemma read_u16_inv:
  "pos + 2 \<le> length buf \<Longrightarrow> drop pos buf = write_u16 (read_u16 buf pos) @ drop (pos + 2) buf"
  by (simp add: write_read_u16 drop_two)

lemma read_str_inv:
  assumes "read_str buf pos cap = Some (s, pos')"
  shows "drop pos buf = write_str s @ drop pos' buf"
proof -
  let ?n = "read_u16 buf pos"
  have len: "length s = unat ?n" and p: "pos + 2 \<le> length buf" "pos' = pos + 2 + length s"
    and s: "s = take (length s) (drop (pos + 2) buf)"
    using assms by (auto simp: read_str_def Let_def split: if_splits)
  have "drop pos buf = write_u16 ?n @ drop (pos + 2) buf"
    using p(1) by (rule read_u16_inv)
  moreover have "drop (pos + 2) buf = s @ drop pos' buf"
    using s p(2) by (metis add.commute append_take_drop_id drop_drop)
  ultimately show ?thesis
    by (simp add: write_str_def len)
qed

lemma parse_publish_inv:
  assumes "packet_parse_publish pkt out = Some p" and "length (pkt_buf pkt) < 2 ^ 16"
  shows "pkt_buf pkt = publish_body p"
proof -
  let ?b = "pkt_buf pkt"
  from assms(1) obtain topic pos pid pos' where
    rs: "read_str ?b 0 MQTT_TOPIC_MAX = Some (topic, pos)"
    and t: "pub_topic p = topic" and pid: "pub_packet_id p = pid"
    and q: "pub_qos p > 0 \<Longrightarrow> pid = read_u16 ?b pos \<and> pid \<noteq> 0 \<and> pos' = pos + 2 \<and> pos' \<le> length ?b"
    and q0: "pub_qos p = 0 \<Longrightarrow> pos' = pos"
    and pay: "pub_payload p = take ((length ?b - pos') mod 2 ^ 16) (drop pos' ?b)"
    by (elim parse_publish_cases) blast
  have b: "?b = write_str topic @ drop pos ?b"
    using read_str_inv [OF rs] by simp
  have "(length ?b - pos') mod 2 ^ 16 = length ?b - pos'"
    using assms(2) by (intro mod_less) linarith
  then have pay': "pub_payload p = drop pos' ?b" using pay by simp
  have "drop pos ?b = (if pub_qos p > 0 then write_u16 pid else []) @ pub_payload p"
  proof (cases "pub_qos p > 0")
    case True
    then show ?thesis using q read_u16_inv [of pos ?b] pay' by simp
  next
    case False
    then show ?thesis using q0 pay' by (simp add: word_gt_0)
  qed
  with b t pid show ?thesis by (simp add: publish_body_def)
qed

lemma parse_sub_loop_inv:
  assumes "parse_sub_loop b pos n acc = Some ts"
  shows "\<exists>us. ts = acc @ us \<and> drop pos b = sub_body us"
  using assms
proof (induction b pos n acc rule: parse_sub_loop.induct)
  case (1 b pos n acc)
  show ?case
  proof (cases "pos < length b")
    case True
    then obtain f pos' where rs: "read_str b pos 128 = Some (f, pos')" and n: "\<not> n \<le> length acc"
      and p: "\<not> length b \<le> pos'" and q: "\<not> (b ! pos' AND 0xFC \<noteq> 0 \<or> b ! pos' > 2)"
      and rec: "parse_sub_loop b (pos' + 1) n (acc @ [(f, b ! pos')]) = Some ts"
      using "1.prems"(1) by (auto simp: parse_sub_loop.simps [of b pos] split: if_splits option.splits)
    from True have "\<not> \<not> pos < length b" by simp
    from "1.IH" [OF this n rs refl p q rec] obtain us where
      us: "ts = (acc @ [(f, b ! pos')]) @ us" "drop (pos' + 1) b = sub_body us"
      by blast
    have "drop pos' b = b ! pos' # drop (pos' + 1) b"
      using p by (simp add: Cons_nth_drop_Suc)
    then have "drop pos b = sub_body ((f, b ! pos') # us)"
      using read_str_inv [OF rs] us(2) by (simp add: sub_body_Cons)
    with us(1) show ?thesis by (intro exI [of _ "(f, b ! pos') # us"]) simp
  next
    case False
    then show ?thesis
      using "1.prems" by (intro exI [of _ "[]"]) (simp add: parse_sub_loop.simps [of b pos] sub_body_def)
  qed
qed

lemma parse_subscribe_inv:
  assumes "packet_parse_subscribe pkt n = (pid, Some ts)"
  shows "pkt_buf pkt = write_u16 pid @ sub_body ts"
proof -
  let ?b = "pkt_buf pkt"
  have "2 \<le> length ?b" "pid = read_u16 ?b 0" "parse_sub_loop ?b 2 n [] = Some ts"
    using assms by (auto simp: packet_parse_subscribe_def Let_def split: if_splits option.splits)
  with parse_sub_loop_inv [of ?b 2 n "[]" ts] read_u16_inv [of 0 ?b] show ?thesis
    by (simp add: numeral_2_eq_2)
qed

lemma parse_unsub_loop_inv:
  assumes "parse_unsub_loop b pos n acc = Some fs"
  shows "\<exists>gs. fs = acc @ gs \<and> drop pos b = unsub_body gs"
  using assms
proof (induction b pos n acc rule: parse_unsub_loop.induct)
  case (1 b pos n acc)
  show ?case
  proof (cases "pos < length b")
    case True
    then obtain f pos' where rs: "read_str b pos 128 = Some (f, pos')" and n: "\<not> n \<le> length acc"
      and rec: "parse_unsub_loop b pos' n (acc @ [f]) = Some fs"
      using "1.prems"(1) by (auto simp: parse_unsub_loop.simps [of b pos] split: if_splits option.splits)
    from True have "\<not> \<not> pos < length b" by simp
    from "1.IH" [OF this n rs refl rec] obtain gs where
      gs: "fs = (acc @ [f]) @ gs" "drop pos' b = unsub_body gs"
      by blast
    then have "drop pos b = unsub_body (f # gs)"
      using read_str_inv [OF rs] by (simp add: unsub_body_Cons)
    with gs(1) show ?thesis by (intro exI [of _ "f # gs"]) simp
  next
    case False
    then show ?thesis
      using "1.prems" by (intro exI [of _ "[]"]) (simp add: parse_unsub_loop.simps [of b pos] unsub_body_def)
  qed
qed

lemma parse_unsubscribe_inv:
  assumes "packet_parse_unsubscribe pkt n = (pid, Some fs)"
  shows "pkt_buf pkt = write_u16 pid @ unsub_body fs"
proof -
  let ?b = "pkt_buf pkt"
  have "2 \<le> length ?b" "pid = read_u16 ?b 0" "parse_unsub_loop ?b 2 n [] = Some fs"
    using assms by (auto simp: packet_parse_unsubscribe_def Let_def split: if_splits option.splits)
  with parse_unsub_loop_inv [of ?b 2 n "[]" fs] read_u16_inv [of 0 ?b] show ?thesis
    by (simp add: numeral_2_eq_2)
qed


lemma parse_connect_will_inv:
  assumes "parse_connect_will b pos out = Some (out', pos')"
  shows "drop pos b = connect_will_body out' @ drop pos' b"
    and "conn_has_will out \<Longrightarrow> \<exists>t p. out' = out\<lparr>conn_will_topic := t, conn_will_payload := p\<rparr> \<and>
           filter_ok t \<and> length p \<le> MQTT_WILL_PAYLOAD_MAX"
    and "\<not> conn_has_will out \<Longrightarrow> out' = out"
proof -
  show "drop pos b = connect_will_body out' @ drop pos' b"
  proof (cases "conn_has_will out")
    case True
    then obtain t q where rs: "read_str b pos 128 = Some (t, q)"
      and rest: "(if q + 2 > length b then None
        else if q + 2 + unat (read_u16 b q) > length b \<or> unat (read_u16 b q) > 256 then None
        else Some (out\<lparr>conn_will_topic := t, conn_will_payload := take (unat (read_u16 b q)) (drop (q + 2) b)\<rparr>,
                   q + 2 + unat (read_u16 b q))) = Some (out', pos')"
      using assms
      by (cases "read_str b pos 128") (auto simp: parse_connect_will_def Let_def cong: if_cong)
    have q: "q + 2 \<le> length b" and len: "q + 2 + unat (read_u16 b q) \<le> length b"
      and pos': "pos' = q + 2 + unat (read_u16 b q)"
      and out': "out' = out\<lparr>conn_will_topic := t,
                   conn_will_payload := take (unat (read_u16 b q)) (drop (q + 2) b)\<rparr>"
      using rest by (simp_all split: if_splits)
    have "length (conn_will_payload out') = unat (read_u16 b q)"
      using len by (simp add: out')
    moreover have "drop (q + 2) b = conn_will_payload out' @ drop pos' b"
    proof -
      have eq: "drop pos' b = drop (unat (read_u16 b q)) (drop (q + 2) b)"
        by (simp add: pos' add.commute add.left_commute)
      show ?thesis
        unfolding eq out' by (simp del: drop_drop add: mqtt_connect.defs)
    qed
    ultimately show ?thesis
      using read_str_inv [OF rs] read_u16_inv [OF q] True
      by (simp add: connect_will_body_def out')
  next
    case False
    then show ?thesis using assms by (auto simp: parse_connect_will_def connect_will_body_def)
  qed
  show "\<exists>t p. out' = out\<lparr>conn_will_topic := t, conn_will_payload := p\<rparr> \<and>
           filter_ok t \<and> length p \<le> MQTT_WILL_PAYLOAD_MAX" if "conn_has_will out"
    using assms that
    by (clarsimp simp: parse_connect_will_def Let_def filter_ok_def split: bind_splits if_splits)
      (intro exI conjI, rule refl, auto dest: read_str_ok(1,2))
  show "out' = out" if "\<not> conn_has_will out"
    using assms that by (simp add: parse_connect_will_def)
qed

lemma parse_connect_credentials_inv:
  assumes "parse_connect_credentials b pos out = Some (out', pos')"
    and "conn_has_password out \<Longrightarrow> conn_has_username out"
  shows "drop pos b = connect_cred_body out' @ drop pos' b"
    and "\<exists>u p. out' = out\<lparr>conn_username := if conn_has_username out then u else conn_username out,
                       conn_password := if conn_has_password out then p else conn_password out\<rparr> \<and>
          cstr_ok u \<and> length u < MQTT_USERNAME_MAX \<and> cstr_ok p \<and> length p < MQTT_PASSWORD_MAX"
proof -
  consider (both) u q p where "conn_has_username out" "conn_has_password out"
      "read_str b pos 64 = Some (u, q)" "read_str b q 64 = Some (p, pos')"
      "out' = out\<lparr>conn_username := u, conn_password := p\<rparr>"
    | (user) u where "conn_has_username out" "\<not> conn_has_password out"
      "read_str b pos 64 = Some (u, pos')" "out' = out\<lparr>conn_username := u\<rparr>"
    | (none) "\<not> conn_has_username out" "\<not> conn_has_password out" "out' = out" "pos' = pos"
  proof (cases "conn_has_username out")
    case True
    then obtain u q where u: "read_str b pos 64 = Some (u, q)"
      and rest: "(if conn_has_password out
          then map_option (\<lambda>(s, pos). (out\<lparr>conn_username := u, conn_password := s\<rparr>, pos)) (read_str b q 64)
          else Some (out\<lparr>conn_username := u\<rparr>, q)) = Some (out', pos')"
      using assms(1) by (auto simp: parse_connect_credentials_def split: bind_splits)
    show ?thesis
    proof (cases "conn_has_password out")
      case pw: True
      with rest show ?thesis by (auto intro: both [OF True pw u])
    next
      case False
      with rest u show ?thesis by (auto intro: user [OF True])
    qed
  next
    case False
    moreover have "\<not> conn_has_password out" using False assms(2) by blast
    ultimately show ?thesis
      using assms(1) by (intro none) (auto simp: parse_connect_credentials_def)
  qed
  note split = this
  show "drop pos b = connect_cred_body out' @ drop pos' b"
    using split by cases (auto simp: connect_cred_body_def dest!: read_str_inv)
  show "\<exists>u p. out' = out\<lparr>conn_username := if conn_has_username out then u else conn_username out,
                       conn_password := if conn_has_password out then p else conn_password out\<rparr> \<and>
          cstr_ok u \<and> length u < MQTT_USERNAME_MAX \<and> cstr_ok p \<and> length p < MQTT_PASSWORD_MAX"
    using split
  proof cases
    case (both u q p)
    then show ?thesis
      using read_str_ok [OF both(3)] read_str_ok [OF both(4)] by (intro exI [of _ u] exI [of _ p]) auto
  next
    case (user u)
    then show ?thesis
      using read_str_ok [OF user(3)] by (intro exI [of _ u] exI [of _ "[]"]) auto
  next
    case none
    then show ?thesis by (intro exI [of _ "[]"]) auto
  qed
qed

lemma flags_of_set_flags:
  assumes "fl AND 1 = 0"
  shows "connect_flag_byte (connect_set_flags fl out) = fl"
  using flag_byte_of_flags [OF assms] by (simp add: connect_flag_byte_def connect_set_flags_def)

lemma parse_connect_inv:
  assumes "packet_parse_connect pkt zero_connect = Inr c"
  shows "connect_ok c" and "pkt_buf pkt = connect_body c"
proof -
  let ?b = "pkt_buf pkt" and ?fl = "pkt_buf pkt ! 7"
  let ?out = "connect_set_flags ?fl zero_connect \<lparr>conn_keepalive := read_u16 ?b 8\<rparr>"
  obtain proto pos where rs: "read_str ?b 0 8 = Some (proto, pos)"
    and proto: "proto = [0x4D, 0x51, 0x54, 0x54]" and len: "pos + 4 \<le> length ?b"
    and lvl: "?b ! pos = 4"
    using assms by (auto simp: packet_parse_connect_def Let_def split: option.splits if_splits)
  have pos: "pos = 6" using read_str_ok(3) [OF rs] proto by simp
  define S where "S = connect_set_flags ?fl zero_connect"
  have eq: "(if ?fl AND 1 \<noteq> 0 then Inl Malformed
      else if \<not> conn_has_will S \<and> (conn_will_qos S \<noteq> 0 \<or> conn_will_retain S \<noteq> 0) then Inl Malformed
      else if conn_has_password S \<and> \<not> conn_has_username S then Inl Malformed
      else (case parse_connect_payload ?b 10 (S\<lparr>conn_keepalive := read_u16 ?b 8\<rparr>) of
              None \<Rightarrow> Inl Malformed | Some out \<Rightarrow> Inr out)) = Inr c"
    using assms lvl len by (simp add: packet_parse_connect_def Let_def rs proto pos S_def cong: if_cong)
  have c0: "?fl AND 1 = 0" using eq by (simp split: if_splits)
  have cw: "conn_has_will ?out \<or> conn_will_qos ?out = 0 \<and> conn_will_retain ?out = 0"
    using eq by (auto simp: S_def [symmetric] split: if_splits)
  have cp: "conn_has_password ?out \<longrightarrow> conn_has_username ?out"
    using eq by (auto simp: S_def [symmetric] split: if_splits)
  have pay: "parse_connect_payload ?b 10 ?out = Some c"
    using eq by (auto simp: S_def [symmetric] split: if_splits option.splits)
  obtain cid p1 o1 p2 p3 where rc: "read_str ?b 10 24 = Some (cid, p1)"
    and w: "parse_connect_will ?b p1 (?out\<lparr>conn_client_id := cid\<rparr>) = Some (o1, p2)"
    and cr: "parse_connect_credentials ?b p2 o1 = Some (c, p3)" and p3: "p3 = length ?b"
    using pay by (auto simp: parse_connect_payload_def split: bind_splits if_splits)
  have o1: "\<exists>t p. o1 = ?out\<lparr>conn_client_id := cid, conn_will_topic := t, conn_will_payload := p\<rparr> \<and>
      filter_ok t \<and> length p \<le> 256 \<and> (\<not> conn_has_will ?out \<longrightarrow> t = [] \<and> p = [])"
  proof (cases "conn_has_will ?out")
    case True
    then show ?thesis using parse_connect_will_inv(2) [OF w] by auto
  next
    case False
    then have "o1 = ?out\<lparr>conn_client_id := cid, conn_will_topic := [], conn_will_payload := []\<rparr>"
      using parse_connect_will_inv(3) [OF w] by (simp add: connect_set_flags_def zero_connect_def)
    then show ?thesis by (intro exI [of _ "[]"]) (simp add: filter_ok_def)
  qed
  then obtain t p where o1: "o1 = ?out\<lparr>conn_client_id := cid, conn_will_topic := t, conn_will_payload := p\<rparr>"
    and tp: "filter_ok t" "length p \<le> 256" "\<not> conn_has_will ?out \<longrightarrow> t = [] \<and> p = []"
    by blast
  have cp': "conn_has_password o1 \<Longrightarrow> conn_has_username o1"
    using cp by (simp add: o1)
  obtain u pw where c: "c = o1\<lparr>conn_username := if conn_has_username o1 then u else conn_username o1,
        conn_password := if conn_has_password o1 then pw else conn_password o1\<rparr>"
    and up: "cstr_ok u" "length u < 64" "cstr_ok pw" "length pw < 64"
    using parse_connect_credentials_inv(2) [OF cr cp'] by blast
  have un: "conn_username o1 = []" "conn_password o1 = []"
    by (simp_all add: o1 connect_set_flags_def zero_connect_def)
  have flags: "conn_will_qos ?out \<le> 3" "conn_will_retain ?out \<le> 1"
    by (simp_all add: connect_set_flags_def word_and_le1 and_1_le)
  show "connect_ok c"
    unfolding connect_ok_def c
    using tp up un cw cp flags read_str_ok(1,2) [OF rc] by (auto simp: o1 filter_ok_def)
  have cf: "connect_flag_byte c = ?fl"
    using flags_of_set_flags [OF c0, of zero_connect] by (simp add: c o1 connect_flag_byte_def)
  have "?b = write_str proto @ drop 6 ?b"
    using read_str_inv [OF rs] pos by simp
  moreover have "drop 6 ?b = [?b ! 6, ?fl] @ drop 8 ?b"
    using drop_two [of 6 ?b] len pos by simp
  moreover have "drop 8 ?b = write_u16 (read_u16 ?b 8) @ drop 10 ?b"
    using read_u16_inv [of 8 ?b] len pos by simp
  moreover have "drop 10 ?b = write_str cid @ connect_will_body o1 @ connect_cred_body c @ drop p3 ?b"
    using read_str_inv [OF rc] parse_connect_will_inv(1) [OF w] parse_connect_credentials_inv(1) [OF cr cp']
    by simp
  moreover have "connect_will_body o1 = connect_will_body c"
    by (simp add: c connect_will_body_def)
  ultimately show "?b = connect_body c"
    using proto lvl pos cf p3 by (simp add: connect_body_def c o1)
qed

subsection \<open>Records that are not cleared\<close>

text \<open>
  The CONNECT parser does not clear the record it is given, and \<^verbatim>\<open>handle_connect\<close> passes one it has not
  initialised: the fields of a will or a credential that the packet does not announce keep what they held.
\<close>

definition keep_unannounced :: "mqtt_connect \<Rightarrow> mqtt_connect \<Rightarrow> mqtt_connect" where
  "keep_unannounced start c = c\<lparr>
     conn_will_topic := (if conn_has_will c then conn_will_topic c else conn_will_topic start),
     conn_will_payload := (if conn_has_will c then conn_will_payload c else conn_will_payload start),
     conn_username := (if conn_has_username c then conn_username c else conn_username start),
     conn_password := (if conn_has_password c then conn_password c else conn_password start)\<rparr>"

lemma will_start:
  "parse_connect_will b pos (connect_set_flags fl start\<lparr>conn_keepalive := ka, conn_client_id := cid\<rparr>) =
    map_option (\<lambda>(o', p). (o'\<lparr>conn_username := conn_username start, conn_password := conn_password start,
       conn_will_topic := if conn_has_will o' then conn_will_topic o' else conn_will_topic start,
       conn_will_payload := if conn_has_will o' then conn_will_payload o' else conn_will_payload start\<rparr>, p))
     (parse_connect_will b pos (connect_set_flags fl zero_connect\<lparr>conn_keepalive := ka, conn_client_id := cid\<rparr>))"
  by (cases start) (simp add: parse_connect_will_def connect_set_flags_def zero_connect_def Let_def case_prod_beta split: bind_split)

lemma will_keeps:
  "parse_connect_will b pos o0 = Some (o1, p) \<Longrightarrow> conn_has_will o1 = conn_has_will o0 \<and> conn_has_username o1 = conn_has_username o0 \<and>
    conn_has_password o1 = conn_has_password o0"
  by (auto simp: parse_connect_will_def Let_def case_prod_beta split: bind_splits if_splits)

lemma cred_start:
  "conn_username o1 = [] \<Longrightarrow> conn_password o1 = [] \<Longrightarrow>
   parse_connect_credentials b pos (o1\<lparr>conn_username := u, conn_password := w\<rparr>) =
    map_option (\<lambda>(o', p). (o'\<lparr>conn_username := if conn_has_username o' then conn_username o' else u,
       conn_password := if conn_has_password o' then conn_password o' else w\<rparr>, p))
     (parse_connect_credentials b pos o1)"
  by (cases "conn_has_username o1"; cases "conn_has_password o1"; cases "read_str b pos 64")
    (simp_all add: parse_connect_credentials_def case_prod_unfold option.map_comp comp_def)

lemma payload_start:
  "parse_connect_payload b pos (connect_set_flags fl start\<lparr>conn_keepalive := ka\<rparr>) =
    map_option (keep_unannounced start) (parse_connect_payload b pos (connect_set_flags fl zero_connect\<lparr>conn_keepalive := ka\<rparr>))"
proof (cases "read_str b pos MQTT_CLIENT_ID_MAX")
  case (Some r)
  obtain cid p1 where r: "r = (cid, p1)" by force
  let ?o = "connect_set_flags fl zero_connect\<lparr>conn_keepalive := ka, conn_client_id := cid\<rparr>"
  show ?thesis
  proof (cases "parse_connect_will b p1 ?o")
    case None
    then show ?thesis using Some r will_start [where b = b and pos = p1 and fl = fl and start = start and ka = ka and cid = cid] by (simp add: parse_connect_payload_def)
  next
    case w: (Some q)
    obtain o1 p2 where q: "q = (o1, p2)" by force
    have un: "conn_username o1 = []" "conn_password o1 = []"
      using w q by (auto simp: parse_connect_will_def connect_set_flags_def zero_connect_def Let_def
          split: bind_splits if_splits)
    let ?o1 = "o1\<lparr>conn_will_topic := if conn_has_will o1 then conn_will_topic o1 else conn_will_topic start,
       conn_will_payload := if conn_has_will o1 then conn_will_payload o1 else conn_will_payload start\<rparr>"
    have w': "parse_connect_will b p1 (connect_set_flags fl start\<lparr>conn_keepalive := ka, conn_client_id := cid\<rparr>) =
        Some (?o1\<lparr>conn_username := conn_username start, conn_password := conn_password start\<rparr>, p2)"
      using will_start [where b = b and pos = p1 and fl = fl and start = start and ka = ka and cid = cid] w q by simp
    have cred: "parse_connect_credentials b p2 ?o1 = map_option (\<lambda>(o', p). (o'\<lparr>
        conn_will_topic := if conn_has_will o' then conn_will_topic o' else conn_will_topic start,
        conn_will_payload := if conn_has_will o' then conn_will_payload o' else conn_will_payload start\<rparr>, p))
        (parse_connect_credentials b p2 o1)"
      by (cases "conn_has_username o1"; cases "conn_has_password o1"; cases "read_str b p2 64"; cases o1)
        (simp_all add: parse_connect_credentials_def case_prod_unfold option.map_comp comp_def)
    show ?thesis
      using Some r w q w' cred_start [where ?o1.0 = ?o1 and b = b and pos = p2 and u = "conn_username start" and w = "conn_password start"] un
      by (cases "parse_connect_credentials b p2 o1")
        (auto simp: parse_connect_payload_def cred keep_unannounced_def case_prod_unfold)
  qed
qed (simp add: parse_connect_payload_def)

lemma parse_connect_start:
  "packet_parse_connect pkt start = map_sum id (keep_unannounced start) (packet_parse_connect pkt zero_connect)"
proof -
  have fl: "conn_has_will (connect_set_flags fl start) = conn_has_will (connect_set_flags fl zero_connect)"
    "conn_will_qos (connect_set_flags fl start) = conn_will_qos (connect_set_flags fl zero_connect)"
    "conn_will_retain (connect_set_flags fl start) = conn_will_retain (connect_set_flags fl zero_connect)"
    "conn_has_password (connect_set_flags fl start) = conn_has_password (connect_set_flags fl zero_connect)"
    "conn_has_username (connect_set_flags fl start) = conn_has_username (connect_set_flags fl zero_connect)" for fl
    by (simp_all add: connect_set_flags_def)
  show ?thesis
    unfolding packet_parse_connect_def Let_def fl payload_start [where start = start]
    by (auto split: option.split)
qed
lemma parse_connect_typed:
  "case packet_parse_connect pkt start of Inl _ \<Rightarrow> True
   | Inr conn \<Rightarrow> connect_ok (keep_unannounced zero_connect conn) \<and> conn = keep_unannounced start conn"
proof (cases "packet_parse_connect pkt zero_connect")
  case (Inr c)
  have "connect_ok c" by (rule parse_connect_inv(1) [OF Inr])
  then have "keep_unannounced zero_connect (keep_unannounced start c) = c"
    by (cases c) (auto simp: keep_unannounced_def zero_connect_def connect_ok_def)
  then show ?thesis
    using \<open>connect_ok c\<close> Inr by (simp add: parse_connect_start [where pkt = pkt and start = start]) (simp add: keep_unannounced_def)
qed (simp add: parse_connect_start [where pkt = pkt and start = start])

subsection \<open>Properties\<close>

text \<open>
  The remaining-length encoder succeeds exactly on the lengths below \<open>2 ^ 28\<close>, emits one to
  four bytes, and the decoder reads the length back and stops after those bytes, whatever
  follows them.
\<close>

theorem remaining_length_roundtrip:
  "case packet_encode_remaining_len len of
     None \<Rightarrow> 2 ^ 28 \<le> unat len
   | Some bs \<Rightarrow> unat len < 2 ^ 28 \<and> 0 < length bs \<and> length bs \<le> 4 \<and>
       packet_decode_remaining_len (bs @ rest) = Some (len, length bs)"
  using encode_Some_iff [of len] decode_encode [of len _ rest] encode_length [of len]
  by (cases "packet_encode_remaining_len len") simp_all

text \<open>
  C38: the CONNECT parser accepts a buffer with a record exactly when the record is well formed
  (bounded NUL-free strings, no will fields without the will flag, no password without a
  username) and the buffer is the MQTT 3.1.1 encoding of that record, with nothing left over.
\<close>

theorem parse_connect_exact:
  "packet_parse_connect pkt zero_connect = Inr c \<longleftrightarrow> connect_ok c \<and> pkt_buf pkt = connect_body c"
  using parse_connect_body [of c pkt] parse_connect_inv [of pkt c] by blast

text \<open>
  C39: a PUBLISH the server builds is a complete packet: the fixed header decodes to the length
  of the body that follows, and parsing that body gives the message back, with its packet id
  when the QoS has one. The capacity hypothesis is the size of the buffers the callers use.
\<close>

theorem publish_roundtrip:
  assumes "publish_ok p" and "topic_publishable (pub_topic p)" and "MQTT_MAX_PACKET_SIZE + 8 \<le> cap"
  shows "\<exists>hdr enc body. packet_build_publish p cap = Some (hdr # enc @ body) \<and>
    hdr AND 0xF0 = MQTT_PUBLISH \<and>
    packet_decode_remaining_len (enc @ body @ rest) = Some (word_of_nat (length body), length enc) \<and>
    packet_parse_publish \<lparr>pkt_type_flags = hdr, pkt_remaining_len = r, pkt_buf = body\<rparr> zero_publish
      = Some (p\<lparr>pub_packet_id := if pub_qos p > 0 then pub_packet_id p else 0\<rparr>)"
proof -
  obtain enc where enc: "packet_encode_remaining_len (word_of_nat (length (publish_body p))) = Some enc"
    and b: "packet_build_publish p cap = Some (publish_header p # enc @ publish_body p)"
    using build_publish_total [OF assms] by blast
  show ?thesis
    using b decode_encode [OF enc] publish_header_bits(4) [OF assms(1)]
      parse_publish_body [OF assms(1), of r zero_publish]
    by (intro exI [of _ "publish_header p"] exI [of _ enc] exI [of _ "publish_body p"])
      (simp add: zero_publish_def)
qed

text \<open>
  The SUBSCRIBE parser returns a request exactly when the packet id is non-zero, the list
  has between one and the maximum number of filters, each is a bounded NUL-free string with a
  QoS of 0, 1 or 2, and the buffer is the encoding of the request.
\<close>

theorem parse_subscribe_exact:
  "packet_parse_subscribe pkt n = (pid, Some ts) \<longleftrightarrow>
     pid \<noteq> 0 \<and> ts \<noteq> [] \<and> length ts \<le> n \<and> (\<forall>(f, q) \<in> set ts. filter_ok f \<and> q \<le> 2) \<and>
     pkt_buf pkt = write_u16 pid @ sub_body ts"
  using parse_subscribe_body [of pid ts n pkt] parse_subscribe_ok [of pkt n pid ts]
    parse_subscribe_inv [of pkt n pid ts]
  by metis

theorem parse_subscribe_exact_witness:
  "packet_parse_subscribe \<lparr>pkt_type_flags = 0x82, pkt_remaining_len = 6,
     pkt_buf = [0, 1, 0, 1, 97, 2]\<rparr> 8 = (1, Some [([97], 2)])"
  by (subst parse_subscribe_exact)
    (simp add: sub_body_def write_str_def write_u16_def filter_ok_def cstr_ok_def)

text \<open>
  The UNSUBSCRIBE parser returns a request exactly when the packet id is non-zero, the list
  has between one and the maximum number of bounded NUL-free filters, and the buffer is the
  encoding of the request.
\<close>

theorem parse_unsubscribe_exact:
  "packet_parse_unsubscribe pkt n = (pid, Some fs) \<longleftrightarrow>
     pid \<noteq> 0 \<and> fs \<noteq> [] \<and> length fs \<le> n \<and> (\<forall>f \<in> set fs. filter_ok f) \<and>
     pkt_buf pkt = write_u16 pid @ unsub_body fs"
  using parse_unsubscribe_body [of pid fs n pkt] parse_unsubscribe_ok [of pkt n pid fs]
    parse_unsubscribe_inv [of pkt n pid fs]
  by metis

theorem parse_unsubscribe_exact_witness:
  "packet_parse_unsubscribe \<lparr>pkt_type_flags = 0xA2, pkt_remaining_len = 5,
     pkt_buf = [0, 1, 0, 1, 97]\<rparr> 8 = (1, Some [[97]])"
  by (subst parse_unsubscribe_exact)
    (simp add: unsub_body_def write_str_def write_u16_def filter_ok_def cstr_ok_def)

text \<open>
  The PUBLISH parser accepts a body (shorter than 64 KiB) with a message exactly when the
  message is well formed, its flags are the ones of the fixed header, and the body is the
  encoding of the message; a QoS 0 message keeps the caller's packet id.
\<close>

theorem parse_publish_exact:
  assumes "length (pkt_buf pkt) < 2 ^ 16"
  shows "packet_parse_publish pkt out = Some p \<longleftrightarrow>
    publish_ok p \<and> pkt_buf pkt = publish_body p \<and>
    drop_bit 3 (pkt_type_flags pkt) AND 1 = pub_dup p \<and>
    drop_bit 1 (pkt_type_flags pkt) AND 3 = pub_qos p \<and>
    pkt_type_flags pkt AND 1 = pub_retain p \<and>
    (pub_qos p = 0 \<longrightarrow> pub_packet_id p = pub_packet_id out)"
    (is "?parses \<longleftrightarrow> ?wire")
proof
  assume ?parses
  then show ?wire
    using parse_publish_ok parse_publish_inv [OF \<open>?parses\<close> assms] by (auto elim: parse_publish_cases)
next
  assume w: ?wire
  let ?p = "\<lparr>pkt_type_flags = publish_header p, pkt_remaining_len = 0, pkt_buf = publish_body p\<rparr>"
  have "packet_parse_publish pkt out = packet_parse_publish ?p out"
    using w publish_header_bits [of p] by (intro parse_publish_cong) simp_all
  also have "\<dots> = Some (p\<lparr>pub_packet_id := pub_packet_id p\<rparr>)"
    using w parse_publish_body [of p 0 out] by (auto simp: word_gt_0)
  finally show ?parses by simp
qed

theorem parse_publish_exact_witness:
  "packet_parse_publish \<lparr>pkt_type_flags = 0x33, pkt_remaining_len = 6, pkt_buf = [0, 1, 97, 0, 7, 104]\<rparr>
     zero_publish
   = Some \<lparr>pub_topic = [97], pub_payload = [104], pub_qos = 1, pub_retain = 1, pub_dup = 0,
           pub_packet_id = 7\<rparr>"
  by (subst parse_publish_exact)
    (simp_all add: publish_ok_def cstr_ok_def publish_body_def write_str_def write_u16_def)

theorem publish_roundtrip_witness:
  "\<exists>hdr enc body. packet_build_publish \<lparr>pub_topic = [97], pub_payload = [104], pub_qos = 1,
       pub_retain = 0, pub_dup = 0, pub_packet_id = 7\<rparr> 712 = Some (hdr # enc @ body) \<and>
     packet_parse_publish \<lparr>pkt_type_flags = hdr, pkt_remaining_len = 6, pkt_buf = body\<rparr> zero_publish
     = Some \<lparr>pub_topic = [97], pub_payload = [104], pub_qos = 1, pub_retain = 0, pub_dup = 0,
             pub_packet_id = 7\<rparr>"
  using publish_roundtrip [of "\<lparr>pub_topic = [97], pub_payload = [104], pub_qos = 1,
       pub_retain = 0, pub_dup = 0, pub_packet_id = 7\<rparr>" 712 "[]" 6]
  by (fastforce simp: publish_ok_def cstr_ok_def topic_publishable_def has_wildcard_def)



end
