(* ===== verification/Client_Core.thy ===== *)
theory Client_Core
  imports Broker_State Packet_Correct
begin

text \<open>
  Lemmas on the parts of \<^verbatim>\<open>src/client.c\<close> every other unit uses: \<open>client_send\<close>, which writes a
  frame to the client's socket or marks the client as disconnecting, and the fixed table of
  inflight frames, an instance of the slot tables of the prelude.
\<close>

subsection \<open>Sending\<close>

lemma send_loop_accepting: "accepting s \<Longrightarrow> send_loop buf s = (True, s\<lparr>so_sent := so_sent s @ buf\<rparr>)"
  by (cases "buf = []") (simp_all add: send_loop.simps plat_send_def accepting_def)

lemma plat_send_sent:
  "plat_send buf s = (n, s') \<Longrightarrow> so_sent s' = so_sent s @ take (nat n) buf"
  by (auto simp: plat_send_def min_def split: list.splits if_splits)

lemma send_loop_sent:
  "send_loop buf s = (ok, s') \<Longrightarrow>
   \<exists>k. so_sent s' = so_sent s @ take k buf \<and> (ok \<longleftrightarrow> length buf \<le> k) "
proof (induction buf s rule: send_loop.induct)
  case (1 buf s)
  show ?case
  proof (cases "buf = []")
    case True
    then show ?thesis using 1(2) by (auto simp: send_loop.simps)
  next
    case nonempty: False
    obtain n s1 where ps: "plat_send buf s = (n, s1)" by force
    show ?thesis
    proof (cases "n \<le> 0")
      case True
      then have "ok = False" "s' = s1" using 1(2) ps nonempty by (simp_all add: send_loop.simps)
      then show ?thesis
        using plat_send_sent [OF ps] True nonempty by (intro exI [of _ 0]) simp
    next
      case False
      then have "send_loop (drop (nat n) buf) s1 = (ok, s')"
        using 1(2) ps nonempty by (simp add: send_loop.simps)
      with 1(1) [OF nonempty refl ps [symmetric] False] obtain k where
        k: "so_sent s' = so_sent s1 @ take k (drop (nat n) buf)" "ok \<longleftrightarrow> length (drop (nat n) buf) \<le> k"
        by blast
      have "so_sent s' = so_sent s @ take (nat n + k) buf"
        using k(1) plat_send_sent [OF ps] by (simp add: take_add)
      then show ?thesis
        using k(2) plat_send_progress [OF ps nonempty] False
        by (intro exI [of _ "nat n + k"]) auto
    qed
  qed
qed

text \<open>What \<open>client_send\<close> leaves alone.\<close>

lemma client_send_frame [simp]:
  "bk_cfg_p2p (client_send c buf b) = bk_cfg_p2p b"
  "bk_cfg_auth (client_send c buf b) = bk_cfg_auth b"
  "bk_subs (client_send c buf b) = bk_subs b"
  "bk_exact_heads (client_send c buf b) = bk_exact_heads b"
  "bk_wildcard_head (client_send c buf b) = bk_wildcard_head b"
  "bk_retains (client_send c buf b) = bk_retains b"
  "bk_sessions (client_send c buf b) = bk_sessions b"
  "bk_calloc_ok (client_send c buf b) = bk_calloc_ok b"
  "bk_now (client_send c buf b) = bk_now b"
  "bk_p2p (client_send c buf b) = bk_p2p b"
  "bk_activity (client_send c buf b) = bk_activity b"
  "bk_threads (client_send c buf b) = bk_threads b"
  "length (bk_clients (client_send c buf b)) = length (bk_clients b)"
  by (simp_all add: client_send_def Let_def upd_sock_def upd_client_def split: prod.split)

lemma upd_client_frame [simp]:
  "bk_cfg_p2p (upd_client c f b) = bk_cfg_p2p b"
  "bk_cfg_auth (upd_client c f b) = bk_cfg_auth b"
  "bk_subs (upd_client c f b) = bk_subs b"
  "bk_exact_heads (upd_client c f b) = bk_exact_heads b"
  "bk_wildcard_head (upd_client c f b) = bk_wildcard_head b"
  "bk_retains (upd_client c f b) = bk_retains b"
  "bk_sessions (upd_client c f b) = bk_sessions b"
  "bk_calloc_ok (upd_client c f b) = bk_calloc_ok b"
  "bk_now (upd_client c f b) = bk_now b"
  "bk_p2p (upd_client c f b) = bk_p2p b"
  "bk_activity (upd_client c f b) = bk_activity b"
  "bk_threads (upd_client c f b) = bk_threads b"
  "bk_socks (upd_client c f b) = bk_socks b"
  "length (bk_clients (upd_client c f b)) = length (bk_clients b)"
  by (simp_all add: upd_client_def)

lemma upd_sock_frame [simp]:
  "bk_clients (upd_sock fd f b) = bk_clients b"
  "bk_cfg_p2p (upd_sock fd f b) = bk_cfg_p2p b"
  "bk_cfg_auth (upd_sock fd f b) = bk_cfg_auth b"
  "bk_subs (upd_sock fd f b) = bk_subs b"
  "bk_exact_heads (upd_sock fd f b) = bk_exact_heads b"
  "bk_wildcard_head (upd_sock fd f b) = bk_wildcard_head b"
  "bk_retains (upd_sock fd f b) = bk_retains b"
  "bk_sessions (upd_sock fd f b) = bk_sessions b"
  "bk_calloc_ok (upd_sock fd f b) = bk_calloc_ok b"
  "bk_now (upd_sock fd f b) = bk_now b"
  "bk_p2p (upd_sock fd f b) = bk_p2p b"
  "bk_activity (upd_sock fd f b) = bk_activity b"
  "bk_threads (upd_sock fd f b) = bk_threads b"
  "bk_socks (upd_sock fd f b) = (bk_socks b)(fd := f (bk_socks b fd))"
  by (simp_all add: upd_sock_def)

lemma client_at_upd: "c < length (bk_clients b) \<Longrightarrow>
    client_at (upd_client c f b) d = (if d = c then f (client_at b d) else client_at b d)"
  by (auto simp: client_at_def upd_client_def)

lemma client_at_upd_same [simp]:
  "c < length (bk_clients b) \<Longrightarrow> client_at (upd_client c f b) c = f (client_at b c)"
  by (simp add: client_at_upd)

lemma client_at_upd_other [simp]: "c \<noteq> d \<Longrightarrow> client_at (upd_client c f b) d = client_at b d"
  by (simp add: client_at_def upd_client_def)

lemma upd_client_cong:
  "f (client_at b c) = g (client_at b c) \<Longrightarrow> upd_client c f b = upd_client c g b"
  by (simp add: upd_client_def upd_nth_def client_at_def)

lemma client_at_upd_sock [simp]: "client_at (upd_sock fd f b) d = client_at b d"
  by (simp add: client_at_def)

text \<open>A client after a send: unchanged, or itself with the state of a failed send.\<close>

lemma client_at_send:
  "client_at (client_send c buf b) d = client_at b d \<or>
   d = c \<and> client_at (client_send c buf b) d = set_state CLIENT_STATE_DISCONNECTING (client_at b d)"
  by (cases "c < length (bk_clients b)"; cases "c = d")
    (auto simp: client_send_def Let_def client_at_def upd_client_def upd_nth_beyond
      split: prod.split)

lemma client_send_fields [simp]:
  "cl_fd (client_at (client_send c buf b) d) = cl_fd (client_at b d)"
  "cl_slot (client_at (client_send c buf b) d) = cl_slot (client_at b d)"
  "cl_client_id (client_at (client_send c buf b) d) = cl_client_id (client_at b d)"
  "cl_clean_session (client_at (client_send c buf b) d) = cl_clean_session (client_at b d)"
  "cl_keepalive (client_at (client_send c buf b) d) = cl_keepalive (client_at b d)"
  "cl_next_packet_id (client_at (client_send c buf b) d) = cl_next_packet_id (client_at b d)"
  "cl_inflight (client_at (client_send c buf b) d) = cl_inflight (client_at b d)"
  "cl_qos2_in (client_at (client_send c buf b) d) = cl_qos2_in (client_at b d)"
  "cl_has_will (client_at (client_send c buf b) d) = cl_has_will (client_at b d)"
  "cl_will (client_at (client_send c buf b) d) = cl_will (client_at b d)"
  "cl_last_seen_ms (client_at (client_send c buf b) d) = cl_last_seen_ms (client_at b d)"
  using client_at_send [of c buf b d] by (auto simp: set_state_def)

lemma client_send_accepting:
  "accepting (bk_socks b (cl_fd (client_at b c))) \<Longrightarrow>
   client_send c buf b = upd_sock (cl_fd (client_at b c)) (\<lambda>s. s\<lparr>so_sent := so_sent s @ buf\<rparr>) b"
  by (simp add: client_send_def send_loop_accepting Let_def upd_sock_def)

lemma client_send_other_sock:
  "fd \<noteq> cl_fd (client_at b c) \<Longrightarrow> bk_socks (client_send c buf b) fd = bk_socks b fd"
  by (simp add: client_send_def Let_def split: prod.split)

text \<open>The bytes on the wire are always a prefix of the frame; a short write ends the connection.\<close>

lemma client_send_wire:
  "\<exists>k. so_sent (bk_socks (client_send c buf b) (cl_fd (client_at b c)))
        = so_sent (bk_socks b (cl_fd (client_at b c))) @ take k buf \<and>
      (c < length (bk_clients b) \<longrightarrow> k < length buf \<longrightarrow>
        cl_state (client_at (client_send c buf b) c) = CLIENT_STATE_DISCONNECTING)"
proof -
  let ?fd = "cl_fd (client_at b c)"
  obtain ok s' where sl: "send_loop buf (bk_socks b ?fd) = (ok, s')" by force
  then obtain k where "so_sent s' = so_sent (bk_socks b ?fd) @ take k buf" "ok \<longleftrightarrow> length buf \<le> k"
    using send_loop_sent by blast
  then show ?thesis
    using sl by (intro exI [of _ k]) (auto simp: client_send_def Let_def set_state_def)
qed

subsection \<open>The inflight table\<close>

interpretation ifs: slot_table if_in_use if_packet_id "\<lambda>e. e\<lparr>if_in_use := False\<rparr>"
  by unfold_locales simp

interpretation q2s: slot_table q2_in_use q2_packet_id "\<lambda>e. e\<lparr>q2_in_use := False\<rparr>"
  by unfold_locales simp

lemma inflight_store_frame [simp]:
  "bk_cfg_p2p (client_inflight_store c pid buf q b) = bk_cfg_p2p b"
  "bk_cfg_auth (client_inflight_store c pid buf q b) = bk_cfg_auth b"
  "bk_subs (client_inflight_store c pid buf q b) = bk_subs b"
  "bk_exact_heads (client_inflight_store c pid buf q b) = bk_exact_heads b"
  "bk_wildcard_head (client_inflight_store c pid buf q b) = bk_wildcard_head b"
  "bk_retains (client_inflight_store c pid buf q b) = bk_retains b"
  "bk_sessions (client_inflight_store c pid buf q b) = bk_sessions b"
  "bk_calloc_ok (client_inflight_store c pid buf q b) = bk_calloc_ok b"
  "bk_now (client_inflight_store c pid buf q b) = bk_now b"
  "bk_p2p (client_inflight_store c pid buf q b) = bk_p2p b"
  "bk_activity (client_inflight_store c pid buf q b) = bk_activity b"
  "bk_threads (client_inflight_store c pid buf q b) = bk_threads b"
  "bk_socks (client_inflight_store c pid buf q b) = bk_socks b"
  "length (bk_clients (client_inflight_store c pid buf q b)) = length (bk_clients b)"
  by (simp_all add: client_inflight_store_def split: option.split)

lemma inflight_store_fields [simp]:
  "cl_fd (client_at (client_inflight_store c pid buf q b) d) = cl_fd (client_at b d)"
  "cl_slot (client_at (client_inflight_store c pid buf q b) d) = cl_slot (client_at b d)"
  "cl_state (client_at (client_inflight_store c pid buf q b) d) = cl_state (client_at b d)"
  "cl_client_id (client_at (client_inflight_store c pid buf q b) d) = cl_client_id (client_at b d)"
  "cl_clean_session (client_at (client_inflight_store c pid buf q b) d) = cl_clean_session (client_at b d)"
  "cl_next_packet_id (client_at (client_inflight_store c pid buf q b) d) = cl_next_packet_id (client_at b d)"
  "cl_qos2_in (client_at (client_inflight_store c pid buf q b) d) = cl_qos2_in (client_at b d)"
  "cl_has_will (client_at (client_inflight_store c pid buf q b) d) = cl_has_will (client_at b d)"
  "cl_will (client_at (client_inflight_store c pid buf q b) d) = cl_will (client_at b d)"
  "d \<noteq> c \<Longrightarrow> client_at (client_inflight_store c pid buf q b) d = client_at b d"
  by (cases "c = d"; cases "c < length (bk_clients b)";
      simp add: client_inflight_store_def upd_client_def upd_nth_beyond client_at_def
        nth_upd_nth split: option.split)+

text \<open>One retransmission, and the frames due for one.\<close>

definition retry_due :: "int \<Rightarrow> inflight \<Rightarrow> bool" where
  "retry_due now e \<longleftrightarrow> if_in_use e \<and> CLIENT_INFLIGHT_RETRY_MS \<le> now - if_sent_at_ms e"

definition retry_entry :: "int \<Rightarrow> inflight \<Rightarrow> inflight" where
  "retry_entry now e =
     (if if_qos e = 2 \<and> if_waiting_pubcomp e then e
      else e\<lparr>if_buf := set_dup (if_buf e)\<rparr>)\<lparr>if_sent_at_ms := now\<rparr>"

lemma inflight_retry_slot_eq:
  "inflight_retry_slot c i b =
     (let e = cl_inflight (client_at b c) ! i in
      if \<not> retry_due (bk_now b) e then b
      else client_send c (if_buf (retry_entry (bk_now b) e))
        (upd_client c (\<lambda>cl. cl\<lparr>cl_inflight := upd_nth i (retry_entry (bk_now b)) (cl_inflight cl)\<rparr>) b))"
proof (cases "retry_due (bk_now b) (cl_inflight (client_at b c) ! i)")
  case True
  show ?thesis
    using True unfolding inflight_retry_slot_def Let_def
    by (auto simp: retry_due_def retry_entry_def upd_nth_def intro!: upd_client_cong
        arg_cong [of _ _ "client_send _ _"])
qed (auto simp: inflight_retry_slot_def Let_def retry_due_def)

lemma retry_fold:
  assumes "c < length (bk_clients b)" and "accepting (bk_socks b (cl_fd (client_at b c)))"
    and "n \<le> length (cl_inflight (client_at b c))"
  shows "bk_now (fold (inflight_retry_slot c) [0..<n] b) = bk_now b \<and>
    length (bk_clients (fold (inflight_retry_slot c) [0..<n] b)) = length (bk_clients b) \<and>
    client_at (fold (inflight_retry_slot c) [0..<n] b) c = (client_at b c)\<lparr>cl_inflight :=
      map (\<lambda>e. if retry_due (bk_now b) e then retry_entry (bk_now b) e else e)
        (take n (cl_inflight (client_at b c))) @ drop n (cl_inflight (client_at b c))\<rparr> \<and>
    bk_socks (fold (inflight_retry_slot c) [0..<n] b) = (bk_socks b)(cl_fd (client_at b c) :=
      (bk_socks b (cl_fd (client_at b c)))\<lparr>so_sent := so_sent (bk_socks b (cl_fd (client_at b c))) @
        concat (map (\<lambda>e. if_buf (retry_entry (bk_now b) e))
          (filter (retry_due (bk_now b)) (take n (cl_inflight (client_at b c)))))\<rparr>)"
  using assms(3)
proof (induction n)
  case 0
  then show ?case by (simp add: fun_upd_idem)
next
  case (Suc n)
  let ?b = "fold (inflight_retry_slot c) [0..<n] b" and ?es = "cl_inflight (client_at b c)"
  let ?fd = "cl_fd (client_at b c)"
  have n: "n < length ?es" using Suc.prems by simp
  have IH: "bk_now ?b = bk_now b" "length (bk_clients ?b) = length (bk_clients b)"
    "client_at ?b c = (client_at b c)\<lparr>cl_inflight :=
       map (\<lambda>e. if retry_due (bk_now b) e then retry_entry (bk_now b) e else e) (take n ?es) @ drop n ?es\<rparr>"
    "bk_socks ?b = (bk_socks b)(?fd := (bk_socks b ?fd)\<lparr>so_sent := so_sent (bk_socks b ?fd) @
       concat (map (\<lambda>e. if_buf (retry_entry (bk_now b) e)) (filter (retry_due (bk_now b)) (take n ?es)))\<rparr>)"
    using Suc.IH n by (simp_all del: fun_upd_apply)
  have e: "cl_inflight (client_at ?b c) ! n = ?es ! n"
    using n by (simp add: IH(3) nth_append)
  have upd: "upd_nth n f (xs @ drop n ?es) = xs @ f (?es ! n) # drop (Suc n) ?es"
    if "length xs = n" for xs f
    using that n by (simp add: upd_nth_def nth_append list_update_append Cons_nth_drop_Suc [symmetric])
  have tk: "take (Suc n) ?es = take n ?es @ [?es ! n]"
    using n by (rule take_Suc_conv_app_nth)
  have ac: "accepting (bk_socks ?b (cl_fd (client_at ?b c)))"
    using assms(2) by (simp add: IH accepting_def)
  show ?case
  proof (cases "retry_due (bk_now b) (?es ! n)")
    case False
    then have "fold (inflight_retry_slot c) [0..<Suc n] b = ?b"
      by (simp add: inflight_retry_slot_eq e IH(1))
    then show ?thesis
      using IH False n by (simp add: tk Cons_nth_drop_Suc)
  next
    case True
    let ?e = "retry_entry (bk_now b) (?es ! n)"
    have "fold (inflight_retry_slot c) [0..<Suc n] b
        = client_send c (if_buf ?e)
            (upd_client c (\<lambda>cl. cl\<lparr>cl_inflight := upd_nth n (retry_entry (bk_now b)) (cl_inflight cl)\<rparr>) ?b)"
      using True by (simp add: inflight_retry_slot_eq e IH(1))
    then show ?thesis
      using IH True n assms ac
      by (simp add: tk client_send_accepting upd)
  qed
qed

subsection \<open>Properties\<close>

text \<open>
  The retry timer on a connection whose socket takes everything retransmits exactly the
  inflight frames whose timer has run out, in slot order, each as stored with the DUP bit set
  (a PUBREL unchanged), records those frames and the new time in the slots, and changes no
  other field of the client and no other socket.
\<close>

theorem inflight_retry_sends:
  assumes "c < length (bk_clients b)" and "accepting (bk_socks b (cl_fd (client_at b c)))"
  shows "client_at (client_inflight_retry c b) c = (client_at b c)\<lparr>cl_inflight :=
      map (\<lambda>e. if retry_due (bk_now b) e then retry_entry (bk_now b) e else e)
        (cl_inflight (client_at b c))\<rparr> \<and>
    bk_socks (client_inflight_retry c b) = (bk_socks b)(cl_fd (client_at b c) :=
      (bk_socks b (cl_fd (client_at b c)))\<lparr>so_sent := so_sent (bk_socks b (cl_fd (client_at b c))) @
        concat (map (\<lambda>e. if_buf (retry_entry (bk_now b) e))
          (filter (retry_due (bk_now b)) (cl_inflight (client_at b c))))\<rparr>)"
  using retry_fold [OF assms order_refl] by (simp add: client_inflight_retry_def)

theorem inflight_retry_sends_witness:
  "so_sent (bk_socks (client_inflight_retry 0
     ((client_inflight_store 0 7 [0x32, 5] 1 (idle_broker 1 1))\<lparr>bk_now := 5000\<rparr>)) (-1)) = [0x3A, 5]"
proof -
  let ?b = "(client_inflight_store 0 7 [0x32, 5] 1 (idle_broker 1 1))\<lparr>bk_now := 5000\<rparr>"
  note eval = client_inflight_store_def idle_broker_def client_pool_init_def static_broker_def
    upd_client_def client_at_def free_slot_def zero_client_def zero_inflight_def upd_nth_def
    quiet_sock_def numeral_eq_Suc
  have "0 < length (bk_clients ?b)" "accepting (bk_socks ?b (cl_fd (client_at ?b 0)))"
    by (simp_all add: eval accepting_def)
  from inflight_retry_sends [OF this] show ?thesis
    by (simp add: eval retry_due_def retry_entry_def set_dup_def)
qed

end
