(* ===== verification/Topic_Match.thy ===== *)
theory Topic_Match
  imports Broker_Prelude
begin

text \<open>
  Topic filters and their matching. The program has four matchers, one each in
  \<^verbatim>\<open>src/topic.c\<close>, \<^verbatim>\<open>src/broker.c\<close> (mesh ingress), \<^verbatim>\<open>src/p2p_router.c\<close> (remote routes) and
  \<^verbatim>\<open>src/p2p_peer.c\<close> (replay of pending messages), and one validator of filters.

  The reference is the level-wise definition of MQTT 3.1.1: \<open>levels\<close> splits at \<open>/\<close> and
  \<open>levels_match\<close> compares level by level. A pointer into a C string is the list of the
  remaining bytes, \<open>'/'\<close> is 47, \<open>'#'\<close> 35, \<open>'+'\<close> 43 and \<open>'$'\<close> 36.

  The lemmas show that the validator accepts exactly the well-formed filters, that every
  matcher is sound for the reference, and where each differs from it. The locale
  \<open>topic_matcher\<close> is what the subscription and route tables rely on: a filter without
  wildcards matches its own text only, which is what makes their hashed indexes complete.
\<close>

subsection \<open>Filters\<close>

text \<open>
  The loop of \<open>topic_filter_valid\<close>; \<open>prev\<close> is the byte before the pointer, \<open>None\<close> at the
  start of the string.
\<close>

fun filter_valid_loop :: "byte option \<Rightarrow> cstr \<Rightarrow> bool" where
  "filter_valid_loop prev [] = True"
| "filter_valid_loop prev (c # p) =
     (if c = 35 then
        if p \<noteq> [] then False
        else if prev \<noteq> None \<and> prev \<noteq> Some 47 then False
        else filter_valid_loop (Some c) p
      else if c = 43 then
        if prev \<noteq> None \<and> prev \<noteq> Some 47 then False
        else if p \<noteq> [] \<and> hd p \<noteq> 47 then False
        else filter_valid_loop (Some c) p
      else filter_valid_loop (Some c) p)"

definition topic_filter_valid :: "cstr \<Rightarrow> bool" where
  "topic_filter_valid f = (if f = [] then False else filter_valid_loop None f)"

subsection \<open>Matchers\<close>

text \<open>
  The loop the first three matchers share: \<open>Inl\<close> is a return from inside the loop, \<open>Inr\<close>
  the two pointers when it ends.
\<close>

function match_scan :: "cstr \<Rightarrow> cstr \<Rightarrow> bool + cstr \<times> cstr" where
  "match_scan f t =
     (if f = [] \<or> t = [] then Inr (f, t)
      else if hd f = 35 then Inl True
      else if hd f = 43 then match_scan (tl f) (dropWhile (\<lambda>c. c \<noteq> 47) t)
      else if hd f \<noteq> hd t then Inl False
      else match_scan (tl f) (tl t))"
  by pat_completeness auto
termination
  by (relation "measure (\<lambda>(f, t). length f)") auto

declare match_scan.simps [simp del]

definition topic_match :: "cstr \<Rightarrow> cstr \<Rightarrow> bool" where
  "topic_match flt topic =
     (if take 1 topic = [36] \<and> (take 1 flt = [43] \<or> take 1 flt = [35]) then False
      else case match_scan flt topic of
        Inl r \<Rightarrow> r
      | Inr (f, t) \<Rightarrow>
          if take 1 f = [35] then True
          else if f = [47, 35] \<and> t = [] then True
          else f = [] \<and> t = [])"

definition mqtt_topic_match :: "cstr \<Rightarrow> cstr \<Rightarrow> bool" where
  "mqtt_topic_match flt topic =
     (case match_scan flt topic of
        Inl r \<Rightarrow> r
      | Inr (f, t) \<Rightarrow>
          if take 1 f = [35] then True
          else if f = [47, 35] \<and> t = [] then True
          else f = [] \<and> t = [])"

definition router_topic_match :: "cstr \<Rightarrow> cstr \<Rightarrow> bool" where
  "router_topic_match flt topic =
     (case match_scan flt topic of
        Inl r \<Rightarrow> r
      | Inr (f, t) \<Rightarrow> if take 1 f = [35] then True else f = [] \<and> t = [])"

function topic_match_local :: "cstr \<Rightarrow> cstr \<Rightarrow> bool" where
  "topic_match_local flt topic =
     (if flt \<noteq> [] \<and> topic \<noteq> [] then
        if hd flt = 35 then tl flt = []
        else if hd flt = 43 then
          (let topic = dropWhile (\<lambda>c. c \<noteq> 47) topic; flt = tl flt
           in if take 1 flt = [47] \<and> take 1 topic = [47]
              then topic_match_local (tl flt) (tl topic)
              else topic_match_local flt topic)
        else if hd flt \<noteq> hd topic then False
        else topic_match_local (tl flt) (tl topic)
      else if flt = [47, 35] then True
      else flt = [] \<and> topic = [])"
  by pat_completeness auto
termination
  by (relation "measure (\<lambda>(f, t). length f)") auto

declare topic_match_local.simps [simp del]

subsection \<open>Levels\<close>

fun levels :: "cstr \<Rightarrow> cstr list" where
  "levels [] = [[]]"
| "levels (c # cs) =
     (if c = 47 then [] # levels cs else (c # hd (levels cs)) # tl (levels cs))"

text \<open>A level of a filter is \<open>+\<close>, a final \<open>#\<close>, or text without wildcards.\<close>

fun levels_valid :: "cstr list \<Rightarrow> bool" where
  "levels_valid [] = True"
| "levels_valid (l # ls) =
     (((l = [35] \<and> ls = []) \<or> l = [43] \<or> \<not> has_wildcard l) \<and> levels_valid ls)"

fun levels_match :: "cstr list \<Rightarrow> cstr list \<Rightarrow> bool" where
  "levels_match [] ts = (ts = [])"
| "levels_match (l # ls) ts =
     (l = [35] \<and> ls = [] \<or>
      (case ts of [] \<Rightarrow> False | t # ts' \<Rightarrow> (l = [43] \<or> l = t) \<and> levels_match ls ts'))"

definition dollar_hidden :: "cstr \<Rightarrow> cstr \<Rightarrow> bool" where
  "dollar_hidden flt topic \<longleftrightarrow>
     take 1 topic = [36] \<and> (take 1 flt = [43] \<or> take 1 flt = [35])"

lemma levels_not_Nil [simp]: "levels s \<noteq> []"
  by (induction s) auto

lemma levels_Cons: "levels s = hd (levels s) # tl (levels s)"
  by simp

lemma hd_levels: "hd (levels s) = takeWhile (\<lambda>c. c \<noteq> 47) s"
  by (induction s) auto

lemma tl_levels:
  "tl (levels s) = (let r = dropWhile (\<lambda>c. c \<noteq> 47) s in if r = [] then [] else levels (tl r))"
  by (induction s) (auto simp: Let_def)

lemma levels_single: "levels s = [[c]] \<longleftrightarrow> s = [c] \<and> c \<noteq> 47"
proof
  assume l: "levels s = [[c]]"
  then obtain x xs where s: "s = x # xs" by (cases s) auto
  with l have "x \<noteq> 47" "x = c" "hd (levels xs) = []" "tl (levels xs) = []"
    by (auto split: if_splits)
  moreover from this have "levels xs = [[]]" using levels_Cons [of xs] by simp
  then have "xs = []" by (cases xs) (auto split: if_splits)
  ultimately show "s = [c] \<and> c \<noteq> 47" using s by simp
qed simp

subsection \<open>The validator\<close>

definition level_start :: "byte option \<Rightarrow> bool" where
  "level_start prev \<longleftrightarrow> prev = None \<or> prev = Some 47"

lemma has_wildcard_Nil [simp]: "\<not> has_wildcard []"
  by (simp add: has_wildcard_def)

lemma has_wildcard_Cons [simp]: "has_wildcard (c # s) \<longleftrightarrow> c = 35 \<or> c = 43 \<or> has_wildcard s"
  by (auto simp: has_wildcard_def)

lemma levels_valid_Cons_single: "levels_valid (hd ls # tl ls) \<Longrightarrow> ls \<noteq> [] \<Longrightarrow> levels_valid ls"
  by simp

lemma filter_valid_loop_levels:
  "filter_valid_loop prev p \<longleftrightarrow>
     (if level_start prev then levels_valid (levels p)
      else \<not> has_wildcard (hd (levels p)) \<and> levels_valid (tl (levels p)))"
proof (induction prev p rule: filter_valid_loop.induct)
  case (2 prev c p)
  have cont: "levels p = hd (levels p) # tl (levels p)" by simp
  consider "c = 47" | "c = 35" | "c = 43" | "c \<noteq> 47" "c \<noteq> 35" "c \<noteq> 43" by blast
  then show ?case
  proof cases
    case 1
    then show ?thesis using 2(3) by (simp add: level_start_def)
  next
    case 2
    have "p = [] \<longleftrightarrow> hd (levels p) = [] \<and> tl (levels p) = []"
      by (cases p) auto
    then show ?thesis using \<open>c = 35\<close> by (auto simp: level_start_def)
  next
    case 3
    have "hd (levels p) = [] \<longleftrightarrow> p = [] \<or> hd p = 47"
      by (cases p) auto
    then show ?thesis
      using 3 2(2) by (auto simp: level_start_def)
  next
    case 4
    then show ?thesis using 2(3) by (auto simp: level_start_def)
  qed
qed simp

lemma filter_valid_levels: "topic_filter_valid f \<longleftrightarrow> f \<noteq> [] \<and> levels_valid (levels f)"
  by (simp add: topic_filter_valid_def filter_valid_loop_levels level_start_def)

subsection \<open>The matchers against the reference\<close>

lemma mqtt_match_steps:
  "mqtt_topic_match [] t \<longleftrightarrow> t = []"
  "mqtt_topic_match (35 # f) t"
  "\<not> mqtt_topic_match (43 # f) []"
  "mqtt_topic_match (43 # f) (c # t) = mqtt_topic_match f (dropWhile (\<lambda>c. c \<noteq> 47) (c # t))"
  "a \<noteq> 35 \<Longrightarrow> mqtt_topic_match (a # f) [] \<longleftrightarrow> a # f = [47, 35]"
  "a \<noteq> 35 \<Longrightarrow> a \<noteq> 43 \<Longrightarrow> mqtt_topic_match (a # f) (c # t) \<longleftrightarrow> a = c \<and> mqtt_topic_match f t"
  by (auto simp: mqtt_topic_match_def match_scan.simps)

lemma levels_slash: "c \<noteq> 47 \<Longrightarrow> levels (c # s) = (c # takeWhile (\<lambda>c. c \<noteq> 47) s) # tl (levels s)"
  by (simp add: hd_levels)

lemma levels_match_single: "levels_match [l] (t # ts) \<longleftrightarrow> l = [35] \<or> ((l = [43] \<or> l = t) \<and> ts = [])"
  by auto

lemma levels_match_parent: "levels_match (levels f) [] \<longleftrightarrow> f = [35]"
proof -
  have "levels_match ls [] \<longleftrightarrow> ls = [[35]]" if "ls \<noteq> []" for ls
    using that by (cases ls) auto
  then show ?thesis by (simp add: levels_single)
qed

lemma last_dropWhile: "dropWhile P t \<noteq> [] \<Longrightarrow> last (dropWhile P t) = last t"
  by (induction t) auto

lemma levels_match_hd:
  "levels_match (levels f) (levels t) \<longleftrightarrow>
     levels f = [[35]] \<or>
     (hd (levels f) = [43] \<or> hd (levels f) = hd (levels t)) \<and> levels_match (tl (levels f)) (tl (levels t))"
proof -
  have "levels_match ls ts \<longleftrightarrow> ls = [[35]] \<or> (hd ls = [43] \<or> hd ls = hd ts) \<and> levels_match (tl ls) (tl ts)"
    if "ls \<noteq> []" "ts \<noteq> []" for ls ts
    using that by (cases ls; cases ts) auto
  then show ?thesis by simp
qed

lemma after_plus:
  "(dropWhile (\<lambda>c. c \<noteq> 47) t = [] \<longrightarrow> \<not> level_start (Some 43)) \<and>
   (last t \<noteq> 47 \<longrightarrow> dropWhile (\<lambda>c. c \<noteq> 47) t \<noteq> [] \<longrightarrow> last (dropWhile (\<lambda>c. c \<noteq> 47) t) \<noteq> 47)"
  by (simp add: level_start_def last_dropWhile)

lemma mqtt_match_levels:
  assumes "filter_valid_loop prev f"
  shows "(mqtt_topic_match f t \<longrightarrow> levels_match (levels f) (levels t)) \<and>
    ((t = [] \<longrightarrow> \<not> level_start prev) \<and> (t \<noteq> [] \<longrightarrow> last t \<noteq> 47) \<longrightarrow>
      levels_match (levels f) (levels t) \<longrightarrow> mqtt_topic_match f t)"
  using assms
proof (induction f arbitrary: prev t)
  case Nil
  then show ?case
    by (cases t) (auto simp: mqtt_match_steps levels_match_single split: if_splits)
next
  case (Cons a f)
  consider "a = 35" | "a = 43" | "a = 47" | "a \<noteq> 35" "a \<noteq> 43" "a \<noteq> 47" by blast
  then show ?case
  proof cases
    case 1
    then show ?thesis
      using Cons.prems by (auto simp: mqtt_match_steps split: if_splits)
  next
    case 2
    then have ff: "hd (levels f) = []" and v: "filter_valid_loop (Some 43) f" and st: "level_start prev"
      using Cons.prems by (cases f; auto simp: level_start_def split: if_splits)+
    show ?thesis
    proof (cases t)
      case Nil
      then show ?thesis using 2 st by (simp add: mqtt_match_steps)
    next
      case t: (Cons c t')
      let ?r = "dropWhile (\<lambda>c. c \<noteq> 47) t"
      have "?r = [] \<or> hd ?r = 47"
        using hd_dropWhile [of "\<lambda>c. c \<noteq> 47" t] by auto
      then have "hd (levels ?r) = []" and "tl (levels ?r) = tl (levels t)"
        by (cases ?r; simp add: tl_levels [of t] Let_def del: dropWhile_eq_Nil_conv)+
      then have "levels_match (levels (a # f)) (levels t) \<longleftrightarrow> levels_match (levels f) (levels ?r)"
        using 2 ff by (subst (1 2) levels_match_hd) auto
      moreover have "mqtt_topic_match (a # f) t \<longleftrightarrow> mqtt_topic_match f ?r"
        using 2 t by (simp only: mqtt_match_steps)
      moreover note Cons.IH [OF v, of ?r] after_plus [of t] t
      ultimately show ?thesis by (simp only: list.distinct) blast
    qed
  next
    case 3
    then have v: "filter_valid_loop (Some 47) f" using Cons.prems by simp
    show ?thesis
    proof (cases t)
      case Nil
      then show ?thesis
        using 3 levels_match_parent [of f] by (simp add: mqtt_match_steps)
    next
      case t: (Cons c t')
      show ?thesis
        using 3 Cons.IH [OF v, of t'] by (auto simp: t mqtt_match_steps level_start_def split: if_splits)
    qed
  next
    case 4
    then have v: "filter_valid_loop (Some a) f" using Cons.prems by simp
    then have nw: "hd (levels f) \<noteq> [35]" "hd (levels f) \<noteq> [43]"
      using 4(3) by (auto simp: filter_valid_loop_levels level_start_def)
    show ?thesis
    proof (cases t)
      case Nil
      then show ?thesis using 4 by (auto simp: mqtt_match_steps)
    next
      case t: (Cons c t')
      have "levels_match (levels (a # f)) (levels t) \<longleftrightarrow> a = c \<and> levels_match (levels f) (levels t')"
        using nw 4 by (subst (1 2) levels_match_hd) (auto simp: t)
      then show ?thesis
        using 4 Cons.IH [OF v, of t'] by (auto simp: t mqtt_match_steps level_start_def)
    qed
  qed
qed

text \<open>The other matchers in terms of the one of the mesh ingress.\<close>

lemma topic_match_mqtt: "topic_match f t \<longleftrightarrow> \<not> dollar_hidden f t \<and> mqtt_topic_match f t"
  by (cases "match_scan f t") (auto simp: topic_match_def mqtt_topic_match_def dollar_hidden_def)

lemma router_match_steps:
  "router_topic_match [] t \<longleftrightarrow> t = []"
  "router_topic_match (35 # f) t"
  "\<not> router_topic_match (43 # f) []"
  "router_topic_match (43 # f) (c # t) = router_topic_match f (dropWhile (\<lambda>c. c \<noteq> 47) (c # t))"
  "a \<noteq> 35 \<Longrightarrow> \<not> router_topic_match (a # f) []"
  "a \<noteq> 35 \<Longrightarrow> a \<noteq> 43 \<Longrightarrow> router_topic_match (a # f) (c # t) \<longleftrightarrow> a = c \<and> router_topic_match f t"
  by (auto simp: router_topic_match_def match_scan.simps)

lemma mqtt_match_router:
  "mqtt_topic_match f t \<longleftrightarrow>
     router_topic_match f t \<or> (\<exists>g. f = g @ [47, 35] \<and> router_topic_match g t)"
proof (induction f arbitrary: t)
  case Nil
  then show ?case by (simp add: mqtt_match_steps router_match_steps)
next
  case (Cons a f)
  have ex: "(\<exists>g. a # f = g @ [47, 35] \<and> router_topic_match g t) \<longleftrightarrow>
      a # f = [47, 35] \<and> t = [] \<or> (\<exists>g. f = g @ [47, 35] \<and> router_topic_match (a # g) t)" for t
    by (auto simp: Cons_eq_append_conv router_match_steps)
  show ?case
    unfolding ex
    using Cons.IH by (cases "a = 35"; cases "a = 43"; cases t)
      (simp_all add: mqtt_match_steps router_match_steps del: dropWhile.simps, blast?)
qed

lemma local_match_steps:
  "topic_match_local [] t \<longleftrightarrow> t = []"
  "topic_match_local (35 # f) (c # t) \<longleftrightarrow> f = []"
  "topic_match_local f [] \<longleftrightarrow> f = [] \<or> f = [47, 35]"
  "a \<noteq> 35 \<Longrightarrow> a \<noteq> 43 \<Longrightarrow> topic_match_local (a # f) (c # t) \<longleftrightarrow> a = c \<and> topic_match_local f t"
  by (simp_all add: topic_match_local.simps [of "[]" t] topic_match_local.simps [of "35 # f" "c # t"]
      topic_match_local.simps [of f "[]"] topic_match_local.simps [of "a # f" "c # t"])

lemma local_match_plus:
  "topic_match_local (43 # f) (c # t) = topic_match_local f (dropWhile (\<lambda>c. c \<noteq> 47) (c # t))"
proof -
  let ?r = "dropWhile (\<lambda>c. c \<noteq> 47) (c # t)"
  have "topic_match_local f ?r = topic_match_local (tl f) (tl ?r)"
    if "take 1 f = [47]" "take 1 ?r = [47]"
    using that by (cases f; cases ?r) (simp_all add: local_match_steps del: dropWhile.simps)
  then show ?thesis
    by (simp add: topic_match_local.simps [of "43 # f" "c # t"] Let_def del: dropWhile.simps)
qed

lemma local_match_mqtt:
  assumes "filter_valid_loop prev f"
  shows "(topic_match_local f t \<longrightarrow> mqtt_topic_match f t) \<and>
    ((t = [] \<longrightarrow> \<not> level_start prev) \<and> (t \<noteq> [] \<longrightarrow> last t \<noteq> 47) \<longrightarrow>
      mqtt_topic_match f t \<longrightarrow> topic_match_local f t)"
  using assms
proof (induction f arbitrary: prev t)
  case (Cons a f)
  show ?case
  proof (cases t)
    case Nil
    have "a = 35 \<Longrightarrow> f = [] \<and> level_start prev"
      using Cons.prems by (auto simp: level_start_def split: if_splits)
    then show ?thesis
      using Nil by (cases "a = 35") (auto simp: local_match_steps mqtt_match_steps)
  next
    case t: (Cons c t')
    let ?r = "dropWhile (\<lambda>c. c \<noteq> 47) t"
    consider "a = 35" | "a = 43" | "a \<noteq> 35" "a \<noteq> 43" by blast
    then show ?thesis
    proof cases
      case 1
      then show ?thesis
        using Cons.prems t by (auto simp: local_match_steps mqtt_match_steps split: if_splits)
    next
      case 2
      then have v: "filter_valid_loop (Some 43) f" using Cons.prems by (auto split: if_splits)
      have "mqtt_topic_match (a # f) t \<longleftrightarrow> mqtt_topic_match f ?r"
        and "topic_match_local (a # f) t \<longleftrightarrow> topic_match_local f ?r"
        using 2 t by (simp_all only: mqtt_match_steps local_match_plus)
      moreover note Cons.IH [OF v, of ?r] after_plus [of t] t
      ultimately show ?thesis by (simp only: list.distinct) blast
    next
      case 3
      then have v: "filter_valid_loop (Some a) f" using Cons.prems by simp
      show ?thesis
        using 3 Cons.IH [OF v, of t']
        by (auto simp: t local_match_steps mqtt_match_steps level_start_def split: if_splits)
    qed
  qed
qed (simp add: local_match_steps mqtt_match_steps)

subsection \<open>The interface of the indexes\<close>

text \<open>
  What the subscription table and the route table rely on: a filter without wildcards
  matches exactly the topic with the same text, so it can be kept in a bucket chosen by the
  hash of its text, and only filters with wildcards have to be tried one by one.
\<close>

locale topic_matcher =
  fixes matches :: "cstr \<Rightarrow> cstr \<Rightarrow> bool"
  assumes exact: "\<not> has_wildcard f \<Longrightarrow> matches f t \<longleftrightarrow> f = t"
    and sound: "topic_filter_valid f \<Longrightarrow> matches f t \<Longrightarrow> levels_match (levels f) (levels t)"
begin

lemma indexed_lookup:
  "{f \<in> F. matches f t} = {f \<in> F. \<not> has_wildcard f \<and> f = t} \<union> {f \<in> F. has_wildcard f \<and> matches f t}"
  using exact by blast

lemma bucket_complete: "\<not> has_wildcard f \<Longrightarrow> matches f t \<Longrightarrow> h f = h t"
  by (simp add: exact)

lemma exact_self: "\<not> has_wildcard f \<Longrightarrow> matches f f"
  by (simp add: exact)

lemma miss: "topic_filter_valid f \<Longrightarrow> \<not> levels_match (levels f) (levels t) \<Longrightarrow> \<not> matches f t"
  using sound by blast

end

lemma mqtt_match_exact: "\<not> has_wildcard f \<Longrightarrow> mqtt_topic_match f t \<longleftrightarrow> f = t"
proof (induction f arbitrary: t)
  case (Cons a f)
  have nw: "a \<noteq> 35" "a \<noteq> 43" "\<not> has_wildcard f" "f \<noteq> [35]"
    using Cons.prems by auto
  show ?case
    using Cons.IH [OF nw(3)] nw(1,2,4) by (cases t) (simp_all add: mqtt_match_steps)
qed (simp add: mqtt_match_steps eq_commute)

lemma exact_not_hidden: "\<not> has_wildcard f \<Longrightarrow> \<not> dollar_hidden f t"
  by (cases f) (auto simp: dollar_hidden_def)

lemma router_match_exact: "\<not> has_wildcard f \<Longrightarrow> router_topic_match f t \<longleftrightarrow> f = t"
proof (induction f arbitrary: t)
  case (Cons a f)
  have nw: "a \<noteq> 35" "a \<noteq> 43" "\<not> has_wildcard f" "f \<noteq> [35]"
    using Cons.prems by auto
  show ?case
    using Cons.IH [OF nw(3)] nw(1,2,4) by (cases t) (simp_all add: router_match_steps)
qed (simp add: router_match_steps eq_commute)

lemma local_match_exact: "\<not> has_wildcard f \<Longrightarrow> topic_match_local f t \<longleftrightarrow> f = t"
proof (induction f arbitrary: t)
  case (Cons a f)
  have nw: "a \<noteq> 35" "a \<noteq> 43" "\<not> has_wildcard f" "f \<noteq> [35]"
    using Cons.prems by auto
  show ?case
    using Cons.IH [OF nw(3)] nw(1,2,4) by (cases t) (simp_all add: local_match_steps)
qed (simp add: local_match_steps eq_commute)

lemma mqtt_match_sound:
  "topic_filter_valid f \<Longrightarrow> mqtt_topic_match f t \<Longrightarrow> levels_match (levels f) (levels t)"
  using mqtt_match_levels [of None f t] by (simp add: topic_filter_valid_def split: if_splits)

lemma local_match_sound:
  "topic_filter_valid f \<Longrightarrow> topic_match_local f t \<Longrightarrow> levels_match (levels f) (levels t)"
  using local_match_mqtt [of None f t] mqtt_match_sound
  by (simp add: topic_filter_valid_def split: if_splits)

interpretation tm: topic_matcher topic_match
  by unfold_locales
    (auto simp: topic_match_mqtt mqtt_match_exact exact_not_hidden mqtt_match_sound)

interpretation mm: topic_matcher mqtt_topic_match
  by unfold_locales (auto simp: mqtt_match_exact mqtt_match_sound)

interpretation rm: topic_matcher router_topic_match
  by unfold_locales (auto simp: router_match_exact mqtt_match_router intro!: mqtt_match_sound)

interpretation lm: topic_matcher topic_match_local
  by unfold_locales (auto simp: local_match_exact local_match_sound)

subsection \<open>Properties\<close>

text \<open>
  \<open>topic_filter_valid\<close> accepts exactly the non-empty strings whose levels are each \<open>+\<close>, a
  \<open>#\<close> in last position, or free of wildcard characters (MQTT 3.1.1, section 4.7.1).
\<close>

theorem filter_valid_spec:
  "topic_filter_valid f \<longleftrightarrow> f \<noteq> [] \<and> levels_valid (levels f)"
  by (rule filter_valid_levels)

text \<open>
  C37: on a valid filter the matcher of the topic table never matches more than the level-wise
  definition allows, wildcards in first position never match a topic starting with a dollar
  sign, and on every other topic that is non-empty and does not end with a slash the matcher
  and the definition agree.
\<close>

theorem topic_match_spec:
  assumes "topic_filter_valid f"
  shows "(topic_match f t \<longrightarrow> levels_match (levels f) (levels t) \<and> \<not> dollar_hidden f t) \<and>
    (t \<noteq> [] \<and> last t \<noteq> 47 \<longrightarrow>
       (topic_match f t \<longleftrightarrow> levels_match (levels f) (levels t) \<and> \<not> dollar_hidden f t))"
  using assms mqtt_match_levels [of None f t]
  by (auto simp: topic_match_mqtt topic_filter_valid_def split: if_splits)

theorem topic_match_spec_witness:
  "topic_match [97, 47, 43, 47, 35] [97, 47, 98]"
proof -
  have "topic_filter_valid [97, 47, 43, 47, 35]" by code_simp
  from topic_match_spec [OF this, of "[97, 47, 98]"] show ?thesis by (auto simp: dollar_hidden_def)
qed

text \<open>
  The restriction to topics that do not end with a slash is needed: the filter \<open>a/+\<close> does not match the topic \<open>a/\<close>, although
  the last level of that topic is the empty string, which \<open>+\<close> matches by the specification
  (and does match, in the same position, when another level follows).
\<close>

theorem plus_empty_last_level:
  "\<not> topic_match [97, 47, 43] [97, 47] \<and> levels_match (levels [97, 47, 43]) (levels [97, 47]) \<and>
   topic_match [97, 47, 43, 47, 98] [97, 47, 47, 98]"
  by (simp add: topic_match_mqtt mqtt_match_steps dollar_hidden_def)

text \<open>
  The four matchers compared, on valid filters: the mesh ingress matches what the topic
  table matches and, in addition, topics starting with a dollar sign; the remote router
  lacks the rule that \<open>a/#\<close> matches the parent \<open>a\<close>, so a remote subscription to \<open>a/#\<close> is
  not routed publications on \<open>a\<close>; the replay matcher agrees with the mesh ingress except
  on topics that are empty or end with a slash.
\<close>

theorem matchers_compared:
  assumes "topic_filter_valid f"
  shows "(topic_match f t \<longleftrightarrow> \<not> dollar_hidden f t \<and> mqtt_topic_match f t) \<and>
    (mqtt_topic_match f t \<longleftrightarrow>
       router_topic_match f t \<or> (\<exists>g. f = g @ [47, 35] \<and> router_topic_match g t)) \<and>
    (topic_match_local f t \<longrightarrow> mqtt_topic_match f t) \<and>
    (t \<noteq> [] \<and> last t \<noteq> 47 \<longrightarrow> (topic_match_local f t \<longleftrightarrow> mqtt_topic_match f t))"
proof -
  have "filter_valid_loop None f" using assms by (simp add: topic_filter_valid_def split: if_splits)
  from local_match_mqtt [OF this, of t] topic_match_mqtt [of f t] mqtt_match_router [of f t]
  show ?thesis by blast
qed

theorem matchers_compared_witness:
  "\<not> router_topic_match [97, 47, 35] [97] \<and> mqtt_topic_match [97, 47, 35] [97]"
proof -
  have v: "topic_filter_valid [97, 47, 35]" by code_simp
  have "router_topic_match [97] [97]" "\<not> router_topic_match [97, 47, 35] [97]"
    by (simp_all add: router_match_steps)
  moreover have "[97, 47, 35] = [97 :: byte] @ [47, 35]" by simp
  ultimately show ?thesis using matchers_compared [OF v, of "[97]"] by blast
qed

end
