(* ===== verification/Session.thy ===== *)
theory Session
  imports Client_Core Topic_Match
begin

text \<open>
  Persistent sessions, \<^verbatim>\<open>src/session.c\<close>: a pool of sessions keyed by client id, each with the
  subscriptions saved when its client left and a queue of messages for its return.

  The lemmas show that the pool keeps client ids unique and behaves as a bounded map
  (\<open>slot_table\<close>), that the queue of a session refines a bounded first-in first-out queue
  (locale \<open>bounded_fifo\<close>, whose contents is \<open>queue_msgs\<close>), and what \<open>session_offline_publish\<close>
  and \<open>session_drain\<close> do to it.
\<close>

subsection \<open>The pool\<close>

definition session_pool_ensure :: "broker \<Rightarrow> bool \<times> broker" where
  "session_pool_ensure b =
     (if bk_sessions b \<noteq> None then (True, b)
      else if bk_calloc_ok b
      then (True, b\<lparr>bk_sessions := Some (replicate (length (bk_clients b)) zero_session)\<rparr>)
      else (False, b))"

definition session_init :: "broker \<Rightarrow> broker" where
  "session_init b =
     (case bk_sessions b of
        None \<Rightarrow> b
      | Some ss \<Rightarrow> b\<lparr>bk_sessions := Some (replicate (length ss) zero_session)\<rparr>)"

definition upd_session :: "nat \<Rightarrow> (session \<Rightarrow> session) \<Rightarrow> broker \<Rightarrow> broker" where
  "upd_session i f b = b\<lparr>bk_sessions := map_option (upd_nth i f) (bk_sessions b)\<rparr>"

definition session_at :: "broker \<Rightarrow> nat \<Rightarrow> session" where
  "session_at b i = the (bk_sessions b) ! i"

definition session_find :: "cstr \<Rightarrow> broker \<Rightarrow> nat option" where
  "session_find client_id b =
     (case bk_sessions b of
        None \<Rightarrow> None
      | Some ss \<Rightarrow> slot_of ses_in_use ses_client_id client_id ss)"

definition new_session :: "cstr \<Rightarrow> session" where
  "new_session client_id =
     zero_session\<lparr>ses_client_id := strncpy_str MQTT_CLIENT_ID_MAX client_id, ses_in_use := True\<rparr>"

definition session_create :: "cstr \<Rightarrow> broker \<Rightarrow> nat option \<times> broker" where
  "session_create client_id b =
     (let (ok, b) = session_pool_ensure b in
      if \<not> ok then (None, b)
      else case free_slot ses_in_use (the (bk_sessions b)) of
             None \<Rightarrow> (None, b)
           | Some i \<Rightarrow> (Some i, upd_session i (\<lambda>_. new_session client_id) b))"

text \<open>The result is the session and the flag \<open>was_found\<close>.\<close>

definition session_find_or_create :: "cstr \<Rightarrow> broker \<Rightarrow> (nat option \<times> bool) \<times> broker" where
  "session_find_or_create client_id b =
     (let (ok, b) = session_pool_ensure b in
      if \<not> ok then ((None, False), b)
      else case slot_of ses_in_use ses_client_id client_id (the (bk_sessions b)) of
             Some i \<Rightarrow> ((Some i, True), b)
           | None \<Rightarrow>
               (case free_slot ses_in_use (the (bk_sessions b)) of
                  Some i \<Rightarrow> ((Some i, False), upd_session i (\<lambda>_. new_session client_id) b)
                | None \<Rightarrow> ((None, False), b)))"

definition session_delete :: "cstr \<Rightarrow> broker \<Rightarrow> broker" where
  "session_delete client_id b =
     (case bk_sessions b of
        None \<Rightarrow> b
      | Some ss \<Rightarrow>
          (case slot_of ses_in_use ses_client_id client_id ss of
             None \<Rightarrow> b
           | Some i \<Rightarrow> upd_session i (\<lambda>s. s\<lparr>ses_in_use := False\<rparr>) b))"

definition session_save_subs :: "(cstr \<times> byte) list \<Rightarrow> session \<Rightarrow> session" where
  "session_save_subs subs s =
     s\<lparr>ses_subs := map (\<lambda>(f, q). (strncpy_str MQTT_TOPIC_MAX f, q)) (take SESSION_SUB_MAX subs),
       ses_offline := True\<rparr>"

subsection \<open>The queue\<close>

definition queued_msg :: "mqtt_publish \<Rightarrow> u16 \<Rightarrow> session_msg" where
  "queued_msg pub pkt_id =
     \<lparr>msg_topic = strncpy_str MQTT_TOPIC_MAX (pub_topic pub),
      msg_payload = take MQTT_PAYLOAD_MAX (pub_payload pub),
      msg_qos = pub_qos pub, msg_packet_id = pkt_id, msg_dup = pub_dup pub, msg_in_use = True\<rparr>"

text \<open>The first component is the return code: \<open>True\<close> for 0, \<open>False\<close> for -1.\<close>

definition session_enqueue :: "mqtt_publish \<Rightarrow> u16 \<Rightarrow> session \<Rightarrow> bool \<times> session" where
  "session_enqueue pub pkt_id s =
     (case free_slot msg_in_use (ses_queue s) of
        None \<Rightarrow> (False, s)
      | Some i \<Rightarrow> (True, s\<lparr>ses_queue := upd_nth i (\<lambda>_. queued_msg pub pkt_id) (ses_queue s)\<rparr>))"

definition msg_publish :: "session_msg \<Rightarrow> mqtt_publish" where
  "msg_publish m = zero_publish\<lparr>pub_topic := strncpy_str MQTT_TOPIC_MAX (msg_topic m),
     pub_payload := msg_payload m, pub_qos := msg_qos m, pub_packet_id := msg_packet_id m,
     pub_dup := msg_dup m\<rparr>"

text \<open>
  The frame of a message sent to a client, recorded as inflight when it has a QoS: the code
  has this sequence in \<open>session_drain\<close> and in the deliveries of \<^verbatim>\<open>src/topic.c\<close>.
\<close>

definition send_frame :: "nat \<Rightarrow> mqtt_publish \<Rightarrow> broker \<Rightarrow> broker" where
  "send_frame c pub b =
     (case packet_build_publish pub (MQTT_MAX_PACKET_SIZE + 8) of
        None \<Rightarrow> b
      | Some buf \<Rightarrow>
          (let b = client_send c buf b
           in if pub_qos pub > 0 then client_inflight_store c (pub_packet_id pub) buf (pub_qos pub) b
              else b))"

definition drain_slot :: "nat \<Rightarrow> nat \<Rightarrow> nat \<Rightarrow> broker \<Rightarrow> broker" where
  "drain_slot s c i b =
     (let m = ses_queue (session_at b s) ! i in
      if \<not> msg_in_use m then b
      else upd_session s (\<lambda>ses. ses\<lparr>ses_queue := upd_nth i (\<lambda>m. m\<lparr>msg_in_use := False\<rparr>) (ses_queue ses)\<rparr>)
             (send_frame c (msg_publish m) b))"

definition session_drain :: "nat \<Rightarrow> nat \<Rightarrow> broker \<Rightarrow> broker" where
  "session_drain s c b = fold (drain_slot s c) [0..<length (ses_queue (session_at b s))] b"

text \<open>
  One iteration of the outer loop of \<open>session_offline_publish\<close>: the session afterwards and the
  increment of the counter. The inner loop stops at the first matching filter.
\<close>

definition offline_session ::
  "(cstr \<Rightarrow> cstr \<Rightarrow> bool) \<Rightarrow> mqtt_publish \<Rightarrow> session \<Rightarrow> session \<times> nat" where
  "offline_session match_fn pub s =
     (if \<not> ses_in_use s \<or> \<not> ses_offline s then (s, 0)
      else case find_idx (\<lambda>(f, q). match_fn f (pub_topic pub)) (ses_subs s) of
             None \<Rightarrow> (s, 0)
           | Some j \<Rightarrow>
               (let qos = (if pub_qos pub < snd (ses_subs s ! j) then pub_qos pub
                           else snd (ses_subs s ! j))
                in if qos > 0 then
                     (let pkt_id = (if ses_next_packet_id s = 0 then 1 else ses_next_packet_id s);
                          s = s\<lparr>ses_next_packet_id := pkt_id + 1\<rparr>;
                          q = pub\<lparr>pub_qos := qos, pub_packet_id := pkt_id\<rparr>
                      in (snd (session_enqueue q pkt_id s), 1))
                   else (s, 0)))"

definition session_offline_publish ::
  "(cstr \<Rightarrow> cstr \<Rightarrow> bool) \<Rightarrow> mqtt_publish \<Rightarrow> broker \<Rightarrow> nat \<times> broker" where
  "session_offline_publish match_fn pub b =
     (if pub_qos pub = 0 then (0, b)
      else case bk_sessions b of
             None \<Rightarrow> (0, b)
           | Some ss \<Rightarrow>
               (let rs = map (offline_session match_fn pub) ss
                in (sum_list (map snd rs), b\<lparr>bk_sessions := Some (map fst rs)\<rparr>)))"

subsection \<open>Frames\<close>

lemma session_frame [simp]:
  "bk_clients (upd_session i f b) = bk_clients b"
  "bk_threads (upd_session i f b) = bk_threads b"
  "bk_cfg_p2p (upd_session i f b) = bk_cfg_p2p b"
  "bk_cfg_auth (upd_session i f b) = bk_cfg_auth b"
  "bk_subs (upd_session i f b) = bk_subs b"
  "bk_exact_heads (upd_session i f b) = bk_exact_heads b"
  "bk_wildcard_head (upd_session i f b) = bk_wildcard_head b"
  "bk_retains (upd_session i f b) = bk_retains b"
  "bk_calloc_ok (upd_session i f b) = bk_calloc_ok b"
  "bk_socks (upd_session i f b) = bk_socks b"
  "bk_now (upd_session i f b) = bk_now b"
  "bk_p2p (upd_session i f b) = bk_p2p b"
  "bk_activity (upd_session i f b) = bk_activity b"
  "bk_sessions (upd_session i f b) = map_option (upd_nth i f) (bk_sessions b)"
  "client_at (upd_session i f b) c = client_at b c"
  by (simp_all add: upd_session_def client_at_def)

lemma send_frame_frame [simp]:
  "bk_cfg_p2p (send_frame c pub b) = bk_cfg_p2p b"
  "bk_cfg_auth (send_frame c pub b) = bk_cfg_auth b"
  "bk_subs (send_frame c pub b) = bk_subs b"
  "bk_exact_heads (send_frame c pub b) = bk_exact_heads b"
  "bk_wildcard_head (send_frame c pub b) = bk_wildcard_head b"
  "bk_retains (send_frame c pub b) = bk_retains b"
  "bk_sessions (send_frame c pub b) = bk_sessions b"
  "bk_calloc_ok (send_frame c pub b) = bk_calloc_ok b"
  "bk_now (send_frame c pub b) = bk_now b"
  "bk_p2p (send_frame c pub b) = bk_p2p b"
  "bk_activity (send_frame c pub b) = bk_activity b"
  "bk_threads (send_frame c pub b) = bk_threads b"
  "length (bk_clients (send_frame c pub b)) = length (bk_clients b)"
  "cl_fd (client_at (send_frame c pub b) d) = cl_fd (client_at b d)"
  "cl_slot (client_at (send_frame c pub b) d) = cl_slot (client_at b d)"
  "cl_client_id (client_at (send_frame c pub b) d) = cl_client_id (client_at b d)"
  "cl_clean_session (client_at (send_frame c pub b) d) = cl_clean_session (client_at b d)"
  "cl_next_packet_id (client_at (send_frame c pub b) d) = cl_next_packet_id (client_at b d)"
  "cl_qos2_in (client_at (send_frame c pub b) d) = cl_qos2_in (client_at b d)"
  by (simp_all add: send_frame_def Let_def split: option.split)

lemma upd_session_send_frame:
  "send_frame c pub (upd_session s f b) = upd_session s f (send_frame c pub b)"
proof -
  have "client_send c buf (upd_session s f b) = upd_session s f (client_send c buf b)" for buf
    by (simp add: client_send_def Let_def upd_session_def upd_sock_def upd_client_def client_at_def
        split: prod.split)
  moreover have "client_inflight_store c pid buf q (upd_session s f b')
      = upd_session s f (client_inflight_store c pid buf q b')" for pid buf q b'
    by (simp add: client_inflight_store_def upd_session_def upd_client_def client_at_def
        split: option.split)
  ultimately show ?thesis
    by (simp add: send_frame_def Let_def split: option.split)
qed

text \<open>The bytes of a list of messages, each with its own fixed header.\<close>

definition frame_bytes :: "mqtt_publish \<Rightarrow> byte list" where
  "frame_bytes p = (case packet_build_publish p (MQTT_MAX_PACKET_SIZE + 8) of None \<Rightarrow> [] | Some f \<Rightarrow> f)"

definition wire_frames :: "mqtt_publish list \<Rightarrow> byte list" where
  "wire_frames ps = concat (map frame_bytes ps)"

lemma wire_frames_simps [simp]:
  "wire_frames [] = []"
  "wire_frames (p # ps) = frame_bytes p @ wire_frames ps"
  "wire_frames (ps @ qs) = wire_frames ps @ wire_frames qs"
  by (simp_all add: wire_frames_def)

lemma frame_bytes_nonempty:
  "publish_ok p \<Longrightarrow> topic_publishable (pub_topic p) \<Longrightarrow> frame_bytes p \<noteq> []"
  using build_publish_total [of p "MQTT_MAX_PACKET_SIZE + 8"] by (auto simp: frame_bytes_def)

lemma send_frame_socks:
  assumes "accepting (bk_socks b (cl_fd (client_at b c)))"
  shows "bk_socks (send_frame c p b) = (bk_socks b)(cl_fd (client_at b c) :=
    (bk_socks b (cl_fd (client_at b c)))\<lparr>so_sent :=
       so_sent (bk_socks b (cl_fd (client_at b c))) @ frame_bytes p\<rparr>)"
  using assms by (simp add: send_frame_def frame_bytes_def client_send_accepting Let_def fun_upd_idem
      split: option.split)

lemma send_frames_socks:
  assumes "accepting (bk_socks b (cl_fd (client_at b c)))"
  shows "bk_socks (fold (send_frame c) ps b) = (bk_socks b)(cl_fd (client_at b c) :=
      (bk_socks b (cl_fd (client_at b c)))\<lparr>so_sent :=
         so_sent (bk_socks b (cl_fd (client_at b c))) @ wire_frames ps\<rparr>) \<and>
    cl_fd (client_at (fold (send_frame c) ps b) c) = cl_fd (client_at b c)"
  using assms
proof (induction ps arbitrary: b)
  case (Cons p ps)
  have "accepting (bk_socks (send_frame c p b) (cl_fd (client_at (send_frame c p b) c)))"
    using Cons.prems by (simp add: send_frame_socks accepting_def)
  from Cons.IH [OF this] show ?case
    using Cons.prems by (simp add: send_frame_socks fun_eq_iff)
qed (simp add: fun_upd_idem)

subsection \<open>The queue is a bounded FIFO\<close>

text \<open>
  An abstract bounded queue: \<open>enq\<close> appends while there is room and refuses without a change
  when there is none.
\<close>

locale bounded_fifo =
  fixes enq :: "'a \<Rightarrow> 'q \<Rightarrow> bool \<times> 'q"
    and item :: "'a \<Rightarrow> 'm"
    and contents :: "'q \<Rightarrow> 'm list"
    and ok :: "'q \<Rightarrow> bool"
    and cap :: nat
  assumes enq_ok: "ok q \<Longrightarrow> ok (snd (enq x q))"
    and enq_accept: "ok q \<Longrightarrow> length (contents q) < cap \<Longrightarrow>
          fst (enq x q) \<and> contents (snd (enq x q)) = contents q @ [item x]"
    and enq_full: "ok q \<Longrightarrow> \<not> length (contents q) < cap \<Longrightarrow> enq x q = (False, q)"
begin

definition enq_all :: "'a list \<Rightarrow> 'q \<Rightarrow> 'q" where
  "enq_all xs q = fold (\<lambda>x q. snd (enq x q)) xs q"

lemma enq_all_ok: "ok q \<Longrightarrow> ok (enq_all xs q)"
  by (induction xs arbitrary: q) (simp_all add: enq_all_def enq_ok)

lemma enq_all_contents:
  assumes "ok q" and "length (contents q) \<le> cap"
  shows "contents (enq_all xs q) = take cap (contents q @ map item xs)"
  using assms
proof (induction xs arbitrary: q)
  case (Cons x xs)
  show ?case
  proof (cases "length (contents q) < cap")
    case True
    with Cons.prems Cons.IH [of "snd (enq x q)"] enq_accept [of q x] enq_ok [of q x] show ?thesis
      by (simp add: enq_all_def)
  next
    case False
    with Cons.prems Cons.IH [of q] enq_full [of q x] show ?thesis
      by (simp add: enq_all_def)
  qed
qed (simp add: enq_all_def)

end

definition queue_prefix :: "session_msg list \<Rightarrow> bool" where
  "queue_prefix q \<longleftrightarrow> (\<forall>m \<in> set (dropWhile msg_in_use q). \<not> msg_in_use m)"

definition queue_msgs :: "session \<Rightarrow> session_msg list" where
  "queue_msgs s = filter msg_in_use (ses_queue s)"

definition queue_ok :: "session \<Rightarrow> bool" where
  "queue_ok s \<longleftrightarrow> queue_prefix (ses_queue s) \<and> length (ses_queue s) = SESSION_QUEUE_MAX"

lemma queue_prefix_split:
  assumes "queue_prefix q"
  obtains us fs where "q = us @ fs" and "\<forall>m \<in> set us. msg_in_use m" and "\<forall>m \<in> set fs. \<not> msg_in_use m"
proof -
  have "q = takeWhile msg_in_use q @ dropWhile msg_in_use q" by simp
  moreover have "\<forall>m \<in> set (takeWhile msg_in_use q). msg_in_use m" by (meson set_takeWhileD)
  ultimately show ?thesis using assms that unfolding queue_prefix_def by blast
qed

lemma queue_prefix_append:
  "\<forall>m \<in> set us. msg_in_use m \<Longrightarrow> \<forall>m \<in> set fs. \<not> msg_in_use m \<Longrightarrow> queue_prefix (us @ fs)"
  by (simp add: queue_prefix_def dropWhile_append2)

lemma free_slot_split:
  "\<forall>m \<in> set us. used m \<Longrightarrow> \<forall>m \<in> set fs. \<not> used m \<Longrightarrow>
   free_slot used (us @ fs) = (if fs = [] then None else Some (length us))"
  by (induction us) (auto simp: free_slot_def neq_Nil_conv find_idx_None)

lemma queue_put:
  assumes "queue_ok s"
  shows "queue_ok (snd (session_enqueue pub pid s)) \<and>
    (if length (queue_msgs s) < SESSION_QUEUE_MAX
     then fst (session_enqueue pub pid s) \<and>
          queue_msgs (snd (session_enqueue pub pid s)) = queue_msgs s @ [queued_msg pub pid]
     else session_enqueue pub pid s = (False, s))"
proof -
  obtain us fs where q: "ses_queue s = us @ fs" and us: "\<forall>m \<in> set us. msg_in_use m"
    and fs: "\<forall>m \<in> set fs. \<not> msg_in_use m"
    using assms queue_prefix_split by (auto simp: queue_ok_def)
  have fl: "filter msg_in_use (us @ fs) = us" using us fs by simp
  have mu: "msg_in_use (queued_msg pub pid)" by (simp add: queued_msg_def)
  have free: "free_slot msg_in_use (ses_queue s) = (if fs = [] then None else Some (length us))"
    unfolding q by (rule free_slot_split [OF us fs])
  show ?thesis
  proof (cases fs)
    case Nil
    then show ?thesis
      using assms fl free by (simp add: session_enqueue_def queue_msgs_def q queue_ok_def)
  next
    case (Cons f fs')
    have "upd_nth (length us) (\<lambda>_. queued_msg pub pid) (us @ f # fs') = (us @ [queued_msg pub pid]) @ fs'"
      by (simp add: upd_nth_def)
    moreover have "queue_prefix ((us @ [queued_msg pub pid]) @ fs')"
      by (rule queue_prefix_append) (use us fs Cons mu in auto)
    ultimately show ?thesis
      using assms fl free Cons fs mu us
      by (simp add: session_enqueue_def queue_msgs_def q queue_ok_def)
  qed
qed

interpretation sq: bounded_fifo "\<lambda>(pub, pid). session_enqueue pub pid" "\<lambda>(pub, pid). queued_msg pub pid"
    queue_msgs queue_ok SESSION_QUEUE_MAX
  by unfold_locales (use queue_put in \<open>force split: prod.splits\<close>)+

interpretation sess: slot_table ses_in_use ses_client_id "\<lambda>s. s\<lparr>ses_in_use := False\<rparr>"
  by unfold_locales simp

lemma upd_nth_upd_nth: "upd_nth i f (upd_nth i g xs) = upd_nth i (f \<circ> g) xs"
  by (cases "i < length xs") (simp_all add: upd_nth_def list_update_beyond)

lemma upd_session_upd_session: "upd_session i f (upd_session i g b) = upd_session i (f \<circ> g) b"
  by (simp add: upd_session_def option.map_comp comp_def upd_nth_upd_nth)

lemma upd_session_cong:
  "f (session_at b i) = g (session_at b i) \<Longrightarrow> upd_session i f b = upd_session i g b"
  by (cases "bk_sessions b") (simp_all add: upd_session_def upd_nth_def session_at_def)

lemma session_at_upd:
  "bk_sessions b = Some ss \<Longrightarrow> s < length ss \<Longrightarrow>
   session_at (upd_session i f b) s = (if s = i then f (session_at b s) else session_at b s)"
  by (simp add: session_at_def nth_upd_nth)

subsection \<open>Draining\<close>

definition clear_msgs :: "session_msg list \<Rightarrow> session_msg list" where
  "clear_msgs q = map (\<lambda>m. m\<lparr>msg_in_use := False\<rparr>) q"

lemma sessions_fold_send [simp]: "bk_sessions (fold (send_frame c) ps b) = bk_sessions b"
  by (induction ps arbitrary: b) simp_all

lemma session_at_fold_send [simp]: "session_at (fold (send_frame c) ps b) s = session_at b s"
  by (simp add: session_at_def)

lemma drain_fold:
  assumes "bk_sessions b = Some ss" and "s < length ss" and "n \<le> length (ses_queue (session_at b s))"
  shows "fold (drain_slot s c) [0..<n] b =
    upd_session s (\<lambda>ses. ses\<lparr>ses_queue := clear_msgs (take n (ses_queue ses)) @ drop n (ses_queue ses)\<rparr>)
      (fold (send_frame c) (map msg_publish (filter msg_in_use (take n (ses_queue (session_at b s))))) b)"
  using assms(3)
proof (induction n)
  case 0
  have "upd_session s (\<lambda>ses. ses) b = b"
    by (cases "bk_sessions b") (simp_all add: upd_session_def upd_nth_def)
  then show ?case by (simp add: clear_msgs_def)
next
  case (Suc n)
  let ?q = "ses_queue (session_at b s)"
  let ?f = "\<lambda>n ses. ses\<lparr>ses_queue := clear_msgs (take n (ses_queue ses)) @ drop n (ses_queue ses)\<rparr>"
  let ?sent = "\<lambda>n. fold (send_frame c) (map msg_publish (filter msg_in_use (take n ?q))) b"
  let ?b = "upd_session s (?f n) (?sent n)"
  have n: "n < length ?q" using Suc.prems by simp
  have IH: "fold (drain_slot s c) [0..<n] b = ?b" using Suc.IH n by simp
  have q: "ses_queue (session_at ?b s) = clear_msgs (take n ?q) @ drop n ?q"
    using assms(1,2) by (simp add: session_at_upd)
  have m: "ses_queue (session_at ?b s) ! n = ?q ! n"
    unfolding q using n by (simp add: clear_msgs_def nth_append)
  have step: "ses\<lparr>ses_queue := upd_nth n (\<lambda>m. m\<lparr>msg_in_use := False\<rparr>) (ses_queue ses)\<rparr>
      = ?f (Suc n) (session_at b s)"
    if "ses = ?f n (session_at b s)" for ses
    using that n
    by (simp add: upd_nth_def clear_msgs_def nth_append list_update_append take_Suc_conv_app_nth
        Cons_nth_drop_Suc [symmetric])
  show ?case
  proof (cases "msg_in_use (?q ! n)")
    case True
    have "fold (drain_slot s c) [0..<Suc n] b
        = upd_session s (\<lambda>ses. ses\<lparr>ses_queue := upd_nth n (\<lambda>m. m\<lparr>msg_in_use := False\<rparr>) (ses_queue ses)\<rparr>)
            (send_frame c (msg_publish (?q ! n)) ?b)"
      using True by (simp add: IH drain_slot_def m)
    also have "\<dots> = upd_session s
          ((\<lambda>ses. ses\<lparr>ses_queue := upd_nth n (\<lambda>m. m\<lparr>msg_in_use := False\<rparr>) (ses_queue ses)\<rparr>) \<circ> ?f n)
          (?sent (Suc n))"
      using True n by (simp add: upd_session_send_frame upd_session_upd_session take_Suc_conv_app_nth)
    also have "\<dots> = upd_session s (?f (Suc n)) (?sent (Suc n))"
      using step by (intro upd_session_cong) simp
    finally show ?thesis .
  next
    case False
    have clr: "(?q ! n)\<lparr>msg_in_use := False\<rparr> = ?q ! n" using False by simp
    have "fold (drain_slot s c) [0..<Suc n] b = ?b"
      using False by (simp add: IH drain_slot_def m)
    also have "\<dots> = upd_session s (?f (Suc n)) (?sent n)"
      using n clr by (intro upd_session_cong)
        (simp add: clear_msgs_def take_Suc_conv_app_nth Cons_nth_drop_Suc)
    finally show ?thesis
      using False n by (simp add: take_Suc_conv_app_nth)
  qed
qed

lemma session_drain_eq:
  assumes "bk_sessions b = Some ss" and "s < length ss"
  shows "session_drain s c b =
    upd_session s (\<lambda>ses. ses\<lparr>ses_queue := clear_msgs (ses_queue ses)\<rparr>)
      (fold (send_frame c) (map msg_publish (queue_msgs (session_at b s))) b)"
proof -
  have "session_drain s c b = upd_session s (\<lambda>ses. ses\<lparr>ses_queue :=
        clear_msgs (take (length (ses_queue (session_at b s))) (ses_queue ses))
        @ drop (length (ses_queue (session_at b s))) (ses_queue ses)\<rparr>)
      (fold (send_frame c) (map msg_publish (queue_msgs (session_at b s))) b)"
    using drain_fold [OF assms order_refl, of c] by (simp add: session_drain_def queue_msgs_def)
  also have "\<dots> = upd_session s (\<lambda>ses. ses\<lparr>ses_queue := clear_msgs (ses_queue ses)\<rparr>)
      (fold (send_frame c) (map msg_publish (queue_msgs (session_at b s))) b)"
    by (rule upd_session_cong) simp
  finally show ?thesis .
qed

subsection \<open>Well-formed pools\<close>

definition session_ok :: "session \<Rightarrow> bool" where
  "session_ok s \<longleftrightarrow>
     cstr_ok (ses_client_id s) \<and> length (ses_client_id s) < MQTT_CLIENT_ID_MAX \<and>
     length (ses_subs s) \<le> SESSION_SUB_MAX \<and>
     (\<forall>(f, q) \<in> set (ses_subs s). filter_ok f \<and> topic_filter_valid f \<and> q \<le> 2) \<and> queue_ok s \<and>
     (\<forall>m \<in> set (ses_queue s). msg_in_use m \<longrightarrow>
        publish_ok (msg_publish m) \<and> topic_publishable (msg_topic m))"

definition pool_ok :: "broker \<Rightarrow> bool" where
  "pool_ok b \<longleftrightarrow>
     (case bk_sessions b of
        None \<Rightarrow> True
      | Some ss \<Rightarrow> length ss = length (bk_clients b) \<and> keys_unique ses_in_use ses_client_id ss \<and>
          (\<forall>s \<in> set ss. session_ok s))"

lemma session_ok_zero [simp]: "session_ok zero_session"
  by (simp add: session_ok_def zero_session_def queue_ok_def queue_prefix_def zero_msg_def
      numeral_eq_Suc)

lemma session_ok_new [wf_intros]: "cstr_ok cid \<Longrightarrow> session_ok (new_session cid)"
  using session_ok_zero length_strncpy_str [of 24 cid]
  by (auto simp: session_ok_def new_session_def queue_ok_def)

lemma session_ok_enqueue [wf_intros]:
  assumes "session_ok s" and "publish_ok pub" and "topic_publishable (pub_topic pub)"
    and "pub_qos pub > 0 \<longrightarrow> pid \<noteq> 0"
  shows "session_ok (snd (session_enqueue pub pid s))"
proof -
  have "queue_ok (snd (session_enqueue pub pid s))"
    using assms(1) queue_put [of s pub pid] by (simp add: session_ok_def)
  moreover have "publish_ok (msg_publish (queued_msg pub pid))"
    "topic_publishable (msg_topic (queued_msg pub pid))"
    using assms(2-4) by (simp_all add: msg_publish_def queued_msg_def publish_ok_def zero_publish_def)
  ultimately show ?thesis
    using assms(1)
    by (auto simp: session_ok_def session_enqueue_def dest!: set_upd_nth split: option.splits)
qed

lemma session_ok_save_subs [wf_intros]:
  assumes "session_ok s" and "\<forall>(f, q) \<in> set subs. filter_ok f \<and> topic_filter_valid f \<and> q \<le> 2"
  shows "session_ok (session_save_subs subs s)"
  using assms
  by (auto simp: session_ok_def session_save_subs_def queue_ok_def filter_ok_def dest!: in_set_takeD)

lemma queue_prefix_clear: "queue_prefix (clear_msgs q)"
  by (auto simp: queue_prefix_def clear_msgs_def dest!: set_dropWhileD)

lemma session_ok_clear [wf_intros]:
  "session_ok s \<Longrightarrow> session_ok (s\<lparr>ses_queue := clear_msgs (ses_queue s)\<rparr>)"
  using queue_prefix_clear [of "ses_queue s"]
  by (auto simp: session_ok_def queue_ok_def) (auto simp: clear_msgs_def)

lemma session_ok_flags [simp]:
  "session_ok (s\<lparr>ses_in_use := x\<rparr>) = session_ok s"
  "session_ok (s\<lparr>ses_offline := x\<rparr>) = session_ok s"
  "session_ok (s\<lparr>ses_next_packet_id := y\<rparr>) = session_ok s"
  by (simp_all add: session_ok_def queue_ok_def)

text \<open>Every operation keeps the pool well formed.\<close>

lemma pool_ok_cong:
  "bk_sessions b' = bk_sessions b \<Longrightarrow> length (bk_clients b') = length (bk_clients b) \<Longrightarrow>
   pool_ok b' = pool_ok b"
  by (simp add: pool_ok_def split: option.split)

lemma pool_ok_upd:
  assumes "pool_ok b" and "bk_sessions b = Some ss"
    and "i < length ss \<Longrightarrow> session_ok (ss ! i) \<Longrightarrow> session_ok (f (ss ! i))"
    and "keys_unique ses_in_use ses_client_id (upd_nth i f ss)"
  shows "pool_ok (upd_session i f b)"
  using assms by (auto simp: pool_ok_def dest!: set_upd_nth)

lemma keys_unique_same:
  assumes "keys_unique used key xs" and "\<And>e. used (f e) \<longrightarrow> used e" and "\<And>e. key (f e) = key e"
  shows "keys_unique used key (upd_nth i f xs)"
  using assms by (auto simp: keys_unique_def nth_upd_nth split: if_splits)

lemma keys_unique_map:
  assumes "keys_unique used key xs" and "\<And>e. used (f e) \<longrightarrow> used e" and "\<And>e. key (f e) = key e"
  shows "keys_unique used key (map f xs)"
  using assms by (auto simp: keys_unique_def)

lemma pool_ok_zero: "bk_sessions b = Some (replicate (length (bk_clients b)) zero_session) \<Longrightarrow> pool_ok b"
  by (simp add: pool_ok_def keys_unique_def zero_session_def [THEN arg_cong, of ses_in_use])

lemma pool_ensure_ok: "pool_ok b \<Longrightarrow> session_pool_ensure b = (ok, b') \<Longrightarrow> pool_ok b'"
  by (auto simp: session_pool_ensure_def split: if_splits intro!: pool_ok_zero)

lemma pool_ensure_frame [simp]:
  "bk_clients (snd (session_pool_ensure b)) = bk_clients b"
  "bk_subs (snd (session_pool_ensure b)) = bk_subs b"
  "bk_socks (snd (session_pool_ensure b)) = bk_socks b"
  by (simp_all add: session_pool_ensure_def)

lemma pool_ensure_sessions:
  "session_pool_ensure b = (ok, b') \<Longrightarrow>
   ok = (bk_sessions b' \<noteq> None) \<and> (bk_sessions b = None \<or> b' = b) \<and>
   (bk_sessions b = None \<longrightarrow> bk_sessions b' \<noteq> None \<longrightarrow>
     bk_sessions b' = Some (replicate (length (bk_clients b)) zero_session))"
  by (auto simp: session_pool_ensure_def split: if_splits)

lemma free_slot_no_key:
  "slot_of used key k xs = None \<Longrightarrow> slot_of used key k xs = None \<or> slot_of used key k xs = Some i"
  by simp

lemma find_or_create_cases:
  assumes "session_find_or_create cid b = ((r, found), b')" and "pool_ok b"
    and "cstr_ok cid" and "length cid < MQTT_CLIENT_ID_MAX"
  shows "pool_ok b' \<and>
    (case r of
       None \<Rightarrow> \<not> found \<and> session_find cid b = None
     | Some i \<Rightarrow> found = (session_find cid b \<noteq> None) \<and> session_find cid b' = Some i \<and>
         (\<exists>ss. bk_sessions b' = Some ss \<and> i < length ss) \<and>
         ses_in_use (session_at b' i) \<and> ses_client_id (session_at b' i) = cid \<and>
         (found \<longrightarrow> b' = b) \<and> (\<not> found \<longrightarrow> session_at b' i = new_session cid))"
proof -
  obtain ok b1 where en: "session_pool_ensure b = (ok, b1)" by force
  have ok1: "pool_ok b1" using pool_ensure_ok [OF assms(2) en] .
  have zs: "slot_of ses_in_use ses_client_id cid (replicate n zero_session) = None" for n
    by (auto simp: slot_of_def find_idx_None zero_session_def)
  show ?thesis
  proof (cases ok)
    case False
    then show ?thesis
      using assms(1) en ok1 pool_ensure_sessions [OF en]
      by (auto simp: session_find_or_create_def session_find_def)
  next
    case True
    then obtain ss where ss: "bk_sessions b1 = Some ss"
      using pool_ensure_sessions [OF en] by auto
    have find: "session_find cid b = slot_of ses_in_use ses_client_id cid ss"
      using pool_ensure_sessions [OF en] ss
      by (cases "bk_sessions b") (auto simp: session_find_def zs)
    show ?thesis
    proof (cases "slot_of ses_in_use ses_client_id cid ss")
      case (Some i)
      then have "r = Some i" "found" "b' = b1" and i: "i < length ss" "ses_in_use (ss ! i)" "ses_client_id (ss ! i) = cid"
        using assms(1) en True ss find_idx_SomeD [of "\<lambda>e. ses_in_use e \<and> ses_client_id e = cid" ss i]
        by (auto simp: session_find_or_create_def slot_of_def)
      moreover have "b1 = b"
        using pool_ensure_sessions [OF en] find Some by (auto simp: session_find_def)
      ultimately show ?thesis
        using assms(2) ss find Some by (simp add: session_at_def session_find_def)
    next
      case None
      show ?thesis
      proof (cases "free_slot ses_in_use ss")
        case None': None
        then show ?thesis
          using assms(1) en True ss None ok1 find by (simp add: session_find_or_create_def)
      next
        case (Some i)
        let ?new = "new_session cid"
        have new: "ses_in_use ?new" "ses_client_id ?new = cid"
          using assms(4) by (simp_all add: new_session_def)
        have i: "i < length ss"
          using Some by (auto simp: free_slot_def dest: find_idx_SomeD)
        have r: "r = Some i" "\<not> found" "b' = upd_session i (\<lambda>_. ?new) b1"
          using assms(1) en True ss None Some by (simp_all add: session_find_or_create_def)
        have ku: "keys_unique ses_in_use ses_client_id ss"
          using ok1 ss by (simp add: pool_ok_def)
        have nk: "slot_of ses_in_use ses_client_id (ses_client_id ?new) ss = None \<or>
            slot_of ses_in_use ses_client_id (ses_client_id ?new) ss = Some i"
          using None new by simp
        have "pool_ok b'"
          unfolding r(3) using ok1 ss session_ok_new [OF assms(3)] sess.unique_store [OF ku nk]
          by (intro pool_ok_upd) auto
        moreover have "session_find cid b' = Some i"
          using sess.slot_of_store [OF ku i new(1) nk] ss new(2) by (simp add: r(3) session_find_def)
        ultimately show ?thesis
          using r find None ss i new by (simp add: session_at_def)
      qed
    qed
  qed
qed

lemma session_delete_ok:
  assumes "pool_ok b"
  shows "pool_ok (session_delete cid b)" and "session_find cid (session_delete cid b) = None"
    and "cid' \<noteq> cid \<Longrightarrow> session_find cid' (session_delete cid b) = session_find cid' b"
proof -
  have "pool_ok (session_delete cid b) \<and> session_find cid (session_delete cid b) = None \<and>
      (cid' \<noteq> cid \<longrightarrow> session_find cid' (session_delete cid b) = session_find cid' b)"
  proof (cases "bk_sessions b")
    case (Some ss)
    then have ku: "keys_unique ses_in_use ses_client_id ss" using assms by (simp add: pool_ok_def)
    show ?thesis
    proof (cases "slot_of ses_in_use ses_client_id cid ss")
      case None
      then show ?thesis using Some assms by (simp add: session_delete_def session_find_def)
    next
      case (Some i)
      have "pool_ok (upd_session i (\<lambda>s. s\<lparr>ses_in_use := False\<rparr>) b)"
        using assms \<open>bk_sessions b = Some ss\<close> sess.unique_release [OF ku]
        by (intro pool_ok_upd) auto
      then show ?thesis
        using Some \<open>bk_sessions b = Some ss\<close> sess.slot_of_release [OF ku Some]
          sess.slot_of_release_other [OF ku Some]
        by (simp add: session_delete_def session_find_def)
    qed
  qed (use assms in \<open>simp add: session_delete_def session_find_def\<close>)
  then show "pool_ok (session_delete cid b)" and "session_find cid (session_delete cid b) = None"
    and "cid' \<noteq> cid \<Longrightarrow> session_find cid' (session_delete cid b) = session_find cid' b" by blast+
qed

text \<open>What one session gets from a publication while its client is away.\<close>

definition first_match_qos :: "(cstr \<Rightarrow> cstr \<Rightarrow> bool) \<Rightarrow> cstr \<Rightarrow> (cstr \<times> byte) list \<Rightarrow> byte" where
  "first_match_qos match_fn topic subs =
     (case filter (\<lambda>(f, q). match_fn f topic) subs of [] \<Rightarrow> 0 | (f, q) # _ \<Rightarrow> q)"

definition offline_wants :: "(cstr \<Rightarrow> cstr \<Rightarrow> bool) \<Rightarrow> mqtt_publish \<Rightarrow> session \<Rightarrow> bool" where
  "offline_wants match_fn pub s \<longleftrightarrow>
     ses_in_use s \<and> ses_offline s \<and> 0 < min (pub_qos pub) (first_match_qos match_fn (pub_topic pub) (ses_subs s))"

definition offline_id :: "session \<Rightarrow> u16" where
  "offline_id s = (if ses_next_packet_id s = 0 then 1 else ses_next_packet_id s)"

definition offline_copy :: "(cstr \<Rightarrow> cstr \<Rightarrow> bool) \<Rightarrow> mqtt_publish \<Rightarrow> session \<Rightarrow> session_msg" where
  "offline_copy match_fn pub s =
     queued_msg (pub\<lparr>pub_qos := min (pub_qos pub) (first_match_qos match_fn (pub_topic pub) (ses_subs s)),
                     pub_packet_id := offline_id s\<rparr>) (offline_id s)"

lemma find_idx_filter:
  "(case filter P xs of [] \<Rightarrow> None | x # _ \<Rightarrow> Some x) = map_option (\<lambda>i. xs ! i) (find_idx P xs)"
  by (induction xs) (auto simp: option.map_comp comp_def)

lemma first_match_find:
  "first_match_qos match_fn topic subs =
     (case find_idx (\<lambda>(f, q). match_fn f topic) subs of None \<Rightarrow> 0 | Some j \<Rightarrow> snd (subs ! j))"
proof -
  have "first_match_qos match_fn topic subs =
      (case (case filter (\<lambda>(f, q). match_fn f topic) subs of [] \<Rightarrow> None | x # _ \<Rightarrow> Some x) of
         None \<Rightarrow> 0 | Some x \<Rightarrow> snd x)"
    by (simp add: first_match_qos_def split: list.split prod.split)
  then show ?thesis by (simp add: find_idx_filter split: option.split)
qed

lemma min_if: "(if a < b then a else b) = min a (b :: 'a :: linorder)"
  by (auto simp: min_def)

lemma offline_session_eq:
  "offline_session match_fn pub s =
     (if offline_wants match_fn pub s
      then (snd (session_enqueue
              (pub\<lparr>pub_qos := min (pub_qos pub) (first_match_qos match_fn (pub_topic pub) (ses_subs s)),
                   pub_packet_id := offline_id s\<rparr>)
              (offline_id s) (s\<lparr>ses_next_packet_id := offline_id s + 1\<rparr>)), 1)
      else (s, 0))"
  by (auto simp: offline_session_def offline_wants_def first_match_find offline_id_def Let_def min_if
      split: option.split)

lemma enqueue_fields [simp]:
  "ses_client_id (snd (session_enqueue pub pid s)) = ses_client_id s"
  "ses_in_use (snd (session_enqueue pub pid s)) = ses_in_use s"
  "ses_offline (snd (session_enqueue pub pid s)) = ses_offline s"
  "ses_subs (snd (session_enqueue pub pid s)) = ses_subs s"
  "ses_next_packet_id (snd (session_enqueue pub pid s)) = ses_next_packet_id s"
  by (simp_all add: session_enqueue_def split: option.split)

lemma offline_fields [simp]:
  "ses_client_id (fst (offline_session match_fn pub s)) = ses_client_id s"
  "ses_in_use (fst (offline_session match_fn pub s)) = ses_in_use s"
  "ses_offline (fst (offline_session match_fn pub s)) = ses_offline s"
  "ses_subs (fst (offline_session match_fn pub s)) = ses_subs s"
  by (simp_all add: offline_session_eq)

lemma offline_id_nonzero: "offline_id s \<noteq> 0"
  by (simp add: offline_id_def)

lemma session_ok_offline [wf_intros]:
  assumes "session_ok s" and "message_ok pub" and "topic_publishable (pub_topic pub)"
  shows "session_ok (fst (offline_session match_fn pub s))"
  using assms offline_id_nonzero [of s]
  by (auto simp: offline_session_eq intro!: session_ok_enqueue message_copy_ok(1))

lemma pool_ok_offline:
  assumes "pool_ok b" and "message_ok pub" and "topic_publishable (pub_topic pub)"
  shows "pool_ok (snd (session_offline_publish match_fn pub b))"
  using assms session_ok_offline [OF _ assms(2,3)]
  by (auto simp: session_offline_publish_def pool_ok_def comp_def split: option.split
      intro!: keys_unique_map [where f = "\<lambda>s. fst (offline_session match_fn pub s)"])

lemma queue_msgs_offline:
  assumes "queue_ok s"
  shows "queue_msgs (fst (offline_session match_fn pub s)) =
    (if offline_wants match_fn pub s \<and> length (queue_msgs s) < SESSION_QUEUE_MAX
     then queue_msgs s @ [offline_copy match_fn pub s] else queue_msgs s)"
proof -
  let ?s = "s\<lparr>ses_next_packet_id := offline_id s + 1\<rparr>"
  have "queue_ok ?s" "queue_msgs ?s = queue_msgs s"
    using assms by (simp_all add: queue_ok_def queue_msgs_def)
  then show ?thesis
    using queue_put [of ?s] by (auto simp: offline_session_eq offline_copy_def queue_msgs_def)
qed

lemma offline_copy_fields:
  assumes "message_ok pub"
  shows "msg_topic (offline_copy match_fn pub s) = pub_topic pub" "msg_payload (offline_copy match_fn pub s) = pub_payload pub"
    "msg_dup (offline_copy match_fn pub s) = pub_dup pub" "msg_packet_id (offline_copy match_fn pub s) = offline_id s"
    "msg_qos (offline_copy match_fn pub s) = min (pub_qos pub) (first_match_qos match_fn (pub_topic pub) (ses_subs s))"
  using assms by (simp_all add: offline_copy_def queued_msg_def message_ok_def publish_ok_def)

lemma offline_next_id:
  "ses_next_packet_id (fst (offline_session match_fn pub s)) =
    (if offline_wants match_fn pub s then offline_id s + 1 else ses_next_packet_id s)"
  by (simp add: offline_session_eq)

lemma offline_session_at:
  assumes "bk_sessions b = Some ss" and "i < length ss"
  shows "session_at (snd (session_offline_publish match_fn pub b)) i =
    (if pub_qos pub = 0 then ss ! i else fst (offline_session match_fn pub (ss ! i)))"
  using assms by (simp add: session_offline_publish_def session_at_def)

lemma pool_ok_drain:
  assumes "pool_ok b"
  shows "pool_ok (session_drain s c b)"
proof (cases "\<exists>ss. bk_sessions b = Some ss \<and> s < length ss")
  case True
  then obtain ss where ss: "bk_sessions b = Some ss" "s < length ss" by blast
  let ?b = "fold (send_frame c) (map msg_publish (queue_msgs (session_at b s))) b"
  have len: "length (bk_clients (fold (send_frame c) ps b)) = length (bk_clients b)" for ps b
    by (induction ps arbitrary: b) simp_all
  have "pool_ok ?b" using assms by (subst pool_ok_cong) (simp_all add: len)
  moreover have "keys_unique ses_in_use ses_client_id ss"
    using assms ss by (simp add: pool_ok_def)
  ultimately show ?thesis
    unfolding session_drain_eq [OF ss]
    using ss by (intro pool_ok_upd [of _ ss] keys_unique_same) (auto intro: session_ok_clear)
next
  case False
  then have "upd_session s f b' = b'" if "bk_sessions b' = bk_sessions b" for f b'
    using that by (cases "bk_sessions b") (auto simp: upd_session_def upd_nth_beyond)
  then have "bk_sessions (drain_slot s c i b') = bk_sessions b' \<and>
      length (bk_clients (drain_slot s c i b')) = length (bk_clients b')"
    if "bk_sessions b' = bk_sessions b" for i b'
    using that by (simp add: drain_slot_def Let_def)
  then have "bk_sessions (fold (drain_slot s c) is b') = bk_sessions b \<and>
      length (bk_clients (fold (drain_slot s c) is b')) = length (bk_clients b')"
    if "bk_sessions b' = bk_sessions b" for "is" b'
    using that by (induction "is" arbitrary: b') simp_all
  then show ?thesis
    using assms by (subst pool_ok_cong) (simp_all add: session_drain_def)
qed

subsection \<open>Properties\<close>

lemma drain_message_built:
  assumes "publish_ok (msg_publish m)" and "topic_publishable (msg_topic m)"
  shows "packet_build_publish (msg_publish m) 712 \<noteq> None \<and>
    (0 < msg_qos m \<longrightarrow> msg_packet_id m \<noteq> 0)"
proof -
  have p: "topic_publishable (pub_topic (msg_publish m))"
    using assms(2) by (auto simp: msg_publish_def zero_publish_def strncpy_str_def topic_publishable_def has_wildcard_def dest: in_set_takeD)
  have "0 < msg_qos m \<longrightarrow> msg_packet_id m \<noteq> 0" using assms(1) by (simp add: publish_ok_def msg_publish_def)
  then show ?thesis using build_publish_total [OF assms(1) p, of 712] by auto
qed

text \<open>
  Looking up or creating the session of a client id. In a well-formed pool the call
  returns the one session with this id when there is one, and then changes nothing; otherwise
  it takes a free slot for an empty session with this id, or fails; the pool stays well formed.
\<close>

theorem session_lookup:
  assumes "pool_ok b" and "cstr_ok cid" and "length cid < MQTT_CLIENT_ID_MAX"
  shows "case session_find_or_create cid b of
      ((None, found), b') \<Rightarrow> pool_ok b' \<and> \<not> found \<and> session_find cid b = None
    | ((Some i, found), b') \<Rightarrow> pool_ok b' \<and> found = (session_find cid b \<noteq> None) \<and>
        session_find cid b' = Some i \<and> ses_client_id (session_at b' i) = cid \<and>
        (found \<longrightarrow> b' = b) \<and> (\<not> found \<longrightarrow> session_at b' i = new_session cid)"
  using find_or_create_cases [OF _ assms]
  by (auto split: prod.split option.split)


text \<open>A message with QoS 1 or 2 that is in the queue without a packet id could not be built.\<close>

lemma zero_id_lost: "0 < msg_qos m \<Longrightarrow> msg_packet_id m = 0 \<Longrightarrow> packet_build_publish (msg_publish m) cap = None"
  by (simp add: packet_build_publish_def msg_publish_def Let_def split: option.split)

text \<open>
  C19: draining a session of a well-formed pool to a client whose socket takes everything writes the
  queued messages to that socket, oldest first, each as one PUBLISH with its topic, payload, QoS, packet
  id and DUP flag; each of them can be built, those with a QoS having a packet id; it leaves the queue
  empty, and touches no other socket. (Unlike the comment in \<^verbatim>\<open>session.h\<close> says, draining allocates no packet ids; a message
  queued with the id 0 would be dropped without a trace, \<open>zero_id_lost\<close>, but none is.)
\<close>

theorem drain_delivers:
  assumes "pool_ok b" and "bk_sessions b = Some ss" and "s < length ss"
    and "accepting (bk_socks b (cl_fd (client_at b c)))"
  shows "bk_socks (session_drain s c b) = (bk_socks b)(cl_fd (client_at b c) :=
      (bk_socks b (cl_fd (client_at b c)))\<lparr>so_sent := so_sent (bk_socks b (cl_fd (client_at b c)))
         @ concat (map (\<lambda>m. the (packet_build_publish (msg_publish m) (MQTT_MAX_PACKET_SIZE + 8))) (queue_msgs (ss ! s)))\<rparr>) \<and>
    (\<forall>m \<in> set (queue_msgs (ss ! s)). packet_build_publish (msg_publish m) (MQTT_MAX_PACKET_SIZE + 8) \<noteq> None \<and>
      (0 < msg_qos m \<longrightarrow> msg_packet_id m \<noteq> 0)) \<and>
    queue_msgs (session_at (session_drain s c b) s) = []"
proof -
  have at: "session_at b s = ss ! s" using assms(2) by (simp add: session_at_def)
  have empty: "queue_msgs (ses\<lparr>ses_queue := clear_msgs (ses_queue ses)\<rparr>) = []" for ses
    by (simp add: queue_msgs_def clear_msgs_def filter_empty_conv)
  have ok: "publish_ok (msg_publish m) \<and> topic_publishable (msg_topic m)" if "m \<in> set (queue_msgs (ss ! s))" for m
    using assms(1-3) that by (auto simp: pool_ok_def session_ok_def queue_msgs_def)
  have built: "packet_build_publish (msg_publish m) 712 \<noteq> None \<and>
      (0 < msg_qos m \<longrightarrow> msg_packet_id m \<noteq> 0)" if "m \<in> set (queue_msgs (ss ! s))" for m
    using drain_message_built [OF conjunct1 [OF ok [OF that]] conjunct2 [OF ok [OF that]]] .
  then have "frame_bytes (msg_publish m) = the (packet_build_publish (msg_publish m) 712)"
    if "m \<in> set (queue_msgs (ss ! s))" for m
    using that by (fastforce simp: frame_bytes_def)
  then have "wire_frames (map msg_publish (queue_msgs (ss ! s))) =
      concat (map (\<lambda>m. the (packet_build_publish (msg_publish m) 712)) (queue_msgs (ss ! s)))"
    unfolding wire_frames_def map_map by (intro arg_cong [of _ _ concat] map_cong) simp_all
  moreover have "bk_socks (session_drain s c b) = (bk_socks b)(cl_fd (client_at b c) :=
      (bk_socks b (cl_fd (client_at b c)))\<lparr>so_sent := so_sent (bk_socks b (cl_fd (client_at b c)))
         @ wire_frames (map msg_publish (queue_msgs (ss ! s)))\<rparr>) \<and>
    queue_msgs (session_at (session_drain s c b) s) = []"
    unfolding session_drain_eq [OF assms(2,3)]
    using assms send_frames_socks [OF assms(4)] empty by (simp add: at session_at_def)
  ultimately show ?thesis using built by simp
qed

text \<open>
  The queue of a session is a bounded first-in first-out queue: a series of messages
  enqueued on a session is kept in order after what was there, up to the capacity of eight,
  and the newest ones are the ones dropped.
\<close>

theorem queue_fifo:
  assumes "queue_ok s"
  shows "queue_msgs (fold (\<lambda>(pub, pid) s. snd (session_enqueue pub pid s)) ms s) =
    take SESSION_QUEUE_MAX (queue_msgs s @ map (\<lambda>(pub, pid). queued_msg pub pid) ms)"
proof -
  have "length (queue_msgs s) \<le> SESSION_QUEUE_MAX"
    using assms length_filter_le [of msg_in_use "ses_queue s"] by (simp add: queue_msgs_def queue_ok_def)
  moreover have "(\<lambda>(pub, pid) s. snd (session_enqueue pub pid s)) =
      (\<lambda>x s. snd ((\<lambda>(pub, pid). session_enqueue pub pid) x s))"
    by (simp add: fun_eq_iff)
  ultimately show ?thesis
    using sq.enq_all_contents [OF assms, of ms] by (simp add: sq.enq_all_def)
qed

theorem session_lookup_witness:
  "session_find [97] (snd (session_find_or_create [97] (idle_broker 1 1))) = Some 0"
proof -
  have e: "session_find_or_create [97] (idle_broker 1 1) =
      ((Some 0, False), upd_session 0 (\<lambda>_. new_session [97])
         ((idle_broker 1 1)\<lparr>bk_sessions := Some [zero_session]\<rparr>))"
    by (simp add: session_find_or_create_def session_pool_ensure_def idle_broker_def
        client_pool_init_def static_broker_def slot_of_def free_slot_def zero_session_def
        upd_session_def)
  have "pool_ok (idle_broker 1 1)" "cstr_ok [97]" "length [97 :: byte] < 24"
    by (simp_all add: pool_ok_def idle_broker_def client_pool_init_def static_broker_def cstr_ok_def)
  from session_lookup [OF this] show ?thesis unfolding e by simp
qed

text \<open>A pool with one away client that has subscribed to \<open>a\<close> with QoS 1, and a message on \<open>a\<close>.\<close>

definition away_session :: session where
  "away_session = (new_session [99])\<lparr>ses_offline := True, ses_subs := [([97], 1)]\<rparr>"

definition away_broker :: broker where
  "away_broker = (idle_broker 1 1)\<lparr>bk_sessions := Some [away_session]\<rparr>"

definition message_a :: mqtt_publish where
  "message_a = \<lparr>pub_topic = [97], pub_payload = [104], pub_qos = 2, pub_retain = 0, pub_dup = 0,
     pub_packet_id = 9\<rparr>"

lemma away_session_ok: "session_ok away_session"
proof -
  have "session_ok (new_session [99])" by (rule session_ok_new) (simp add: cstr_ok_def)
  then show ?thesis
    by (simp add: away_session_def session_ok_def queue_ok_def filter_ok_def cstr_ok_def
        topic_filter_valid_def filter_valid_loop.simps)
qed

lemma away_pool_ok: "pool_ok away_broker"
  using away_session_ok
  by (simp add: pool_ok_def away_broker_def keys_unique_def idle_broker_def client_pool_init_def
      static_broker_def)

lemma message_a_ok: "publish_ok message_a" "topic_publishable (pub_topic message_a)"
  by (simp_all add: message_a_def publish_ok_def cstr_ok_def topic_publishable_def has_wildcard_def)


theorem drain_delivers_witness:
  "so_sent (bk_socks (session_drain 0 0
     (upd_session 0 (\<lambda>s. snd (session_enqueue message_a 5 s)) away_broker)) (-1))
   = [0x34, 6, 0, 1, 97, 0, 5, 104]"
proof -
  let ?b = "upd_session 0 (\<lambda>s. snd (session_enqueue message_a 5 s)) away_broker"
  let ?s = "snd (session_enqueue message_a 5 away_session)"
  have s: "bk_sessions ?b = Some [?s]" "0 < length [?s]"
    by (simp_all add: away_broker_def upd_nth_def)
  have fd: "cl_fd (client_at ?b 0) = -1" "bk_socks ?b (-1) = quiet_sock"
    by (simp_all add: away_broker_def idle_broker_def client_pool_init_def static_broker_def client_at_def)
  have "accepting (bk_socks ?b (cl_fd (client_at ?b 0)))"
    unfolding fd by (simp add: accepting_def quiet_sock_def)
  moreover have "pool_ok ?b"
    using s(1) session_ok_enqueue [OF away_session_ok message_a_ok, of 5]
    by (simp add: pool_ok_def keys_unique_def away_broker_def idle_broker_def client_pool_init_def static_broker_def)
  ultimately have "bk_socks (session_drain 0 0 ?b) = (bk_socks ?b)(cl_fd (client_at ?b 0) :=
      (bk_socks ?b (cl_fd (client_at ?b 0)))\<lparr>so_sent := so_sent (bk_socks ?b (cl_fd (client_at ?b 0)))
         @ concat (map (\<lambda>m. the (packet_build_publish (msg_publish m) 712)) (queue_msgs ?s))\<rparr>)"
    using drain_delivers [OF _ s, of 0] by simp
  then have "so_sent (bk_socks (session_drain 0 0 ?b) (-1)) =
      concat (map (\<lambda>m. the (packet_build_publish (msg_publish m) 712)) (queue_msgs ?s))"
    unfolding fd by (simp add: quiet_sock_def)
  moreover have "queue_msgs away_session = []"
    by (simp add: away_session_def queue_msgs_def new_session_def zero_session_def zero_msg_def)
  then have "queue_msgs ?s = [queued_msg message_a 5]"
    using queue_put [of away_session message_a 5] away_session_ok by (simp add: session_ok_def)
  moreover have "packet_build_publish (msg_publish (queued_msg message_a 5)) 712
      = Some [0x34, 6, 0, 1, 97, 0, 5, 104]"
    by code_simp
  ultimately show ?thesis by simp
qed

text \<open>
  The ids of queued publications come from the session, those of the messages a client leaves unacknowledged
  from the client. A message saved with the id 1 and the first publication that is queued behind it
  have the same id.
\<close>

lemma queued_id_repeated:
  "map msg_packet_id (queue_msgs (fst (offline_session topic_match message_a
     (snd (session_enqueue (message_a\<lparr>pub_packet_id := 1, pub_dup := 1\<rparr>) 1 away_session))))) = [1, 1]"
  by code_simp

theorem queue_fifo_witness:
  "map msg_packet_id (queue_msgs (fold (\<lambda>(pub, pid) s. snd (session_enqueue pub pid s))
     [(message_a, 1), (message_a, 2)] away_session)) = [1, 2]"
proof -
  have "queue_ok away_session" using away_session_ok by (simp add: session_ok_def)
  moreover have "queue_msgs away_session = []"
    by (simp add: away_session_def queue_msgs_def new_session_def zero_session_def zero_msg_def)
  ultimately show ?thesis
    by (subst queue_fifo) (simp_all add: queued_msg_def)
qed

end
