(* ===== verification/Topic_Table.thy ===== *)
theory Topic_Table
  imports Session
begin

text \<open>
  The subscription table of \<^verbatim>\<open>src/topic.c\<close>: a fixed array of subscriptions with two indexes over
  it, a hash table of linked lists for the filters without wildcards and one linked list for
  the others. The links live in the entries, as in the code; a walk along a list takes at
  most as many steps as there are entries, and the lemmas on \<open>chain_set\<close> show that on a
  well-formed table it then has reached the end of the list.

  The operations that change the table do so under \<^verbatim>\<open>topic_lock\<close> and tell the peer network what has
  changed after they have released it. Each is the composition of these two parts, \<open>\<dots>_locked\<close> and
  \<open>tell_peers\<close>; a lemma on it alone is about a thread that is not overtaken in between. What holds
  when the two parts of several threads interleave is the subject of \<open>table_step\<close>.

  \<open>table_ok\<close> is the invariant of the table, kept by \<open>topic_subscribe\<close>, \<open>topic_unsubscribe\<close> and
  \<open>topic_unsubscribe_all\<close>; \<open>adv_ok\<close> says that what the peers were last told about a filter is
  what the table holds.
\<close>

subsection \<open>The indexes\<close>

definition topic_hash :: "cstr \<Rightarrow> u32" where
  "topic_hash s = foldl fnv_step 2166136261 s"

definition topic_bucket :: "broker \<Rightarrow> cstr \<Rightarrow> nat" where
  "topic_bucket b s = unat (topic_hash s) mod length (bk_subs b)"

definition filter_is_exact_local :: "cstr \<Rightarrow> bool" where
  "filter_is_exact_local f = (\<not> has_wildcard f)"

definition upd_sub :: "nat \<Rightarrow> (sub_entry \<Rightarrow> sub_entry) \<Rightarrow> broker \<Rightarrow> broker" where
  "upd_sub i f b = b\<lparr>bk_subs := upd_nth i f (bk_subs b)\<rparr>"

definition sub_at :: "broker \<Rightarrow> nat \<Rightarrow> sub_entry" where
  "sub_at b i = bk_subs b ! i"

definition exact_list_insert_locked :: "nat \<Rightarrow> broker \<Rightarrow> broker" where
  "exact_list_insert_locked slot b =
     (let bucket = topic_bucket b (sub_filter (sub_at b slot));
          b = upd_sub slot (\<lambda>e. e\<lparr>sub_exact_next := bk_exact_heads b ! bucket\<rparr>) b
      in b\<lparr>bk_exact_heads := (bk_exact_heads b)[bucket := Some slot]\<rparr>)"

definition wildcard_list_insert_locked :: "nat \<Rightarrow> broker \<Rightarrow> broker" where
  "wildcard_list_insert_locked slot b =
     (upd_sub slot (\<lambda>e. e\<lparr>sub_wildcard_next := bk_wildcard_head b\<rparr>) b)\<lparr>bk_wildcard_head := Some slot\<rparr>"

text \<open>
  The pointer \<open>int *link\<close> of the removal loops: the head of the list, or the link field of an
  entry. \<open>find_link\<close> is the loop that looks for the link to a slot.
\<close>

datatype link = Head | After nat

fun find_link :: "(nat \<Rightarrow> nat option) \<Rightarrow> nat \<Rightarrow> link \<Rightarrow> nat option \<Rightarrow> nat \<Rightarrow> link option" where
  "find_link nxt 0 lk cur slot = None"
| "find_link nxt (Suc n) lk cur slot =
     (case cur of
        None \<Rightarrow> None
      | Some i \<Rightarrow> if i = slot then Some lk else find_link nxt n (After i) (nxt i) slot)"

definition exact_next :: "broker \<Rightarrow> nat \<Rightarrow> nat option" where
  "exact_next b i = sub_exact_next (sub_at b i)"

definition wildcard_next :: "broker \<Rightarrow> nat \<Rightarrow> nat option" where
  "wildcard_next b i = sub_wildcard_next (sub_at b i)"

definition exact_list_remove_locked :: "nat \<Rightarrow> broker \<Rightarrow> broker" where
  "exact_list_remove_locked slot b =
     (let bucket = topic_bucket b (sub_filter (sub_at b slot))
      in case find_link (exact_next b) (Suc (length (bk_subs b))) Head (bk_exact_heads b ! bucket) slot of
           None \<Rightarrow> b
         | Some Head \<Rightarrow> b\<lparr>bk_exact_heads := (bk_exact_heads b)[bucket := exact_next b slot]\<rparr>
         | Some (After i) \<Rightarrow> upd_sub i (\<lambda>e. e\<lparr>sub_exact_next := exact_next b slot\<rparr>) b)"

definition wildcard_list_remove_locked :: "nat \<Rightarrow> broker \<Rightarrow> broker" where
  "wildcard_list_remove_locked slot b =
     (case find_link (wildcard_next b) (Suc (length (bk_subs b))) Head (bk_wildcard_head b) slot of
        None \<Rightarrow> b
      | Some Head \<Rightarrow> b\<lparr>bk_wildcard_head := wildcard_next b slot\<rparr>
      | Some (After i) \<Rightarrow> upd_sub i (\<lambda>e. e\<lparr>sub_wildcard_next := wildcard_next b slot\<rparr>) b)"

text \<open>The slots a walk from a link visits, in order.\<close>

fun chain :: "(nat \<Rightarrow> nat option) \<Rightarrow> nat \<Rightarrow> nat option \<Rightarrow> nat list" where
  "chain nxt 0 cur = []"
| "chain nxt (Suc n) cur = (case cur of None \<Rightarrow> [] | Some i \<Rightarrow> i # chain nxt n (nxt i))"

definition exact_chain :: "broker \<Rightarrow> nat \<Rightarrow> nat list" where
  "exact_chain b bucket = chain (exact_next b) (length (bk_subs b)) (bk_exact_heads b ! bucket)"

definition wildcard_chain :: "broker \<Rightarrow> nat list" where
  "wildcard_chain b = chain (wildcard_next b) (length (bk_subs b)) (bk_wildcard_head b)"

definition topic_init :: "broker \<Rightarrow> broker" where
  "topic_init b = b\<lparr>
     bk_subs := replicate (length (bk_subs b)) zero_sub,
     bk_retains := map_option (\<lambda>rs. replicate (length rs) zero_retain) (bk_retains b),
     bk_exact_heads := replicate (length (bk_subs b)) None,
     bk_wildcard_head := None\<rparr>"

subsection \<open>Subscribing\<close>

definition filter_stats_locked :: "cstr \<Rightarrow> sub_entry list \<Rightarrow> nat \<times> byte" where
  "filter_stats_locked f subs =
     fold (\<lambda>e (count, qos).
             if sub_in_use e \<and> sub_filter e = f
             then (count + 1, if qos < sub_qos e then sub_qos e else qos) else (count, qos))
       subs (0, 0)"

definition owns :: "nat \<Rightarrow> cstr \<Rightarrow> sub_entry \<Rightarrow> bool" where
  "owns c f e \<longleftrightarrow> sub_in_use e \<and> sub_client e = c \<and> sub_filter e = f"

text \<open>
  The slot of a client's subscription to a filter, as the scan finds it: the loop runs to the
  end in the build with the peer network and stops at the first hit without it.
\<close>

definition own_slot :: "broker \<Rightarrow> nat \<Rightarrow> cstr \<Rightarrow> nat option" where
  "own_slot b c f =
     (if bk_cfg_p2p b then find_last (owns c f) (bk_subs b) else find_idx (owns c f) (bk_subs b))"

text \<open>
  What a change of the table is followed by: the peers are told of the change, in the build with the
  peer network, after the lock is released.
\<close>

definition notice :: "bool \<Rightarrow> p2p_event \<Rightarrow> broker \<Rightarrow> p2p_event option" where
  "notice notify e b = (if bk_cfg_p2p b \<and> notify then Some e else None)"

definition tell_peers :: "p2p_event option \<Rightarrow> broker \<Rightarrow> broker" where
  "tell_peers ev b = (case ev of None \<Rightarrow> b | Some e \<Rightarrow> p2p_emit e b)"

definition topic_subscribe_locked :: "nat \<Rightarrow> cstr \<Rightarrow> byte \<Rightarrow> broker \<Rightarrow> bool \<times> p2p_event option \<times> broker" where
  "topic_subscribe_locked c f qos b =
     (let (old_count, old_max_qos) = filter_stats_locked f (bk_subs b) in
      case own_slot b c f of
        Some i \<Rightarrow>
          (let found_slot_qos = sub_qos (sub_at b i);
               b = upd_sub i (\<lambda>e. e\<lparr>sub_qos := qos\<rparr>) b;
               new_max_qos = (if qos \<ge> old_max_qos then qos
                 else if found_slot_qos < old_max_qos then old_max_qos
                 else snd (filter_stats_locked f (bk_subs b)))
           in (True, notice (new_max_qos \<noteq> old_max_qos) (P2PSubscribe f new_max_qos) b, b))
      | None \<Rightarrow>
          (case free_slot sub_in_use (bk_subs b) of
             Some i \<Rightarrow>
               (let b = upd_sub i (\<lambda>e. e\<lparr>sub_client := c, sub_filter := strncpy_str MQTT_TOPIC_MAX f,
                          sub_qos := qos, sub_in_use := True,
                          sub_is_exact := filter_is_exact_local f\<rparr>) b;
                    b = (if sub_is_exact (sub_at b i) then exact_list_insert_locked i b
                         else wildcard_list_insert_locked i b);
                    new_max_qos = (if qos > old_max_qos then qos else old_max_qos)
                in (True, notice (old_count = 0 \<or> new_max_qos \<noteq> old_max_qos) (P2PSubscribe f new_max_qos) b, b))
           | None \<Rightarrow> (False, None, b)))"

definition topic_subscribe :: "nat \<Rightarrow> cstr \<Rightarrow> byte \<Rightarrow> broker \<Rightarrow> bool \<times> broker" where
  "topic_subscribe c f qos b =
     (let (ok, announcement, b) = topic_subscribe_locked c f qos b in (ok, tell_peers announcement b))"

text \<open>Taking an entry out of its index and freeing it.\<close>

definition remove_slot :: "nat \<Rightarrow> broker \<Rightarrow> broker" where
  "remove_slot i b =
     upd_sub i (\<lambda>e. e\<lparr>sub_in_use := False\<rparr>)
       (if sub_is_exact (sub_at b i) then exact_list_remove_locked i b
        else wildcard_list_remove_locked i b)"

definition topic_unsubscribe_locked :: "nat \<Rightarrow> cstr \<Rightarrow> broker \<Rightarrow> p2p_event option \<times> broker" where
  "topic_unsubscribe_locked c f b =
     (let (old_count, old_max_qos) = filter_stats_locked f (bk_subs b) in
      case own_slot b c f of
        None \<Rightarrow> (None, b)
      | Some i \<Rightarrow>
          (let removed_qos = sub_qos (sub_at b i);
               b = remove_slot i b;
               new_max_qos = (if removed_qos < old_max_qos then old_max_qos
                              else snd (filter_stats_locked f (bk_subs b)))
           in (if old_count = 1 then notice True (P2PUnsubscribe f) b
               else notice (new_max_qos \<noteq> old_max_qos) (P2PSubscribe f new_max_qos) b, b)))"

definition topic_unsubscribe :: "nat \<Rightarrow> cstr \<Rightarrow> broker \<Rightarrow> broker" where
  "topic_unsubscribe c f b = (let (announcement, b) = topic_unsubscribe_locked c f b in tell_peers announcement b)"

text \<open>The whole operations, with the table and the announcement in one expression.\<close>

definition notify_subscribe :: "bool \<Rightarrow> cstr \<Rightarrow> byte \<Rightarrow> broker \<Rightarrow> broker" where
  "notify_subscribe notify f qos b = tell_peers (notice notify (P2PSubscribe f qos) b) b"

definition notify_unsubscribe :: "bool \<Rightarrow> cstr \<Rightarrow> broker \<Rightarrow> broker" where
  "notify_unsubscribe notify f b = tell_peers (notice notify (P2PUnsubscribe f) b) b"

lemma tell_peers_simps [simp]:
  "tell_peers None b = b"
  "tell_peers (Some e) b = p2p_emit e b"
  by (simp_all add: tell_peers_def)

lemma notify_eq:
  "notify_subscribe n f q b = (if bk_cfg_p2p b \<and> n then p2p_emit (P2PSubscribe f q) b else b)"
  "notify_unsubscribe n f b = (if bk_cfg_p2p b \<and> n then p2p_emit (P2PUnsubscribe f) b else b)"
  by (simp_all add: notify_subscribe_def notify_unsubscribe_def notice_def)

lemma topic_subscribe_eq:
  "topic_subscribe c f qos b =
     (let (old_count, old_max_qos) = filter_stats_locked f (bk_subs b) in
      case own_slot b c f of
        Some i \<Rightarrow>
          (let found_slot_qos = sub_qos (sub_at b i);
               b = upd_sub i (\<lambda>e. e\<lparr>sub_qos := qos\<rparr>) b;
               new_max_qos = (if qos \<ge> old_max_qos then qos
                 else if found_slot_qos < old_max_qos then old_max_qos
                 else snd (filter_stats_locked f (bk_subs b)))
           in (True, notify_subscribe (new_max_qos \<noteq> old_max_qos) f new_max_qos b))
      | None \<Rightarrow>
          (case free_slot sub_in_use (bk_subs b) of
             Some i \<Rightarrow>
               (let b = upd_sub i (\<lambda>e. e\<lparr>sub_client := c, sub_filter := strncpy_str MQTT_TOPIC_MAX f,
                          sub_qos := qos, sub_in_use := True,
                          sub_is_exact := filter_is_exact_local f\<rparr>) b;
                    b = (if sub_is_exact (sub_at b i) then exact_list_insert_locked i b
                         else wildcard_list_insert_locked i b);
                    new_max_qos = (if qos > old_max_qos then qos else old_max_qos)
                in (True, notify_subscribe (old_count = 0 \<or> new_max_qos \<noteq> old_max_qos) f new_max_qos b))
           | None \<Rightarrow> (False, b)))"
  by (simp add: topic_subscribe_def topic_subscribe_locked_def notify_subscribe_def Let_def split: prod.split option.split)

lemma topic_unsubscribe_eq:
  "topic_unsubscribe c f b =
     (let (old_count, old_max_qos) = filter_stats_locked f (bk_subs b) in
      case own_slot b c f of
        None \<Rightarrow> b
      | Some i \<Rightarrow>
          (let removed_qos = sub_qos (sub_at b i);
               b = remove_slot i b;
               new_max_qos = (if removed_qos < old_max_qos then old_max_qos
                              else snd (filter_stats_locked f (bk_subs b)))
           in if old_count = 1 then notify_unsubscribe True f b
              else notify_subscribe (new_max_qos \<noteq> old_max_qos) f new_max_qos b))"
  by (simp add: topic_unsubscribe_def topic_unsubscribe_locked_def notify_subscribe_def notify_unsubscribe_def Let_def
      split: prod.split option.split)

subsection \<open>Reading the table\<close>

definition topic_filter_subscriber_count :: "cstr \<Rightarrow> broker \<Rightarrow> nat" where
  "topic_filter_subscriber_count f b =
     (if f = [] then 0 else length (filter (\<lambda>e. sub_in_use e \<and> sub_filter e = f) (bk_subs b)))"

definition topic_get_client_subs :: "nat \<Rightarrow> nat \<Rightarrow> broker \<Rightarrow> (cstr \<times> byte) list" where
  "topic_get_client_subs c max_subs b =
     map (\<lambda>e. (strncpy_str MQTT_TOPIC_MAX (sub_filter e), sub_qos e))
       (take max_subs (filter (\<lambda>e. sub_in_use e \<and> sub_client e = c) (bk_subs b)))"

text \<open>The paged snapshot: the loop with its index \<open>i\<close>, the number \<open>n\<close> written and the cursor.\<close>

record sub_snapshot =
  ss_filter :: cstr
  ss_client_id :: cstr
  ss_qos :: byte

definition snapshot_of :: "broker \<Rightarrow> sub_entry \<Rightarrow> sub_snapshot" where
  "snapshot_of b e = \<lparr>ss_filter = strncpy_str MQTT_TOPIC_MAX (sub_filter e),
     ss_client_id = strncpy_str MQTT_CLIENT_ID_MAX (cl_client_id (client_at b (sub_client e))),
     ss_qos = sub_qos e\<rparr>"

function snapshots_loop ::
  "broker \<Rightarrow> nat \<Rightarrow> nat \<Rightarrow> nat \<Rightarrow> sub_snapshot list \<Rightarrow> sub_snapshot list \<times> nat" where
  "snapshots_loop b max_out i cursor out =
     (if i < length (bk_subs b) \<and> length out < max_out
      then snapshots_loop b max_out (Suc i) (Suc i)
             (if sub_in_use (sub_at b i) then out @ [snapshot_of b (sub_at b i)] else out)
      else (out, min cursor (length (bk_subs b))))"
  by pat_completeness auto
termination
  by (relation "measure (\<lambda>(b, m, i, cur, out). length (bk_subs b) - i)") auto

declare snapshots_loop.simps [simp del]

definition topic_get_sub_snapshots_from :: "broker \<Rightarrow> nat \<Rightarrow> nat \<Rightarrow> sub_snapshot list \<times> nat" where
  "topic_get_sub_snapshots_from b max_out cursor = snapshots_loop b max_out cursor cursor []"

definition topic_get_sub_snapshots :: "broker \<Rightarrow> nat \<Rightarrow> sub_snapshot list" where
  "topic_get_sub_snapshots b max_out = fst (topic_get_sub_snapshots_from b max_out 0)"

subsection \<open>Linked lists\<close>

fun is_chain :: "(nat \<Rightarrow> nat option) \<Rightarrow> nat option \<Rightarrow> nat list \<Rightarrow> bool" where
  "is_chain nxt cur [] \<longleftrightarrow> cur = None"
| "is_chain nxt cur (i # is) \<longleftrightarrow> cur = Some i \<and> is_chain nxt (nxt i) is"

definition chain_set :: "(nat \<Rightarrow> nat option) \<Rightarrow> nat option \<Rightarrow> nat set \<Rightarrow> bool" where
  "chain_set nxt cur S \<longleftrightarrow> (\<exists>xs. is_chain nxt cur xs \<and> distinct xs \<and> set xs = S)"

lemma is_chain_cong:
  "is_chain nxt cur xs \<Longrightarrow> (\<And>i. i \<in> set xs \<Longrightarrow> nxt' i = nxt i) \<Longrightarrow> is_chain nxt' cur xs"
  by (induction xs arbitrary: cur) auto

lemma chain_set_cong:
  "chain_set nxt cur S \<Longrightarrow> (\<And>i. i \<in> S \<Longrightarrow> nxt' i = nxt i) \<Longrightarrow> chain_set nxt' cur S"
  unfolding chain_set_def using is_chain_cong by (metis (no_types))

lemma chain_set_empty [simp]: "chain_set nxt None {}"
  by (auto simp: chain_set_def intro: exI [of _ "[]"])

lemma chain_set_insert:
  assumes "chain_set nxt cur S" and "i \<notin> S" and "nxt' i = cur" and "\<And>j. j \<in> S \<Longrightarrow> nxt' j = nxt j"
  shows "chain_set nxt' (Some i) (insert i S)"
proof -
  obtain xs where "is_chain nxt cur xs" "distinct xs" "set xs = S"
    using assms(1) by (auto simp: chain_set_def)
  then have "is_chain nxt' (Some i) (i # xs) \<and> distinct (i # xs) \<and> set (i # xs) = insert i S"
    using assms(2-4) is_chain_cong [of nxt cur xs nxt'] by auto
  then show ?thesis unfolding chain_set_def by blast
qed

lemma chain_eq: "is_chain nxt cur xs \<Longrightarrow> length xs \<le> n \<Longrightarrow> chain nxt n cur = xs"
proof (induction xs arbitrary: cur n)
  case Nil
  then show ?case by (cases n) auto
next
  case (Cons i xs)
  then show ?case by (cases n) auto
qed

lemma chain_set_walk:
  assumes "chain_set nxt cur S" and "S \<subseteq> {..<n}"
  shows "set (chain nxt n cur) = S" and "distinct (chain nxt n cur)"
proof -
  obtain xs where xs: "is_chain nxt cur xs" "distinct xs" "set xs = S"
    using assms(1) by (auto simp: chain_set_def)
  then have "length xs \<le> n"
    using assms(2) card_mono [of "{..<n}" S] by (simp add: distinct_card [symmetric])
  then show "set (chain nxt n cur) = S" and "distinct (chain nxt n cur)"
    using chain_eq [OF xs(1)] xs by simp_all
qed

lemma find_link_chain:
  "is_chain nxt cur (ys @ slot # zs) \<Longrightarrow> slot \<notin> set ys \<Longrightarrow> length ys < n \<Longrightarrow>
   find_link nxt n lk cur slot = Some (if ys = [] then lk else After (last ys))"
proof (induction ys arbitrary: cur n lk)
  case Nil
  then show ?case by (cases n) auto
next
  case (Cons y ys)
  then show ?case by (cases n) auto
qed

lemma is_chain_unlink:
  "is_chain nxt cur (ys @ slot # zs) \<Longrightarrow> distinct (ys @ slot # zs) \<Longrightarrow> ys \<noteq> [] \<Longrightarrow>
   is_chain (nxt(last ys := nxt slot)) cur (ys @ zs)"
proof (induction ys arbitrary: cur)
  case (Cons y ys)
  show ?case
  proof (cases "ys = []")
    case True
    then show ?thesis
      using Cons.prems by (auto intro!: is_chain_cong [of nxt "nxt slot" zs])
  next
    case False
    then show ?thesis using Cons.IH [of "nxt y"] Cons.prems by auto
  qed
qed simp

lemma chain_set_remove:
  assumes "chain_set nxt cur S" and "slot \<in> S" and "S \<subseteq> {..<n}"
  obtains (at_head) "find_link nxt (Suc n) Head cur slot = Some Head" and "chain_set nxt (nxt slot) (S - {slot})"
    | (inside) i where "find_link nxt (Suc n) Head cur slot = Some (After i)" and "i \<in> S" and "i \<noteq> slot"
        and "chain_set (nxt(i := nxt slot)) cur (S - {slot})"
proof -
  obtain xs where xs: "is_chain nxt cur xs" "distinct xs" "set xs = S"
    using assms(1) by (auto simp: chain_set_def)
  then have len: "length xs \<le> n"
    using assms(3) card_mono [of "{..<n}" S] by (simp add: distinct_card [symmetric])
  obtain ys zs where split: "xs = ys @ slot # zs"
    using assms(2) xs(3) by (meson split_list)
  then have ny: "slot \<notin> set ys" and d: "distinct (ys @ slot # zs)" and c: "is_chain nxt cur (ys @ slot # zs)"
    using xs by auto
  have S: "S - {slot} = set (ys @ zs)" using xs(3) d split by auto
  have lt: "length ys < Suc n" using len split by simp
  show ?thesis
  proof (cases "ys = []")
    case True
    have "chain_set nxt (nxt slot) (S - {slot})"
      unfolding chain_set_def using c d True S by (intro exI [of _ zs]) auto
    then show ?thesis
      using at_head find_link_chain [OF c ny lt, of Head] True by simp
  next
    case False
    have "chain_set (nxt(last ys := nxt slot)) cur (S - {slot})"
      unfolding chain_set_def using is_chain_unlink [OF c d False] d S
      by (intro exI [of _ "ys @ zs"]) auto
    moreover have "last ys \<in> S" "last ys \<noteq> slot"
      using False ny xs(3) split last_in_set [of ys] by auto
    ultimately show ?thesis
      using inside find_link_chain [OF c ny lt, of Head] False by simp
  qed
qed

subsection \<open>The invariant\<close>

definition exact_slots :: "broker \<Rightarrow> nat \<Rightarrow> nat set" where
  "exact_slots b k = {i. i < length (bk_subs b) \<and> sub_in_use (sub_at b i) \<and> sub_is_exact (sub_at b i) \<and>
     topic_bucket b (sub_filter (sub_at b i)) = k}"

definition wildcard_slots :: "broker \<Rightarrow> nat set" where
  "wildcard_slots b = {i. i < length (bk_subs b) \<and> sub_in_use (sub_at b i) \<and> \<not> sub_is_exact (sub_at b i)}"

definition index_ok :: "broker \<Rightarrow> bool" where
  "index_ok b \<longleftrightarrow> length (bk_exact_heads b) = length (bk_subs b) \<and>
     (\<forall>k < length (bk_subs b). chain_set (exact_next b) (bk_exact_heads b ! k) (exact_slots b k)) \<and>
     chain_set (wildcard_next b) (bk_wildcard_head b) (wildcard_slots b)"

definition sub_ok :: "broker \<Rightarrow> sub_entry \<Rightarrow> bool" where
  "sub_ok b e \<longleftrightarrow> (sub_in_use e \<longrightarrow>
     sub_is_exact e = (\<not> has_wildcard (sub_filter e)) \<and> filter_ok (sub_filter e) \<and>
     topic_filter_valid (sub_filter e) \<and> sub_qos e \<le> 2 \<and> sub_client e < length (bk_clients b))"

definition sub_key :: "sub_entry \<Rightarrow> nat \<times> cstr" where
  "sub_key e = (sub_client e, sub_filter e)"

definition table_ok :: "broker \<Rightarrow> bool" where
  "table_ok b \<longleftrightarrow> index_ok b \<and> (\<forall>e \<in> set (bk_subs b). sub_ok b e) \<and>
     keys_unique sub_in_use sub_key (bk_subs b)"

interpretation subt: slot_table sub_in_use sub_key "\<lambda>e. e\<lparr>sub_in_use := False\<rparr>"
  by unfold_locales simp

lemma sub_at_upd: "i < length (bk_subs b) \<Longrightarrow> sub_at (upd_sub i f b) j = (if j = i then f (sub_at b j) else sub_at b j)"
  by (auto simp: sub_at_def upd_sub_def)

lemma sub_at_upd_same [simp]: "i < length (bk_subs b) \<Longrightarrow> sub_at (upd_sub i f b) i = f (sub_at b i)"
  by (simp add: sub_at_upd)

lemma sub_at_upd_other [simp]: "i \<noteq> j \<Longrightarrow> sub_at (upd_sub i f b) j = sub_at b j"
  by (simp add: sub_at_def upd_sub_def)

lemma upd_sub_frame [simp]:
  "bk_cfg_p2p (upd_sub i f b) = bk_cfg_p2p b"
  "bk_cfg_auth (upd_sub i f b) = bk_cfg_auth b"
  "bk_clients (upd_sub i f b) = bk_clients b"
  "bk_threads (upd_sub i f b) = bk_threads b"
  "bk_exact_heads (upd_sub i f b) = bk_exact_heads b"
  "bk_wildcard_head (upd_sub i f b) = bk_wildcard_head b"
  "bk_retains (upd_sub i f b) = bk_retains b"
  "bk_sessions (upd_sub i f b) = bk_sessions b"
  "bk_calloc_ok (upd_sub i f b) = bk_calloc_ok b"
  "bk_socks (upd_sub i f b) = bk_socks b"
  "bk_now (upd_sub i f b) = bk_now b"
  "bk_p2p (upd_sub i f b) = bk_p2p b"
  "bk_activity (upd_sub i f b) = bk_activity b"
  "length (bk_subs (upd_sub i f b)) = length (bk_subs b)"
  by (simp_all add: upd_sub_def)

lemma sub_at_heads [simp]:
  "sub_at (b\<lparr>bk_exact_heads := h\<rparr>) i = sub_at b i"
  "sub_at (b\<lparr>bk_wildcard_head := w\<rparr>) i = sub_at b i"
  "exact_next (b\<lparr>bk_exact_heads := h\<rparr>) = exact_next b"
  "exact_next (b\<lparr>bk_wildcard_head := w\<rparr>) = exact_next b"
  "wildcard_next (b\<lparr>bk_exact_heads := h\<rparr>) = wildcard_next b"
  "wildcard_next (b\<lparr>bk_wildcard_head := w\<rparr>) = wildcard_next b"
  "topic_bucket (b\<lparr>bk_exact_heads := h\<rparr>) f = topic_bucket b f"
  "topic_bucket (b\<lparr>bk_wildcard_head := w\<rparr>) f = topic_bucket b f"
  by (simp_all add: sub_at_def exact_next_def wildcard_next_def topic_bucket_def fun_eq_iff)

lemma topic_bucket_upd [simp]: "topic_bucket (upd_sub i f b) s = topic_bucket b s"
  by (simp add: topic_bucket_def)

lemma topic_bucket_less: "i < length (bk_subs b) \<Longrightarrow> topic_bucket b s < length (bk_subs b)"
  unfolding topic_bucket_def by (rule mod_less_divisor) auto

lemma exact_slots_sub: "exact_slots b k \<subseteq> {..<length (bk_subs b)}"
  by (auto simp: exact_slots_def)

lemma wildcard_slots_sub: "wildcard_slots b \<subseteq> {..<length (bk_subs b)}"
  by (auto simp: wildcard_slots_def)

text \<open>What the walks of the delivery loops visit on a well-formed table.\<close>

lemma exact_chain_slots:
  assumes "index_ok b" and "k < length (bk_subs b)"
  shows "set (exact_chain b k) = exact_slots b k" and "distinct (exact_chain b k)"
  using chain_set_walk [OF _ exact_slots_sub] assms by (auto simp: index_ok_def exact_chain_def)

lemma wildcard_chain_slots:
  assumes "index_ok b"
  shows "set (wildcard_chain b) = wildcard_slots b" and "distinct (wildcard_chain b)"
  using chain_set_walk [OF _ wildcard_slots_sub] assms by (auto simp: index_ok_def wildcard_chain_def)

text \<open>
  The part of an entry the index does not depend on may change freely; and the index of a
  state is determined by the entries, the heads and the links.
\<close>

lemma exact_remove:
  assumes "index_ok b" and "i < length (bk_subs b)" and "sub_in_use (sub_at b i)" and "sub_is_exact (sub_at b i)"
  shows "index_ok (upd_sub i (\<lambda>e. e\<lparr>sub_in_use := False\<rparr>) (exact_list_remove_locked i b))"
    and "\<And>j. (sub_at (exact_list_remove_locked i b) j)\<lparr>sub_exact_next := None\<rparr>
           = (sub_at b j)\<lparr>sub_exact_next := None\<rparr>"
    and "length (bk_subs (exact_list_remove_locked i b)) = length (bk_subs b)"
proof -
  let ?k = "topic_bucket b (sub_filter (sub_at b i))" and ?n = "length (bk_subs b)"
  let ?off = "upd_sub i (\<lambda>e. e\<lparr>sub_in_use := False\<rparr>)"
  have k: "?k < ?n" using assms(2) by (rule topic_bucket_less)
  have iS: "i \<in> exact_slots b ?k" using assms by (simp add: exact_slots_def)
  have cs: "chain_set (exact_next b) (bk_exact_heads b ! m) (exact_slots b m)" if "m < ?n" for m
    using assms(1) that by (simp add: index_ok_def)
  have ws: "chain_set (wildcard_next b) (bk_wildcard_head b) (wildcard_slots b)"
    using assms(1) by (simp add: index_ok_def)
  have lh: "length (bk_exact_heads b) = ?n" using assms(1) by (simp add: index_ok_def)
  have other: "exact_slots b m \<inter> exact_slots b ?k = {}" if "m \<noteq> ?k" for m
    using that by (auto simp: exact_slots_def)
  have "index_ok (?off (exact_list_remove_locked i b)) \<and>
     (\<forall>j. (sub_at (exact_list_remove_locked i b) j)\<lparr>sub_exact_next := None\<rparr>
           = (sub_at b j)\<lparr>sub_exact_next := None\<rparr>) \<and>
     length (bk_subs (exact_list_remove_locked i b)) = length (bk_subs b)"
    using cs [OF k] iS exact_slots_sub
  proof (cases rule: chain_set_remove)
    case at_head
    let ?b = "b\<lparr>bk_exact_heads := (bk_exact_heads b)[?k := exact_next b i]\<rparr>"
    have eq: "exact_list_remove_locked i b = ?b"
      using at_head(1) by (simp add: exact_list_remove_locked_def)
    have nb: "exact_next (?off ?b) j = exact_next b j" "wildcard_next (?off ?b) j = wildcard_next b j" for j
      using assms(2) by (auto simp: exact_next_def wildcard_next_def sub_at_upd)
    have slots: "exact_slots (?off ?b) m = (if m = ?k then exact_slots b m - {i} else exact_slots b m)" for m
      using assms(2) by (auto simp: exact_slots_def sub_at_upd)
    have wslots: "wildcard_slots (?off ?b) = wildcard_slots b"
      using assms(2,4) by (auto simp: wildcard_slots_def sub_at_upd)
    have "index_ok (?off ?b)"
      unfolding index_ok_def slots wslots
      using cs ws at_head(2) lh k by (auto simp: nb [THEN ext] nth_list_update)
    then show ?thesis by (simp add: eq)
  next
    case (inside p)
    let ?b = "upd_sub p (\<lambda>e. e\<lparr>sub_exact_next := exact_next b i\<rparr>) b"
    have eq: "exact_list_remove_locked i b = ?b"
      using inside(1) by (simp add: exact_list_remove_locked_def)
    have p: "p < ?n" using inside(2) exact_slots_sub by blast
    have en: "exact_next (?off ?b) = (exact_next b)(p := exact_next b i)"
      and wn: "wildcard_next (?off ?b) = wildcard_next b"
      using assms(2) p inside(3) by (auto simp: exact_next_def wildcard_next_def sub_at_upd fun_eq_iff)
    have slots: "exact_slots (?off ?b) m = (if m = ?k then exact_slots b m - {i} else exact_slots b m)" for m
      using assms(2) p by (auto simp: exact_slots_def sub_at_upd)
    have wslots: "wildcard_slots (?off ?b) = wildcard_slots b"
      using assms(2,4) p by (auto simp: wildcard_slots_def sub_at_upd split: if_splits)
    have "chain_set ((exact_next b)(p := exact_next b i)) (bk_exact_heads b ! m) (exact_slots b m)"
      if "m < ?n" "m \<noteq> ?k" for m
      by (rule chain_set_cong [OF cs [OF that(1)]]) (use other [OF that(2)] inside(2) in auto)
    then have "index_ok (?off ?b)"
      unfolding index_ok_def slots wslots en wn
      using ws inside(4) lh by auto
    then show ?thesis using p by (simp add: eq sub_at_upd)
  qed
  then show "index_ok (?off (exact_list_remove_locked i b))"
    and "\<And>j. (sub_at (exact_list_remove_locked i b) j)\<lparr>sub_exact_next := None\<rparr>
           = (sub_at b j)\<lparr>sub_exact_next := None\<rparr>"
    and "length (bk_subs (exact_list_remove_locked i b)) = length (bk_subs b)" by blast+
qed

lemma wildcard_remove:
  assumes "index_ok b" and "i < length (bk_subs b)" and "sub_in_use (sub_at b i)"
    and "\<not> sub_is_exact (sub_at b i)"
  shows "index_ok (upd_sub i (\<lambda>e. e\<lparr>sub_in_use := False\<rparr>) (wildcard_list_remove_locked i b))"
    and "\<And>j. (sub_at (wildcard_list_remove_locked i b) j)\<lparr>sub_wildcard_next := None\<rparr>
           = (sub_at b j)\<lparr>sub_wildcard_next := None\<rparr>"
    and "length (bk_subs (wildcard_list_remove_locked i b)) = length (bk_subs b)"
proof -
  let ?off = "upd_sub i (\<lambda>e. e\<lparr>sub_in_use := False\<rparr>)" and ?n = "length (bk_subs b)"
  have iS: "i \<in> wildcard_slots b" using assms by (simp add: wildcard_slots_def)
  have cs: "chain_set (exact_next b) (bk_exact_heads b ! m) (exact_slots b m)" if "m < ?n" for m
    using assms(1) that by (simp add: index_ok_def)
  have ws: "chain_set (wildcard_next b) (bk_wildcard_head b) (wildcard_slots b)"
    using assms(1) by (simp add: index_ok_def)
  have lh: "length (bk_exact_heads b) = ?n" using assms(1) by (simp add: index_ok_def)
  have "index_ok (?off (wildcard_list_remove_locked i b)) \<and>
     (\<forall>j. (sub_at (wildcard_list_remove_locked i b) j)\<lparr>sub_wildcard_next := None\<rparr>
           = (sub_at b j)\<lparr>sub_wildcard_next := None\<rparr>) \<and>
     length (bk_subs (wildcard_list_remove_locked i b)) = ?n"
    using ws iS wildcard_slots_sub
  proof (cases rule: chain_set_remove)
    case at_head
    let ?b = "b\<lparr>bk_wildcard_head := wildcard_next b i\<rparr>"
    have eq: "wildcard_list_remove_locked i b = ?b"
      using at_head(1) by (simp add: wildcard_list_remove_locked_def)
    have nb: "exact_next (?off ?b) j = exact_next b j" "wildcard_next (?off ?b) j = wildcard_next b j" for j
      using assms(2) by (auto simp: exact_next_def wildcard_next_def sub_at_upd)
    have slots: "exact_slots (?off ?b) m = exact_slots b m" for m
      using assms(2,4) by (auto simp: exact_slots_def sub_at_upd)
    have wslots: "wildcard_slots (?off ?b) = wildcard_slots b - {i}"
      using assms(2) by (auto simp: wildcard_slots_def sub_at_upd)
    have "index_ok (?off ?b)"
      unfolding index_ok_def slots wslots
      using cs ws at_head(2) lh by (auto simp: nb [THEN ext])
    then show ?thesis by (simp add: eq)
  next
    case (inside p)
    let ?b = "upd_sub p (\<lambda>e. e\<lparr>sub_wildcard_next := wildcard_next b i\<rparr>) b"
    have eq: "wildcard_list_remove_locked i b = ?b"
      using inside(1) by (simp add: wildcard_list_remove_locked_def)
    have p: "p < ?n" using inside(2) wildcard_slots_sub by blast
    have wn: "wildcard_next (?off ?b) = (wildcard_next b)(p := wildcard_next b i)"
      and en: "exact_next (?off ?b) = exact_next b"
      using assms(2) p inside(3) by (auto simp: exact_next_def wildcard_next_def sub_at_upd fun_eq_iff)
    have slots: "exact_slots (?off ?b) m = exact_slots b m" for m
      using assms(2,4) p by (auto simp: exact_slots_def sub_at_upd split: if_splits)
    have wslots: "wildcard_slots (?off ?b) = wildcard_slots b - {i}"
      using assms(2) p by (auto simp: wildcard_slots_def sub_at_upd split: if_splits)
    have "index_ok (?off ?b)"
      unfolding index_ok_def slots wslots en wn
      using cs inside(4) lh by auto
    then show ?thesis using p by (simp add: eq sub_at_upd)
  qed
  then show "index_ok (?off (wildcard_list_remove_locked i b))"
    and "\<And>j. (sub_at (wildcard_list_remove_locked i b) j)\<lparr>sub_wildcard_next := None\<rparr>
           = (sub_at b j)\<lparr>sub_wildcard_next := None\<rparr>"
    and "length (bk_subs (wildcard_list_remove_locked i b)) = length (bk_subs b)" by blast+
qed

text \<open>
  An entry without its links. Removing a slot changes the entries, up to their links, only by
  clearing its \<open>in_use\<close> flag.
\<close>

definition bare :: "sub_entry \<Rightarrow> sub_entry" where
  "bare e = e\<lparr>sub_exact_next := None, sub_wildcard_next := None\<rparr>"

lemma bare_eqD:
  assumes "bare e = bare e'"
  shows "sub_client e = sub_client e'" and "sub_filter e = sub_filter e'" and "sub_qos e = sub_qos e'"
    and "sub_in_use e = sub_in_use e'" and "sub_is_exact e = sub_is_exact e'"
  using assms by (cases e; cases e'; simp add: bare_def)+

lemma bare_fields [simp]:
  "sub_client (bare e) = sub_client e" "sub_filter (bare e) = sub_filter e" "sub_qos (bare e) = sub_qos e"
  "sub_in_use (bare e) = sub_in_use e" "sub_is_exact (bare e) = sub_is_exact e"
  "sub_key (bare e) = sub_key e" "sub_ok b (bare e) = sub_ok b e" "owns c f (bare e) = owns c f e"
  by (simp_all add: bare_def sub_key_def sub_ok_def owns_def)

lemma bare_release: "bare (e\<lparr>sub_in_use := x\<rparr>) = (bare e)\<lparr>sub_in_use := x\<rparr>"
  by (cases e) (simp add: bare_def)

definition bare_subs :: "broker \<Rightarrow> sub_entry list" where
  "bare_subs b = map bare (bk_subs b)"

lemma bare_subs_notify [simp]:
  "bare_subs (notify_subscribe n f q b) = bare_subs b"
  "bare_subs (notify_unsubscribe n f b) = bare_subs b"
  by (simp_all add: bare_subs_def notify_eq notify_eq p2p_emit_def)

lemma remove_slot_frame [simp]:
  "bk_cfg_p2p (remove_slot i b) = bk_cfg_p2p b"
  "bk_cfg_auth (remove_slot i b) = bk_cfg_auth b"
  "bk_clients (remove_slot i b) = bk_clients b"
  "bk_threads (remove_slot i b) = bk_threads b"
  "bk_retains (remove_slot i b) = bk_retains b"
  "bk_sessions (remove_slot i b) = bk_sessions b"
  "bk_calloc_ok (remove_slot i b) = bk_calloc_ok b"
  "bk_socks (remove_slot i b) = bk_socks b"
  "bk_now (remove_slot i b) = bk_now b"
  "bk_p2p (remove_slot i b) = bk_p2p b"
  "bk_activity (remove_slot i b) = bk_activity b"
  "length (bk_subs (remove_slot i b)) = length (bk_subs b)"
  by (simp_all add: remove_slot_def exact_list_remove_locked_def wildcard_list_remove_locked_def Let_def
      split: option.split link.split)

lemma map_bare_link:
  "map bare (upd_nth i (\<lambda>e. e\<lparr>sub_exact_next := x\<rparr>) es) = map bare es"
  "map bare (upd_nth i (\<lambda>e. e\<lparr>sub_wildcard_next := x\<rparr>) es) = map bare es"
  by (rule map_upd_nth_same; simp add: bare_def)+

lemma remove_slot_bare:
  "bare_subs (remove_slot i b) = upd_nth i (\<lambda>e. e\<lparr>sub_in_use := False\<rparr>) (bare_subs b)"
proof -
  have "map bare (upd_nth i (\<lambda>e. e\<lparr>sub_in_use := False\<rparr>) es)
      = upd_nth i (\<lambda>e. e\<lparr>sub_in_use := False\<rparr>) (map bare es)" for es
    by (cases "i < length es")
      (simp_all add: upd_nth_def map_update list_update_beyond bare_release)
  moreover have "map bare (bk_subs (exact_list_remove_locked i b)) = map bare (bk_subs b)"
    "map bare (bk_subs (wildcard_list_remove_locked i b)) = map bare (bk_subs b)"
    by (simp_all add: exact_list_remove_locked_def wildcard_list_remove_locked_def Let_def upd_sub_def
        map_bare_link split: option.split link.split)
  ultimately show ?thesis
    by (simp add: bare_subs_def remove_slot_def) (simp add: upd_sub_def)
qed

lemma bare_subs_facts:
  "(\<forall>e \<in> set (bk_subs b). sub_ok b e) \<longleftrightarrow> (\<forall>e \<in> set (bare_subs b). sub_ok b e)"
  "keys_unique sub_in_use sub_key (bk_subs b) \<longleftrightarrow> keys_unique sub_in_use sub_key (bare_subs b)"
  by (auto simp: bare_subs_def keys_unique_def)

lemma remove_slot_ok:
  assumes "table_ok b" and "i < length (bk_subs b)" and "sub_in_use (sub_at b i)"
  shows "table_ok (remove_slot i b)"
proof -
  have ix: "index_ok b" using assms(1) by (simp add: table_ok_def)
  have eq: "sub_ok (remove_slot i b) = sub_ok b" by (simp add: sub_ok_def fun_eq_iff)
  have all: "\<forall>e \<in> set (bare_subs b). sub_ok b e"
    using assms(1) by (simp add: table_ok_def bare_subs_facts(1) [symmetric])
  have "index_ok (remove_slot i b)"
    using exact_remove(1) [OF ix assms(2,3)] wildcard_remove(1) [OF ix assms(2,3)]
    by (simp add: remove_slot_def)
  moreover have "\<forall>e \<in> set (bare_subs (remove_slot i b)). sub_ok (remove_slot i b) e"
    unfolding eq remove_slot_bare using all by (rule list_all_upd_nth) (simp add: sub_ok_def)
  moreover have "keys_unique sub_in_use sub_key (bare_subs (remove_slot i b))"
    using assms(1) by (simp add: table_ok_def bare_subs_facts remove_slot_bare subt.unique_release)
  ultimately show ?thesis by (simp add: table_ok_def bare_subs_facts)
qed

text \<open>Filling a free slot and linking it into its index.\<close>

definition fill_entry :: "nat \<Rightarrow> cstr \<Rightarrow> byte \<Rightarrow> sub_entry \<Rightarrow> sub_entry" where
  "fill_entry c f qos e = e\<lparr>sub_client := c, sub_filter := strncpy_str MQTT_TOPIC_MAX f,
     sub_qos := qos, sub_in_use := True, sub_is_exact := filter_is_exact_local f\<rparr>"

definition fill_slot :: "nat \<Rightarrow> nat \<Rightarrow> cstr \<Rightarrow> byte \<Rightarrow> broker \<Rightarrow> broker" where
  "fill_slot i c f qos b =
     (let b = upd_sub i (fill_entry c f qos) b
      in if sub_is_exact (sub_at b i) then exact_list_insert_locked i b else wildcard_list_insert_locked i b)"

lemma fill_slot_frame [simp]:
  "bk_cfg_p2p (fill_slot i c f q b) = bk_cfg_p2p b"
  "bk_cfg_auth (fill_slot i c f q b) = bk_cfg_auth b"
  "bk_clients (fill_slot i c f q b) = bk_clients b"
  "bk_threads (fill_slot i c f q b) = bk_threads b"
  "bk_retains (fill_slot i c f q b) = bk_retains b"
  "bk_sessions (fill_slot i c f q b) = bk_sessions b"
  "bk_calloc_ok (fill_slot i c f q b) = bk_calloc_ok b"
  "bk_socks (fill_slot i c f q b) = bk_socks b"
  "bk_now (fill_slot i c f q b) = bk_now b"
  "bk_p2p (fill_slot i c f q b) = bk_p2p b"
  "bk_activity (fill_slot i c f q b) = bk_activity b"
  "length (bk_subs (fill_slot i c f q b)) = length (bk_subs b)"
  by (simp_all add: fill_slot_def exact_list_insert_locked_def wildcard_list_insert_locked_def Let_def)

lemma fill_slot_index:
  assumes "index_ok b" and i: "i < length (bk_subs b)" and free: "\<not> sub_in_use (sub_at b i)"
  shows "index_ok (fill_slot i c f qos b)"
proof -
  let ?n = "length (bk_subs b)" and ?b1 = "upd_sub i (fill_entry c f qos) b"
  let ?k = "topic_bucket b (strncpy_str 128 f)"
  have cs: "chain_set (exact_next b) (bk_exact_heads b ! m) (exact_slots b m)" if "m < ?n" for m
    using assms(1) that by (simp add: index_ok_def)
  have ws: "chain_set (wildcard_next b) (bk_wildcard_head b) (wildcard_slots b)"
    using assms(1) by (simp add: index_ok_def)
  have lh: "length (bk_exact_heads b) = ?n" using assms(1) by (simp add: index_ok_def)
  have k: "?k < ?n" using i by (rule topic_bucket_less)
  have ni: "i \<notin> exact_slots b m" "i \<notin> wildcard_slots b" for m
    using free by (simp_all add: exact_slots_def wildcard_slots_def)
  show ?thesis
  proof (cases "filter_is_exact_local f")
    case True
    let ?b2 = "(upd_sub i (\<lambda>e. e\<lparr>sub_exact_next := bk_exact_heads b ! ?k\<rparr>) ?b1)
      \<lparr>bk_exact_heads := (bk_exact_heads b)[?k := Some i]\<rparr>"
    have eq: "fill_slot i c f qos b = ?b2"
      using i True by (simp add: fill_slot_def exact_list_insert_locked_def fill_entry_def Let_def)
    have slots: "exact_slots ?b2 m = (if m = ?k then insert i (exact_slots b m) else exact_slots b m)" for m
      using i True free by (auto simp: exact_slots_def sub_at_upd fill_entry_def split: if_splits)
    have wslots: "wildcard_slots ?b2 = wildcard_slots b"
      using i True free by (auto simp: wildcard_slots_def sub_at_upd fill_entry_def split: if_splits)
    have en: "exact_next ?b2 = (exact_next b)(i := bk_exact_heads b ! ?k)"
      and wn: "wildcard_next ?b2 = wildcard_next b"
      using i by (auto simp: exact_next_def wildcard_next_def sub_at_upd fill_entry_def fun_eq_iff)
    have "chain_set ((exact_next b)(i := bk_exact_heads b ! ?k)) (Some i) (insert i (exact_slots b ?k))"
      by (rule chain_set_insert [OF cs [OF k]]) (use ni in auto)
    moreover have "chain_set ((exact_next b)(i := x)) (bk_exact_heads b ! m) (exact_slots b m)"
      if "m < ?n" for m x
      by (rule chain_set_cong [OF cs [OF that]]) (use ni in auto)
    ultimately show ?thesis
      unfolding eq index_ok_def slots wslots en wn using ws lh k by auto
  next
    case False
    let ?b2 = "(upd_sub i (\<lambda>e. e\<lparr>sub_wildcard_next := bk_wildcard_head b\<rparr>) ?b1)
      \<lparr>bk_wildcard_head := Some i\<rparr>"
    have eq: "fill_slot i c f qos b = ?b2"
      using i False by (simp add: fill_slot_def wildcard_list_insert_locked_def fill_entry_def Let_def)
    have slots: "exact_slots ?b2 m = exact_slots b m" for m
      using i False free by (auto simp: exact_slots_def sub_at_upd fill_entry_def split: if_splits)
    have wslots: "wildcard_slots ?b2 = insert i (wildcard_slots b)"
      using i False free by (auto simp: wildcard_slots_def sub_at_upd fill_entry_def split: if_splits)
    have wn: "wildcard_next ?b2 = (wildcard_next b)(i := bk_wildcard_head b)"
      and en: "exact_next ?b2 = exact_next b"
      using i by (auto simp: exact_next_def wildcard_next_def sub_at_upd fill_entry_def fun_eq_iff)
    have "chain_set ((wildcard_next b)(i := bk_wildcard_head b)) (Some i) (insert i (wildcard_slots b))"
      by (rule chain_set_insert [OF ws]) (use ni in auto)
    then show ?thesis
      unfolding eq index_ok_def slots wslots en wn using cs lh by auto
  qed
qed

lemma fill_slot_bare:
  assumes "i < length (bk_subs b)"
  shows "bare_subs (fill_slot i c f qos b) = upd_nth i (\<lambda>e. bare (fill_entry c f qos zero_sub)) (bare_subs b)"
proof -
  have "map bare (upd_nth i (fill_entry c f qos) es)
      = upd_nth i (\<lambda>e. bare (fill_entry c f qos zero_sub)) (map bare es)" for es
  proof -
    have "bare (fill_entry c f qos (es ! i)) = bare (fill_entry c f qos zero_sub)"
      by (simp add: bare_def fill_entry_def zero_sub_def)
    then show ?thesis
      by (cases "i < length es") (simp_all add: upd_nth_def map_update list_update_beyond)
  qed
  then show ?thesis
    by (simp add: bare_subs_def fill_slot_def exact_list_insert_locked_def Let_def
        wildcard_list_insert_locked_def map_bare_link upd_sub_def)
qed

subsection \<open>Statistics of a filter\<close>

lemma filter_stats_split:
  "filter_stats_locked f subs =
     (let ms = filter (\<lambda>e. sub_in_use e \<and> sub_filter e = f) subs
      in (length ms, fold max (map sub_qos ms) 0))"
proof -
  have "fold (\<lambda>e (count, qos). if sub_in_use e \<and> sub_filter e = f
          then (count + 1, if qos < sub_qos e then sub_qos e else qos) else (count, qos)) subs (n, q)
      = (n + length (filter (\<lambda>e. sub_in_use e \<and> sub_filter e = f) subs),
         fold max (map sub_qos (filter (\<lambda>e. sub_in_use e \<and> sub_filter e = f) subs)) q)" for n q
    by (induction subs arbitrary: n q) (auto simp: max_def not_le)
  then show ?thesis by (simp add: filter_stats_locked_def Let_def)
qed

lemma filter_stats_bare: "filter_stats_locked f (bk_subs b) = filter_stats_locked f (bare_subs b)"
  by (simp add: filter_stats_split Let_def bare_subs_def filter_map comp_def)

lemma fold_max_iff:
  "fold max xs q0 = (q :: byte) \<longleftrightarrow> q0 \<le> q \<and> (\<forall>x \<in> set xs. x \<le> q) \<and> (q = q0 \<or> q \<in> set xs)"
proof (induction xs arbitrary: q0)
  case (Cons x xs)
  show ?case unfolding fold_simps comp_def Cons.IH by (auto simp: max_def)
qed auto

lemma filter_stats_max:
  "snd (filter_stats_locked f subs) = q \<longleftrightarrow>
     (\<forall>e \<in> set subs. sub_in_use e \<longrightarrow> sub_filter e = f \<longrightarrow> sub_qos e \<le> q) \<and>
     (q = 0 \<or> (\<exists>e \<in> set subs. sub_in_use e \<and> sub_filter e = f \<and> sub_qos e = q))"
  by (auto simp: filter_stats_split Let_def fold_max_iff)

lemma filter_stats_count:
  "fst (filter_stats_locked f subs) = length (filter (\<lambda>e. sub_in_use e \<and> sub_filter e = f) subs)"
  by (simp add: filter_stats_split Let_def)

lemma filter_stats_zero:
  "fst (filter_stats_locked f subs) = 0 \<longleftrightarrow> (\<forall>e \<in> set subs. sub_in_use e \<longrightarrow> sub_filter e \<noteq> f)"
  by (auto simp: filter_stats_count filter_empty_conv)

subsection \<open>What the peers have been told\<close>

text \<open>The filter's advertised QoS after a list of calls into the peer network.\<close>

fun advertise :: "p2p_event \<Rightarrow> (cstr \<Rightarrow> byte option) \<Rightarrow> cstr \<Rightarrow> byte option" where
  "advertise (P2PSubscribe f q) m = m(f := Some q)"
| "advertise (P2PUnsubscribe f) m = m(f := None)"
| "advertise (P2PPublish p) m = m"

definition advertised :: "broker \<Rightarrow> cstr \<Rightarrow> byte option" where
  "advertised b = fold advertise (bk_p2p b) (\<lambda>_. None)"

definition wanted :: "broker \<Rightarrow> cstr \<Rightarrow> byte option" where
  "wanted b f = (let (n, q) = filter_stats_locked f (bk_subs b) in if n = 0 then None else Some q)"

definition adv_ok :: "broker \<Rightarrow> bool" where
  "adv_ok b \<longleftrightarrow> (bk_cfg_p2p b \<longrightarrow> advertised b = wanted b)"

lemma advertised_emit [simp]: "advertised (p2p_emit e b) = advertise e (advertised b)"
  by (simp add: advertised_def p2p_emit_def)

lemma p2p_emit_frame [simp]:
  "bk_cfg_p2p (p2p_emit e b) = bk_cfg_p2p b"
  "bk_cfg_auth (p2p_emit e b) = bk_cfg_auth b"
  "bk_clients (p2p_emit e b) = bk_clients b"
  "bk_threads (p2p_emit e b) = bk_threads b"
  "bk_subs (p2p_emit e b) = bk_subs b"
  "bk_exact_heads (p2p_emit e b) = bk_exact_heads b"
  "bk_wildcard_head (p2p_emit e b) = bk_wildcard_head b"
  "bk_retains (p2p_emit e b) = bk_retains b"
  "bk_sessions (p2p_emit e b) = bk_sessions b"
  "bk_calloc_ok (p2p_emit e b) = bk_calloc_ok b"
  "bk_socks (p2p_emit e b) = bk_socks b"
  "bk_now (p2p_emit e b) = bk_now b"
  "bk_activity (p2p_emit e b) = bk_activity b"
  by (simp_all add: p2p_emit_def)

text \<open>States with the same table.\<close>

lemma table_ok_cong:
  assumes "bk_subs b' = bk_subs b" and "bk_exact_heads b' = bk_exact_heads b"
    and "bk_wildcard_head b' = bk_wildcard_head b" and "length (bk_clients b') = length (bk_clients b)"
  shows "table_ok b' = table_ok b"
proof -
  have "sub_at b' = sub_at b" by (simp add: sub_at_def assms fun_eq_iff)
  then have "exact_next b' = exact_next b" "wildcard_next b' = wildcard_next b"
    "exact_slots b' = exact_slots b" "wildcard_slots b' = wildcard_slots b"
    by (simp_all add: exact_next_def wildcard_next_def exact_slots_def wildcard_slots_def
        topic_bucket_def assms fun_eq_iff)
  then show ?thesis
    by (simp add: table_ok_def index_ok_def sub_ok_def assms)
qed

lemma emit_table [simp]: "table_ok (p2p_emit e b) = table_ok b"
  by (rule table_ok_cong) simp_all

lemma notify_table [simp]:
  "table_ok (notify_subscribe n f q b) = table_ok b"
  "table_ok (notify_unsubscribe n f b) = table_ok b"
  by (simp_all add: notify_eq notify_eq)

lemma notify_frame [simp]:
  "bk_cfg_p2p (notify_subscribe n f q b) = bk_cfg_p2p b"
  "bk_cfg_auth (notify_subscribe n f q b) = bk_cfg_auth b"
  "bk_clients (notify_subscribe n f q b) = bk_clients b"
  "bk_threads (notify_subscribe n f q b) = bk_threads b"
  "bk_subs (notify_subscribe n f q b) = bk_subs b"
  "bk_exact_heads (notify_subscribe n f q b) = bk_exact_heads b"
  "bk_wildcard_head (notify_subscribe n f q b) = bk_wildcard_head b"
  "bk_retains (notify_subscribe n f q b) = bk_retains b"
  "bk_sessions (notify_subscribe n f q b) = bk_sessions b"
  "bk_calloc_ok (notify_subscribe n f q b) = bk_calloc_ok b"
  "bk_socks (notify_subscribe n f q b) = bk_socks b"
  "bk_now (notify_subscribe n f q b) = bk_now b"
  "bk_activity (notify_subscribe n f q b) = bk_activity b"
  "bk_cfg_p2p (notify_unsubscribe n f b) = bk_cfg_p2p b"
  "bk_cfg_auth (notify_unsubscribe n f b) = bk_cfg_auth b"
  "bk_clients (notify_unsubscribe n f b) = bk_clients b"
  "bk_threads (notify_unsubscribe n f b) = bk_threads b"
  "bk_subs (notify_unsubscribe n f b) = bk_subs b"
  "bk_exact_heads (notify_unsubscribe n f b) = bk_exact_heads b"
  "bk_wildcard_head (notify_unsubscribe n f b) = bk_wildcard_head b"
  "bk_retains (notify_unsubscribe n f b) = bk_retains b"
  "bk_sessions (notify_unsubscribe n f b) = bk_sessions b"
  "bk_calloc_ok (notify_unsubscribe n f b) = bk_calloc_ok b"
  "bk_socks (notify_unsubscribe n f b) = bk_socks b"
  "bk_now (notify_unsubscribe n f b) = bk_now b"
  "bk_activity (notify_unsubscribe n f b) = bk_activity b"
  by (simp_all add: notify_eq notify_eq)

text \<open>
  The notification rule: if the table changed only for filter \<open>f\<close>, and the call made (if any)
  announces the new QoS of \<open>f\<close>, or its disappearance, the peers are up to date again.
\<close>

lemma adv_ok_notify:
  assumes "adv_ok b" and "bk_cfg_p2p b' = bk_cfg_p2p b" and "bk_p2p b' = bk_p2p b"
    and "\<And>g. g \<noteq> f \<Longrightarrow> wanted b' g = wanted b g"
  shows "wanted b' f = Some q \<Longrightarrow> n \<longleftrightarrow> wanted b f \<noteq> Some q \<Longrightarrow> adv_ok (notify_subscribe n f q b')"
    and "wanted b' f = None \<Longrightarrow> adv_ok (notify_unsubscribe True f b')"
proof -
  have w: "wanted b' = (wanted b)(f := wanted b' f)" using assms(4) by (auto simp: fun_eq_iff)
  have a: "advertised b' = advertised b" by (simp add: advertised_def assms(3))
  have e: "wanted (p2p_emit ev b') = wanted b'" for ev by (simp add: wanted_def fun_eq_iff)
  show "adv_ok (notify_subscribe n f q b')" if "wanted b' f = Some q" "n \<longleftrightarrow> wanted b f \<noteq> Some q"
    using assms(1,2) that w a e by (auto simp: adv_ok_def notify_eq fun_eq_iff)
  show "adv_ok (notify_unsubscribe True f b')" if "wanted b' f = None"
    using assms(1,2) that w a e by (auto simp: adv_ok_def notify_eq fun_eq_iff)
qed

lemma filter_upd_nth_same:
  "i < length xs \<Longrightarrow> \<not> P (xs ! i) \<Longrightarrow> \<not> P (g (xs ! i)) \<Longrightarrow> filter P (upd_nth i g xs) = filter P xs"
  by (induction xs arbitrary: i) (auto simp: upd_nth_def split: nat.splits)

lemma filter_upd_nth_drop:
  "i < length xs \<Longrightarrow> P (xs ! i) \<Longrightarrow> \<not> P (g (xs ! i)) \<Longrightarrow>
   Suc (length (filter P (upd_nth i g xs))) = length (filter P xs)"
proof (induction xs arbitrary: i)
  case (Cons x xs)
  then show ?case
    by (cases i) (auto simp: upd_nth_def)
qed simp

definition about :: "cstr \<Rightarrow> sub_entry \<Rightarrow> bool" where
  "about f e \<longleftrightarrow> sub_in_use e \<and> sub_filter e = f"

lemma about_bare [simp]: "about f (bare e) = about f e"
  by (simp add: about_def)

lemma stats_about:
  "filter_stats_locked f es = (length (filter (about f) es), fold max (map sub_qos (filter (about f) es)) 0)"
  by (simp add: filter_stats_split Let_def about_def [abs_def])

lemma wanted_None: "wanted b f = None \<longleftrightarrow> (\<forall>e \<in> set (bare_subs b). \<not> about f e)"
  using filter_stats_zero [of f "bare_subs b"]
  by (auto simp: wanted_def filter_stats_bare about_def split: prod.split)

lemma wanted_Some:
  "wanted b f = Some q \<longleftrightarrow> (\<exists>e \<in> set (bare_subs b). about f e) \<and>
     (\<forall>e \<in> set (bare_subs b). about f e \<longrightarrow> sub_qos e \<le> q) \<and>
     (q = 0 \<or> (\<exists>e \<in> set (bare_subs b). about f e \<and> sub_qos e = q))"
  using filter_stats_zero [of f "bare_subs b"] filter_stats_max [of f "bare_subs b" q]
  by (auto simp: wanted_def filter_stats_bare about_def split: prod.split)

lemma wanted_Some_nth:
  "wanted b f = Some q \<longleftrightarrow> (\<exists>j < length (bk_subs b). about f (bare_subs b ! j)) \<and>
     (\<forall>j < length (bk_subs b). about f (bare_subs b ! j) \<longrightarrow> sub_qos (bare_subs b ! j) \<le> q) \<and>
     (q = 0 \<or> (\<exists>j < length (bk_subs b). about f (bare_subs b ! j) \<and> sub_qos (bare_subs b ! j) = q))"
proof -
  have l: "length (bare_subs b) = length (bk_subs b)" by (simp add: bare_subs_def)
  show ?thesis
    unfolding wanted_Some by (simp only: set_conv_nth l) blast
qed

lemma wanted_other:
  assumes "bare_subs b' = upd_nth i g (bare_subs b)" and "i < length (bk_subs b)"
    and "\<not> about f (bare_subs b ! i)" and "\<not> about f (g (bare_subs b ! i))"
  shows "wanted b' f = wanted b f"
proof -
  have "filter (about f) (bare_subs b') = filter (about f) (bare_subs b)"
    unfolding assms(1) by (rule filter_upd_nth_same) (use assms in \<open>simp_all add: bare_subs_def\<close>)
  then show ?thesis
    by (simp only: wanted_def filter_stats_bare) (simp only: stats_about)
qed

lemma stats_wanted:
  assumes "filter_stats_locked f (bk_subs b) = (n, m)"
  shows "wanted b f = (if n = 0 then None else Some m)"
  using assms by (simp add: wanted_def)

lemma own_slot_Some:
  assumes "own_slot b c f = Some i"
  shows "i < length (bk_subs b)" and "owns c f (sub_at b i)"
  using assms by (auto simp: own_slot_def sub_at_def split: if_splits dest: find_last_SomeD find_idx_SomeD)

lemma own_slot_None: "own_slot b c f = None \<longleftrightarrow> (\<forall>e \<in> set (bk_subs b). \<not> owns c f e)"
  by (simp add: own_slot_def find_last_None find_idx_None)

lemma sub_bare: "i < length (bk_subs b) \<Longrightarrow> bare_subs b ! i = bare (sub_at b i)"
  by (simp add: bare_subs_def sub_at_def)

text \<open>Changing the QoS of an entry.\<close>

lemma bare_set_qos: "bare (e\<lparr>sub_qos := q\<rparr>) = (bare e)\<lparr>sub_qos := q\<rparr>"
  by (cases e) (simp add: bare_def)

lemma upd_qos_bare: "bare_subs (upd_sub i (\<lambda>e. e\<lparr>sub_qos := q\<rparr>) b) = upd_nth i (\<lambda>e. e\<lparr>sub_qos := q\<rparr>) (bare_subs b)"
  by (cases "i < length (bk_subs b)")
    (simp_all add: bare_subs_def upd_sub_def upd_nth_def map_update list_update_beyond bare_set_qos)

lemma upd_qos_index: "index_ok b \<Longrightarrow> index_ok (upd_sub i (\<lambda>e. e\<lparr>sub_qos := q\<rparr>) b)"
proof -
  assume ix: "index_ok b"
  let ?b = "upd_sub i (\<lambda>e. e\<lparr>sub_qos := q\<rparr>) b"
  have at: "sub_at ?b j = sub_at b j \<or> sub_at ?b j = (sub_at b j)\<lparr>sub_qos := q\<rparr>" for j
    by (cases "i < length (bk_subs b)"; cases "j = i") (simp_all add: upd_sub_def upd_nth_beyond sub_at_def)
  have f: "sub_in_use (sub_at ?b j) = sub_in_use (sub_at b j)"
    "sub_is_exact (sub_at ?b j) = sub_is_exact (sub_at b j)"
    "sub_filter (sub_at ?b j) = sub_filter (sub_at b j)"
    "exact_next ?b j = exact_next b j" "wildcard_next ?b j = wildcard_next b j" for j
    by (rule disjE [OF at [of j]]; simp add: exact_next_def wildcard_next_def)+
  have "exact_slots ?b k = exact_slots b k" "wildcard_slots ?b = wildcard_slots b" for k
    by (simp_all add: exact_slots_def wildcard_slots_def f)
  moreover have "exact_next ?b = exact_next b" "wildcard_next ?b = wildcard_next b"
    by (simp_all add: f fun_eq_iff)
  ultimately show "index_ok ?b"
    using ix by (simp add: index_ok_def)
qed

lemma upd_qos_ok:
  assumes "table_ok b" and "q \<le> 2"
  shows "table_ok (upd_sub i (\<lambda>e. e\<lparr>sub_qos := q\<rparr>) b)"
proof -
  let ?b = "upd_sub i (\<lambda>e. e\<lparr>sub_qos := q\<rparr>) b"
  have eq: "sub_ok ?b = sub_ok b" by (simp add: sub_ok_def fun_eq_iff)
  have all: "\<forall>e \<in> set (bare_subs b). sub_ok b e"
    using assms(1) by (simp add: table_ok_def bare_subs_facts(1) [symmetric])
  have "\<forall>e \<in> set (bare_subs ?b). sub_ok ?b e"
    unfolding eq upd_qos_bare using all
    by (rule list_all_upd_nth) (use all assms(2) in \<open>auto simp: sub_ok_def\<close>)
  moreover have "keys_unique sub_in_use sub_key (bare_subs ?b)"
    using assms(1) unfolding upd_qos_bare
    by (intro keys_unique_same) (simp_all add: table_ok_def bare_subs_facts sub_key_def)
  ultimately show ?thesis
    using assms(1) upd_qos_index by (simp add: table_ok_def bare_subs_facts)
qed

subsection \<open>The operations keep the invariants\<close>

text \<open>Both scans for a client's own subscription find the same slot, as there is at most one.\<close>

lemma own_slot_unique:
  assumes "table_ok b"
  shows "own_slot b c f = find_idx (owns c f) (bk_subs b)"
proof -
  have "find_last (owns c f) (bk_subs b) = find_idx (owns c f) (bk_subs b)"
    using assms by (intro find_last_unique) (auto simp: table_ok_def owns_def sub_key_def dest: keys_uniqueD)
  then show ?thesis by (simp add: own_slot_def)
qed

lemma subscribe_update:
  assumes "table_ok b" and "adv_ok b" and "own_slot b c f = Some i" and "qos \<le> 2"
  shows "fst (topic_subscribe c f qos b) \<and> table_ok (snd (topic_subscribe c f qos b)) \<and>
    adv_ok (snd (topic_subscribe c f qos b)) \<and>
    bare_subs (snd (topic_subscribe c f qos b)) = upd_nth i (\<lambda>e. e\<lparr>sub_qos := qos\<rparr>) (bare_subs b)"
proof -
  let ?S = "bare_subs b" and ?b = "upd_sub i (\<lambda>e. e\<lparr>sub_qos := qos\<rparr>) b"
  have i: "i < length (bk_subs b)" and o: "owns c f (sub_at b i)"
    using own_slot_Some [OF assms(3)] by auto
  have len: "length ?S = length (bk_subs b)" by (simp add: bare_subs_def)
  have ab: "about f (?S ! i)" using o i by (simp add: sub_bare about_def owns_def)
  obtain n M where st: "filter_stats_locked f (bk_subs b) = (n, M)" by force
  have w: "wanted b f = Some M"
    using stats_wanted [OF st] ab i wanted_None [of b f] len nth_mem [of i ?S] by (auto split: if_splits)
  let ?new = "if qos \<ge> M then qos else if sub_qos (sub_at b i) < M then M
              else snd (filter_stats_locked f (bk_subs ?b))"
  have S': "bare_subs ?b = upd_nth i (\<lambda>e. e\<lparr>sub_qos := qos\<rparr>) ?S" by (rule upd_qos_bare)
  have ne: "wanted ?b f \<noteq> None"
    using ab i by (auto simp: wanted_None S' len about_def set_conv_nth nth_upd_nth)
  have w': "wanted ?b f = Some ?new"
  proof -
    consider "qos \<ge> M" | "\<not> qos \<ge> M" "sub_qos (?S ! i) < M" | "\<not> qos \<ge> M" "\<not> sub_qos (?S ! i) < M"
      by blast
    then show ?thesis
    proof cases
      case 1
      have "wanted ?b f = Some qos"
        using w ab i 1 unfolding wanted_Some_nth S'
        by (auto simp: nth_upd_nth len about_def split: if_splits intro: order_trans)
      then show ?thesis using 1 by simp
    next
      case 2
      then have "M \<noteq> 0" by auto
      then have "wanted ?b f = Some M"
        using w ab i 2 unfolding wanted_Some_nth S'
        by (auto simp: nth_upd_nth len about_def split: if_splits)
      then show ?thesis using 2 i by (simp add: sub_bare)
    next
      case 3
      then show ?thesis using ne i by (simp add: sub_bare wanted_def split: prod.splits if_splits)
    qed
  qed
  have other: "wanted ?b g = wanted b g" if "g \<noteq> f" for g
    by (rule wanted_other [OF S' i]) (use ab that in \<open>auto simp: about_def\<close>)
  have eq: "topic_subscribe c f qos b = (True, notify_subscribe (?new \<noteq> M) f ?new ?b)"
    by (simp add: topic_subscribe_eq st assms(3) Let_def)
  have "adv_ok (notify_subscribe (?new \<noteq> M) f ?new ?b)"
    using w w' other by (intro adv_ok_notify(1) [OF assms(2), of ?b f]) auto
  then show ?thesis
    using upd_qos_ok [OF assms(1,4), of i] by (simp add: eq S')
qed

lemma subscribe_insert:
  assumes "table_ok b" and "adv_ok b" and "own_slot b c f = None"
    and "free_slot sub_in_use (bk_subs b) = Some i" and "filter_ok f" and "topic_filter_valid f"
    and "qos \<le> 2" and "c < length (bk_clients b)"
  shows "fst (topic_subscribe c f qos b) \<and> table_ok (snd (topic_subscribe c f qos b)) \<and>
    adv_ok (snd (topic_subscribe c f qos b)) \<and>
    bare_subs (snd (topic_subscribe c f qos b)) =
      upd_nth i (\<lambda>_. bare (fill_entry c f qos zero_sub)) (bare_subs b)"
proof -
  let ?S = "bare_subs b" and ?b = "fill_slot i c f qos b" and ?e = "bare (fill_entry c f qos zero_sub)"
  have i: "i < length (bk_subs b)" and free: "\<not> sub_in_use (sub_at b i)"
    using assms(4) find_idx_SomeD [of "\<lambda>e. \<not> sub_in_use e" "bk_subs b" i]
    by (auto simp: free_slot_def sub_at_def)
  have len: "length ?S = length (bk_subs b)" by (simp add: bare_subs_def)
  have e: "sub_client ?e = c" "sub_filter ?e = f" "sub_qos ?e = qos" "sub_in_use ?e" "sub_ok b ?e" "about f ?e"
    using assms(5-8) by (simp_all add: fill_entry_def filter_ok_def sub_ok_def filter_is_exact_local_def about_def)
  have S': "bare_subs ?b = upd_nth i (\<lambda>_. ?e) ?S" using i by (rule fill_slot_bare)
  have nab: "\<not> about g (?S ! i)" for g using free i by (simp add: sub_bare about_def)
  obtain n M where st: "filter_stats_locked f (bk_subs b) = (n, M)" by force
  let ?new = "if qos > M then qos else M"
  have w: "wanted b f = (if n = 0 then None else Some M)" by (rule stats_wanted [OF st])
  have w': "wanted ?b f = Some ?new"
  proof (cases "n = 0")
    case True
    then have "\<forall>e \<in> set ?S. \<not> about f e" using w wanted_None [of b f] by simp
    then have none: "\<not> about f (?S ! j)" if "j < length (bk_subs b)" for j using that len by simp
    have "M = 0"
      using True st filter_stats_max [of f "bk_subs b" M] filter_stats_zero [of f "bk_subs b"] by auto
    then have "?new = qos" by (auto simp: word_gt_0)
    then show ?thesis
      using none e i unfolding wanted_Some_nth S'
      by (auto simp: nth_upd_nth len split: if_splits)
  next
    case False
    then have "wanted b f = Some M" using w by simp
    then show ?thesis
      using nab [of f] e(3,6) i unfolding wanted_Some_nth S'
      by (auto simp: nth_upd_nth len not_less word_gt_0 split: if_splits
          intro: order_trans order.strict_implies_order)
  qed
  have other: "wanted ?b g = wanted b g" if "g \<noteq> f" for g
    by (rule wanted_other [OF S' i]) (use nab that e(2) in \<open>auto simp: about_def\<close>)
  have eq: "topic_subscribe c f qos b = (True, notify_subscribe (n = 0 \<or> ?new \<noteq> M) f ?new ?b)"
    by (simp add: topic_subscribe_eq st assms(3,4) Let_def fill_slot_def fill_entry_def [abs_def])
  have adv: "adv_ok (notify_subscribe (n = 0 \<or> ?new \<noteq> M) f ?new ?b)"
    by (rule adv_ok_notify(1) [OF assms(2), of ?b f]) (use w w' other in \<open>auto simp: fill_slot_frame\<close>)
  have so: "sub_ok ?b = sub_ok b" by (simp add: sub_ok_def fun_eq_iff)
  have all: "\<forall>e \<in> set ?S. sub_ok b e"
    using assms(1) by (simp add: table_ok_def bare_subs_facts(1) [symmetric])
  have "\<forall>e \<in> set (bare_subs ?b). sub_ok ?b e"
    unfolding so S' using all by (rule list_all_upd_nth) (use e in simp)
  moreover have "keys_unique sub_in_use sub_key (bare_subs ?b)"
  proof -
    have "\<forall>e \<in> set (bk_subs b). \<not> owns c f e" using assms(3) by (simp add: own_slot_None)
    then have "slot_of sub_in_use sub_key (sub_key ?e) ?S = None"
      using e(1,2) by (auto simp: slot_of_def find_idx_None bare_subs_def sub_key_def owns_def)
    then show ?thesis
      using assms(1) unfolding S' by (intro subt.unique_store) (simp_all add: table_ok_def bare_subs_facts)
  qed
  ultimately have "table_ok ?b"
    using fill_slot_index [OF _ i free] assms(1) by (simp add: table_ok_def bare_subs_facts)
  then show ?thesis using adv by (simp add: eq S')
qed

lemma topic_subscribe_ok:
  assumes "table_ok b" and "adv_ok b" and "filter_ok f" and "topic_filter_valid f" and "qos \<le> 2"
    and "c < length (bk_clients b)"
  shows "table_ok (snd (topic_subscribe c f qos b)) \<and> adv_ok (snd (topic_subscribe c f qos b))"
proof (cases "own_slot b c f")
  case (Some i)
  then show ?thesis using subscribe_update [OF assms(1,2) Some assms(5)] by simp
next
  case own: None
  show ?thesis
  proof (cases "free_slot sub_in_use (bk_subs b)")
    case None
    then show ?thesis using own assms(1,2) by (simp add: topic_subscribe_eq split: prod.split)
  next
    case (Some i)
    then show ?thesis using subscribe_insert [OF assms(1,2) own Some assms(3-6)] by simp
  qed
qed

lemma unsubscribe_remove:
  assumes "table_ok b" and "adv_ok b" and "own_slot b c f = Some i"
  shows "table_ok (topic_unsubscribe c f b) \<and> adv_ok (topic_unsubscribe c f b) \<and>
    bare_subs (topic_unsubscribe c f b) = upd_nth i (\<lambda>e. e\<lparr>sub_in_use := False\<rparr>) (bare_subs b)"
proof -
  let ?S = "bare_subs b" and ?b = "remove_slot i b"
  have i: "i < length (bk_subs b)" and o: "owns c f (sub_at b i)"
    using own_slot_Some [OF assms(3)] by auto
  have len: "length ?S = length (bk_subs b)" by (simp add: bare_subs_def)
  have ab: "about f (?S ! i)" using o i by (simp add: sub_bare about_def owns_def)
  obtain n M where st: "filter_stats_locked f (bk_subs b) = (n, M)" by force
  have nz: "n \<noteq> 0"
    using stats_wanted [OF st] ab i wanted_None [of b f] len nth_mem [of i ?S] by (auto split: if_splits)
  then have w: "wanted b f = Some M" using stats_wanted [OF st] by simp
  have S': "bare_subs ?b = upd_nth i (\<lambda>e. e\<lparr>sub_in_use := False\<rparr>) ?S" by (rule remove_slot_bare)
  have cnt: "Suc (fst (filter_stats_locked f (bk_subs ?b))) = n"
  proof -
    have "Suc (length (filter (about f) (bare_subs ?b))) = length (filter (about f) ?S)"
      unfolding S' using i ab by (intro filter_upd_nth_drop) (simp_all add: len about_def)
    moreover have "n = length (filter (about f) ?S)"
      using st unfolding filter_stats_bare by (simp add: stats_about)
    ultimately show ?thesis
      unfolding filter_stats_bare by (simp add: stats_about)
  qed
  have other: "wanted ?b g = wanted b g" if "g \<noteq> f" for g
    by (rule wanted_other [OF S' i]) (use ab that in \<open>auto simp: about_def\<close>)
  have tab: "table_ok ?b"
    using remove_slot_ok [OF assms(1) i] o by (simp add: owns_def)
  let ?new = "if sub_qos (sub_at b i) < M then M else snd (filter_stats_locked f (bk_subs ?b))"
  show ?thesis
  proof (cases "n = 1")
    case True
    then have "wanted ?b f = None"
      using cnt by (cases "filter_stats_locked f (bk_subs ?b)") (simp add: wanted_def)
    then have "adv_ok (notify_unsubscribe True f ?b)"
      using other by (intro adv_ok_notify(2) [OF assms(2), of ?b f]) simp_all
    moreover have "topic_unsubscribe c f b = notify_unsubscribe True f ?b"
      using True by (simp add: topic_unsubscribe_eq st assms(3) Let_def)
    ultimately show ?thesis using tab by (simp add: S')
  next
    case False
    then have ne: "wanted ?b f = Some (snd (filter_stats_locked f (bk_subs ?b)))"
      using cnt by (auto simp: wanted_def split: prod.splits)
    have "wanted ?b f = Some ?new"
    proof (cases "sub_qos (sub_at b i) < M")
      case True
      then have "M \<noteq> 0" by auto
      moreover obtain j where j: "j < length (bk_subs b)" "about f (?S ! j)" "sub_qos (?S ! j) = M"
        using w calculation unfolding wanted_Some_nth by blast
      moreover have "j \<noteq> i" using True j(3) i by (auto simp: sub_bare)
      ultimately have "wanted ?b f = Some M"
        using w unfolding wanted_Some_nth S'
        by (auto simp: nth_upd_nth len about_def split: if_splits)
      then show ?thesis using True by simp
    next
      case False
      then show ?thesis using ne by simp
    qed
    then have "adv_ok (notify_subscribe (?new \<noteq> M) f ?new ?b)"
      using w other by (intro adv_ok_notify(1) [OF assms(2), of ?b f]) auto
    moreover have "topic_unsubscribe c f b = notify_subscribe (?new \<noteq> M) f ?new ?b"
      using False by (simp add: topic_unsubscribe_eq st assms(3) Let_def)
    ultimately show ?thesis using tab by (simp add: S')
  qed
qed

lemma topic_unsubscribe_ok:
  assumes "table_ok b" and "adv_ok b"
  shows "table_ok (topic_unsubscribe c f b) \<and> adv_ok (topic_unsubscribe c f b)"
proof (cases "own_slot b c f")
  case None
  then show ?thesis using assms by (simp add: topic_unsubscribe_eq split: prod.split)
next
  case (Some i)
  then show ?thesis using unsubscribe_remove [OF assms Some] by simp
qed

subsection \<open>Removing all subscriptions of a client\<close>

definition of_client :: "nat \<Rightarrow> sub_entry \<Rightarrow> bool" where
  "of_client c e \<longleftrightarrow> sub_in_use e \<and> sub_client e = c"

text \<open>
  One round of the loop in the build with the peer network: the first entry of the client is
  removed under the lock, and the peers are told after it is released.
\<close>

definition unsubscribe_first_locked :: "nat \<Rightarrow> broker \<Rightarrow> p2p_event option \<times> broker" where
  "unsubscribe_first_locked i b =
     (let removed = strncpy_str MQTT_TOPIC_MAX (sub_filter (sub_at b i));
          (old_count, old_max_qos) = filter_stats_locked removed (bk_subs b);
          b = remove_slot i b;
          (new_count, new_max_qos) = filter_stats_locked removed (bk_subs b)
      in (if 0 < old_count \<and> new_count = 0 then notice True (P2PUnsubscribe removed) b
          else notice (0 < new_count \<and> new_max_qos \<noteq> old_max_qos) (P2PSubscribe removed new_max_qos) b, b))"

definition unsubscribe_first :: "nat \<Rightarrow> broker \<Rightarrow> broker" where
  "unsubscribe_first i b = (let (announcement, b) = unsubscribe_first_locked i b in tell_peers announcement b)"

lemma unsubscribe_first_eq:
  "unsubscribe_first i b =
     (let removed = strncpy_str MQTT_TOPIC_MAX (sub_filter (sub_at b i));
          (old_count, old_max_qos) = filter_stats_locked removed (bk_subs b);
          b = remove_slot i b;
          (new_count, new_max_qos) = filter_stats_locked removed (bk_subs b)
      in if 0 < old_count \<and> new_count = 0 then notify_unsubscribe True removed b
         else notify_subscribe (0 < new_count \<and> new_max_qos \<noteq> old_max_qos) removed new_max_qos b)"
  by (simp add: unsubscribe_first_def unsubscribe_first_locked_def notify_subscribe_def notify_unsubscribe_def Let_def split: prod.split)

lemma unsubscribe_first_bare:
  "bare_subs (unsubscribe_first i b) = upd_nth i (\<lambda>e. e\<lparr>sub_in_use := False\<rparr>) (bare_subs b)"
  by (simp add: unsubscribe_first_eq Let_def remove_slot_bare split: prod.split)

lemma of_client_bare [simp]: "of_client c (bare e) = of_client c e"
  by (simp add: of_client_def)

lemma filter_of_client_bare: "length (filter (of_client c) (bare_subs b)) = length (filter (of_client c) (bk_subs b))"
  by (simp add: bare_subs_def filter_map comp_def)

function unsubscribe_loop :: "nat \<Rightarrow> broker \<Rightarrow> broker" where
  "unsubscribe_loop c b =
     (case find_idx (of_client c) (bk_subs b) of
        None \<Rightarrow> b
      | Some i \<Rightarrow> unsubscribe_loop c (unsubscribe_first i b))"
  by pat_completeness auto
termination
proof (relation "measure (\<lambda>(c, b). length (filter (of_client c) (bk_subs b)))")
  fix c i and b :: broker
  assume "find_idx (of_client c) (bk_subs b) = Some i"
  then have i: "i < length (bk_subs b)" "of_client c (bk_subs b ! i)"
    by (simp_all add: find_idx_Some)
  have "Suc (length (filter (of_client c) (bare_subs (unsubscribe_first i b))))
      = length (filter (of_client c) (bare_subs b))"
    unfolding unsubscribe_first_bare using i
    by (intro filter_upd_nth_drop) (simp_all add: bare_subs_def of_client_def)
  then show "((c, unsubscribe_first i b), c, b)
      \<in> measure (\<lambda>(c, b). length (filter (of_client c) (bk_subs b)))"
    by (simp add: filter_of_client_bare)
qed simp

declare unsubscribe_loop.simps [simp del]

definition topic_unsubscribe_all :: "nat \<Rightarrow> broker \<Rightarrow> broker" where
  "topic_unsubscribe_all c b =
     (if bk_cfg_p2p b then unsubscribe_loop c b
      else fold (\<lambda>i b. if of_client c (sub_at b i) then remove_slot i b else b) [0..<length (bk_subs b)] b)"

lemma unsubscribe_first_ok:
  assumes "table_ok b" and "adv_ok b" and "i < length (bk_subs b)" and "sub_in_use (sub_at b i)"
  shows "table_ok (unsubscribe_first i b) \<and> adv_ok (unsubscribe_first i b)"
proof -
  let ?f = "sub_filter (sub_at b i)" and ?b = "remove_slot i b"
  have "sub_ok b (sub_at b i)" using assms(1,3) by (simp add: table_ok_def sub_at_def)
  then have rm: "strncpy_str 128 ?f = ?f" using assms(4) by (simp add: sub_ok_def filter_ok_def)
  have ab: "about ?f (bare_subs b ! i)" using assms(3,4) by (simp add: sub_bare about_def)
  obtain n M n' M' where st: "filter_stats_locked ?f (bk_subs b) = (n, M)"
    and st': "filter_stats_locked ?f (bk_subs ?b) = (n', M')" by (metis surj_pair)
  have nz: "n \<noteq> 0"
    using stats_wanted [OF st] ab assms(3) wanted_None [of b ?f] nth_mem [of i "bare_subs b"]
    by (auto simp: bare_subs_def split: if_splits)
  then have w: "wanted b ?f = Some M" using stats_wanted [OF st] by simp
  have w': "wanted ?b ?f = (if n' = 0 then None else Some M')" by (rule stats_wanted [OF st'])
  have other: "wanted ?b g = wanted b g" if "g \<noteq> ?f" for g
    by (rule wanted_other [OF remove_slot_bare assms(3)]) (use ab that in \<open>auto simp: about_def\<close>)
  note notify = adv_ok_notify [OF assms(2), of ?b ?f]
  have "adv_ok (notify_unsubscribe True ?f ?b)" if "n' = 0"
    using w' that other by (intro notify(2)) simp_all
  moreover have "adv_ok (notify_subscribe (0 < n' \<and> M' \<noteq> M) ?f M' ?b)" if "n' \<noteq> 0"
    using w w' that other by (intro notify(1)) auto
  ultimately show ?thesis
    using remove_slot_ok [OF assms(1,3,4)] nz
    by (simp add: unsubscribe_first_eq Let_def rm st st')
qed

definition drop_client :: "nat \<Rightarrow> sub_entry \<Rightarrow> sub_entry" where
  "drop_client c e = (if sub_client e = c then e\<lparr>sub_in_use := False\<rparr> else e)"

lemma map_drop_client_upd:
  "i < length es \<Longrightarrow> sub_client (es ! i) = c \<Longrightarrow>
   map (drop_client c) (upd_nth i (\<lambda>e. e\<lparr>sub_in_use := False\<rparr>) es) = map (drop_client c) es"
  by (rule nth_equalityI) (auto simp: nth_upd_nth drop_client_def)

lemma map_drop_client_none: "find_idx (of_client c) es = None \<Longrightarrow> map (drop_client c) es = es"
  by (induction es) (auto simp: of_client_def drop_client_def split: if_splits)

lemma unsubscribe_loop_ok:
  assumes "table_ok b" and "adv_ok b"
  shows "table_ok (unsubscribe_loop c b) \<and> adv_ok (unsubscribe_loop c b) \<and>
    bare_subs (unsubscribe_loop c b) = map (drop_client c) (bare_subs b)"
  using assms
proof (induction c b rule: unsubscribe_loop.induct)
  case (1 c b)
  show ?case
  proof (cases "find_idx (of_client c) (bk_subs b)")
    case None
    then have "find_idx (of_client c) (bare_subs b) = None"
      by (auto simp: find_idx_None bare_subs_def)
    then show ?thesis
      using None 1(2,3) by (simp add: unsubscribe_loop.simps [of c b] map_drop_client_none)
  next
    case (Some i)
    then have i: "i < length (bk_subs b)" "of_client c (sub_at b i)"
      by (simp_all add: find_idx_Some sub_at_def)
    have ok: "table_ok (unsubscribe_first i b)" "adv_ok (unsubscribe_first i b)"
      using unsubscribe_first_ok [OF 1(2,3) i(1)] i(2) by (simp_all add: of_client_def)
    have "map (drop_client c) (bare_subs (unsubscribe_first i b)) = map (drop_client c) (bare_subs b)"
      unfolding unsubscribe_first_bare using i
      by (intro map_drop_client_upd) (simp_all add: bare_subs_def of_client_def sub_at_def)
    then show ?thesis
      using 1(1) [OF Some ok] Some by (simp add: unsubscribe_loop.simps [of c b])
  qed
qed

lemma unsubscribe_fold_ok:
  assumes "table_ok b" and "n \<le> length (bk_subs b)"
  shows "let b' = fold (\<lambda>i b. if of_client c (sub_at b i) then remove_slot i b else b) [0..<n] b
    in table_ok b' \<and> bk_cfg_p2p b' = bk_cfg_p2p b \<and> length (bk_subs b') = length (bk_subs b) \<and>
       bare_subs b' = map (drop_client c) (take n (bare_subs b)) @ drop n (bare_subs b)"
  using assms(2)
proof (induction n)
  case 0
  then show ?case using assms(1) by simp
next
  case (Suc n)
  let ?b = "fold (\<lambda>i b. if of_client c (sub_at b i) then remove_slot i b else b) [0..<n] b"
  let ?S = "bare_subs b"
  have n: "n < length (bk_subs b)" "n < length ?S" using Suc.prems by (simp_all add: bare_subs_def)
  have IH: "table_ok ?b" "bk_cfg_p2p ?b = bk_cfg_p2p b" "length (bk_subs ?b) = length (bk_subs b)"
    "bare_subs ?b = map (drop_client c) (take n ?S) @ drop n ?S"
    using Suc.IH n by (simp_all add: Let_def)
  have at: "bare_subs ?b ! n = ?S ! n" using n by (simp add: IH(4) nth_append)
  have oc: "of_client c (sub_at ?b n) = of_client c (?S ! n)"
    using of_client_bare [of c "sub_at ?b n"] sub_bare [of n ?b] n IH(3) by (simp add: at)
  have tk: "take (Suc n) ?S = take n ?S @ [?S ! n]" using n(2) by (rule take_Suc_conv_app_nth)
  show ?case
  proof (cases "of_client c (?S ! n)")
    case True
    have "upd_nth n (\<lambda>e. e\<lparr>sub_in_use := False\<rparr>) (map (drop_client c) (take n ?S) @ drop n ?S)
        = map (drop_client c) (take (Suc n) ?S) @ drop (Suc n) ?S"
      using n(2) True
      by (simp add: upd_nth_def nth_append list_update_append Cons_nth_drop_Suc [symmetric] tk
          drop_client_def of_client_def)
    then have "bare_subs (remove_slot n ?b) = map (drop_client c) (take (Suc n) ?S) @ drop (Suc n) ?S"
      by (simp add: remove_slot_bare IH(4))
    moreover have "table_ok (remove_slot n ?b)"
      using IH n oc True by (intro remove_slot_ok) (simp_all add: of_client_def)
    ultimately show ?thesis using oc True IH by (simp add: Let_def)
  next
    case False
    then have "drop_client c (?S ! n) = ?S ! n" by (auto simp: drop_client_def of_client_def)
    then have "map (drop_client c) (take (Suc n) ?S) @ drop (Suc n) ?S
        = map (drop_client c) (take n ?S) @ drop n ?S"
      using n(2) by (simp add: tk Cons_nth_drop_Suc)
    then show ?thesis using oc False IH by (simp add: Let_def)
  qed
qed

lemma topic_unsubscribe_all_ok:
  assumes "table_ok b" and "adv_ok b"
  shows "table_ok (topic_unsubscribe_all c b) \<and> adv_ok (topic_unsubscribe_all c b) \<and>
    bare_subs (topic_unsubscribe_all c b) = map (drop_client c) (bare_subs b)"
proof (cases "bk_cfg_p2p b")
  case True
  then show ?thesis using unsubscribe_loop_ok [OF assms] by (simp add: topic_unsubscribe_all_def)
next
  case False
  then show ?thesis
    using unsubscribe_fold_ok [OF assms(1) order_refl, of c]
    by (simp add: topic_unsubscribe_all_def adv_ok_def Let_def) (simp add: bare_subs_def)
qed

subsection \<open>The table as a map\<close>

text \<open>The abstract view: the QoS of each client's subscription to each filter.\<close>

definition sub_map :: "broker \<Rightarrow> nat \<times> cstr \<Rightarrow> byte option" where
  "sub_map b k = map_option (\<lambda>i. sub_qos (bk_subs b ! i)) (slot_of sub_in_use sub_key k (bk_subs b))"

lemma sub_map_Some:
  assumes "keys_unique sub_in_use sub_key (bk_subs b)"
  shows "sub_map b k = Some q \<longleftrightarrow> (\<exists>e \<in> set (bare_subs b). sub_in_use e \<and> sub_key e = k \<and> sub_qos e = q)"
proof
  assume "sub_map b k = Some q"
  then obtain i where "i < length (bk_subs b)" "sub_in_use (bk_subs b ! i)" "sub_key (bk_subs b ! i) = k"
    "sub_qos (bk_subs b ! i) = q"
    by (auto simp: sub_map_def slot_of_def dest: find_idx_SomeD)
  then show "\<exists>e \<in> set (bare_subs b). sub_in_use e \<and> sub_key e = k \<and> sub_qos e = q"
    by (intro bexI [of _ "bare (bk_subs b ! i)"]) (simp_all add: bare_subs_def)
next
  assume "\<exists>e \<in> set (bare_subs b). sub_in_use e \<and> sub_key e = k \<and> sub_qos e = q"
  then obtain j where j: "j < length (bk_subs b)" "sub_in_use (bk_subs b ! j)" "sub_key (bk_subs b ! j) = k"
    "sub_qos (bk_subs b ! j) = q"
    by (auto simp: bare_subs_def in_set_conv_nth)
  then obtain i where i: "slot_of sub_in_use sub_key k (bk_subs b) = Some i"
    using find_idx_exI [of j "bk_subs b" "\<lambda>e. sub_in_use e \<and> sub_key e = k"] by (auto simp: slot_of_def)
  then have "i < length (bk_subs b)" "sub_in_use (bk_subs b ! i)" "sub_key (bk_subs b ! i) = k"
    by (auto simp: slot_of_def dest: find_idx_SomeD)
  then have "i = j" using assms j by (auto intro: keys_uniqueD)
  then show "sub_map b k = Some q" using i j by (simp add: sub_map_def)
qed

lemma sub_map_eqI:
  assumes "table_ok b'" and "\<And>k q. (\<exists>e \<in> set (bare_subs b'). sub_in_use e \<and> sub_key e = k \<and> sub_qos e = q) \<longleftrightarrow> m k = Some q"
  shows "sub_map b' = m"
proof
  fix k
  have "sub_map b' k = Some q \<longleftrightarrow> m k = Some q" for q
    using assms sub_map_Some [of b' k q] by (simp add: table_ok_def)
  then show "sub_map b' k = m k" by (cases "m k"; cases "sub_map b' k") auto
qed

lemma sub_map_entry:
  "table_ok b \<Longrightarrow> (\<exists>e \<in> set (bare_subs b). sub_in_use e \<and> sub_key e = k \<and> sub_qos e = q) \<longleftrightarrow> sub_map b k = Some q"
  using sub_map_Some [of b k q] by (simp add: table_ok_def)

lemma in_set_upd_nth:
  assumes "i < length xs"
  shows "e \<in> set (upd_nth i g xs) \<longleftrightarrow> e = g (xs ! i) \<or> (\<exists>j < length xs. j \<noteq> i \<and> e = xs ! j)"
proof
  assume "e \<in> set (upd_nth i g xs)"
  then obtain j where "j < length xs" "e = upd_nth i g xs ! j" by (auto simp: in_set_conv_nth)
  then show "e = g (xs ! i) \<or> (\<exists>j < length xs. j \<noteq> i \<and> e = xs ! j)"
    by (cases "j = i") (auto simp: nth_upd_nth)
next
  assume "e = g (xs ! i) \<or> (\<exists>j < length xs. j \<noteq> i \<and> e = xs ! j)"
  then show "e \<in> set (upd_nth i g xs)"
    using assms nth_mem [of i "upd_nth i g xs"] nth_mem [of _ "upd_nth i g xs"]
    by (auto simp: nth_upd_nth) (metis length_upd_nth nth_mem nth_upd_nth_other)
qed

text \<open>Replacing the entry of a slot whose key, if in use, is \<open>k\<close>.\<close>

lemma sub_map_replace:
  assumes "table_ok b" and "table_ok b'" and "bare_subs b' = upd_nth i g (bare_subs b)"
    and "i < length (bk_subs b)" and "sub_in_use (bare_subs b ! i) \<longrightarrow> sub_key (bare_subs b ! i) = k"
    and "sub_in_use (bare_subs b ! i) \<or> sub_map b k = None"
    and "sub_in_use (g (bare_subs b ! i)) \<longrightarrow> sub_key (g (bare_subs b ! i)) = k"
  shows "sub_map b' = (sub_map b)(k := if sub_in_use (g (bare_subs b ! i)) then Some (sub_qos (g (bare_subs b ! i))) else None)"
proof (rule sub_map_eqI [OF assms(2)])
  fix k' q
  let ?S = "bare_subs b" and ?n = "length (bk_subs b)"
  have len: "length ?S = ?n" by (simp add: bare_subs_def)
  have ku: "keys_unique sub_in_use sub_key ?S" using assms(1) by (simp add: table_ok_def bare_subs_facts)
  have only: "j = i" if "j < ?n" "sub_in_use (?S ! j)" "sub_key (?S ! j) = k" for j
    using assms(6)
  proof
    assume "sub_in_use (?S ! i)"
    then show ?thesis using that assms(4,5) len by (intro keys_uniqueD [OF ku]) simp_all
  next
    assume "sub_map b k = None"
    moreover have "\<exists>e \<in> set ?S. sub_in_use e \<and> sub_key e = k \<and> sub_qos e = sub_qos (?S ! j)"
      using that len by (intro bexI [of _ "?S ! j"]) auto
    ultimately show ?thesis using sub_map_entry [OF assms(1), of k] by simp
  qed
  have ex: "(\<exists>e \<in> set (bare_subs b'). sub_in_use e \<and> sub_key e = k' \<and> sub_qos e = q) \<longleftrightarrow>
      (sub_in_use (g (?S ! i)) \<and> sub_key (g (?S ! i)) = k' \<and> sub_qos (g (?S ! i)) = q) \<or>
      (\<exists>j < ?n. j \<noteq> i \<and> sub_in_use (?S ! j) \<and> sub_key (?S ! j) = k' \<and> sub_qos (?S ! j) = q)"
    unfolding assms(3) Bex_def in_set_upd_nth [OF assms(4) [folded len]] len by blast
  show "(\<exists>e \<in> set (bare_subs b'). sub_in_use e \<and> sub_key e = k' \<and> sub_qos e = q) \<longleftrightarrow>
      ((sub_map b)(k := if sub_in_use (g (?S ! i)) then Some (sub_qos (g (?S ! i))) else None)) k' = Some q"
  proof (cases "k' = k")
    case True
    then show ?thesis unfolding ex using only assms(7) by auto
  next
    case False
    have "sub_map b k' = Some q \<longleftrightarrow> (\<exists>j < ?n. j \<noteq> i \<and> sub_in_use (?S ! j) \<and> sub_key (?S ! j) = k' \<and> sub_qos (?S ! j) = q)"
      using sub_map_entry [OF assms(1), of k' q] assms(5) False by (auto simp: set_conv_nth len)
    then show ?thesis unfolding ex using False assms(7) by auto
  qed
qed

lemma subscribe_map:
  assumes "table_ok b" and "adv_ok b" and "filter_ok f" and "topic_filter_valid f" and "qos \<le> 2"
    and "c < length (bk_clients b)"
  shows "sub_map (snd (topic_subscribe c f qos b)) =
      (if fst (topic_subscribe c f qos b) then (sub_map b)((c, f) \<mapsto> qos) else sub_map b)"
    and "\<not> fst (topic_subscribe c f qos b) \<longleftrightarrow>
      sub_map b (c, f) = None \<and> used_count sub_in_use (bk_subs b) = length (bk_subs b)"
    and "\<not> fst (topic_subscribe c f qos b) \<Longrightarrow> snd (topic_subscribe c f qos b) = b"
proof -
  let ?r = "topic_subscribe c f qos b"
  have none: "sub_map b (c, f) = None \<longleftrightarrow> own_slot b c f = None"
    by (auto simp: sub_map_def slot_of_def own_slot_None find_idx_None owns_def sub_key_def)
  have full: "used_count sub_in_use es = length es \<longleftrightarrow> free_slot sub_in_use es = None" for es
    by (auto simp: used_count_def free_slot_def find_idx_None filter_id_conv)
       (metis filter_id_conv length_filter_less nat_neq_iff)+
  have "sub_map (snd ?r) = (if fst ?r then (sub_map b)((c, f) \<mapsto> qos) else sub_map b) \<and>
     (\<not> fst ?r \<longleftrightarrow> sub_map b (c, f) = None \<and> used_count sub_in_use (bk_subs b) = length (bk_subs b)) \<and>
     (\<not> fst ?r \<longrightarrow> snd ?r = b)"
  proof (cases "own_slot b c f")
    case (Some i)
    have i: "i < length (bk_subs b)" "owns c f (bare_subs b ! i)"
      using own_slot_Some [OF Some] by (simp_all add: sub_bare)
    note up = subscribe_update [OF assms(1,2) Some assms(5)]
    have t: "table_ok (snd ?r)"
      and bs: "bare_subs (snd ?r) = upd_nth i (\<lambda>e. e\<lparr>sub_qos := qos\<rparr>) (bare_subs b)"
      using up by blast+
    have "sub_map (snd ?r) = (sub_map b)((c, f) := Some qos)"
      using sub_map_replace [OF assms(1) t bs i(1), of "(c, f)"] i(2) by (simp add: owns_def sub_key_def)
    then show ?thesis using up none Some by simp
  next
    case own: None
    show ?thesis
    proof (cases "free_slot sub_in_use (bk_subs b)")
      case None
      then show ?thesis
        using own none full [of "bk_subs b"] by (simp add: topic_subscribe_eq split: prod.split)
    next
      case (Some i)
      have i: "i < length (bk_subs b)" "\<not> sub_in_use (bare_subs b ! i)"
        using Some find_idx_SomeD [of "\<lambda>e. \<not> sub_in_use e" "bk_subs b" i]
        by (auto simp: free_slot_def bare_subs_def)
      note ins = subscribe_insert [OF assms(1,2) own Some assms(3-6)]
      have t: "table_ok (snd ?r)"
        and bs: "bare_subs (snd ?r) = upd_nth i (\<lambda>_. bare (fill_entry c f qos zero_sub)) (bare_subs b)"
        using ins by blast+
      have "sub_map (snd ?r) = (sub_map b)((c, f) := Some qos)"
        using sub_map_replace [OF assms(1) t bs i(1), of "(c, f)"] i(2) assms(3) own none
        by (simp add: sub_key_def fill_entry_def filter_ok_def)
      then show ?thesis using ins own none full [of "bk_subs b"] Some by simp
    qed
  qed
  then show "sub_map (snd ?r) = (if fst ?r then (sub_map b)((c, f) \<mapsto> qos) else sub_map b)"
    and "\<not> fst ?r \<longleftrightarrow> sub_map b (c, f) = None \<and> used_count sub_in_use (bk_subs b) = length (bk_subs b)"
    and "\<not> fst ?r \<Longrightarrow> snd ?r = b" by blast+
qed

lemma unsubscribe_map:
  assumes "table_ok b" and "adv_ok b"
  shows "sub_map (topic_unsubscribe c f b) = (sub_map b)((c, f) := None)"
proof (cases "own_slot b c f")
  case None
  then have "sub_map b (c, f) = None"
    by (auto simp: sub_map_def slot_of_def own_slot_None find_idx_None owns_def sub_key_def)
  then show ?thesis using None by (simp add: topic_unsubscribe_eq fun_upd_idem split: prod.split)
next
  case (Some i)
  have i: "i < length (bk_subs b)" "owns c f (bare_subs b ! i)"
    using own_slot_Some [OF Some] by (simp_all add: sub_bare)
  note rm = unsubscribe_remove [OF assms Some]
  have t: "table_ok (topic_unsubscribe c f b)"
    and bs: "bare_subs (topic_unsubscribe c f b) = upd_nth i (\<lambda>e. e\<lparr>sub_in_use := False\<rparr>) (bare_subs b)"
    using rm by blast+
  show ?thesis
    using sub_map_replace [OF assms(1) t bs i(1), of "(c, f)"] i(2) by (simp add: owns_def sub_key_def)
qed

lemma unsubscribe_all_map:
  assumes "table_ok b" and "adv_ok b"
  shows "sub_map (topic_unsubscribe_all c b) = (\<lambda>(d, f). if d = c then None else sub_map b (d, f))"
proof (rule sub_map_eqI)
  note ok = topic_unsubscribe_all_ok [OF assms, of c]
  show "table_ok (topic_unsubscribe_all c b)" using ok by blast
  fix k q
  have "(\<exists>e \<in> set (map (drop_client c) (bare_subs b)). sub_in_use e \<and> sub_key e = k \<and> sub_qos e = q) \<longleftrightarrow>
      fst k \<noteq> c \<and> (\<exists>e \<in> set (bare_subs b). sub_in_use e \<and> sub_key e = k \<and> sub_qos e = q)"
    by (auto simp: drop_client_def sub_key_def) metis?
  then show "(\<exists>e \<in> set (bare_subs (topic_unsubscribe_all c b)). sub_in_use e \<and> sub_key e = k \<and> sub_qos e = q) \<longleftrightarrow>
      (case k of (d, f) \<Rightarrow> if d = c then None else sub_map b (d, f)) = Some q"
    using ok sub_map_entry [OF assms(1), of k q] by (cases k) auto
qed

subsection \<open>The interface of the table\<close>

text \<open>
  What the handlers rely on: storing either adds the pair or, when the table is full, changes
  nothing; storing a list of subscriptions (a SUBSCRIBE packet, a restored session) never
  loses another one.
\<close>

locale sub_store =
  fixes inv :: "'s \<Rightarrow> bool"
    and good :: "'s \<Rightarrow> 'k \<Rightarrow> 'v \<Rightarrow> bool"
    and put :: "'k \<Rightarrow> 'v \<Rightarrow> 's \<Rightarrow> bool \<times> 's"
    and del :: "'k \<Rightarrow> 's \<Rightarrow> 's"
    and look :: "'s \<Rightarrow> 'k \<Rightarrow> 'v option"
  assumes put_inv: "inv s \<Longrightarrow> good s k v \<Longrightarrow> inv (snd (put k v s))"
    and put_good: "inv s \<Longrightarrow> good s k v \<Longrightarrow> good s k' v' \<Longrightarrow> good (snd (put k v s)) k' v'"
    and put_look: "inv s \<Longrightarrow> good s k v \<Longrightarrow>
          look (snd (put k v s)) = (if fst (put k v s) then (look s)(k \<mapsto> v) else look s)"
    and put_hit: "inv s \<Longrightarrow> good s k v \<Longrightarrow> look s k \<noteq> None \<Longrightarrow> fst (put k v s)"
    and del_inv: "inv s \<Longrightarrow> inv (del k s)"
    and del_look: "inv s \<Longrightarrow> look (del k s) = (look s)(k := None)"
begin

definition put_all :: "('k \<times> 'v) list \<Rightarrow> 's \<Rightarrow> 's" where
  "put_all kvs s = fold (\<lambda>(k, v) s. snd (put k v s)) kvs s"

lemma put_goods:
  "inv s \<Longrightarrow> good s k v \<Longrightarrow> \<forall>(k, v) \<in> set kvs. good s k v \<Longrightarrow> \<forall>(k', v') \<in> set kvs. good (snd (put k v s)) k' v'"
  using put_good by blast

lemma put_all_inv:
  "inv s \<Longrightarrow> \<forall>(k, v) \<in> set kvs. good s k v \<Longrightarrow> inv (put_all kvs s)"
proof (induction kvs arbitrary: s)
  case (Cons kv kvs)
  obtain k v where kv: "kv = (k, v)" by force
  have g: "good s k v" "\<forall>(k, v) \<in> set kvs. good s k v" using Cons.prems(2) kv by auto
  from Cons.IH [OF put_inv [OF Cons.prems(1) g(1)] put_goods [OF Cons.prems(1) g]] show ?case
    by (simp add: put_all_def kv)
qed (simp add: put_all_def)

lemma put_all_other:
  "inv s \<Longrightarrow> \<forall>(k, v) \<in> set kvs. good s k v \<Longrightarrow> k \<notin> fst ` set kvs \<Longrightarrow> look (put_all kvs s) k = look s k"
proof (induction kvs arbitrary: s)
  case (Cons kv kvs)
  obtain k' v' where kv: "kv = (k', v')" by force
  have g: "good s k' v'" using Cons.prems(2) kv by simp
  have "look (put_all kvs (snd (put k' v' s))) k = look (snd (put k' v' s)) k"
    using Cons.prems g kv by (intro Cons.IH) (auto simp: put_inv put_good)
  also have "\<dots> = look s k" using put_look [OF Cons.prems(1) g] Cons.prems(3) kv by auto
  finally show ?case by (simp add: put_all_def kv)
qed (simp add: put_all_def)

lemma put_all_keeps:
  "inv s \<Longrightarrow> \<forall>(k, v) \<in> set kvs. good s k v \<Longrightarrow> look s k \<noteq> None \<Longrightarrow> look (put_all kvs s) k \<noteq> None"
proof (induction kvs arbitrary: s)
  case (Cons kv kvs)
  obtain k' v' where kv: "kv = (k', v')" by force
  have g: "good s k' v'" using Cons.prems(2) kv by simp
  have "look (snd (put k' v' s)) k \<noteq> None"
    using put_look [OF Cons.prems(1) g] Cons.prems(3) by auto
  then have "look (put_all kvs (snd (put k' v' s))) k \<noteq> None"
    using Cons.prems g kv by (intro Cons.IH) (auto simp: put_inv put_good)
  then show ?case by (simp add: put_all_def kv)
qed (simp add: put_all_def)

lemma put_all_hits:
  "inv s \<Longrightarrow> \<forall>(k, v) \<in> set kvs. good s k v \<Longrightarrow> \<forall>k \<in> fst ` set kvs. look s k \<noteq> None \<Longrightarrow>
   look (put_all kvs s) = look s ++ map_of (rev kvs)"
proof (induction kvs arbitrary: s)
  case (Cons kv kvs)
  obtain k v where kv: "kv = (k, v)" by force
  have g: "good s k v" using Cons.prems(2) kv by simp
  have l: "look (snd (put k v s)) = (look s)(k \<mapsto> v)"
    using put_look [OF Cons.prems(1) g] put_hit [OF Cons.prems(1) g] Cons.prems(3) kv by simp
  have "look (put_all kvs (snd (put k v s))) = look (snd (put k v s)) ++ map_of (rev kvs)"
    using Cons.prems g kv l by (intro Cons.IH) (auto simp: put_inv put_good)
  then show ?case by (simp add: put_all_def kv l map_add_upd_left)
qed (simp add: put_all_def)

lemma del_all_look:
  "inv s \<Longrightarrow> look (fold del ks s) = (\<lambda>k. if k \<in> set ks then None else look s k)"
  by (induction ks arbitrary: s) (auto simp: del_inv del_look fun_eq_iff)

end

definition table_inv :: "broker \<Rightarrow> bool" where
  "table_inv b \<longleftrightarrow> table_ok b \<and> adv_ok b"

definition sub_good :: "broker \<Rightarrow> nat \<times> cstr \<Rightarrow> byte \<Rightarrow> bool" where
  "sub_good b k q \<longleftrightarrow> filter_ok (snd k) \<and> topic_filter_valid (snd k) \<and> q \<le> 2 \<and> fst k < length (bk_clients b)"

lemma topic_subscribe_frame [simp]:
  "bk_cfg_p2p (snd (topic_subscribe c f q b)) = bk_cfg_p2p b"
  "bk_cfg_auth (snd (topic_subscribe c f q b)) = bk_cfg_auth b"
  "bk_clients (snd (topic_subscribe c f q b)) = bk_clients b"
  "bk_threads (snd (topic_subscribe c f q b)) = bk_threads b"
  "bk_retains (snd (topic_subscribe c f q b)) = bk_retains b"
  "bk_sessions (snd (topic_subscribe c f q b)) = bk_sessions b"
  "bk_calloc_ok (snd (topic_subscribe c f q b)) = bk_calloc_ok b"
  "bk_socks (snd (topic_subscribe c f q b)) = bk_socks b"
  "bk_now (snd (topic_subscribe c f q b)) = bk_now b"
  "bk_activity (snd (topic_subscribe c f q b)) = bk_activity b"
  "length (bk_subs (snd (topic_subscribe c f q b))) = length (bk_subs b)"
  by (simp_all add: topic_subscribe_eq exact_list_insert_locked_def wildcard_list_insert_locked_def Let_def
      split: prod.split option.split)

lemma topic_unsubscribe_frame [simp]:
  "bk_cfg_p2p (topic_unsubscribe c f b) = bk_cfg_p2p b"
  "bk_cfg_auth (topic_unsubscribe c f b) = bk_cfg_auth b"
  "bk_clients (topic_unsubscribe c f b) = bk_clients b"
  "bk_threads (topic_unsubscribe c f b) = bk_threads b"
  "bk_retains (topic_unsubscribe c f b) = bk_retains b"
  "bk_sessions (topic_unsubscribe c f b) = bk_sessions b"
  "bk_calloc_ok (topic_unsubscribe c f b) = bk_calloc_ok b"
  "bk_socks (topic_unsubscribe c f b) = bk_socks b"
  "bk_now (topic_unsubscribe c f b) = bk_now b"
  "bk_activity (topic_unsubscribe c f b) = bk_activity b"
  "length (bk_subs (topic_unsubscribe c f b)) = length (bk_subs b)"
  by (simp_all add: topic_unsubscribe_eq Let_def split: prod.split option.split)

interpretation st: sub_store table_inv sub_good "\<lambda>(c, f) q. topic_subscribe c f q"
    "\<lambda>(c, f). topic_unsubscribe c f" sub_map
proof (unfold_locales, goal_cases)
  case (1 s k v)
  then show ?case by (cases k) (simp add: table_inv_def sub_good_def topic_subscribe_ok)
next
  case (2 s k v k' v')
  then show ?case by (cases k) (simp add: sub_good_def)
next
  case (3 s k v)
  then show ?case by (cases k) (simp add: table_inv_def sub_good_def subscribe_map(1))
next
  case (4 s k v)
  obtain c f where k: "k = (c, f)" by force
  then have "table_ok s" "adv_ok s" "filter_ok f" "topic_filter_valid f" "v \<le> 2" "c < length (bk_clients s)"
    using 4(1,2) by (simp_all add: table_inv_def sub_good_def)
  from subscribe_map(2) [OF this] show ?case using 4(3) k by auto
next
  case (5 s k)
  then show ?case by (cases k) (simp add: table_inv_def topic_unsubscribe_ok)
next
  case (6 s k)
  then show ?case by (cases k) (simp add: table_inv_def unsubscribe_map)
qed

subsection \<open>Paging\<close>

lemma snapshots_loop_pages:
  assumes "snapshots_loop b m i i out = (out', cur)" and "i \<le> length (bk_subs b)"
  shows "out' @ map (snapshot_of b) (filter sub_in_use (drop cur (bk_subs b)))
      = out @ map (snapshot_of b) (filter sub_in_use (drop i (bk_subs b))) \<and>
    i \<le> cur \<and> cur \<le> length (bk_subs b) \<and>
    (i < length (bk_subs b) \<longrightarrow> length out < m \<longrightarrow> i < cur) \<and>
    (length out \<le> m \<longrightarrow> length out' \<le> m)"
  using assms
proof (induction "length (bk_subs b) - i" arbitrary: i out)
  case 0
  then show ?case by (simp add: snapshots_loop.simps)
next
  case (Suc n)
  let ?e = "sub_at b i" and ?out = "if sub_in_use (sub_at b i) then out @ [snapshot_of b (sub_at b i)] else out"
  have i: "i < length (bk_subs b)" using Suc.hyps(2) by simp
  show ?case
  proof (cases "length out < m")
    case True
    then have "snapshots_loop b m (Suc i) (Suc i) ?out = (out', cur)"
      using Suc.prems(1) i by (simp add: snapshots_loop.simps [of b m i])
    moreover have "n = length (bk_subs b) - Suc i" using Suc.hyps(2) by simp
    ultimately have "out' @ map (snapshot_of b) (filter sub_in_use (drop cur (bk_subs b)))
      = ?out @ map (snapshot_of b) (filter sub_in_use (drop (Suc i) (bk_subs b))) \<and>
      Suc i \<le> cur \<and> cur \<le> length (bk_subs b) \<and> (length ?out \<le> m \<longrightarrow> length out' \<le> m)"
      using Suc.hyps(1) i by simp
    then show ?thesis
      using i True by (auto simp: Cons_nth_drop_Suc [symmetric] sub_at_def)
  next
    case False
    then show ?thesis
      using Suc.prems(1) i by (simp add: snapshots_loop.simps [of b m i])
  qed
qed

lemma snapshots_short:
  "snapshots_loop b m i i out = (out', cur) \<Longrightarrow> length out' < m \<Longrightarrow> i \<le> length (bk_subs b) \<Longrightarrow> cur = length (bk_subs b)"
proof (induction "length (bk_subs b) - i" arbitrary: i out)
  case 0
  then show ?case by (simp add: snapshots_loop.simps [of b m i])
next
  case (Suc d)
  then have i: "i < length (bk_subs b)" by simp
  show ?case
  proof (cases "length out < m")
    case True
    then show ?thesis
      using Suc.hyps(1) [of "Suc i"] Suc.hyps(2) Suc.prems i by (simp add: snapshots_loop.simps [of b m i] split: if_splits)
  next
    case False
    then show ?thesis using Suc.prems by (simp add: snapshots_loop.simps [of b m i])
  qed
qed

lemma snapshots_all: "topic_get_sub_snapshots b (length (bk_subs b)) = map (snapshot_of b) (filter sub_in_use (bk_subs b))"
proof -
  obtain page cur where p: "snapshots_loop b (length (bk_subs b)) 0 0 [] = (page, cur)" by force
  note f = snapshots_loop_pages [OF p] and short = snapshots_short [OF p]
  have eq: "page @ map (snapshot_of b) (filter sub_in_use (drop cur (bk_subs b))) = map (snapshot_of b) (filter sub_in_use (bk_subs b))"
    using f by simp
  have "filter sub_in_use (drop cur (bk_subs b)) = []"
  proof (cases "length page < length (bk_subs b)")
    case False
    have "length page + length (filter sub_in_use (drop cur (bk_subs b))) = length (filter sub_in_use (bk_subs b))"
      using arg_cong [OF eq, of length] by simp
    then have "length (filter sub_in_use (drop cur (bk_subs b))) = 0"
      using False length_filter_le [of sub_in_use "bk_subs b"] by linarith
    then show ?thesis by simp
  qed (use short in simp)
  then show ?thesis using eq p by (simp add: topic_get_sub_snapshots_def topic_get_sub_snapshots_from_def)
qed

subsection \<open>The initial table\<close>

lemma topic_init_ok: "bk_p2p b = [] \<Longrightarrow> table_inv (topic_init b)"
proof -
  assume ev: "bk_p2p b = []"
  have at: "sub_at (topic_init b) i = zero_sub" if "i < length (bk_subs b)" for i
    using that by (simp add: sub_at_def topic_init_def)
  have "exact_slots (topic_init b) k = {}" "wildcard_slots (topic_init b) = {}" for k
    by (auto simp: exact_slots_def wildcard_slots_def at topic_init_def zero_sub_def sub_at_def)
  then have "index_ok (topic_init b)"
    by (simp add: index_ok_def topic_init_def)
  moreover have "keys_unique sub_in_use sub_key (bk_subs (topic_init b))"
    by (simp add: keys_unique_def topic_init_def zero_sub_def)
  moreover have "\<forall>e \<in> set (bk_subs (topic_init b)). sub_ok (topic_init b) e"
    by (simp add: topic_init_def sub_ok_def zero_sub_def)
  moreover have "wanted (topic_init b) f = None" for f
    by (simp add: wanted_None bare_subs_def topic_init_def about_def zero_sub_def)
  then have "adv_ok (topic_init b)"
    using ev by (simp add: adv_ok_def advertised_def fun_eq_iff) (simp add: topic_init_def)
  ultimately show ?thesis by (simp add: table_inv_def table_ok_def)
qed

lemma sub_map_init: "sub_map (topic_init b) = Map.empty"
  by (auto simp: sub_map_def slot_of_def find_idx_None topic_init_def zero_sub_def fun_eq_iff
      split: option.splits)

subsection \<open>Announcements after the lock is released\<close>

text \<open>
  Several threads change the table, each change under the lock; a thread tells the peers only after it
  has released it, and others can act in between. \<open>pend t\<close> is the announcement that thread \<open>t\<close> still
  owes. The relation has one step per locked region and one per announcement.
\<close>

inductive table_step :: "broker \<times> (nat \<Rightarrow> p2p_event option) \<Rightarrow> broker \<times> (nat \<Rightarrow> p2p_event option) \<Rightarrow> bool" where
  subscribe: "pend t = None \<Longrightarrow> filter_ok f \<Longrightarrow> topic_filter_valid f \<Longrightarrow> q \<le> 2 \<Longrightarrow> c < length (bk_clients b) \<Longrightarrow>
    topic_subscribe_locked c f q b = (ok, ev, b') \<Longrightarrow> table_step (b, pend) (b', pend(t := ev))"
| unsubscribe: "pend t = None \<Longrightarrow> topic_unsubscribe_locked c f b = (ev, b') \<Longrightarrow> table_step (b, pend) (b', pend(t := ev))"
| leave: "pend t = None \<Longrightarrow> find_idx (of_client c) (bk_subs b) = Some i \<Longrightarrow> unsubscribe_first_locked i b = (ev, b') \<Longrightarrow>
    table_step (b, pend) (b', pend(t := ev))"
| tell: "pend t = Some e \<Longrightarrow> table_step (b, pend) (p2p_emit e b, pend(t := None))"

inductive_cases table_stepE: "table_step s s'"

fun event_filter :: "p2p_event \<Rightarrow> cstr option" where
  "event_filter (P2PSubscribe f q) = Some f"
| "event_filter (P2PUnsubscribe f) = Some f"
| "event_filter (P2PPublish p) = None"

definition owed :: "(nat \<Rightarrow> p2p_event option) \<Rightarrow> cstr \<Rightarrow> nat \<Rightarrow> bool" where
  "owed pend f t \<longleftrightarrow> (\<exists>e. pend t = Some e \<and> event_filter e = Some f)"

text \<open>A step that keeps the announcements of \<open>f\<close> in order: it adds one only when none is owed.\<close>

definition in_turn :: "cstr \<Rightarrow> broker \<times> (nat \<Rightarrow> p2p_event option) \<Rightarrow> broker \<times> (nat \<Rightarrow> p2p_event option) \<Rightarrow> bool" where
  "in_turn f s s' \<longleftrightarrow> table_step s s' \<and> ((\<exists>t. owed (snd s) f t) \<longrightarrow> (\<forall>t. owed (snd s') f t \<longrightarrow> owed (snd s) f t))"

text \<open>Within the locked regions, what the peers were told before plays no part.\<close>

definition with_told :: "p2p_event list \<Rightarrow> broker \<Rightarrow> broker" where
  "with_told es b = b\<lparr>bk_p2p := es\<rparr>"

lemma with_told_table [simp]:
  "bk_subs (with_told es b) = bk_subs b" "bk_cfg_p2p (with_told es b) = bk_cfg_p2p b"
  "bk_clients (with_told es b) = bk_clients b" "bk_exact_heads (with_told es b) = bk_exact_heads b"
  "bk_wildcard_head (with_told es b) = bk_wildcard_head b" "bk_p2p (with_told es b) = es"
  "sub_at (with_told es b) i = sub_at b i" "own_slot (with_told es b) c f = own_slot b c f"
  "wanted (with_told es b) = wanted b" "table_ok (with_told es b) = table_ok b"
  "topic_bucket (with_told es b) s = topic_bucket b s"
  "exact_next (with_told es b) = exact_next b" "wildcard_next (with_told es b) = wildcard_next b"
  by (simp_all add: with_told_def sub_at_def own_slot_def wanted_def fun_eq_iff topic_bucket_def exact_next_def
      wildcard_next_def table_ok_cong [of "b\<lparr>bk_p2p := es\<rparr>" b])

lemma with_told_upd: "upd_sub i f (with_told es b) = with_told es (upd_sub i f b)"
  by (simp add: with_told_def upd_sub_def)

lemma with_told_lists:
  "exact_list_insert_locked i (with_told es b) = with_told es (exact_list_insert_locked i b)"
  "wildcard_list_insert_locked i (with_told es b) = with_told es (wildcard_list_insert_locked i b)"
  by (simp_all add: exact_list_insert_locked_def wildcard_list_insert_locked_def with_told_upd Let_def)
    (simp_all add: with_told_def)

lemma with_told_remove: "remove_slot i (with_told es b) = with_told es (remove_slot i b)"
proof -
  have "exact_list_remove_locked i (with_told es b) = with_told es (exact_list_remove_locked i b)"
    by (simp add: exact_list_remove_locked_def with_told_upd Let_def split: option.split link.split)
      (simp add: with_told_def)
  moreover have "wildcard_list_remove_locked i (with_told es b) = with_told es (wildcard_list_remove_locked i b)"
    by (simp add: wildcard_list_remove_locked_def with_told_upd Let_def split: option.split link.split)
      (simp add: with_told_def)
  ultimately show ?thesis by (simp add: remove_slot_def with_told_upd)
qed

lemma with_told_locked:
  "topic_subscribe_locked c f q (with_told es b) = (let (ok, ev, b') = topic_subscribe_locked c f q b in (ok, ev, with_told es b'))"
  "topic_unsubscribe_locked c f (with_told es b) = (let (ev, b') = topic_unsubscribe_locked c f b in (ev, with_told es b'))"
  "unsubscribe_first_locked i (with_told es b) = (let (ev, b') = unsubscribe_first_locked i b in (ev, with_told es b'))"
  by (simp_all add: topic_subscribe_locked_def topic_unsubscribe_locked_def unsubscribe_first_locked_def notice_def
      with_told_upd with_told_lists with_told_remove Let_def split: prod.split option.split)

lemma with_told_same: "with_told (bk_p2p b) b = b" "with_told es b' = b' \<Longrightarrow> bk_p2p b' = es"
proof -
  show "with_told (bk_p2p b) b = b" by (simp add: with_told_def)
  show "bk_p2p b' = es" if "with_told es b' = b'" using with_told_table(6) [of es b'] that by simp
qed

lemma locked_p2p:
  "topic_subscribe_locked c f q b = (ok, ev, b') \<Longrightarrow> bk_p2p b' = bk_p2p b"
  "topic_unsubscribe_locked c f b = (ev, b') \<Longrightarrow> bk_p2p b' = bk_p2p b"
  "unsubscribe_first_locked i b = (ev, b') \<Longrightarrow> bk_p2p b' = bk_p2p b"
proof -
  note same = with_told_locked [where es = "bk_p2p b" and b = b, unfolded with_told_same(1)]
  show "bk_p2p b' = bk_p2p b" if "topic_subscribe_locked c f q b = (ok, ev, b')"
    using same(1) [of c f q] with_told_same(2) [of "bk_p2p b" b'] by (simp add: that)
  show "bk_p2p b' = bk_p2p b" if "topic_unsubscribe_locked c f b = (ev, b')"
    using same(2) [of c f] with_told_same(2) [of "bk_p2p b" b'] by (simp add: that)
  show "bk_p2p b' = bk_p2p b" if "unsubscribe_first_locked i b = (ev, b')"
    using same(3) [of i] with_told_same(2) [of "bk_p2p b" b'] by (simp add: that)
qed

lemma fold_advertise:
  "fold advertise (map (\<lambda>g. P2PSubscribe g (the (w g))) gs) m = (\<lambda>g. if g \<in> set gs then Some (the (w g)) else m g)"
  by (induction gs arbitrary: m) (auto simp: fun_eq_iff)

lemma told_exists: "\<exists>es. fold advertise es (\<lambda>_. None) = wanted b"
proof -
  let ?gs = "map sub_filter (filter sub_in_use (bk_subs b))"
  have "wanted b g = None \<longleftrightarrow> g \<notin> set ?gs" for g
    by (auto simp: wanted_None bare_subs_def about_def)
  then have "fold advertise (map (\<lambda>g. P2PSubscribe g (the (wanted b g))) ?gs) (\<lambda>_. None) = wanted b"
    unfolding fold_advertise by (intro ext) (simp, metis option.collapse)
  then show ?thesis by blast
qed

definition announce :: "p2p_event option \<Rightarrow> (cstr \<Rightarrow> byte option) \<Rightarrow> cstr \<Rightarrow> byte option" where
  "announce ev m = (case ev of None \<Rightarrow> m | Some e \<Rightarrow> advertise e m)"

lemma tell_peers_facts [simp]:
  "advertised (tell_peers ev b) = announce ev (advertised b)" "wanted (tell_peers ev b) = wanted b"
  "table_ok (tell_peers ev b) = table_ok b" "bk_cfg_p2p (tell_peers ev b) = bk_cfg_p2p b"
  by (auto simp: tell_peers_def announce_def wanted_def fun_eq_iff split: option.split)

lemma locked_announces:
  assumes "table_ok b" and "bk_cfg_p2p b" and "\<And>es. fold advertise es (\<lambda>_. None) = wanted b \<Longrightarrow>
      table_ok (tell_peers ev (with_told es b')) \<and> adv_ok (tell_peers ev (with_told es b')) \<and> bk_cfg_p2p b'"
  shows "table_ok b' \<and> bk_cfg_p2p b' \<and> wanted b' = announce ev (wanted b)"
proof -
  obtain es where es: "fold advertise es (\<lambda>_. None) = wanted b" using told_exists by blast
  then show ?thesis using assms(3) [OF es] by (simp add: adv_ok_def) (simp add: advertised_def)
qed

lemma locked_cfg:
  "topic_subscribe_locked c f q b = (ok, ev, b') \<Longrightarrow> bk_cfg_p2p b' = bk_cfg_p2p b"
  "topic_unsubscribe_locked c f b = (ev, b') \<Longrightarrow> bk_cfg_p2p b' = bk_cfg_p2p b"
  "unsubscribe_first_locked i b = (ev, b') \<Longrightarrow> bk_cfg_p2p b' = bk_cfg_p2p b"
  by (auto simp: topic_subscribe_locked_def topic_unsubscribe_locked_def unsubscribe_first_locked_def Let_def
      exact_list_insert_locked_def wildcard_list_insert_locked_def split: prod.splits option.splits if_splits)

lemma table_step_locked:
  assumes "table_step (b, pend) (b', pend')" and "table_ok b" and "bk_cfg_p2p b"
  obtains (change) t ev where "pend t = None" "pend' = pend(t := ev)" "table_ok b'" "bk_cfg_p2p b'"
      "wanted b' = announce ev (wanted b)" "advertised b' = advertised b"
    | (told) t e where "pend t = Some e" "pend' = pend(t := None)" "b' = p2p_emit e b"
  using assms(1)
proof (cases rule: table_step.cases)
  case (subscribe t f q c ok ev)
  have "table_ok b' \<and> bk_cfg_p2p b' \<and> wanted b' = announce ev (wanted b)"
  proof (rule locked_announces [OF assms(2,3)])
    fix es assume "fold advertise es (\<lambda>_. None) = wanted b"
    then have "adv_ok (with_told es b)" by (simp add: adv_ok_def advertised_def)
    from topic_subscribe_ok [OF _ this subscribe(3,4,5), of c] show "table_ok (tell_peers ev (with_told es b')) \<and>
        adv_ok (tell_peers ev (with_told es b')) \<and> bk_cfg_p2p b'"
      using subscribe assms(2,3) locked_cfg(1) [OF subscribe(7)]
      by (simp add: topic_subscribe_def with_told_locked)
  qed
  then show ?thesis using change subscribe locked_p2p(1) [OF subscribe(7)] by (simp add: advertised_def)
next
  case (unsubscribe t c f ev)
  have "table_ok b' \<and> bk_cfg_p2p b' \<and> wanted b' = announce ev (wanted b)"
  proof (rule locked_announces [OF assms(2,3)])
    fix es assume "fold advertise es (\<lambda>_. None) = wanted b"
    then have "adv_ok (with_told es b)" by (simp add: adv_ok_def advertised_def)
    from topic_unsubscribe_ok [OF _ this, of c f] show "table_ok (tell_peers ev (with_told es b')) \<and>
        adv_ok (tell_peers ev (with_told es b')) \<and> bk_cfg_p2p b'"
      using unsubscribe assms(2,3) locked_cfg(2) [OF unsubscribe(3)]
      by (simp add: topic_unsubscribe_def with_told_locked)
  qed
  then show ?thesis using change unsubscribe locked_p2p(2) [OF unsubscribe(3)] by (simp add: advertised_def)
next
  case (leave t c i ev)
  have i: "i < length (bk_subs b)" "sub_in_use (sub_at b i)"
    using leave(3) by (simp_all add: find_idx_Some sub_at_def of_client_def)
  have "table_ok b' \<and> bk_cfg_p2p b' \<and> wanted b' = announce ev (wanted b)"
  proof (rule locked_announces [OF assms(2,3)])
    fix es assume "fold advertise es (\<lambda>_. None) = wanted b"
    then have "adv_ok (with_told es b)" by (simp add: adv_ok_def advertised_def)
    from unsubscribe_first_ok [OF _ this, of i] show "table_ok (tell_peers ev (with_told es b')) \<and>
        adv_ok (tell_peers ev (with_told es b')) \<and> bk_cfg_p2p b'"
      using leave assms(2,3) i locked_cfg(3) [OF leave(4)]
      by (simp add: unsubscribe_first_def with_told_locked)
  qed
  then show ?thesis using change leave locked_p2p(3) [OF leave(4)] by (simp add: advertised_def)
next
  case (tell t e)
  then show ?thesis using told by simp
qed

text \<open>What a step keeps: the table is well formed, and the one who owes an announcement of \<open>f\<close> owes the right one.\<close>

definition owed_ok :: "cstr \<Rightarrow> broker \<times> (nat \<Rightarrow> p2p_event option) \<Rightarrow> bool" where
  "owed_ok f s \<longleftrightarrow> (case s of (b, pend) \<Rightarrow>
     (\<forall>t u. owed pend f t \<longrightarrow> owed pend f u \<longrightarrow> t = u) \<and>
     (\<forall>t e. pend t = Some e \<longrightarrow> event_filter e = Some f \<longrightarrow> advertise e (advertised b) f = wanted b f) \<and>
     ((\<forall>t. \<not> owed pend f t) \<longrightarrow> advertised b f = wanted b f))"

lemma advertise_other: "event_filter e \<noteq> Some f \<Longrightarrow> advertise e m f = m f"
  by (cases e) auto

lemma advertise_own: "event_filter e = Some f \<Longrightarrow> advertise e m f = advertise e m' f"
  by (cases e) auto

lemma in_turn_ok:
  assumes "in_turn f (b, pend) (b', pend')" and "table_ok b" and "bk_cfg_p2p b" and "owed_ok f (b, pend)"
  shows "table_ok b' \<and> bk_cfg_p2p b' \<and> owed_ok f (b', pend')"
proof -
  have st: "table_step (b, pend) (b', pend')"
    and turn: "\<And>u t. owed pend f u \<Longrightarrow> owed pend' f t \<Longrightarrow> owed pend f t"
    using assms(1) by (auto simp: in_turn_def)
  note own = assms(4) [unfolded owed_ok_def prod.case]
  from st assms(2,3) show ?thesis
  proof (cases rule: table_step_locked)
    case (change t ev)
    show ?thesis
    proof (cases "\<exists>e. ev = Some e \<and> event_filter e = Some f")
      case True
      then obtain e where e: "ev = Some e" "event_filter e = Some f" by blast
      have ot: "owed pend' f u \<longleftrightarrow> u = t \<or> owed pend f u" for u using change e by (auto simp: owed_def)
      have none: "\<not> owed pend f u" for u using turn [of u t] ot [of t] change(1) by (auto simp: owed_def)
      have "advertise e (advertised b') f = advertise e (wanted b) f" by (rule advertise_own [OF e(2)])
      then have right: "advertise e (advertised b') f = wanted b' f"
        using change(5) e(1) by (simp add: announce_def)
      have own': "e' = e" if "pend' u = Some e'" "event_filter e' = Some f" for u e'
      proof -
        have "u = t" using that ot [of u] none [of u] by (auto simp: owed_def)
        then show ?thesis using that change(2) e(1) by simp
      qed
      have "owed_ok f (b', pend')"
        unfolding owed_ok_def prod.case
      proof (intro conjI allI impI)
        show "u = v" if "owed pend' f u" "owed pend' f v" for u v using that ot none by simp
        show "advertise e' (advertised b') f = wanted b' f" if "pend' u = Some e'" "event_filter e' = Some f" for u e'
          using own' [OF that] right by simp
        show "advertised b' f = wanted b' f" if "\<forall>u. \<not> owed pend' f u" using that ot [of t] by blast
      qed
      then show ?thesis using change(3,4) by blast
    next
      case False
      have w: "wanted b' f = wanted b f"
        using change(5) False by (auto simp: announce_def advertise_other split: option.split)
      have ot: "owed pend' f u \<longleftrightarrow> owed pend f u" for u using change(1,2) False by (auto simp: owed_def)
      have old: "pend u = Some e" if "pend' u = Some e" "event_filter e = Some f" for u e
        using that change(2) False by (auto split: if_splits)
      have "owed_ok f (b', pend')"
        unfolding owed_ok_def prod.case change(6) w using own ot old by blast
      then show ?thesis using change(3,4) by blast
    qed
  next
    case (told t e)
    have tb: "table_ok b'" "bk_cfg_p2p b'" "wanted b' = wanted b" "advertised b' = advertise e (advertised b)"
      using told assms(2,3) by (auto simp: wanted_def fun_eq_iff)
    show ?thesis
    proof (cases "event_filter e = Some f")
      case True
      have "\<not> owed pend' f u" for u
        using own told True unfolding owed_def by (metis fun_upd_apply option.distinct(1))
      moreover have "advertised b' f = wanted b' f" using own told(1) True tb(3,4) by simp
      ultimately have "owed_ok f (b', pend')" by (auto simp: owed_ok_def owed_def)
      then show ?thesis using tb(1,2) by blast
    next
      case False
      have ot: "owed pend' f u \<longleftrightarrow> owed pend f u" for u using told False by (auto simp: owed_def)
      have old: "pend u = Some e'" if "pend' u = Some e'" for u e' using that told by (auto split: if_splits)
      have "owed_ok f (b', pend')"
        unfolding owed_ok_def prod.case
      proof (intro conjI allI impI)
        show "u = v" if "owed pend' f u" "owed pend' f v" for u v using that own ot by blast
        show "advertise e' (advertised b') f = wanted b' f" if "pend' u = Some e'" "event_filter e' = Some f" for u e'
          using own old [OF that(1)] that(2) advertise_own [OF that(2), of "advertised b'" "advertised b"] tb(3) by simp
        show "advertised b' f = wanted b' f" if "\<forall>u. \<not> owed pend' f u"
          using own that ot tb(3,4) advertise_other [OF False, of "advertised b"] by simp
      qed
      then show ?thesis using tb(1,2) by blast
    qed
  qed
qed

text \<open>
  However the locked regions and the announcements of the threads interleave, the table stays well formed.
  The peers know the right QoS of a filter whenever no announcement of it is outstanding, as long as no
  change of the filter needs an announcement while another one is owed.
\<close>

lemma table_interleaved:
  assumes "table_step\<^sup>*\<^sup>* (b0, \<lambda>_. None) (b, pend)" and "table_ok b0" and "bk_cfg_p2p b0"
  shows "table_ok b \<and> bk_cfg_p2p b"
  using assms(1)
proof (induction rule: rtranclp_induct2)
  case (step b pend b' pend')
  then show ?case by (auto elim: table_step_locked)
qed (use assms(2,3) in simp)

lemma announced_in_turn:
  assumes "(in_turn f)\<^sup>*\<^sup>* (b0, \<lambda>_. None) (b, pend)" and "table_inv b0" and "bk_cfg_p2p b0" and "\<And>t. \<not> owed pend f t"
  shows "advertised b f = wanted b f"
proof -
  from assms(1) have "table_ok b \<and> bk_cfg_p2p b \<and> owed_ok f (b, pend)"
  proof (induction rule: rtranclp_induct2)
    case refl
    then show ?case using assms(2,3) by (simp add: table_inv_def adv_ok_def owed_ok_def owed_def)
  next
    case (step b pend b' pend')
    then show ?case using in_turn_ok by blast
  qed
  then show ?thesis using assms(4) by (simp add: owed_ok_def)
qed

text \<open>
  But when one thread withdraws a filter and another subscribes to it between the withdrawal and its
  announcement, the announcements can be made in the other order: the peers then believe that nobody
  here wants the filter, and no announcement is outstanding that would correct them.
\<close>

lemma wanted_sub_map:
  assumes "table_ok b"
  shows "sub_map b = Map.empty \<Longrightarrow> wanted b f = None" and "sub_map b = [(c, f) \<mapsto> q] \<Longrightarrow> wanted b f = Some q"
proof -
  note entry = sub_map_entry [OF assms]
  have some: "sub_map b (sub_client e, f) = Some (sub_qos e)" if "e \<in> set (bare_subs b)" "about f e" for e
    using entry [of "(sub_client e, f)" "sub_qos e"] that by (auto simp: about_def sub_key_def)
  show "wanted b f = None" if "sub_map b = Map.empty" using some that by (auto simp: wanted_None)
  assume m: "sub_map b = [(c, f) \<mapsto> q]"
  then have "\<exists>e \<in> set (bare_subs b). about f e" using entry [of "(c, f)" q] by (auto simp: about_def sub_key_def)
  moreover have "sub_qos e = q" if "e \<in> set (bare_subs b)" "about f e" for e
    using some [OF that] m by (simp split: if_splits)
  ultimately show "wanted b f = Some q" unfolding wanted_Some by auto
qed

lemma announcements_overtake:
  assumes "table_inv b" and "bk_cfg_p2p b" and "sub_map b = [(c, f) \<mapsto> q]" and "sub_good b (d, f) q'"
  shows "\<exists>b'. table_step\<^sup>*\<^sup>* (b, \<lambda>_. None) (b', \<lambda>_. None) \<and> advertised b' f = None \<and> wanted b' f = Some q'"
proof -
  obtain ev1 b1 where r1: "topic_unsubscribe_locked c f b = (ev1, b1)" by force
  obtain ok ev2 b2 where r2: "topic_subscribe_locked d f q' b1 = (ok, ev2, b2)" by (metis surj_pair)
  have good: "filter_ok f" "topic_filter_valid f" "q' \<le> 2" "d < length (bk_clients b)"
    using assms(4) by (simp_all add: sub_good_def)
  let ?s2 = "topic_unsubscribe c f b"
  have s2: "?s2 = tell_peers ev1 b1" by (simp add: topic_unsubscribe_def r1)
  have inv2: "table_inv ?s2" "sub_map ?s2 = Map.empty"
    using st.del_inv [OF assms(1), of "(c, f)"] unsubscribe_map [of b c f] assms(1,3) by (simp_all add: table_inv_def)
  have w: "wanted b f = Some q" "wanted ?s2 f = None"
    using wanted_sub_map assms(1,3) inv2 by (simp_all add: table_inv_def)
  have adv: "advertised b f = Some q" "advertised ?s2 f = None"
    using w assms(1,2) inv2(1) by (simp_all add: table_inv_def adv_ok_def)
  have "advertised b1 = advertised b" using locked_p2p(2) [OF r1] by (simp add: advertised_def)
  then obtain e1 where e1: "ev1 = Some e1" "event_filter e1 = Some f" "advertise e1 (advertised b) f = None"
    using adv advertise_other [of _ f "advertised b"]
    by (cases ev1; cases "event_filter (the ev1) = Some f") (auto simp: s2 announce_def)
  let ?es = "bk_p2p b1 @ [e1]"
  have told: "?s2 = with_told ?es b1" by (simp add: s2 e1 with_told_def p2p_emit_def)
  let ?s3 = "snd (topic_subscribe d f q' ?s2)"
  have s3: "?s3 = tell_peers ev2 (with_told ?es b2)" by (simp add: told topic_subscribe_def with_told_locked r2)
  have good2: "sub_good ?s2 (d, f) q'" using assms(4) by (simp add: sub_good_def)
  have room: "fst (topic_subscribe d f q' ?s2)"
  proof -
    have "bare_subs b \<noteq> []" using sub_map_entry [of b "(c, f)" q] assms(1,3) by (auto simp: table_inv_def)
    then have "length (bk_subs b) \<noteq> 0" by (simp add: bare_subs_def)
    moreover have "\<not> sub_in_use e" if e: "e \<in> set (bk_subs ?s2)" for e
    proof
      assume "sub_in_use e"
      then have "\<exists>e' \<in> set (bare_subs ?s2). sub_in_use e' \<and> sub_key e' = sub_key e \<and> sub_qos e' = sub_qos e"
        using e by (intro bexI [of _ "bare e"]) (simp_all add: bare_subs_def sub_key_def)
      then show False using sub_map_entry [of ?s2 "sub_key e" "sub_qos e"] inv2 by (simp add: table_inv_def)
    qed
    then have "used_count sub_in_use (bk_subs ?s2) = 0" by (simp add: used_count_def filter_empty_conv)
    ultimately show ?thesis
      using subscribe_map(2) [of ?s2 f q' d] inv2(1) good2 by (auto simp: table_inv_def sub_good_def)
  qed
  have inv3: "table_inv ?s3" "sub_map ?s3 = [(d, f) \<mapsto> q']"
    using st.put_inv [OF inv2(1) good2] st.put_look [OF inv2(1) good2] room inv2(2) by simp_all
  have w3: "wanted b2 f = Some q'"
    using wanted_sub_map(2) [OF _ inv3(2)] inv3(1) by (simp add: table_inv_def s3)
  have "advertised ?s3 f = Some q'"
    using inv3(1) w3 assms(2) by (simp add: table_inv_def adv_ok_def) (simp add: s3)
  then obtain e2 where e2: "ev2 = Some e2"
  proof (cases ev2)
    case None
    have "advertised ?s3 = announce ev2 (advertised ?s2)" by (simp only: s3 tell_peers_facts(1)) (simp add: told advertised_def)
    then show ?thesis using \<open>advertised ?s3 f = Some q'\<close> adv(2) None by (simp add: announce_def)
  qed
  let ?n = "\<lambda>_. None :: p2p_event option"
  let ?b = "p2p_emit e1 (p2p_emit e2 b2)"
  have "table_step (b, ?n) (b1, ?n(0 := Some e1))"
    using table_step.unsubscribe [of ?n 0, OF _ r1] e1(1) by simp
  moreover have "table_step (b1, ?n(0 := Some e1)) (b2, ?n(0 := Some e1, 1 := Some e2))"
  proof -
    have "bk_clients b1 = bk_clients b" using topic_unsubscribe_frame(3) [of c f b] by (simp add: s2 e1)
    then show ?thesis
      using table_step.subscribe [of "?n(0 := Some e1)" 1, OF _ good(1-3) _ r2] good(4) e2 by simp
  qed
  moreover have "table_step (b2, ?n(0 := Some e1, 1 := Some e2)) (p2p_emit e2 b2, ?n(0 := Some e1))"
    using table_step.tell [of "?n(0 := Some e1, 1 := Some e2)" 1 e2 b2] by (simp add: fun_upd_idem)
  moreover have "table_step (p2p_emit e2 b2, ?n(0 := Some e1)) (?b, ?n)"
    using table_step.tell [of "?n(0 := Some e1)" 0] by (simp add: fun_upd_idem)
  ultimately have "table_step\<^sup>*\<^sup>* (b, ?n) (?b, ?n)"
    by (meson converse_rtranclp_into_rtranclp rtranclp.rtrancl_refl)
  moreover have "advertised ?b f = None"
    using e1(3) advertise_own [OF e1(2), of "advertised (p2p_emit e2 b2)" "advertised b"] by simp
  moreover have "wanted ?b f = Some q'" using w3 by (simp add: wanted_def)
  ultimately show ?thesis by blast
qed

subsection \<open>Properties\<close>

text \<open>
  C3: subscribing refines an update of the abstract map from clients and filters to QoS. The
  call succeeds unless the table is full and the client has no subscription to the filter; on
  success exactly that entry is set, on failure nothing changes; the invariant of the table is
  kept, and so is the agreement with the peers (if they knew, for each filter, the largest
  local QoS before the call, they do after it).
\<close>

theorem subscribe_refines:
  assumes "table_inv b" and "sub_good b (c, f) qos"
  shows "table_inv (snd (topic_subscribe c f qos b)) \<and>
    sub_map (snd (topic_subscribe c f qos b)) =
      (if fst (topic_subscribe c f qos b) then (sub_map b)((c, f) \<mapsto> qos) else sub_map b) \<and>
    (\<not> fst (topic_subscribe c f qos b) \<longleftrightarrow>
      sub_map b (c, f) = None \<and> used_count sub_in_use (bk_subs b) = length (bk_subs b))"
  using assms st.put_inv [OF assms] st.put_look [OF assms] subscribe_map(2) [of b f qos c]
  by (simp add: table_inv_def sub_good_def)

text \<open>
  Unsubscribing removes exactly the entry of this client and filter, and removing all
  subscriptions of a client removes exactly the client's entries, whichever of the two loops
  the build has; both keep the invariant and the agreement with the peers.
\<close>

theorem unsubscribe_refines:
  assumes "table_inv b"
  shows "table_inv (topic_unsubscribe c f b) \<and>
    sub_map (topic_unsubscribe c f b) = (sub_map b)((c, f) := None) \<and>
    table_inv (topic_unsubscribe_all c b) \<and>
    sub_map (topic_unsubscribe_all c b) = (\<lambda>(d, g). if d = c then None else sub_map b (d, g))"
  using assms st.del_inv [OF assms, of "(c, f)"] st.del_look [OF assms, of "(c, f)"]
    topic_unsubscribe_all_ok [of b c] unsubscribe_all_map [of b c]
  by (simp add: table_inv_def)

text \<open>
  C36: what the peers are told about a filter. After any of the three operations on a table
  with the invariant, in the build with the peer network, the last announcement made for each
  filter is the largest QoS of its local subscriptions, or its withdrawal (or nothing was ever
  announced) when there is none left.
\<close>

theorem peers_up_to_date:
  assumes "table_inv b" and "bk_cfg_p2p b" and "sub_good b (c, f) qos"
    and "b' \<in> {snd (topic_subscribe c f qos b), topic_unsubscribe c f b, topic_unsubscribe_all c b}"
  shows "advertised b' g =
    (if \<exists>e \<in> set (bk_subs b'). sub_in_use e \<and> sub_filter e = g
     then Some (Max (sub_qos ` {e \<in> set (bk_subs b'). sub_in_use e \<and> sub_filter e = g})) else None)"
proof -
  have "bk_cfg_p2p (unsubscribe_first i b) = bk_cfg_p2p b" for i b
    by (simp add: unsubscribe_first_eq Let_def split: prod.split)
  then have "bk_cfg_p2p (unsubscribe_loop c b) = bk_cfg_p2p b"
    by (induction c b rule: unsubscribe_loop.induct) (simp add: unsubscribe_loop.simps split: option.split)
  then have p2p: "bk_cfg_p2p b'"
    using assms(2,4) by (auto simp: topic_unsubscribe_all_def)
  have "table_inv b'"
    using assms(1,4) st.put_inv [OF assms(1,3)] st.del_inv [OF assms(1), of "(c, f)"]
      topic_unsubscribe_all_ok [of b c] by (auto simp: table_inv_def)
  then have adv: "advertised b' g = wanted b' g"
    using p2p by (simp add: table_inv_def adv_ok_def)
  let ?E = "{e \<in> set (bk_subs b'). sub_in_use e \<and> sub_filter e = g}"
  obtain n M where st: "filter_stats_locked g (bk_subs b') = (n, M)" by force
  have zero: "n = 0 \<longleftrightarrow> \<not> (\<exists>e \<in> set (bk_subs b'). sub_in_use e \<and> sub_filter e = g)"
    using st filter_stats_zero [of g "bk_subs b'"] by auto
  have max: "(\<forall>e \<in> ?E. sub_qos e \<le> M) \<and> (M = 0 \<or> (\<exists>e \<in> ?E. sub_qos e = M))"
    using st filter_stats_max [of g "bk_subs b'" M] by auto
  have "M = Max (sub_qos ` ?E)" if "?E \<noteq> {}"
  proof -
    have "M \<in> sub_qos ` ?E" using max that by (auto simp: image_iff)
    then show ?thesis using max by (intro Max_eqI [symmetric]) auto
  qed
  then show ?thesis using adv stats_wanted [OF st] zero by auto
qed

text \<open>
  The paged snapshot of the subscriptions. A page has at most the requested number of
  entries; it consists of the next subscriptions in slot order, so that the page followed by
  the rest from the returned cursor is all that was left before; and as long as the cursor is
  inside the table a call with room for an entry advances it, so paging ends.
\<close>

theorem snapshot_pages:
  assumes "topic_get_sub_snapshots_from b m cursor = (page, next_cursor)" and "cursor \<le> length (bk_subs b)"
  shows "page @ map (snapshot_of b) (filter sub_in_use (drop next_cursor (bk_subs b)))
      = map (snapshot_of b) (filter sub_in_use (drop cursor (bk_subs b))) \<and>
    length page \<le> m \<and> next_cursor \<le> length (bk_subs b) \<and>
    (cursor < length (bk_subs b) \<and> 0 < m \<longrightarrow> cursor < next_cursor)"
  using snapshots_loop_pages [of b m cursor "[]" page next_cursor] assms
  by (simp add: topic_get_sub_snapshots_from_def)

text \<open>A broker with two clients and a table of four slots, for the witnesses.\<close>

definition ready_broker :: broker where
  "ready_broker = topic_init (idle_broker 2 4)"

lemma ready_table: "table_inv ready_broker"
  unfolding ready_broker_def
  by (rule topic_init_ok) (simp add: idle_broker_def client_pool_init_def static_broker_def)

lemma ready_good: "sub_good ready_broker (0, [97, 47, 35]) 1" "sub_good ready_broker (1, [97]) 2"
proof -
  have "topic_filter_valid [97, 47, 35]" "topic_filter_valid [97]" by code_simp+
  then show "sub_good ready_broker (0, [97, 47, 35]) 1" "sub_good ready_broker (1, [97]) 2"
    by (simp_all add: sub_good_def filter_ok_def cstr_ok_def ready_broker_def topic_init_def idle_broker_def
        client_pool_init_def static_broker_def word_le_nat_alt)
qed

lemma ready_room: "fst (topic_subscribe 0 [97, 47, 35] 1 ready_broker)"
proof -
  have "used_count sub_in_use (bk_subs ready_broker) = 0" "length (bk_subs ready_broker) = 4"
    by (simp_all add: used_count_def ready_broker_def topic_init_def idle_broker_def
        client_pool_init_def static_broker_def zero_sub_def)
  then show ?thesis
    using ready_table ready_good(1) subscribe_map(2) [of ready_broker "[97, 47, 35]" 1 0]
    by (simp add: table_inv_def sub_good_def)
qed

lemma ready_empty: "sub_map ready_broker = Map.empty"
  by (simp add: ready_broker_def sub_map_init)

theorem subscribe_refines_witness:
  "sub_map (snd (topic_subscribe 0 [97, 47, 35] 1 ready_broker)) = [(0, [97, 47, 35]) \<mapsto> 1]"
  using subscribe_refines [OF ready_table ready_good(1)] ready_room by (simp add: ready_empty)

theorem unsubscribe_refines_witness:
  "sub_map (topic_unsubscribe 0 [97, 47, 35] (snd (topic_subscribe 0 [97, 47, 35] 1 ready_broker))) = Map.empty"
proof -
  have "table_inv (snd (topic_subscribe 0 [97, 47, 35] 1 ready_broker))"
    using st.put_inv [OF ready_table ready_good(1)] by simp
  from unsubscribe_refines [OF this, of 0 "[97, 47, 35]"] show ?thesis
    using st.put_look [OF ready_table ready_good(1)] ready_room by (simp add: ready_empty)
qed

theorem peers_up_to_date_witness:
  "advertised (snd (topic_subscribe 0 [97, 47, 35] 1 ready_broker)) [97, 47, 35] = Some 1"
proof -
  let ?b = "snd (topic_subscribe 0 [97, 47, 35] 1 ready_broker)"
  have p: "bk_cfg_p2p ready_broker"
    by (simp add: ready_broker_def topic_init_def idle_broker_def client_pool_init_def static_broker_def)
  have "table_ok ?b"
    using st.put_inv [OF ready_table ready_good(1)] by (simp add: table_inv_def)
  moreover have "sub_map ?b = [(0, [97, 47, 35]) \<mapsto> 1]"
    using st.put_look [OF ready_table ready_good(1)] ready_room by (simp add: ready_empty)
  ultimately have en: "(\<exists>e \<in> set (bare_subs ?b). sub_in_use e \<and> sub_key e = k \<and> sub_qos e = q)
      \<longleftrightarrow> k = (0, [97, 47, 35]) \<and> q = 1" for k q
    using sub_map_entry [of ?b k q] by (auto split: if_splits)
  have "sub_qos ` {e \<in> set (bk_subs ?b). sub_in_use e \<and> sub_filter e = [97, 47, 35]} = {1}"
    "\<exists>e \<in> set (bk_subs ?b). sub_in_use e \<and> sub_filter e = [97, 47, 35]"
  proof -
    have all: "sub_key e = (0, [97, 47, 35]) \<and> sub_qos e = 1"
      if "e \<in> set (bk_subs ?b)" "sub_in_use e" for e
      using that en [of "sub_key e" "sub_qos e"] by (auto simp: bare_subs_def intro: bexI [of _ "bare e"])
    obtain e where e: "e \<in> set (bk_subs ?b)" "sub_in_use e" "sub_key e = (0, [97, 47, 35])"
      using en [of "(0, [97, 47, 35])" 1] by (auto simp: bare_subs_def)
    then have "e \<in> {e \<in> set (bk_subs ?b). sub_in_use e \<and> sub_filter e = [97, 47, 35]}"
      by (simp add: sub_key_def)
    then show "sub_qos ` {e \<in> set (bk_subs ?b). sub_in_use e \<and> sub_filter e = [97, 47, 35]} = {1}"
      "\<exists>e \<in> set (bk_subs ?b). sub_in_use e \<and> sub_filter e = [97, 47, 35]"
      using all by (auto simp: image_iff)
  qed
  then show ?thesis
    using peers_up_to_date [OF ready_table p ready_good(1), of ?b "[97, 47, 35]"] by simp
qed

theorem snapshot_pages_witness:
  "\<exists>page next_cursor. topic_get_sub_snapshots_from ready_broker 2 0 = (page, next_cursor) \<and> 0 < next_cursor"
proof -
  obtain page next_cursor where p: "topic_get_sub_snapshots_from ready_broker 2 0 = (page, next_cursor)"
    by force
  have "0 < length (bk_subs ready_broker)"
    by (simp add: ready_broker_def topic_init_def idle_broker_def client_pool_init_def static_broker_def)
  then show ?thesis using snapshot_pages [OF p] p by auto
qed

end
