(* ===== verification/Topic_Publish.thy ===== *)
theory Topic_Publish
  imports Topic_Table
begin

text \<open>
  Publishing and the retained store of \<^verbatim>\<open>src/topic.c\<close>. The two fan-out functions first collect
  the clients to serve while they hold the lock, walking the bucket of the topic and the list
  of filters with wildcards, and send afterwards; each function here is split the same way.

  The lemmas show that the clients collected are exactly those with a subscription that
  matches, each once, and what each is sent; that the retained store keeps one message per
  topic; and what a new subscriber gets from it.
\<close>

subsection \<open>The retained store\<close>

definition retain_store_ensure :: "broker \<Rightarrow> bool \<times> broker" where
  "retain_store_ensure b =
     (if bk_retains b \<noteq> None then (True, b)
      else if bk_calloc_ok b then (True, b\<lparr>bk_retains := Some (replicate TOPIC_RETAIN_MAX zero_retain)\<rparr>)
      else (False, b))"

definition retain_update :: "mqtt_publish \<Rightarrow> retain_entry list \<Rightarrow> retain_entry list" where
  "retain_update pub rs =
     (let found = slot_of ret_in_use ret_topic (pub_topic pub) rs in
      if pub_payload pub = [] then
        (case found of
           None \<Rightarrow> rs
         | Some i \<Rightarrow> upd_nth i (\<lambda>r. r\<lparr>ret_in_use := False\<rparr>) rs)
      else
        (case (if found \<noteq> None then found else free_slot ret_in_use rs) of
           None \<Rightarrow> rs
         | Some i \<Rightarrow> upd_nth i (\<lambda>_. \<lparr>ret_topic = strncpy_str MQTT_TOPIC_MAX (pub_topic pub),
             ret_payload = pub_payload pub, ret_qos = pub_qos pub, ret_in_use = True\<rparr>) rs))"

definition topic_get_retain_snapshots :: "broker \<Rightarrow> nat \<Rightarrow> (cstr \<times> nat \<times> byte) list" where
  "topic_get_retain_snapshots b max_out =
     (case bk_retains b of
        None \<Rightarrow> []
      | Some rs \<Rightarrow> map (\<lambda>r. (strncpy_str MQTT_TOPIC_MAX (ret_topic r), length (ret_payload r), ret_qos r))
          (take max_out (filter ret_in_use rs)))"

subsection \<open>Fan-out\<close>

text \<open>One iteration of the two loops that collect targets for QoS 0.\<close>

definition add_target :: "nat \<Rightarrow> nat list \<Rightarrow> nat list" where
  "add_target c targets = (if c \<in> set targets then targets else targets @ [c])"

definition qos0_exact_step :: "broker \<Rightarrow> cstr \<Rightarrow> nat \<Rightarrow> nat list \<Rightarrow> nat list" where
  "qos0_exact_step b topic idx targets =
     (if \<not> sub_in_use (sub_at b idx) \<or> sub_filter (sub_at b idx) \<noteq> topic then targets
      else add_target (sub_client (sub_at b idx)) targets)"

definition qos0_wildcard_step :: "broker \<Rightarrow> cstr \<Rightarrow> nat \<Rightarrow> nat list \<Rightarrow> nat list" where
  "qos0_wildcard_step b topic idx targets =
     (if \<not> sub_in_use (sub_at b idx) then targets
      else if \<not> topic_match (sub_filter (sub_at b idx)) topic then targets
      else add_target (sub_client (sub_at b idx)) targets)"

definition qos0_targets :: "broker \<Rightarrow> cstr \<Rightarrow> nat \<Rightarrow> nat list" where
  "qos0_targets b topic bucket =
     fold (qos0_wildcard_step b topic) (wildcard_chain b)
       (fold (qos0_exact_step b topic) (exact_chain b bucket) [])"

definition topic_publish_qos0_locked :: "mqtt_publish \<Rightarrow> nat \<Rightarrow> broker \<Rightarrow> broker" where
  "topic_publish_qos0_locked pub bucket b =
     (let targets = qos0_targets b (pub_topic pub) bucket in
      if targets = [] then b
      else case packet_build_publish (pub\<lparr>pub_retain := 0, pub_packet_id := 0\<rparr>) (MQTT_MAX_PACKET_SIZE + 8) of
             None \<Rightarrow> b
           | Some buf \<Rightarrow> fold (\<lambda>c b. client_send c buf b) targets b)"

record delivery_target =
  dt_client :: nat
  dt_qos :: byte
  dt_packet_id :: u16

text \<open>\<open>if (++id == 0) ++id\<close>: the packet ids of a client skip 0.\<close>

definition next_id :: "u16 \<Rightarrow> u16" where
  "next_id i = (let i = i + 1 in if i = 0 then i + 1 else i)"

definition add_qos_delivery_target_locked ::
  "mqtt_publish \<Rightarrow> nat \<Rightarrow> delivery_target list \<times> broker \<Rightarrow> delivery_target list \<times> broker" where
  "add_qos_delivery_target_locked pub idx tb =
     (let (targets, b) = tb in
      if length (bk_subs b) \<le> length targets then (targets, b)
      else let c = sub_client (sub_at b idx);
               qos = (if pub_qos pub < sub_qos (sub_at b idx) then pub_qos pub else sub_qos (sub_at b idx))
           in if qos > 0 then
                (let b = upd_client c (\<lambda>cl. cl\<lparr>cl_next_packet_id := next_id (cl_next_packet_id cl)\<rparr>) b
                 in (targets @ [\<lparr>dt_client = c, dt_qos = qos,
                       dt_packet_id = cl_next_packet_id (client_at b c)\<rparr>], b))
              else (targets @ [\<lparr>dt_client = c, dt_qos = qos, dt_packet_id = 0\<rparr>], b))"

definition qos_step ::
  "(sub_entry \<Rightarrow> bool) \<Rightarrow> mqtt_publish \<Rightarrow> nat \<Rightarrow> nat list \<times> delivery_target list \<times> broker
     \<Rightarrow> nat list \<times> delivery_target list \<times> broker" where
  "qos_step hit pub idx stb =
     (let (seen, targets, b) = stb; c = sub_client (sub_at b idx) in
      if \<not> sub_in_use (sub_at b idx) \<or> \<not> hit (sub_at b idx) then stb
      else if c \<in> set seen then stb
      else (seen @ [c], add_qos_delivery_target_locked pub idx (targets, b)))"

definition qos_targets :: "mqtt_publish \<Rightarrow> nat \<Rightarrow> broker \<Rightarrow> nat list \<times> delivery_target list \<times> broker" where
  "qos_targets pub bucket b =
     fold (qos_step (\<lambda>e. topic_match (sub_filter e) (pub_topic pub)) pub) (wildcard_chain b)
       (fold (qos_step (\<lambda>e. sub_filter e = pub_topic pub) pub) (exact_chain b bucket) ([], [], b))"

definition target_message :: "mqtt_publish \<Rightarrow> delivery_target \<Rightarrow> mqtt_publish" where
  "target_message pub t = pub\<lparr>pub_retain := 0, pub_qos := dt_qos t, pub_packet_id := dt_packet_id t\<rparr>"

definition topic_publish_qos_locked :: "mqtt_publish \<Rightarrow> nat \<Rightarrow> broker \<Rightarrow> broker" where
  "topic_publish_qos_locked pub bucket b =
     (let (seen, targets, b) = qos_targets pub bucket b
      in fold (\<lambda>t b. send_frame (dt_client t) (target_message pub t) b) targets b)"

definition broker_notify_activity :: "broker \<Rightarrow> broker" where
  "broker_notify_activity b = b\<lparr>bk_activity := bk_activity b + 1\<rparr>"

text \<open>The result is the return code: \<open>False\<close> for -1.\<close>

definition topic_publish_internal :: "mqtt_publish \<Rightarrow> bool \<Rightarrow> broker \<Rightarrow> bool \<times> broker" where
  "topic_publish_internal pub propagate b =
     (let (ok, b) = (if pub_retain pub \<noteq> 0 then retain_store_ensure b else (True, b)) in
      if \<not> ok then (False, b)
      else let b = (if pub_retain pub \<noteq> 0
                    then b\<lparr>bk_retains := map_option (retain_update pub) (bk_retains b)\<rparr> else b);
               bucket = topic_bucket b (pub_topic pub);
               b = (if pub_qos pub = 0 then topic_publish_qos0_locked pub bucket b
                    else topic_publish_qos_locked pub bucket b);
               b = snd (session_offline_publish topic_match pub b);
               b = broker_notify_activity b
           in (True, if bk_cfg_p2p b \<and> propagate then p2p_emit (P2PPublish pub) b else b))"

definition topic_publish :: "mqtt_publish \<Rightarrow> broker \<Rightarrow> broker" where
  "topic_publish pub b = snd (topic_publish_internal pub True b)"

definition topic_publish_remote :: "mqtt_publish \<Rightarrow> broker \<Rightarrow> broker" where
  "topic_publish_remote pub b = snd (topic_publish_internal pub False b)"

subsection \<open>Retained messages for a new subscriber\<close>

definition retained_message :: "byte \<Rightarrow> retain_entry \<Rightarrow> mqtt_publish" where
  "retained_message qos r = zero_publish\<lparr>pub_topic := strncpy_str MQTT_TOPIC_MAX (ret_topic r),
     pub_payload := ret_payload r, pub_qos := (if qos < ret_qos r then qos else ret_qos r), pub_retain := 1\<rparr>"

text \<open>
  One iteration of the collecting loop: the packets built so far (frame, QoS and packet id) and
  the state, whose packet id counter advances even when the packet cannot be built.
\<close>

definition retained_step ::
  "nat \<Rightarrow> cstr \<Rightarrow> byte \<Rightarrow> retain_entry \<Rightarrow> (byte list \<times> byte \<times> u16) list \<times> broker
     \<Rightarrow> (byte list \<times> byte \<times> u16) list \<times> broker" where
  "retained_step c f qos r pb =
     (let (pkts, b) = pb in
      if \<not> ret_in_use r \<or> \<not> topic_match f (ret_topic r) then (pkts, b)
      else let pub = retained_message qos r;
               b = (if pub_qos pub > 0
                    then upd_client c (\<lambda>cl. cl\<lparr>cl_next_packet_id := next_id (cl_next_packet_id cl)\<rparr>) b
                    else b);
               pub = (if pub_qos pub > 0 then pub\<lparr>pub_packet_id := cl_next_packet_id (client_at b c)\<rparr> else pub)
           in (case packet_build_publish pub (MQTT_MAX_PACKET_SIZE + 8) of
                 None \<Rightarrow> (pkts, b)
               | Some buf \<Rightarrow> (pkts @ [(buf, pub_qos pub, pub_packet_id pub)], b)))"

definition send_packet :: "nat \<Rightarrow> byte list \<times> byte \<times> u16 \<Rightarrow> broker \<Rightarrow> broker" where
  "send_packet c p b =
     (let (buf, qos, pid) = p; b = client_send c buf b
      in if qos > 0 then client_inflight_store c pid buf qos b else b)"

definition topic_deliver_retained :: "nat \<Rightarrow> cstr \<Rightarrow> byte \<Rightarrow> broker \<Rightarrow> broker" where
  "topic_deliver_retained c f qos b =
     (case bk_retains b of
        None \<Rightarrow> b
      | Some rs \<Rightarrow> let (pkts, b) = fold (retained_step c f qos) rs ([], b) in fold (send_packet c) pkts b)"

subsection \<open>Who is served\<close>

text \<open>The clients with a subscription that matches a topic, and one client's matching entries.\<close>

definition hits :: "broker \<Rightarrow> nat \<Rightarrow> cstr \<Rightarrow> sub_entry \<Rightarrow> bool" where
  "hits b c topic e \<longleftrightarrow> e \<in> set (bk_subs b) \<and> sub_in_use e \<and> sub_client e = c \<and> topic_match (sub_filter e) topic"

definition audience :: "broker \<Rightarrow> cstr \<Rightarrow> nat set" where
  "audience b topic = {c. \<exists>e. hits b c topic e}"

lemma audience_sub_map:
  assumes "table_ok b"
  shows "audience b topic = {c. \<exists>f q. sub_map b (c, f) = Some q \<and> topic_match f topic}"
proof -
  have "(\<exists>e. hits b c topic e) \<longleftrightarrow>
      (\<exists>f q. \<exists>e \<in> set (bare_subs b). sub_in_use e \<and> sub_key e = (c, f) \<and> sub_qos e = q \<and> topic_match f topic)" for c
    by (auto simp: hits_def bare_subs_def sub_key_def)
  then show ?thesis
    unfolding audience_def using sub_map_entry [OF assms] by blast
qed

text \<open>
  The slots the two walks visit and accept, on a well-formed table: exactly the matching ones.
  This rests on the interface of the matcher, by which a filter without wildcards can only
  match the topic with the same text, and so is in the bucket of the topic.
\<close>

lemma bucket_or_empty: "topic_bucket b s < length (bk_subs b) \<or> bk_subs b = []"
  by (auto simp: topic_bucket_def)

lemma exact_hits:
  assumes "table_ok b"
  shows "{i \<in> set (exact_chain b (topic_bucket b topic)). sub_in_use (sub_at b i) \<and> sub_filter (sub_at b i) = topic}
    = {i. i < length (bk_subs b) \<and> sub_in_use (sub_at b i) \<and> sub_is_exact (sub_at b i) \<and>
          topic_match (sub_filter (sub_at b i)) topic}"
proof (cases "bk_subs b = []")
  case True
  then show ?thesis by (simp add: exact_chain_def)
next
  case False
  have ix: "index_ok b" and ok: "\<And>i. i < length (bk_subs b) \<Longrightarrow> sub_ok b (sub_at b i)"
    using assms by (simp_all add: table_ok_def sub_at_def)
  have "set (exact_chain b (topic_bucket b topic)) = exact_slots b (topic_bucket b topic)"
    using exact_chain_slots(1) [OF ix] bucket_or_empty [of b topic] False by simp
  moreover have "topic_match (sub_filter (sub_at b i)) topic \<longleftrightarrow> sub_filter (sub_at b i) = topic"
    if "i < length (bk_subs b)" "sub_in_use (sub_at b i)" "sub_is_exact (sub_at b i)" for i
    using ok [OF that(1)] that(2,3) by (intro tm.exact) (simp add: sub_ok_def)
  moreover have "sub_is_exact (sub_at b i) \<Longrightarrow> True" for i by simp
  ultimately show ?thesis by (auto simp: exact_slots_def)
qed

lemma wildcard_hits:
  assumes "table_ok b"
  shows "{i \<in> set (wildcard_chain b). sub_in_use (sub_at b i) \<and> topic_match (sub_filter (sub_at b i)) topic}
    = {i. i < length (bk_subs b) \<and> sub_in_use (sub_at b i) \<and> \<not> sub_is_exact (sub_at b i) \<and>
          topic_match (sub_filter (sub_at b i)) topic}"
  using assms wildcard_chain_slots(1) [of b] by (auto simp: table_ok_def wildcard_slots_def)

lemma audience_slots:
  "audience b topic = (\<lambda>i. sub_client (sub_at b i)) `
     {i. i < length (bk_subs b) \<and> sub_in_use (sub_at b i) \<and> topic_match (sub_filter (sub_at b i)) topic}"
  by (auto simp: audience_def hits_def sub_at_def in_set_conv_nth image_iff)

text \<open>A loop that collects clients without repetition.\<close>

lemma collect_fold:
  assumes "\<And>i ts. step i ts = (if P i then add_target (g i) ts else ts)" and "distinct ts"
  shows "distinct (fold step xs ts) \<and> set (fold step xs ts) = set ts \<union> g ` {i \<in> set xs. P i}"
  using assms(2)
proof (induction xs arbitrary: ts)
  case (Cons x xs)
  have "distinct (step x ts)" "set (step x ts) = set ts \<union> (if P x then {g x} else {})"
    using Cons.prems by (auto simp: assms(1) add_target_def)
  with Cons.IH [of "step x ts"] show ?case by auto
qed simp

lemma qos0_targets_audience:
  assumes "table_ok b"
  shows "distinct (qos0_targets b topic (topic_bucket b topic)) \<and>
    set (qos0_targets b topic (topic_bucket b topic)) = audience b topic"
proof -
  let ?c = "\<lambda>i. sub_client (sub_at b i)"
  let ?E = "fold (qos0_exact_step b topic) (exact_chain b (topic_bucket b topic)) []"
  have e: "distinct ?E \<and> set ?E = set [] \<union> ?c ` {i \<in> set (exact_chain b (topic_bucket b topic)).
      sub_in_use (sub_at b i) \<and> sub_filter (sub_at b i) = topic}"
    by (rule collect_fold) (simp_all add: qos0_exact_step_def)
  have w: "distinct (fold (qos0_wildcard_step b topic) (wildcard_chain b) ?E) \<and>
      set (fold (qos0_wildcard_step b topic) (wildcard_chain b) ?E) = set ?E \<union> ?c ` {i \<in> set (wildcard_chain b).
      sub_in_use (sub_at b i) \<and> topic_match (sub_filter (sub_at b i)) topic}"
    by (rule collect_fold) (use e in \<open>simp_all add: qos0_wildcard_step_def\<close>)
  then show ?thesis
    using e unfolding qos0_targets_def exact_hits [OF assms] wildcard_hits [OF assms] audience_slots
    by (auto simp: image_iff)
qed

text \<open>The loop that collects the targets of a QoS 1 or 2 message.\<close>

definition bump :: "delivery_target list \<Rightarrow> broker \<Rightarrow> broker" where
  "bump targets b = fold (\<lambda>t b. if dt_qos t > 0
     then upd_client (dt_client t) (\<lambda>cl. cl\<lparr>cl_next_packet_id := next_id (cl_next_packet_id cl)\<rparr>) b else b) targets b"

definition target_ok :: "mqtt_publish \<Rightarrow> broker \<Rightarrow> delivery_target \<Rightarrow> bool" where
  "target_ok pub b t \<longleftrightarrow>
     (\<exists>e. hits b (dt_client t) (pub_topic pub) e \<and> dt_qos t = min (pub_qos pub) (sub_qos e)) \<and>
     dt_packet_id t = (if dt_qos t > 0 then next_id (cl_next_packet_id (client_at b (dt_client t))) else 0)"

lemma bump_frame [simp]:
  "bk_cfg_p2p (bump ts b) = bk_cfg_p2p b"
  "bk_cfg_auth (bump ts b) = bk_cfg_auth b"
  "bk_threads (bump ts b) = bk_threads b"
  "bk_subs (bump ts b) = bk_subs b"
  "bk_exact_heads (bump ts b) = bk_exact_heads b"
  "bk_wildcard_head (bump ts b) = bk_wildcard_head b"
  "bk_retains (bump ts b) = bk_retains b"
  "bk_sessions (bump ts b) = bk_sessions b"
  "bk_calloc_ok (bump ts b) = bk_calloc_ok b"
  "bk_socks (bump ts b) = bk_socks b"
  "bk_now (bump ts b) = bk_now b"
  "bk_p2p (bump ts b) = bk_p2p b"
  "bk_activity (bump ts b) = bk_activity b"
  "length (bk_clients (bump ts b)) = length (bk_clients b)"
  "sub_at (bump ts b) = sub_at b"
proof -
  have "bk_cfg_p2p (bump ts b) = bk_cfg_p2p b \<and> bk_cfg_auth (bump ts b) = bk_cfg_auth b \<and>
    bk_threads (bump ts b) = bk_threads b \<and> bk_subs (bump ts b) = bk_subs b \<and>
    bk_exact_heads (bump ts b) = bk_exact_heads b \<and> bk_wildcard_head (bump ts b) = bk_wildcard_head b \<and>
    bk_retains (bump ts b) = bk_retains b \<and> bk_sessions (bump ts b) = bk_sessions b \<and>
    bk_calloc_ok (bump ts b) = bk_calloc_ok b \<and> bk_socks (bump ts b) = bk_socks b \<and>
    bk_now (bump ts b) = bk_now b \<and> bk_p2p (bump ts b) = bk_p2p b \<and>
    bk_activity (bump ts b) = bk_activity b \<and> length (bk_clients (bump ts b)) = length (bk_clients b)"
    by (induction ts arbitrary: b) (simp_all add: bump_def)
  then show "bk_cfg_p2p (bump ts b) = bk_cfg_p2p b" "bk_cfg_auth (bump ts b) = bk_cfg_auth b"
    "bk_threads (bump ts b) = bk_threads b" "bk_subs (bump ts b) = bk_subs b"
    "bk_exact_heads (bump ts b) = bk_exact_heads b" "bk_wildcard_head (bump ts b) = bk_wildcard_head b"
    "bk_retains (bump ts b) = bk_retains b" "bk_sessions (bump ts b) = bk_sessions b"
    "bk_calloc_ok (bump ts b) = bk_calloc_ok b" "bk_socks (bump ts b) = bk_socks b"
    "bk_now (bump ts b) = bk_now b" "bk_p2p (bump ts b) = bk_p2p b"
    "bk_activity (bump ts b) = bk_activity b" "length (bk_clients (bump ts b)) = length (bk_clients b)"
    "sub_at (bump ts b) = sub_at b" by (simp_all add: sub_at_def fun_eq_iff)
qed

lemma bump_snoc: "bump (ts @ [t]) b = (if dt_qos t > 0
    then upd_client (dt_client t) (\<lambda>cl. cl\<lparr>cl_next_packet_id := next_id (cl_next_packet_id cl)\<rparr>) (bump ts b)
    else bump ts b)"
  by (simp add: bump_def)

lemma bump_other: "c \<notin> dt_client ` set ts \<Longrightarrow> client_at (bump ts b) c = client_at b c"
  by (induction ts arbitrary: b) (auto simp: bump_def)

lemma upd_next_id_fields [simp]:
  "cl_fd (client_at (upd_client d (\<lambda>cl. cl\<lparr>cl_next_packet_id := f cl\<rparr>) b) c) = cl_fd (client_at b c)"
  "cl_client_id (client_at (upd_client d (\<lambda>cl. cl\<lparr>cl_next_packet_id := f cl\<rparr>) b) c) = cl_client_id (client_at b c)"
  "cl_state (client_at (upd_client d (\<lambda>cl. cl\<lparr>cl_next_packet_id := f cl\<rparr>) b) c) = cl_state (client_at b c)"
  by (cases "d < length (bk_clients b)"; cases "d = c";
      simp add: upd_client_def upd_nth_beyond client_at_def)+

lemma bump_fields [simp]:
  "cl_fd (client_at (bump ts b) c) = cl_fd (client_at b c)"
  "cl_client_id (client_at (bump ts b) c) = cl_client_id (client_at b c)"
  "cl_state (client_at (bump ts b) c) = cl_state (client_at b c)"
  by (induction ts arbitrary: b) (simp_all add: bump_def)

text \<open>
  The state of the loop after \<open>k\<close> slots: the targets are the clients seen, at most one per slot,
  and the packet id counters of those with a QoS have advanced.
\<close>

definition qos_inv ::
  "mqtt_publish \<Rightarrow> broker \<Rightarrow> nat \<Rightarrow> nat list \<times> delivery_target list \<times> broker \<Rightarrow> bool" where
  "qos_inv pub b0 k stb \<longleftrightarrow>
     (let (seen, targets, b) = stb in
      map dt_client targets = seen \<and> distinct seen \<and> length targets \<le> k \<and> b = bump targets b0 \<and>
      (\<forall>t \<in> set targets. target_ok pub b0 t))"

lemma qos_step_inv:
  assumes "qos_inv pub b0 k (seen, targets, b)" and "k < length (bk_subs b0)" and "idx < length (bk_subs b0)"
    and "sub_in_use (sub_at b0 idx) \<Longrightarrow> hit (sub_at b0 idx) \<Longrightarrow> topic_match (sub_filter (sub_at b0 idx)) (pub_topic pub)"
    and "sub_client (sub_at b0 idx) < length (bk_clients b0) \<or> \<not> sub_in_use (sub_at b0 idx)"
  shows "qos_inv pub b0 (Suc k) (qos_step hit pub idx (seen, targets, b)) \<and>
    fst (qos_step hit pub idx (seen, targets, b)) =
      (if sub_in_use (sub_at b0 idx) \<and> hit (sub_at b0 idx)
       then add_target (sub_client (sub_at b0 idx)) seen else seen)"
proof -
  let ?e = "sub_at b0 idx" and ?c = "sub_client (sub_at b0 idx)"
  have I: "map dt_client targets = seen" "distinct seen" "length targets \<le> k" "b = bump targets b0"
    "\<forall>t \<in> set targets. target_ok pub b0 t"
    using assms(1) by (simp_all add: qos_inv_def)
  have at: "sub_at b = sub_at b0" using I(4) by simp
  show ?thesis
  proof (cases "sub_in_use ?e \<and> hit ?e \<and> ?c \<notin> set seen")
    case False
    then show ?thesis using I by (auto simp: qos_step_def qos_inv_def at add_target_def)
  next
    case True
    let ?qos = "min (pub_qos pub) (sub_qos ?e)"
    let ?t = "\<lparr>dt_client = ?c, dt_qos = ?qos, dt_packet_id = if ?qos > 0 then next_id (cl_next_packet_id (client_at b0 ?c)) else 0\<rparr>"
    have room: "\<not> length (bk_subs b) \<le> length targets" using I(3,4) assms(2) by simp
    have c: "?c < length (bk_clients b)" using assms(5) True I(4) by simp
    have old: "client_at b ?c = client_at b0 ?c"
      using True I(1,4) by (auto intro: bump_other)
    have q: "(if pub_qos pub < sub_qos ?e then pub_qos pub else sub_qos ?e) = ?qos" by (auto simp: min_def)
    have add: "add_qos_delivery_target_locked pub idx (targets, b) = (targets @ [?t], bump (targets @ [?t]) b0)"
      using room c old
      by (simp add: add_qos_delivery_target_locked_def at q bump_snoc Let_def del: min_less_iff_conj
          flip: I(4))
    have "hits b0 ?c (pub_topic pub) ?e"
      using True assms(3,4) by (simp add: hits_def sub_at_def)
    then have tok: "target_ok pub b0 ?t" by (auto simp: target_ok_def)
    have "qos_step hit pub idx (seen, targets, b) = (seen @ [?c], targets @ [?t], bump (targets @ [?t]) b0)"
      unfolding qos_step_def Let_def prod.case at add using True by simp
    then show ?thesis
      using True I tok by (simp add: qos_inv_def add_target_def del: min_less_iff_conj)
  qed
qed

lemma qos_fold_inv:
  assumes "qos_inv pub b0 k stb" and "k + length xs \<le> length (bk_subs b0)" and "set xs \<subseteq> {..<length (bk_subs b0)}"
    and "\<forall>i \<in> set xs. sub_in_use (sub_at b0 i) \<longrightarrow> hit (sub_at b0 i) \<longrightarrow>
           topic_match (sub_filter (sub_at b0 i)) (pub_topic pub)"
    and "\<forall>e \<in> set (bk_subs b0). sub_ok b0 e"
  shows "qos_inv pub b0 (k + length xs) (fold (qos_step hit pub) xs stb) \<and>
    fst (fold (qos_step hit pub) xs stb) =
      fold (\<lambda>i seen. if sub_in_use (sub_at b0 i) \<and> hit (sub_at b0 i)
        then add_target (sub_client (sub_at b0 i)) seen else seen) xs (fst stb)"
  using assms(1-4)
proof (induction xs arbitrary: k stb)
  case (Cons x xs)
  obtain seen ts b where stb: "stb = (seen, ts, b)" by (metis surj_pair)
  have x: "x < length (bk_subs b0)" "sub_at b0 x \<in> set (bk_subs b0)"
    using Cons.prems(3) by (auto simp: sub_at_def)
  have "sub_client (sub_at b0 x) < length (bk_clients b0) \<or> \<not> sub_in_use (sub_at b0 x)"
    using assms(5) x(2) by (auto simp: sub_ok_def)
  then have s: "qos_inv pub b0 (Suc k) (qos_step hit pub x stb) \<and>
    fst (qos_step hit pub x stb) = (if sub_in_use (sub_at b0 x) \<and> hit (sub_at b0 x)
       then add_target (sub_client (sub_at b0 x)) seen else seen)"
    unfolding stb using Cons.prems x stb by (intro qos_step_inv) auto
  show ?case
    using Cons.IH [of "Suc k" "qos_step hit pub x stb"] s Cons.prems by (simp add: stb)
qed simp

lemma qos_targets_spec:
  assumes "table_ok b" and "qos_targets pub (topic_bucket b (pub_topic pub)) b = (seen, targets, b')"
  shows "b' = bump targets b \<and> distinct (map dt_client targets) \<and>
    set (map dt_client targets) = audience b (pub_topic pub) \<and> (\<forall>t \<in> set targets. target_ok pub b t)"
proof -
  let ?k = "topic_bucket b (pub_topic pub)" and ?n = "length (bk_subs b)"
  let ?eh = "\<lambda>e. sub_filter e = pub_topic pub" and ?wh = "\<lambda>e. topic_match (sub_filter e) (pub_topic pub)"
  let ?ec = "exact_chain b ?k" and ?wc = "wildcard_chain b"
  have ix: "index_ok b" and ok: "\<forall>e \<in> set (bk_subs b). sub_ok b e"
    using assms(1) by (simp_all add: table_ok_def)
  have subs: "set ?ec \<subseteq> {..<?n}" "set ?wc \<subseteq> {..<?n}" "length ?ec + length ?wc \<le> ?n"
    "i \<in> set ?ec \<Longrightarrow> sub_in_use (sub_at b i) \<Longrightarrow> sub_is_exact (sub_at b i)" for i
  proof -
    have "set ?ec \<subseteq> {..<?n} \<and> set ?wc \<subseteq> {..<?n} \<and> length ?ec + length ?wc \<le> ?n \<and>
        (\<forall>i \<in> set ?ec. sub_is_exact (sub_at b i))"
    proof (cases "bk_subs b = []")
      case True
      then show ?thesis by (simp add: exact_chain_def wildcard_chain_def)
    next
      case False
      then have e: "set ?ec = exact_slots b ?k" "distinct ?ec"
        using exact_chain_slots [OF ix] bucket_or_empty [of b "pub_topic pub"] by auto
      have w: "set ?wc = wildcard_slots b" "distinct ?wc"
        using wildcard_chain_slots [OF ix] by auto
      have "set (?ec @ ?wc) \<subseteq> {..<?n}" using e w exact_slots_sub wildcard_slots_sub by auto
      moreover have "distinct (?ec @ ?wc)"
        using e w by (auto simp: exact_slots_def wildcard_slots_def)
      ultimately have "length (?ec @ ?wc) \<le> ?n"
        using card_mono [of "{..<?n}" "set (?ec @ ?wc)"] by (simp add: distinct_card del: set_append)
      then show ?thesis using e w by (auto simp: exact_slots_def wildcard_slots_def)
    qed
    then show "set ?ec \<subseteq> {..<?n}" "set ?wc \<subseteq> {..<?n}" "length ?ec + length ?wc \<le> ?n"
      "i \<in> set ?ec \<Longrightarrow> sub_in_use (sub_at b i) \<Longrightarrow> sub_is_exact (sub_at b i)" for i by blast+
  qed
  define X where "X = fold (qos_step ?eh pub) ?ec ([], [], b)"
  have sub_exact: "topic_match (sub_filter (sub_at b i)) (pub_topic pub)"
    if "i \<in> set ?ec" "sub_in_use (sub_at b i)" "?eh (sub_at b i)" for i
  proof -
    have "sub_ok b (sub_at b i)" using that(1) subs(1) ok by (auto simp: sub_at_def)
    then show ?thesis
      using that subs(4) tm.exact_self [of "sub_filter (sub_at b i)"] by (simp add: sub_ok_def)
  qed
  have "qos_inv pub b 0 ([], [], b)" by (simp add: qos_inv_def bump_def)
  then have X: "qos_inv pub b (length ?ec) X" "fst X = fold (\<lambda>i seen.
      if sub_in_use (sub_at b i) \<and> ?eh (sub_at b i) then add_target (sub_client (sub_at b i)) seen else seen) ?ec []"
    using qos_fold_inv [of pub b 0 "([], [], b)" ?ec ?eh] subs ok sub_exact by (auto simp: X_def)
  then have Y: "qos_inv pub b (length ?ec + length ?wc) (seen, targets, b')"
    "seen = fold (\<lambda>i seen. if sub_in_use (sub_at b i) \<and> ?wh (sub_at b i)
        then add_target (sub_client (sub_at b i)) seen else seen) ?wc (fst X)"
    using qos_fold_inv [of pub b "length ?ec" X ?wc ?wh] subs ok assms(2)
    by (auto simp: qos_targets_def X_def)
  have "fst X = fold (qos0_exact_step b (pub_topic pub)) ?ec []"
    unfolding X(2) by (intro fold_cong) (auto simp: qos0_exact_step_def fun_eq_iff)
  moreover have "seen = fold (qos0_wildcard_step b (pub_topic pub)) ?wc (fst X)"
    unfolding Y(2) by (intro fold_cong) (auto simp: qos0_wildcard_step_def fun_eq_iff)
  ultimately have "seen = qos0_targets b (pub_topic pub) ?k" by (simp add: qos0_targets_def)
  then show ?thesis
    using Y(1) qos0_targets_audience [OF assms(1), of "pub_topic pub"] by (simp add: qos_inv_def)
qed

subsection \<open>What is sent\<close>

lemma send_frame_other_sock:
  "fd \<noteq> cl_fd (client_at b c) \<Longrightarrow> bk_socks (send_frame c p b) fd = bk_socks b fd"
  by (simp add: send_frame_def client_send_other_sock Let_def split: option.split)

lemma fold_send_frame_sock:
  assumes "accepting (bk_socks b (cl_fd (client_at b c)))"
    and "\<forall>t \<in> set ts. dt_client t \<noteq> c \<longrightarrow> cl_fd (client_at b (dt_client t)) \<noteq> cl_fd (client_at b c)"
  shows "so_sent (bk_socks (fold (\<lambda>t b. send_frame (dt_client t) (m t) b) ts b) (cl_fd (client_at b c)))
    = so_sent (bk_socks b (cl_fd (client_at b c)))
        @ concat (map (\<lambda>t. if dt_client t = c then frame_bytes (m t) else []) ts)"
  using assms
proof (induction ts arbitrary: b)
  case (Cons t ts)
  let ?b = "send_frame (dt_client t) (m t) b"
  have s: "bk_socks ?b (cl_fd (client_at b c)) = (if dt_client t = c
      then (bk_socks b (cl_fd (client_at b c)))\<lparr>so_sent := so_sent (bk_socks b (cl_fd (client_at b c))) @ frame_bytes (m t)\<rparr>
      else bk_socks b (cl_fd (client_at b c)))"
    using Cons.prems by (auto simp: send_frame_socks send_frame_other_sock)
  then have "accepting (bk_socks ?b (cl_fd (client_at ?b c)))"
    using Cons.prems(1) by (auto simp: accepting_def)
  from Cons.IH [OF this] Cons.prems(2) show ?case by (simp add: s)
qed simp

lemma fold_client_send_sock:
  assumes "accepting (bk_socks b (cl_fd (client_at b c)))"
    and "\<forall>d \<in> set ds. d \<noteq> c \<longrightarrow> cl_fd (client_at b d) \<noteq> cl_fd (client_at b c)"
  shows "so_sent (bk_socks (fold (\<lambda>d b. client_send d buf b) ds b) (cl_fd (client_at b c)))
    = so_sent (bk_socks b (cl_fd (client_at b c))) @ concat (map (\<lambda>d. if d = c then buf else []) ds)"
  using assms
proof (induction ds arbitrary: b)
  case (Cons d ds)
  let ?b = "client_send d buf b"
  have s: "bk_socks ?b (cl_fd (client_at b c)) = (if d = c
      then (bk_socks b (cl_fd (client_at b c)))\<lparr>so_sent := so_sent (bk_socks b (cl_fd (client_at b c))) @ buf\<rparr>
      else bk_socks b (cl_fd (client_at b c)))"
    using Cons.prems by (auto simp: client_send_accepting client_send_other_sock)
  then have "accepting (bk_socks ?b (cl_fd (client_at ?b c)))"
    using Cons.prems(1) by (auto simp: accepting_def)
  from Cons.IH [OF this] Cons.prems(2) show ?case by (simp add: s)
qed simp

lemma concat_once:
  assumes "distinct (map f ts)"
  shows "concat (map (\<lambda>t. if f t = c then g t else []) ts)
    = (case find (\<lambda>t. f t = c) ts of None \<Rightarrow> [] | Some t \<Rightarrow> g t)"
  using assms
proof (induction ts)
  case (Cons t ts)
  have "find (\<lambda>u. f u = c) ts = None" if "f t = c"
  proof -
    have "\<forall>u \<in> set ts. f u \<noteq> c" using Cons.prems that by (metis distinct.simps(2) image_eqI list.simps(9) set_map)
    then show ?thesis by (auto simp: find_None_iff)
  qed
  then show ?case using Cons by auto
qed simp

lemma offline_publish_frame [simp]:
  "bk_cfg_p2p (snd (session_offline_publish mf pub b)) = bk_cfg_p2p b"
  "bk_cfg_auth (snd (session_offline_publish mf pub b)) = bk_cfg_auth b"
  "bk_clients (snd (session_offline_publish mf pub b)) = bk_clients b"
  "bk_threads (snd (session_offline_publish mf pub b)) = bk_threads b"
  "bk_subs (snd (session_offline_publish mf pub b)) = bk_subs b"
  "bk_exact_heads (snd (session_offline_publish mf pub b)) = bk_exact_heads b"
  "bk_wildcard_head (snd (session_offline_publish mf pub b)) = bk_wildcard_head b"
  "bk_retains (snd (session_offline_publish mf pub b)) = bk_retains b"
  "bk_calloc_ok (snd (session_offline_publish mf pub b)) = bk_calloc_ok b"
  "bk_socks (snd (session_offline_publish mf pub b)) = bk_socks b"
  "bk_now (snd (session_offline_publish mf pub b)) = bk_now b"
  "bk_p2p (snd (session_offline_publish mf pub b)) = bk_p2p b"
  "bk_activity (snd (session_offline_publish mf pub b)) = bk_activity b"
  "client_at (snd (session_offline_publish mf pub b)) c = client_at b c"
  by (simp_all add: session_offline_publish_def Let_def client_at_def split: option.split)

text \<open>
  The copy of a message for one client: QoS, retain flag and packet id replaced.
\<close>

definition copy_for :: "mqtt_publish \<Rightarrow> broker \<Rightarrow> nat \<Rightarrow> byte \<Rightarrow> mqtt_publish" where
  "copy_for pub b c qos = pub\<lparr>pub_retain := 0, pub_qos := qos,
     pub_packet_id := if qos > 0 then next_id (cl_next_packet_id (client_at b c)) else 0\<rparr>"

lemma topic_bucket_cong: "bk_subs b' = bk_subs b \<Longrightarrow> topic_bucket b' s = topic_bucket b s"
  by (simp add: topic_bucket_def)

lemma audience_cong: "bk_subs b' = bk_subs b \<Longrightarrow> audience b' s = audience b s"
  by (simp add: audience_def hits_def)

lemma publish_qos0_sock:
  assumes "table_ok b" and "pub_qos pub = 0" and "accepting (bk_socks b (cl_fd (client_at b c)))"
    and "\<forall>d \<in> audience b (pub_topic pub). d \<noteq> c \<longrightarrow> cl_fd (client_at b d) \<noteq> cl_fd (client_at b c)"
  shows "so_sent (bk_socks (topic_publish_qos0_locked pub (topic_bucket b (pub_topic pub)) b) (cl_fd (client_at b c)))
    = so_sent (bk_socks b (cl_fd (client_at b c)))
        @ (if c \<in> audience b (pub_topic pub) then frame_bytes (copy_for pub b c 0) else [])"
proof -
  let ?ts = "qos0_targets b (pub_topic pub) (topic_bucket b (pub_topic pub))"
  have t: "distinct ?ts" "set ?ts = audience b (pub_topic pub)"
    using qos0_targets_audience [OF assms(1)] by blast+
  have copy: "pub\<lparr>pub_retain := 0, pub_packet_id := 0\<rparr> = copy_for pub b c 0"
    using assms(2) by (simp add: copy_for_def)
  have "concat (map (\<lambda>d. if d = c then buf else []) ts) = (if c \<in> set ts then buf else [])"
    if "distinct ts" for ts and buf :: "byte list"
    using that by (induction ts) (auto cong: if_cong)
  note this [OF t(1)]
  then have "so_sent (bk_socks (fold (\<lambda>d b. client_send d buf b) ?ts b) (cl_fd (client_at b c)))
      = so_sent (bk_socks b (cl_fd (client_at b c))) @ (if c \<in> audience b (pub_topic pub) then buf else [])" for buf
    using fold_client_send_sock [OF assms(3), of ?ts buf] assms(4) t(2) by simp
  then show ?thesis
    using t(2) unfolding topic_publish_qos0_locked_def Let_def copy frame_bytes_def
    by (auto split: option.split)
qed

lemma publish_qos_sock:
  assumes "table_ok b" and "accepting (bk_socks b (cl_fd (client_at b c)))"
    and "\<forall>d \<in> audience b (pub_topic pub). d \<noteq> c \<longrightarrow> cl_fd (client_at b d) \<noteq> cl_fd (client_at b c)"
  shows "if c \<in> audience b (pub_topic pub)
    then \<exists>e. hits b c (pub_topic pub) e \<and>
      so_sent (bk_socks (topic_publish_qos_locked pub (topic_bucket b (pub_topic pub)) b) (cl_fd (client_at b c)))
      = so_sent (bk_socks b (cl_fd (client_at b c))) @ frame_bytes (copy_for pub b c (min (pub_qos pub) (sub_qos e)))
    else so_sent (bk_socks (topic_publish_qos_locked pub (topic_bucket b (pub_topic pub)) b) (cl_fd (client_at b c)))
      = so_sent (bk_socks b (cl_fd (client_at b c)))"
proof -
  obtain seen ts b' where q: "qos_targets pub (topic_bucket b (pub_topic pub)) b = (seen, ts, b')"
    by (metis surj_pair)
  have T: "b' = bump ts b" "distinct (map dt_client ts)" "set (map dt_client ts) = audience b (pub_topic pub)"
    "\<forall>t \<in> set ts. target_ok pub b t"
    using qos_targets_spec [OF assms(1) q] by blast+
  have "so_sent (bk_socks (topic_publish_qos_locked pub (topic_bucket b (pub_topic pub)) b) (cl_fd (client_at b c)))
      = so_sent (bk_socks b (cl_fd (client_at b c)))
        @ concat (map (\<lambda>t. if dt_client t = c then frame_bytes (target_message pub t) else []) ts)"
    using fold_send_frame_sock [of b' c ts "target_message pub"] assms(2,3) T(1,3)
    by (auto simp: topic_publish_qos_locked_def q)
  also have "concat (map (\<lambda>t. if dt_client t = c then frame_bytes (target_message pub t) else []) ts)
      = (case find (\<lambda>t. dt_client t = c) ts of None \<Rightarrow> [] | Some t \<Rightarrow> frame_bytes (target_message pub t))"
    by (rule concat_once [OF T(2)])
  finally have sent: "so_sent (bk_socks (topic_publish_qos_locked pub (topic_bucket b (pub_topic pub)) b) (cl_fd (client_at b c)))
      = so_sent (bk_socks b (cl_fd (client_at b c)))
        @ (case find (\<lambda>t. dt_client t = c) ts of None \<Rightarrow> [] | Some t \<Rightarrow> frame_bytes (target_message pub t))" .
  show ?thesis
  proof (cases "find (\<lambda>t. dt_client t = c) ts")
    case None
    then have "c \<notin> audience b (pub_topic pub)"
      using T(3) by (force simp: find_None_iff)
    then show ?thesis using sent None by simp
  next
    case (Some t)
    then have t: "t \<in> set ts" "dt_client t = c" by (auto simp: find_Some_iff)
    then obtain e where "hits b c (pub_topic pub) e" "dt_qos t = min (pub_qos pub) (sub_qos e)"
      "target_message pub t = copy_for pub b c (min (pub_qos pub) (sub_qos e))"
      using T(4) by (fastforce simp: target_ok_def target_message_def copy_for_def)
    moreover from this have "c \<in> audience b (pub_topic pub)" by (auto simp: audience_def)
    ultimately show ?thesis using sent Some by auto
  qed
qed

subsection \<open>What publishing leaves alone\<close>

lemma upd_next_id_more [simp]:
  "cl_slot (client_at (upd_client d (\<lambda>cl. cl\<lparr>cl_next_packet_id := f cl\<rparr>) b) c) = cl_slot (client_at b c)"
  "cl_clean_session (client_at (upd_client d (\<lambda>cl. cl\<lparr>cl_next_packet_id := f cl\<rparr>) b) c) = cl_clean_session (client_at b c)"
  "cl_qos2_in (client_at (upd_client d (\<lambda>cl. cl\<lparr>cl_next_packet_id := f cl\<rparr>) b) c) = cl_qos2_in (client_at b c)"
  "cl_has_will (client_at (upd_client d (\<lambda>cl. cl\<lparr>cl_next_packet_id := f cl\<rparr>) b) c) = cl_has_will (client_at b c)"
  "cl_will (client_at (upd_client d (\<lambda>cl. cl\<lparr>cl_next_packet_id := f cl\<rparr>) b) c) = cl_will (client_at b c)"
  by (cases "d < length (bk_clients b)"; cases "d = c";
      simp add: upd_client_def upd_nth_beyond client_at_def)+

lemma send_frame_will [simp]:
  "cl_has_will (client_at (send_frame c pub b) d) = cl_has_will (client_at b d)"
  "cl_will (client_at (send_frame c pub b) d) = cl_will (client_at b d)"
  by (simp_all add: send_frame_def Let_def split: option.split)

lemma fold_client_send_frame [simp]:
  "bk_cfg_p2p (fold (\<lambda>c b. client_send c buf b) cs b) = bk_cfg_p2p b"
  "bk_cfg_auth (fold (\<lambda>c b. client_send c buf b) cs b) = bk_cfg_auth b"
  "bk_threads (fold (\<lambda>c b. client_send c buf b) cs b) = bk_threads b"
  "bk_subs (fold (\<lambda>c b. client_send c buf b) cs b) = bk_subs b"
  "bk_exact_heads (fold (\<lambda>c b. client_send c buf b) cs b) = bk_exact_heads b"
  "bk_wildcard_head (fold (\<lambda>c b. client_send c buf b) cs b) = bk_wildcard_head b"
  "bk_retains (fold (\<lambda>c b. client_send c buf b) cs b) = bk_retains b"
  "bk_sessions (fold (\<lambda>c b. client_send c buf b) cs b) = bk_sessions b"
  "bk_calloc_ok (fold (\<lambda>c b. client_send c buf b) cs b) = bk_calloc_ok b"
  "bk_now (fold (\<lambda>c b. client_send c buf b) cs b) = bk_now b"
  "bk_p2p (fold (\<lambda>c b. client_send c buf b) cs b) = bk_p2p b"
  "bk_activity (fold (\<lambda>c b. client_send c buf b) cs b) = bk_activity b"
  "length (bk_clients (fold (\<lambda>c b. client_send c buf b) cs b)) = length (bk_clients b)"
  "cl_fd (client_at (fold (\<lambda>c b. client_send c buf b) cs b) d) = cl_fd (client_at b d)"
  "cl_slot (client_at (fold (\<lambda>c b. client_send c buf b) cs b) d) = cl_slot (client_at b d)"
  "cl_client_id (client_at (fold (\<lambda>c b. client_send c buf b) cs b) d) = cl_client_id (client_at b d)"
  "cl_clean_session (client_at (fold (\<lambda>c b. client_send c buf b) cs b) d) = cl_clean_session (client_at b d)"
  "cl_qos2_in (client_at (fold (\<lambda>c b. client_send c buf b) cs b) d) = cl_qos2_in (client_at b d)"
  "cl_has_will (client_at (fold (\<lambda>c b. client_send c buf b) cs b) d) = cl_has_will (client_at b d)"
  "cl_will (client_at (fold (\<lambda>c b. client_send c buf b) cs b) d) = cl_will (client_at b d)"
  by (induction cs arbitrary: b) simp_all

lemma fold_send_frame_frame [simp]:
  "bk_cfg_p2p (fold (\<lambda>t b. send_frame (f t) (m t) b) ts b) = bk_cfg_p2p b"
  "bk_cfg_auth (fold (\<lambda>t b. send_frame (f t) (m t) b) ts b) = bk_cfg_auth b"
  "bk_threads (fold (\<lambda>t b. send_frame (f t) (m t) b) ts b) = bk_threads b"
  "bk_subs (fold (\<lambda>t b. send_frame (f t) (m t) b) ts b) = bk_subs b"
  "bk_exact_heads (fold (\<lambda>t b. send_frame (f t) (m t) b) ts b) = bk_exact_heads b"
  "bk_wildcard_head (fold (\<lambda>t b. send_frame (f t) (m t) b) ts b) = bk_wildcard_head b"
  "bk_retains (fold (\<lambda>t b. send_frame (f t) (m t) b) ts b) = bk_retains b"
  "bk_sessions (fold (\<lambda>t b. send_frame (f t) (m t) b) ts b) = bk_sessions b"
  "bk_calloc_ok (fold (\<lambda>t b. send_frame (f t) (m t) b) ts b) = bk_calloc_ok b"
  "bk_now (fold (\<lambda>t b. send_frame (f t) (m t) b) ts b) = bk_now b"
  "bk_p2p (fold (\<lambda>t b. send_frame (f t) (m t) b) ts b) = bk_p2p b"
  "bk_activity (fold (\<lambda>t b. send_frame (f t) (m t) b) ts b) = bk_activity b"
  "length (bk_clients (fold (\<lambda>t b. send_frame (f t) (m t) b) ts b)) = length (bk_clients b)"
  "cl_fd (client_at (fold (\<lambda>t b. send_frame (f t) (m t) b) ts b) d) = cl_fd (client_at b d)"
  "cl_slot (client_at (fold (\<lambda>t b. send_frame (f t) (m t) b) ts b) d) = cl_slot (client_at b d)"
  "cl_client_id (client_at (fold (\<lambda>t b. send_frame (f t) (m t) b) ts b) d) = cl_client_id (client_at b d)"
  "cl_clean_session (client_at (fold (\<lambda>t b. send_frame (f t) (m t) b) ts b) d) = cl_clean_session (client_at b d)"
  "cl_qos2_in (client_at (fold (\<lambda>t b. send_frame (f t) (m t) b) ts b) d) = cl_qos2_in (client_at b d)"
  "cl_has_will (client_at (fold (\<lambda>t b. send_frame (f t) (m t) b) ts b) d) = cl_has_will (client_at b d)"
  "cl_will (client_at (fold (\<lambda>t b. send_frame (f t) (m t) b) ts b) d) = cl_will (client_at b d)"
  by (induction ts arbitrary: b) simp_all

lemma bump_more [simp]:
  "cl_slot (client_at (bump ts b) c) = cl_slot (client_at b c)"
  "cl_clean_session (client_at (bump ts b) c) = cl_clean_session (client_at b c)"
  "cl_qos2_in (client_at (bump ts b) c) = cl_qos2_in (client_at b c)"
  "cl_has_will (client_at (bump ts b) c) = cl_has_will (client_at b c)"
  "cl_will (client_at (bump ts b) c) = cl_will (client_at b c)"
  by (induction ts arbitrary: b) (simp_all add: bump_def)

lemma publish_qos0_frame [simp]:
  "bk_cfg_p2p (topic_publish_qos0_locked pub k b) = bk_cfg_p2p b"
  "bk_cfg_auth (topic_publish_qos0_locked pub k b) = bk_cfg_auth b"
  "bk_threads (topic_publish_qos0_locked pub k b) = bk_threads b"
  "bk_subs (topic_publish_qos0_locked pub k b) = bk_subs b"
  "bk_exact_heads (topic_publish_qos0_locked pub k b) = bk_exact_heads b"
  "bk_wildcard_head (topic_publish_qos0_locked pub k b) = bk_wildcard_head b"
  "bk_retains (topic_publish_qos0_locked pub k b) = bk_retains b"
  "bk_sessions (topic_publish_qos0_locked pub k b) = bk_sessions b"
  "bk_calloc_ok (topic_publish_qos0_locked pub k b) = bk_calloc_ok b"
  "bk_now (topic_publish_qos0_locked pub k b) = bk_now b"
  "bk_p2p (topic_publish_qos0_locked pub k b) = bk_p2p b"
  "bk_activity (topic_publish_qos0_locked pub k b) = bk_activity b"
  "length (bk_clients (topic_publish_qos0_locked pub k b)) = length (bk_clients b)"
  "cl_fd (client_at (topic_publish_qos0_locked pub k b) d) = cl_fd (client_at b d)"
  "cl_slot (client_at (topic_publish_qos0_locked pub k b) d) = cl_slot (client_at b d)"
  "cl_client_id (client_at (topic_publish_qos0_locked pub k b) d) = cl_client_id (client_at b d)"
  "cl_clean_session (client_at (topic_publish_qos0_locked pub k b) d) = cl_clean_session (client_at b d)"
  "cl_qos2_in (client_at (topic_publish_qos0_locked pub k b) d) = cl_qos2_in (client_at b d)"
  "cl_has_will (client_at (topic_publish_qos0_locked pub k b) d) = cl_has_will (client_at b d)"
  "cl_will (client_at (topic_publish_qos0_locked pub k b) d) = cl_will (client_at b d)"
  by (simp_all add: topic_publish_qos0_locked_def Let_def split: option.split)

lemma qos_targets_bump:
  "snd (snd (qos_targets pub k b)) = bump (fst (snd (qos_targets pub k b))) b"
proof -
  have step: "snd (snd (qos_step hit pub i (seen, ts, bump ts b)))
      = bump (fst (snd (qos_step hit pub i (seen, ts, bump ts b)))) b" for hit i seen ts
  proof -
    have "snd (add_qos_delivery_target_locked pub i (ts, bump ts b))
        = bump (fst (add_qos_delivery_target_locked pub i (ts, bump ts b))) b"
      by (auto simp: add_qos_delivery_target_locked_def Let_def bump_snoc)
    then show ?thesis
      by (auto simp: qos_step_def Let_def)
  qed
  have "snd (snd (fold (qos_step hit pub) xs (seen, ts, bump ts b)))
      = bump (fst (snd (fold (qos_step hit pub) xs (seen, ts, bump ts b)))) b" for hit xs seen ts
  proof (induction xs arbitrary: seen ts)
    case (Cons x xs)
    then show ?case
      using step [of hit x seen ts] by (cases "qos_step hit pub x (seen, ts, bump ts b)") simp
  qed simp
  from this [of _ _ "fst Y" "fst (snd Y)" for Y] this [of _ _ "[]" "[]"] show ?thesis
    unfolding qos_targets_def by (metis (no_types, lifting) bump_def fold_simps(1) id_apply prod.collapse)
qed

lemma publish_qos_frame [simp]:
  "bk_cfg_p2p (topic_publish_qos_locked pub k b) = bk_cfg_p2p b"
  "bk_cfg_auth (topic_publish_qos_locked pub k b) = bk_cfg_auth b"
  "bk_threads (topic_publish_qos_locked pub k b) = bk_threads b"
  "bk_subs (topic_publish_qos_locked pub k b) = bk_subs b"
  "bk_exact_heads (topic_publish_qos_locked pub k b) = bk_exact_heads b"
  "bk_wildcard_head (topic_publish_qos_locked pub k b) = bk_wildcard_head b"
  "bk_retains (topic_publish_qos_locked pub k b) = bk_retains b"
  "bk_sessions (topic_publish_qos_locked pub k b) = bk_sessions b"
  "bk_calloc_ok (topic_publish_qos_locked pub k b) = bk_calloc_ok b"
  "bk_now (topic_publish_qos_locked pub k b) = bk_now b"
  "bk_p2p (topic_publish_qos_locked pub k b) = bk_p2p b"
  "bk_activity (topic_publish_qos_locked pub k b) = bk_activity b"
  "length (bk_clients (topic_publish_qos_locked pub k b)) = length (bk_clients b)"
  "cl_fd (client_at (topic_publish_qos_locked pub k b) d) = cl_fd (client_at b d)"
  "cl_slot (client_at (topic_publish_qos_locked pub k b) d) = cl_slot (client_at b d)"
  "cl_client_id (client_at (topic_publish_qos_locked pub k b) d) = cl_client_id (client_at b d)"
  "cl_clean_session (client_at (topic_publish_qos_locked pub k b) d) = cl_clean_session (client_at b d)"
  "cl_qos2_in (client_at (topic_publish_qos_locked pub k b) d) = cl_qos2_in (client_at b d)"
  "cl_has_will (client_at (topic_publish_qos_locked pub k b) d) = cl_has_will (client_at b d)"
  "cl_will (client_at (topic_publish_qos_locked pub k b) d) = cl_will (client_at b d)"
  using qos_targets_bump [of pub k b]
  by (cases "qos_targets pub k b"; simp add: topic_publish_qos_locked_def)+

text \<open>The state of \<open>topic_publish_internal\<close> after the update of the retained store.\<close>

definition retained_state :: "mqtt_publish \<Rightarrow> broker \<Rightarrow> bool \<times> broker" where
  "retained_state pub b =
     (if pub_retain pub = 0 then (True, b)
      else let (ok, b) = retain_store_ensure b
           in (ok, if ok then b\<lparr>bk_retains := map_option (retain_update pub) (bk_retains b)\<rparr> else b))"

definition fan_out :: "mqtt_publish \<Rightarrow> broker \<Rightarrow> broker" where
  "fan_out pub b = (if pub_qos pub = 0 then topic_publish_qos0_locked pub (topic_bucket b (pub_topic pub)) b
     else topic_publish_qos_locked pub (topic_bucket b (pub_topic pub)) b)"

definition after_fan_out :: "mqtt_publish \<Rightarrow> bool \<Rightarrow> broker \<Rightarrow> broker" where
  "after_fan_out pub propagate b =
     (let b = broker_notify_activity (snd (session_offline_publish topic_match pub b))
      in if bk_cfg_p2p b \<and> propagate then p2p_emit (P2PPublish pub) b else b)"

lemma publish_internal_split:
  "topic_publish_internal pub propagate b =
     (let (ok, b) = retained_state pub b
      in if ok then (True, after_fan_out pub propagate (fan_out pub b)) else (False, b))"
proof (cases "pub_retain pub = 0")
  case True
  then show ?thesis
    by (simp add: topic_publish_internal_def retained_state_def fan_out_def after_fan_out_def Let_def)
next
  case False
  obtain ok b1 where "retain_store_ensure b = (ok, b1)" by force
  then show ?thesis
    using False
    by (simp add: topic_publish_internal_def retained_state_def fan_out_def after_fan_out_def Let_def)
qed

lemma retained_state_frame [simp]:
  "bk_clients (snd (retained_state pub b)) = bk_clients b"
  "bk_socks (snd (retained_state pub b)) = bk_socks b"
  "bk_sessions (snd (retained_state pub b)) = bk_sessions b"
  "bk_p2p (snd (retained_state pub b)) = bk_p2p b"
  "bk_activity (snd (retained_state pub b)) = bk_activity b"
  "bk_cfg_p2p (snd (retained_state pub b)) = bk_cfg_p2p b"
  "bk_cfg_auth (snd (retained_state pub b)) = bk_cfg_auth b"
  "bk_threads (snd (retained_state pub b)) = bk_threads b"
  "bk_subs (snd (retained_state pub b)) = bk_subs b"
  "bk_exact_heads (snd (retained_state pub b)) = bk_exact_heads b"
  "bk_wildcard_head (snd (retained_state pub b)) = bk_wildcard_head b"
  "bk_calloc_ok (snd (retained_state pub b)) = bk_calloc_ok b"
  "bk_now (snd (retained_state pub b)) = bk_now b"
  "length (bk_clients (snd (retained_state pub b))) = length (bk_clients b)"
  by (simp_all add: retained_state_def retain_store_ensure_def split: prod.split)

lemma retained_state_client [simp]: "client_at (snd (retained_state pub b)) c = client_at b c"
  by (simp add: client_at_def)

lemma fan_out_frame [simp]:
  "bk_cfg_p2p (fan_out pub b) = bk_cfg_p2p b"
  "bk_cfg_auth (fan_out pub b) = bk_cfg_auth b"
  "bk_threads (fan_out pub b) = bk_threads b"
  "bk_subs (fan_out pub b) = bk_subs b"
  "bk_exact_heads (fan_out pub b) = bk_exact_heads b"
  "bk_wildcard_head (fan_out pub b) = bk_wildcard_head b"
  "bk_calloc_ok (fan_out pub b) = bk_calloc_ok b"
  "bk_now (fan_out pub b) = bk_now b"
  "bk_sessions (fan_out pub b) = bk_sessions b"
  "bk_p2p (fan_out pub b) = bk_p2p b"
  "bk_retains (fan_out pub b) = bk_retains b"
  "bk_activity (fan_out pub b) = bk_activity b"
  "length (bk_clients (fan_out pub b)) = length (bk_clients b)"
  "cl_fd (client_at (fan_out pub b) d) = cl_fd (client_at b d)"
  "cl_slot (client_at (fan_out pub b) d) = cl_slot (client_at b d)"
  "cl_client_id (client_at (fan_out pub b) d) = cl_client_id (client_at b d)"
  "cl_clean_session (client_at (fan_out pub b) d) = cl_clean_session (client_at b d)"
  "cl_qos2_in (client_at (fan_out pub b) d) = cl_qos2_in (client_at b d)"
  "cl_has_will (client_at (fan_out pub b) d) = cl_has_will (client_at b d)"
  "cl_will (client_at (fan_out pub b) d) = cl_will (client_at b d)"
  by (simp_all add: fan_out_def)

lemma after_fan_out_frame [simp]:
  "bk_clients (after_fan_out pub p b) = bk_clients b"
  "bk_socks (after_fan_out pub p b) = bk_socks b"
  "bk_retains (after_fan_out pub p b) = bk_retains b"
  "bk_cfg_p2p (after_fan_out pub p b) = bk_cfg_p2p b"
  "bk_cfg_auth (after_fan_out pub p b) = bk_cfg_auth b"
  "bk_threads (after_fan_out pub p b) = bk_threads b"
  "bk_subs (after_fan_out pub p b) = bk_subs b"
  "bk_exact_heads (after_fan_out pub p b) = bk_exact_heads b"
  "bk_wildcard_head (after_fan_out pub p b) = bk_wildcard_head b"
  "bk_calloc_ok (after_fan_out pub p b) = bk_calloc_ok b"
  "bk_now (after_fan_out pub p b) = bk_now b"
  "length (bk_clients (after_fan_out pub p b)) = length (bk_clients b)"
  by (simp_all add: after_fan_out_def broker_notify_activity_def Let_def)

lemma after_fan_out_client [simp]: "client_at (after_fan_out pub p b) c = client_at b c"
  by (simp add: client_at_def)

lemma publish_internal_frame [simp]:
  "bk_cfg_p2p (snd (topic_publish_internal pub p b)) = bk_cfg_p2p b"
  "bk_cfg_auth (snd (topic_publish_internal pub p b)) = bk_cfg_auth b"
  "bk_threads (snd (topic_publish_internal pub p b)) = bk_threads b"
  "bk_subs (snd (topic_publish_internal pub p b)) = bk_subs b"
  "bk_exact_heads (snd (topic_publish_internal pub p b)) = bk_exact_heads b"
  "bk_wildcard_head (snd (topic_publish_internal pub p b)) = bk_wildcard_head b"
  "bk_calloc_ok (snd (topic_publish_internal pub p b)) = bk_calloc_ok b"
  "bk_now (snd (topic_publish_internal pub p b)) = bk_now b"
  "length (bk_clients (snd (topic_publish_internal pub p b))) = length (bk_clients b)"
  "cl_fd (client_at (snd (topic_publish_internal pub p b)) d) = cl_fd (client_at b d)"
  "cl_slot (client_at (snd (topic_publish_internal pub p b)) d) = cl_slot (client_at b d)"
  "cl_client_id (client_at (snd (topic_publish_internal pub p b)) d) = cl_client_id (client_at b d)"
  "cl_clean_session (client_at (snd (topic_publish_internal pub p b)) d) = cl_clean_session (client_at b d)"
  "cl_qos2_in (client_at (snd (topic_publish_internal pub p b)) d) = cl_qos2_in (client_at b d)"
  "cl_has_will (client_at (snd (topic_publish_internal pub p b)) d) = cl_has_will (client_at b d)"
  "cl_will (client_at (snd (topic_publish_internal pub p b)) d) = cl_will (client_at b d)"
  by (simp_all add: publish_internal_split Let_def split: prod.split)
    (metis retained_state_frame retained_state_client snd_conv)+

text \<open>Publishing keeps the invariants of the table and of the session pool.\<close>

lemma advertised_publish:
  "advertised (snd (topic_publish_internal pub p b)) = advertised b"
proof -
  have "advertised (after_fan_out pub p b') = advertised b'" for b'
    by (simp add: after_fan_out_def Let_def) (simp add: advertised_def broker_notify_activity_def)
  moreover have "advertised (fan_out pub b') = advertised b'" "advertised (snd (retained_state pub b')) = advertised b'" for b'
    by (simp_all add: advertised_def)
  ultimately show ?thesis
    by (cases "retained_state pub b") (simp add: publish_internal_split, metis snd_conv)
qed

lemma table_inv_cong:
  assumes "bk_subs b' = bk_subs b" and "bk_exact_heads b' = bk_exact_heads b"
    and "bk_wildcard_head b' = bk_wildcard_head b" and "length (bk_clients b') = length (bk_clients b)"
    and "advertised b' = advertised b" and "bk_cfg_p2p b' = bk_cfg_p2p b"
  shows "table_inv b' = table_inv b"
proof -
  have "wanted b' = wanted b" by (simp add: wanted_def assms fun_eq_iff)
  then show ?thesis
    using table_ok_cong [OF assms(1-4)] by (simp add: table_inv_def adv_ok_def assms)
qed

lemma table_inv_publish [wf_intros]: "table_inv b \<Longrightarrow> table_inv (snd (topic_publish_internal pub p b))"
  by (subst table_inv_cong [of _ b]) (simp_all add: advertised_publish)

lemma pool_ok_publish [wf_intros]:
  assumes "pool_ok b" and "message_ok pub" and "topic_publishable (pub_topic pub)"
  shows "pool_ok (snd (topic_publish_internal pub p b))"
proof -
  have "pool_ok (after_fan_out pub p b')" if "pool_ok b'" for b'
    using pool_ok_offline [OF that assms(2,3), of topic_match]
    by (subst pool_ok_cong [of _ "snd (session_offline_publish topic_match pub b')"])
      (simp_all add: after_fan_out_def broker_notify_activity_def Let_def)
  moreover have r: "pool_ok (snd (retained_state pub b)) = pool_ok b" by (rule pool_ok_cong) simp_all
  moreover have "pool_ok (fan_out pub (snd (retained_state pub b))) = pool_ok (snd (retained_state pub b))"
    by (rule pool_ok_cong) simp_all
  ultimately show ?thesis
    using assms(1) by (cases "retained_state pub b") (simp add: publish_internal_split)
qed

subsection \<open>The retained store as a map\<close>

interpretation rets: slot_table ret_in_use ret_topic "\<lambda>r. r\<lparr>ret_in_use := False\<rparr>"
  by unfold_locales simp

definition retain_map :: "retain_entry list \<Rightarrow> cstr \<Rightarrow> (byte list \<times> byte) option" where
  "retain_map rs topic = map_option (\<lambda>i. (ret_payload (rs ! i), ret_qos (rs ! i))) (slot_of ret_in_use ret_topic topic rs)"

definition retains_ok :: "retain_entry list \<Rightarrow> bool" where
  "retains_ok rs \<longleftrightarrow> keys_unique ret_in_use ret_topic rs \<and>
     (\<forall>r \<in> set rs. ret_in_use r \<longrightarrow> publish_ok (retained_message 0 r) \<and> topic_publishable (ret_topic r) \<and>
        ret_payload r \<noteq> [] \<and> length (ret_topic r) < MQTT_TOPIC_MAX \<and> ret_qos r \<le> 2)"

lemma slot_of_other:
  assumes "i < length xs" and "used (xs ! i) \<longrightarrow> key (xs ! i) \<noteq> k" and "used e \<longrightarrow> key e \<noteq> k"
  shows "slot_of used key k (upd_nth i (\<lambda>_. e) xs) = slot_of used key k xs"
  using assms
  by (induction xs arbitrary: i) (auto simp: slot_of_def upd_nth_def split: nat.splits)

lemma retain_map_nth:
  "slot_of ret_in_use ret_topic k rs = Some j \<Longrightarrow> retain_map rs k = Some (ret_payload (rs ! j), ret_qos (rs ! j))"
  by (simp add: retain_map_def)

text \<open>The slots of the store, which are all free before it is allocated.\<close>

definition retain_slots :: "broker \<Rightarrow> retain_entry list" where
  "retain_slots b = (case bk_retains b of None \<Rightarrow> replicate TOPIC_RETAIN_MAX zero_retain | Some rs \<Rightarrow> rs)"

lemma retain_update_spec:
  assumes "retains_ok rs" and "message_ok pub" and "topic_publishable (pub_topic pub)"
  shows "retains_ok (retain_update pub rs) \<and>
    retain_map (retain_update pub rs) =
      (if pub_payload pub = [] then (retain_map rs)(pub_topic pub := None)
       else if retain_map rs (pub_topic pub) \<noteq> None \<or> used_count ret_in_use rs < length rs
       then (retain_map rs)(pub_topic pub \<mapsto> (pub_payload pub, pub_qos pub))
       else retain_map rs)"
proof -
  let ?t = "pub_topic pub" and ?slot = "\<lambda>k rs. slot_of ret_in_use ret_topic k rs"
  let ?e = "\<lparr>ret_topic = strncpy_str 128 ?t, ret_payload = pub_payload pub, ret_qos = pub_qos pub, ret_in_use = True\<rparr>"
  have ku: "keys_unique ret_in_use ret_topic rs" using assms(1) by (simp add: retains_ok_def)
  have len: "length ?t < 128" using assms(2) by (simp add: message_ok_def publish_ok_def)
  have e: "ret_in_use ?e" "ret_topic ?e = ?t" using len by simp_all
  have some: "retain_map rs ?t = None \<longleftrightarrow> ?slot ?t rs = None" by (simp add: retain_map_def)
  have store: "retains_ok (upd_nth i (\<lambda>_. ?e) rs) \<and> retain_map (upd_nth i (\<lambda>_. ?e) rs)
      = (retain_map rs)(?t \<mapsto> (pub_payload pub, pub_qos pub))"
    if i: "i < length rs" and free: "?slot ?t rs = Some i \<or> (?slot ?t rs = None \<and> \<not> ret_in_use (rs ! i))"
      and ne: "pub_payload pub \<noteq> []" for i
  proof
    have ns: "?slot (ret_topic ?e) rs = None \<or> ?slot (ret_topic ?e) rs = Some i" using free e by auto
    have "publish_ok (retained_message 0 ?e)"
      using assms(2) len by (auto simp: message_ok_def publish_ok_def retained_message_def zero_publish_def)
    moreover have "ret_qos ?e \<le> 2" using assms(2) by (simp add: message_ok_def publish_ok_def)
    ultimately show "retains_ok (upd_nth i (\<lambda>_. ?e) rs)"
      using assms(1,3) len ne rets.unique_store [OF ku ns] unfolding retains_ok_def
      by (auto dest!: set_upd_nth)
    show "retain_map (upd_nth i (\<lambda>_. ?e) rs) = (retain_map rs)(?t \<mapsto> (pub_payload pub, pub_qos pub))"
    proof
      fix k
      show "retain_map (upd_nth i (\<lambda>_. ?e) rs) k = ((retain_map rs)(?t \<mapsto> (pub_payload pub, pub_qos pub))) k"
      proof (cases "k = ?t")
        case True
        then show ?thesis
          using retain_map_nth [OF rets.slot_of_store [OF ku i e(1) ns]] e(2) i by simp
      next
        case False
        have "ret_in_use (rs ! i) \<longrightarrow> ret_topic (rs ! i) \<noteq> k"
          using free False find_idx_SomeD by (fastforce simp: slot_of_def)
        then have eq: "?slot k (upd_nth i (\<lambda>_. ?e) rs) = ?slot k rs"
          using i False e by (intro slot_of_other) auto
        have "j \<noteq> i" if "?slot k rs = Some j" for j
          using that \<open>ret_in_use (rs ! i) \<longrightarrow> ret_topic (rs ! i) \<noteq> k\<close>
          by (auto simp: slot_of_def dest!: find_idx_SomeD)
        then show ?thesis
          using False eq by (cases "?slot k rs") (auto simp: retain_map_def)
      qed
    qed
  qed
  have idx: "i < length rs" if "?slot ?t rs = Some i" for i
    using that by (auto simp: slot_of_def dest: find_idx_SomeD)
  show ?thesis
  proof (cases "pub_payload pub = []")
    case empty: True
    show ?thesis
    proof (cases "?slot ?t rs")
      case None
      then show ?thesis using empty assms(1) some by (simp add: retain_update_def fun_upd_idem)
    next
      case (Some i)
      have "retain_map (upd_nth i (\<lambda>r. r\<lparr>ret_in_use := False\<rparr>) rs) k = ((retain_map rs)(?t := None)) k" for k
      proof (cases "k = ?t")
        case True
        then show ?thesis using rets.slot_of_release [OF ku Some] by (simp add: retain_map_def)
      next
        case False
        then have "?slot k (upd_nth i (\<lambda>r. r\<lparr>ret_in_use := False\<rparr>) rs) = ?slot k rs"
          using rets.slot_of_release_other [OF ku Some] by simp
        moreover have "j \<noteq> i" if "?slot k rs = Some j" for j
          using that Some False by (auto simp: slot_of_def dest!: find_idx_SomeD)
        ultimately show ?thesis using False by (cases "?slot k rs") (auto simp: retain_map_def)
      qed
      moreover have "retains_ok (upd_nth i (\<lambda>r. r\<lparr>ret_in_use := False\<rparr>) rs)"
        using assms(1) rets.unique_release [OF ku] unfolding retains_ok_def by (auto dest!: set_upd_nth)
      ultimately show ?thesis using empty Some by (simp add: retain_update_def fun_eq_iff)
    qed
  next
    case ne: False
    show ?thesis
    proof (cases "?slot ?t rs")
      case (Some i)
      then show ?thesis using ne store [OF idx [OF Some]] some by (simp add: retain_update_def)
    next
      case none: None
      show ?thesis
      proof (cases "free_slot ret_in_use rs")
        case None
        then have "used_count ret_in_use rs = length rs"
          by (auto simp: free_slot_def find_idx_None used_count_def filter_id_conv)
        then show ?thesis using ne none None some assms(1) by (simp add: retain_update_def)
      next
        case (Some i)
        then have i: "i < length rs" "\<not> ret_in_use (rs ! i)"
          by (auto simp: free_slot_def dest: find_idx_SomeD)
        then have "used_count ret_in_use rs < length rs"
          unfolding used_count_def by (intro length_filter_less [of "rs ! i"]) simp_all
        then show ?thesis using ne none Some store [OF i(1)] i(2) by (simp add: retain_update_def)
      qed
    qed
  qed
qed

subsection \<open>Delivery of retained messages\<close>

text \<open>The packet ids given to a series of messages, from the counter's value on.\<close>

fun number_messages :: "u16 \<Rightarrow> mqtt_publish list \<Rightarrow> mqtt_publish list" where
  "number_messages i [] = []"
| "number_messages i (p # ps) =
     (if pub_qos p > 0 then p\<lparr>pub_packet_id := next_id i\<rparr> # number_messages (next_id i) ps
      else p # number_messages i ps)"

lemma next_id_nonzero: "next_id i \<noteq> 0"
proof -
  have "(1 :: u16) \<noteq> 0" by simp
  then show ?thesis by (auto simp: next_id_def Let_def)
qed

definition packet_for :: "mqtt_publish \<Rightarrow> (byte list \<times> byte \<times> u16) list" where
  "packet_for p = (case packet_build_publish p (MQTT_MAX_PACKET_SIZE + 8) of
     None \<Rightarrow> [] | Some buf \<Rightarrow> [(buf, pub_qos p, pub_packet_id p)])"

lemma retained_fold:
  assumes "c < length (bk_clients b)"
  shows "fst (fold (retained_step c f qos) rs (pkts, b)) = pkts @ concat (map packet_for (number_messages
      (cl_next_packet_id (client_at b c))
      (map (retained_message qos) (filter (\<lambda>r. ret_in_use r \<and> topic_match f (ret_topic r)) rs)))) \<and>
    bk_socks (snd (fold (retained_step c f qos) rs (pkts, b))) = bk_socks b \<and>
    cl_fd (client_at (snd (fold (retained_step c f qos) rs (pkts, b))) d) = cl_fd (client_at b d)"
  using assms
proof (induction rs arbitrary: pkts b)
  case (Cons r rs)
  let ?p = "retained_message qos r"
  let ?inc = "upd_client c (\<lambda>cl. cl\<lparr>cl_next_packet_id := next_id (cl_next_packet_id cl)\<rparr>)"
  show ?case
  proof (cases "ret_in_use r \<and> topic_match f (ret_topic r)")
    case False
    then have "retained_step c f qos r (pkts, b) = (pkts, b)" by (auto simp: retained_step_def)
    moreover have "filter (\<lambda>r. ret_in_use r \<and> topic_match f (ret_topic r)) (r # rs)
        = filter (\<lambda>r. ret_in_use r \<and> topic_match f (ret_topic r)) rs" using False by auto
    ultimately show ?thesis using Cons by (simp only: fold_simps comp_def)
  next
    case hit: True
    show ?thesis
    proof (cases "pub_qos ?p > 0")
      case True
      let ?q = "?p\<lparr>pub_packet_id := next_id (cl_next_packet_id (client_at b c))\<rparr>"
      have "retained_step c f qos r (pkts, b) = (pkts @ packet_for ?q, ?inc b)"
        using hit True Cons.prems by (simp add: retained_step_def packet_for_def Let_def split: option.split)
      then show ?thesis
        using Cons.IH [of "?inc b" "pkts @ packet_for ?q"] Cons.prems hit True by simp
    next
      case False
      have "retained_step c f qos r (pkts, b) = (pkts @ packet_for ?p, b)"
        using hit False by (simp add: retained_step_def packet_for_def Let_def split: option.split)
      then show ?thesis
        using Cons.IH [of b "pkts @ packet_for ?p"] Cons.prems hit False by simp
    qed
  qed
qed simp

lemma send_packets_sock:
  assumes "accepting (bk_socks b (cl_fd (client_at b c)))"
  shows "so_sent (bk_socks (fold (send_packet c) pkts b) (cl_fd (client_at b c)))
    = so_sent (bk_socks b (cl_fd (client_at b c))) @ concat (map fst pkts)"
  using assms
proof (induction pkts arbitrary: b)
  case (Cons p pkts)
  obtain buf q i where p: "p = (buf, q, i)" by (metis surj_pair)
  have s: "bk_socks (send_packet c p b) = (bk_socks b)(cl_fd (client_at b c) :=
      (bk_socks b (cl_fd (client_at b c)))\<lparr>so_sent := so_sent (bk_socks b (cl_fd (client_at b c))) @ buf\<rparr>)"
    and fd: "cl_fd (client_at (send_packet c p b) c) = cl_fd (client_at b c)"
    using Cons.prems by (simp_all add: p send_packet_def Let_def client_send_accepting)
  then have "accepting (bk_socks (send_packet c p b) (cl_fd (client_at (send_packet c p b) c)))"
    using Cons.prems by (simp add: accepting_def)
  from Cons.IH [OF this] show ?case by (simp add: s fd) (simp add: p)
qed simp

lemma concat_packets: "concat (map fst (concat (map packet_for ps))) = wire_frames ps"
  by (induction ps) (auto simp: packet_for_def frame_bytes_def split: option.split)

subsection \<open>Properties\<close>

text \<open>
  C1: fan-out. When a message is published (by a client or by a peer), a connected client
  whose socket takes everything, and whose file descriptor no other recipient has, receives
  nothing if none of its subscriptions matches the topic, and exactly one PUBLISH if one or
  more match: the message with the retain flag cleared, the smaller of the QoS of the message
  and that of one of its matching subscriptions, and, if that is not 0, its next packet id.
\<close>

theorem publish_delivers:
  assumes "table_inv b" and "topic_publish_internal pub p b = (True, b')"
    and "accepting (bk_socks b (cl_fd (client_at b c)))"
    and "\<forall>d \<in> audience b (pub_topic pub). d \<noteq> c \<longrightarrow> cl_fd (client_at b d) \<noteq> cl_fd (client_at b c)"
  shows "if \<exists>e. hits b c (pub_topic pub) e
    then \<exists>e. hits b c (pub_topic pub) e \<and> so_sent (bk_socks b' (cl_fd (client_at b c)))
        = so_sent (bk_socks b (cl_fd (client_at b c)))
          @ frame_bytes (copy_for pub b c (min (pub_qos pub) (sub_qos e)))
    else so_sent (bk_socks b' (cl_fd (client_at b c))) = so_sent (bk_socks b (cl_fd (client_at b c)))"
proof -
  obtain ok b1 where r: "retained_state pub b = (ok, b1)" by force
  have b1: "bk_socks b1 = bk_socks b" "client_at b1 = client_at b" "bk_subs b1 = bk_subs b" "table_ok b1"
    using retained_state_frame [of pub b] retained_state_client [of pub b] assms(1)
      table_ok_cong [of b1 b] by (simp_all add: r fun_eq_iff table_inv_def)
  have b': "b' = after_fan_out pub p (fan_out pub b1)"
    using assms(2) by (simp add: publish_internal_split r split: if_splits)
  have aud: "audience b1 (pub_topic pub) = audience b (pub_topic pub)" by (rule audience_cong [OF b1(3)])
  have hits: "hits b1 = hits b" by (simp add: hits_def b1(3) fun_eq_iff)
  have mem: "c \<in> audience b (pub_topic pub) \<longleftrightarrow> (\<exists>e. hits b c (pub_topic pub) e)" by (simp add: audience_def)
  have copy: "copy_for pub b1 c q = copy_for pub b c q" for q by (simp add: copy_for_def b1(2))
  have ac: "accepting (bk_socks b1 (cl_fd (client_at b1 c)))"
    "\<forall>d \<in> audience b1 (pub_topic pub). d \<noteq> c \<longrightarrow> cl_fd (client_at b1 d) \<noteq> cl_fd (client_at b1 c)"
    using assms(3,4) b1 aud by simp_all
  show ?thesis
  proof (cases "pub_qos pub = 0")
    case True
    have "min 0 q = (0 :: byte)" for q by (simp add: min_def)
    with publish_qos0_sock [OF b1(4) True ac] show ?thesis
      using True mem by (simp add: b' fan_out_def b1 aud copy)
  next
    case False
    with publish_qos_sock [OF b1(4) ac] show ?thesis
      using mem by (cases "\<exists>e. hits b c (pub_topic pub) e")
        (simp_all add: b' fan_out_def b1 aud copy hits cong: if_cong)
  qed
qed

text \<open>
  C5: the recipients of a message collected under the lock are, each once, exactly the clients
  for which the abstract map of subscriptions has a filter matching the topic: the walk along
  one hash bucket and the list of wildcard filters misses none, and for a message with a QoS
  every packet id handed out is non-zero and is the new value of the recipient's counter.
\<close>

theorem fan_out_recipients:
  assumes "table_ok b" and "qos_targets pub (topic_bucket b (pub_topic pub)) b = (seen, targets, b')"
  shows "distinct (qos0_targets b (pub_topic pub) (topic_bucket b (pub_topic pub))) \<and>
    set (qos0_targets b (pub_topic pub) (topic_bucket b (pub_topic pub)))
      = {c. \<exists>f q. sub_map b (c, f) = Some q \<and> topic_match f (pub_topic pub)} \<and>
    distinct (map dt_client targets) \<and>
    set (map dt_client targets) = {c. \<exists>f q. sub_map b (c, f) = Some q \<and> topic_match f (pub_topic pub)} \<and>
    (\<forall>t \<in> set targets. dt_qos t > 0 \<longrightarrow> dt_packet_id t \<noteq> 0 \<and>
       dt_packet_id t = next_id (cl_next_packet_id (client_at b (dt_client t))))"
  unfolding audience_sub_map [OF assms(1), symmetric]
  using qos0_targets_audience [OF assms(1), of "pub_topic pub"] qos_targets_spec [OF assms] next_id_nonzero
  by (auto simp: target_ok_def)

text \<open>
  C17: the retained store keeps one message per topic. Publishing a well-formed message without the
  retain flag leaves the store alone. With the flag it sets the topic's entry, or removes it when the
  payload is empty; when the topic is new and all slots are taken the store stays as it was. The store
  is allocated by the first such message; when that fails, the publish fails and nothing at all
  happens.
\<close>

theorem retain_store_map:
  assumes "retains_ok (retain_slots b)" and "message_ok pub" and "topic_publishable (pub_topic pub)"
  shows "let (ok, b') = topic_publish_internal pub p b; rs = retain_slots b; rs' = retain_slots b' in
    (ok \<longleftrightarrow> pub_retain pub = 0 \<or> bk_retains b \<noteq> None \<or> bk_calloc_ok b) \<and>
    (\<not> ok \<longrightarrow> b' = b) \<and>
    (pub_retain pub = 0 \<longrightarrow> bk_retains b' = bk_retains b) \<and>
    (ok \<and> pub_retain pub \<noteq> 0 \<longrightarrow> bk_retains b' = Some rs' \<and> retains_ok rs' \<and>
      retain_map rs' =
        (if pub_payload pub = [] then (retain_map rs)(pub_topic pub := None)
         else if retain_map rs (pub_topic pub) \<noteq> None \<or> used_count ret_in_use rs < length rs
         then (retain_map rs)(pub_topic pub \<mapsto> (pub_payload pub, pub_qos pub))
         else retain_map rs))"
proof -
  obtain ok b1 where r: "retained_state pub b = (ok, b1)" by force
  have ok: "ok \<longleftrightarrow> pub_retain pub = 0 \<or> bk_retains b \<noteq> None \<or> bk_calloc_ok b" "\<not> ok \<longrightarrow> b1 = b"
    "pub_retain pub = 0 \<longrightarrow> bk_retains b1 = bk_retains b"
    "ok \<and> pub_retain pub \<noteq> 0 \<longrightarrow> bk_retains b1 = Some (retain_update pub (retain_slots b))"
    using r by (auto simp: retained_state_def retain_store_ensure_def retain_slots_def split: if_splits option.splits)
  have "topic_publish_internal pub p b = (if ok then (True, after_fan_out pub p (fan_out pub b1)) else (False, b1))"
    by (simp add: publish_internal_split r)
  then show ?thesis
    using ok retain_update_spec [OF assms] by (auto simp: retain_slots_def [of "after_fan_out pub p (fan_out pub b1)"])
qed

text \<open>
  C18: a new subscription is sent exactly the retained messages whose topic its filter matches,
  in slot order, with the retain flag set, the smaller of the requested and the stored QoS and,
  when that is not 0, consecutive packet ids of the client (skipping 0).
\<close>

theorem retained_delivered:
  assumes "c < length (bk_clients b)" and "bk_retains b = Some rs"
    and "accepting (bk_socks b (cl_fd (client_at b c)))"
  shows "so_sent (bk_socks (topic_deliver_retained c f qos b) (cl_fd (client_at b c)))
    = so_sent (bk_socks b (cl_fd (client_at b c)))
      @ wire_frames (number_messages (cl_next_packet_id (client_at b c))
          (map (retained_message qos) (filter (\<lambda>r. ret_in_use r \<and> topic_match f (ret_topic r)) rs)))"
proof -
  obtain pkts b1 where f: "fold (retained_step c f qos) rs ([], b) = (pkts, b1)" by force
  note R = retained_fold [OF assms(1), of f qos rs "[]" c, unfolded f]
  have "accepting (bk_socks b1 (cl_fd (client_at b1 c)))" using R assms(3) by simp
  from send_packets_sock [OF this, of pkts] R show ?thesis
    by (simp add: topic_deliver_retained_def assms(2) f concat_packets)
qed

text \<open>Witnesses: client 0 of two, subscribed to \<open>a/#\<close> with QoS 1.\<close>

definition one_sub :: broker where
  "one_sub = snd (topic_subscribe 0 [97, 47, 35] 1 ready_broker)"

definition message_ab :: mqtt_publish where
  "message_ab = \<lparr>pub_topic = [97, 47, 98], pub_payload = [104], pub_qos = 2, pub_retain = 1, pub_dup = 0,
     pub_packet_id = 9\<rparr>"

lemma one_sub_inv: "table_inv one_sub"
  unfolding one_sub_def using st.put_inv [OF ready_table ready_good(1)] by simp

lemma one_sub_map: "sub_map one_sub = [(0, [97, 47, 35]) \<mapsto> 1]"
  unfolding one_sub_def using st.put_look [OF ready_table ready_good(1)] ready_room by (simp add: ready_empty)

lemma one_sub_match: "topic_match [97, 47, 35] [97, 47, 98]" by code_simp

lemma one_sub_audience: "audience one_sub [97, 47, 98] = {0}"
proof -
  have "table_ok one_sub" using one_sub_inv by (simp add: table_inv_def)
  from audience_sub_map [OF this] show ?thesis
    using one_sub_match by (auto simp: one_sub_map split: if_splits)
qed

lemma one_sub_env: "client_at one_sub 0 = zero_client\<lparr>cl_fd := -1\<rparr>" "bk_socks one_sub = (\<lambda>_. quiet_sock)"
  "bk_calloc_ok one_sub" "bk_retains one_sub = None" "length (bk_clients one_sub) = 2"
  by (simp_all add: one_sub_def client_at_def)
    (simp_all add: ready_broker_def topic_init_def idle_broker_def client_pool_init_def static_broker_def
      zero_client_def)

lemma one_sub_hit: "hits one_sub 0 [97, 47, 98] e \<Longrightarrow> sub_qos e = 1"
proof -
  assume h: "hits one_sub 0 [97, 47, 98] e"
  have t: "table_ok one_sub" using one_sub_inv by (simp add: table_inv_def)
  have "bare e \<in> set (bare_subs one_sub)" using h by (simp add: hits_def bare_subs_def)
  then have "sub_map one_sub (sub_key e) = Some (sub_qos e)"
    using h sub_map_entry [OF t, of "sub_key e" "sub_qos e"]
    by (auto simp: hits_def intro!: bexI [of _ "bare e"])
  then show "sub_qos e = 1" by (simp add: one_sub_map split: if_splits)
qed

theorem publish_delivers_witness:
  "so_sent (bk_socks (topic_publish message_ab one_sub) (-1)) = [0x32, 8, 0, 3, 97, 47, 98, 0, 1, 104]"
proof -
  obtain b' where b': "topic_publish_internal message_ab True one_sub = (True, b')"
    using one_sub_env(3,4)
    by (cases "topic_publish_internal message_ab True one_sub")
      (auto simp: publish_internal_split retained_state_def retain_store_ensure_def message_ab_def Let_def
        split: if_splits)
  have t: "pub_topic message_ab = [97, 47, 98]" by (simp add: message_ab_def)
  have ac: "accepting (bk_socks one_sub (cl_fd (client_at one_sub 0)))"
    by (simp add: one_sub_env quiet_sock_def accepting_def)
  have only: "\<forall>d \<in> audience one_sub (pub_topic message_ab). d \<noteq> 0 \<longrightarrow>
      cl_fd (client_at one_sub d) \<noteq> cl_fd (client_at one_sub 0)"
    by (simp add: t one_sub_audience)
  have "0 \<in> audience one_sub (pub_topic message_ab)" by (simp add: t one_sub_audience)
  then have hit: "\<exists>e. hits one_sub 0 (pub_topic message_ab) e" by (simp add: audience_def)
  from publish_delivers [OF one_sub_inv b' ac only, unfolded if_P [OF hit]] obtain e where
    "hits one_sub 0 [97, 47, 98] e"
    "so_sent (bk_socks b' (-1)) = frame_bytes (copy_for message_ab one_sub 0 (min 2 (sub_qos e)))"
    by (auto simp: t one_sub_env quiet_sock_def) (simp add: message_ab_def)
  moreover have "frame_bytes (copy_for message_ab one_sub 0 (min 2 1)) = [0x32, 8, 0, 3, 97, 47, 98, 0, 1, 104]"
  proof -
    have "copy_for message_ab one_sub 0 (min 2 1) = \<lparr>pub_topic = [97, 47, 98], pub_payload = [104],
        pub_qos = 1, pub_retain = 0, pub_dup = 0, pub_packet_id = 1\<rparr>"
      by (simp add: copy_for_def message_ab_def one_sub_env zero_client_def next_id_def min_def word_le_nat_alt)
    moreover have "frame_bytes \<lparr>pub_topic = [97, 47, 98], pub_payload = [104], pub_qos = 1,
        pub_retain = 0, pub_dup = 0, pub_packet_id = 1\<rparr> = [0x32, 8, 0, 3, 97, 47, 98, 0, 1, 104]"
      by code_simp
    ultimately show ?thesis by simp
  qed
  ultimately show ?thesis using one_sub_hit by (simp add: topic_publish_def b')
qed

theorem fan_out_recipients_witness:
  "qos0_targets one_sub [97, 47, 98] (topic_bucket one_sub [97, 47, 98]) = [0]"
proof -
  obtain seen ts b' where q: "qos_targets message_ab (topic_bucket one_sub (pub_topic message_ab)) one_sub = (seen, ts, b')"
    by (metis surj_pair)
  have t: "table_ok one_sub" using one_sub_inv by (simp add: table_inv_def)
  have "set (qos0_targets one_sub [97, 47, 98] (topic_bucket one_sub [97, 47, 98])) = {0}"
    "distinct (qos0_targets one_sub [97, 47, 98] (topic_bucket one_sub [97, 47, 98]))"
    using fan_out_recipients [OF t q] one_sub_match
    by (auto simp: message_ab_def one_sub_map split: if_splits)
  then show ?thesis
    by (cases "qos0_targets one_sub [97, 47, 98] (topic_bucket one_sub [97, 47, 98])")
      (auto simp: subset_singleton_iff distinct_length_2_or_more neq_Nil_conv)
qed

lemma zero_retains_ok: "retains_ok (replicate n zero_retain)"
  by (simp add: retains_ok_def keys_unique_def zero_retain_def)

lemma message_ab_ok: "publish_ok message_ab" "topic_publishable (pub_topic message_ab)"
  by (simp_all add: message_ab_def publish_ok_def cstr_ok_def topic_publishable_def has_wildcard_def word_le_nat_alt)

text \<open>The first retained message, for which the store is allocated.\<close>

theorem retain_store_map_witness:
  "retain_map (retain_slots (topic_publish (message_ab\<lparr>pub_retain := 1\<rparr>) (one_sub\<lparr>bk_retains := None, bk_calloc_ok := True\<rparr>))) [97, 47, 98]
    = Some ([104], 2)"
proof -
  let ?b = "one_sub\<lparr>bk_retains := None, bk_calloc_ok := True\<rparr>" and ?m = "message_ab\<lparr>pub_retain := 1\<rparr>"
  have slots: "retain_slots ?b = replicate TOPIC_RETAIN_MAX zero_retain" by (simp add: retain_slots_def)
  have free: "used_count ret_in_use (retain_slots ?b) < length (retain_slots ?b)"
    unfolding slots by (simp add: used_count_def zero_retain_def numeral_eq_Suc)
  have ok: "retains_ok (retain_slots ?b)" unfolding slots by (rule zero_retains_ok)
  have m: "message_ok ?m" "topic_publishable (pub_topic ?m)" "pub_topic ?m = [97, 47, 98]" "pub_payload ?m = [104]"
      "pub_qos ?m = 2" "pub_retain ?m \<noteq> 0"
    using message_ab_ok by (auto simp: message_ab_def message_ok_def publish_ok_def)
  show ?thesis
    using retain_store_map [OF ok m(1,2), of True] m free by (simp add: topic_publish_def Let_def case_prod_beta)
qed

theorem retained_delivered_witness:
  "so_sent (bk_socks (topic_deliver_retained 0 [97, 47, 35] 1
     (one_sub\<lparr>bk_retains := Some [\<lparr>ret_topic = [97, 47, 98], ret_payload = [104], ret_qos = 2, ret_in_use = True\<rparr>]\<rparr>)) (-1))
   = [0x33, 8, 0, 3, 97, 47, 98, 0, 1, 104]"
proof -
  let ?r = "\<lparr>ret_topic = [97, 47, 98], ret_payload = [104], ret_qos = 2, ret_in_use = True\<rparr>"
  let ?b = "one_sub\<lparr>bk_retains := Some [?r]\<rparr>"
  have at: "client_at ?b 0 = zero_client\<lparr>cl_fd := -1\<rparr>"
    using one_sub_env(1) by (simp add: client_at_def)
  have "0 < length (bk_clients ?b)" "bk_retains ?b = Some [?r]" "accepting (bk_socks ?b (cl_fd (client_at ?b 0)))"
    by (simp_all add: one_sub_env at quiet_sock_def accepting_def)
  note D = retained_delivered [OF this, of "[97, 47, 35]" 1]
  have "wire_frames (number_messages 0 [retained_message 1 ?r]) = [0x33, 8, 0, 3, 97, 47, 98, 0, 1, 104]"
    by code_simp
  then show ?thesis
    using D one_sub_match by (simp add: at one_sub_env quiet_sock_def zero_client_def)
qed

end
