(* ===== verification/Client_Handlers.thy ===== *)
theory Client_Handlers
  imports Topic_Publish
begin

text \<open>
  The client connections of \<^verbatim>\<open>src/client.c\<close>: the pool, reading a packet, the handlers, the
  thread of a client and its end.

  A thread is cut into steps where it blocks: \<open>ThreadFirst\<close> waits for the CONNECT packet, \<open>ThreadLoop\<close> is
  at the loop test, \<open>ThreadRecv\<close> is inside \<open>recv_packet\<close>. What it does with one packet is one step of
  the model, though the code takes and releases several locks on the way; how the table and the
  announcements to the peers behave when threads meet there is in \<open>Topic_Table\<close>. A local record that the code declares without initialising it is an
  argument (\<open>stack_conn\<close>, \<open>stack_pub\<close>), so the lemmas hold for any contents of the stack.
\<close>

subsection \<open>The pool\<close>

definition upd_thread :: "nat \<Rightarrow> (thread \<Rightarrow> thread) \<Rightarrow> broker \<Rightarrow> broker" where
  "upd_thread c f b = b\<lparr>bk_threads := upd_nth c f (bk_threads b)\<rparr>"

definition thread_at :: "broker \<Rightarrow> nat \<Rightarrow> thread" where
  "thread_at b c = bk_threads b ! c"

definition set_phase :: "nat \<Rightarrow> phase \<Rightarrow> broker \<Rightarrow> broker" where
  "set_phase c ph b = upd_thread c (\<lambda>t. t\<lparr>th_phase := ph\<rparr>) b"

record client_snapshot =
  cs_slot :: nat
  cs_client_id :: cstr
  cs_keepalive :: u16
  cs_last_seen_ms :: int

definition client_get_snapshots :: "broker \<Rightarrow> nat \<Rightarrow> client_snapshot list" where
  "client_get_snapshots b max_out =
     map (\<lambda>cl. \<lparr>cs_slot = cl_slot cl, cs_client_id = strncpy_str MQTT_CLIENT_ID_MAX (cl_client_id cl),
                cs_keepalive = cl_keepalive cl, cs_last_seen_ms = cl_last_seen_ms cl\<rparr>)
       (take max_out (filter (\<lambda>cl. cl_state cl = CLIENT_STATE_CONNECTED) (bk_clients b)))"

definition client_free_slots :: "broker \<Rightarrow> nat" where
  "client_free_slots b = length (filter (\<lambda>cl. cl_state cl = CLIENT_STATE_FREE) (bk_clients b))"

definition client_used_slots :: "broker \<Rightarrow> nat" where
  "client_used_slots b = length (filter (\<lambda>cl. cl_state cl \<noteq> CLIENT_STATE_FREE) (bk_clients b))"

text \<open>\<open>spawn_ok\<close> is the result of \<open>plat_thread_spawn\<close>.\<close>

definition client_alloc :: "bool \<Rightarrow> int \<Rightarrow> broker \<Rightarrow> nat option \<times> broker" where
  "client_alloc spawn_ok fd b =
     (case find_idx (\<lambda>cl. cl_state cl = CLIENT_STATE_FREE) (bk_clients b) of
        None \<Rightarrow> (None, b)
      | Some c \<Rightarrow>
          if spawn_ok
          then (Some c, upd_thread c (\<lambda>_. \<lparr>th_phase = ThreadFirst, th_errno = EOK\<rparr>)
            (upd_client c (\<lambda>_. zero_client\<lparr>cl_slot := c, cl_fd := fd, cl_state := CLIENT_STATE_CONNECTED\<rparr>) b))
          else (None, upd_client c (\<lambda>_. zero_client\<lparr>cl_slot := c, cl_fd := -1, cl_state := CLIENT_STATE_FREE\<rparr>) b))"

definition plat_close :: "int \<Rightarrow> broker \<Rightarrow> broker" where
  "plat_close fd b = upd_sock fd (\<lambda>s. s\<lparr>so_closed := True\<rparr>) b"

text \<open>The packet an inflight frame is turned back into when its client leaves.\<close>

definition inflight_publish :: "inflight \<Rightarrow> mqtt_publish option" where
  "inflight_publish e =
     (case packet_decode_remaining_len (tl (if_buf e)) of
        None \<Rightarrow> None
      | Some (rlen, rbytes) \<Rightarrow>
          map_option (\<lambda>pub. pub\<lparr>pub_dup := 1\<rparr>)
            (packet_parse_publish
              \<lparr>pkt_type_flags = hd (if_buf e), pkt_remaining_len = 0,
               pkt_buf = take (unat rlen) (drop (1 + rbytes) (if_buf e))\<rparr> zero_publish))"

definition save_inflight :: "inflight \<Rightarrow> session \<Rightarrow> session" where
  "save_inflight e s =
     (if \<not> if_in_use e \<or> if_qos e \<noteq> 1 then s
      else case inflight_publish e of
             None \<Rightarrow> s
           | Some pub \<Rightarrow> snd (session_enqueue pub (if_packet_id e) s))"

definition client_save_session :: "nat \<Rightarrow> broker \<Rightarrow> broker" where
  "client_save_session c b =
     (let subs = topic_get_client_subs c SESSION_SUB_MAX b;
          ((s, _), b) = session_find_or_create (cl_client_id (client_at b c)) b
      in case s of
           None \<Rightarrow> b
         | Some i \<Rightarrow> upd_session i (\<lambda>ses. fold save_inflight (cl_inflight (client_at b c))
                       (session_save_subs subs ses)) b)"

definition client_free :: "nat \<Rightarrow> broker \<Rightarrow> broker" where
  "client_free c b =
     (let b = (if cl_fd (client_at b c) \<ge> 0
               then upd_client c (\<lambda>cl. cl\<lparr>cl_fd := -1\<rparr>) (plat_close (cl_fd (client_at b c)) b) else b);
          b = (if cl_has_will (client_at b c)
               then upd_client c (\<lambda>cl. cl\<lparr>cl_has_will := False\<rparr>) (topic_publish (cl_will (client_at b c)) b) else b);
          b = (if \<not> cl_clean_session (client_at b c) then client_save_session c b else b);
          b = topic_unsubscribe_all c b;
          b = (if cl_clean_session (client_at b c) then session_delete (cl_client_id (client_at b c)) b else b)
      in upd_client c (set_state CLIENT_STATE_FREE) b)"

subsection \<open>Reading a packet\<close>

text \<open>
  The result of a failed read is the error code \<open>errno\<close> is set to, or \<open>None\<close> when nothing sets
  it (the peer closed the connection, or the packet is malformed).
\<close>

function recv_exact :: "nat \<Rightarrow> sock \<Rightarrow> (errno option + byte list) \<times> sock" where
  "recv_exact n s =
     (if n = 0 then (Inr [], s)
      else case plat_recv n s of
             (Inl e, s) \<Rightarrow> (Inl e, s)
           | (Inr bs, s) \<Rightarrow>
               (case recv_exact (n - length bs) s of
                  (Inl e, s) \<Rightarrow> (Inl e, s)
                | (Inr cs, s) \<Rightarrow> (Inr (bs @ cs), s)))"
  by pat_completeness auto
termination
  by (relation "measure fst") (auto dest!: plat_recv_progress [OF sym])

declare recv_exact.simps [simp del]

text \<open>The loop over the remaining-length bytes; the C variable \<open>multiplier\<close> is \<open>128 ^ k\<close>.\<close>

function recv_rlen :: "nat \<Rightarrow> byte \<Rightarrow> u32 \<Rightarrow> sock \<Rightarrow> (errno option + u32) \<times> sock" where
  "recv_rlen k hdr rlen s =
     (if hdr AND 0x80 = 0 then (Inr rlen, s)
      else case recv_exact 1 s of
             (Inl e, s) \<Rightarrow> (Inl e, s)
           | (Inr bs, s) \<Rightarrow>
               (let rlen = rlen + ucast (hd bs AND 0x7F) * 128 ^ k
                in if 3 < Suc k then (Inl None, s) else recv_rlen (Suc k) (hd bs) rlen s))"
  by pat_completeness auto
termination
  by (relation "measure (\<lambda>(k, hdr, rlen, s). 4 - k)") auto

declare recv_rlen.simps [simp del]

definition sock_recv_packet :: "sock \<Rightarrow> (errno option + mqtt_packet) \<times> sock" where
  "sock_recv_packet s =
     (case recv_exact 2 s of
        (Inl e, s) \<Rightarrow> (Inl e, s)
      | (Inr hdr, s) \<Rightarrow>
          (case recv_rlen 1 (hdr ! 1) (ucast (hdr ! 1 AND 0x7F)) s of
             (Inl e, s) \<Rightarrow> (Inl e, s)
           | (Inr rlen, s) \<Rightarrow>
               if unat rlen > MQTT_MAX_PACKET_SIZE then (Inl None, s)
               else (case recv_exact (unat rlen) s of
                       (Inl e, s) \<Rightarrow> (Inl e, s)
                     | (Inr body, s) \<Rightarrow>
                         (Inr \<lparr>pkt_type_flags = hdr ! 0, pkt_remaining_len = rlen, pkt_buf = body\<rparr>, s))))"

definition recv_packet :: "nat \<Rightarrow> broker \<Rightarrow> mqtt_packet option \<times> broker" where
  "recv_packet c b =
     (let fd = cl_fd (client_at b c); (r, s) = sock_recv_packet (bk_socks b fd); b = upd_sock fd (\<lambda>_. s) b
      in case r of
           Inr pkt \<Rightarrow> (Some pkt, b)
         | Inl None \<Rightarrow> (None, b)
         | Inl (Some e) \<Rightarrow> (None, upd_thread c (\<lambda>t. t\<lparr>th_errno := e\<rparr>) b))"

subsection \<open>CONNECT\<close>

text \<open>A reply: the bytes of a builder that can only fail where the code excludes it.\<close>

definition send_reply :: "nat \<Rightarrow> byte list option \<Rightarrow> broker \<Rightarrow> broker" where
  "send_reply c reply b = (case reply of None \<Rightarrow> b | Some buf \<Rightarrow> client_send c buf b)"

definition close_client :: "nat \<Rightarrow> broker \<Rightarrow> broker" where
  "close_client c b = upd_client c (set_state CLIENT_STATE_DISCONNECTING) b"

definition client_takeover :: "nat \<Rightarrow> cstr \<Rightarrow> broker \<Rightarrow> broker" where
  "client_takeover newcomer client_id b = b\<lparr>bk_clients :=
     map (\<lambda>(i, cl). if i = newcomer then cl
                    else if cl_state cl \<noteq> CLIENT_STATE_CONNECTED then cl
                    else if cl_client_id cl = client_id then set_state CLIENT_STATE_DISCONNECTING cl
                    else cl)
       (enumerate 0 (bk_clients b))\<rparr>"

definition auth_failed :: "broker \<Rightarrow> mqtt_connect \<Rightarrow> bool" where
  "auth_failed b conn =
     (case bk_cfg_auth b of
        None \<Rightarrow> False
      | Some (user, pass) \<Rightarrow> \<not> conn_has_username conn \<or> \<not> conn_has_password conn \<or>
          conn_username conn \<noteq> user \<or> conn_password conn \<noteq> pass)"

definition tick_sec :: "u16 \<Rightarrow> nat" where
  "tick_sec keepalive =
     (let t = (if keepalive > 0 \<and> unat keepalive div 2 < 5 then unat keepalive div 2 else 5)
      in if t < 1 then 1 else t)"

definition set_rcvtimeo :: "nat \<Rightarrow> nat \<Rightarrow> broker \<Rightarrow> broker" where
  "set_rcvtimeo c sec b = upd_sock (cl_fd (client_at b c)) (\<lambda>s. s\<lparr>so_timeout := sec\<rparr>) b"

definition adopt_connect :: "mqtt_connect \<Rightarrow> client \<Rightarrow> client" where
  "adopt_connect conn cl =
     (let cl = cl\<lparr>cl_client_id := strncpy_str MQTT_CLIENT_ID_MAX (conn_client_id conn),
                  cl_clean_session := conn_clean_session conn, cl_keepalive := conn_keepalive conn,
                  cl_has_will := conn_has_will conn\<rparr>
      in if conn_has_will conn
         then cl\<lparr>cl_will := (cl_will cl)\<lparr>pub_topic := strncpy_str MQTT_TOPIC_MAX (conn_will_topic conn),
                pub_payload := conn_will_payload conn, pub_qos := conn_will_qos conn,
                pub_retain := conn_will_retain conn\<rparr>\<rparr>
         else cl)"

definition restore_session :: "nat \<Rightarrow> nat \<Rightarrow> broker \<Rightarrow> broker" where
  "restore_session s c b =
     (let b = fold (\<lambda>(f, q) b. snd (topic_subscribe c f q b)) (ses_subs (session_at b s)) b;
          b = upd_session s (\<lambda>ses. ses\<lparr>ses_offline := False\<rparr>) b
      in session_drain s c b)"

definition accept_connect :: "nat \<Rightarrow> mqtt_connect \<Rightarrow> broker \<Rightarrow> broker" where
  "accept_connect c conn b =
     (let b = client_takeover c (conn_client_id conn) b;
          b = upd_client c (adopt_connect conn) b;
          ((sess, present), b) = (if conn_clean_session conn
             then ((None, False), session_delete (conn_client_id conn) b)
             else session_find_or_create (conn_client_id conn) b);
          b = send_reply c (packet_build_connack (if present then 1 else 0) CONNACK_ACCEPTED 4) b;
          b = set_rcvtimeo c (tick_sec (cl_keepalive (client_at b c))) b
      in case sess of
           Some s \<Rightarrow> if present then restore_session s c b else b
         | None \<Rightarrow> b)"

definition handle_connect :: "mqtt_connect \<Rightarrow> nat \<Rightarrow> mqtt_packet \<Rightarrow> broker \<Rightarrow> broker" where
  "handle_connect stack_conn c pkt b =
     (case packet_parse_connect pkt stack_conn of
        Inl UnsupportedLevel \<Rightarrow>
          close_client c (send_reply c (packet_build_connack 0 CONNACK_UNACCEPTABLE_PROTO 4) b)
      | Inl Malformed \<Rightarrow> close_client c b
      | Inr conn \<Rightarrow>
          if auth_failed b conn
          then close_client c (send_reply c (packet_build_connack 0 CONNACK_BAD_CREDENTIALS 4) b)
          else if conn_has_will conn \<and> conn_will_qos conn = 3 then close_client c b
          else if conn_has_will conn \<and> (conn_will_topic conn = [] \<or> has_wildcard (conn_will_topic conn))
          then close_client c (send_reply c (packet_build_connack 0 CONNACK_ID_REJECTED 4) b)
          else if conn_client_id conn = [] \<and> \<not> conn_clean_session conn
          then close_client c (send_reply c (packet_build_connack 0 CONNACK_ID_REJECTED 4) b)
          else accept_connect c conn b)"

subsection \<open>PUBLISH\<close>

definition handle_publish_qos2 :: "nat \<Rightarrow> mqtt_publish \<Rightarrow> broker \<Rightarrow> broker" where
  "handle_publish_qos2 c pub b =
     (let table = cl_qos2_in (client_at b c);
          dup = slot_of q2_in_use q2_packet_id (pub_packet_id pub) table;
          b = (if dup \<noteq> None then b
               else case free_slot q2_in_use table of
                      None \<Rightarrow> b
                    | Some i \<Rightarrow> topic_publish pub (upd_client c (\<lambda>cl. cl\<lparr>cl_qos2_in :=
                        upd_nth i (\<lambda>_. \<lparr>q2_packet_id = pub_packet_id pub, q2_in_use = True\<rparr>) (cl_qos2_in cl)\<rparr>) b))
      in send_reply c (packet_build_pubrec (pub_packet_id pub) 4) b)"

definition handle_publish :: "mqtt_publish \<Rightarrow> nat \<Rightarrow> mqtt_packet \<Rightarrow> broker \<Rightarrow> broker" where
  "handle_publish stack_pub c pkt b =
     (case packet_parse_publish pkt stack_pub of
        None \<Rightarrow> b
      | Some pub \<Rightarrow>
          if pub_qos pub = 3 then close_client c b
          else if pub_topic pub = [] \<or> has_wildcard (pub_topic pub) then close_client c b
          else if pub_qos pub > 0 \<and> pub_packet_id pub = 0 then close_client c b
          else if pub_qos pub = 2 then handle_publish_qos2 c pub b
          else (let b = topic_publish pub b
                in if pub_qos pub = 1 then send_reply c (packet_build_puback (pub_packet_id pub) 4) b else b))"

subsection \<open>SUBSCRIBE and UNSUBSCRIBE\<close>

definition subscribe_one :: "nat \<Rightarrow> cstr \<times> byte \<Rightarrow> byte list \<times> broker \<Rightarrow> byte list \<times> broker" where
  "subscribe_one c fq cb =
     (let (f, qos) = fq; (codes, b) = cb in
      if qos > 2 then (codes @ [0x80], b)
      else if \<not> topic_filter_valid f then (codes @ [0x80], b)
      else let (ok, b) = topic_subscribe c f qos b in (codes @ [if ok then qos else 0x80], b))"

definition handle_subscribe :: "nat \<Rightarrow> mqtt_packet \<Rightarrow> broker \<Rightarrow> broker" where
  "handle_subscribe c pkt b =
     (case packet_parse_subscribe pkt 8 of
        (packet_id, None) \<Rightarrow> close_client c b
      | (packet_id, Some topics) \<Rightarrow>
          if packet_id = 0 then close_client c b
          else if topics = [] then close_client c b
          else (let (codes, b) = fold (subscribe_one c) topics ([], b);
                    b = send_reply c (packet_build_suback packet_id codes 32) b
                in fold (\<lambda>((f, q), code) b. if code \<noteq> 0x80 then topic_deliver_retained c f q b else b)
                     (zip topics codes) b))"

text \<open>The loop stops at the first invalid filter and then closes: the result is \<open>False\<close>.\<close>

fun unsubscribe_topics :: "nat \<Rightarrow> cstr list \<Rightarrow> broker \<Rightarrow> bool \<times> broker" where
  "unsubscribe_topics c [] b = (True, b)"
| "unsubscribe_topics c (f # fs) b =
     (if \<not> topic_filter_valid f then (False, close_client c b)
      else unsubscribe_topics c fs (topic_unsubscribe c f b))"

definition handle_unsubscribe :: "nat \<Rightarrow> mqtt_packet \<Rightarrow> broker \<Rightarrow> broker" where
  "handle_unsubscribe c pkt b =
     (case packet_parse_unsubscribe pkt 8 of
        (packet_id, None) \<Rightarrow> close_client c b
      | (packet_id, Some topics) \<Rightarrow>
          if packet_id = 0 then close_client c b
          else if topics = [] then close_client c b
          else (case unsubscribe_topics c topics b of
                  (False, b) \<Rightarrow> b
                | (True, b) \<Rightarrow> send_reply c (packet_build_unsuback packet_id 4) b))"

definition handle_pingreq :: "nat \<Rightarrow> broker \<Rightarrow> broker" where
  "handle_pingreq c b = send_reply c (packet_build_pingresp 2) b"

definition handle_disconnect :: "nat \<Rightarrow> broker \<Rightarrow> broker" where
  "handle_disconnect c b =
     upd_client c (\<lambda>cl. cl\<lparr>cl_has_will := False, cl_state := CLIENT_STATE_DISCONNECTING\<rparr>) b"

subsection \<open>Acknowledgements\<close>

definition handle_pubrec :: "nat \<Rightarrow> u16 \<Rightarrow> broker \<Rightarrow> broker" where
  "handle_pubrec c rid b =
     (case find_idx (\<lambda>e. if_in_use e \<and> if_packet_id e = rid \<and> if_qos e = 2 \<and> \<not> if_waiting_pubcomp e)
             (cl_inflight (client_at b c)) of
        None \<Rightarrow> b
      | Some i \<Rightarrow>
          (case packet_build_pubrel rid 4 of
             None \<Rightarrow> b
           | Some rel \<Rightarrow> upd_client c (\<lambda>cl. cl\<lparr>cl_inflight := upd_nth i
               (\<lambda>e. e\<lparr>if_waiting_pubcomp := True, if_sent_at_ms := bk_now b, if_buf := rel\<rparr>) (cl_inflight cl)\<rparr>)
               (client_send c rel b)))"

definition handle_pubrel :: "nat \<Rightarrow> u16 \<Rightarrow> broker \<Rightarrow> broker" where
  "handle_pubrel c rid b =
     (let b = (case slot_of q2_in_use q2_packet_id rid (cl_qos2_in (client_at b c)) of
                 None \<Rightarrow> b
               | Some i \<Rightarrow> upd_client c (\<lambda>cl. cl\<lparr>cl_qos2_in :=
                   upd_nth i (\<lambda>e. e\<lparr>q2_in_use := False\<rparr>) (cl_qos2_in cl)\<rparr>) b)
      in send_reply c (packet_build_pubcomp rid 4) b)"

subsection \<open>The loop of the client thread\<close>

definition bad_flags :: "byte \<Rightarrow> bool" where
  "bad_flags type_flags =
     (let type = type_flags AND 0xF0; lower = type_flags AND 0x0F in
      if type = MQTT_SUBSCRIBE \<or> type = MQTT_UNSUBSCRIBE \<or> type = MQTT_PUBREL then lower \<noteq> 2
      else if type = MQTT_PUBLISH then False
      else lower \<noteq> 0)"

definition is_ack :: "byte \<Rightarrow> bool" where
  "is_ack type \<longleftrightarrow> type = MQTT_PUBACK \<or> type = MQTT_PUBREC \<or> type = MQTT_PUBREL \<or> type = MQTT_PUBCOMP"

definition bad_rem :: "byte \<Rightarrow> u32 \<Rightarrow> bool" where
  "bad_rem type remaining_len =
     (if is_ack type then remaining_len \<noteq> 2
      else if type = MQTT_PINGREQ \<or> type = MQTT_DISCONNECT then remaining_len \<noteq> 0
      else if type = MQTT_SUBSCRIBE \<or> type = MQTT_UNSUBSCRIBE then remaining_len < 2
      else False)"

text \<open>The checks before the dispatch: \<open>True\<close> when the packet is to be refused.\<close>

definition packet_refused :: "mqtt_packet \<Rightarrow> bool" where
  "packet_refused pkt =
     (let type = pkt_type_flags pkt AND 0xF0 in
      type = 0 \<or> type = 0xF0 \<or> bad_flags (pkt_type_flags pkt) \<or> bad_rem type (pkt_remaining_len pkt) \<or>
      (is_ack type \<and> read_u16 (pkt_buf pkt) 0 = 0))"

definition dispatch :: "mqtt_publish \<Rightarrow> nat \<Rightarrow> mqtt_packet \<Rightarrow> broker \<Rightarrow> broker" where
  "dispatch stack_pub c pkt b =
     (let type = pkt_type_flags pkt AND 0xF0; id = read_u16 (pkt_buf pkt) 0 in
      if type = MQTT_CONNECT then close_client c b
      else if type = MQTT_PUBLISH then handle_publish stack_pub c pkt b
      else if type = MQTT_SUBSCRIBE then handle_subscribe c pkt b
      else if type = MQTT_UNSUBSCRIBE then handle_unsubscribe c pkt b
      else if type = MQTT_PINGREQ then handle_pingreq c b
      else if type = MQTT_DISCONNECT then handle_disconnect c b
      else if type = MQTT_PUBACK then (if length (pkt_buf pkt) \<ge> 2 then client_inflight_ack c id b else b)
      else if type = MQTT_PUBREC then (if length (pkt_buf pkt) \<ge> 2 then handle_pubrec c id b else b)
      else if type = MQTT_PUBREL then (if length (pkt_buf pkt) \<ge> 2 then handle_pubrel c id b else b)
      else if type = MQTT_PUBCOMP then (if length (pkt_buf pkt) \<ge> 2 then client_inflight_ack c id b else b)
      else b)"

text \<open>
  A packet has been read: the clock is noted, the checks are made, and the packet is handled
  unless the client has been told to go. \<open>False\<close> stands for \<open>break\<close>.
\<close>

definition process_packet :: "mqtt_publish \<Rightarrow> nat \<Rightarrow> mqtt_packet \<Rightarrow> broker \<Rightarrow> bool \<times> broker" where
  "process_packet stack_pub c pkt b =
     (let b = upd_client c (\<lambda>cl. cl\<lparr>cl_last_seen_ms := bk_now b\<rparr>) b in
      if packet_refused pkt then (False, close_client c b)
      else if cl_state (client_at b c) \<noteq> CLIENT_STATE_CONNECTED then (False, b)
      else (True, dispatch stack_pub c pkt b))"

text \<open>
  The read failed: whether this was a timeout is decided by \<open>errno\<close>. \<open>True\<close> stands for
  \<open>continue\<close>, \<open>False\<close> for \<open>break\<close>.
\<close>

definition recv_failed :: "nat \<Rightarrow> broker \<Rightarrow> bool \<times> broker" where
  "recv_failed c b =
     (if th_errno (thread_at b c) = EAGAIN \<or> th_errno (thread_at b c) = ETIMEDOUT then
        if cl_keepalive (client_at b c) > 0 \<and>
           bk_now b - cl_last_seen_ms (client_at b c) > int (unat (cl_keepalive (client_at b c))) * 1500
        then (False, b)
        else (True, client_inflight_retry c b)
      else (False, b))"

definition thread_end :: "nat \<Rightarrow> broker \<Rightarrow> broker" where
  "thread_end c b = set_phase c ThreadIdle (client_free c b)"

definition thread_first :: "mqtt_connect \<Rightarrow> nat \<Rightarrow> broker \<Rightarrow> broker" where
  "thread_first stack_conn c b =
     (let (r, b) = recv_packet c (set_rcvtimeo c 10 b)
      in case r of
           None \<Rightarrow> thread_end c b
         | Some pkt \<Rightarrow>
             if pkt_type_flags pkt \<noteq> MQTT_CONNECT then thread_end c b
             else set_phase c ThreadLoop (handle_connect stack_conn c pkt b))"

definition thread_loop :: "nat \<Rightarrow> broker \<Rightarrow> broker" where
  "thread_loop c b =
     (if cl_state (client_at b c) = CLIENT_STATE_CONNECTED then set_phase c ThreadRecv b else thread_end c b)"

definition thread_recv :: "mqtt_publish \<Rightarrow> nat \<Rightarrow> broker \<Rightarrow> broker" where
  "thread_recv stack_pub c b =
     (let (r, b) = recv_packet c b;
          (go, b) = (case r of None \<Rightarrow> recv_failed c b | Some pkt \<Rightarrow> process_packet stack_pub c pkt b)
      in if go then set_phase c ThreadLoop b else thread_end c b)"

definition client_thread_step :: "mqtt_connect \<Rightarrow> mqtt_publish \<Rightarrow> nat \<Rightarrow> broker \<Rightarrow> broker" where
  "client_thread_step stack_conn stack_pub c b =
     (case th_phase (thread_at b c) of
        ThreadIdle \<Rightarrow> b
      | ThreadFirst \<Rightarrow> thread_first stack_conn c b
      | ThreadLoop \<Rightarrow> thread_loop c b
      | ThreadRecv \<Rightarrow> thread_recv stack_pub c b)"

end
