(* ===== verification/Broker_Benign.thy ===== *)
theory Broker_Benign
  imports Client_Handlers
begin

text \<open>
  Well-formed clients (\<open>client_ok\<close>), what a delivery may change of the other clients (\<open>benign\<close>),
  and the invariant of the tables and clients (\<open>core_ok\<close>). The lemmas show that sending,
  retransmitting, subscribing, unsubscribing and publishing keep that invariant and change the
  clients only as a delivery does (\<open>keeps\<close>).
\<close>

subsection \<open>Well-formed clients\<close>

definition inflight_ok :: "inflight \<Rightarrow> bool" where
  "inflight_ok e \<longleftrightarrow> (if_in_use e \<longrightarrow>
     (if if_waiting_pubcomp e then if_qos e = 2 \<and> packet_build_pubrel (if_packet_id e) 4 = Some (if_buf e)
      else \<exists>p. publish_ok p \<and> topic_publishable (pub_topic p) \<and> pub_qos p > 0 \<and>
        pub_qos p = if_qos e \<and> pub_packet_id p = if_packet_id e \<and>
        packet_build_publish p (MQTT_MAX_PACKET_SIZE + 8) = Some (if_buf e)))"

definition client_ok :: "nat \<Rightarrow> client \<Rightarrow> bool" where
  "client_ok i cl \<longleftrightarrow>
     cl_slot cl = i \<and> cstr_ok (cl_client_id cl) \<and> length (cl_client_id cl) < MQTT_CLIENT_ID_MAX \<and>
     length (cl_inflight cl) = CLIENT_INFLIGHT_MAX \<and> (\<forall>e \<in> set (cl_inflight cl). inflight_ok e) \<and>
     length (cl_qos2_in cl) = CLIENT_QOS2_IN_MAX \<and> keys_unique q2_in_use q2_packet_id (cl_qos2_in cl) \<and>
     pub_packet_id (cl_will cl) = 0 \<and> pub_dup (cl_will cl) = 0 \<and>
     (cl_has_will cl \<longrightarrow> message_ok (cl_will cl) \<and> topic_publishable (pub_topic (cl_will cl)))"

definition live :: "broker \<Rightarrow> nat \<Rightarrow> bool" where
  "live b c \<longleftrightarrow> c < length (bk_clients b) \<and> cl_state (client_at b c) \<noteq> CLIENT_STATE_FREE"

text \<open>
  From \<open>b\<close> to \<open>b'\<close> the clients keep their identity and well-formedness: the file descriptor, and
  whether the slot is free, do not change.
\<close>

definition benign :: "broker \<Rightarrow> broker \<Rightarrow> bool" where
  "benign b b' \<longleftrightarrow>
     length (bk_clients b') = length (bk_clients b) \<and> bk_threads b' = bk_threads b \<and>
     bk_cfg_p2p b' = bk_cfg_p2p b \<and>
     (\<forall>c < length (bk_clients b).
        (client_ok c (client_at b c) \<longrightarrow> client_ok c (client_at b' c)) \<and>
        (cl_state (client_at b' c) = CLIENT_STATE_FREE \<longleftrightarrow> cl_state (client_at b c) = CLIENT_STATE_FREE) \<and>
        cl_fd (client_at b' c) = cl_fd (client_at b c)) \<and>
     (\<forall>fd. so_closed (bk_socks b' fd) = so_closed (bk_socks b fd))"

lemma benign_refl [simp, intro]: "benign b b"
  by (simp add: benign_def)

lemma benign_trans: "benign b b' \<Longrightarrow> benign b' b'' \<Longrightarrow> benign b b''"
  by (auto simp: benign_def)

lemma benign_live: "benign b b' \<Longrightarrow> live b' c = live b c"
  by (auto simp: benign_def live_def)

lemma benign_same:
  assumes "bk_clients b' = bk_clients b" and "bk_threads b' = bk_threads b" and "bk_cfg_p2p b' = bk_cfg_p2p b"
    and "\<And>fd. so_closed (bk_socks b' fd) = so_closed (bk_socks b fd)"
  shows "benign b b'"
  using assms by (simp add: benign_def client_at_def)

lemma benign_upd_client:
  assumes "client_ok c (client_at b c) \<Longrightarrow> client_ok c (f (client_at b c))"
    and "cl_fd (f (client_at b c)) = cl_fd (client_at b c)"
    and "cl_state (f (client_at b c)) = CLIENT_STATE_FREE \<longleftrightarrow> cl_state (client_at b c) = CLIENT_STATE_FREE"
  shows "benign b (upd_client c f b)"
proof -
  have e: "client_at (upd_client c f b) d = (if d = c then f (client_at b d) else client_at b d)"
    if "d < length (bk_clients b)" for d
    using that by (cases "d = c") auto
  show ?thesis using assms by (simp add: benign_def e)
qed

lemma benign_fold:
  assumes "\<And>x b. x \<in> set xs \<Longrightarrow> P b \<Longrightarrow> benign b (f x b) \<and> P (f x b)" and "P b"
  shows "benign b (fold f xs b) \<and> P (fold f xs b)"
  using assms
proof (induction xs arbitrary: b)
  case (Cons x xs)
  have s: "benign b (f x b)" "P (f x b)" using Cons.prems by auto
  have "benign (f x b) (fold f xs (f x b)) \<and> P (fold f xs (f x b))"
    using Cons.prems s by (intro Cons.IH) auto
  then show ?case using s benign_trans by auto
qed simp

text \<open>A fold of deliveries to live clients.\<close>

lemma benign_fold_live:
  assumes "\<And>x b. x \<in> set xs \<Longrightarrow> live b (g x) \<Longrightarrow> benign b (f x b)" and "\<forall>x \<in> set xs. live b (g x)"
  shows "benign b (fold f xs b)"
proof -
  have "benign b (fold f xs b) \<and> (\<forall>y \<in> set xs. live (fold f xs b) (g y))"
  proof (rule benign_fold)
    fix x b assume x: "x \<in> set xs" and l: "\<forall>y \<in> set xs. live b (g y)"
    then have bn: "benign b (f x b)" using assms(1) by simp
    then show "benign b (f x b) \<and> (\<forall>y \<in> set xs. live (f x b) (g y))"
      using l by (simp add: benign_live [OF bn])
  qed (use assms(2) in simp)
  then show ?thesis ..
qed

lemma client_ok_state [simp]: "client_ok i (set_state s cl) = client_ok i cl"
  by (simp add: client_ok_def set_state_def)

lemma client_ok_next_id [simp]: "client_ok i (cl\<lparr>cl_next_packet_id := n\<rparr>) = client_ok i cl"
  by (simp add: client_ok_def)

lemma client_ok_seen [simp]: "client_ok i (cl\<lparr>cl_last_seen_ms := t\<rparr>) = client_ok i cl"
  by (simp add: client_ok_def)

subsection \<open>Deliveries are benign\<close>

lemma plat_send_closed: "plat_send buf s = (n, s') \<Longrightarrow> so_closed s' = so_closed s"
  by (auto simp: plat_send_def split: list.splits if_splits)

lemma send_loop_closed: "send_loop buf s = (ok, s') \<Longrightarrow> so_closed s' = so_closed s"
proof (induction buf s rule: send_loop.induct)
  case (1 buf s)
  obtain n s1 where ps: "plat_send buf s = (n, s1)" by force
  show ?case
  proof (cases "buf = [] \<or> n \<le> 0")
    case True
    then show ?thesis
      using 1(2) ps plat_send_closed [OF ps] by (auto simp: send_loop.simps [of buf s] split: if_splits)
  next
    case False
    then have "send_loop (drop (nat n) buf) s1 = (ok, s')"
      using 1(2) ps by (simp add: send_loop.simps [of buf s])
    then show ?thesis using 1(1) [OF _ refl ps [symmetric]] False plat_send_closed [OF ps] by simp
  qed
qed

lemma benign_client_send: "live b c \<Longrightarrow> benign b (client_send c buf b)"
proof -
  assume l: "live b c"
  obtain ok s where sl: "send_loop buf (bk_socks b (cl_fd (client_at b c))) = (ok, s)" by force
  let ?b = "upd_sock (cl_fd (client_at b c)) (\<lambda>_. s) b"
  have "benign b ?b" using send_loop_closed [OF sl] by (intro benign_same) auto
  moreover have "benign ?b (upd_client c (set_state CLIENT_STATE_DISCONNECTING) ?b)"
    using l by (intro benign_upd_client) (simp_all add: set_state_def live_def client_ok_def)
  ultimately show ?thesis
    using benign_trans by (auto simp: client_send_def sl Let_def)
qed

lemma client_ok_inflight:
  assumes "client_ok i cl" and "inflight_ok (f (cl_inflight cl ! j))"
  shows "client_ok i (cl\<lparr>cl_inflight := upd_nth j f (cl_inflight cl)\<rparr>)"
  using assms by (auto simp: client_ok_def dest!: set_upd_nth)

lemma benign_inflight_store:
  assumes "inflight_ok \<lparr>if_packet_id = pid, if_buf = buf, if_sent_at_ms = 0, if_in_use = True, if_qos = q,
      if_waiting_pubcomp = False\<rparr>"
  shows "benign b (client_inflight_store c pid buf q b)"
proof (cases "free_slot if_in_use (cl_inflight (client_at b c))")
  case (Some i)
  then show ?thesis
    unfolding client_inflight_store_def
    using assms by (simp, intro benign_upd_client) (auto intro!: client_ok_inflight simp: inflight_ok_def)
qed (simp add: client_inflight_store_def)

lemma benign_inflight_ack: "benign b (client_inflight_ack c pid b)"
proof (cases "slot_of if_in_use if_packet_id pid (cl_inflight (client_at b c))")
  case (Some i)
  then show ?thesis
    unfolding client_inflight_ack_def
    by (simp, intro benign_upd_client) (auto intro!: client_ok_inflight simp: inflight_ok_def)
qed (simp add: client_inflight_ack_def)

lemma stored_inflight_ok:
  assumes "publish_ok p" and "topic_publishable (pub_topic p)" and "pub_qos p > 0"
    and "packet_build_publish p (MQTT_MAX_PACKET_SIZE + 8) = Some buf"
  shows "inflight_ok \<lparr>if_packet_id = pub_packet_id p, if_buf = buf, if_sent_at_ms = t, if_in_use = True,
    if_qos = pub_qos p, if_waiting_pubcomp = False\<rparr>"
  using assms by (auto simp: inflight_ok_def)

lemma benign_send_frame:
  assumes "live b c" and "publish_ok p" and "topic_publishable (pub_topic p)"
  shows "benign b (send_frame c p b)"
proof (cases "packet_build_publish p (MQTT_MAX_PACKET_SIZE + 8)")
  case (Some buf)
  note s = benign_client_send [OF assms(1), of buf]
  show ?thesis
    using Some s stored_inflight_ok [OF assms(2,3) _ Some, of 0]
    by (auto simp: send_frame_def Let_def intro!: benign_trans [OF s benign_inflight_store])
qed (simp add: send_frame_def)

lemma retry_entry_ok:
  assumes "inflight_ok e"
  shows "inflight_ok (retry_entry now e)"
proof (cases "if_in_use e \<and> \<not> if_waiting_pubcomp e")
  case True
  then obtain p where p: "publish_ok p" "topic_publishable (pub_topic p)" "pub_qos p > 0" "pub_qos p = if_qos e"
    "pub_packet_id p = if_packet_id e" "packet_build_publish p (MQTT_MAX_PACKET_SIZE + 8) = Some (if_buf e)"
    using assms by (auto simp: inflight_ok_def)
  let ?d = "p\<lparr>pub_dup := 1\<rparr>"
  have ok: "publish_ok ?d" using p(1) by (simp add: publish_ok_def)
  obtain enc where enc: "packet_encode_remaining_len (word_of_nat (length (publish_body p))) = Some enc"
    and b: "if_buf e = publish_header p # enc @ publish_body p"
    using build_publish_total [OF p(1,2), of 712] p(6) by auto
  have body: "publish_body ?d = publish_body p" by (simp add: publish_body_def)
  have "publish_header p OR 0x08 = publish_header ?d"
  proof -
    have "pub_dup p = 0 \<or> pub_dup p = 1" "pub_retain p = 0 \<or> pub_retain p = 1"
      "pub_qos p = 0 \<or> pub_qos p = 1 \<or> pub_qos p = 2"
      using p(1) by (simp_all add: publish_ok_def byte_le_1 byte_le_2)
    then show ?thesis by (auto simp: publish_header_def)
  qed
  then have sd: "set_dup (if_buf e) = publish_header ?d # enc @ publish_body ?d"
    by (simp add: set_dup_def b upd_nth_def body)
  obtain enc' where "packet_encode_remaining_len (word_of_nat (length (publish_body ?d))) = Some enc'"
    "packet_build_publish ?d 712 = Some (publish_header ?d # enc' @ publish_body ?d)"
    using build_publish_total [OF ok, of 712] p(2) by auto
  then have "packet_build_publish ?d 712 = Some (set_dup (if_buf e))"
    using enc sd body by simp
  then show ?thesis
    using True p ok by (auto simp: inflight_ok_def retry_entry_def intro!: exI [of _ ?d])
next
  case False
  then show ?thesis using assms by (auto simp: inflight_ok_def retry_entry_def)
qed

lemma benign_retry:
  assumes "live b c" and "client_ok c (client_at b c)"
  shows "benign b (client_inflight_retry c b)"
proof -
  have "benign b' (inflight_retry_slot c i b') \<and>
      (live (inflight_retry_slot c i b') c \<and> client_ok c (client_at (inflight_retry_slot c i b') c) \<and>
       length (cl_inflight (client_at (inflight_retry_slot c i b') c)) = 4)"
    if "live b' c \<and> client_ok c (client_at b' c) \<and> length (cl_inflight (client_at b' c)) = 4" "i < 4" for b' i
  proof -
    let ?e = "cl_inflight (client_at b' c) ! i"
    let ?b1 = "upd_client c (\<lambda>cl. cl\<lparr>cl_inflight := upd_nth i (retry_entry (bk_now b')) (cl_inflight cl)\<rparr>) b'"
    have e: "inflight_ok ?e" using that by (auto simp: client_ok_def)
    have b1: "benign b' ?b1"
      using e retry_entry_ok by (intro benign_upd_client) (auto intro!: client_ok_inflight)
    then have "live ?b1 c" using that benign_live by blast
    then have "benign b' (client_send c buf ?b1)" for buf
      using b1 benign_trans benign_client_send by blast
    then have bn: "benign b' (inflight_retry_slot c i b')"
      by (simp add: inflight_retry_slot_eq Let_def)
    then have "live (inflight_retry_slot c i b') c" "client_ok c (client_at (inflight_retry_slot c i b') c)"
      using that by (auto simp: benign_live benign_def live_def)
    then show ?thesis using bn by (simp add: client_ok_def)
  qed
  moreover have "length (cl_inflight (client_at b c)) = 4" using assms(2) by (simp add: client_ok_def)
  ultimately show ?thesis
    unfolding client_inflight_retry_def using assms
    by (intro benign_fold [of _ "\<lambda>b. live b c \<and> client_ok c (client_at b c) \<and>
        length (cl_inflight (client_at b c)) = 4", THEN conjunct1]) auto
qed

subsection \<open>The invariant of the tables and clients\<close>

definition retained_ok :: "broker \<Rightarrow> bool" where
  "retained_ok b \<longleftrightarrow> (case bk_retains b of None \<Rightarrow> True | Some rs \<Rightarrow> retains_ok rs)"

definition core_ok :: "broker \<Rightarrow> bool" where
  "core_ok b \<longleftrightarrow> table_inv b \<and> pool_ok b \<and> retained_ok b \<and>
     (\<forall>e \<in> set (bk_subs b). sub_in_use e \<longrightarrow> live b (sub_client e)) \<and>
     (\<forall>c < length (bk_clients b). client_ok c (client_at b c))"

text \<open>An operation keeps the invariant and changes the clients only as a delivery does.\<close>

definition keeps :: "broker \<Rightarrow> broker \<Rightarrow> bool" where
  "keeps b b' \<longleftrightarrow> benign b b' \<and> core_ok b'"

lemma keeps_trans: "keeps b b' \<Longrightarrow> keeps b' b'' \<Longrightarrow> keeps b b''"
  using benign_trans by (auto simp: keeps_def)

lemma keeps_refl: "core_ok b \<Longrightarrow> keeps b b"
  by (simp add: keeps_def)

lemma keepsD: "keeps b b' \<Longrightarrow> core_ok b'" "keeps b b' \<Longrightarrow> live b' c = live b c"
  by (auto simp: keeps_def benign_live)

lemma keeps_fold:
  assumes "\<And>x b. x \<in> set xs \<Longrightarrow> core_ok b \<Longrightarrow> live b c \<Longrightarrow> keeps b (f x b)" and "core_ok b" and "live b c"
  shows "keeps b (fold f xs b)"
  using assms
proof (induction xs arbitrary: b)
  case (Cons x xs)
  have k: "keeps b (f x b)" using Cons.prems by auto
  then have "keeps (f x b) (fold f xs (f x b))"
    using Cons.prems keepsD [OF k] by (intro Cons.IH) auto
  then show ?case using keeps_trans [OF k] by simp
qed (simp add: keeps_refl)

lemma core_clients:
  assumes "core_ok b" and "benign b b'" and "c < length (bk_clients b')"
  shows "client_ok c (client_at b' c)"
  using assms by (auto simp: core_ok_def benign_def)

text \<open>The four ways an operation keeps the invariant, by the part of the state it writes.\<close>

definition same_tables :: "broker \<Rightarrow> broker \<Rightarrow> bool" where
  "same_tables b b' \<longleftrightarrow> bk_subs b' = bk_subs b \<and> bk_exact_heads b' = bk_exact_heads b \<and>
     bk_wildcard_head b' = bk_wildcard_head b \<and> advertised b' = advertised b"

lemma same_tables_refl [simp]: "same_tables b b"
  by (simp add: same_tables_def)

lemma keepsI:
  assumes "core_ok b" and "benign b b'" and "same_tables b b'" and "pool_ok b'" and "retained_ok b'"
  shows "keeps b b'"
proof -
  have "table_inv b'"
    using assms(1-3) by (subst table_inv_cong [of _ b]) (auto simp: same_tables_def benign_def core_ok_def)
  moreover have "\<forall>e \<in> set (bk_subs b'). sub_in_use e \<longrightarrow> live b' (sub_client e)"
    using assms(1-3) benign_live by (auto simp: core_ok_def same_tables_def)
  ultimately show ?thesis
    using assms core_clients by (auto simp: keeps_def core_ok_def)
qed

lemma keeps_clients:
  assumes "core_ok b" and "benign b b'" and "same_tables b b'"
    and "bk_sessions b' = bk_sessions b" and "bk_retains b' = bk_retains b"
  shows "keeps b b'"
proof -
  have "length (bk_clients b') = length (bk_clients b)" using assms(2) by (simp add: benign_def)
  then have "pool_ok b' = pool_ok b" using assms(4) by (intro pool_ok_cong)
  then show ?thesis
    using assms by (intro keepsI) (simp_all add: core_ok_def retained_ok_def)
qed

lemma keeps_sessions:
  assumes "core_ok b" and "pool_ok b'" and "bk_clients b' = bk_clients b" and "bk_threads b' = bk_threads b"
    and "bk_socks b' = bk_socks b" and "same_tables b b'" and "bk_retains b' = bk_retains b"
    and "bk_cfg_p2p b' = bk_cfg_p2p b"
  shows "keeps b b'"
  using assms by (intro keepsI benign_same) (auto simp: core_ok_def retained_ok_def)

lemma sub_live_map:
  assumes "table_ok b"
  shows "(\<forall>e \<in> set (bk_subs b). sub_in_use e \<longrightarrow> P (sub_client e)) \<longleftrightarrow> (\<forall>k. sub_map b k \<noteq> None \<longrightarrow> P (fst k))"
proof -
  have "(\<exists>e \<in> set (bare_subs b). sub_in_use e \<and> sub_key e = k) = (sub_map b k \<noteq> None)" for k
    using sub_map_entry [OF assms, of k] by auto
  note m = this
  have "(\<forall>e \<in> set (bk_subs b). sub_in_use e \<longrightarrow> P (sub_client e)) \<longleftrightarrow>
      (\<forall>e \<in> set (bare_subs b). sub_in_use e \<longrightarrow> P (fst (sub_key e)))"
    by (simp add: bare_subs_def bare_def sub_key_def)
  also have "\<dots> \<longleftrightarrow> (\<forall>k. (\<exists>e \<in> set (bare_subs b). sub_in_use e \<and> sub_key e = k) \<longrightarrow> P (fst k))"
    by blast
  finally show ?thesis unfolding m .
qed

lemma keeps_table:
  assumes "core_ok b" and "table_inv b'" and "bk_clients b' = bk_clients b" and "bk_threads b' = bk_threads b"
    and "bk_socks b' = bk_socks b" and "bk_sessions b' = bk_sessions b" and "bk_retains b' = bk_retains b"
    and "bk_cfg_p2p b' = bk_cfg_p2p b" and "\<And>k. sub_map b' k \<noteq> None \<Longrightarrow> live b (fst k)"
  shows "keeps b b'"
proof -
  have bn: "benign b b'" using assms by (intro benign_same) auto
  have "\<forall>e \<in> set (bk_subs b'). sub_in_use e \<longrightarrow> live b (sub_client e)"
    using assms(2,9) by (subst sub_live_map) (auto simp: table_inv_def)
  moreover have "pool_ok b' = pool_ok b" using assms by (intro pool_ok_cong) simp_all
  ultimately show ?thesis
    using assms bn core_clients by (auto simp: keeps_def core_ok_def retained_ok_def benign_live)
qed

lemma core_sub_live: "core_ok b \<Longrightarrow> sub_map b k \<noteq> None \<Longrightarrow> live b (fst k)"
  using sub_live_map [of b "live b"] by (cases k) (auto simp: core_ok_def table_inv_def)

subsection \<open>Subscribing\<close>

lemma keeps_subscribe:
  assumes "core_ok b" and "live b c" and "filter_ok f" and "topic_filter_valid f" and "q \<le> 2"
  shows "keeps b (snd (topic_subscribe c f q b))"
proof -
  have g: "table_inv b" "sub_good b (c, f) q"
    using assms by (auto simp: core_ok_def sub_good_def live_def)
  show ?thesis
    using st.put_inv [OF g] st.put_look [OF g] core_sub_live [OF assms(1)] assms(2)
    by (intro keeps_table [OF assms(1)]) (auto split: if_splits)
qed

lemma keeps_unsubscribe:
  assumes "core_ok b"
  shows "keeps b (topic_unsubscribe c f b)"
proof -
  have g: "table_inv b" using assms by (auto simp: core_ok_def)
  show ?thesis
    using st.del_inv [OF g, of "(c, f)"] st.del_look [OF g, of "(c, f)"] core_sub_live [OF assms]
    by (intro keeps_table [OF assms]) (auto split: if_splits)
qed

lemma topic_unsubscribe_all_frame [simp]:
  "bk_cfg_p2p (topic_unsubscribe_all c b) = bk_cfg_p2p b"
  "bk_clients (topic_unsubscribe_all c b) = bk_clients b"
  "bk_threads (topic_unsubscribe_all c b) = bk_threads b"
  "bk_retains (topic_unsubscribe_all c b) = bk_retains b"
  "bk_sessions (topic_unsubscribe_all c b) = bk_sessions b"
  "bk_socks (topic_unsubscribe_all c b) = bk_socks b"
  "bk_now (topic_unsubscribe_all c b) = bk_now b"
proof -
  let ?same = "\<lambda>b'. bk_cfg_p2p b' = bk_cfg_p2p b \<and> bk_clients b' = bk_clients b \<and> bk_threads b' = bk_threads b \<and>
    bk_retains b' = bk_retains b \<and> bk_sessions b' = bk_sessions b \<and> bk_socks b' = bk_socks b \<and> bk_now b' = bk_now b"
  have first: "?same b' \<Longrightarrow> ?same (unsubscribe_first i b')" for i b'
    by (simp add: unsubscribe_first_eq Let_def split: prod.split)
  have loop: "?same b' \<Longrightarrow> ?same (unsubscribe_loop c b')" for b'
    using first
    by (induction c b' rule: unsubscribe_loop.induct) (simp add: unsubscribe_loop.simps split: option.split)
  have fold: "?same b' \<Longrightarrow> ?same (fold (\<lambda>i b. if of_client c (sub_at b i) then remove_slot i b else b) is b')" for "is" b'
    by (induction "is" arbitrary: b') simp_all
  have "?same (topic_unsubscribe_all c b)"
    unfolding topic_unsubscribe_all_def using loop fold by simp
  then show "bk_cfg_p2p (topic_unsubscribe_all c b) = bk_cfg_p2p b"
    "bk_clients (topic_unsubscribe_all c b) = bk_clients b"
    "bk_threads (topic_unsubscribe_all c b) = bk_threads b"
    "bk_retains (topic_unsubscribe_all c b) = bk_retains b"
    "bk_sessions (topic_unsubscribe_all c b) = bk_sessions b"
    "bk_socks (topic_unsubscribe_all c b) = bk_socks b"
    "bk_now (topic_unsubscribe_all c b) = bk_now b" by simp_all
qed

lemma keeps_unsubscribe_all:
  assumes "core_ok b"
  shows "keeps b (topic_unsubscribe_all c b) \<and> (\<forall>e \<in> set (bk_subs (topic_unsubscribe_all c b)). sub_in_use e \<longrightarrow> sub_client e \<noteq> c)"
proof -
  let ?b = "topic_unsubscribe_all c b"
  have t: "table_ok b" "adv_ok b" using assms by (auto simp: core_ok_def table_inv_def)
  have t': "table_inv ?b" using topic_unsubscribe_all_ok [OF t, of c] by (simp add: table_inv_def)
  have m: "sub_map ?b k \<noteq> None \<Longrightarrow> fst k \<noteq> c \<and> sub_map b k \<noteq> None" for k
    using unsubscribe_all_map [OF t, of c] by (cases k) (auto split: if_splits)
  have "keeps b ?b"
    using t' m core_sub_live [OF assms] by (intro keeps_table [OF assms]) simp_all
  moreover have "\<forall>e \<in> set (bk_subs ?b). sub_in_use e \<longrightarrow> sub_client e \<noteq> c"
    using t' m by (subst sub_live_map [where P = "\<lambda>d. d \<noteq> c"]) (auto simp: table_inv_def)
  ultimately show ?thesis ..
qed

subsection \<open>Publishing\<close>

lemma audience_live: "core_ok b \<Longrightarrow> c \<in> audience b topic \<Longrightarrow> live b c"
  by (auto simp: core_ok_def audience_def hits_def)

lemma benign_bump: "benign b (bump ts b)"
proof (induction ts arbitrary: b)
  case (Cons t ts)
  let ?b = "upd_client (dt_client t) (\<lambda>cl. cl\<lparr>cl_next_packet_id := next_id (cl_next_packet_id cl)\<rparr>) b"
  have "benign b ?b" by (intro benign_upd_client) simp_all
  then show ?case
    using Cons.IH [of b] benign_trans [OF _ Cons.IH [of ?b]] by (simp add: bump_def)
qed (simp add: bump_def)

lemma benign_fan_out:
  assumes "core_ok b" and "message_ok pub" and "topic_publishable (pub_topic pub)"
  shows "benign b (fan_out pub b)"
proof -
  have t: "table_ok b" using assms(1) by (simp add: core_ok_def table_inv_def)
  let ?k = "topic_bucket b (pub_topic pub)"
  have "benign b (topic_publish_qos0_locked pub ?k b)"
  proof -
    have "\<forall>c \<in> set (qos0_targets b (pub_topic pub) ?k). live b c"
      using qos0_targets_audience [OF t] audience_live [OF assms(1)] by simp
    then have "benign b (fold (\<lambda>c. client_send c buf) (qos0_targets b (pub_topic pub) ?k) b)" for buf
      by (intro benign_fold_live [where g = id]) (auto intro: benign_client_send)
    then show ?thesis by (simp add: topic_publish_qos0_locked_def Let_def split: option.split)
  qed
  moreover have "benign b (topic_publish_qos_locked pub ?k b)"
  proof -
    obtain seen ts b' where q: "qos_targets pub ?k b = (seen, ts, b')" by (metis surj_pair)
    have T: "b' = bump ts b" "set (map dt_client ts) = audience b (pub_topic pub)"
      "\<forall>t \<in> set ts. target_ok pub b t"
      using qos_targets_spec [OF t q] by blast+
    have bn: "benign b b'" using benign_bump T(1) by simp
    have "benign b' (fold (\<lambda>t. send_frame (dt_client t) (target_message pub t)) ts b')"
    proof (rule benign_fold_live [where g = dt_client])
      fix t b1 assume tt: "t \<in> set ts" and l: "live b1 (dt_client t)"
      have "target_ok pub b t" using T(3) tt by blast
      then have "dt_qos t \<le> pub_qos pub" "dt_qos t > 0 \<longrightarrow> dt_packet_id t \<noteq> 0"
        using next_id_nonzero by (auto simp: target_ok_def)
      then have "publish_ok (target_message pub t)"
        unfolding target_message_def by (rule message_copy_ok(2) [OF assms(2)])
      then show "benign b1 (send_frame (dt_client t) (target_message pub t) b1)"
        using assms(3) by (intro benign_send_frame [OF l]) (simp_all add: target_message_def)
    next
      show "\<forall>t \<in> set ts. live b' (dt_client t)"
        using T(2) audience_live [OF assms(1)] benign_live [OF bn] by auto
    qed
    then show ?thesis using bn benign_trans by (simp add: topic_publish_qos_locked_def q)
  qed
  ultimately show ?thesis by (simp add: fan_out_def)
qed

lemma retained_ok_publish:
  assumes "retained_ok b" and "message_ok pub" and "topic_publishable (pub_topic pub)"
  shows "retained_ok (snd (topic_publish_internal pub p b))"
proof -
  have zero: "retains_ok (replicate n zero_retain)" for n
    by (auto simp: retains_ok_def keys_unique_def zero_retain_def)
  have "retained_ok (snd (retained_state pub b))"
    using assms zero retain_update_spec [OF _ assms(2,3)]
    by (auto simp: retained_ok_def retained_state_def retain_store_ensure_def split: option.splits)
  then show ?thesis
    by (cases "retained_state pub b") (simp add: publish_internal_split retained_ok_def)
qed

lemma benign_retained_state: "benign b (snd (retained_state pub b))"
  by (intro benign_same) simp_all

lemma core_retained_state:
  assumes "core_ok b" and "message_ok pub" and "topic_publishable (pub_topic pub)"
  shows "core_ok (snd (retained_state pub b))"
proof -
  let ?b = "snd (retained_state pub b)"
  have "pool_ok ?b = pool_ok b" by (rule pool_ok_cong) simp_all
  moreover have "retained_ok ?b"
    using assms retain_update_spec [OF _ assms(2,3)] zero_retains_ok
    by (auto simp: core_ok_def retained_ok_def retained_state_def retain_store_ensure_def split: option.splits)
  ultimately show ?thesis
    using assms(1) by (intro keepsD(1) [OF keepsI [OF assms(1) benign_retained_state]])
      (simp_all add: core_ok_def same_tables_def advertised_def)
qed

lemma keeps_publish_internal:
  assumes "core_ok b" and "message_ok pub" and "topic_publishable (pub_topic pub)"
  shows "keeps b (snd (topic_publish_internal pub p b))"
proof -
  obtain ok b1 where r: "retained_state pub b = (ok, b1)" by force
  have b1: "benign b b1" "core_ok b1"
    using benign_retained_state [of b pub] core_retained_state [OF assms] r by simp_all
  have "benign b1 (after_fan_out pub p (fan_out pub b1))"
    using benign_fan_out [OF b1(2) assms(2,3)]
    by (rule benign_trans) (intro benign_same, simp_all)
  then have "benign b (snd (topic_publish_internal pub p b))"
    using b1 benign_trans by (auto simp: publish_internal_split r)
  then show ?thesis
    using assms pool_ok_publish [OF _ assms(2,3)] retained_ok_publish [OF _ assms(2,3)]
    by (intro keepsI) (simp_all add: core_ok_def same_tables_def advertised_publish)
qed

lemma keeps_publish:
  assumes "core_ok b" and "message_ok pub" and "topic_publishable (pub_topic pub)"
  shows "keeps b (topic_publish pub b)"
  using keeps_publish_internal [OF assms] by (simp add: topic_publish_def)

end
