(* ===== verification/Broker_Invariant.thy ===== *)
theory Broker_Invariant
  imports Broker_Benign
begin

text \<open>
  The invariant of the whole broker (\<open>broker_ok\<close>: the invariant of the tables and clients, and
  what connects clients, threads and descriptors) and its proof: every handler of
  \<^verbatim>\<open>src/client.c\<close>, the end of a client and the acceptance of a connection keep it. The transition
  relation \<open>broker_step\<close> interleaves the steps of the clients' threads with new connections,
  messages from the peer network and changes of the environment; \<open>reachable_ok\<close> says that every
  reachable state has the invariant.
\<close>

subsection \<open>The handlers\<close>

lemma keeps_then:
  assumes "keeps b b1" and "core_ok b1 \<Longrightarrow> (\<And>c. live b1 c = live b c) \<Longrightarrow> keeps b1 b2"
  shows "keeps b b2"
  using keeps_trans [OF assms(1) assms(2)] keepsD [OF assms(1)] by blast

lemma keeps_send:
  assumes "core_ok b" and "live b c"
  shows "keeps b (client_send c buf b)"
  using assms by (intro keeps_clients benign_client_send) (simp_all add: same_tables_def advertised_def)

lemma keeps_reply: "core_ok b \<Longrightarrow> live b c \<Longrightarrow> keeps b (send_reply c m b)"
  by (cases m) (simp_all add: send_reply_def keeps_refl keeps_send)

lemma keeps_upd_client:
  assumes "core_ok b" and "benign b (upd_client c f b)"
  shows "keeps b (upd_client c f b)"
  using assms by (intro keeps_clients) (simp_all add: same_tables_def advertised_def)

lemma keeps_close:
  assumes "core_ok b" and "live b c"
  shows "keeps b (close_client c b)"
  unfolding close_client_def
  using assms by (intro keeps_upd_client benign_upd_client) (simp_all add: live_def set_state_def client_ok_def)

lemma keeps_ack: "core_ok b \<Longrightarrow> keeps b (client_inflight_ack c pid b)"
  by (intro keeps_clients benign_inflight_ack)
    (simp_all add: same_tables_def advertised_def client_inflight_ack_def split: option.split)

lemma live_client_ok: "core_ok b \<Longrightarrow> live b c \<Longrightarrow> client_ok c (client_at b c)"
  by (simp add: core_ok_def live_def)

lemma keeps_takeover:
  assumes "core_ok b"
  shows "keeps b (client_takeover c cid b)"
proof -
  have at: "client_at (client_takeover c cid b) d = client_at b d \<or>
      (cl_state (client_at b d) = CLIENT_STATE_CONNECTED \<and>
       client_at (client_takeover c cid b) d = set_state CLIENT_STATE_DISCONNECTING (client_at b d))"
    if "d < length (bk_clients b)" for d
    using that by (auto simp: client_takeover_def client_at_def nth_enumerate_eq)
  have "(client_ok d (client_at b d) \<longrightarrow> client_ok d (client_at (client_takeover c cid b) d)) \<and>
     (cl_state (client_at (client_takeover c cid b) d) = CLIENT_STATE_FREE \<longleftrightarrow> cl_state (client_at b d) = CLIENT_STATE_FREE) \<and>
     cl_fd (client_at (client_takeover c cid b) d) = cl_fd (client_at b d)"
    if "d < length (bk_clients b)" for d
    using at [OF that] by (auto simp: set_state_def client_ok_def)
  then have "benign b (client_takeover c cid b)"
    by (auto simp: benign_def client_takeover_def)
  then show ?thesis
    using assms by (intro keeps_clients) (simp_all add: same_tables_def advertised_def client_takeover_def)
qed

lemma read_str_filter: "read_str b pos 128 = Some (s, pos') \<Longrightarrow> filter_ok s"
  using read_str_ok(1,2) by (simp add: filter_ok_def)

lemma parse_will_facts:
  assumes "parse_connect_will b pos out = Some (c, pos')"
  shows "conn_client_id c = conn_client_id out" and "conn_has_will c = conn_has_will out"
    and "conn_will_qos c = conn_will_qos out" and "conn_will_retain c = conn_will_retain out"
    and "conn_has_will out \<longrightarrow> filter_ok (conn_will_topic c) \<and> length (conn_will_payload c) \<le> 256"
proof -
  show "conn_client_id c = conn_client_id out" and "conn_has_will c = conn_has_will out"
    and "conn_will_qos c = conn_will_qos out" and "conn_will_retain c = conn_will_retain out"
    using assms by (auto simp: parse_connect_will_def Let_def split: if_splits Option.bind_splits)
  show "conn_has_will out \<longrightarrow> filter_ok (conn_will_topic c) \<and> length (conn_will_payload c) \<le> 256"
  proof
    assume "conn_has_will out"
    then obtain t p where "read_str b pos 128 = Some (t, p)" "conn_will_topic c = t" "length (conn_will_payload c) \<le> 256"
      using assms by (auto simp: parse_connect_will_def Let_def split: if_splits Option.bind_splits)
    then show "filter_ok (conn_will_topic c) \<and> length (conn_will_payload c) \<le> 256"
      using read_str_filter by simp
  qed
qed

lemma parse_credentials_facts:
  assumes "parse_connect_credentials b pos out = Some (c, pos')"
  shows "conn_client_id c = conn_client_id out" and "conn_has_will c = conn_has_will out"
    and "conn_will_qos c = conn_will_qos out" and "conn_will_retain c = conn_will_retain out"
    and "conn_will_topic c = conn_will_topic out" and "conn_will_payload c = conn_will_payload out"
  using assms
  by (auto simp: parse_connect_credentials_def split: if_splits Option.bind_splits)

text \<open>What holds of a CONNECT record whatever was in the memory it was parsed into.\<close>

lemma parse_connect_facts:
  assumes "packet_parse_connect pkt out = Inr c"
  shows "cstr_ok (conn_client_id c) \<and> length (conn_client_id c) < MQTT_CLIENT_ID_MAX \<and>
    conn_will_qos c \<le> 3 \<and> conn_will_retain c \<le> 1 \<and>
    (conn_has_will c \<longrightarrow> filter_ok (conn_will_topic c) \<and> length (conn_will_payload c) \<le> 256)"
proof -
  obtain fl k pos where p: "parse_connect_payload (pkt_buf pkt) pos ((connect_set_flags fl out)\<lparr>conn_keepalive := k\<rparr>) = Some c"
    using assms by (auto simp: packet_parse_connect_def Let_def split: option.splits if_splits)
  then obtain cid p1 c1 p2 p3 where r: "read_str (pkt_buf pkt) pos 24 = Some (cid, p1)"
    and w: "parse_connect_will (pkt_buf pkt) p1
        ((connect_set_flags fl out)\<lparr>conn_keepalive := k, conn_client_id := cid\<rparr>) = Some (c1, p2)"
    and cr: "parse_connect_credentials (pkt_buf pkt) p2 c1 = Some (c, p3)"
    by (auto simp: parse_connect_payload_def split: if_splits Option.bind_splits)
  have "conn_client_id c = cid" "conn_will_qos c = drop_bit 3 fl AND 3" "conn_will_retain c = drop_bit 5 fl AND 1"
    "conn_has_will c \<longrightarrow> filter_ok (conn_will_topic c) \<and> length (conn_will_payload c) \<le> 256"
    using parse_will_facts [OF w] parse_credentials_facts [OF cr] by (simp_all add: connect_set_flags_def)
  then show ?thesis
    using read_str_ok(1,2) [OF r] word_and_le1 [of _ "3 :: byte"] and_1_le by simp
qed

text \<open>A CONNECT that passed the checks of \<open>handle_connect\<close> makes a well-formed client.\<close>

lemma adopt_ok:
  assumes "packet_parse_connect pkt out = Inr conn" and "client_ok i cl"
    and "\<not> (conn_has_will conn \<and> conn_will_qos conn = 3)"
    and "\<not> (conn_has_will conn \<and> (conn_will_topic conn = [] \<or> has_wildcard (conn_will_topic conn)))"
  shows "client_ok i (adopt_connect conn cl)"
proof (cases "conn_has_will conn")
  case True
  note f = parse_connect_facts [OF assms(1)]
  have "conn_will_qos conn \<le> 2"
    using f assms(3) True by (auto simp: word_le_nat_alt word_unat_eq_iff)
  then show ?thesis
    using f assms(2,4) True
    by (simp add: client_ok_def adopt_connect_def message_ok_def publish_ok_def topic_publishable_def filter_ok_def)
next
  case False
  then show ?thesis
    using parse_connect_facts [OF assms(1)] assms(2) by (simp add: client_ok_def adopt_connect_def)
qed

lemma adopt_fields [simp]: "cl_fd (adopt_connect conn cl) = cl_fd cl" "cl_state (adopt_connect conn cl) = cl_state cl"
  by (simp_all add: adopt_connect_def Let_def)

lemma subscribe_all_sessions [simp]:
  "bk_sessions (fold (\<lambda>(f, q) b. snd (topic_subscribe c f q b)) xs b) = bk_sessions b"
  by (induction xs arbitrary: b) (auto split: prod.split)

lemma keeps_session_upd:
  assumes "core_ok b" and "bk_sessions b = Some ss" and "\<And>s. session_ok s \<Longrightarrow> session_ok (f s)"
    and "\<And>s. ses_client_id (f s) = ses_client_id s" and "\<And>s. ses_in_use (f s) \<longrightarrow> ses_in_use s"
  shows "keeps b (upd_session i f b)"
proof -
  have p: "pool_ok b" using assms(1) by (simp add: core_ok_def)
  then have "keys_unique ses_in_use ses_client_id ss" using assms(2) by (simp add: pool_ok_def)
  then have "pool_ok (upd_session i f b)"
    using assms by (intro pool_ok_upd [OF p assms(2)] keys_unique_same) auto
  then show ?thesis
    using assms(1) by (intro keeps_sessions) (simp_all add: same_tables_def advertised_def)
qed

lemma publishable_strncpy: "topic_publishable t \<Longrightarrow> topic_publishable (strncpy_str 128 t)"
  by (auto simp: topic_publishable_def strncpy_str_def has_wildcard_def dest: in_set_takeD)

lemma keeps_drain:
  assumes "core_ok b" and "live b c" and "bk_sessions b = Some ss" and "s < length ss"
  shows "keeps b (session_drain s c b)"
proof -
  let ?ps = "map msg_publish (queue_msgs (session_at b s))"
  have "session_ok (session_at b s)"
    using assms(1,3,4) by (auto simp: core_ok_def pool_ok_def session_at_def)
  then have ok: "publish_ok p \<and> topic_publishable (pub_topic p)" if "p \<in> set ?ps" for p
    using that by (auto simp: session_ok_def queue_msgs_def msg_publish_def publishable_strncpy)
  have "benign b (fold (send_frame c) ?ps b)"
    using assms(2) ok by (intro benign_fold_live [where g = "\<lambda>_. c"] benign_send_frame) auto
  then have "benign b (session_drain s c b)"
    unfolding session_drain_eq [OF assms(3,4)] by (rule benign_trans) (intro benign_same, simp_all)
  moreover have "same_tables b (session_drain s c b)" "bk_retains (session_drain s c b) = bk_retains b"
    unfolding session_drain_eq [OF assms(3,4)]
    using fold_send_frame_frame [of "\<lambda>_. c" id ?ps b]
    by (simp_all add: same_tables_def advertised_def)
  ultimately show ?thesis
    using assms(1) pool_ok_drain by (intro keepsI) (simp_all add: core_ok_def retained_ok_def)
qed

lemma keeps_restore:
  assumes "core_ok b" and "live b c" and "bk_sessions b = Some ss" and "s < length ss"
  shows "keeps b (restore_session s c b)"
proof -
  let ?b1 = "fold (\<lambda>(f, q) b. snd (topic_subscribe c f q b)) (ses_subs (session_at b s)) b"
  let ?b2 = "upd_session s (\<lambda>ses. ses\<lparr>ses_offline := False\<rparr>) ?b1"
  have "session_ok (session_at b s)"
    using assms(1,3,4) by (auto simp: core_ok_def pool_ok_def session_at_def)
  then have k1: "keeps b ?b1"
    using assms(1,2) by (intro keeps_fold) (auto simp: session_ok_def intro!: keeps_subscribe)
  have k2: "keeps ?b1 ?b2"
    using keepsD(1) [OF k1] assms(3) by (intro keeps_session_upd) auto
  have "keeps ?b2 (session_drain s c ?b2)"
    using keepsD [OF k1] keepsD [OF k2] assms(2-4)
    by (intro keeps_drain [where ss = "upd_nth s (ses_offline_update (\<lambda>_. False)) ss"]) auto
  then show ?thesis
    using keeps_trans [OF k1 keeps_trans [OF k2]] by (simp add: restore_session_def Let_def)
qed

lemma session_create_frame:
  assumes "session_find_or_create cid b = (r, b')"
  shows "bk_clients b' = bk_clients b" and "bk_threads b' = bk_threads b" and "bk_socks b' = bk_socks b"
    and "same_tables b b'" and "bk_retains b' = bk_retains b" and "bk_cfg_p2p b' = bk_cfg_p2p b"
  using assms
  by (auto simp: session_find_or_create_def session_pool_ensure_def same_tables_def advertised_def Let_def
      split: option.splits if_splits)

lemma keeps_create:
  assumes "session_find_or_create cid b = ((r, found), b')" and "core_ok b"
    and "cstr_ok cid" and "length cid < MQTT_CLIENT_ID_MAX"
  shows "keeps b b'" and "r = Some i \<Longrightarrow> \<exists>ss. bk_sessions b' = Some ss \<and> i < length ss"
  using find_or_create_cases [OF assms(1) _ assms(3,4)] assms(2) session_create_frame [OF assms(1)]
  by (auto intro!: keeps_sessions simp: core_ok_def)

lemma keeps_delete:
  assumes "core_ok b"
  shows "keeps b (session_delete cid b)"
  using assms session_delete_ok(1) [of b cid]
  by (intro keeps_sessions)
    (simp_all add: core_ok_def session_delete_def same_tables_def advertised_def split: option.split)

lemma keeps_timeout: "core_ok b \<Longrightarrow> keeps b (set_rcvtimeo c sec b)"
  by (intro keeps_clients benign_same) (simp_all add: set_rcvtimeo_def same_tables_def advertised_def upd_sock_def)

lemma keeps_accept:
  assumes "core_ok b" and "live b c" and "packet_parse_connect pkt out = Inr conn"
    and "\<not> (conn_has_will conn \<and> conn_will_qos conn = 3)"
    and "\<not> (conn_has_will conn \<and> (conn_will_topic conn = [] \<or> has_wildcard (conn_will_topic conn)))"
  shows "keeps b (accept_connect c conn b)"
proof -
  let ?b1 = "client_takeover c (conn_client_id conn) b"
  let ?b2 = "upd_client c (adopt_connect conn) ?b1"
  let ?sess = "if conn_clean_session conn then ((None, False), session_delete (conn_client_id conn) ?b2)
    else session_find_or_create (conn_client_id conn) ?b2"
  obtain sess present b3 where s: "?sess = ((sess, present), b3)" by (metis surj_pair)
  let ?b4 = "send_reply c (packet_build_connack (if present then 1 else 0) CONNACK_ACCEPTED 4) b3"
  let ?b5 = "set_rcvtimeo c (tick_sec (cl_keepalive (client_at ?b4 c))) ?b4"
  have k1: "keeps b ?b1" using keeps_takeover [OF assms(1)] .
  have k2: "keeps ?b1 ?b2"
    using keepsD(1) [OF k1] adopt_ok [OF assms(3) _ assms(4,5)]
    by (intro keeps_upd_client benign_upd_client) simp_all
  note f = parse_connect_facts [OF assms(3)]
  have k3: "keeps ?b2 b3"
    using s keeps_delete [OF keepsD(1) [OF k2]] keeps_create(1) [OF _ keepsD(1) [OF k2]] f
    by (auto split: if_splits)
  have l3: "live b3 c" using assms(2) keepsD(2) k1 k2 k3 by blast
  have k4: "keeps b3 ?b4" by (rule keeps_reply [OF keepsD(1) [OF k3] l3])
  have k5: "keeps ?b4 ?b5" by (rule keeps_timeout [OF keepsD(1) [OF k4]])
  have k: "keeps b ?b5" using k1 k2 k3 k4 k5 keeps_trans by blast
  have eq: "accept_connect c conn b = (case sess of Some i \<Rightarrow> if present then restore_session i c ?b5 else ?b5 | None \<Rightarrow> ?b5)"
    using s by (simp add: accept_connect_def Let_def split: option.split)
  show ?thesis
  proof (cases "sess \<noteq> None \<and> present")
    case True
    then obtain i where i: "sess = Some i" by auto
    then have "session_find_or_create (conn_client_id conn) ?b2 = ((Some i, present), b3)"
      using s by (auto split: if_splits)
    then obtain ss where "bk_sessions b3 = Some ss" "i < length ss"
      using keeps_create(2) [OF _ keepsD(1) [OF k2], of _ _ _ _ i] f by blast
    then have "keeps ?b5 (restore_session i c ?b5)"
      using keepsD(1) [OF k5] keepsD(2) [OF k] assms(2)
      by (intro keeps_restore) (auto simp: set_rcvtimeo_def send_reply_def split: option.split)
    then show ?thesis using keeps_trans [OF k] eq i True by simp
  next
    case False
    then show ?thesis using k eq by (auto split: option.split)
  qed
qed

lemma keeps_refuse: "core_ok b \<Longrightarrow> live b c \<Longrightarrow> keeps b (close_client c (send_reply c m b))"
  using keeps_reply by (rule keeps_then) (auto intro: keeps_close)

lemma keeps_connect:
  assumes "core_ok b" and "live b c"
  shows "keeps b (handle_connect out c pkt b)"
  using assms keeps_accept [OF assms]
  by (auto simp: handle_connect_def keeps_close keeps_refuse split: sum.split connect_error.split)

lemma keeps_publish_handler:
  assumes "core_ok b" and "live b c"
  shows "keeps b (handle_publish out c pkt b)"
proof (cases "packet_parse_publish pkt out")
  case (Some pub)
  show ?thesis
  proof (cases "pub_topic pub = [] \<or> has_wildcard (pub_topic pub) \<or> pub_qos pub = 3 \<or> (pub_qos pub > 0 \<and> pub_packet_id pub = 0)")
    case True
    then show ?thesis using Some assms keeps_close by (auto simp: handle_publish_def)
  next
    case False
    have m: "message_ok pub" "topic_publishable (pub_topic pub)"
      using publish_message_ok [OF parse_publish_ok [OF Some]] False by (simp_all add: topic_publishable_def)
    have pub: "keeps b1 (topic_publish pub b1)" if "core_ok b1" for b1
      using keeps_publish [OF that m] .
    have q2: "keeps b (handle_publish_qos2 c pub b)"
    proof -
      let ?t = "cl_qos2_in (client_at b c)"
      let ?set = "\<lambda>i. upd_client c (\<lambda>cl. cl\<lparr>cl_qos2_in :=
        upd_nth i (\<lambda>_. \<lparr>q2_packet_id = pub_packet_id pub, q2_in_use = True\<rparr>) (cl_qos2_in cl)\<rparr>) b"
      have t: "client_ok c (client_at b c)" using live_client_ok [OF assms] .
      have set: "keeps b (?set i)"
        if n: "slot_of q2_in_use q2_packet_id (pub_packet_id pub) ?t = None" for i
      proof -
        have "keys_unique q2_in_use q2_packet_id (upd_nth i (\<lambda>_. \<lparr>q2_packet_id = pub_packet_id pub, q2_in_use = True\<rparr>) ?t)"
          using t n by (intro q2s.unique_store) (auto simp: client_ok_def)
        then show ?thesis
          using t assms(1) by (intro keeps_upd_client benign_upd_client) (auto simp: client_ok_def)
      qed
      let ?b1 = "if slot_of q2_in_use q2_packet_id (pub_packet_id pub) ?t \<noteq> None then b
        else case free_slot q2_in_use ?t of None \<Rightarrow> b | Some i \<Rightarrow> topic_publish pub (?set i)"
      have "keeps b ?b1"
        using assms(1) set keeps_trans [OF set pub] keepsD(1) [OF set] by (auto simp: keeps_refl split: option.split)
      then show ?thesis
        unfolding handle_publish_qos2_def Let_def
        by (rule keeps_then) (simp add: keeps_reply assms(2))
    qed
    have "keeps b (send_reply c r (topic_publish pub b))" for r
      using pub [OF assms(1)] by (rule keeps_then) (simp add: keeps_reply assms(2))
    then show ?thesis
      using Some False q2 pub [OF assms(1)] by (auto simp: handle_publish_def Let_def)
  qed
qed (simp add: handle_publish_def assms(1) keeps_refl)

lemma keeps_subscribe_one:
  assumes "core_ok b" and "live b c" and "filter_ok f"
  shows "keeps b (snd (subscribe_one c (f, q) (codes, b)))"
  using assms keeps_subscribe [OF assms, of q]
  by (cases "topic_subscribe c f q b") (auto simp: subscribe_one_def keeps_refl not_less)

lemma keeps_subscribe_topics:
  assumes "core_ok b" and "live b c" and "\<forall>(f, q) \<in> set topics. filter_ok f"
  shows "keeps b (snd (fold (subscribe_one c) topics (codes, b)))"
  using assms
proof (induction topics arbitrary: b codes)
  case (Cons fq topics)
  obtain f q where fq: "fq = (f, q)" by force
  obtain codes1 b1 where s: "subscribe_one c fq (codes, b) = (codes1, b1)" by force
  have k: "keeps b b1"
    using keeps_subscribe_one [of b c f q codes] Cons.prems s fq by simp
  then have "keeps b1 (snd (fold (subscribe_one c) topics (codes1, b1)))"
    using Cons.prems keepsD [OF k] by (intro Cons.IH) auto
  then show ?case using keeps_trans [OF k] s by simp
qed (simp add: keeps_refl)

lemma keeps_deliver_retained:
  assumes "core_ok b" and "live b c"
  shows "keeps b (topic_deliver_retained c f q b)"
proof (cases "bk_retains b")
  case (Some rs)
  have rok: "retains_ok rs" using assms(1) Some by (simp add: core_ok_def retained_ok_def)
  define P where "P p \<longleftrightarrow> (case p of (buf, qos, pid) \<Rightarrow> \<exists>pub. publish_ok pub \<and> topic_publishable (pub_topic pub) \<and>
      packet_build_publish pub (MQTT_MAX_PACKET_SIZE + 8) = Some buf \<and> pub_qos pub = qos \<and> pub_packet_id pub = pid)"
    for p :: "byte list \<times> byte \<times> u16"
  have step: "keeps b1 (snd (retained_step c f q r (pkts, b1))) \<and> (\<forall>p \<in> set (fst (retained_step c f q r (pkts, b1))). P p)"
    if "r \<in> set rs" "core_ok b1" "live b1 c" "\<forall>p \<in> set pkts. P p" for r pkts b1
  proof (cases "\<not> ret_in_use r \<or> \<not> topic_match f (ret_topic r)")
    case False
    let ?m = "retained_message q r"
    define b' where "b' = (if pub_qos ?m > 0
      then upd_client c (\<lambda>cl. cl\<lparr>cl_next_packet_id := next_id (cl_next_packet_id cl)\<rparr>) b1 else b1)"
    define pub where "pub = (if pub_qos ?m > 0 then ?m\<lparr>pub_packet_id := cl_next_packet_id (client_at b' c)\<rparr> else ?m)"
    have r: "publish_ok (retained_message 0 r)" "topic_publishable (ret_topic r)" "ret_qos r \<le> 2" "length (ret_topic r) < 128"
      using rok that(1) False by (simp_all add: retains_ok_def)
    have "min q (ret_qos r) \<le> 2" using r(3) by (meson min.cobounded2 order_trans)
    then have ok: "publish_ok pub" "topic_publishable (pub_topic pub)"
      using r that(3) next_id_nonzero
      by (auto simp: publish_ok_def retained_message_def live_def zero_publish_def not_less pub_def b'_def)
    have k: "keeps b1 b'"
      using that(2) by (auto simp: b'_def keeps_refl intro!: keeps_upd_client benign_upd_client)
    have e: "retained_step c f q r (pkts, b1) =
        (case packet_build_publish pub (MQTT_MAX_PACKET_SIZE + 8) of None \<Rightarrow> (pkts, b')
         | Some buf \<Rightarrow> (pkts @ [(buf, pub_qos pub, pub_packet_id pub)], b'))"
      using False unfolding retained_step_def Let_def b'_def pub_def by simp
    have "P (buf, pub_qos pub, pub_packet_id pub)"
      if "packet_build_publish pub (MQTT_MAX_PACKET_SIZE + 8) = Some buf" for buf
      using ok that unfolding P_def by blast
    then show ?thesis using k that(4) by (simp add: e split: option.split)
  qed (use that in \<open>simp add: retained_step_def keeps_refl\<close>)
  have "keeps b1 (snd (fold (retained_step c f q) xs (pkts, b1))) \<and>
      (\<forall>p \<in> set (fst (fold (retained_step c f q) xs (pkts, b1))). P p)"
    if "set xs \<subseteq> set rs" "core_ok b1" "live b1 c" "\<forall>p \<in> set pkts. P p" for xs pkts b1
    using that
  proof (induction xs arbitrary: pkts b1)
    case (Cons x xs)
    obtain pkts2 b2 where s: "retained_step c f q x (pkts, b1) = (pkts2, b2)" by force
    have k: "keeps b1 b2" "\<forall>p \<in> set pkts2. P p" using step [of x b1 pkts] Cons.prems s by auto
    have "keeps b2 (snd (fold (retained_step c f q) xs (pkts2, b2))) \<and>
      (\<forall>p \<in> set (fst (fold (retained_step c f q) xs (pkts2, b2))). P p)"
      using Cons.prems k keepsD [OF k(1)] by (intro Cons.IH) auto
    then show ?case using s keeps_trans [OF k(1)] by simp
  qed (simp add: keeps_refl)
  from this [of rs b "[]"] obtain pkts b2 where
    s: "fold (retained_step c f q) rs ([], b) = (pkts, b2)" "keeps b b2" "\<forall>p \<in> set pkts. P p"
    using assms by (cases "fold (retained_step c f q) rs ([], b)") simp
  have "keeps b1 (send_packet c p b1)" if "p \<in> set pkts" "core_ok b1" "live b1 c" for p b1
  proof -
    obtain buf qos pid where p: "p = (buf, qos, pid)" by (metis surj_pair)
    have "P (buf, qos, pid)" using s(3) that(1) p by blast
    then obtain pub where pub: "publish_ok pub" "topic_publishable (pub_topic pub)"
      "packet_build_publish pub (MQTT_MAX_PACKET_SIZE + 8) = Some buf" "pub_qos pub = qos" "pub_packet_id pub = pid"
      by (auto simp: P_def)
    have eq: "send_packet c p b1 = send_frame c pub b1"
      using pub by (simp add: send_packet_def send_frame_def p Let_def)
    show ?thesis
      unfolding eq using that pub
      by (intro keeps_clients benign_send_frame) (simp_all add: same_tables_def advertised_def)
  qed
  then have "keeps b2 (fold (send_packet c) pkts b2)"
    using keepsD [OF s(2)] assms by (intro keeps_fold [where c = c]) auto
  then show ?thesis using keeps_trans [OF s(2)] Some s(1) by (simp add: topic_deliver_retained_def)
qed (simp add: topic_deliver_retained_def keeps_refl assms(1))

lemma keeps_subscribe_handler:
  assumes "core_ok b" and "live b c"
  shows "keeps b (handle_subscribe c pkt b)"
proof -
  obtain pid r where p: "packet_parse_subscribe pkt 8 = (pid, r)" by force
  show ?thesis
  proof (cases r)
    case None
    then show ?thesis using p keeps_close [OF assms] by (simp add: handle_subscribe_def)
  next
    case r: (Some topics)
    note t = parse_subscribe_ok [OF p [unfolded r]]
    obtain codes b1 where f: "fold (subscribe_one c) topics ([], b) = (codes, b1)" by force
    have k1: "keeps b b1"
      using keeps_subscribe_topics [OF assms, of topics "[]"] t f by auto
    let ?b2 = "send_reply c (packet_build_suback pid codes 32) b1"
    have k2: "keeps b ?b2"
      using k1 by (rule keeps_then) (simp add: keeps_reply assms(2))
    have "keeps ?b2 (fold (\<lambda>((f, q), code) b. if code \<noteq> 0x80 then topic_deliver_retained c f q b else b) (zip topics codes) ?b2)"
      using keepsD [OF k2] assms(2)
      by (intro keeps_fold [where c = c]) (auto simp: keeps_refl keeps_deliver_retained)
    then show ?thesis
      using t p r f keeps_trans [OF k2] by (simp add: handle_subscribe_def Let_def)
  qed
qed

lemma keeps_unsubscribe_topics:
  "core_ok b \<Longrightarrow> live b c \<Longrightarrow> keeps b (snd (unsubscribe_topics c fs b))"
proof (induction c fs b rule: unsubscribe_topics.induct)
  case (2 c f fs b)
  have k: "keeps b (topic_unsubscribe c f b)" using keeps_unsubscribe [OF 2(2)] .
  show ?case
  proof (cases "topic_filter_valid f")
    case True
    then have "keeps (topic_unsubscribe c f b) (snd (unsubscribe_topics c fs (topic_unsubscribe c f b)))"
      using 2 keepsD [OF k] by simp
    then show ?thesis using True keeps_trans [OF k] by simp
  qed (use 2 in \<open>simp add: keeps_close\<close>)
qed (simp add: keeps_refl)

lemma keeps_unsubscribe_handler:
  assumes "core_ok b" and "live b c"
  shows "keeps b (handle_unsubscribe c pkt b)"
proof -
  obtain pid r where p: "packet_parse_unsubscribe pkt 8 = (pid, r)" by force
  show ?thesis
  proof (cases r)
    case None
    then show ?thesis using p keeps_close [OF assms] by (simp add: handle_unsubscribe_def)
  next
    case r: (Some topics)
    note t = parse_unsubscribe_ok [OF p [unfolded r]]
    obtain ok b1 where u: "unsubscribe_topics c topics b = (ok, b1)" by force
    have k: "keeps b b1" using keeps_unsubscribe_topics [OF assms, of topics] u by simp
    then have "keeps b (send_reply c m b1)" for m
      by (rule keeps_then) (simp add: keeps_reply assms(2))
    then show ?thesis using t p r u k by (cases ok) (simp_all add: handle_unsubscribe_def)
  qed
qed

lemma keeps_pubrec:
  assumes "core_ok b" and "live b c"
  shows "keeps b (handle_pubrec c rid b)"
proof (cases "find_idx (\<lambda>e. if_in_use e \<and> if_packet_id e = rid \<and> if_qos e = 2 \<and> \<not> if_waiting_pubcomp e)
    (cl_inflight (client_at b c))")
  case (Some i)
  let ?f = "\<lambda>rel e. e\<lparr>if_waiting_pubcomp := True, if_sent_at_ms := bk_now b, if_buf := rel\<rparr>"
  have e: "if_packet_id (cl_inflight (client_at b c) ! i) = rid" "if_qos (cl_inflight (client_at b c) ! i) = 2"
    using Some by (auto simp: find_idx_Some)
  have k: "keeps b (client_send c rel b)" for rel using keeps_send [OF assms] .
  have "keeps (client_send c rel b)
      (upd_client c (\<lambda>cl. cl\<lparr>cl_inflight := upd_nth i (?f rel) (cl_inflight cl)\<rparr>) (client_send c rel b))"
    if "packet_build_pubrel rid 4 = Some rel" for rel
    using keepsD(1) [OF k] that e
    by (intro keeps_upd_client benign_upd_client client_ok_inflight) (auto simp: inflight_ok_def)
  then show ?thesis
    using Some keeps_trans [OF k] by (auto simp: handle_pubrec_def keeps_refl assms(1) split: option.split)
qed (simp add: handle_pubrec_def keeps_refl assms(1))

lemma keeps_pubrel:
  assumes "core_ok b" and "live b c"
  shows "keeps b (handle_pubrel c rid b)"
proof -
  let ?set = "\<lambda>i. upd_client c (\<lambda>cl. cl\<lparr>cl_qos2_in := upd_nth i (\<lambda>e. e\<lparr>q2_in_use := False\<rparr>) (cl_qos2_in cl)\<rparr>) b"
  have "keeps b (?set i)" for i
    using assms(1) q2s.unique_release
    by (intro keeps_upd_client benign_upd_client) (auto simp: client_ok_def)
  then have "keeps b (case slot_of q2_in_use q2_packet_id rid (cl_qos2_in (client_at b c)) of None \<Rightarrow> b | Some i \<Rightarrow> ?set i)"
    by (simp add: keeps_refl assms(1) split: option.split)
  then show ?thesis
    unfolding handle_pubrel_def Let_def by (rule keeps_then) (simp add: keeps_reply assms(2))
qed

lemma keeps_disconnect:
  assumes "core_ok b" and "live b c"
  shows "keeps b (handle_disconnect c b)"
  unfolding handle_disconnect_def
  using assms by (intro keeps_upd_client benign_upd_client) (simp_all add: client_ok_def live_def)

lemma keeps_dispatch:
  assumes "core_ok b" and "live b c"
  shows "keeps b (dispatch stack c pkt b)"
  using assms keeps_close [OF assms] keeps_publish_handler [OF assms] keeps_subscribe_handler [OF assms]
    keeps_unsubscribe_handler [OF assms] keeps_disconnect [OF assms] keeps_reply [OF assms] keeps_ack [OF assms(1)]
    keeps_pubrec [OF assms] keeps_pubrel [OF assms] keeps_refl [OF assms(1)]
  by (simp add: dispatch_def Let_def handle_pingreq_def)

lemma keeps_process:
  assumes "core_ok b" and "live b c"
  shows "keeps b (snd (process_packet stack c pkt b))"
proof -
  let ?b = "upd_client c (\<lambda>cl. cl\<lparr>cl_last_seen_ms := bk_now b\<rparr>) b"
  have k: "keeps b ?b" using assms(1) by (intro keeps_upd_client benign_upd_client) simp_all
  have "keeps ?b (close_client c ?b)" "keeps ?b (dispatch stack c pkt ?b)" "keeps ?b ?b"
    using keepsD [OF k] assms(2) keeps_close keeps_dispatch keeps_refl by auto
  then show ?thesis
    using keeps_trans [OF k] by (auto simp: process_packet_def Let_def)
qed

lemma inflight_retry_tables:
  "bk_subs (client_inflight_retry c b) = bk_subs b" "bk_exact_heads (client_inflight_retry c b) = bk_exact_heads b"
  "bk_wildcard_head (client_inflight_retry c b) = bk_wildcard_head b" "bk_p2p (client_inflight_retry c b) = bk_p2p b"
  "bk_sessions (client_inflight_retry c b) = bk_sessions b" "bk_retains (client_inflight_retry c b) = bk_retains b"
proof -
  let ?same = "\<lambda>b'. bk_subs b' = bk_subs b \<and> bk_exact_heads b' = bk_exact_heads b \<and>
    bk_wildcard_head b' = bk_wildcard_head b \<and> bk_p2p b' = bk_p2p b \<and> bk_sessions b' = bk_sessions b \<and>
    bk_retains b' = bk_retains b"
  have "?same b' \<Longrightarrow> ?same (inflight_retry_slot c i b')" for i b'
    by (simp add: inflight_retry_slot_eq Let_def)
  then have "?same b' \<Longrightarrow> ?same (fold (inflight_retry_slot c) is b')" for "is" b'
    by (induction "is" arbitrary: b') auto
  then have "?same (client_inflight_retry c b)" by (simp add: client_inflight_retry_def)
  then show "bk_subs (client_inflight_retry c b) = bk_subs b" "bk_exact_heads (client_inflight_retry c b) = bk_exact_heads b"
  "bk_wildcard_head (client_inflight_retry c b) = bk_wildcard_head b" "bk_p2p (client_inflight_retry c b) = bk_p2p b"
  "bk_sessions (client_inflight_retry c b) = bk_sessions b" "bk_retains (client_inflight_retry c b) = bk_retains b"
    by simp_all
qed

lemma keeps_retry:
  assumes "core_ok b" and "live b c"
  shows "keeps b (client_inflight_retry c b)"
  using assms benign_retry [OF assms(2) live_client_ok [OF assms]]
  by (intro keeps_clients) (simp_all add: same_tables_def advertised_def inflight_retry_tables)

lemma keeps_recv_failed:
  assumes "core_ok b" and "live b c"
  shows "keeps b (snd (recv_failed c b))"
  using keeps_retry [OF assms] keeps_refl [OF assms(1)] by (simp add: recv_failed_def)

subsection \<open>The end of a client\<close>

text \<open>An inflight publication is turned back into the message it was built from, with DUP.\<close>

lemma inflight_publish_ok:
  assumes "inflight_ok e" and "if_in_use e" and "if_qos e = 1"
  shows "\<exists>p. inflight_publish e = Some (p\<lparr>pub_dup := 1\<rparr>) \<and> publish_ok p \<and> topic_publishable (pub_topic p) \<and>
    pub_qos p = 1 \<and> pub_packet_id p = if_packet_id e"
proof -
  have "\<not> if_waiting_pubcomp e" using assms by (auto simp: inflight_ok_def)
  then obtain p where p: "publish_ok p" "topic_publishable (pub_topic p)" "pub_qos p = 1"
    "pub_packet_id p = if_packet_id e" "packet_build_publish p (MQTT_MAX_PACKET_SIZE + 8) = Some (if_buf e)"
    using assms by (auto simp: inflight_ok_def)
  obtain enc where enc: "packet_encode_remaining_len (word_of_nat (length (publish_body p))) = Some enc"
    and b: "if_buf e = publish_header p # enc @ publish_body p"
    using build_publish_total [OF p(1,2), of 712] p(5) by auto
  have len: "unat (word_of_nat (length (publish_body p)) :: u32) = length (publish_body p)"
    using length_publish_body [OF p(1)] by (simp add: unat_of_nat)
  have "inflight_publish e = Some (p\<lparr>pub_dup := 1\<rparr>)"
    using decode_encode [OF enc, of "publish_body p"] parse_publish_body [OF p(1), of 0 zero_publish] p(3)
    by (simp add: inflight_publish_def b len)
  then show ?thesis using p by blast
qed

lemma session_ok_save_inflight:
  assumes "inflight_ok e" and "session_ok s"
  shows "session_ok (save_inflight e s)"
proof (cases "if_in_use e \<and> if_qos e = 1")
  case True
  then obtain p where p: "inflight_publish e = Some (p\<lparr>pub_dup := 1\<rparr>)" "publish_ok p" "topic_publishable (pub_topic p)"
    "pub_qos p = 1" "pub_packet_id p = if_packet_id e"
    using inflight_publish_ok [OF assms(1)] by blast
  then have "publish_ok (p\<lparr>pub_dup := 1\<rparr>)" "if_packet_id e \<noteq> 0" by (auto simp: publish_ok_def)
  then show ?thesis
    using True p assms(2) by (auto simp: save_inflight_def intro!: session_ok_enqueue)
qed (use assms(2) in \<open>auto simp: save_inflight_def\<close>)

lemma client_subs_ok:
  assumes "core_ok b"
  shows "\<forall>(f, q) \<in> set (topic_get_client_subs c n b). filter_ok f \<and> topic_filter_valid f \<and> q \<le> 2"
  using assms
  by (auto simp: core_ok_def table_inv_def table_ok_def sub_ok_def topic_get_client_subs_def filter_ok_def
      dest!: in_set_takeD)

lemma enqueue_id [simp]: "ses_client_id (snd (session_enqueue p i s)) = ses_client_id s"
  "ses_in_use (snd (session_enqueue p i s)) = ses_in_use s"
  by (simp_all add: session_enqueue_def split: option.split)

lemma keeps_save_session:
  assumes "core_ok b" and "live b c"
  shows "keeps b (client_save_session c b)"
proof -
  obtain r found b1 where s: "session_find_or_create (cl_client_id (client_at b c)) b = ((r, found), b1)"
    by (metis surj_pair)
  have cid: "cstr_ok (cl_client_id (client_at b c))" "length (cl_client_id (client_at b c)) < 24"
    using live_client_ok [OF assms] by (simp_all add: client_ok_def)
  note k = keeps_create [OF s assms(1) cid]
  let ?f = "\<lambda>ses. fold save_inflight (cl_inflight (client_at b1 c)) (session_save_subs (topic_get_client_subs c 4 b) ses)"
  have cl: "client_at b1 c = client_at b c"
    using session_create_frame(1) [OF s] by (simp add: client_at_def)
  have "\<forall>e \<in> set (cl_inflight (client_at b1 c)). inflight_ok e"
    using live_client_ok [OF assms] cl by (simp add: client_ok_def)
  then have "session_ok ses \<Longrightarrow> session_ok (fold save_inflight es ses)" if "set es \<subseteq> set (cl_inflight (client_at b1 c))" for es ses
    using that by (induction es arbitrary: ses) (auto intro: session_ok_save_inflight)
  then have ok: "session_ok ses \<Longrightarrow> session_ok (?f ses)" for ses
    using session_ok_save_subs [OF _ client_subs_ok [OF assms(1)]] by blast
  have id: "ses_client_id (fold save_inflight es ses) = ses_client_id ses \<and> ses_in_use (fold save_inflight es ses) = ses_in_use ses" for es ses
    by (induction es arbitrary: ses) (auto simp: save_inflight_def split: option.split)
  have "keeps b1 (upd_session i ?f b1)" if "r = Some i" for i
    using k(2) [OF that] keepsD(1) [OF k(1)] ok id
    by (elim exE conjE) (intro keeps_session_upd, auto simp: session_save_subs_def)
  then show ?thesis
    using keeps_trans [OF k(1)] k(1) s by (auto simp: client_save_session_def Let_def split: option.split)
qed

subsection \<open>Connections\<close>

text \<open>
  A slot has a running thread exactly while it is not free; a live client has an open
  descriptor of its own, a free slot has none.
\<close>

definition conn_ok :: "broker \<Rightarrow> bool" where
  "conn_ok b \<longleftrightarrow> length (bk_threads b) = length (bk_clients b) \<and>
     (\<forall>c < length (bk_clients b).
        (th_phase (thread_at b c) = ThreadIdle \<longleftrightarrow> \<not> live b c) \<and>
        (if live b c then cl_fd (client_at b c) \<ge> 0 \<and> \<not> so_closed (bk_socks b (cl_fd (client_at b c)))
         else cl_fd (client_at b c) = -1)) \<and>
     (\<forall>c d. live b c \<longrightarrow> live b d \<longrightarrow> cl_fd (client_at b c) = cl_fd (client_at b d) \<longrightarrow> c = d)"

definition broker_ok :: "broker \<Rightarrow> bool" where
  "broker_ok b \<longleftrightarrow> core_ok b \<and> conn_ok b"

lemma live_less: "live b c \<Longrightarrow> c < length (bk_clients b)"
  by (simp add: live_def)

lemma conn_benign:
  assumes "conn_ok b" and "benign b b'"
  shows "conn_ok b'"
proof -
  have l: "live b' c = live b c" for c using benign_live [OF assms(2)] .
  have n: "length (bk_clients b') = length (bk_clients b)" and t: "bk_threads b' = bk_threads b"
    and fd: "c < length (bk_clients b) \<Longrightarrow> cl_fd (client_at b' c) = cl_fd (client_at b c)"
    and cd: "so_closed (bk_socks b' f) = so_closed (bk_socks b f)" for c f
    using assms(2) by (auto simp: benign_def)
  show ?thesis
    using assms(1) live_less fd by (simp add: conn_ok_def l n t cd thread_at_def)
qed

lemma ok_keeps: "broker_ok b \<Longrightarrow> keeps b b' \<Longrightarrow> broker_ok b'"
  using conn_benign by (auto simp: broker_ok_def keeps_def)

text \<open>Moving on within the life of a thread, and setting its \<open>errno\<close>.\<close>

lemma upd_thread_frame [simp]:
  "bk_clients (upd_thread c f b) = bk_clients b" "bk_socks (upd_thread c f b) = bk_socks b"
  "bk_subs (upd_thread c f b) = bk_subs b" "bk_exact_heads (upd_thread c f b) = bk_exact_heads b"
  "bk_wildcard_head (upd_thread c f b) = bk_wildcard_head b" "bk_sessions (upd_thread c f b) = bk_sessions b"
  "bk_retains (upd_thread c f b) = bk_retains b" "bk_p2p (upd_thread c f b) = bk_p2p b"
  "bk_cfg_p2p (upd_thread c f b) = bk_cfg_p2p b" "client_at (upd_thread c f b) d = client_at b d"
  "live (upd_thread c f b) d = live b d" "length (bk_threads (upd_thread c f b)) = length (bk_threads b)"
  "bk_now (upd_thread c f b) = bk_now b"
  by (simp_all add: upd_thread_def client_at_def live_def)

lemma thread_at_upd: "d < length (bk_threads b) \<Longrightarrow>
    thread_at (upd_thread c f b) d = (if d = c then f (thread_at b d) else thread_at b d)"
  by (simp add: thread_at_def upd_thread_def nth_upd_nth)

lemma core_transfer:
  assumes "core_ok b" and "same_tables b b'" and "bk_sessions b' = bk_sessions b" and "bk_retains b' = bk_retains b"
    and "bk_cfg_p2p b' = bk_cfg_p2p b" and "length (bk_clients b') = length (bk_clients b)"
    and "\<forall>e \<in> set (bk_subs b). sub_in_use e \<longrightarrow> live b' (sub_client e)"
    and "\<And>c. c < length (bk_clients b) \<Longrightarrow> client_ok c (client_at b' c)"
  shows "core_ok b'"
proof -
  have "table_inv b' = table_inv b"
    using assms by (intro table_inv_cong) (simp_all add: same_tables_def)
  moreover have "pool_ok b' = pool_ok b" using assms by (intro pool_ok_cong) simp_all
  ultimately show ?thesis using assms by (simp add: core_ok_def retained_ok_def same_tables_def)
qed

lemma core_thread: "core_ok (upd_thread c f b) = core_ok b"
proof -
  have "table_inv (upd_thread c f b) = table_inv b" by (rule table_inv_cong) (simp_all add: advertised_def)
  moreover have "pool_ok (upd_thread c f b) = pool_ok b" by (rule pool_ok_cong) simp_all
  ultimately show ?thesis by (simp add: core_ok_def retained_ok_def)
qed

lemma ok_thread:
  assumes "broker_ok b" and "live b c" and "th_phase (f (thread_at b c)) \<noteq> ThreadIdle"
  shows "broker_ok (upd_thread c f b)"
proof -
  have c: "conn_ok b" using assms(1) by (simp add: broker_ok_def)
  have "th_phase (thread_at (upd_thread c f b) d) = ThreadIdle \<longleftrightarrow> \<not> live b d" if "d < length (bk_clients b)" for d
    using that c assms(2,3) by (cases "d = c") (simp_all add: thread_at_upd conn_ok_def)
  then have "conn_ok (upd_thread c f b)" using c by (simp add: conn_ok_def)
  then show ?thesis using assms(1) by (simp add: broker_ok_def core_thread)
qed

subsection \<open>The end of a connection\<close>

lemma plat_close_frame [simp]:
  "bk_clients (plat_close fd b) = bk_clients b" "bk_threads (plat_close fd b) = bk_threads b"
  "bk_subs (plat_close fd b) = bk_subs b" "bk_exact_heads (plat_close fd b) = bk_exact_heads b"
  "bk_wildcard_head (plat_close fd b) = bk_wildcard_head b" "bk_sessions (plat_close fd b) = bk_sessions b"
  "bk_retains (plat_close fd b) = bk_retains b" "bk_p2p (plat_close fd b) = bk_p2p b"
  "bk_cfg_p2p (plat_close fd b) = bk_cfg_p2p b" "client_at (plat_close fd b) d = client_at b d"
  by (simp_all add: plat_close_def client_at_def)

lemma client_ok_fd [simp]: "client_ok i (cl\<lparr>cl_fd := x\<rparr>) = client_ok i cl"
  by (simp add: client_ok_def)

lemma client_free_parts:
  assumes "broker_ok b" and "live b c"
  defines "b1 \<equiv> upd_client c (\<lambda>cl. cl\<lparr>cl_fd := -1\<rparr>) (plat_close (cl_fd (client_at b c)) b)"
  shows "client_at b1 d = (if d = c then (client_at b c)\<lparr>cl_fd := -1\<rparr> else client_at b d)" and "live b1 d = live b d"
    and "\<exists>b5. client_free c b = upd_client c (set_state CLIENT_STATE_FREE) b5 \<and> keeps b1 b5 \<and>
      (\<forall>e \<in> set (bk_subs b5). sub_in_use e \<longrightarrow> sub_client e \<noteq> c) \<and>
      (cl_clean_session (client_at b c) \<longrightarrow> session_find (cl_client_id (client_at b c)) b5 = None)"
proof -
  have core: "core_ok b" and c: "c < length (bk_clients b)" and fd: "cl_fd (client_at b c) \<ge> 0"
    using assms live_less by (auto simp: broker_ok_def conn_ok_def)
  define b2 where "b2 = (if cl_has_will (client_at b1 c)
    then upd_client c (\<lambda>cl. cl\<lparr>cl_has_will := False\<rparr>) (topic_publish (cl_will (client_at b1 c)) b1) else b1)"
  define b3 where "b3 = (if \<not> cl_clean_session (client_at b2 c) then client_save_session c b2 else b2)"
  define b4 where "b4 = topic_unsubscribe_all c b3"
  define b5 where "b5 = (if cl_clean_session (client_at b4 c) then session_delete (cl_client_id (client_at b4 c)) b4 else b4)"
  have eq: "client_free c b = upd_client c (set_state CLIENT_STATE_FREE) b5"
    using fd by (simp add: client_free_def Let_def b1_def b2_def b3_def b4_def b5_def)
  show at1: "client_at b1 d = (if d = c then (client_at b c)\<lparr>cl_fd := -1\<rparr> else client_at b d)" for d
    using c by (cases "d = c") (simp_all add: b1_def)
  have n1: "length (bk_clients b1) = length (bk_clients b)" by (simp add: b1_def)
  show l1: "live b1 d = live b d" for d using at1 n1 by (simp add: live_def)
  have k1: "core_ok b1"
  proof (rule core_transfer [OF core])
    show "\<forall>e \<in> set (bk_subs b). sub_in_use e \<longrightarrow> live b1 (sub_client e)"
      using core by (simp add: core_ok_def l1)
    show "client_ok d (client_at b1 d)" if "d < length (bk_clients b)" for d
      using that core unfolding at1 by (simp add: core_ok_def)
  qed (simp_all add: same_tables_def advertised_def b1_def)
  have k2: "keeps b1 b2"
  proof (cases "cl_has_will (client_at b1 c)")
    case True
    have "client_ok c (client_at b1 c)" using live_client_ok [OF k1] l1 assms(2) by simp
    then have "keeps b1 (topic_publish (cl_will (client_at b1 c)) b1)"
      using True k1 by (intro keeps_publish) (simp_all add: client_ok_def)
    then show ?thesis
      using True
      by (auto simp: b2_def elim!: keeps_then intro!: keeps_upd_client benign_upd_client simp: client_ok_def)
  qed (use k1 in \<open>simp add: keeps_refl b2_def\<close>)
  have l2: "live b2 d = live b d" for d using keepsD(2) [OF k2] l1 by simp
  have k3: "keeps b2 b3"
    using keeps_save_session [OF keepsD(1) [OF k2]] l2 assms(2) keeps_refl [OF keepsD(1) [OF k2]] by (simp add: b3_def)
  note u = keeps_unsubscribe_all [OF keepsD(1) [OF k3], of c, folded b4_def]
  have k5: "keeps b4 b5"
    using keepsD(1) [OF conjunct1 [OF u]] keeps_delete keeps_refl by (simp add: b5_def)
  have subs: "\<forall>e \<in> set (bk_subs b5). sub_in_use e \<longrightarrow> sub_client e \<noteq> c"
    using u by (auto simp: b5_def session_delete_def split: option.split)
  have "session_find (cl_client_id (client_at b c)) b5 = None" if clean: "cl_clean_session (client_at b c)"
  proof -
    have at4: "client_at b4 d = client_at b3 d" for d by (simp add: b4_def client_at_def)
    have "client_at b2 c = client_at b4 c" and "cl_clean_session (client_at b4 c)"
      "cl_client_id (client_at b4 c) = cl_client_id (client_at b c)"
      using clean at1 [of c] c n1 by (auto simp: at4 b2_def b3_def topic_publish_def)
    moreover have "pool_ok b4" using u by (simp add: keeps_def core_ok_def)
    ultimately show ?thesis by (simp add: b5_def session_delete_ok(2))
  qed
  with eq subs keeps_trans [OF k2 keeps_trans [OF k3 keeps_trans [OF conjunct1 [OF u] k5]]]
  show "\<exists>b5. client_free c b = upd_client c (set_state CLIENT_STATE_FREE) b5 \<and> keeps b1 b5 \<and>
      (\<forall>e \<in> set (bk_subs b5). sub_in_use e \<longrightarrow> sub_client e \<noteq> c) \<and>
      (cl_clean_session (client_at b c) \<longrightarrow> session_find (cl_client_id (client_at b c)) b5 = None)" by blast
qed

lemma client_free_spec:
  assumes "broker_ok b" and "live b c"
  shows "core_ok (client_free c b)" and "cl_state (client_at (client_free c b) c) = CLIENT_STATE_FREE"
    and "cl_fd (client_at (client_free c b) c) = -1"
    and "bk_threads (client_free c b) = bk_threads b"
    and "length (bk_clients (client_free c b)) = length (bk_clients b)"
    and "d \<noteq> c \<Longrightarrow> live (client_free c b) d = live b d"
    and "live b d \<Longrightarrow> d \<noteq> c \<Longrightarrow> cl_fd (client_at (client_free c b) d) = cl_fd (client_at b d)"
    and "\<not> live b d \<Longrightarrow> d < length (bk_clients b) \<Longrightarrow> cl_fd (client_at (client_free c b) d) = cl_fd (client_at b d)"
    and "fd \<noteq> cl_fd (client_at b c) \<Longrightarrow> so_closed (bk_socks (client_free c b) fd) = so_closed (bk_socks b fd)"
    and "so_closed (bk_socks (client_free c b) (cl_fd (client_at b c)))"
    and "cl_clean_session (client_at b c) \<Longrightarrow> session_find (cl_client_id (client_at b c)) (client_free c b) = None"
proof -
  have core: "core_ok b" and c: "c < length (bk_clients b)"
    using assms live_less by (auto simp: broker_ok_def)
  define b1 where "b1 = upd_client c (\<lambda>cl. cl\<lparr>cl_fd := -1\<rparr>) (plat_close (cl_fd (client_at b c)) b)"
  note at1 = client_free_parts(1) [OF assms, folded b1_def] and l1 = client_free_parts(2) [OF assms, folded b1_def]
  obtain b5 where eq: "client_free c b = upd_client c (set_state CLIENT_STATE_FREE) b5" and k: "keeps b1 b5"
    and subs: "\<forall>e \<in> set (bk_subs b5). sub_in_use e \<longrightarrow> sub_client e \<noteq> c"
    and ses: "cl_clean_session (client_at b c) \<longrightarrow> session_find (cl_client_id (client_at b c)) b5 = None"
    using client_free_parts(3) [OF assms, folded b1_def] by blast
  have bn: "benign b1 b5" and k5': "core_ok b5" using k by (simp_all add: keeps_def)
  have l5: "live b5 d = live b d" for d using keepsD(2) [OF k] l1 by simp
  have n: "length (bk_clients b5) = length (bk_clients b)" and th: "bk_threads b5 = bk_threads b"
    using bn by (simp_all add: benign_def b1_def)
  have fd5: "cl_fd (client_at b5 d) = cl_fd (client_at b1 d)" if "d < length (bk_clients b)" for d
    using bn that by (auto simp: benign_def b1_def)
  have at6: "client_at (client_free c b) d = (if d = c then set_state CLIENT_STATE_FREE (client_at b5 c) else client_at b5 d)" for d
    unfolding eq using c n by (cases "d = c") simp_all
  show n6: "length (bk_clients (client_free c b)) = length (bk_clients b)" using n by (simp add: eq)
  show st: "cl_state (client_at (client_free c b) c) = CLIENT_STATE_FREE" by (simp add: at6 set_state_def)
  show l6: "live (client_free c b) d = live b d" if "d \<noteq> c" for d
    using that l5 [of d] n by (simp add: live_def at6 n6)
  show "core_ok (client_free c b)"
  proof (rule core_transfer [OF k5'])
    show "\<forall>e \<in> set (bk_subs b5). sub_in_use e \<longrightarrow> live (client_free c b) (sub_client e)"
      using subs k5' l5 l6 by (auto simp: core_ok_def)
    show "client_ok d (client_at (client_free c b) d)" if "d < length (bk_clients b5)" for d
      using that k5' by (simp add: at6 core_ok_def)
  qed (simp_all add: eq same_tables_def advertised_def)
  show "cl_fd (client_at (client_free c b) c) = -1"
    using fd5 [OF c] at1 [of c] by (simp add: at6 set_state_def)
  show "bk_threads (client_free c b) = bk_threads b" using th by (simp add: eq)
  show "cl_fd (client_at (client_free c b) d) = cl_fd (client_at b d)" if "live b d" "d \<noteq> c"
    using that fd5 [OF live_less] at1 [of d] by (simp add: at6)
  show "cl_fd (client_at (client_free c b) d) = cl_fd (client_at b d)" if "\<not> live b d" "d < length (bk_clients b)"
    using that fd5 at1 [of d] assms(2) by (auto simp: at6)
  show "so_closed (bk_socks (client_free c b) fd) = so_closed (bk_socks b fd)" if "fd \<noteq> cl_fd (client_at b c)"
    using that bn by (simp add: eq benign_def plat_close_def upd_sock_def b1_def)
  show "so_closed (bk_socks (client_free c b) (cl_fd (client_at b c)))"
    using bn by (simp add: eq benign_def plat_close_def upd_sock_def b1_def)
  show "session_find (cl_client_id (client_at b c)) (client_free c b) = None" if "cl_clean_session (client_at b c)"
    using ses that by (simp add: eq session_find_def)
qed

lemma ok_thread_end:
  assumes "broker_ok b" and "live b c"
  shows "broker_ok (thread_end c b)"
proof -
  note f = client_free_spec [OF assms]
  let ?b = "client_free c b"
  have conn: "conn_ok b" using assms(1) by (simp add: broker_ok_def)
  have lc: "\<not> live ?b c" using f(2) by (simp add: live_def)
  have th: "thread_at ?b d = thread_at b d" for d using f(4) by (simp add: thread_at_def)
  have n: "length (bk_threads ?b) = length (bk_clients b)" using conn f(4) by (simp add: conn_ok_def)
  have fdne: "cl_fd (client_at b d) \<noteq> cl_fd (client_at b c)" if "live b d" "d \<noteq> c" for d
    using conn that assms(2) by (auto simp: conn_ok_def)
  have A: "th_phase (thread_at (set_phase c ThreadIdle ?b) d) = ThreadIdle \<longleftrightarrow> \<not> live ?b d"
    if "d < length (bk_clients b)" for d
    using that conn lc f(6) n by (cases "d = c") (simp_all add: set_phase_def thread_at_upd th conn_ok_def)
  have B: "if live ?b d then cl_fd (client_at ?b d) \<ge> 0 \<and> \<not> so_closed (bk_socks ?b (cl_fd (client_at ?b d)))
      else cl_fd (client_at ?b d) = -1" if d: "d < length (bk_clients b)" for d
  proof (cases "d = c")
    case True
    then show ?thesis using lc f(3) by simp
  next
    case False
    show ?thesis
    proof (cases "live b d")
      case True
      then show ?thesis
        using False f(6) [OF False] f(7) [OF True False] f(9) [OF fdne [OF True False]] conn d
        by (simp add: conn_ok_def)
    next
      case dead: False
      then show ?thesis using False f(6) [OF False] f(8) [OF dead d] conn d by (simp add: conn_ok_def)
    qed
  qed
  have C: "d = e" if "live ?b d" "live ?b e" "cl_fd (client_at ?b d) = cl_fd (client_at ?b e)" for d e
  proof -
    have ne: "d \<noteq> c" "e \<noteq> c" using that lc by auto
    then have "live b d" "live b e" using that f(6) by blast+
    then show ?thesis using that ne f(7) conn by (simp add: conn_ok_def)
  qed
  have "conn_ok (set_phase c ThreadIdle ?b)"
    using A B C n f(5) by (simp add: conn_ok_def) (simp add: set_phase_def)
  then show ?thesis
    using f(1) by (simp add: broker_ok_def thread_end_def set_phase_def core_thread)
qed

subsection \<open>Steps\<close>

lemma recv_exact_closed: "recv_exact n s = (r, s') \<Longrightarrow> so_closed s' = so_closed s"
proof (induction n arbitrary: s r s' rule: less_induct)
  case (less n)
  show ?case
  proof (cases "n = 0")
    case True
    then show ?thesis using less.prems by (simp add: recv_exact.simps [of 0])
  next
    case False
    obtain r1 s1 where pr: "plat_recv n s = (r1, s1)" by force
    have s1: "so_closed s1 = so_closed s"
      using pr by (auto simp: plat_recv_def split: list.splits rx_event.splits if_splits)
    show ?thesis
    proof (cases r1)
      case (Inl e)
      then show ?thesis using less.prems False pr s1 by (simp add: recv_exact.simps [of n])
    next
      case (Inr bs)
      obtain r2 s2 where re: "recv_exact (n - length bs) s1 = (r2, s2)" by force
      have "n - length bs < n" using plat_recv_progress [of n s bs s1] False pr Inr by simp
      from less.IH [OF this re] have "so_closed s2 = so_closed s" using s1 by simp
      moreover have "s' = s2"
        using less.prems False pr Inr re by (simp add: recv_exact.simps [of n] split: sum.splits)
      ultimately show ?thesis by simp
    qed
  qed
qed

lemma recv_rlen_closed: "recv_rlen k hdr rlen s = (r, s') \<Longrightarrow> so_closed s' = so_closed s"
proof (induction k hdr rlen s arbitrary: r s' rule: recv_rlen.induct)
  case (1 k hdr rlen s)
  show ?case
    using 1(2) 1(1) recv_exact_closed
    by (subst (asm) recv_rlen.simps) (auto simp: Let_def split: if_splits sum.splits prod.splits)
qed

lemma sock_recv_closed: "sock_recv_packet s = (r, s') \<Longrightarrow> so_closed s' = so_closed s"
  by (auto simp: sock_recv_packet_def split: sum.splits prod.splits if_splits
      dest!: recv_exact_closed recv_rlen_closed)

lemma ok_recv:
  assumes "broker_ok b" and "live b c" and "th_phase (thread_at b c) \<noteq> ThreadIdle" and "recv_packet c b = (r, b')"
  shows "broker_ok b'" and "live b' d = live b d" and "th_phase (thread_at b' c) = th_phase (thread_at b c)"
proof -
  obtain r1 s where rs: "sock_recv_packet (bk_socks b (cl_fd (client_at b c))) = (r1, s)" by force
  let ?b1 = "upd_sock (cl_fd (client_at b c)) (\<lambda>_. s) b"
  have k: "keeps b ?b1"
    using assms(1) sock_recv_closed [OF rs]
    by (intro keeps_clients benign_same) (auto simp: broker_ok_def same_tables_def advertised_def upd_sock_def)
  have b1: "broker_ok ?b1" "live ?b1 d = live b d" for d
    using ok_keeps [OF assms(1) k] keepsD(2) [OF k] by auto
  have c: "c < length (bk_threads b)" using assms(1,2) live_less by (simp add: broker_ok_def conn_ok_def)
  have th: "thread_at ?b1 c = thread_at b c" by (simp add: thread_at_def)
  consider "b' = ?b1" | e where "b' = upd_thread c (\<lambda>t. t\<lparr>th_errno := e\<rparr>) ?b1"
    using assms(4) by (auto simp: recv_packet_def rs Let_def split: sum.splits option.splits)
  then have "broker_ok b' \<and> (\<forall>d. live b' d = live b d) \<and> th_phase (thread_at b' c) = th_phase (thread_at b c)"
  proof cases
    case 1
    then show ?thesis using b1 th by simp
  next
    case (2 e)
    have "broker_ok b'"
      unfolding 2 using b1 assms(2,3) th by (intro ok_thread) simp_all
    then show ?thesis using b1(2) th c by (simp add: 2 thread_at_upd)
  qed
  then show "broker_ok b'" "live b' d = live b d" "th_phase (thread_at b' c) = th_phase (thread_at b c)" by blast+
qed

lemma ok_next:
  assumes "broker_ok b" and "live b c" and "keeps b b'" and "ph \<noteq> ThreadIdle"
  shows "broker_ok (set_phase c ph b')"
  unfolding set_phase_def
  using ok_keeps [OF assms(1,3)] keepsD(2) [OF assms(3)] assms(2,4) by (intro ok_thread) simp_all

lemma ok_thread_step:
  assumes "broker_ok b" and "c < length (bk_clients b)"
  shows "broker_ok (client_thread_step stack_conn stack_pub c b)"
proof (cases "live b c")
  case False
  then have "th_phase (thread_at b c) = ThreadIdle" using assms by (simp add: broker_ok_def conn_ok_def)
  then show ?thesis using assms(1) by (simp add: client_thread_step_def)
next
  case l: True
  then have ph: "th_phase (thread_at b c) \<noteq> ThreadIdle" using assms by (simp add: broker_ok_def conn_ok_def)
  have core: "core_ok b'" if "broker_ok b'" for b' using that by (simp add: broker_ok_def)
  have first: "broker_ok (thread_first stack_conn c b)"
  proof -
    let ?b1 = "set_rcvtimeo c 10 b"
    have k1: "keeps b ?b1" using keeps_timeout core assms(1) by blast
    have b1: "broker_ok ?b1" "live ?b1 c" "th_phase (thread_at ?b1 c) \<noteq> ThreadIdle"
      using ok_keeps [OF assms(1) k1] keepsD(2) [OF k1] l ph by (simp_all add: set_rcvtimeo_def thread_at_def)
    obtain r b2 where r: "recv_packet c ?b1 = (r, b2)" by force
    note b2 = ok_recv(1,2) [OF b1 r]
    have l2: "live b2 c" using b2 b1 by simp
    have "broker_ok (set_phase c ThreadLoop (handle_connect stack_conn c pkt b2))" for pkt
      using keeps_connect [OF core [OF b2(1)] l2] by (intro ok_next [OF b2(1) l2]) auto
    then show ?thesis
      using ok_thread_end [OF b2(1) l2] r by (simp add: thread_first_def Let_def split: option.split)
  qed
  have loop: "broker_ok (thread_loop c b)"
    using ok_thread_end [OF assms(1) l] ok_next [OF assms(1) l keeps_refl] core [OF assms(1)]
    by (simp add: thread_loop_def)
  have recv: "broker_ok (thread_recv stack_pub c b)"
  proof -
    obtain r b2 where r: "recv_packet c b = (r, b2)" by force
    note b2 = ok_recv(1,2) [OF assms(1) l ph r]
    have l2: "live b2 c" using b2 l by simp
    obtain go b3 where g: "(case r of None \<Rightarrow> recv_failed c b2 | Some pkt \<Rightarrow> process_packet stack_pub c pkt b2) = (go, b3)"
      by force
    then have k: "keeps b2 b3"
      using keeps_recv_failed [OF core [OF b2(1)] l2] keeps_process [OF core [OF b2(1)] l2]
      by (auto split: option.splits) (metis snd_conv)+
    then have b3: "broker_ok b3" "live b3 c" using ok_keeps [OF b2(1)] keepsD(2) [OF k] l2 by auto
    then show ?thesis
      using r g ok_thread_end [OF b3] ok_next [OF b3 keeps_refl] core [OF b3(1)] by (simp add: thread_recv_def)
  qed
  show ?thesis
    using first loop recv assms(1) by (simp add: client_thread_step_def split: phase.split)
qed

lemma client_ok_zero: "client_ok c (zero_client\<lparr>cl_slot := c, cl_fd := fd, cl_state := st\<rparr>)"
  by (simp add: client_ok_def zero_client_def zero_publish_def cstr_ok_def zero_inflight_def inflight_ok_def
      zero_qos2_in_def keys_unique_def)

text \<open>A new connection, whose descriptor no live client has.\<close>

lemma ok_alloc:
  assumes "broker_ok b" and "0 \<le> fd" and "\<not> so_closed (bk_socks b fd)"
    and "\<forall>c. live b c \<longrightarrow> cl_fd (client_at b c) \<noteq> fd"
  shows "broker_ok (snd (client_alloc spawn_ok fd b))"
proof (cases "find_idx (\<lambda>cl. cl_state cl = CLIENT_STATE_FREE) (bk_clients b)")
  case None
  then show ?thesis using assms(1) by (simp add: client_alloc_def)
next
  case (Some c)
  then have c: "c < length (bk_clients b)" "\<not> live b c"
    by (simp_all add: find_idx_Some live_def client_at_def)
  have core: "core_ok b" and conn: "conn_ok b" using assms(1) by (simp_all add: broker_ok_def)
  define cl where "cl = (if spawn_ok then zero_client\<lparr>cl_slot := c, cl_fd := fd, cl_state := CLIENT_STATE_CONNECTED\<rparr>
    else zero_client\<lparr>cl_slot := c, cl_fd := -1, cl_state := CLIENT_STATE_FREE\<rparr>)"
  have cl: "client_ok c cl" using client_ok_zero by (simp add: cl_def)
  have clf: "cl_fd cl = (if spawn_ok then fd else -1)" by (simp add: cl_def)
  let ?b1 = "upd_client c (\<lambda>_. cl) b"
  have at1: "client_at ?b1 d = (if d = c then cl else client_at b d)" for d
    using c by (cases "d = c") simp_all
  have l1: "live ?b1 d = (if d = c then spawn_ok else live b d)" for d
    using c at1 by (auto simp: live_def cl_def)
  have core1: "core_ok ?b1"
  proof (rule core_transfer [OF core])
    show "\<forall>e \<in> set (bk_subs b). sub_in_use e \<longrightarrow> live ?b1 (sub_client e)"
      using core c(2) by (auto simp: core_ok_def l1)
    show "client_ok d (client_at ?b1 d)" if "d < length (bk_clients b)" for d
      using that core cl by (simp add: at1 core_ok_def)
  qed (simp_all add: same_tables_def advertised_def)
  let ?b2 = "if spawn_ok then upd_thread c (\<lambda>_. \<lparr>th_phase = ThreadFirst, th_errno = EOK\<rparr>) ?b1 else ?b1"
  have th: "th_phase (thread_at ?b2 d) = ThreadIdle \<longleftrightarrow> \<not> live ?b1 d" if "d < length (bk_clients b)" for d
  proof -
    have "length (bk_threads ?b1) = length (bk_clients b)" using conn by (simp add: conn_ok_def)
    moreover have "thread_at ?b1 d = thread_at b d" by (simp add: thread_at_def)
    ultimately show ?thesis
      using that conn c(2) by (auto simp: thread_at_upd l1 conn_ok_def)
  qed
  have fds: "if live ?b1 d then cl_fd (client_at ?b1 d) \<ge> 0 \<and> \<not> so_closed (bk_socks ?b1 (cl_fd (client_at ?b1 d)))
      else cl_fd (client_at ?b1 d) = -1" if "d < length (bk_clients b)" for d
    using that conn assms(2,3) by (auto simp: at1 l1 clf conn_ok_def)
  have dist: "d = e" if "live ?b1 d" "live ?b1 e" "cl_fd (client_at ?b1 d) = cl_fd (client_at ?b1 e)" for d e
    using that conn assms(4) by (auto simp: at1 l1 clf conn_ok_def split: if_splits)
  have "conn_ok ?b2"
    unfolding conn_ok_def
  proof (intro conjI allI impI)
    show "length (bk_threads ?b2) = length (bk_clients ?b2)" using conn by (simp add: conn_ok_def)
    fix d
    assume "d < length (bk_clients ?b2)"
    then have d: "d < length (bk_clients b)" by (simp split: if_splits)
    have l2: "live ?b2 d = live ?b1 d" by simp
    show "th_phase (thread_at ?b2 d) = ThreadIdle \<longleftrightarrow> \<not> live ?b2 d" using th [OF d] by simp
    show "if live ?b2 d then 0 \<le> cl_fd (client_at ?b2 d) \<and> \<not> so_closed (bk_socks ?b2 (cl_fd (client_at ?b2 d)))
      else cl_fd (client_at ?b2 d) = -1" using fds [OF d] by (simp split: if_splits)
  next
    fix d e
    assume "live ?b2 d" "live ?b2 e" "cl_fd (client_at ?b2 d) = cl_fd (client_at ?b2 e)"
    then show "d = e" using dist by (simp split: if_splits)
  qed
  moreover have "core_ok ?b2" using core1 by (simp add: core_thread)
  moreover have "snd (client_alloc spawn_ok fd b) = ?b2" using Some by (simp add: client_alloc_def cl_def)
  ultimately show ?thesis by (simp only: broker_ok_def)
qed

lemma ok_env:
  assumes "broker_ok b" and "keeps b b'"
  shows "broker_ok b'"
  using ok_keeps assms by blast

lemma ok_start:
  assumes "bk_sessions b = None" and "bk_retains b = None" and "bk_p2p b = []"
    and "length (bk_threads b) = length (bk_clients b)" and "\<forall>t \<in> set (bk_threads b). th_phase t = ThreadIdle"
  shows "broker_ok (topic_init (client_pool_init b))"
proof -
  let ?b = "topic_init (client_pool_init b)"
  have at: "client_at ?b c = zero_client\<lparr>cl_slot := c, cl_fd := -1, cl_state := CLIENT_STATE_FREE\<rparr>"
    if "c < length (bk_clients b)" for c
    using that by (simp add: client_at_def topic_init_def client_pool_init_def)
  have n: "length (bk_clients ?b) = length (bk_clients b)" by (simp add: topic_init_def client_pool_init_def)
  have l: "\<not> live ?b c" for c using at n by (auto simp: live_def)
  have "table_inv ?b" using assms by (intro topic_init_ok) (simp add: client_pool_init_def)
  moreover have "pool_ok ?b" "retained_ok ?b"
    using assms by (simp_all add: pool_ok_def retained_ok_def topic_init_def client_pool_init_def)
  moreover have "\<not> sub_in_use e" if "e \<in> set (bk_subs ?b)" for e
    using that by (auto simp: topic_init_def zero_sub_def)
  ultimately have "core_ok ?b" using at client_ok_zero n by (auto simp: core_ok_def)
  moreover have "conn_ok ?b"
    using assms(4,5) n l at by (simp add: conn_ok_def thread_at_def) (simp add: topic_init_def client_pool_init_def)
  ultimately show ?thesis by (simp add: broker_ok_def)
qed

subsection \<open>Reachable states\<close>

text \<open>
  One step of the running broker. The contents of the stack of a thread, the sizes of the
  kernel buffers, what the peers of a connection send, the clock and the success of an
  allocation are not determined by the program: each is arbitrary. \<open>accept\<close> takes a descriptor
  the operating system has just handed out, so no live client has it. A message from the peer
  network is assumed well formed.
\<close>

inductive broker_step :: "broker \<Rightarrow> broker \<Rightarrow> bool" where
  thread: "c < length (bk_clients b) \<Longrightarrow> broker_step b (client_thread_step stack_conn stack_pub c b)"
| accept: "0 \<le> fd \<Longrightarrow> \<not> so_closed s \<Longrightarrow> \<forall>c < length (bk_clients b). cl_state (client_at b c) \<noteq> CLIENT_STATE_FREE \<longrightarrow>
    cl_fd (client_at b c) \<noteq> fd \<Longrightarrow>
    broker_step b (snd (client_alloc spawn_ok fd (upd_sock fd (\<lambda>_. s) b)))"
| remote: "message_ok pub \<Longrightarrow> topic_publishable (pub_topic pub) \<Longrightarrow> broker_step b (topic_publish_remote pub b)"
| clock: "bk_now b \<le> t \<Longrightarrow> broker_step b (b\<lparr>bk_now := t\<rparr>)"
| network: "broker_step b (upd_sock fd (\<lambda>s. s\<lparr>so_rx := rx, so_tx := tx\<rparr>) b)"
| memory: "broker_step b (b\<lparr>bk_calloc_ok := ok\<rparr>)"

inductive broker_reachable :: "broker \<Rightarrow> bool" where
  start: "bk_sessions b = None \<Longrightarrow> bk_retains b = None \<Longrightarrow> bk_p2p b = [] \<Longrightarrow>
    length (bk_threads b) = length (bk_clients b) \<Longrightarrow> \<forall>t \<in> set (bk_threads b). th_phase t = ThreadIdle \<Longrightarrow>
    broker_reachable (topic_init (client_pool_init b))"
| step: "broker_reachable b \<Longrightarrow> broker_step b b' \<Longrightarrow> broker_reachable b'"

lemma ok_other_sock:
  assumes "broker_ok b" and "\<forall>c. live b c \<longrightarrow> cl_fd (client_at b c) \<noteq> fd"
  shows "broker_ok (upd_sock fd f b)"
proof -
  let ?b = "upd_sock fd f b"
  have core: "core_ok b" and conn: "conn_ok b" using assms(1) by (simp_all add: broker_ok_def)
  have l: "live ?b c = live b c" for c by (simp add: live_def)
  have "core_ok ?b"
  proof (rule core_transfer [OF core])
    show "\<forall>e \<in> set (bk_subs b). sub_in_use e \<longrightarrow> live ?b (sub_client e)"
      using core by (simp add: core_ok_def l)
    show "client_ok c (client_at ?b c)" if "c < length (bk_clients b)" for c
      using that core by (simp add: core_ok_def)
  qed (simp_all add: same_tables_def advertised_def)
  moreover have "so_closed (bk_socks ?b (cl_fd (client_at b c))) = so_closed (bk_socks b (cl_fd (client_at b c)))"
    if "live b c" for c using assms(2) that by (simp add: upd_sock_def)
  then have "conn_ok ?b"
    using conn by (simp add: conn_ok_def l thread_at_def)
  ultimately show ?thesis by (simp add: broker_ok_def)
qed

lemma broker_step_ok:
  assumes "broker_step b b'" and "broker_ok b"
  shows "broker_ok b'"
  using assms
proof (induction rule: broker_step.induct)
  case (thread c b stack_conn stack_pub)
  then show ?case using ok_thread_step by blast
next
  case (accept fd s b spawn_ok)
  then have fr: "\<forall>c. live b c \<longrightarrow> cl_fd (client_at b c) \<noteq> fd" by (simp add: live_def)
  let ?b = "upd_sock fd (\<lambda>_. s) b"
  have "broker_ok ?b" using ok_other_sock [OF accept(4) fr] .
  moreover have "\<not> so_closed (bk_socks ?b fd)" using accept(2) by (simp add: upd_sock_def)
  moreover have "\<forall>c. live ?b c \<longrightarrow> cl_fd (client_at ?b c) \<noteq> fd" using fr by (simp add: live_def)
  ultimately show ?case using accept(1) by (intro ok_alloc)
next
  case (remote pub b)
  have "core_ok b" using remote(3) by (simp add: broker_ok_def)
  from keeps_publish_internal [OF this remote(1,2), of False] show ?case
    using ok_env [OF remote(3)] by (simp add: topic_publish_remote_def)
next
  case (clock b t)
  then have "core_ok b" by (simp add: broker_ok_def)
  then show ?case
    by (intro ok_env [OF clock(2)] keeps_clients benign_same) (simp_all add: same_tables_def advertised_def)
next
  case (network b fd rx tx)
  then have "core_ok b" by (simp add: broker_ok_def)
  then show ?case
    by (intro ok_env [OF network(1)] keeps_clients benign_same) (simp_all add: same_tables_def advertised_def upd_sock_def)
next
  case (memory b ok)
  then have "core_ok b" by (simp add: broker_ok_def)
  then show ?case
    by (intro ok_env [OF memory(1)] keeps_clients benign_same) (simp_all add: same_tables_def advertised_def)
qed

lemma reachable_ok: "broker_reachable b \<Longrightarrow> broker_ok b"
  by (induction rule: broker_reachable.induct) (simp_all add: ok_start broker_step_ok)

end
