(* ===== verification/Client_Properties.thy ===== *)
theory Client_Properties
  imports Broker_Invariant
begin

text \<open>
  What a client and an operator can rely on: how packets are read from a connection, what the
  invariant of the reachable states says, what is left when a connection ends, that a QoS 2
  message is handed on once, and when a dead connection is noticed.
\<close>

subsection \<open>Reading a packet from chunks\<close>

text \<open>The bytes still to come, in the chunks in which the network delivers them, before \<open>rest\<close>.\<close>

definition incoming :: "byte list \<Rightarrow> rx_event list \<Rightarrow> sock \<Rightarrow> bool" where
  "incoming bs rest s \<longleftrightarrow> (\<exists>cs. so_rx s = map RxData cs @ rest \<and> [] \<notin> set cs \<and> concat cs = bs)"

lemma plat_recv_incoming:
  assumes "incoming bs rest s" and "bs \<noteq> []" and "0 < n"
  shows "\<exists>m s'. plat_recv n s = (Inr (take m bs), s') \<and> 0 < m \<and> m \<le> n \<and> m \<le> length bs \<and>
    incoming (drop m bs) rest s' \<and> s'\<lparr>so_rx := []\<rparr> = s\<lparr>so_rx := []\<rparr>"
proof -
  obtain cs where cs: "so_rx s = map RxData cs @ rest" "[] \<notin> set cs" "concat cs = bs"
    using assms(1) unfolding incoming_def by blast
  then obtain d ds where ds: "cs = d # ds" "d \<noteq> []" using assms(2) by (cases cs) auto
  let ?m = "min n (length d)"
  let ?s = "s\<lparr>so_rx := (if length d \<le> n then map RxData ds @ rest else RxData (drop n d) # map RxData ds @ rest)\<rparr>"
  have bs: "bs = d @ concat ds" using cs(3) ds by simp
  have "plat_recv n s = (Inr (take ?m bs), ?s)"
    using cs ds by (simp add: plat_recv_def bs min_def)
  moreover have "incoming (drop ?m bs) rest ?s"
  proof (cases "length d \<le> n")
    case True
    then show ?thesis using cs ds unfolding incoming_def bs by (intro exI [of _ ds]) auto
  next
    case False
    then show ?thesis using cs ds unfolding incoming_def bs by (intro exI [of _ "drop n d # ds"]) auto
  qed
  moreover have "0 < ?m" "?m \<le> n" "?m \<le> length bs" using assms(3) ds by (simp_all add: bs)
  moreover have "?s\<lparr>so_rx := []\<rparr> = s\<lparr>so_rx := []\<rparr>" by simp
  ultimately show ?thesis by blast
qed

lemma recv_exact_incoming:
  "incoming bs rest s \<Longrightarrow> n \<le> length bs \<Longrightarrow>
    \<exists>s'. recv_exact n s = (Inr (take n bs), s') \<and> incoming (drop n bs) rest s' \<and> s'\<lparr>so_rx := []\<rparr> = s\<lparr>so_rx := []\<rparr>"
proof (induction n arbitrary: bs s rule: less_induct)
  case (less n)
  show ?case
  proof (cases "n = 0")
    case True
    then show ?thesis using less.prems by (simp add: recv_exact.simps [of 0])
  next
    case False
    then have "bs \<noteq> []" using less.prems(2) by auto
    from plat_recv_incoming [OF less.prems(1) this, of n] False
    obtain m s1 where r: "plat_recv n s = (Inr (take m bs), s1)" "0 < m" "m \<le> n" "m \<le> length bs"
      "incoming (drop m bs) rest s1" "s1\<lparr>so_rx := []\<rparr> = s\<lparr>so_rx := []\<rparr>" by auto
    have "n - m < n" "n - m \<le> length (drop m bs)" using r(2,3) less.prems(2) False by auto
    from less.IH [OF this(1) r(5) this(2)] obtain s2 where
      s2: "recv_exact (n - m) s1 = (Inr (take (n - m) (drop m bs)), s2)" "incoming (drop (n - m) (drop m bs)) rest s2"
        "s2\<lparr>so_rx := []\<rparr> = s1\<lparr>so_rx := []\<rparr>" by blast
    have "take m bs @ take (n - m) (drop m bs) = take n bs"
      using r(3) by (metis le_add_diff_inverse take_add)
    moreover have "drop (n - m) (drop m bs) = drop n bs" "length bs = m \<Longrightarrow> drop n bs = []"
      using r(3) less.prems(2) by simp_all
    moreover have "length (take m bs) = m" using r(4) by simp
    ultimately show ?thesis
      using False r(1,6) s2 by (auto simp add: recv_exact.simps [of n] simp del: length_take)
  qed
qed

text \<open>The encodings of the lengths the broker accepts.\<close>

lemma small_div_mod:
  assumes "n < 4294967296"
  shows "(of_nat n :: u32) div 128 = of_nat (n div 128)" and "(of_nat n :: u32) mod 128 = of_nat (n mod 128)"
  using assms by (simp_all add: word_unat_eq_iff unat_div unat_mod unat_of_nat)

lemma ucast_small: "n < 256 \<Longrightarrow> (ucast (of_nat n :: u32) :: byte) = of_nat n"
  by (simp add: word_unat_eq_iff unat_ucast_u32_byte unat_of_nat)

lemma encode_accepted:
  assumes "packet_encode_remaining_len (of_nat n) = Some enc" and "n \<le> MQTT_MAX_PACKET_SIZE"
  shows "n < 128 \<and> enc = [of_nat n] \<or> 128 \<le> n \<and> enc = [of_nat (n mod 128) OR 128, of_nat (n div 128)]"
proof -
  have z: "n div 128 div 128 = 0" "n div 128 < 256" using assms(2) by simp_all
  have gt: "0 < (of_nat k :: u32) \<longleftrightarrow> 0 < k" if "k < 4294967296" for k
    using that by (simp add: word_gt_0 word_unat_eq_iff unat_of_nat)
  have n: "n < 4294967296" "n div 128 < 4294967296" using assms(2) by simp_all
  have pos: "0 < n div 128 \<longleftrightarrow> 128 \<le> n" by (simp add: div_greater_zero_iff)
  have "encode_loop 0 (of_nat n) [] = (if n < 128 then ([of_nat n], 0) else ([of_nat (n mod 128) OR 128, of_nat (n div 128)], 0))"
  proof (cases "n < 128")
    case True
    then show ?thesis
      using n by (subst encode_loop.simps) (simp add: Let_def small_div_mod ucast_small gt pos)
  next
    case False
    have "encode_loop 0 (of_nat n) [] = encode_loop 1 (of_nat (n div 128)) [of_nat (n mod 128) OR 128]"
      using n False by (subst encode_loop.simps) (simp add: Let_def small_div_mod ucast_small gt pos)
    also have "\<dots> = ([of_nat (n mod 128) OR 128, of_nat (n div 128)], 0)"
      using n z by (subst encode_loop.simps) (simp add: Let_def small_div_mod ucast_small gt)
    finally show ?thesis using False by simp
  qed
  then show ?thesis using assms(1) by (auto simp: packet_encode_remaining_len_def split: if_splits)
qed

text \<open>What the reader makes of these encodings.\<close>

lemma short_byte:
  assumes "n < 128"
  shows "(of_nat n :: byte) AND 128 = 0" and "(of_nat n :: byte) AND 127 = of_nat n"
    and "((of_nat n :: byte) OR 128) AND 128 \<noteq> 0" and "((of_nat n :: byte) OR 128) AND 127 = of_nat n"
proof -
  have u: "unat (of_nat n :: byte) = n" using assms by (simp add: unat_of_nat)
  show "(of_nat n :: byte) AND 128 = 0" using assms u by (simp add: and_128_eq_0)
  show "(of_nat n :: byte) AND 127 = of_nat n"
    "((of_nat n :: byte) OR 128) AND 128 \<noteq> 0" "((of_nat n :: byte) OR 128) AND 127 = of_nat n"
    using assms u by (simp_all add: word_unat_eq_iff unat_and_127 unat_or_128 and_128_eq_0)
qed

lemma ucast_short: "n < 256 \<Longrightarrow> (ucast (of_nat n :: byte) :: u32) = of_nat n"
  by (simp add: word_unat_eq_iff unat_ucast_byte_u32 unat_of_nat)

text \<open>A packet that is sent whole is read whole, however the network cuts it up.\<close>

lemma sock_recv_incoming:
  assumes "incoming (t # enc @ body @ tail) rest s" and "packet_encode_remaining_len (of_nat (length body)) = Some enc"
    and "length body \<le> MQTT_MAX_PACKET_SIZE"
  shows "\<exists>s'. sock_recv_packet s = (Inr \<lparr>pkt_type_flags = t, pkt_remaining_len = of_nat (length body), pkt_buf = body\<rparr>, s')
    \<and> incoming tail rest s' \<and> s'\<lparr>so_rx := []\<rparr> = s\<lparr>so_rx := []\<rparr>"
proof -
  let ?n = "length body"
  have u: "unat (of_nat ?n :: u32) = ?n" using assms(3) by (simp add: unat_of_nat)
  consider (one) "?n < 128" "enc = [of_nat ?n]"
    | (two) "128 \<le> ?n" "enc = [of_nat (?n mod 128) OR 128, of_nat (?n div 128)]"
    using encode_accepted [OF assms(2,3)] by blast
  then obtain hdr s1 s2 where hdr: "recv_exact 2 s = (Inr [t, hdr], s1)" "s1\<lparr>so_rx := []\<rparr> = s\<lparr>so_rx := []\<rparr>"
      "recv_rlen 1 hdr (ucast (hdr AND 0x7F)) s1 = (Inr (of_nat ?n), s2)"
      "incoming (body @ tail) rest s2" "s2\<lparr>so_rx := []\<rparr> = s1\<lparr>so_rx := []\<rparr>"
  proof cases
    case one
    with recv_exact_incoming [OF assms(1), of 2] obtain s' where
      "recv_exact 2 s = (Inr [t, of_nat ?n], s')" "incoming (body @ tail) rest s'" "s'\<lparr>so_rx := []\<rparr> = s\<lparr>so_rx := []\<rparr>"
      by auto
    moreover have "recv_rlen 1 (of_nat ?n) (ucast (of_nat ?n AND (0x7F :: byte))) s' = (Inr (of_nat ?n), s')"
      using one by (simp add: recv_rlen.simps short_byte ucast_short)
    ultimately show ?thesis using that by blast
  next
    case two
    let ?lo = "of_nat (?n mod 128) :: byte" and ?hi = "of_nat (?n div 128) :: byte"
    have lt: "?n mod 128 < 128" "?n div 128 < 128" using assms(3) by simp_all
    from recv_exact_incoming [OF assms(1), of 2] two(2) obtain s' where
      s': "recv_exact 2 s = (Inr [t, ?lo OR 128], s')" "incoming (?hi # body @ tail) rest s'" "s'\<lparr>so_rx := []\<rparr> = s\<lparr>so_rx := []\<rparr>"
      by auto
    from recv_exact_incoming [OF s'(2), of 1] obtain s'' where
      s'': "recv_exact 1 s' = (Inr [?hi], s'')" "incoming (body @ tail) rest s''" "s''\<lparr>so_rx := []\<rparr> = s'\<lparr>so_rx := []\<rparr>"
      by auto
    have "of_nat (?n mod 128) + of_nat (?n div 128) * 128 = (of_nat ?n :: u32)"
    proof -
      have "(of_nat ?n :: u32) = of_nat (?n mod 128 + ?n div 128 * 128)" by (simp only: mod_mult_div_eq mod_div_mult_eq)
      then show ?thesis by (simp only: of_nat_add of_nat_mult) simp
    qed
    then have "recv_rlen 1 (?lo OR 128) (ucast ((?lo OR 128) AND (0x7F :: byte))) s' = (Inr (of_nat ?n), s'')"
      using lt s''(1) by (subst recv_rlen.simps, subst recv_rlen.simps) (simp add: short_byte ucast_short)
    then show ?thesis using that s' s'' by blast
  qed
  from recv_exact_incoming [OF hdr(4), of ?n] obtain s3 where
    "recv_exact ?n s2 = (Inr body, s3)" "incoming tail rest s3" "s3\<lparr>so_rx := []\<rparr> = s2\<lparr>so_rx := []\<rparr>"
    by auto
  then show ?thesis using hdr assms(3) by (simp add: sock_recv_packet_def u)
qed

fun recv_packets :: "nat \<Rightarrow> sock \<Rightarrow> (errno option + mqtt_packet list) \<times> sock" where
  "recv_packets 0 s = (Inr [], s)"
| "recv_packets (Suc n) s =
     (case sock_recv_packet s of
        (Inl e, s) \<Rightarrow> (Inl e, s)
      | (Inr p, s) \<Rightarrow> (case recv_packets n s of (Inl e, s) \<Rightarrow> (Inl e, s) | (Inr ps, s) \<Rightarrow> (Inr (p # ps), s)))"

text \<open>A packet as a peer sends it: the type byte, the encoded length, the body.\<close>

definition frame :: "byte \<times> byte list \<Rightarrow> byte list" where
  "frame p = fst p # the (packet_encode_remaining_len (of_nat (length (snd p)))) @ snd p"

definition received :: "byte \<times> byte list \<Rightarrow> mqtt_packet" where
  "received p = \<lparr>pkt_type_flags = fst p, pkt_remaining_len = of_nat (length (snd p)), pkt_buf = snd p\<rparr>"

lemma frame_short: "length body < 128 \<Longrightarrow> frame (t, body) = t # of_nat (length body) # body"
  using encode_Some_iff [of "of_nat (length body)"] encode_accepted [of "length body"]
  by (fastforce simp: frame_def unat_of_nat)

lemma recv_packets_incoming:
  "incoming (concat (map frame ps)) rest s \<Longrightarrow> \<forall>p \<in> set ps. length (snd p) \<le> MQTT_MAX_PACKET_SIZE \<Longrightarrow>
    \<exists>s'. recv_packets (length ps) s = (Inr (map received ps), s') \<and> incoming [] rest s'"
proof (induction ps arbitrary: s)
  case (Cons p ps)
  have le: "length (snd p) \<le> 704" using Cons.prems(2) by simp
  then obtain enc where enc: "packet_encode_remaining_len (of_nat (length (snd p))) = Some enc"
    using encode_Some_iff [of "of_nat (length (snd p))"] by (auto simp: unat_of_nat)
  have "incoming (fst p # enc @ snd p @ concat (map frame ps)) rest s"
    using Cons.prems(1) enc by (simp add: frame_def [of p])
  from sock_recv_incoming [OF this enc le] obtain s1 where
    s1: "sock_recv_packet s = (Inr (received p), s1)" "incoming (concat (map frame ps)) rest s1"
    by (auto simp: received_def)
  then show ?case using Cons.IH [OF s1(2)] Cons.prems(2) by auto
qed auto

subsection \<open>The end of a connection\<close>

lemma thread_ends:
  assumes "broker_ok b" and "live b c"
  defines "b' \<equiv> thread_end c b"
  shows "th_phase (thread_at b' c) = ThreadIdle" and "cl_state (client_at b' c) = CLIENT_STATE_FREE"
    and "so_closed (bk_socks b' (cl_fd (client_at b c)))"
    and "\<forall>e \<in> set (bk_subs b'). sub_in_use e \<longrightarrow> sub_client e \<noteq> c"
    and "cl_clean_session (client_at b c) \<Longrightarrow> session_find (cl_client_id (client_at b c)) b' = None"
proof -
  have ok: "broker_ok b'" using ok_thread_end [OF assms(1,2)] by (simp add: b'_def)
  have c: "c < length (bk_threads (client_free c b))"
    using assms(1,2) client_free_spec(4) [OF assms(1,2)] by (simp add: broker_ok_def conn_ok_def live_def)
  show st: "cl_state (client_at b' c) = CLIENT_STATE_FREE"
    using client_free_spec(2) [OF assms(1,2)] by (simp add: b'_def thread_end_def set_phase_def)
  show "th_phase (thread_at b' c) = ThreadIdle"
    using c by (simp add: b'_def thread_end_def set_phase_def thread_at_upd)
  show "so_closed (bk_socks b' (cl_fd (client_at b c)))"
    using client_free_spec(10) [OF assms(1,2)] by (simp add: b'_def thread_end_def set_phase_def)
  show "\<forall>e \<in> set (bk_subs b'). sub_in_use e \<longrightarrow> sub_client e \<noteq> c"
    using ok st by (auto simp: broker_ok_def core_ok_def live_def)
  show "session_find (cl_client_id (client_at b c)) b' = None" if "cl_clean_session (client_at b c)"
    using client_free_spec(11) [OF assms(1,2) that]
    by (simp add: b'_def thread_end_def set_phase_def session_find_def upd_thread_def)
qed

text \<open>Nothing is left of client \<open>c\<close>, which was \<open>cl\<close>.\<close>

definition gone :: "nat \<Rightarrow> client \<Rightarrow> broker \<Rightarrow> bool" where
  "gone c cl b \<longleftrightarrow> th_phase (thread_at b c) = ThreadIdle \<and> cl_state (client_at b c) = CLIENT_STATE_FREE \<and>
     so_closed (bk_socks b (cl_fd cl)) \<and> (\<forall>e \<in> set (bk_subs b). sub_in_use e \<longrightarrow> sub_client e \<noteq> c) \<and>
     (cl_clean_session cl \<longrightarrow> session_find (cl_client_id cl) b = None)"

text \<open>Whether the next step of the thread of \<open>c\<close> is its last.\<close>

definition connection_over :: "nat \<Rightarrow> broker \<Rightarrow> bool" where
  "connection_over c b \<longleftrightarrow>
     (let cl = client_at b c; s = bk_socks b (cl_fd cl); read = fst (sock_recv_packet s);
          idle_ms = bk_now b - cl_last_seen_ms cl
      in case th_phase (thread_at b c) of
           ThreadIdle \<Rightarrow> False
         | ThreadFirst \<Rightarrow> (case fst (sock_recv_packet (s\<lparr>so_timeout := 10\<rparr>)) of Inl _ \<Rightarrow> True | Inr pkt \<Rightarrow> pkt_type_flags pkt \<noteq> MQTT_CONNECT)
         | ThreadLoop \<Rightarrow> cl_state cl \<noteq> CLIENT_STATE_CONNECTED
         | ThreadRecv \<Rightarrow>
             (case read of
                Inl e \<Rightarrow>
                  (let errno = (case e of None \<Rightarrow> th_errno (thread_at b c) | Some e \<Rightarrow> e) in
                   errno \<noteq> EAGAIN \<and> errno \<noteq> ETIMEDOUT \<or>
                   0 < cl_keepalive cl \<and> int (unat (cl_keepalive cl)) * 1500 < idle_ms)
              | Inr pkt \<Rightarrow> packet_refused pkt \<or> cl_state cl \<noteq> CLIENT_STATE_CONNECTED))"

lemma thread_end_gone:
  assumes "broker_ok b" and "live b c" and "cl_fd (client_at b c) = cl_fd cl"
    and "cl_clean_session (client_at b c) = cl_clean_session cl" and "cl_client_id (client_at b c) = cl_client_id cl"
  shows "gone c cl (thread_end c b)"
  using thread_ends [OF assms(1,2)] assms(3-) by (simp add: gone_def)

lemma phase_set:
  assumes "broker_ok b" and "live b c" and "keeps b b'"
  shows "th_phase (thread_at (set_phase c ph b') c) = ph"
proof -
  have "bk_threads b' = bk_threads b" using assms(3) by (simp add: keeps_def benign_def)
  then have "c < length (bk_threads b')" using assms(1,2) by (simp add: broker_ok_def conn_ok_def live_def)
  then show ?thesis by (simp add: set_phase_def thread_at_upd)
qed

text \<open>What a read changes: the socket, and the \<open>errno\<close> of the thread.\<close>

lemma recv_packet_client: "recv_packet c b = (r, b') \<Longrightarrow> client_at b' d = client_at b d \<and> bk_now b' = bk_now b"
  by (auto simp: recv_packet_def Let_def split: prod.splits sum.splits option.splits)

lemma recv_packet_result:
  assumes "recv_packet c b = (r, b')" and "c < length (bk_threads b)"
  shows "case fst (sock_recv_packet (bk_socks b (cl_fd (client_at b c)))) of
      Inl e \<Rightarrow> r = None \<and> th_errno (thread_at b' c) = (case e of None \<Rightarrow> th_errno (thread_at b c) | Some e \<Rightarrow> e)
    | Inr pkt \<Rightarrow> r = Some pkt"
  using assms
  by (auto simp: recv_packet_def Let_def thread_at_upd split: prod.splits sum.splits option.splits)
    (simp_all add: thread_at_def)

lemma first_step:
  assumes "broker_ok b" and "live b c" and "th_phase (thread_at b c) = ThreadFirst"
  shows "if connection_over c b then gone c (client_at b c) (thread_first stack_conn c b)
    else th_phase (thread_at (thread_first stack_conn c b) c) = ThreadLoop"
proof -
  let ?b1 = "set_rcvtimeo c 10 b"
  have core: "core_ok b'" if "broker_ok b'" for b' using that by (simp add: broker_ok_def)
  have k1: "keeps b ?b1" using keeps_timeout core assms(1) by blast
  have th: "thread_at ?b1 c = thread_at b c" by (simp add: set_rcvtimeo_def thread_at_def)
  have cl: "client_at ?b1 c = client_at b c" by (simp add: set_rcvtimeo_def)
  have b1: "broker_ok ?b1" "live ?b1 c" "th_phase (thread_at ?b1 c) \<noteq> ThreadIdle"
    using ok_keeps [OF assms(1) k1] keepsD(2) [OF k1] assms(2,3) by (simp_all add: th)
  obtain r b2 where r: "recv_packet c ?b1 = (r, b2)" by force
  note b2 = ok_recv(1,2) [OF b1 r]
  have l2: "live b2 c" using b2 b1 by simp
  have cl2: "client_at b2 c = client_at b c" using recv_packet_client [OF r] cl by simp
  have n1: "c < length (bk_threads ?b1)" using b1(1,2) by (simp add: broker_ok_def conn_ok_def live_def)
  have fd: "bk_socks ?b1 (cl_fd (client_at ?b1 c)) = (bk_socks b (cl_fd (client_at b c)))\<lparr>so_timeout := 10\<rparr>"
    by (simp add: cl) (simp add: set_rcvtimeo_def upd_sock_def)
  have c: "connection_over c b \<longleftrightarrow> (case r of None \<Rightarrow> True | Some pkt \<Rightarrow> pkt_type_flags pkt \<noteq> MQTT_CONNECT)"
    using recv_packet_result [OF r n1, unfolded fd] assms(3)
    by (auto simp: connection_over_def Let_def split: sum.splits)
  show ?thesis
  proof (cases "connection_over c b")
    case True
    then have "thread_first stack_conn c b = thread_end c b2"
      using c r by (auto simp: thread_first_def split: option.splits)
    then show ?thesis using True thread_end_gone [OF b2(1) l2] cl2 by simp
  next
    case False
    then obtain pkt where "thread_first stack_conn c b = set_phase c ThreadLoop (handle_connect stack_conn c pkt b2)"
      using c r by (auto simp: thread_first_def split: option.splits)
    then show ?thesis using False phase_set [OF b2(1) l2 keeps_connect [OF core [OF b2(1)] l2]] by simp
  qed
qed

lemma loop_step:
  assumes "broker_ok b" and "live b c" and "th_phase (thread_at b c) = ThreadLoop"
  shows "if connection_over c b then gone c (client_at b c) (thread_loop c b)
    else th_phase (thread_at (thread_loop c b) c) = ThreadRecv"
proof -
  have "core_ok b" using assms(1) by (simp add: broker_ok_def)
  then have "th_phase (thread_at (set_phase c ThreadRecv b) c) = ThreadRecv"
    using phase_set [OF assms(1,2) keeps_refl] by blast
  then show ?thesis
    using thread_end_gone [OF assms(1,2) refl refl refl] assms(3)
    by (simp add: connection_over_def thread_loop_def Let_def)
qed

lemma recv_step:
  assumes "broker_ok b" and "live b c" and "th_phase (thread_at b c) = ThreadRecv"
  shows "if connection_over c b then gone c (client_at b c) (thread_recv stack_pub c b)
    else th_phase (thread_at (thread_recv stack_pub c b) c) = ThreadLoop"
proof -
  obtain r b2 where r: "recv_packet c b = (r, b2)" by force
  have ph: "th_phase (thread_at b c) \<noteq> ThreadIdle" using assms(3) by simp
  note b2 = ok_recv(1,2) [OF assms(1,2) ph r]
  have l2: "live b2 c" using b2 assms(2) by simp
  have core: "core_ok b2" using b2(1) by (simp add: broker_ok_def)
  have c: "c < length (bk_threads b)" using assms(1,2) by (simp add: broker_ok_def conn_ok_def live_def)
  note res = recv_packet_result [OF r c] and cl2 = recv_packet_client [OF r, of c]
  obtain go b3 where g: "(case r of None \<Rightarrow> recv_failed c b2 | Some pkt \<Rightarrow> process_packet stack_pub c pkt b2) = (go, b3)"
    by force
  have k: "keeps b2 b3"
    using g keeps_recv_failed [OF core l2] keeps_process [OF core l2]
    by (auto split: option.splits) (metis snd_conv)+
  then have b3: "broker_ok b3" "live b3 c" using ok_keeps [OF b2(1)] keepsD(2) [OF k] l2 by auto
  have n: "c < length (bk_clients b2)" using l2 by (simp add: live_def)
  have go: "go \<longleftrightarrow> \<not> connection_over c b"
    using res g cl2 assms(3) n
    by (auto simp: connection_over_def recv_failed_def process_packet_def Let_def split: sum.splits if_splits)
  have "cl_clean_session (client_at b3 c) = cl_clean_session (client_at b c) \<and>
      cl_client_id (client_at b3 c) = cl_client_id (client_at b c) \<and> cl_fd (client_at b3 c) = cl_fd (client_at b c)" if "\<not> go"
    using that g cl2 n
    by (auto simp: recv_failed_def process_packet_def close_client_def set_state_def Let_def split: option.splits if_splits)
  then have "\<not> go \<Longrightarrow> gone c (client_at b c) (thread_end c b3)"
    using thread_end_gone [OF b3] by simp
  then show ?thesis
    using r g go phase_set [OF b2(1) l2 k] by (simp add: thread_recv_def)
qed

lemma client_step:
  assumes "broker_ok b" and "live b c"
  shows "if connection_over c b then gone c (client_at b c) (client_thread_step stack_conn stack_pub c b)
    else th_phase (thread_at (client_thread_step stack_conn stack_pub c b) c) \<noteq> ThreadIdle"
proof -
  have "th_phase (thread_at b c) \<noteq> ThreadIdle"
    using assms by (auto simp: broker_ok_def conn_ok_def live_def)
  then show ?thesis
    using first_step [OF assms, of stack_conn] loop_step [OF assms] recv_step [OF assms, of stack_pub]
    by (cases "th_phase (thread_at b c)") (simp_all add: client_thread_step_def split: if_splits)
qed

subsection \<open>A connection that is never noticed to be dead\<close>

text \<open>The state of a thread that has seen a timeout and whose peer has closed the connection since.\<close>

definition stuck :: "nat \<Rightarrow> broker \<Rightarrow> bool" where
  "stuck c b \<longleftrightarrow> c < length (bk_clients b) \<and> c < length (bk_threads b) \<and>
     cl_state (client_at b c) = CLIENT_STATE_CONNECTED \<and> cl_keepalive (client_at b c) = 0 \<and>
     (\<forall>e \<in> set (cl_inflight (client_at b c)). \<not> if_in_use e) \<and> length (cl_inflight (client_at b c)) = CLIENT_INFLIGHT_MAX \<and>
     (th_phase (thread_at b c) = ThreadLoop \<or> th_phase (thread_at b c) = ThreadRecv) \<and>
     th_errno (thread_at b c) = EAGAIN \<and> (\<exists>rest. so_rx (bk_socks b (cl_fd (client_at b c))) = RxClosed # rest)"

lemma retry_nothing:
  assumes "\<forall>e \<in> set (cl_inflight (client_at b c)). \<not> if_in_use e" and "length (cl_inflight (client_at b c)) = CLIENT_INFLIGHT_MAX"
  shows "client_inflight_retry c b = b"
proof -
  have "fold (inflight_retry_slot c) is b = b" if "\<forall>i \<in> set is. i < CLIENT_INFLIGHT_MAX" for "is"
    using that assms by (induction "is") (auto simp: inflight_retry_slot_def Let_def)
  then show ?thesis using assms(2) by (simp add: client_inflight_retry_def)
qed

lemma recv_closed: "so_rx s = RxClosed # rest \<Longrightarrow> sock_recv_packet s = (Inl None, s)"
  by (simp add: sock_recv_packet_def recv_exact.simps plat_recv_def)

lemma recv_timeout: "so_rx s = RxError e # rest \<Longrightarrow> sock_recv_packet s = (Inl (Some e), s\<lparr>so_rx := rest\<rparr>)"
  by (simp add: sock_recv_packet_def recv_exact.simps plat_recv_def)

lemma stuck_step:
  assumes "stuck c b"
  shows "stuck c (client_thread_step stack_conn stack_pub c b)"
proof (cases "th_phase (thread_at b c) = ThreadLoop")
  case True
  then show ?thesis
    using assms by (simp add: stuck_def client_thread_step_def thread_loop_def set_phase_def thread_at_upd)
next
  case False
  obtain rest where rx: "so_rx (bk_socks b (cl_fd (client_at b c))) = RxClosed # rest"
    using assms by (auto simp: stuck_def)
  have "upd_sock (cl_fd (client_at b c)) (\<lambda>_. bk_socks b (cl_fd (client_at b c))) b = b"
    by (simp add: upd_sock_def)
  then have "recv_packet c b = (None, b)" by (simp add: recv_packet_def Let_def recv_closed [OF rx])
  then have "client_thread_step stack_conn stack_pub c b = set_phase c ThreadLoop b"
    using False assms
    by (auto simp: stuck_def client_thread_step_def thread_recv_def recv_failed_def retry_nothing)
  then show ?thesis using assms by (simp add: stuck_def set_phase_def thread_at_upd)
qed

lemma timeout_stuck:
  assumes "c < length (bk_clients b)" and "c < length (bk_threads b)" and "th_phase (thread_at b c) = ThreadRecv"
    and "cl_state (client_at b c) = CLIENT_STATE_CONNECTED" and "cl_keepalive (client_at b c) = 0"
    and "\<forall>e \<in> set (cl_inflight (client_at b c)). \<not> if_in_use e" and "length (cl_inflight (client_at b c)) = CLIENT_INFLIGHT_MAX"
    and "so_rx (bk_socks b (cl_fd (client_at b c))) = RxError EAGAIN # RxClosed # rest"
  shows "stuck c (client_thread_step stack_conn stack_pub c b)"
proof -
  let ?fd = "cl_fd (client_at b c)"
  define b1 where "b1 = upd_thread c (\<lambda>t. t\<lparr>th_errno := EAGAIN\<rparr>)
    (upd_sock ?fd (\<lambda>_. (bk_socks b ?fd)\<lparr>so_rx := RxClosed # rest\<rparr>) b)"
  have r: "recv_packet c b = (None, b1)"
    by (simp add: recv_packet_def Let_def recv_timeout [OF assms(8)] b1_def)
  have cl: "client_at b1 c = client_at b c" by (simp add: b1_def)
  have th: "thread_at b1 c = (thread_at b c)\<lparr>th_errno := EAGAIN\<rparr>"
    using assms(2) by (simp add: b1_def thread_at_upd) (simp add: thread_at_def upd_sock_def)
  have n: "length (bk_clients b1) = length (bk_clients b)" "length (bk_threads b1) = length (bk_threads b)"
    by (simp_all add: b1_def upd_sock_def)
  have rx: "so_rx (bk_socks b1 ?fd) = RxClosed # rest" by (simp add: b1_def upd_sock_def)
  have "client_thread_step stack_conn stack_pub c b = set_phase c ThreadLoop b1"
    using assms(3-7) by (simp add: client_thread_step_def thread_recv_def r recv_failed_def th cl retry_nothing)
  then show ?thesis
    using assms by (simp add: stuck_def set_phase_def thread_at_upd n cl th rx)
qed

subsection \<open>QoS 2\<close>

text \<open>A packet that is a valid QoS 2 PUBLISH with this packet id.\<close>

definition qos2_packet :: "mqtt_publish \<Rightarrow> mqtt_packet \<Rightarrow> u16 \<Rightarrow> bool" where
  "qos2_packet stack_pub pkt pid \<longleftrightarrow>
     (case packet_parse_publish pkt stack_pub of
        None \<Rightarrow> False
      | Some p \<Rightarrow> pub_qos p = 2 \<and> pub_packet_id p = pid \<and> pid \<noteq> 0 \<and> pub_topic p \<noteq> [] \<and> \<not> has_wildcard (pub_topic p))"

definition qos2_pending :: "nat \<Rightarrow> u16 \<Rightarrow> broker \<Rightarrow> bool" where
  "qos2_pending c pid b \<longleftrightarrow> slot_of q2_in_use q2_packet_id pid (cl_qos2_in (client_at b c)) \<noteq> None"

definition qos2_room :: "nat \<Rightarrow> broker \<Rightarrow> bool" where
  "qos2_room c b \<longleftrightarrow> free_slot q2_in_use (cl_qos2_in (client_at b c)) \<noteq> None"

lemma handle_qos2:
  assumes "qos2_packet stack_pub pkt pid"
  shows "handle_publish stack_pub c pkt b = handle_publish_qos2 c (the (packet_parse_publish pkt stack_pub)) b"
  using assms by (auto simp: qos2_packet_def handle_publish_def split: option.splits)

lemma reply_pending [simp]: "qos2_pending c pid (send_reply d m b) = qos2_pending c pid b"
  by (simp add: qos2_pending_def send_reply_def split: option.split)

lemma handle_pending:
  assumes "qos2_packet stack_pub pkt pid" and "qos2_pending c pid b"
  shows "handle_publish stack_pub c pkt b = send_reply c (packet_build_pubrec pid 4) b"
proof -
  have "pub_packet_id (the (packet_parse_publish pkt stack_pub)) = pid"
    using assms(1) by (auto simp: qos2_packet_def split: option.splits)
  then show ?thesis
    using assms(2) by (simp add: handle_qos2 [OF assms(1)] handle_publish_qos2_def Let_def qos2_pending_def)
qed

lemma publish_pending [simp]: "qos2_pending c pid (topic_publish p b) = qos2_pending c pid b"
  by (simp add: qos2_pending_def topic_publish_def)

lemma handle_retransmissions:
  "qos2_pending c pid b \<Longrightarrow> \<forall>(sp, pkt) \<in> set pkts. qos2_packet sp pkt pid \<Longrightarrow>
    fold (\<lambda>(sp, pkt). handle_publish sp c pkt) pkts b =
    (send_reply c (packet_build_pubrec pid 4) ^^ length pkts) b"
proof (induction pkts arbitrary: b)
  case (Cons q pkts)
  obtain sp pkt where q: "q = (sp, pkt)" by (cases q)
  then have "handle_publish sp c pkt b = send_reply c (packet_build_pubrec pid 4) b"
    using Cons.prems by (intro handle_pending) auto
  then show ?case
    using Cons.IH [of "send_reply c (packet_build_pubrec pid 4) b"] Cons.prems q by (simp add: funpow_swap1)
qed simp

lemma pubrel_frees:
  assumes "c < length (bk_clients b)" and "keys_unique q2_in_use q2_packet_id (cl_qos2_in (client_at b c))"
  shows "\<not> qos2_pending c pid (handle_pubrel c pid b)"
proof (cases "slot_of q2_in_use q2_packet_id pid (cl_qos2_in (client_at b c))")
  case None
  then show ?thesis by (simp add: handle_pubrel_def) (simp add: qos2_pending_def)
next
  case (Some i)
  then show ?thesis
    using assms(1) q2s.slot_of_release [OF assms(2) Some]
    by (simp add: handle_pubrel_def) (simp add: qos2_pending_def)
qed

subsection \<open>Properties\<close>

text \<open>
  Packets sent one after the other are read back one by one, in order, with their type byte
  and body, whatever the chunks in which the network delivers the bytes; the read leaves what
  follows them. The hypothesis on the length is the limit the reader enforces.
\<close>

theorem packets_read_back:
  assumes "so_rx s = map RxData chunks @ rest" and "[] \<notin> set chunks" and "concat chunks = concat (map frame ps)"
    and "\<forall>p \<in> set ps. length (snd p) \<le> MQTT_MAX_PACKET_SIZE"
  shows "\<exists>s'. recv_packets (length ps) s = (Inr (map received ps), s') \<and> so_rx s' = rest"
proof -
  have "incoming (concat (map frame ps)) rest s" using assms(1-3) by (auto simp: incoming_def)
  from recv_packets_incoming [OF this assms(4)] obtain s' where
    s': "recv_packets (length ps) s = (Inr (map received ps), s')" "incoming [] rest s'" by blast
  then obtain cs where "so_rx s' = map RxData cs @ rest" "[] \<notin> set cs" "concat cs = []" by (auto simp: incoming_def)
  moreover have "cs = []" using calculation(2,3) by (cases cs) auto
  ultimately show ?thesis using s'(1) by simp
qed

text \<open>
  In every reachable state of the broker the subscription table and its indexes are well formed
  and the peer network has been told of exactly the filters in use; sessions and retained messages
  are well formed and unique; a subscription belongs to a connected client; a slot is free exactly
  while it has no thread; and each connection owns an open descriptor nobody else has.
\<close>

theorem broker_invariant:
  assumes "broker_reachable b"
  shows "table_inv b \<and> pool_ok b \<and> retained_ok b \<and>
    (\<forall>e \<in> set (bk_subs b). sub_in_use e \<longrightarrow> live b (sub_client e)) \<and>
    (\<forall>c < length (bk_clients b). client_ok c (client_at b c) \<and>
      (th_phase (thread_at b c) = ThreadIdle \<longleftrightarrow> cl_state (client_at b c) = CLIENT_STATE_FREE) \<and>
      (if cl_state (client_at b c) = CLIENT_STATE_FREE then cl_fd (client_at b c) = -1
       else 0 \<le> cl_fd (client_at b c) \<and> \<not> so_closed (bk_socks b (cl_fd (client_at b c))))) \<and>
    (\<forall>c d. live b c \<longrightarrow> live b d \<longrightarrow> cl_fd (client_at b c) = cl_fd (client_at b d) \<longrightarrow> c = d)"
  using reachable_ok [OF assms] by (simp add: broker_ok_def core_ok_def conn_ok_def live_def)

text \<open>
  C7: a thread that is running ends its connection in its next step exactly when
  \<open>connection_over\<close> holds: a first packet that is not CONNECT, the mark that the client is to go, a
  packet the checks refuse, a read error that is no timeout, or a silence longer than one and a
  half times the keepalive. Then the slot is free, the descriptor closed, no subscription and, for
  a clean session, no session is left. Otherwise the thread stays alive.
\<close>

theorem connection_ends:
  assumes "broker_reachable b" and "c < length (bk_clients b)" and "cl_state (client_at b c) \<noteq> CLIENT_STATE_FREE"
  shows "if connection_over c b then gone c (client_at b c) (client_thread_step stack_conn stack_pub c b)
    else th_phase (thread_at (client_thread_step stack_conn stack_pub c b) c) \<noteq> ThreadIdle"
  using client_step reachable_ok [OF assms(1)] assms(2,3) by (simp add: live_def)


text \<open>
  C6: a QoS 2 message is published once. The first PUBLISH with a packet id (while the table has
  room) records the id, publishes the message and answers PUBREC; every PUBLISH with that id until
  the PUBREL is only answered with PUBREC; after the PUBREL the id is free again.
\<close>

theorem qos2_published_once:
  assumes "broker_reachable b" and "c < length (bk_clients b)" and "cl_state (client_at b c) \<noteq> CLIENT_STATE_FREE"
    and "qos2_packet stack_pub pkt pid" and "\<not> qos2_pending c pid b" and "qos2_room c b"
    and "\<forall>(stack, dup) \<in> set again. qos2_packet stack dup pid"
  shows "\<exists>table. let pubrec = send_reply c (packet_build_pubrec pid 4);
      b1 = handle_publish stack_pub c pkt b;
      b2 = fold (\<lambda>(stack, dup). handle_publish stack c dup) again b1
    in b1 = pubrec (topic_publish (the (packet_parse_publish pkt stack_pub))
              (upd_client c (\<lambda>cl. cl\<lparr>cl_qos2_in := table\<rparr>) b)) \<and>
       slot_of q2_in_use q2_packet_id pid table \<noteq> None \<and>
       b2 = (pubrec ^^ length again) b1 \<and> \<not> qos2_pending c pid (handle_pubrel c pid b2)"
proof -
  define p where "p = the (packet_parse_publish pkt stack_pub)"
  have p: "pub_packet_id p = pid" using assms(4) by (auto simp: p_def qos2_packet_def split: option.splits)
  have ok: "broker_ok b" and l: "live b c" using reachable_ok [OF assms(1)] assms(2,3) by (simp_all add: live_def)
  have core: "core_ok b" using ok by (simp add: broker_ok_def)
  let ?t = "cl_qos2_in (client_at b c)" and ?e = "\<lparr>q2_packet_id = pid, q2_in_use = True\<rparr>"
  let ?pubrec = "send_reply c (packet_build_pubrec pid 4)"
  have u: "keys_unique q2_in_use q2_packet_id ?t" using live_client_ok [OF core l] by (simp add: client_ok_def)
  obtain i where i: "free_slot q2_in_use ?t = Some i" using assms(6) by (auto simp: qos2_room_def)
  then have lt: "i < length ?t" by (auto simp: free_slot_def dest: find_idx_SomeD)
  have dup: "slot_of q2_in_use q2_packet_id pid ?t = None" using assms(5) by (simp add: qos2_pending_def)
  define table where "table = upd_nth i (\<lambda>_. ?e) ?t"
  have slot: "slot_of q2_in_use q2_packet_id pid table = Some i"
    using q2s.slot_of_store [OF u lt, of ?e] dup by (simp add: table_def)
  have "upd_client c (\<lambda>cl. cl\<lparr>cl_qos2_in := upd_nth i (\<lambda>_. ?e) (cl_qos2_in cl)\<rparr>) b = upd_client c (\<lambda>cl. cl\<lparr>cl_qos2_in := table\<rparr>) b"
    using assms(2) by (simp add: upd_client_def upd_nth_def table_def client_at_def)
  then have b1: "handle_publish stack_pub c pkt b = ?pubrec (topic_publish p (upd_client c (\<lambda>cl. cl\<lparr>cl_qos2_in := table\<rparr>) b))"
    using i dup p by (simp add: handle_qos2 [OF assms(4)] p_def [symmetric] handle_publish_qos2_def Let_def)
  let ?b1 = "handle_publish stack_pub c pkt b"
  let ?b2 = "fold (\<lambda>(stack, dup). handle_publish stack c dup) again ?b1"
  have "qos2_pending c pid ?b1"
    unfolding b1 reply_pending publish_pending using slot assms(2) by (simp add: qos2_pending_def)
  then have b2: "?b2 = (?pubrec ^^ length again) ?b1" using handle_retransmissions assms(7) by blast
  have "keeps b ?b1" by (rule keeps_publish_handler [OF core l])
  moreover have "keeps ?b1 ?b2"
  proof (rule keeps_fold)
    show "keeps b' ((case q of (stack, dup) \<Rightarrow> handle_publish stack c dup) b')" if "core_ok b'" "live b' c" for q b'
      using keeps_publish_handler [OF that] by (cases q) simp
  qed (use keepsD [OF calculation] l in simp_all)
  ultimately have k: "keeps b ?b2" using keeps_trans by blast
  then have "core_ok ?b2" "live ?b2 c" using keepsD [OF k] l by simp_all
  then have "\<not> qos2_pending c pid (handle_pubrel c pid ?b2)"
    using live_client_ok [of ?b2 c] live_less by (intro pubrel_frees) (simp_all add: client_ok_def)
  then show ?thesis using b1 b2 slot by (intro exI [of _ table]) (simp add: Let_def p_def)
qed

subsection \<open>Witnesses\<close>

text \<open>A broker with one client, which has connected on descriptor 5.\<close>

definition one_client :: broker where
  "one_client = snd (client_alloc True 5 (upd_sock 5 (\<lambda>_. quiet_sock) (topic_init (idle_broker 1 2))))"

lemma one_client_reachable: "broker_reachable one_client"
  unfolding one_client_def
proof (rule broker_reachable.step)
  show "broker_reachable (topic_init (idle_broker 1 2))"
    unfolding idle_broker_def by (rule broker_reachable.start) (simp_all add: static_broker_def)
  show "broker_step (topic_init (idle_broker 1 2))
      (snd (client_alloc True 5 (upd_sock 5 (\<lambda>_. quiet_sock) (topic_init (idle_broker 1 2)))))"
    by (rule broker_step.accept) (simp_all add: quiet_sock_def topic_init_def idle_broker_def client_pool_init_def
        static_broker_def client_at_def zero_client_def)
qed

lemma one_client_facts:
  "length (bk_clients one_client) = 1" "bk_threads one_client = [\<lparr>th_phase = ThreadFirst, th_errno = EOK\<rparr>]"
  "client_at one_client 0 = zero_client\<lparr>cl_fd := 5, cl_state := CLIENT_STATE_CONNECTED\<rparr>"
  "bk_socks one_client 5 = quiet_sock"
  by (simp_all add: one_client_def client_alloc_def topic_init_def idle_broker_def client_pool_init_def
      static_broker_def client_at_def zero_client_def upd_client_def upd_thread_def upd_sock_def upd_nth_def)

theorem packets_read_back_witness:
  "\<exists>s'. recv_packets 2 (quiet_sock\<lparr>so_rx := [RxData [0xC0, 0], RxData [0x40], RxData [2, 0], RxData [7], RxClosed]\<rparr>)
     = (Inr [received (0xC0, []), received (0x40, [0, 7])], s') \<and> so_rx s' = [RxClosed]"
  using packets_read_back [of "quiet_sock\<lparr>so_rx := [RxData [0xC0, 0], RxData [0x40], RxData [2, 0], RxData [7], RxClosed]\<rparr>"
      "[[0xC0, 0], [0x40], [2, 0], [7]]" "[RxClosed]" "[(0xC0, []), (0x40, [0, 7])]"]
  by (simp add: frame_short numeral_2_eq_2 del: recv_packets.simps)

theorem broker_invariant_witness: "table_inv one_client \<and> pool_ok one_client"
  using broker_invariant [OF one_client_reachable] by simp

theorem connection_ends_witness:
  "gone 0 (zero_client\<lparr>cl_fd := 5, cl_state := CLIENT_STATE_CONNECTED\<rparr>)
     (client_thread_step zero_connect zero_publish 0 one_client)"
proof -
  have "connection_over 0 one_client"
    by (simp add: connection_over_def one_client_facts thread_at_def zero_client_def quiet_sock_def
        sock_recv_packet_def recv_exact.simps plat_recv_def)
  then show ?thesis
    using connection_ends [OF one_client_reachable, of 0 zero_connect zero_publish]
    by (simp add: one_client_facts zero_client_def)
qed


theorem qos2_published_once_witness:
  "\<not> qos2_pending 0 7 (handle_pubrel 0 7 (fold (\<lambda>(stack, dup). handle_publish stack 0 dup)
     [(zero_publish, \<lparr>pkt_type_flags = 0x3C, pkt_remaining_len = 5, pkt_buf = [0, 1, 97, 0, 7]\<rparr>)]
     (handle_publish zero_publish 0 \<lparr>pkt_type_flags = 0x34, pkt_remaining_len = 5, pkt_buf = [0, 1, 97, 0, 7]\<rparr> one_client)))"
proof -
  define m where "m d = zero_publish\<lparr>pub_topic := [97], pub_qos := 2, pub_dup := d, pub_packet_id := 7\<rparr>" for d
  have parse: "packet_parse_publish \<lparr>pkt_type_flags = 0x34, pkt_remaining_len = 5, pkt_buf = [0, 1, 97, 0, 7]\<rparr> zero_publish = Some (m 0)"
    "packet_parse_publish \<lparr>pkt_type_flags = 0x3C, pkt_remaining_len = 5, pkt_buf = [0, 1, 97, 0, 7]\<rparr> zero_publish = Some (m 1)"
    using parse_publish_body [of "m 0" 5 zero_publish] parse_publish_body [of "m 1" 5 zero_publish]
    by (simp_all add: m_def zero_publish_def publish_ok_def cstr_ok_def publish_body_def write_str_def write_u16_def publish_header_def)
  let ?first = "\<lparr>pkt_type_flags = 0x34, pkt_remaining_len = 5, pkt_buf = [0, 1, 97, 0, 7]\<rparr>"
    and ?again = "\<lparr>pkt_type_flags = 0x3C, pkt_remaining_len = 5, pkt_buf = [0, 1, 97, 0, 7]\<rparr>"
  have "qos2_packet zero_publish ?first 7" "qos2_packet zero_publish ?again 7"
    by (simp_all add: qos2_packet_def parse) (simp_all add: m_def has_wildcard_def)
  moreover have "\<not> qos2_pending 0 7 one_client" "qos2_room 0 one_client"
    by (simp_all add: qos2_pending_def qos2_room_def one_client_facts zero_client_def slot_of_def free_slot_def
        zero_qos2_in_def numeral_eq_Suc)
  ultimately show ?thesis
    using qos2_published_once [OF one_client_reachable, of 0 zero_publish ?first 7 "[(zero_publish, ?again)]"]
    by (auto simp: one_client_facts Let_def)
qed

end
