(* ===== verification/Mesh_Ingress.thy ===== *)
theory Mesh_Ingress
  imports Client_Handlers
begin

text \<open>
  The mesh ingress of \<^verbatim>\<open>src/broker.c\<close>: a second listener for a few clients that speak a subset of
  MQTT, are served from the main loop, and exchange messages with the peer network only. Also the
  admission control of the main listener.

  A \<open>mesh_ingress_client_t *\<close> is the index of the client in \<open>mesh_clients\<close>. The code passes a
  message by pointer, and the pointer may lead into the client table itself, which a delivery can
  change: a message is therefore a function that reads it from the current state.

  The code has no lock around \<open>mesh_clients\<close>: the main loop serves the clients while the threads of the
  peers deliver to them. Here a turn of the main loop and a delivery
  (\<open>broker_mesh_ingress_publish_remote\<close>) are one step each; what they do to each other when they overlap
  is not modelled.

  The message a client has sent but not released (\<open>qos2_in\<close>), the frames waiting for an
  acknowledgement and the subscriptions are lists whose lengths are the array sizes.
\<close>

subsection \<open>State\<close>

abbreviation (input) MESH_INGRESS_MAX_CLIENTS :: nat where "MESH_INGRESS_MAX_CLIENTS \<equiv> 2"
abbreviation (input) MESH_INGRESS_SUBS_PER_CLIENT :: nat where "MESH_INGRESS_SUBS_PER_CLIENT \<equiv> 4"
abbreviation (input) MESH_INGRESS_INFLIGHT_MAX :: nat where "MESH_INGRESS_INFLIGHT_MAX \<equiv> 4"
abbreviation (input) MESH_INGRESS_QOS2_IN_MAX :: nat where "MESH_INGRESS_QOS2_IN_MAX \<equiv> 4"
abbreviation (input) MESH_INGRESS_RETRY_MS :: int where "MESH_INGRESS_RETRY_MS \<equiv> 5000"

record mesh_qos2_in =
  mq_packet_id :: u16
  mq_pub :: mqtt_publish
  mq_in_use :: bool
  mq_published :: bool

record mesh_sub =
  mb_filter :: cstr
  mb_qos :: byte
  mb_in_use :: bool

record mesh_client =
  mc_fd :: int
  mc_in_use :: bool
  mc_next_packet_id :: u16
  mc_subs :: "mesh_sub list"
  mc_inflight :: "inflight list"
  mc_qos2_in :: "mesh_qos2_in list"

record mesh =
  ms_broker :: broker
  ms_clients :: "mesh_client list"
  ms_admission_limit :: nat

definition zero_mesh_client :: mesh_client where
  "zero_mesh_client = \<lparr>mc_fd = 0, mc_in_use = False, mc_next_packet_id = 0,
     mc_subs = replicate MESH_INGRESS_SUBS_PER_CLIENT \<lparr>mb_filter = [], mb_qos = 0, mb_in_use = False\<rparr>,
     mc_inflight = replicate MESH_INGRESS_INFLIGHT_MAX zero_inflight,
     mc_qos2_in = replicate MESH_INGRESS_QOS2_IN_MAX
       \<lparr>mq_packet_id = 0, mq_pub = zero_publish, mq_in_use = False, mq_published = False\<rparr>\<rparr>"

definition mesh_at :: "mesh \<Rightarrow> nat \<Rightarrow> mesh_client" where
  "mesh_at m i = ms_clients m ! i"

definition upd_mesh :: "nat \<Rightarrow> (mesh_client \<Rightarrow> mesh_client) \<Rightarrow> mesh \<Rightarrow> mesh" where
  "upd_mesh i f m = m\<lparr>ms_clients := upd_nth i f (ms_clients m)\<rparr>"

definition on_broker :: "(broker \<Rightarrow> broker) \<Rightarrow> mesh \<Rightarrow> mesh" where
  "on_broker f m = m\<lparr>ms_broker := f (ms_broker m)\<rparr>"

text \<open>A call into the peer network, made only when the build has one.\<close>

definition mesh_p2p :: "p2p_event \<Rightarrow> mesh \<Rightarrow> mesh" where
  "mesh_p2p e = on_broker (\<lambda>b. if bk_cfg_p2p b then p2p_emit e b else b)"

text \<open>\<open>broker_send_all\<close>; on the descriptor \<open>-1\<close> of a closed client the first send fails.\<close>

definition broker_send_all :: "int \<Rightarrow> byte list \<Rightarrow> broker \<Rightarrow> bool \<times> broker" where
  "broker_send_all fd buf b =
     (if buf = [] then (True, b)
      else if fd < 0 then (False, b)
      else let (ok, s) = send_loop buf (bk_socks b fd) in (ok, upd_sock fd (\<lambda>_. s) b))"

definition mesh_send :: "int \<Rightarrow> byte list \<Rightarrow> mesh \<Rightarrow> bool \<times> mesh" where
  "mesh_send fd buf m = (let (ok, b) = broker_send_all fd buf (ms_broker m) in (ok, m\<lparr>ms_broker := b\<rparr>))"

text \<open>The reply a builder produced, sent with the result ignored.\<close>

definition mesh_reply :: "nat \<Rightarrow> byte list option \<Rightarrow> mesh \<Rightarrow> mesh" where
  "mesh_reply i reply m = (case reply of None \<Rightarrow> m | Some buf \<Rightarrow> snd (mesh_send (mc_fd (mesh_at m i)) buf m))"

subsection \<open>Subscriptions\<close>

definition mesh_filter_refcount :: "cstr \<Rightarrow> mesh \<Rightarrow> nat" where
  "mesh_filter_refcount f m =
     (if f = [] then 0
      else sum_list (map (\<lambda>cl. length (filter (\<lambda>s. mb_in_use s \<and> mb_filter s = f) (mc_subs cl)))
             (filter mc_in_use (ms_clients m))))"

definition mesh_filter_can_withdraw :: "cstr \<Rightarrow> mesh \<Rightarrow> bool" where
  "mesh_filter_can_withdraw f m \<longleftrightarrow>
     mesh_filter_refcount f m = 0 \<and> topic_filter_subscriber_count f (ms_broker m) = 0"

definition mesh_client_alloc :: "int \<Rightarrow> mesh \<Rightarrow> nat option \<times> mesh" where
  "mesh_client_alloc fd m =
     (case find_idx (\<lambda>cl. \<not> mc_in_use cl) (ms_clients m) of
        None \<Rightarrow> (None, m)
      | Some i \<Rightarrow> (Some i, upd_mesh i (\<lambda>_. zero_mesh_client\<lparr>mc_fd := fd, mc_in_use := True\<rparr>) m))"

text \<open>One iteration of the loop of \<open>mesh_client_close\<close>.\<close>

definition mesh_drop_sub :: "nat \<Rightarrow> nat \<Rightarrow> mesh \<Rightarrow> mesh" where
  "mesh_drop_sub i j m =
     (let s = mc_subs (mesh_at m i) ! j in
      if \<not> mb_in_use s then m
      else let f = strncpy_str MQTT_TOPIC_MAX (mb_filter s);
               m = upd_mesh i (\<lambda>cl. cl\<lparr>mc_subs := upd_nth j (\<lambda>s. s\<lparr>mb_in_use := False\<rparr>) (mc_subs cl)\<rparr>) m
           in if mesh_filter_can_withdraw f m then mesh_p2p (P2PUnsubscribe f) m else m)"

definition mesh_client_close :: "nat \<Rightarrow> mesh \<Rightarrow> mesh" where
  "mesh_client_close i m =
     (if \<not> mc_in_use (mesh_at m i) then m
      else let m = (if bk_cfg_p2p (ms_broker m)
                    then fold (mesh_drop_sub i) [0..<length (mc_subs (mesh_at m i))] m else m);
               m = on_broker (plat_close (mc_fd (mesh_at m i))) m
           in upd_mesh i (\<lambda>_. zero_mesh_client\<lparr>mc_fd := -1\<rparr>) m)"

definition mesh_client_subscribe :: "nat \<Rightarrow> cstr \<Rightarrow> byte \<Rightarrow> mesh \<Rightarrow> bool \<times> mesh" where
  "mesh_client_subscribe i f qos m =
     (if f = [] then (False, m)
      else let subs = mc_subs (mesh_at m i);
               put = (\<lambda>j s. mesh_p2p (P2PSubscribe f qos)
                        (upd_mesh i (\<lambda>cl. cl\<lparr>mc_subs := upd_nth j s (mc_subs cl)\<rparr>) m))
           in case slot_of mb_in_use mb_filter f subs of
                Some j \<Rightarrow> (True, put j (\<lambda>s. s\<lparr>mb_qos := qos\<rparr>))
              | None \<Rightarrow>
                  (case free_slot mb_in_use subs of
                     None \<Rightarrow> (False, m)
                   | Some j \<Rightarrow> (True, put j (\<lambda>_. \<lparr>mb_filter = strncpy_str MQTT_TOPIC_MAX f, mb_qos = qos,
                       mb_in_use = True\<rparr>))))"

definition mesh_client_unsubscribe :: "nat \<Rightarrow> cstr \<Rightarrow> mesh \<Rightarrow> bool \<times> mesh" where
  "mesh_client_unsubscribe i f m =
     (if f = [] then (False, m)
      else let removed = (\<exists>s \<in> set (mc_subs (mesh_at m i)). mb_in_use s \<and> mb_filter s = f);
               m = upd_mesh i (\<lambda>cl. cl\<lparr>mc_subs := map (\<lambda>s. if mb_in_use s \<and> mb_filter s = f
                     then s\<lparr>mb_in_use := False\<rparr> else s) (mc_subs cl)\<rparr>) m
           in (removed,
               if removed \<and> mesh_filter_can_withdraw f m then mesh_p2p (P2PUnsubscribe f) m else m))"

subsection \<open>Frames waiting for an acknowledgement\<close>

definition mesh_inflight_store :: "nat \<Rightarrow> u16 \<Rightarrow> byte list \<Rightarrow> byte \<Rightarrow> mesh \<Rightarrow> mesh" where
  "mesh_inflight_store i pid buf qos m =
     (if pid = 0 \<or> buf = [] then m
      else case free_slot if_in_use (mc_inflight (mesh_at m i)) of
             None \<Rightarrow> m
           | Some j \<Rightarrow> upd_mesh i (\<lambda>cl. cl\<lparr>mc_inflight := upd_nth j
               (\<lambda>_. \<lparr>if_packet_id = pid, if_buf = buf, if_sent_at_ms = bk_now (ms_broker m), if_in_use = True,
                      if_qos = qos, if_waiting_pubcomp = False\<rparr>) (mc_inflight cl)\<rparr>) m)"

definition mesh_inflight_ack :: "nat \<Rightarrow> u16 \<Rightarrow> mesh \<Rightarrow> mesh" where
  "mesh_inflight_ack i pid m =
     (case slot_of if_in_use if_packet_id pid (mc_inflight (mesh_at m i)) of
        None \<Rightarrow> m
      | Some j \<Rightarrow> upd_mesh i (\<lambda>cl. cl\<lparr>mc_inflight :=
          upd_nth j (\<lambda>e. e\<lparr>if_in_use := False\<rparr>) (mc_inflight cl)\<rparr>) m)"

definition mesh_inflight_pubrec :: "nat \<Rightarrow> u16 \<Rightarrow> mesh \<Rightarrow> mesh" where
  "mesh_inflight_pubrec i pid m =
     (case find_idx (\<lambda>e. if_in_use e \<and> if_packet_id e = pid \<and> if_qos e = 2 \<and> \<not> if_waiting_pubcomp e)
             (mc_inflight (mesh_at m i)) of
        None \<Rightarrow> m
      | Some j \<Rightarrow>
          (case packet_build_pubrel pid 4 of
             None \<Rightarrow> m
           | Some rel \<Rightarrow>
               (let (ok, m) = mesh_send (mc_fd (mesh_at m i)) rel m
                in if ok
                   then upd_mesh i (\<lambda>cl. cl\<lparr>mc_inflight := upd_nth j
                          (\<lambda>e. e\<lparr>if_waiting_pubcomp := True, if_sent_at_ms := bk_now (ms_broker m), if_buf := rel\<rparr>)
                          (mc_inflight cl)\<rparr>) m
                   else m)))"

text \<open>The loop of \<open>mesh_inflight_retry\<close> over the slots \<open>js\<close>, which ends when a send fails.\<close>

fun mesh_retry_loop :: "nat \<Rightarrow> int \<Rightarrow> nat list \<Rightarrow> mesh \<Rightarrow> mesh" where
  "mesh_retry_loop i now [] m = m"
| "mesh_retry_loop i now (j # js) m =
     (let e = mc_inflight (mesh_at m i) ! j in
      if \<not> if_in_use e \<or> now - if_sent_at_ms e < MESH_INGRESS_RETRY_MS then mesh_retry_loop i now js m
      else let e = (if if_qos e = 2 \<and> if_waiting_pubcomp e then e else e\<lparr>if_buf := set_dup (if_buf e)\<rparr>)
                     \<lparr>if_sent_at_ms := now\<rparr>;
               m = upd_mesh i (\<lambda>cl. cl\<lparr>mc_inflight := upd_nth j (\<lambda>_. e) (mc_inflight cl)\<rparr>) m;
               (ok, m) = mesh_send (mc_fd (mesh_at m i)) (if_buf e) m
           in if ok then mesh_retry_loop i now js m else mesh_client_close i m)"

definition mesh_inflight_retry :: "nat \<Rightarrow> mesh \<Rightarrow> mesh" where
  "mesh_inflight_retry i m =
     (if \<not> mc_in_use (mesh_at m i) then m
      else mesh_retry_loop i (bk_now (ms_broker m)) [0..<length (mc_inflight (mesh_at m i))] m)"

definition mesh_ingress_retry_all :: "mesh \<Rightarrow> mesh" where
  "mesh_ingress_retry_all m = fold mesh_inflight_retry [0..<length (ms_clients m)] m"

subsection \<open>Delivery\<close>

definition mesh_copy :: "mqtt_publish \<Rightarrow> mesh_sub \<Rightarrow> u16 \<Rightarrow> mqtt_publish" where
  "mesh_copy pub s pid =
     (let d = pub\<lparr>pub_qos := (if pub_qos pub < mb_qos s then pub_qos pub else mb_qos s)\<rparr>
      in if pub_qos d > 0 then d\<lparr>pub_packet_id := pid\<rparr> else d)"

text \<open>One client: the first subscription that matches decides, and the message goes out once.\<close>

definition mesh_deliver :: "(mesh \<Rightarrow> mqtt_publish) \<Rightarrow> nat \<Rightarrow> mesh \<Rightarrow> mesh" where
  "mesh_deliver src i m =
     (let pub = src m; cl = mesh_at m i in
      if \<not> mc_in_use cl then m
      else case find_idx (\<lambda>s. mb_in_use s \<and> mqtt_topic_match (mb_filter s) (pub_topic pub)) (mc_subs cl) of
             None \<Rightarrow> m
           | Some j \<Rightarrow>
               (let pid = next_id (mc_next_packet_id cl);
                    d = mesh_copy pub (mc_subs cl ! j) pid;
                    m = (if pub_qos d > 0 then upd_mesh i (\<lambda>cl. cl\<lparr>mc_next_packet_id := pid\<rparr>) m else m)
                in case packet_build_publish d (MQTT_MAX_PACKET_SIZE + 8) of
                     None \<Rightarrow> mesh_client_close i m
                   | Some buf \<Rightarrow>
                       (let (ok, m) = mesh_send (mc_fd cl) buf m
                        in if \<not> ok then mesh_client_close i m
                           else if pub_qos d > 0 then mesh_inflight_store i (pub_packet_id d) buf (pub_qos d) m
                           else m)))"

definition broker_mesh_ingress_publish_remote :: "(mesh \<Rightarrow> mqtt_publish) \<Rightarrow> mesh \<Rightarrow> mesh" where
  "broker_mesh_ingress_publish_remote src m = fold (mesh_deliver src) [0..<length (ms_clients m)] m"

definition mesh_publish_from_ingress :: "(mesh \<Rightarrow> mqtt_publish) \<Rightarrow> mesh \<Rightarrow> mesh" where
  "mesh_publish_from_ingress src m =
     on_broker broker_notify_activity (broker_mesh_ingress_publish_remote src (mesh_p2p (P2PPublish (src m)) m))"

subsection \<open>Reading a packet\<close>

text \<open>
  The remaining-length bytes, one at a time; the C variable \<open>mult\<close> is \<open>128 ^ k\<close> before the byte is
  read. Nothing distinguishes the ways a read can fail.
\<close>

function mesh_recv_rlen :: "nat \<Rightarrow> u32 \<Rightarrow> sock \<Rightarrow> u32 option \<times> sock" where
  "mesh_recv_rlen k rlen s =
     (case recv_exact 1 s of
        (Inl e, s) \<Rightarrow> (None, s)
      | (Inr bs, s) \<Rightarrow>
          (let rlen = rlen + ucast (hd bs AND 0x7F) * 128 ^ k
           in if 3 < Suc k then (None, s)
              else if hd bs AND 0x80 \<noteq> 0 then mesh_recv_rlen (Suc k) rlen s
              else (Some rlen, s)))"
  by pat_completeness auto
termination
  by (relation "measure (\<lambda>(k, rlen, s). 4 - k)") auto

declare mesh_recv_rlen.simps [simp del]

definition recv_mqtt_packet :: "sock \<Rightarrow> mqtt_packet option \<times> sock" where
  "recv_mqtt_packet s =
     (case recv_exact 1 s of
        (Inl e, s) \<Rightarrow> (None, s)
      | (Inr b, s) \<Rightarrow>
          (case mesh_recv_rlen 0 0 s of
             (None, s) \<Rightarrow> (None, s)
           | (Some rlen, s) \<Rightarrow>
               if unat rlen > MQTT_MAX_PACKET_SIZE then (None, s)
               else (case recv_exact (unat rlen) s of
                       (Inl e, s) \<Rightarrow> (None, s)
                     | (Inr body, s) \<Rightarrow>
                         (Some \<lparr>pkt_type_flags = hd b, pkt_remaining_len = rlen, pkt_buf = body\<rparr>, s))))"

definition mesh_recv :: "int \<Rightarrow> mesh \<Rightarrow> mqtt_packet option \<times> mesh" where
  "mesh_recv fd m =
     (let (r, s) = recv_mqtt_packet (bk_socks (ms_broker m) fd) in (r, on_broker (upd_sock fd (\<lambda>_. s)) m))"

subsection \<open>Accepting connections\<close>

definition reject_server_unavailable :: "int \<Rightarrow> broker \<Rightarrow> broker" where
  "reject_server_unavailable fd b =
     (let b = (case packet_build_connack 0 CONNACK_SERVER_UNAVAIL 4 of
                 None \<Rightarrow> b
               | Some rej \<Rightarrow> snd (broker_send_all fd rej b))
      in plat_close fd b)"

text \<open>\<open>fd\<close> is the descriptor \<open>plat_accept\<close> returned, \<open>limit\<close> the configured admission limit.\<close>

definition broker_accept_one :: "bool \<Rightarrow> nat \<Rightarrow> int \<Rightarrow> broker \<Rightarrow> broker" where
  "broker_accept_one spawn_ok limit fd b =
     (if fd < 0 then b
      else if limit < length (bk_clients b) \<and> limit \<le> client_used_slots b then reject_server_unavailable fd b
      else case client_alloc spawn_ok fd b of
             (Some c, b) \<Rightarrow> b
           | (None, b) \<Rightarrow> reject_server_unavailable fd b)"

definition broker_set_admission_limit :: "u16 \<Rightarrow> mesh \<Rightarrow> bool \<times> mesh" where
  "broker_set_admission_limit max_clients m =
     (if max_clients = 0 then (True, m\<lparr>ms_admission_limit := length (bk_clients (ms_broker m))\<rparr>)
      else if unat max_clients > length (bk_clients (ms_broker m)) then (False, m)
      else (True, m\<lparr>ms_admission_limit := unat max_clients\<rparr>))"

definition mesh_ingress_accept_one :: "int \<Rightarrow> mesh \<Rightarrow> mesh" where
  "mesh_ingress_accept_one fd m =
     (if fd < 0 then m
      else let m = on_broker (upd_sock fd (\<lambda>s. s\<lparr>so_timeout := 10\<rparr>)) m;
               (r, m) = mesh_recv fd m
           in case r of
                None \<Rightarrow> on_broker (plat_close fd) m
              | Some pkt \<Rightarrow>
                  if pkt_type_flags pkt AND 0xF0 \<noteq> MQTT_CONNECT then on_broker (plat_close fd) m
                  else (case packet_build_connack 0 CONNACK_ACCEPTED 4 of
                          None \<Rightarrow> on_broker (plat_close fd) m
                        | Some ack \<Rightarrow>
                            (let (ok, m) = mesh_send fd ack m
                             in if \<not> ok then on_broker (plat_close fd) m
                                else case mesh_client_alloc fd m of
                                       (Some i, m) \<Rightarrow> m
                                     | (None, m) \<Rightarrow> on_broker (reject_server_unavailable fd) m)))"

subsection \<open>Handling a packet\<close>

definition packet_id_from_ack :: "mqtt_packet \<Rightarrow> u16" where
  "packet_id_from_ack pkt = (if length (pkt_buf pkt) < 2 then 0 else read_u16 (pkt_buf pkt) 0)"

definition mesh_qos2_find :: "u16 \<Rightarrow> mesh_client \<Rightarrow> nat option" where
  "mesh_qos2_find pid cl = slot_of mq_in_use mq_packet_id pid (mc_qos2_in cl)"

definition mesh_qos2_alloc :: "mesh_client \<Rightarrow> nat option" where
  "mesh_qos2_alloc cl = free_slot mq_in_use (mc_qos2_in cl)"

definition upd_qos2 :: "nat \<Rightarrow> nat \<Rightarrow> (mesh_qos2_in \<Rightarrow> mesh_qos2_in) \<Rightarrow> mesh \<Rightarrow> mesh" where
  "upd_qos2 i j f = upd_mesh i (\<lambda>cl. cl\<lparr>mc_qos2_in := upd_nth j f (mc_qos2_in cl)\<rparr>)"

definition mesh_handle_publish :: "mqtt_publish \<Rightarrow> nat \<Rightarrow> mqtt_packet \<Rightarrow> mesh \<Rightarrow> mesh" where
  "mesh_handle_publish stack_pub i pkt m =
     (case packet_parse_publish pkt stack_pub of
        None \<Rightarrow> m
      | Some pub \<Rightarrow>
          if pub_qos pub = 2
          then (case mesh_qos2_find (pub_packet_id pub) (mesh_at m i) of
                  Some j \<Rightarrow> mesh_reply i (packet_build_pubrec (pub_packet_id pub) 4) m
                | None \<Rightarrow>
                    (case mesh_qos2_alloc (mesh_at m i) of
                       None \<Rightarrow> mesh_client_close i m
                     | Some j \<Rightarrow> mesh_reply i (packet_build_pubrec (pub_packet_id pub) 4)
                         (upd_qos2 i j (\<lambda>_. \<lparr>mq_packet_id = pub_packet_id pub, mq_pub = pub, mq_in_use = True,
                            mq_published = False\<rparr>) m)))
          else let m = mesh_publish_from_ingress (\<lambda>_. pub) m
               in if pub_qos pub = 1 then mesh_reply i (packet_build_puback (pub_packet_id pub) 4) m else m)"

definition mesh_handle_subscribe :: "nat \<Rightarrow> mqtt_packet \<Rightarrow> mesh \<Rightarrow> mesh" where
  "mesh_handle_subscribe i pkt m =
     (let (packet_id, topics) = packet_parse_subscribe pkt 1;
          (granted, m) = (case topics of
             Some ((f, q) # _) \<Rightarrow>
               (case mesh_client_subscribe i f q m of (ok, m) \<Rightarrow> (if ok then q AND 3 else 0x80, m))
           | _ \<Rightarrow> (0x80, m))
      in mesh_reply i (packet_build_suback packet_id [granted] (MQTT_MAX_PACKET_SIZE + 8)) m)"

definition mesh_handle_unsubscribe :: "nat \<Rightarrow> mqtt_packet \<Rightarrow> mesh \<Rightarrow> mesh" where
  "mesh_handle_unsubscribe i pkt m =
     (let (packet_id, topics) = packet_parse_unsubscribe pkt 1;
          m = (case topics of Some (f # _) \<Rightarrow> snd (mesh_client_unsubscribe i f m) | _ \<Rightarrow> m)
      in mesh_reply i (packet_build_unsuback packet_id (MQTT_MAX_PACKET_SIZE + 8)) m)"

text \<open>
  The message released by PUBREL is published from the slot it sits in. When the delivery closes
  this very client, the slot is cleared under it.
\<close>

definition mesh_handle_pubrel :: "nat \<Rightarrow> mqtt_packet \<Rightarrow> mesh \<Rightarrow> mesh" where
  "mesh_handle_pubrel i pkt m =
     (let pid = packet_id_from_ack pkt;
          m = (case mesh_qos2_find pid (mesh_at m i) of
                 None \<Rightarrow> m
               | Some j \<Rightarrow>
                   (let m = (if \<not> mq_published (mc_qos2_in (mesh_at m i) ! j)
                             then upd_qos2 i j (\<lambda>q. q\<lparr>mq_published := True\<rparr>)
                                    (mesh_publish_from_ingress (\<lambda>m. mq_pub (mc_qos2_in (mesh_at m i) ! j)) m)
                             else m)
                    in upd_qos2 i j (\<lambda>q. q\<lparr>mq_in_use := False\<rparr>) m))
      in mesh_reply i (packet_build_pubcomp pid 4) m)"

definition mesh_ingress_handle_client :: "mqtt_publish \<Rightarrow> nat \<Rightarrow> mesh \<Rightarrow> mesh" where
  "mesh_ingress_handle_client stack_pub i m =
     (if \<not> mc_in_use (mesh_at m i) then m
      else let (r, m) = mesh_recv (mc_fd (mesh_at m i)) m
           in case r of
                None \<Rightarrow> mesh_client_close i m
              | Some pkt \<Rightarrow>
                  (let type = pkt_type_flags pkt AND 0xF0; id = packet_id_from_ack pkt in
                   if type = MQTT_PUBLISH then mesh_handle_publish stack_pub i pkt m
                   else if type = MQTT_SUBSCRIBE then mesh_handle_subscribe i pkt m
                   else if type = MQTT_UNSUBSCRIBE then mesh_handle_unsubscribe i pkt m
                   else if type = MQTT_PUBACK then mesh_inflight_ack i id m
                   else if type = MQTT_PUBREC then mesh_inflight_pubrec i id m
                   else if type = MQTT_PUBREL then mesh_handle_pubrel i pkt m
                   else if type = MQTT_PUBCOMP then mesh_inflight_ack i id m
                   else if type = MQTT_PINGREQ then mesh_reply i (packet_build_pingresp (MQTT_MAX_PACKET_SIZE + 8)) m
                   else mesh_client_close i m))"

definition mesh_ingress_handle_ready_fd :: "mqtt_publish \<Rightarrow> int \<Rightarrow> mesh \<Rightarrow> mesh" where
  "mesh_ingress_handle_ready_fd stack_pub ready_fd m =
     (case find_idx (\<lambda>cl. mc_in_use cl \<and> mc_fd cl = ready_fd) (ms_clients m) of
        None \<Rightarrow> m
      | Some i \<Rightarrow> mesh_ingress_handle_client stack_pub i m)"

text \<open>
  One turn of the loop of \<open>broker_run\<close> with the second listener running. The outcome of \<open>poll\<close>
  and the descriptors \<open>accept\<close> returns are arguments: \<open>None\<close> for an error, otherwise whether
  the two listeners and which clients are ready. The list of clients is taken before the poll.
\<close>

record poll_result =
  pr_main :: "int option"
  pr_mesh :: "int option"
  pr_ready :: "int list"

definition mesh_pollfds :: "mesh \<Rightarrow> int list" where
  "mesh_pollfds m = map mc_fd (filter mc_in_use (ms_clients m))"

definition broker_run_turn :: "mqtt_publish \<Rightarrow> bool \<Rightarrow> poll_result option \<Rightarrow> mesh \<Rightarrow> mesh" where
  "broker_run_turn stack_pub spawn_ok poll m =
     (let fds = mesh_pollfds m in
      case poll of
        None \<Rightarrow> m
      | Some p \<Rightarrow>
          let m = (case pr_main p of
                     None \<Rightarrow> m
                   | Some fd \<Rightarrow> on_broker (broker_accept_one spawn_ok (ms_admission_limit m) fd) m);
              m = (case pr_mesh p of None \<Rightarrow> m | Some fd \<Rightarrow> mesh_ingress_accept_one fd m);
              m = fold (\<lambda>fd m. if fd \<in> set (pr_ready p) then mesh_ingress_handle_ready_fd stack_pub fd m else m) fds m
          in mesh_ingress_retry_all m)"

end
