(* ===== verification/Mesh_Correct.thy ===== *)
theory Mesh_Correct
  imports Mesh_Ingress Broker_Invariant
begin

text \<open>
  Properties of the mesh ingress: its clients stay well formed and the peer network knows exactly
  the filters in use (\<open>mesh_ok\<close>), who receives a message, QoS 2, and the admission of connections.
\<close>

subsection \<open>Access\<close>

lemma length_upd_mesh [simp]: "length (ms_clients (upd_mesh i f m)) = length (ms_clients m)"
  by (simp add: upd_mesh_def)

lemma mesh_at_upd:
  "k < length (ms_clients m) \<Longrightarrow> mesh_at (upd_mesh i f m) k = (if k = i then f (mesh_at m k) else mesh_at m k)"
  by (simp add: mesh_at_def upd_mesh_def nth_upd_nth)

lemma mesh_at_upd_simps [simp]:
  "i < length (ms_clients m) \<Longrightarrow> mesh_at (upd_mesh i f m) i = f (mesh_at m i)"
  "k \<noteq> i \<Longrightarrow> mesh_at (upd_mesh i f m) k = mesh_at m k"
  by (simp_all add: mesh_at_def upd_mesh_def)

lemma upd_mesh_broker [simp]: "ms_broker (upd_mesh i f m) = ms_broker m"
  by (simp add: upd_mesh_def)

lemma on_broker_frame [simp]:
  "ms_clients (on_broker g m) = ms_clients m" "mesh_at (on_broker g m) k = mesh_at m k"
  "ms_broker (on_broker g m) = g (ms_broker m)" "ms_admission_limit (on_broker g m) = ms_admission_limit m"
  by (simp_all add: on_broker_def mesh_at_def)

lemma mesh_p2p_frame [simp]:
  "ms_clients (mesh_p2p e m) = ms_clients m" "mesh_at (mesh_p2p e m) k = mesh_at m k"
  "bk_subs (ms_broker (mesh_p2p e m)) = bk_subs (ms_broker m)"
  "bk_socks (ms_broker (mesh_p2p e m)) = bk_socks (ms_broker m)"
  "bk_cfg_p2p (ms_broker (mesh_p2p e m)) = bk_cfg_p2p (ms_broker m)"
  "bk_now (ms_broker (mesh_p2p e m)) = bk_now (ms_broker m)"
  by (simp_all add: mesh_p2p_def)

subsection \<open>What the peer network has been told\<close>

definition held :: "mesh_client \<Rightarrow> cstr set" where
  "held cl = (if mc_in_use cl then mb_filter ` {s \<in> set (mc_subs cl). mb_in_use s} else {})"

text \<open>The filters with a subscriber at a client of the broker or at a mesh client in \<open>I\<close>.\<close>

definition filters_of :: "nat set \<Rightarrow> mesh \<Rightarrow> cstr set" where
  "filters_of I m = (\<Union>i \<in> I. held (mesh_at m i)) \<union> {f. topic_filter_subscriber_count f (ms_broker m) \<noteq> 0} - {[]}"

abbreviation mesh_filters :: "mesh \<Rightarrow> cstr set" where
  "mesh_filters m \<equiv> filters_of {..<length (ms_clients m)} m"

definition mesh_adv_ok :: "mesh \<Rightarrow> bool" where
  "mesh_adv_ok m \<longleftrightarrow> (bk_cfg_p2p (ms_broker m) \<longrightarrow> dom (advertised (ms_broker m)) = mesh_filters m)"

lemma refcount_held: "f \<noteq> [] \<Longrightarrow> mesh_filter_refcount f m = 0 \<longleftrightarrow> (\<forall>i < length (ms_clients m). f \<notin> held (mesh_at m i))"
proof -
  assume "f \<noteq> []"
  then have "mesh_filter_refcount f m = 0 \<longleftrightarrow> (\<forall>cl \<in> set (ms_clients m). f \<notin> held cl)"
    by (auto simp: mesh_filter_refcount_def held_def filter_empty_conv)
  then show ?thesis by (simp add: all_set_conv_all_nth mesh_at_def)
qed

lemma can_withdraw: "f \<noteq> [] \<Longrightarrow> mesh_filter_can_withdraw f m \<longleftrightarrow> f \<notin> mesh_filters m"
  by (auto simp: mesh_filter_can_withdraw_def filters_of_def refcount_held)

text \<open>The part of a state this depends on.\<close>

definition same_subs :: "mesh \<Rightarrow> mesh \<Rightarrow> bool" where
  "same_subs m m' \<longleftrightarrow> length (ms_clients m') = length (ms_clients m) \<and>
     (\<forall>i < length (ms_clients m). held (mesh_at m' i) = held (mesh_at m i)) \<and>
     bk_subs (ms_broker m') = bk_subs (ms_broker m) \<and> bk_cfg_p2p (ms_broker m') = bk_cfg_p2p (ms_broker m) \<and>
     dom (advertised (ms_broker m')) = dom (advertised (ms_broker m))"

lemma adv_same: "mesh_adv_ok m \<Longrightarrow> same_subs m m' \<Longrightarrow> mesh_adv_ok m'"
  by (auto simp: mesh_adv_ok_def same_subs_def filters_of_def topic_filter_subscriber_count_def)

lemma same_subs_refl [simp]: "same_subs m m"
  by (simp add: same_subs_def)

lemma same_subs_trans: "same_subs m m' \<Longrightarrow> same_subs m' m'' \<Longrightarrow> same_subs m m''"
  by (simp add: same_subs_def)

lemma same_subs_fold: "(\<And>x m. x \<in> set xs \<Longrightarrow> same_subs m (f x m)) \<Longrightarrow> same_subs m (fold f xs m)"
  by (induction xs arbitrary: m) (auto intro: same_subs_trans)

lemma same_subs_upd: "held (g (mesh_at m i)) = held (mesh_at m i) \<Longrightarrow> same_subs m (upd_mesh i g m)"
  by (simp add: same_subs_def mesh_at_upd)

lemma same_subs_broker:
  assumes "bk_subs (g (ms_broker m)) = bk_subs (ms_broker m)" and "bk_cfg_p2p (g (ms_broker m)) = bk_cfg_p2p (ms_broker m)"
    and "bk_p2p (g (ms_broker m)) = bk_p2p (ms_broker m)"
  shows "same_subs m (on_broker g m)"
  using assms by (simp add: same_subs_def advertised_def)

lemma same_subs_publish: "same_subs m (mesh_p2p (P2PPublish p) m)"
  by (simp add: same_subs_def) (simp add: mesh_p2p_def)

subsection \<open>Subscribing and unsubscribing\<close>

lemma filters_split:
  "i < length (ms_clients m) \<Longrightarrow> mesh_filters m = filters_of ({..<length (ms_clients m)} - {i}) m \<union> (held (mesh_at m i) - {[]})"
  by (auto simp: filters_of_def)

lemma filters_upd:
  "i < length (ms_clients m) \<Longrightarrow> mesh_filters (upd_mesh i g m) =
    filters_of ({..<length (ms_clients m)} - {i}) m \<union> (held (g (mesh_at m i)) - {[]})"
  by (subst filters_split [of i]) (auto simp: filters_of_def)

lemma filters_p2p [simp]: "filters_of I (mesh_p2p e m) = filters_of I m"
  by (simp add: filters_of_def topic_filter_subscriber_count_def)

text \<open>A change at one client by which at most \<open>f\<close> comes or goes.\<close>

lemma adv_subscribed:
  assumes "mesh_adv_ok m" and "i < length (ms_clients m)" and "f \<noteq> []"
    and "held (g (mesh_at m i)) = insert f (held (mesh_at m i))"
  shows "mesh_adv_ok (mesh_p2p (P2PSubscribe f q) (upd_mesh i g m))"
proof -
  have "mesh_filters (upd_mesh i g m) = insert f (mesh_filters m)"
    using filters_upd [OF assms(2), of g] filters_split [OF assms(2)] assms(3,4) by blast
  moreover have "bk_cfg_p2p (ms_broker m) \<Longrightarrow> dom (advertised (ms_broker (mesh_p2p (P2PSubscribe f q) (upd_mesh i g m)))) =
      insert f (dom (advertised (ms_broker m)))"
    by (simp add: mesh_p2p_def)
  ultimately show ?thesis using assms(1) by (simp add: mesh_adv_ok_def)
qed

lemma adv_withdrawn:
  assumes "mesh_adv_ok m" and "i < length (ms_clients m)" and "f \<noteq> []" and "f \<in> held (mesh_at m i)"
    and "held (g (mesh_at m i)) - {f} = held (mesh_at m i) - {f}"
  defines "m' \<equiv> upd_mesh i g m"
  shows "mesh_adv_ok (if mesh_filter_can_withdraw f m' then mesh_p2p (P2PUnsubscribe f) m' else m')"
proof (cases "bk_cfg_p2p (ms_broker m)")
  case True
  have d: "dom (advertised (ms_broker m)) = mesh_filters m" using assms(1) True by (simp add: mesh_adv_ok_def)
  have s: "mesh_filters m' - {f} = mesh_filters m - {f}" "f \<in> mesh_filters m"
    using filters_upd [OF assms(2), of g] filters_split [OF assms(2)] assms(3-5) by (auto simp: m'_def)
  have l: "length (ms_clients m') = length (ms_clients m)" by (simp add: m'_def)
  show ?thesis
  proof (cases "f \<in> mesh_filters m'")
    case in_use: True
    then have "mesh_filters m' = mesh_filters m" using s by blast
    then show ?thesis using in_use d can_withdraw [OF assms(3), of m'] by (simp add: mesh_adv_ok_def m'_def)
  next
    case False
    then have "mesh_filters m' = mesh_filters m - {f}" using s by blast
    moreover have "dom (advertised (ms_broker (mesh_p2p (P2PUnsubscribe f) m'))) = dom (advertised (ms_broker m)) - {f}"
      using True by (simp add: mesh_p2p_def m'_def)
    ultimately show ?thesis
      using False d can_withdraw [OF assms(3), of m'] by (simp add: mesh_adv_ok_def)
  qed
next
  case False
  then show ?thesis by (simp add: mesh_adv_ok_def m'_def)
qed

subsection \<open>Well-formed clients\<close>

definition mesh_client_ok :: "mesh_client \<Rightarrow> bool" where
  "mesh_client_ok cl \<longleftrightarrow>
     length (mc_subs cl) = MESH_INGRESS_SUBS_PER_CLIENT \<and> length (mc_inflight cl) = MESH_INGRESS_INFLIGHT_MAX \<and>
     length (mc_qos2_in cl) = MESH_INGRESS_QOS2_IN_MAX \<and>
     keys_unique mb_in_use mb_filter (mc_subs cl) \<and> keys_unique mq_in_use mq_packet_id (mc_qos2_in cl) \<and>
     (\<forall>s \<in> set (mc_subs cl). mb_in_use s \<longrightarrow> filter_ok (mb_filter s) \<and> mb_filter s \<noteq> []) \<and>
     (mc_in_use cl \<longrightarrow> 0 \<le> mc_fd cl)"

definition mesh_ok :: "mesh \<Rightarrow> bool" where
  "mesh_ok m \<longleftrightarrow> mesh_adv_ok m \<and> (\<forall>i < length (ms_clients m). mesh_client_ok (mesh_at m i))"

interpretation mqs: slot_table mq_in_use mq_packet_id "\<lambda>q. q\<lparr>mq_in_use := False\<rparr>"
  by unfold_locales simp

interpretation mbs: slot_table mb_in_use mb_filter "\<lambda>s. s\<lparr>mb_in_use := False\<rparr>"
  by unfold_locales simp

lemma zero_client_ok [simp]: "mesh_client_ok (zero_mesh_client\<lparr>mc_fd := fd\<rparr>)"
  "0 \<le> fd \<Longrightarrow> mesh_client_ok (zero_mesh_client\<lparr>mc_fd := fd, mc_in_use := True\<rparr>)"
  by (auto simp: mesh_client_ok_def zero_mesh_client_def keys_unique_def)

lemma held_zero [simp]: "held (zero_mesh_client\<lparr>mc_fd := fd\<rparr>) = {}"
  "held (zero_mesh_client\<lparr>mc_fd := fd, mc_in_use := u\<rparr>) = {}"
  by (auto simp: held_def zero_mesh_client_def)

text \<open>A change that leaves the subscriptions and what the peers know alone.\<close>

definition mesh_keeps :: "mesh \<Rightarrow> mesh \<Rightarrow> bool" where
  "mesh_keeps m m' \<longleftrightarrow> (mesh_ok m \<longrightarrow> mesh_ok m') \<and> length (ms_clients m') = length (ms_clients m)"

lemma mesh_keeps_refl [simp, intro]: "mesh_keeps m m"
  by (simp add: mesh_keeps_def)

lemma mesh_keeps_trans: "mesh_keeps m m' \<Longrightarrow> mesh_keeps m' m'' \<Longrightarrow> mesh_keeps m m''"
  by (simp add: mesh_keeps_def)

lemma mesh_keeps_fold:
  "(\<And>x m'. x \<in> set xs \<Longrightarrow> length (ms_clients m') = n \<Longrightarrow> mesh_keeps m' (f x m')) \<Longrightarrow>
    length (ms_clients m) = n \<Longrightarrow> mesh_keeps m (fold f xs m)"
proof (induction xs arbitrary: m)
  case (Cons x xs)
  have k: "mesh_keeps m (f x m)" using Cons.prems by simp
  then have "mesh_keeps (f x m) (fold f xs (f x m))"
    using Cons.prems by (intro Cons.IH) (auto simp: mesh_keeps_def)
  then show ?case using mesh_keeps_trans [OF k] by simp
qed simp

lemma keeps_broker_part:
  assumes "same_subs m (on_broker g m)"
  shows "mesh_keeps m (on_broker g m)"
  using adv_same [OF _ assms] by (simp add: mesh_keeps_def mesh_ok_def)

lemma keeps_sock [simp, intro]: "mesh_keeps m (on_broker (upd_sock fd f) m)"
  by (intro keeps_broker_part same_subs_broker) (simp_all add: upd_sock_def)

lemma keeps_mesh_close_fd [simp, intro]: "mesh_keeps m (on_broker (plat_close fd) m)"
  by (simp add: plat_close_def [abs_def])

lemma mesh_send_split: "mesh_send fd buf m = (ok, m') \<Longrightarrow> m' = m \<or> (\<exists>f. m' = on_broker (upd_sock fd f) m)"
  by (auto simp: mesh_send_def broker_send_all_def on_broker_def upd_sock_def Let_def split: prod.splits if_splits)

lemma keeps_mesh_send: "mesh_send fd buf m = (ok, m') \<Longrightarrow> mesh_keeps m m' \<and> ms_clients m' = ms_clients m"
  using mesh_send_split [of fd buf m ok m'] by auto

lemma keeps_mesh_reply [simp, intro]: "mesh_keeps m (mesh_reply i r m)"
  using keeps_mesh_send by (auto simp: mesh_reply_def split: option.split) (metis surj_pair snd_conv)

lemma keeps_mesh_upd:
  assumes "i < length (ms_clients m) \<Longrightarrow> held (g (mesh_at m i)) = held (mesh_at m i)"
    and "i < length (ms_clients m) \<Longrightarrow> mesh_client_ok (mesh_at m i) \<Longrightarrow> mesh_client_ok (g (mesh_at m i))"
  shows "mesh_keeps m (upd_mesh i g m)"
proof (cases "i < length (ms_clients m)")
  case True
  then show ?thesis
    using assms adv_same same_subs_upd [where g = g, OF assms(1) [OF True]]
    by (auto simp: mesh_keeps_def mesh_ok_def mesh_at_upd)
next
  case False
  then show ?thesis by (simp add: upd_mesh_def upd_nth_beyond)
qed

subsection \<open>Closing a client\<close>

lemma drop_sub_ok:
  assumes "mesh_ok m" and "i < length (ms_clients m)" and "mc_in_use (mesh_at m i)" and "j < MESH_INGRESS_SUBS_PER_CLIENT"
  shows "mesh_ok (mesh_drop_sub i j m)" and "length (ms_clients (mesh_drop_sub i j m)) = length (ms_clients m)"
    and "mc_in_use (mesh_at (mesh_drop_sub i j m) i)" and "bk_cfg_p2p (ms_broker (mesh_drop_sub i j m)) = bk_cfg_p2p (ms_broker m)"
    and "mc_subs (mesh_at (mesh_drop_sub i j m) i) = upd_nth j (\<lambda>s. s\<lparr>mb_in_use := False\<rparr>) (mc_subs (mesh_at m i))"
proof -
  let ?cl = "mesh_at m i" and ?g = "\<lambda>cl. cl\<lparr>mc_subs := upd_nth j (\<lambda>s. s\<lparr>mb_in_use := False\<rparr>) (mc_subs cl)\<rparr>"
  have ok: "mesh_client_ok ?cl" using assms(1,2) by (simp add: mesh_ok_def)
  have n: "j < length (mc_subs ?cl)" using ok assms(4) by (simp add: mesh_client_ok_def)
  let ?s = "mc_subs ?cl ! j"
  have "mesh_ok (mesh_drop_sub i j m) \<and> length (ms_clients (mesh_drop_sub i j m)) = length (ms_clients m) \<and>
      mc_in_use (mesh_at (mesh_drop_sub i j m) i) \<and> bk_cfg_p2p (ms_broker (mesh_drop_sub i j m)) = bk_cfg_p2p (ms_broker m) \<and>
      mc_subs (mesh_at (mesh_drop_sub i j m) i) = upd_nth j (\<lambda>s. s\<lparr>mb_in_use := False\<rparr>) (mc_subs ?cl)"
  proof (cases "mb_in_use ?s")
    case False
    then have "?s\<lparr>mb_in_use := False\<rparr> = ?s" by (cases ?s) simp
    then have "upd_nth j (\<lambda>s. s\<lparr>mb_in_use := False\<rparr>) (mc_subs ?cl) = mc_subs ?cl"
      by (simp add: upd_nth_def)
    then show ?thesis using False assms by (simp add: mesh_drop_sub_def)
  next
    case True
    let ?m = "upd_mesh i ?g m" and ?f = "mb_filter ?s"
    have f: "filter_ok ?f" "?f \<noteq> []" using ok True n by (auto simp: mesh_client_ok_def)
    have str: "strncpy_str MQTT_TOPIC_MAX ?f = ?f" using f(1) by (simp add: filter_ok_def)
    have eq: "mesh_drop_sub i j m = (if mesh_filter_can_withdraw ?f ?m then mesh_p2p (P2PUnsubscribe ?f) ?m else ?m)"
      using True str by (simp add: mesh_drop_sub_def Let_def)
    have h: "?f \<in> held ?cl" "held (?g ?cl) - {?f} = held ?cl - {?f}"
      using True n assms(3) by (auto simp: held_def upd_nth_def set_conv_nth nth_list_update)
    have "mesh_adv_ok (mesh_drop_sub i j m)"
      unfolding eq using assms(1) h by (intro adv_withdrawn assms f) (simp_all add: mesh_ok_def)
    moreover have cok: "mesh_client_ok (?g ?cl)"
      using ok mbs.unique_release by (auto simp: mesh_client_ok_def dest!: set_upd_nth)
    ultimately show ?thesis
      using assms by (auto simp: mesh_ok_def mesh_at_upd eq)
  qed
  then show "mesh_ok (mesh_drop_sub i j m)" "length (ms_clients (mesh_drop_sub i j m)) = length (ms_clients m)"
    "mc_in_use (mesh_at (mesh_drop_sub i j m) i)" "bk_cfg_p2p (ms_broker (mesh_drop_sub i j m)) = bk_cfg_p2p (ms_broker m)"
    "mc_subs (mesh_at (mesh_drop_sub i j m) i) = upd_nth j (\<lambda>s. s\<lparr>mb_in_use := False\<rparr>) (mc_subs (mesh_at m i))" by blast+
qed

lemma drop_subs_ok:
  assumes "mesh_ok m" and "i < length (ms_clients m)" and "mc_in_use (mesh_at m i)" and "k \<le> MESH_INGRESS_SUBS_PER_CLIENT"
  defines "m' \<equiv> fold (mesh_drop_sub i) [0..<k] m"
  shows "mesh_ok m' \<and> length (ms_clients m') = length (ms_clients m) \<and> mc_in_use (mesh_at m' i) \<and>
    bk_cfg_p2p (ms_broker m') = bk_cfg_p2p (ms_broker m) \<and>
    mc_subs (mesh_at m' i) = fold (\<lambda>j. upd_nth j (\<lambda>s. s\<lparr>mb_in_use := False\<rparr>)) [0..<k] (mc_subs (mesh_at m i))"
  unfolding m'_def using assms(4)
proof (induction k)
  case (Suc k)
  then show ?case
    using drop_sub_ok [of "fold (mesh_drop_sub i) [0..<k] m" i k] assms(2) by simp
qed (use assms in simp)

lemma length_all_off: "length (fold (\<lambda>j. upd_nth j (\<lambda>s. s\<lparr>mb_in_use := False\<rparr>)) [0..<k] xs) = length xs"
  by (induction k) simp_all

lemma all_off: "j < k \<Longrightarrow> j < length xs \<Longrightarrow> \<not> mb_in_use (fold (\<lambda>j. upd_nth j (\<lambda>s. s\<lparr>mb_in_use := False\<rparr>)) [0..<k] xs ! j)"
  by (induction k) (auto simp: nth_upd_nth less_Suc_eq length_all_off)

lemma keeps_mesh_close:
  assumes "i < length (ms_clients m)"
  shows "mesh_keeps m (mesh_client_close i m)"
proof (cases "mesh_ok m \<and> mc_in_use (mesh_at m i)")
  case True
  then have ok: "mesh_ok m" and u: "mc_in_use (mesh_at m i)" by simp_all
  have n: "length (mc_subs (mesh_at m i)) = 4" using ok assms by (simp add: mesh_ok_def mesh_client_ok_def)
  show ?thesis
  proof (cases "bk_cfg_p2p (ms_broker m)")
    case p2p: True
    define m1 where "m1 = fold (mesh_drop_sub i) [0..<4] m"
    define subs where "subs = fold (\<lambda>j. upd_nth j (\<lambda>s. s\<lparr>mb_in_use := False\<rparr>)) [0..<4] (mc_subs (mesh_at m i))"
    have d: "mesh_ok m1" "length (ms_clients m1) = length (ms_clients m)" "mc_in_use (mesh_at m1 i)"
      "mc_subs (mesh_at m1 i) = subs"
      using drop_subs_ok [OF ok assms u order_refl] by (simp_all only: m1_def subs_def)
    have "length subs = 4" using n by (simp only: subs_def length_all_off)
    moreover have "\<not> mb_in_use (subs ! j)" if "j < 4" for j
      unfolding subs_def by (rule all_off [OF that]) (simp add: n that)
    ultimately have h: "held (mesh_at m1 i) = {}"
      using d(4) by (auto simp: held_def in_set_conv_nth)
    have "mesh_keeps m1 (upd_mesh i (\<lambda>_. zero_mesh_client\<lparr>mc_fd := -1\<rparr>) (on_broker (plat_close (mc_fd (mesh_at m1 i))) m1))"
      by (rule mesh_keeps_trans [OF keeps_mesh_close_fd], rule keeps_mesh_upd) (simp_all add: h)
    moreover have "mesh_keeps m m1" using d by (simp add: mesh_keeps_def)
    ultimately show ?thesis
      using u p2p n mesh_keeps_trans by (simp add: mesh_client_close_def Let_def m1_def)
  next
    case False
    then have "mesh_ok (mesh_client_close i m)"
      using ok u assms by (auto simp: mesh_client_close_def Let_def mesh_ok_def mesh_adv_ok_def mesh_at_upd)
    then show ?thesis using False by (simp add: mesh_keeps_def mesh_client_close_def Let_def)
  qed
next
  case False
  have "length (ms_clients (fold (mesh_drop_sub i) js m)) = length (ms_clients m)" for js m
    by (induction js arbitrary: m) (simp_all add: mesh_drop_sub_def Let_def)
  then show ?thesis using False by (auto simp: mesh_keeps_def mesh_client_close_def Let_def)
qed

subsection \<open>Delivery\<close>

lemma held_frame [simp]: "held (cl\<lparr>mc_next_packet_id := n\<rparr>) = held cl" "held (cl\<lparr>mc_inflight := xs\<rparr>) = held cl"
  "held (cl\<lparr>mc_qos2_in := qs\<rparr>) = held cl"
  by (simp_all add: held_def)

lemma keeps_inflight_store [simp, intro]: "mesh_keeps m (mesh_inflight_store i pid buf q m)"
  by (auto simp: mesh_inflight_store_def mesh_client_ok_def split: option.split intro!: keeps_mesh_upd)

lemma keeps_mesh_deliver:
  assumes "i < length (ms_clients m)"
  shows "mesh_keeps m (mesh_deliver src i m)"
proof (cases "find_idx (\<lambda>s. mb_in_use s \<and> mqtt_topic_match (mb_filter s) (pub_topic (src m))) (mc_subs (mesh_at m i))")
  case (Some j)
  let ?cl = "mesh_at m i"
  let ?pid = "next_id (mc_next_packet_id ?cl)"
  let ?d = "mesh_copy (src m) (mc_subs ?cl ! j) ?pid"
  define m1 where "m1 = (if pub_qos ?d > 0 then upd_mesh i (\<lambda>cl. cl\<lparr>mc_next_packet_id := ?pid\<rparr>) m else m)"
  have k1: "mesh_keeps m m1" by (auto simp: m1_def mesh_client_ok_def intro: keeps_mesh_upd)
  then have n1: "i < length (ms_clients m1)" using assms by (simp add: mesh_keeps_def)
  have eq: "mesh_deliver src i m = (if \<not> mc_in_use ?cl then m else
      case packet_build_publish ?d (MQTT_MAX_PACKET_SIZE + 8) of None \<Rightarrow> mesh_client_close i m1
      | Some buf \<Rightarrow> (let (ok, m) = mesh_send (mc_fd ?cl) buf m1
                 in if \<not> ok then mesh_client_close i m
                    else if pub_qos ?d > 0 then mesh_inflight_store i (pub_packet_id ?d) buf (pub_qos ?d) m else m))"
    using Some unfolding mesh_deliver_def m1_def Let_def by simp
  show ?thesis
  proof (cases "packet_build_publish ?d (MQTT_MAX_PACKET_SIZE + 8)")
    case None
    then show ?thesis using eq mesh_keeps_trans [OF k1 keeps_mesh_close [OF n1]] by simp
  next
    case (Some buf)
    obtain ok m2 where s: "mesh_send (mc_fd ?cl) buf m1 = (ok, m2)" by force
    then have k2: "mesh_keeps m m2" using keeps_mesh_send [OF s] mesh_keeps_trans [OF k1] by blast
    then have n2: "i < length (ms_clients m2)" using assms by (simp add: mesh_keeps_def)
    show ?thesis
      unfolding eq using Some s k2 mesh_keeps_trans [OF k2 keeps_mesh_close [OF n2]] mesh_keeps_trans [OF k2 keeps_inflight_store]
      by simp
  qed
qed (simp add: mesh_deliver_def Let_def)

lemma keeps_publish_remote: "mesh_keeps m (broker_mesh_ingress_publish_remote src m)"
  unfolding broker_mesh_ingress_publish_remote_def
  by (rule mesh_keeps_fold [OF _ refl]) (simp add: keeps_mesh_deliver)

lemma keeps_mesh_p2p_publish [simp, intro]: "mesh_keeps m (mesh_p2p (P2PPublish p) m)"
  using adv_same [OF _ same_subs_publish] by (simp add: mesh_keeps_def mesh_ok_def)

lemma keeps_from_ingress: "mesh_keeps m (mesh_publish_from_ingress src m)"
proof -
  have "mesh_keeps m' (on_broker broker_notify_activity m')" for m'
    by (intro keeps_broker_part same_subs_broker) (simp_all add: broker_notify_activity_def)
  then show ?thesis
    unfolding mesh_publish_from_ingress_def
    using mesh_keeps_trans keeps_publish_remote keeps_mesh_p2p_publish by blast
qed

subsection \<open>Operations\<close>

lemma subs_put:
  assumes "j < length xs" and "mb_in_use (g (xs ! j))" and "mb_in_use (xs ! j) \<Longrightarrow> mb_filter (xs ! j) = mb_filter (g (xs ! j))"
  shows "mb_filter ` {s \<in> set (upd_nth j g xs). mb_in_use s} =
    insert (mb_filter (g (xs ! j))) (mb_filter ` {s \<in> set xs. mb_in_use s})"
proof -
  have "xs = take j xs @ xs ! j # drop (Suc j) xs" using assms(1) by (rule id_take_nth_drop)
  then obtain as bs where xs: "xs = as @ xs ! j # bs" "upd_nth j g xs = as @ g (xs ! j) # bs"
    using assms(1) by (metis upd_nth_def upd_conv_take_nth_drop)
  have "set xs = insert (xs ! j) (set as \<union> set bs)" by (subst xs(1)) auto
  then show ?thesis using xs(2) assms(2,3) by auto
qed

lemma subs_off:
  "{s \<in> set (map (\<lambda>s. if mb_in_use s \<and> mb_filter s = f then s\<lparr>mb_in_use := False\<rparr> else s) xs). mb_in_use s} =
    {s \<in> set xs. mb_in_use s \<and> mb_filter s \<noteq> f}" (is "{s \<in> set (map ?off xs). mb_in_use s} = _")
proof -
  define off where "off = ?off"
  have u: "mb_in_use (off s) \<longleftrightarrow> mb_in_use s \<and> mb_filter s \<noteq> f" for s by (auto simp: off_def)
  have "off s = s" if "mb_in_use s" "mb_filter s \<noteq> f" for s using that by (simp add: off_def)
  then have "{s \<in> off ` set xs. mb_in_use s} = {s \<in> set xs. mb_in_use s \<and> mb_filter s \<noteq> f}"
    using u by (metis (mono_tags, opaque_lifting) imageE image_eqI)
  then show ?thesis by (simp add: off_def)
qed

lemma keeps_mesh_subscribe:
  assumes "i < length (ms_clients m)" and "mc_in_use (mesh_at m i)" and "filter_ok f"
  shows "mesh_keeps m (snd (mesh_client_subscribe i f q m))"
proof (cases "mesh_ok m \<and> f \<noteq> []")
  case True
  let ?cl = "mesh_at m i"
  let ?subs = "mc_subs ?cl"
  have ok: "mesh_client_ok ?cl" and adv: "mesh_adv_ok m" and f: "f \<noteq> []" "strncpy_str MQTT_TOPIC_MAX f = f"
    using True assms(1,3) by (simp_all add: mesh_ok_def filter_ok_def)
  have u: "keys_unique mb_in_use mb_filter ?subs" using ok by (simp add: mesh_client_ok_def)
  have put: "mesh_keeps m (mesh_p2p (P2PSubscribe f q) (upd_mesh i (\<lambda>cl. cl\<lparr>mc_subs := upd_nth j g (mc_subs cl)\<rparr>) m))"
    if j: "j < length ?subs" and g: "mb_in_use (g (?subs ! j))" "mb_filter (g (?subs ! j)) = f"
      and old: "mb_in_use (?subs ! j) \<Longrightarrow> mb_filter (?subs ! j) = f"
      and uq: "keys_unique mb_in_use mb_filter (upd_nth j g ?subs)" for j g
  proof -
    let ?g = "\<lambda>cl. cl\<lparr>mc_subs := upd_nth j g (mc_subs cl)\<rparr>"
    have "held (?g ?cl) = insert f (held ?cl)"
      using subs_put [OF j, of g] g old assms(2) by (simp add: held_def)
    then have "mesh_adv_ok (mesh_p2p (P2PSubscribe f q) (upd_mesh i ?g m))"
      by (intro adv_subscribed adv assms(1) f(1))
    moreover have "mesh_client_ok (?g ?cl)"
      using ok uq g f(1) assms(3) by (auto simp: mesh_client_ok_def dest!: set_upd_nth)
    ultimately show ?thesis using True assms(1) by (simp add: mesh_keeps_def mesh_ok_def mesh_at_upd)
  qed
  show ?thesis
  proof (cases "slot_of mb_in_use mb_filter f ?subs")
    case (Some j)
    then have j: "j < length ?subs" "mb_in_use (?subs ! j)" "mb_filter (?subs ! j) = f"
      by (auto simp: slot_of_def dest: find_idx_SomeD)
    have "keys_unique mb_in_use mb_filter (upd_nth j (\<lambda>s. s\<lparr>mb_qos := q\<rparr>) ?subs)"
      using u by (auto simp: keys_unique_def nth_upd_nth)
    then show ?thesis
      using put [OF j(1), of "\<lambda>s. s\<lparr>mb_qos := q\<rparr>"] Some f(1) j by (simp add: mesh_client_subscribe_def Let_def)
  next
    case None
    show ?thesis
    proof (cases "free_slot mb_in_use ?subs")
      case (Some j)
      let ?e = "\<lparr>mb_filter = f, mb_qos = q, mb_in_use = True\<rparr>"
      have j: "j < length ?subs" "\<not> mb_in_use (?subs ! j)"
        using Some by (auto simp: free_slot_def dest: find_idx_SomeD)
      have "keys_unique mb_in_use mb_filter (upd_nth j (\<lambda>_. ?e) ?subs)"
        using mbs.unique_store [OF u, of ?e j] None by simp
      then show ?thesis
        using put [OF j(1), of "\<lambda>_. ?e"] Some None f j(2) by (simp add: mesh_client_subscribe_def Let_def)
    qed (use None f in \<open>simp add: mesh_client_subscribe_def Let_def\<close>)
  qed
next
  case False
  have "length (ms_clients (snd (mesh_client_subscribe i f q m))) = length (ms_clients m)"
    by (auto simp: mesh_client_subscribe_def Let_def split: option.split)
  then show ?thesis using False by (cases "f = []") (auto simp: mesh_keeps_def mesh_client_subscribe_def)
qed

lemma keeps_mesh_unsubscribe:
  assumes "i < length (ms_clients m)" and "mc_in_use (mesh_at m i)"
  shows "mesh_keeps m (snd (mesh_client_unsubscribe i f m))"
proof (cases "mesh_ok m \<and> f \<noteq> []")
  case True
  let ?cl = "mesh_at m i"
  let ?off = "\<lambda>s. if mb_in_use s \<and> mb_filter s = f then s\<lparr>mb_in_use := False\<rparr> else s"
  let ?g = "\<lambda>cl. cl\<lparr>mc_subs := map ?off (mc_subs cl)\<rparr>"
  have ok: "mesh_client_ok ?cl" and adv: "mesh_adv_ok m" using True assms(1) by (simp_all add: mesh_ok_def)
  have cok: "mesh_client_ok (?g ?cl)"
    using ok by (auto simp: mesh_client_ok_def keys_unique_def split: if_splits)
  have h: "held (?g ?cl) = held ?cl - {f}"
    using subs_off [of f "mc_subs ?cl"] by (auto simp: held_def simp del: set_map)
  show ?thesis
  proof (cases "f \<in> held ?cl")
    case in_use: True
    then have "\<exists>s \<in> set (mc_subs ?cl). mb_in_use s \<and> mb_filter s = f" by (auto simp: held_def split: if_splits)
    then have eq: "snd (mesh_client_unsubscribe i f m) = (if mesh_filter_can_withdraw f (upd_mesh i ?g m)
        then mesh_p2p (P2PUnsubscribe f) (upd_mesh i ?g m) else upd_mesh i ?g m)"
      using True by (auto simp: mesh_client_unsubscribe_def Let_def)
    have "mesh_adv_ok (snd (mesh_client_unsubscribe i f m))"
      unfolding eq using True in_use h by (intro adv_withdrawn adv assms(1)) auto
    then show ?thesis
      using True cok assms(1) unfolding eq by (simp add: mesh_keeps_def mesh_ok_def mesh_at_upd)
  next
    case False
    then have "\<not> (\<exists>s \<in> set (mc_subs ?cl). mb_in_use s \<and> mb_filter s = f)" using assms(2) by (auto simp: held_def)
    then have "snd (mesh_client_unsubscribe i f m) = upd_mesh i ?g m"
      using True by (simp add: mesh_client_unsubscribe_def Let_def) blast
    moreover have "mesh_keeps m (upd_mesh i ?g m)" using h False cok by (intro keeps_mesh_upd) auto
    ultimately show ?thesis by simp
  qed
next
  case False
  have "length (ms_clients (snd (mesh_client_unsubscribe i f m))) = length (ms_clients m)"
    by (auto simp: mesh_client_unsubscribe_def Let_def)
  then show ?thesis using False by (cases "f = []") (auto simp: mesh_keeps_def mesh_client_unsubscribe_def)
qed

lemma keeps_mesh_ack [simp, intro]: "mesh_keeps m (mesh_inflight_ack i pid m)"
  by (auto simp: mesh_inflight_ack_def mesh_client_ok_def split: option.split intro!: keeps_mesh_upd)

lemma keeps_mesh_pubrec [simp, intro]: "mesh_keeps m (mesh_inflight_pubrec i pid m)"
proof -
  have "mesh_keeps m (if ok then upd_mesh i (\<lambda>cl. cl\<lparr>mc_inflight := upd_nth j g (mc_inflight cl)\<rparr>) m' else m')"
    if "mesh_send fd buf m = (ok, m')" for fd buf ok m' j g
    using keeps_mesh_send [OF that] by (auto intro!: mesh_keeps_trans [OF _ keeps_mesh_upd] simp: mesh_client_ok_def)
  then show ?thesis by (auto simp: mesh_inflight_pubrec_def Let_def split: option.split prod.split)
qed

lemma keeps_mesh_retry_loop:
  "i < length (ms_clients m) \<Longrightarrow> mesh_keeps m (mesh_retry_loop i now js m)"
proof (induction js arbitrary: m)
  case (Cons j js)
  let ?e = "mc_inflight (mesh_at m i) ! j"
  show ?case
  proof (cases "\<not> if_in_use ?e \<or> now - if_sent_at_ms ?e < 5000")
    case True
    then show ?thesis using Cons.IH [OF Cons.prems] by (simp add: Let_def)
  next
    case False
    define e where "e = (if if_qos ?e = 2 \<and> if_waiting_pubcomp ?e then ?e else ?e\<lparr>if_buf := set_dup (if_buf ?e)\<rparr>)\<lparr>if_sent_at_ms := now\<rparr>"
    define m1 where "m1 = upd_mesh i (\<lambda>cl. cl\<lparr>mc_inflight := upd_nth j (\<lambda>_. e) (mc_inflight cl)\<rparr>) m"
    obtain ok m2 where s: "mesh_send (mc_fd (mesh_at m1 i)) (if_buf e) m1 = (ok, m2)" by force
    have "mesh_keeps m m1" unfolding m1_def by (rule keeps_mesh_upd) (simp_all add: mesh_client_ok_def)
    then have k: "mesh_keeps m m2" using keeps_mesh_send [OF s] mesh_keeps_trans by blast
    then have n: "i < length (ms_clients m2)" using Cons.prems by (simp add: mesh_keeps_def)
    have "mesh_retry_loop i now (j # js) m = (if ok then mesh_retry_loop i now js m2 else mesh_client_close i m2)"
      using False s by (simp add: Let_def e_def [symmetric] m1_def [symmetric])
    then show ?thesis using mesh_keeps_trans [OF k Cons.IH [OF n]] mesh_keeps_trans [OF k keeps_mesh_close [OF n]] by simp
  qed
qed simp

lemma keeps_mesh_retry_all: "mesh_keeps m (mesh_ingress_retry_all m)"
  unfolding mesh_ingress_retry_all_def
  by (rule mesh_keeps_fold [OF _ refl]) (simp add: mesh_inflight_retry_def keeps_mesh_retry_loop)

subsection \<open>Handlers\<close>

lemma keeps_upd_qos2:
  assumes "\<And>qs. keys_unique mq_in_use mq_packet_id qs \<Longrightarrow> qs = mc_qos2_in (mesh_at m i) \<Longrightarrow>
    keys_unique mq_in_use mq_packet_id (upd_nth j g qs)"
  shows "mesh_keeps m (upd_qos2 i j g m)"
  unfolding upd_qos2_def by (rule keeps_mesh_upd) (use assms in \<open>simp_all add: mesh_client_ok_def\<close>)

lemma keeps_mesh_publish_handler:
  assumes "i < length (ms_clients m)"
  shows "mesh_keeps m (mesh_handle_publish stack_pub i pkt m)"
proof (cases "packet_parse_publish pkt stack_pub")
  case (Some pub)
  show ?thesis
  proof (cases "pub_qos pub = 2")
    case False
    then show ?thesis
      using Some mesh_keeps_trans [OF keeps_from_ingress keeps_mesh_reply] keeps_from_ingress
      by (simp add: mesh_handle_publish_def Let_def)
  next
    case True
    have "mesh_keeps m (upd_qos2 i j (\<lambda>_. \<lparr>mq_packet_id = pub_packet_id pub, mq_pub = pub, mq_in_use = True, mq_published = False\<rparr>) m)"
      if "mesh_qos2_find (pub_packet_id pub) (mesh_at m i) = None" for j
      using that mqs.unique_store [where e = "\<lparr>mq_packet_id = pub_packet_id pub, mq_pub = pub, mq_in_use = True, mq_published = False\<rparr>"]
      by (intro keeps_upd_qos2) (simp add: mesh_qos2_find_def)
    then show ?thesis
      using Some True keeps_mesh_close [OF assms] mesh_keeps_trans [OF _ keeps_mesh_reply]
      by (simp add: mesh_handle_publish_def split: option.split)
  qed
qed (simp add: mesh_handle_publish_def)

lemma keeps_mesh_subscribe_handler:
  assumes "i < length (ms_clients m)" and "mc_in_use (mesh_at m i)"
  shows "mesh_keeps m (mesh_handle_subscribe i pkt m)"
proof -
  obtain pid r where p: "packet_parse_subscribe pkt 1 = (pid, r)" by force
  obtain granted m1 where g: "(case r of Some ((f, q) # _) \<Rightarrow>
      (case mesh_client_subscribe i f q m of (ok, m) \<Rightarrow> (if ok then q AND 3 else 0x80, m)) | _ \<Rightarrow> (0x80, m)) = (granted, m1)" by force
  have "mesh_keeps m m1"
  proof (cases "\<exists>f q fs. r = Some ((f, q) # fs)")
    case True
    then obtain f q fs where r: "r = Some ((f, q) # fs)" by blast
    then have "filter_ok f" using parse_subscribe_ok [OF p [unfolded r]] by simp
    from keeps_mesh_subscribe [OF assms this, of q] show ?thesis using g r by (auto split: prod.splits)
  next
    case False
    then have "m1 = m" using g by (auto split: option.splits list.splits)
    then show ?thesis by simp
  qed
  then have "mesh_keeps m (mesh_reply i (packet_build_suback pid [granted] 712) m1)"
    using mesh_keeps_trans [OF _ keeps_mesh_reply] by blast
  then show ?thesis using p g by (simp add: mesh_handle_subscribe_def)
qed

lemma keeps_mesh_unsubscribe_handler:
  assumes "i < length (ms_clients m)" and "mc_in_use (mesh_at m i)"
  shows "mesh_keeps m (mesh_handle_unsubscribe i pkt m)"
  using mesh_keeps_trans [OF keeps_mesh_unsubscribe [OF assms] keeps_mesh_reply]
  by (auto simp: mesh_handle_unsubscribe_def split: prod.split option.split list.split)

lemma keeps_mesh_pubrel_handler: "mesh_keeps m (mesh_handle_pubrel i pkt m)"
proof -
  have pub: "mesh_keeps m (upd_qos2 i j (\<lambda>q. q\<lparr>mq_published := True\<rparr>) (mesh_publish_from_ingress src m))" for j src
    by (rule mesh_keeps_trans [OF keeps_from_ingress], rule keeps_upd_qos2) (auto simp: keys_unique_def nth_upd_nth)
  have free: "mesh_keeps m' (upd_qos2 i j (\<lambda>q. q\<lparr>mq_in_use := False\<rparr>) m')" for j m'
    by (rule keeps_upd_qos2) (rule mqs.unique_release)
  have "mesh_keeps m (case mesh_qos2_find pid (mesh_at m i) of None \<Rightarrow> m
      | Some j \<Rightarrow> (let m = (if \<not> mq_published (mc_qos2_in (mesh_at m i) ! j)
                 then upd_qos2 i j (\<lambda>q. q\<lparr>mq_published := True\<rparr>)
                        (mesh_publish_from_ingress (\<lambda>m. mq_pub (mc_qos2_in (mesh_at m i) ! j)) m) else m)
          in upd_qos2 i j (\<lambda>q. q\<lparr>mq_in_use := False\<rparr>) m))" for pid
    using pub free mesh_keeps_trans by (auto simp: Let_def split: option.split) blast+
  then show ?thesis unfolding mesh_handle_pubrel_def Let_def using mesh_keeps_trans [OF _ keeps_mesh_reply] by blast
qed

lemma keeps_handle_client:
  assumes "i < length (ms_clients m)"
  shows "mesh_keeps m (mesh_ingress_handle_client stack_pub i m)"
proof (cases "mc_in_use (mesh_at m i)")
  case True
  obtain r s where rs: "recv_mqtt_packet (bk_socks (ms_broker m) (mc_fd (mesh_at m i))) = (r, s)" by force
  let ?m = "on_broker (upd_sock (mc_fd (mesh_at m i)) (\<lambda>_. s)) m"
  have n: "i < length (ms_clients ?m)" and u: "mc_in_use (mesh_at ?m i)" using assms True by simp_all
  have k: "mesh_keeps m ?m" by (rule keeps_sock)
  note [simp] = keeps_mesh_close [OF n] keeps_mesh_publish_handler [OF n] keeps_mesh_subscribe_handler [OF n u]
    keeps_mesh_unsubscribe_handler [OF n u] keeps_mesh_pubrel_handler
  have "mesh_keeps ?m (mesh_ingress_handle_client stack_pub i m)"
    using True rs by (simp add: mesh_ingress_handle_client_def mesh_recv_def Let_def split: option.split)
  then show ?thesis using mesh_keeps_trans [OF k] by blast
qed (simp add: mesh_ingress_handle_client_def)

lemma keeps_reject: "mesh_keeps m (on_broker (reject_server_unavailable fd) m)"
proof -
  have "bk_subs (snd (broker_send_all fd buf b)) = bk_subs b \<and> bk_p2p (snd (broker_send_all fd buf b)) = bk_p2p b \<and>
    bk_cfg_p2p (snd (broker_send_all fd buf b)) = bk_cfg_p2p b" for buf b
    by (simp add: broker_send_all_def upd_sock_def split: prod.split)
  then show ?thesis
    by (intro keeps_broker_part same_subs_broker) (auto simp: reject_server_unavailable_def Let_def split: option.split)
qed

lemma keeps_broker_accept: "mesh_keeps m (on_broker (broker_accept_one spawn_ok limit fd) m)"
proof -
  let ?same = "\<lambda>b b'. bk_subs b' = bk_subs b \<and> bk_p2p b' = bk_p2p b \<and> bk_cfg_p2p b' = bk_cfg_p2p b"
  have a: "?same b (snd (client_alloc spawn_ok fd b))" for b
    by (auto simp: client_alloc_def upd_thread_def split: option.split)
  have r: "?same b (reject_server_unavailable fd b)" for b
    by (auto simp: reject_server_unavailable_def broker_send_all_def upd_sock_def plat_close_def Let_def
        split: option.split prod.split)
  have "?same b (broker_accept_one spawn_ok limit fd b)" for b
    using a [of b] r [of b] r [of "snd (client_alloc spawn_ok fd b)"]
    by (auto simp: broker_accept_one_def split: prod.split option.split)
  then show ?thesis by (intro keeps_broker_part same_subs_broker) auto
qed

lemma keeps_mesh_alloc:
  assumes "0 \<le> fd" and "mesh_client_alloc fd m = (r, m')"
  shows "mesh_keeps m m'"
proof (cases "find_idx (\<lambda>cl. \<not> mc_in_use cl) (ms_clients m)")
  case None
  then show ?thesis using assms(2) by (simp add: mesh_client_alloc_def)
next
  case (Some i)
  then have "held (mesh_at m i) = {}" by (auto simp: held_def mesh_at_def dest: find_idx_SomeD)
  then show ?thesis
    using Some assms by (auto simp: mesh_client_alloc_def intro!: keeps_mesh_upd)
qed

lemma keeps_mesh_accept: "mesh_keeps m (mesh_ingress_accept_one fd m)"
proof (cases "fd < 0")
  case False
  let ?m = "on_broker (upd_sock fd (\<lambda>s. s\<lparr>so_timeout := 10\<rparr>)) m"
  obtain r m1 where r: "mesh_recv fd ?m = (r, m1)" by force
  have k1: "mesh_keeps m m1"
    using r mesh_keeps_trans [OF keeps_sock keeps_sock] by (auto simp: mesh_recv_def split: prod.splits)
  note c1 = mesh_keeps_trans [OF k1 keeps_mesh_close_fd]
  have "mesh_keeps m (let (ok, m) = mesh_send fd ack m1
      in if \<not> ok then on_broker (plat_close fd) m
         else case mesh_client_alloc fd m of (Some i, m) \<Rightarrow> m
           | (None, m) \<Rightarrow> on_broker (reject_server_unavailable fd) m)" for ack
  proof -
    obtain ok m2 where s: "mesh_send fd ack m1 = (ok, m2)" by force
    have k2: "mesh_keeps m m2" using keeps_mesh_send [OF s] mesh_keeps_trans [OF k1] by blast
    obtain r m3 where al: "mesh_client_alloc fd m2 = (r, m3)" by force
    have k3: "mesh_keeps m m3" using keeps_mesh_alloc [OF _ al] False mesh_keeps_trans [OF k2] by simp
    show ?thesis
      using s al k3 mesh_keeps_trans [OF k2 keeps_mesh_close_fd] mesh_keeps_trans [OF k3 keeps_reject]
      by (simp split: option.split)
  qed
  then show ?thesis
    using False r c1 by (simp add: mesh_ingress_accept_one_def Let_def split: option.split)
qed (simp add: mesh_ingress_accept_one_def)

lemma keeps_run_turn: "mesh_keeps m (broker_run_turn stack_pub spawn_ok poll m)"
proof (cases poll)
  case (Some p)
  have 1: "mesh_keeps m (case pr_main p of None \<Rightarrow> m | Some fd \<Rightarrow> on_broker (broker_accept_one spawn_ok (ms_admission_limit m) fd) m)" for m
    using keeps_broker_accept by (simp split: option.split)
  have 2: "mesh_keeps m (case pr_mesh p of None \<Rightarrow> m | Some fd \<Rightarrow> mesh_ingress_accept_one fd m)" for m
    using keeps_mesh_accept by (simp split: option.split)
  have "mesh_keeps m (mesh_ingress_handle_ready_fd stack_pub fd m)" for fd m
    using keeps_handle_client by (auto simp: mesh_ingress_handle_ready_fd_def dest: find_idx_SomeD split: option.split)
  then have 3: "mesh_keeps m (fold (\<lambda>fd m. if fd \<in> set (pr_ready p) then mesh_ingress_handle_ready_fd stack_pub fd m else m) fds m)" for fds m
    by (intro mesh_keeps_fold [OF _ refl]) simp
  show ?thesis
    unfolding broker_run_turn_def Let_def Some option.case
    by (rule mesh_keeps_trans [OF mesh_keeps_trans [OF mesh_keeps_trans [OF 1 2] 3] keeps_mesh_retry_all])
qed (simp add: broker_run_turn_def)

end
