(* ===== verification/Mesh_Properties.thy ===== *)
theory Mesh_Properties
  imports Mesh_Correct
begin

text \<open>
  What the clients of the mesh ingress can rely on: the peer network knows their filters, each
  receives a message once, QoS 2 messages are published once; the admission limit of the main
  listener; and two ways in which the two kinds of clients get in each other's way.
\<close>

subsection \<open>What an operation changes\<close>

text \<open>The messages handed to the peer network so far.\<close>

definition published :: "mesh \<Rightarrow> mqtt_publish list" where
  "published m = concat (map (\<lambda>e. case e of P2PPublish p \<Rightarrow> [p] | _ \<Rightarrow> []) (bk_p2p (ms_broker m)))"

text \<open>A step that publishes nothing, sends nothing, and touches no other client than \<open>i\<close>.\<close>

definition local_to :: "nat \<Rightarrow> mesh \<Rightarrow> mesh \<Rightarrow> bool" where
  "local_to i m m' \<longleftrightarrow> published m' = published m \<and> length (ms_clients m') = length (ms_clients m) \<and>
     (\<forall>k. k \<noteq> i \<longrightarrow> mesh_at m' k = mesh_at m k) \<and>
     (\<forall>fd. so_sent (bk_socks (ms_broker m') fd) = so_sent (bk_socks (ms_broker m) fd)) \<and>
     (\<forall>fd. so_tx (bk_socks (ms_broker m') fd) = so_tx (bk_socks (ms_broker m) fd)) \<and>
     bk_cfg_p2p (ms_broker m') = bk_cfg_p2p (ms_broker m)"

lemma local_to_refl [simp]: "local_to i m m"
  by (simp add: local_to_def)

lemma local_to_trans: "local_to i m m' \<Longrightarrow> local_to i m' m'' \<Longrightarrow> local_to i m m''"
  by (simp add: local_to_def)

lemma local_to_fold: "(\<And>x m. local_to i m (f x m)) \<Longrightarrow> local_to i m (fold f xs m)"
  by (induction xs arbitrary: m) (auto intro: local_to_trans)

lemma local_upd [simp]: "local_to i m (upd_mesh i g m)"
  by (simp add: local_to_def published_def)

lemma local_close_fd [simp]: "local_to i m (on_broker (plat_close fd) m)"
  by (simp add: local_to_def published_def plat_close_def upd_sock_def)

lemma local_withdraw [simp]: "local_to i m (mesh_p2p (P2PUnsubscribe f) m)"
  by (simp add: local_to_def published_def) (simp add: mesh_p2p_def p2p_emit_def)

lemma local_drop: "local_to i m (mesh_drop_sub i j m)"
  using local_to_trans [OF local_upd local_withdraw] by (simp add: mesh_drop_sub_def Let_def)

lemma local_drops: "local_to i m (fold (mesh_drop_sub i) js m)"
  by (rule local_to_fold) (rule local_drop)

lemma local_close: "local_to i m (mesh_client_close i m)"
proof -
  define m1 where "m1 = (if bk_cfg_p2p (ms_broker m) then fold (mesh_drop_sub i) [0..<length (mc_subs (mesh_at m i))] m else m)"
  have l1: "local_to i m m1" by (simp add: m1_def local_drops)
  have "local_to i m1 (upd_mesh i (\<lambda>_. zero_mesh_client\<lparr>mc_fd := -1\<rparr>) (on_broker (plat_close fd) m1))" for fd
    by (rule local_to_trans [OF local_close_fd local_upd])
  then have "local_to i m (upd_mesh i (\<lambda>_. zero_mesh_client\<lparr>mc_fd := -1\<rparr>) (on_broker (plat_close fd) m1))" for fd
    by (rule local_to_trans [OF l1])
  then show ?thesis by (simp add: mesh_client_close_def Let_def m1_def [symmetric])
qed

lemma closed_client:
  assumes "i < length (ms_clients m)"
  shows "mesh_at (mesh_client_close i m) i = (if mc_in_use (mesh_at m i) then zero_mesh_client\<lparr>mc_fd := -1\<rparr> else mesh_at m i)"
proof -
  have "length (ms_clients (fold (mesh_drop_sub i) js m)) = length (ms_clients m)" for js
    using local_drops [of i m js] by (simp add: local_to_def)
  then show ?thesis using assms by (simp add: mesh_client_close_def Let_def)
qed

lemma published_reply [simp]: "published (mesh_reply i r m) = published m"
  by (simp add: published_def mesh_reply_def mesh_send_def broker_send_all_def upd_sock_def split: option.split prod.split)

lemma clients_reply [simp]: "ms_clients (mesh_reply i r m) = ms_clients m" "mesh_at (mesh_reply i r m) k = mesh_at m k"
  by (simp_all add: mesh_at_def mesh_reply_def mesh_send_def split: option.split prod.split)

lemma published_send: "mesh_send fd buf m = (ok, m') \<Longrightarrow> published m' = published m \<and> ms_clients m' = ms_clients m \<and>
    bk_cfg_p2p (ms_broker m') = bk_cfg_p2p (ms_broker m) \<and> (\<forall>fd'. fd' \<noteq> fd \<longrightarrow> bk_socks (ms_broker m') fd' = bk_socks (ms_broker m) fd')"
  by (auto simp: mesh_send_def broker_send_all_def published_def upd_sock_def split: prod.splits if_splits)

text \<open>
  A delivery to client \<open>i\<close>: nobody else is touched, nothing goes to another socket than \<open>fd\<close>, and
  the QoS 2 table of the client is at most cleared.
\<close>

definition touches :: "nat \<Rightarrow> int \<Rightarrow> mesh \<Rightarrow> mesh \<Rightarrow> bool" where
  "touches i fd m m' \<longleftrightarrow> published m' = published m \<and> length (ms_clients m') = length (ms_clients m) \<and>
     (\<forall>k. k \<noteq> i \<longrightarrow> mesh_at m' k = mesh_at m k) \<and> bk_cfg_p2p (ms_broker m') = bk_cfg_p2p (ms_broker m) \<and>
     (mc_qos2_in (mesh_at m' i) = mc_qos2_in (mesh_at m i) \<or> mc_qos2_in (mesh_at m' i) = mc_qos2_in zero_mesh_client) \<and>
     (\<forall>fd'. fd' \<noteq> fd \<longrightarrow> so_sent (bk_socks (ms_broker m') fd') = so_sent (bk_socks (ms_broker m) fd') \<and>
        so_tx (bk_socks (ms_broker m') fd') = so_tx (bk_socks (ms_broker m) fd'))"

lemma touches_refl [simp]: "touches i fd m m"
  by (simp add: touches_def)

lemma touches_trans: "touches i fd m m' \<Longrightarrow> touches i fd m' m'' \<Longrightarrow> touches i fd m m''"
  by (auto simp: touches_def)

lemma touches_upd: "mc_qos2_in (g (mesh_at m i)) = mc_qos2_in (mesh_at m i) \<Longrightarrow> i < length (ms_clients m) \<Longrightarrow>
    touches i fd m (upd_mesh i g m)"
  by (simp add: touches_def published_def)

lemma touches_close: "i < length (ms_clients m) \<Longrightarrow> touches i fd m (mesh_client_close i m)"
  using local_close [of i m] closed_client [of i m] by (auto simp: touches_def local_to_def)

lemma touches_send: "mesh_send fd buf m = (ok, m') \<Longrightarrow> touches i fd m m'"
  using published_send [of fd buf m ok m'] by (auto simp: touches_def mesh_at_def)

lemma touches_store: "i < length (ms_clients m) \<Longrightarrow> touches i fd m (mesh_inflight_store i pid buf q m)"
  by (auto simp: mesh_inflight_store_def split: option.split intro!: touches_upd)

lemma deliver_touches:
  assumes "i < length (ms_clients m)"
  shows "touches i (mc_fd (mesh_at m i)) m (mesh_deliver src i m)"
proof (cases "find_idx (\<lambda>s. mb_in_use s \<and> mqtt_topic_match (mb_filter s) (pub_topic (src m))) (mc_subs (mesh_at m i))")
  case (Some j)
  let ?cl = "mesh_at m i"
  let ?fd = "mc_fd ?cl" and ?pid = "next_id (mc_next_packet_id ?cl)"
  let ?d = "mesh_copy (src m) (mc_subs ?cl ! j) ?pid"
  define m1 where "m1 = (if pub_qos ?d > 0 then upd_mesh i (\<lambda>cl. cl\<lparr>mc_next_packet_id := ?pid\<rparr>) m else m)"
  have t1: "touches i ?fd m m1" using assms by (auto simp: m1_def intro: touches_upd)
  have n1: "i < length (ms_clients m1)" using assms by (simp add: m1_def)
  show ?thesis
  proof (cases "packet_build_publish ?d (MQTT_MAX_PACKET_SIZE + 8)")
    case None
    then have "mesh_deliver src i m = (if mc_in_use ?cl then mesh_client_close i m1 else m)"
      using Some unfolding mesh_deliver_def m1_def Let_def by simp
    then show ?thesis using touches_trans [OF t1 touches_close [OF n1]] by simp
  next
    case buf: (Some buf)
    obtain ok m2 where s: "mesh_send ?fd buf m1 = (ok, m2)" by force
    have t2: "touches i ?fd m m2" by (rule touches_trans [OF t1 touches_send [OF s]])
    then have n2: "i < length (ms_clients m2)" using assms by (simp add: touches_def)
    have "mesh_deliver src i m = (if \<not> mc_in_use ?cl then m else if \<not> ok then mesh_client_close i m2
        else if pub_qos ?d > 0 then mesh_inflight_store i (pub_packet_id ?d) buf (pub_qos ?d) m2 else m2)"
      using Some buf s unfolding mesh_deliver_def m1_def Let_def by simp
    then show ?thesis
      using t2 touches_trans [OF t2 touches_close [OF n2]] touches_trans [OF t2 touches_store [OF n2]] by simp
  qed
qed (simp add: mesh_deliver_def Let_def)

text \<open>A whole delivery.\<close>

lemma remote_frame:
  "published (broker_mesh_ingress_publish_remote src m) = published m \<and>
   bk_cfg_p2p (ms_broker (broker_mesh_ingress_publish_remote src m)) = bk_cfg_p2p (ms_broker m) \<and>
   length (ms_clients (broker_mesh_ingress_publish_remote src m)) = length (ms_clients m) \<and>
   (mc_qos2_in (mesh_at (broker_mesh_ingress_publish_remote src m) i) = mc_qos2_in (mesh_at m i) \<or>
    mc_qos2_in (mesh_at (broker_mesh_ingress_publish_remote src m) i) = mc_qos2_in zero_mesh_client)"
proof -
  let ?ok = "\<lambda>m m'. published m' = published m \<and> bk_cfg_p2p (ms_broker m') = bk_cfg_p2p (ms_broker m) \<and>
    length (ms_clients m') = length (ms_clients m) \<and>
    (mc_qos2_in (mesh_at m' i) = mc_qos2_in (mesh_at m i) \<or> mc_qos2_in (mesh_at m' i) = mc_qos2_in zero_mesh_client)"
  have "?ok m (fold (mesh_deliver src) ks m)" if "\<forall>k \<in> set ks. k < length (ms_clients m)" for ks
    using that
  proof (induction ks arbitrary: m)
    case (Cons k ks)
    have t: "touches k (mc_fd (mesh_at m k)) m (mesh_deliver src k m)" using Cons.prems by (simp add: deliver_touches)
    then have "?ok m (mesh_deliver src k m)" by (cases "k = i") (auto simp: touches_def)
    moreover have "?ok (mesh_deliver src k m) (fold (mesh_deliver src) ks (mesh_deliver src k m))"
      using Cons.prems t by (intro Cons.IH) (simp add: touches_def)
    ultimately show ?case by auto
  qed simp
  then show ?thesis by (simp add: broker_mesh_ingress_publish_remote_def)
qed

subsection \<open>QoS 2\<close>

lemma published_from_ingress:
  "published (mesh_publish_from_ingress src m) = published m @ (if bk_cfg_p2p (ms_broker m) then [src m] else [])"
proof -
  have "published (on_broker broker_notify_activity m') = published m'" for m'
    by (simp add: published_def broker_notify_activity_def)
  moreover have "published (mesh_p2p (P2PPublish p) m) = published m @ (if bk_cfg_p2p (ms_broker m) then [p] else [])" for p
    by (simp add: published_def mesh_p2p_def p2p_emit_def)
  ultimately show ?thesis
    using remote_frame [of src "mesh_p2p (P2PPublish (src m)) m"] by (simp add: mesh_publish_from_ingress_def)
qed

lemma qos2_from_ingress:
  "mc_qos2_in (mesh_at (mesh_publish_from_ingress src m) i) = mc_qos2_in (mesh_at m i) \<or>
   mc_qos2_in (mesh_at (mesh_publish_from_ingress src m) i) = mc_qos2_in zero_mesh_client"
  and clients_from_ingress: "length (ms_clients (mesh_publish_from_ingress src m)) = length (ms_clients m)"
  using remote_frame [of src "mesh_p2p (P2PPublish (src m)) m" i] by (auto simp: mesh_publish_from_ingress_def)

text \<open>The message waiting for its PUBREL under a packet id.\<close>

definition unreleased :: "nat \<Rightarrow> u16 \<Rightarrow> mesh \<Rightarrow> mqtt_publish option" where
  "unreleased i pid m =
     (case mesh_qos2_find pid (mesh_at m i) of
        None \<Rightarrow> None
      | Some j \<Rightarrow> if mq_published (mc_qos2_in (mesh_at m i) ! j) then None
                  else Some (mq_pub (mc_qos2_in (mesh_at m i) ! j)))"

lemma unreleased_same: "mesh_at m' i = mesh_at m i \<Longrightarrow> unreleased i pid m' = unreleased i pid m"
  unfolding unreleased_def by presburger

text \<open>A QoS 2 PUBLISH with this packet id.\<close>

definition mesh_qos2_packet :: "u16 \<Rightarrow> mqtt_publish \<times> mqtt_packet \<Rightarrow> bool" where
  "mesh_qos2_packet pid sp =
     (case packet_parse_publish (snd sp) (fst sp) of None \<Rightarrow> False | Some p \<Rightarrow> pub_qos p = 2 \<and> pub_packet_id p = pid)"

lemma reply_cfg [simp]: "bk_cfg_p2p (ms_broker (mesh_reply i r m)) = bk_cfg_p2p (ms_broker m)"
  by (simp add: mesh_reply_def mesh_send_def broker_send_all_def upd_sock_def split: option.split prod.split)

lemma upd_qos2_frame [simp]:
  "published (upd_qos2 i j g m) = published m" "ms_broker (upd_qos2 i j g m) = ms_broker m"
  "length (ms_clients (upd_qos2 i j g m)) = length (ms_clients m)"
  "i < length (ms_clients m) \<Longrightarrow>
    mesh_at (upd_qos2 i j g m) i = (mesh_at m i)\<lparr>mc_qos2_in := upd_nth j g (mc_qos2_in (mesh_at m i))\<rparr>"
  by (simp_all add: upd_qos2_def published_def)

lemma first_qos2:
  assumes "i < length (ms_clients m)" and "mesh_client_ok (mesh_at m i)" and "mesh_qos2_packet pid (stack, pkt)"
    and "mesh_qos2_find pid (mesh_at m i) = None" and "mesh_qos2_alloc (mesh_at m i) \<noteq> None"
  defines "m' \<equiv> mesh_handle_publish stack i pkt m"
  shows "unreleased i pid m' = packet_parse_publish pkt stack" and "published m' = published m"
    and "mesh_client_ok (mesh_at m' i)" and "length (ms_clients m') = length (ms_clients m)"
    and "bk_cfg_p2p (ms_broker m') = bk_cfg_p2p (ms_broker m)"
proof -
  obtain p where p: "packet_parse_publish pkt stack = Some p" "pub_qos p = 2" "pub_packet_id p = pid"
    using assms(3) by (auto simp: mesh_qos2_packet_def split: option.splits)
  obtain j where j: "mesh_qos2_alloc (mesh_at m i) = Some j" using assms(5) by blast
  let ?qs = "mc_qos2_in (mesh_at m i)"
    and ?e = "\<lparr>mq_packet_id = pid, mq_pub = p, mq_in_use = True, mq_published = False\<rparr>"
  have eq: "m' = mesh_reply i (packet_build_pubrec pid 4) (upd_qos2 i j (\<lambda>_. ?e) m)"
    using p assms(4) j by (simp add: m'_def mesh_handle_publish_def)
  have u: "keys_unique mq_in_use mq_packet_id ?qs" using assms(2) by (simp add: mesh_client_ok_def)
  have lt: "j < length ?qs" using j by (auto simp: mesh_qos2_alloc_def free_slot_def dest: find_idx_SomeD)
  have none: "slot_of mq_in_use mq_packet_id pid ?qs = None" using assms(4) by (simp add: mesh_qos2_find_def)
  have at: "mesh_at m' i = (mesh_at m i)\<lparr>mc_qos2_in := upd_nth j (\<lambda>_. ?e) ?qs\<rparr>" using assms(1) by (simp add: eq)
  have "mesh_qos2_find pid (mesh_at m' i) = Some j"
    using mqs.slot_of_store [OF u lt, of ?e] none by (simp add: at mesh_qos2_find_def)
  then show "unreleased i pid m' = packet_parse_publish pkt stack" using lt p(1) by (simp add: unreleased_def at)
  show "mesh_client_ok (mesh_at m' i)"
    using mqs.unique_store [OF u, of ?e j] none assms(2) by (simp add: at mesh_client_ok_def)
  show "published m' = published m" "length (ms_clients m') = length (ms_clients m)"
    "bk_cfg_p2p (ms_broker m') = bk_cfg_p2p (ms_broker m)" by (simp_all add: eq)
qed

lemma again_qos2:
  assumes "\<forall>sp \<in> set again. mesh_qos2_packet pid sp" and "unreleased i pid m \<noteq> None"
  shows "ms_clients (fold (\<lambda>(stack, dup). mesh_handle_publish stack i dup) again m) = ms_clients m \<and>
    published (fold (\<lambda>(stack, dup). mesh_handle_publish stack i dup) again m) = published m \<and>
    bk_cfg_p2p (ms_broker (fold (\<lambda>(stack, dup). mesh_handle_publish stack i dup) again m)) = bk_cfg_p2p (ms_broker m)"
  using assms
proof (induction again arbitrary: m)
  case (Cons sp again)
  obtain stack dup where sp: "sp = (stack, dup)" by force
  obtain p where "packet_parse_publish dup stack = Some p" "pub_qos p = 2" "pub_packet_id p = pid"
    using Cons.prems(1) by (auto simp: sp mesh_qos2_packet_def split: option.splits)
  moreover obtain j where "mesh_qos2_find pid (mesh_at m i) = Some j"
    using Cons.prems(2) by (auto simp: unreleased_def split: option.splits)
  ultimately have eq: "mesh_handle_publish stack i dup m = mesh_reply i (packet_build_pubrec pid 4) m"
    by (simp add: mesh_handle_publish_def)
  have "unreleased i pid (mesh_reply i r m) \<noteq> None" for r
    using Cons.prems(2) unreleased_same [of "mesh_reply i r m" i m] by simp
  with Cons.IH [OF _ this] Cons.prems(1) show ?case by (simp add: sp eq)
qed simp

lemma pubrel_qos2:
  assumes "i < length (ms_clients m)" and "mesh_client_ok (mesh_at m i)" and "packet_id_from_ack rel = pid"
    and "unreleased i pid m = Some p"
  shows "published (mesh_handle_pubrel i rel m) = published m @ (if bk_cfg_p2p (ms_broker m) then [p] else [])"
    and "mesh_qos2_find pid (mesh_at (mesh_handle_pubrel i rel m) i) = None"
proof -
  obtain j where j: "mesh_qos2_find pid (mesh_at m i) = Some j" "\<not> mq_published (mc_qos2_in (mesh_at m i) ! j)"
      "mq_pub (mc_qos2_in (mesh_at m i) ! j) = p"
    using assms(4) by (auto simp: unreleased_def split: option.splits if_splits)
  define m1 where "m1 = mesh_publish_from_ingress (\<lambda>m. mq_pub (mc_qos2_in (mesh_at m i) ! j)) m"
  have eq: "mesh_handle_pubrel i rel m = mesh_reply i (packet_build_pubcomp pid 4)
      (upd_qos2 i j (\<lambda>q. q\<lparr>mq_in_use := False\<rparr>) (upd_qos2 i j (\<lambda>q. q\<lparr>mq_published := True\<rparr>) m1))"
    using j assms(3) by (simp add: mesh_handle_pubrel_def Let_def m1_def)
  show "published (mesh_handle_pubrel i rel m) = published m @ (if bk_cfg_p2p (ms_broker m) then [p] else [])"
    by (simp add: eq m1_def published_from_ingress j(3))
  have n: "i < length (ms_clients m1)" using assms(1) by (simp add: m1_def clients_from_ingress)
  let ?qs = "mc_qos2_in (mesh_at m i)"
  have u: "keys_unique mq_in_use mq_packet_id (upd_nth j (\<lambda>q. q\<lparr>mq_published := True\<rparr>) ?qs)"
    using assms(2) by (auto simp: mesh_client_ok_def keys_unique_def nth_upd_nth)
  have "slot_of mq_in_use mq_packet_id pid (upd_nth j (\<lambda>q. q\<lparr>mq_published := True\<rparr>) ?qs) = Some j"
    using j(1) by (auto simp: mesh_qos2_find_def slot_of_def find_idx_Some nth_upd_nth)
  from mqs.slot_of_release [OF u this] have same: "slot_of mq_in_use mq_packet_id pid
      (upd_nth j (\<lambda>q. q\<lparr>mq_in_use := False\<rparr>) (upd_nth j (\<lambda>q. q\<lparr>mq_published := True\<rparr>) ?qs)) = None" .
  have "slot_of mq_in_use mq_packet_id pid
      (upd_nth j (\<lambda>q. q\<lparr>mq_in_use := False\<rparr>) (upd_nth j (\<lambda>q. q\<lparr>mq_published := True\<rparr>) (mc_qos2_in zero_mesh_client))) = None"
    by (auto simp: slot_of_def find_idx_None zero_mesh_client_def dest!: set_upd_nth)
  with same qos2_from_ingress [of "\<lambda>m. mq_pub (mc_qos2_in (mesh_at m i) ! j)" m i, folded m1_def]
  show "mesh_qos2_find pid (mesh_at (mesh_handle_pubrel i rel m) i) = None"
    using n by (auto simp: eq mesh_qos2_find_def)
qed

lemma pubrels_qos2:
  "\<forall>r \<in> set rels. packet_id_from_ack r = pid \<Longrightarrow> mesh_qos2_find pid (mesh_at m i) = None \<Longrightarrow>
    published (fold (mesh_handle_pubrel i) rels m) = published m"
  by (induction rels arbitrary: m) (simp_all add: mesh_handle_pubrel_def Let_def)

text \<open>
  C23: QoS 2 at the mesh ingress: a first PUBLISH is kept, not published; repetitions change nothing;
  the PUBREL publishes the kept message into the peer network, once, whatever happens to the
  clients it is delivered to; further PUBRELs publish nothing.
\<close>

theorem mesh_qos2_published_once:
  assumes "mesh_ok m" and "i < length (ms_clients m)" and "bk_cfg_p2p (ms_broker m)"
    and "mesh_qos2_packet pid (stack, pkt)" and "\<forall>sp \<in> set again. mesh_qos2_packet pid sp"
    and "mesh_qos2_find pid (mesh_at m i) = None" and "mesh_qos2_alloc (mesh_at m i) \<noteq> None"
    and "packet_id_from_ack rel = pid" and "\<forall>r \<in> set rels. packet_id_from_ack r = pid"
  shows "let m2 = fold (\<lambda>(stack, dup). mesh_handle_publish stack i dup) again (mesh_handle_publish stack i pkt m);
      m3 = mesh_handle_pubrel i rel m2
    in published m2 = published m \<and> published m3 = published m @ [the (packet_parse_publish pkt stack)] \<and>
       published (fold (mesh_handle_pubrel i) rels m3) = published m3"
proof -
  have ok: "mesh_client_ok (mesh_at m i)" using assms(1,2) by (simp add: mesh_ok_def)
  obtain p where p: "packet_parse_publish pkt stack = Some p"
    using assms(4) by (auto simp: mesh_qos2_packet_def split: option.splits)
  define m1 where "m1 = mesh_handle_publish stack i pkt m"
  define m2 where "m2 = fold (\<lambda>(stack, dup). mesh_handle_publish stack i dup) again m1"
  note f = first_qos2 [OF assms(2) ok assms(4,6,7), folded m1_def]
  have u: "unreleased i pid m1 = Some p" using f(1) p by simp
  have a: "ms_clients m2 = ms_clients m1" "published m2 = published m1" "bk_cfg_p2p (ms_broker m2)"
    using again_qos2 [OF assms(5), of i m1, folded m2_def] u f(5) assms(3) by simp_all
  then have at: "mesh_at m2 k = mesh_at m1 k" for k by (simp add: mesh_at_def)
  have u2: "unreleased i pid m2 = Some p" using u unreleased_same [OF at] by simp
  have r: "published (mesh_handle_pubrel i rel m2) = published m2 @ [p]"
    "mesh_qos2_find pid (mesh_at (mesh_handle_pubrel i rel m2) i) = None"
    using pubrel_qos2 [OF _ _ assms(8) u2] a(1,3) assms(2) f(3,4) at by simp_all
  show ?thesis
    using f(2) a(2) r pubrels_qos2 [OF assms(9) r(2)] p by (simp add: Let_def m1_def [symmetric] m2_def [symmetric])
qed

subsection \<open>Delivery\<close>

text \<open>Every connected client's socket takes what it is given, and the descriptors are different.\<close>

definition mesh_accepting :: "mesh \<Rightarrow> bool" where
  "mesh_accepting m \<longleftrightarrow>
     (\<forall>i < length (ms_clients m). mc_in_use (mesh_at m i) \<longrightarrow>
        0 \<le> mc_fd (mesh_at m i) \<and> accepting (bk_socks (ms_broker m) (mc_fd (mesh_at m i))) \<and>
        (\<forall>k < length (ms_clients m). mc_in_use (mesh_at m k) \<longrightarrow> k \<noteq> i \<longrightarrow> mc_fd (mesh_at m k) \<noteq> mc_fd (mesh_at m i)))"

text \<open>The bytes a client is owed for a message: one frame, for the first filter that matches.\<close>

definition mesh_frame :: "mqtt_publish \<Rightarrow> mesh_client \<Rightarrow> byte list" where
  "mesh_frame pub cl =
     (if \<not> mc_in_use cl then []
      else case find_idx (\<lambda>s. mb_in_use s \<and> mqtt_topic_match (mb_filter s) (pub_topic pub)) (mc_subs cl) of
             None \<Rightarrow> []
           | Some j \<Rightarrow>
               (let q = min (pub_qos pub) (mb_qos (mc_subs cl ! j));
                    copy = pub\<lparr>pub_qos := q, pub_packet_id := (if q = 0 then pub_packet_id pub else next_id (mc_next_packet_id cl))\<rparr>
                in the (packet_build_publish copy (MQTT_MAX_PACKET_SIZE + 8))))"

lemma mesh_frame_copy:
  "mesh_frame pub cl =
     (if \<not> mc_in_use cl then []
      else case find_idx (\<lambda>s. mb_in_use s \<and> mqtt_topic_match (mb_filter s) (pub_topic pub)) (mc_subs cl) of
             None \<Rightarrow> []
           | Some j \<Rightarrow> the (packet_build_publish (mesh_copy pub (mc_subs cl ! j) (next_id (mc_next_packet_id cl)))
                                (MQTT_MAX_PACKET_SIZE + 8)))"
proof -
  have "mesh_copy pub s pid = (let q = min (pub_qos pub) (mb_qos s) in
      pub\<lparr>pub_qos := q, pub_packet_id := (if q = 0 then pub_packet_id pub else pid)\<rparr>)" for s pid
    by (cases "pub_qos pub < mb_qos s") (auto simp: mesh_copy_def Let_def min_def word_gt_0)
  then show ?thesis unfolding mesh_frame_def by (simp only: Let_def)
qed

lemma mesh_copy_builds:
  assumes "message_ok pub" and "topic_publishable (pub_topic pub)"
  shows "\<exists>buf. packet_build_publish (mesh_copy pub s (next_id n)) (MQTT_MAX_PACKET_SIZE + 8) = Some buf \<and> buf \<noteq> []"
proof -
  have "publish_ok (mesh_copy pub s (next_id n))"
    using message_copy_ok(1) [OF assms(1), of "pub_qos pub" "next_id n"] message_copy_ok(1) [OF assms(1), of "mb_qos s" "next_id n"]
      message_copy_ok(1) [OF assms(1), of 0 "pub_packet_id pub"] next_id_nonzero [of n]
    by (auto simp: mesh_copy_def Let_def not_less)
  moreover have "pub_topic (mesh_copy pub s (next_id n)) = pub_topic pub" by (simp add: mesh_copy_def Let_def)
  ultimately show ?thesis using build_publish_total [of "mesh_copy pub s (next_id n)" 712] assms(2) by auto
qed

lemma mesh_send_accepting:
  assumes "accepting (bk_socks (ms_broker m) fd)" and "0 \<le> fd"
  shows "mesh_send fd buf m = (True, on_broker (upd_sock fd (\<lambda>s. s\<lparr>so_sent := so_sent s @ buf\<rparr>)) m)"
  using assms send_loop_accepting [OF assms(1), of buf]
  by (auto simp: mesh_send_def broker_send_all_def on_broker_def upd_sock_def)

lemma deliver_none:
  "\<not> (mc_in_use (mesh_at m i) \<and>
      find_idx (\<lambda>s. mb_in_use s \<and> mqtt_topic_match (mb_filter s) (pub_topic (src m))) (mc_subs (mesh_at m i)) \<noteq> None) \<Longrightarrow>
    mesh_deliver src i m = m"
  by (auto simp: mesh_deliver_def Let_def)

lemma deliver_accepting:
  assumes "mesh_accepting m" and "i < length (ms_clients m)" and "message_ok pub" and "topic_publishable (pub_topic pub)"
  defines "m' \<equiv> mesh_deliver (\<lambda>_. pub) i m"
  shows "mc_in_use (mesh_at m' i) = mc_in_use (mesh_at m i)" and "mc_fd (mesh_at m' i) = mc_fd (mesh_at m i)"
    and "mc_in_use (mesh_at m i) \<Longrightarrow> accepting (bk_socks (ms_broker m') (mc_fd (mesh_at m i)))"
    and "mc_in_use (mesh_at m i) \<Longrightarrow> so_sent (bk_socks (ms_broker m') (mc_fd (mesh_at m i))) =
      so_sent (bk_socks (ms_broker m) (mc_fd (mesh_at m i))) @ mesh_frame pub (mesh_at m i)"
proof -
  let ?cl = "mesh_at m i"
  have "mc_in_use (mesh_at m' i) = mc_in_use ?cl \<and> mc_fd (mesh_at m' i) = mc_fd ?cl \<and>
    (mc_in_use ?cl \<longrightarrow> accepting (bk_socks (ms_broker m') (mc_fd ?cl)) \<and>
      so_sent (bk_socks (ms_broker m') (mc_fd ?cl)) = so_sent (bk_socks (ms_broker m) (mc_fd ?cl)) @ mesh_frame pub ?cl)"
  proof (cases "mc_in_use ?cl \<and> find_idx (\<lambda>s. mb_in_use s \<and> mqtt_topic_match (mb_filter s) (pub_topic pub)) (mc_subs ?cl) \<noteq> None")
    case False
    then have "m' = m" "mc_in_use ?cl \<longrightarrow> mesh_frame pub ?cl = []"
      using deliver_none [of m i "\<lambda>_. pub"] by (auto simp: m'_def mesh_frame_copy)
    then show ?thesis using assms(1,2) by (simp add: mesh_accepting_def)
  next
    case True
    then obtain j where j: "find_idx (\<lambda>s. mb_in_use s \<and> mqtt_topic_match (mb_filter s) (pub_topic pub)) (mc_subs ?cl) = Some j"
      by blast
    let ?pid = "next_id (mc_next_packet_id ?cl)"
    let ?d = "mesh_copy pub (mc_subs ?cl ! j) ?pid"
    obtain buf where buf: "packet_build_publish ?d (MQTT_MAX_PACKET_SIZE + 8) = Some buf"
      using mesh_copy_builds [OF assms(3,4)] by blast
    define m1 where "m1 = (if pub_qos ?d > 0 then upd_mesh i (\<lambda>cl. cl\<lparr>mc_next_packet_id := ?pid\<rparr>) m else m)"
    have acc: "accepting (bk_socks (ms_broker m1) (mc_fd ?cl))" "0 \<le> mc_fd ?cl"
      using assms(1,2) True by (auto simp: mesh_accepting_def m1_def)
    define m2 where "m2 = on_broker (upd_sock (mc_fd ?cl) (\<lambda>s. s\<lparr>so_sent := so_sent s @ buf\<rparr>)) m1"
    have eq: "m' = (if pub_qos ?d > 0 then mesh_inflight_store i (pub_packet_id ?d) buf (pub_qos ?d) m2 else m2)"
      using True j buf mesh_send_accepting [OF acc, of buf, folded m2_def]
      unfolding m'_def mesh_deliver_def m1_def Let_def by simp
    have st: "ms_broker (mesh_inflight_store i p b q m2) = ms_broker m2"
      "mc_in_use (mesh_at (mesh_inflight_store i p b q m2) i) = mc_in_use (mesh_at m2 i)"
      "mc_fd (mesh_at (mesh_inflight_store i p b q m2) i) = mc_fd (mesh_at m2 i)" for p b q
      using assms(2) by (auto simp: mesh_inflight_store_def m2_def m1_def mesh_at_upd split: option.split)
    have "ms_broker m' = ms_broker m2" "mc_in_use (mesh_at m' i) = mc_in_use (mesh_at m2 i)"
      "mc_fd (mesh_at m' i) = mc_fd (mesh_at m2 i)" using st by (simp_all add: eq)
    moreover have "mc_in_use (mesh_at m2 i) = mc_in_use ?cl" "mc_fd (mesh_at m2 i) = mc_fd ?cl"
      using assms(2) by (simp_all add: m2_def m1_def)
    moreover have "ms_broker m1 = ms_broker m" by (simp add: m1_def)
    ultimately show ?thesis
      using acc True j buf by (simp add: m2_def upd_sock_def accepting_def mesh_frame_copy)
  qed
  then show "mc_in_use (mesh_at m' i) = mc_in_use (mesh_at m i)" "mc_fd (mesh_at m' i) = mc_fd (mesh_at m i)"
    "mc_in_use (mesh_at m i) \<Longrightarrow> accepting (bk_socks (ms_broker m') (mc_fd (mesh_at m i)))"
    "mc_in_use (mesh_at m i) \<Longrightarrow> so_sent (bk_socks (ms_broker m') (mc_fd (mesh_at m i))) =
      so_sent (bk_socks (ms_broker m) (mc_fd (mesh_at m i))) @ mesh_frame pub (mesh_at m i)" by blast+
qed

lemma deliver_others:
  assumes "mesh_accepting m" and "i < length (ms_clients m)" and "message_ok pub" and "topic_publishable (pub_topic pub)"
    and "k < length (ms_clients m)" and "k \<noteq> i" and "mc_in_use (mesh_at m k)" and "mc_in_use (mesh_at m i)"
  shows "so_sent (bk_socks (ms_broker (mesh_deliver (\<lambda>_. pub) i m)) (mc_fd (mesh_at m k))) =
    so_sent (bk_socks (ms_broker m) (mc_fd (mesh_at m k)))"
  using deliver_touches [OF assms(2), of "\<lambda>_. pub"] assms(1,2,5-8) by (auto simp: touches_def mesh_accepting_def)

lemma deliver_unused: "\<not> mc_in_use (mesh_at m i) \<Longrightarrow> mesh_deliver src i m = m"
  by (simp add: mesh_deliver_def Let_def)

lemma deliver_stays_accepting:
  assumes "mesh_accepting m" and "i < length (ms_clients m)" and "message_ok pub" and "topic_publishable (pub_topic pub)"
  shows "mesh_accepting (mesh_deliver (\<lambda>_. pub) i m)"
proof (cases "mc_in_use (mesh_at m i)")
  case True
  let ?m = "mesh_deliver (\<lambda>_. pub) i m"
  note t = deliver_touches [OF assms(2), of "\<lambda>_. pub"] and d = deliver_accepting [OF assms]
  have same: "mc_in_use (mesh_at ?m k) = mc_in_use (mesh_at m k) \<and> mc_fd (mesh_at ?m k) = mc_fd (mesh_at m k)" for k
    using t d(1,2) by (cases "k = i") (auto simp: touches_def)
  have "accepting (bk_socks (ms_broker ?m) (mc_fd (mesh_at m k)))" if "k < length (ms_clients m)" "mc_in_use (mesh_at m k)" for k
    using t d(3) True that assms(1,2) by (cases "k = i") (auto simp: touches_def mesh_accepting_def accepting_def)
  then show ?thesis
    using assms(1) same t unfolding mesh_accepting_def touches_def by simp
qed (simp add: deliver_unused assms(1))

text \<open>
  C24: when their sockets accept, every client of the mesh ingress with a matching filter receives a
  message from the mesh exactly once, with the smaller of the two QoS of its first matching filter and,
  if that has a QoS, its next packet id; a client without one receives nothing.
\<close>

theorem mesh_delivery:
  assumes "mesh_accepting m" and "message_ok pub" and "topic_publishable (pub_topic pub)"
    and "i < length (ms_clients m)" and "mc_in_use (mesh_at m i)"
  shows "so_sent (bk_socks (ms_broker (broker_mesh_ingress_publish_remote (\<lambda>_. pub) m)) (mc_fd (mesh_at m i))) =
    so_sent (bk_socks (ms_broker m) (mc_fd (mesh_at m i))) @ mesh_frame pub (mesh_at m i)"
proof -
  have "so_sent (bk_socks (ms_broker (fold (mesh_deliver (\<lambda>_. pub)) ks m)) (mc_fd (mesh_at m i))) =
      so_sent (bk_socks (ms_broker m) (mc_fd (mesh_at m i))) @ (if i \<in> set ks then mesh_frame pub (mesh_at m i) else [])"
    if "distinct ks" "\<forall>k \<in> set ks. k < length (ms_clients m)" for ks
    using that assms
  proof (induction ks arbitrary: m)
    case (Cons k ks)
    let ?m = "mesh_deliver (\<lambda>_. pub) k m"
    have k: "k < length (ms_clients m)" using Cons.prems(2) by simp
    note t = deliver_touches [OF k, of "\<lambda>_. pub"] and d = deliver_accepting [OF Cons.prems(3) k assms(2,3)]
    have n: "length (ms_clients ?m) = length (ms_clients m)" using t by (simp add: touches_def)
    have acc: "mesh_accepting ?m" by (rule deliver_stays_accepting [OF Cons.prems(3) k assms(2,3)])
    have at: "mc_in_use (mesh_at ?m i)" "mc_fd (mesh_at ?m i) = mc_fd (mesh_at m i)"
      using t d(1,2) Cons.prems(7) by (cases "k = i"; auto simp: touches_def)+
    have IH: "so_sent (bk_socks (ms_broker (fold (mesh_deliver (\<lambda>_. pub)) ks ?m)) (mc_fd (mesh_at m i))) =
        so_sent (bk_socks (ms_broker ?m) (mc_fd (mesh_at m i))) @ (if i \<in> set ks then mesh_frame pub (mesh_at ?m i) else [])"
      using Cons.IH [of ?m] Cons.prems acc at n assms(2,3) by simp
    show ?case
    proof (cases "k = i")
      case True
      then have "i \<notin> set ks" using Cons.prems(1) by auto
      then show ?thesis using IH d(4) Cons.prems(7) True by simp
    next
      case False
      then have "mesh_at ?m i = mesh_at m i" using t by (simp add: touches_def)
      moreover have "so_sent (bk_socks (ms_broker ?m) (mc_fd (mesh_at m i))) = so_sent (bk_socks (ms_broker m) (mc_fd (mesh_at m i)))"
        using deliver_others [OF Cons.prems(3) k assms(2,3) Cons.prems(6) False [symmetric] Cons.prems(7)] deliver_unused [of m k]
        by (cases "mc_in_use (mesh_at m k)") simp_all
      ultimately show ?thesis using IH False by simp
    qed
  qed simp
  from this [of "[0..<length (ms_clients m)]"] show ?thesis
    using assms(4) by (simp add: broker_mesh_ingress_publish_remote_def)
qed

subsection \<open>What the peer network is told\<close>

text \<open>The state when the main loop starts: the clients are zeroed memory.\<close>

definition mesh_start :: "broker \<Rightarrow> nat \<Rightarrow> mesh" where
  "mesh_start b limit = \<lparr>ms_broker = b, ms_clients = replicate MESH_INGRESS_MAX_CLIENTS (zero_mesh_client\<lparr>mc_fd := 0\<rparr>),
     ms_admission_limit = limit\<rparr>"

lemma mesh_start_ok:
  assumes "\<forall>e \<in> set (bk_subs b). \<not> sub_in_use e" and "bk_p2p b = []"
  shows "mesh_ok (mesh_start b limit)"
proof -
  have "mesh_at (mesh_start b limit) i = zero_mesh_client\<lparr>mc_fd := 0\<rparr>" if "i < 2" for i
    using that by (simp add: mesh_at_def mesh_start_def)
  moreover have "topic_filter_subscriber_count f b = 0" for f
    using assms(1) by (simp add: topic_filter_subscriber_count_def filter_empty_conv)
  ultimately show ?thesis
    using assms(2) by (auto simp: mesh_ok_def mesh_adv_ok_def filters_of_def advertised_def) (simp_all add: mesh_start_def)
qed


text \<open>
  The two tables of subscriptions do not know of each other in one direction: when the last client
  of the broker unsubscribes from a filter, the peer network is told to forget it although a mesh
  client is still subscribed.
\<close>

theorem mesh_filter_forgotten:
  assumes "bk_cfg_p2p (ms_broker m)" and "own_slot (ms_broker m) c f = Some k"
    and "fst (filter_stats_locked f (bk_subs (ms_broker m))) = 1"
    and "i < length (ms_clients m)" and "mc_in_use (mesh_at m i)" and "s \<in> set (mc_subs (mesh_at m i))"
    and "mb_in_use s" and "mb_filter s = f"
  shows "let m' = on_broker (topic_unsubscribe c f) m in
    mc_in_use (mesh_at m' i) \<and> s \<in> set (mc_subs (mesh_at m' i)) \<and> advertised (ms_broker m') f = None"
  using assms
  by (cases "filter_stats_locked f (bk_subs (ms_broker m))") (simp add: topic_unsubscribe_eq Let_def notify_eq)

subsection \<open>A message that is lost\<close>

lemma build_empty_topic: "pub_topic p = [] \<Longrightarrow> packet_build_publish p cap = None"
  by (simp add: packet_build_publish_def bounded_strlen_def split: option.split)

lemma deliver_empty_topic:
  assumes "pub_topic (src m) = []" and "i < length (ms_clients m)"
  shows "local_to i m (mesh_deliver src i m)"
proof (cases "mc_in_use (mesh_at m i) \<and>
      find_idx (\<lambda>s. mb_in_use s \<and> mqtt_topic_match (mb_filter s) (pub_topic (src m))) (mc_subs (mesh_at m i)) \<noteq> None")
  case False
  then show ?thesis using deliver_none [of m i src] by simp
next
  case True
  then obtain j where j: "find_idx (\<lambda>s. mb_in_use s \<and> mqtt_topic_match (mb_filter s) (pub_topic (src m))) (mc_subs (mesh_at m i)) = Some j"
    by blast
  let ?cl = "mesh_at m i"
  let ?pid = "next_id (mc_next_packet_id ?cl)"
  let ?d = "mesh_copy (src m) (mc_subs ?cl ! j) ?pid"
  define m1 where "m1 = (if pub_qos ?d > 0 then upd_mesh i (\<lambda>cl. cl\<lparr>mc_next_packet_id := ?pid\<rparr>) m else m)"
  have "packet_build_publish ?d (MQTT_MAX_PACKET_SIZE + 8) = None"
    using assms(1) by (intro build_empty_topic) (simp add: mesh_copy_def Let_def)
  then have "mesh_deliver src i m = mesh_client_close i m1"
    using True j unfolding mesh_deliver_def m1_def Let_def by simp
  moreover have "local_to i m m1" by (simp add: m1_def)
  ultimately show ?thesis using local_to_trans [OF _ local_close] by simp
qed

lemma deliver_cleared:
  assumes "pub_topic (src0 (mesh_at m 0)) = []" and "\<forall>i \<in> set is. 0 < i \<and> i < length (ms_clients m)"
  shows "mesh_at (fold (mesh_deliver (\<lambda>m. src0 (mesh_at m 0))) is m) 0 = mesh_at m 0 \<and>
    length (ms_clients (fold (mesh_deliver (\<lambda>m. src0 (mesh_at m 0))) is m)) = length (ms_clients m) \<and>
    so_sent (bk_socks (ms_broker (fold (mesh_deliver (\<lambda>m. src0 (mesh_at m 0))) is m)) fd) = so_sent (bk_socks (ms_broker m) fd)"
  using assms
proof (induction "is" arbitrary: m)
  case (Cons i "is")
  let ?src = "\<lambda>m. src0 (mesh_at m 0)"
  have l: "local_to i m (mesh_deliver ?src i m)" using Cons.prems by (intro deliver_empty_topic) auto
  then have "mesh_at (mesh_deliver ?src i m) 0 = mesh_at m 0" "length (ms_clients (mesh_deliver ?src i m)) = length (ms_clients m)"
    "so_sent (bk_socks (ms_broker (mesh_deliver ?src i m)) fd) = so_sent (bk_socks (ms_broker m) fd)"
    using Cons.prems(2) by (auto simp: local_to_def)
  then show ?case using Cons.IH [of "mesh_deliver ?src i m"] Cons.prems by simp
qed simp

lemma deliver_failed:
  assumes "i < length (ms_clients m)" and "mc_in_use (mesh_at m i)" and "0 \<le> mc_fd (mesh_at m i)"
    and "message_ok (src m)" and "topic_publishable (pub_topic (src m))"
    and "\<exists>s \<in> set (mc_subs (mesh_at m i)). mb_in_use s \<and> mqtt_topic_match (mb_filter s) (pub_topic (src m))"
    and "so_tx (bk_socks (ms_broker m) (mc_fd (mesh_at m i))) = r # rest" and "r \<le> 0"
  shows "mesh_at (mesh_deliver src i m) i = zero_mesh_client\<lparr>mc_fd := -1\<rparr>"
proof -
  let ?cl = "mesh_at m i"
  obtain j where j: "find_idx (\<lambda>s. mb_in_use s \<and> mqtt_topic_match (mb_filter s) (pub_topic (src m))) (mc_subs ?cl) = Some j"
    using assms(6) find_idx_None [of "\<lambda>s. mb_in_use s \<and> mqtt_topic_match (mb_filter s) (pub_topic (src m))" "mc_subs ?cl"]
    by (metis not_Some_eq)
  let ?pid = "next_id (mc_next_packet_id ?cl)"
  let ?d = "mesh_copy (src m) (mc_subs ?cl ! j) ?pid"
  obtain buf where buf: "packet_build_publish ?d (MQTT_MAX_PACKET_SIZE + 8) = Some buf" "buf \<noteq> []"
    using mesh_copy_builds [OF assms(4,5)] by blast
  define m1 where "m1 = (if pub_qos ?d > 0 then upd_mesh i (\<lambda>cl. cl\<lparr>mc_next_packet_id := ?pid\<rparr>) m else m)"
  have m1: "ms_broker m1 = ms_broker m" "mc_in_use (mesh_at m1 i)" "length (ms_clients m1) = length (ms_clients m)"
    using assms(1,2) by (simp_all add: m1_def)
  obtain ok m2 where s: "mesh_send (mc_fd ?cl) buf m1 = (ok, m2)" by force
  have "\<not> ok" and "ms_clients m2 = ms_clients m1"
    using s buf(2) assms(3,7,8) published_send [OF s]
    by (auto simp: mesh_send_def broker_send_all_def m1(1) send_loop.simps [of buf] plat_send_def)
  then have "mesh_deliver src i m = mesh_client_close i m2" "mesh_at m2 i = mesh_at m1 i" "length (ms_clients m2) = length (ms_clients m1)"
    using assms(2) j buf s unfolding mesh_deliver_def m1_def Let_def by (simp_all add: mesh_at_def)
  then show ?thesis using closed_client [of i m2] m1 assms(1) by simp
qed

text \<open>
  The message a PUBREL releases is delivered from the table of the client that sent it. When that
  client is the first of the table, has itself a matching filter and its connection has failed, it is
  closed and its table cleared while the message is being delivered, and no other mesh client
  receives anything.
\<close>

theorem released_message_lost:
  assumes "0 < length (ms_clients m)" and "mc_in_use (mesh_at m 0)" and "mesh_client_ok (mesh_at m 0)"
    and "unreleased 0 pid m = Some pub" and "packet_id_from_ack rel = pid"
    and "message_ok pub" and "topic_publishable (pub_topic pub)"
    and "\<exists>s \<in> set (mc_subs (mesh_at m 0)). mb_in_use s \<and> mqtt_topic_match (mb_filter s) (pub_topic pub)"
    and "so_tx (bk_socks (ms_broker m) (mc_fd (mesh_at m 0))) = r # rest" and "r \<le> 0"
    and "fd \<noteq> mc_fd (mesh_at m 0)"
  shows "so_sent (bk_socks (ms_broker (mesh_handle_pubrel 0 rel m)) fd) = so_sent (bk_socks (ms_broker m) fd)"
proof -
  obtain j where j: "mesh_qos2_find pid (mesh_at m 0) = Some j" "\<not> mq_published (mc_qos2_in (mesh_at m 0) ! j)"
      "mq_pub (mc_qos2_in (mesh_at m 0) ! j) = pub"
    using assms(4) by (auto simp: unreleased_def split: option.splits if_splits)
  have "j < MESH_INGRESS_QOS2_IN_MAX"
    using j(1) assms(3) by (auto simp: mesh_qos2_find_def slot_of_def mesh_client_ok_def dest: find_idx_SomeD)
  then have cleared: "pub_topic (mq_pub (mc_qos2_in zero_mesh_client ! j)) = []"
    by (simp add: zero_mesh_client_def zero_publish_def)
  let ?src = "\<lambda>m. mq_pub (mc_qos2_in (mesh_at m 0) ! j)"
  define m1 where "m1 = mesh_p2p (P2PPublish pub) m"
  have m1: "mesh_at m1 k = mesh_at m k" "ms_clients m1 = ms_clients m" "bk_socks (ms_broker m1) = bk_socks (ms_broker m)" for k
    by (simp_all add: m1_def)
  have "0 \<le> mc_fd (mesh_at m 0)" using assms(2,3) by (simp add: mesh_client_ok_def)
  define m2 where "m2 = mesh_deliver ?src 0 m1"
  have d: "mesh_at m2 0 = zero_mesh_client\<lparr>mc_fd := -1\<rparr>" "length (ms_clients m2) = length (ms_clients m)"
    "so_sent (bk_socks (ms_broker m2) fd) = so_sent (bk_socks (ms_broker m) fd)"
    using \<open>0 \<le> mc_fd (mesh_at m 0)\<close> deliver_failed [of 0 m1 ?src r rest] deliver_touches [of 0 m1 ?src] assms j m1
    by (simp_all add: m2_def touches_def)
  define m3 where "m3 = fold (mesh_deliver ?src) [1..<length (ms_clients m)] m2"
  have f: "mesh_at m3 0 = zero_mesh_client\<lparr>mc_fd := -1\<rparr> \<and> length (ms_clients m3) = length (ms_clients m2) \<and>
      so_sent (bk_socks (ms_broker m3) fd) = so_sent (bk_socks (ms_broker m2) fd)"
    using deliver_cleared [of "\<lambda>cl. mq_pub (mc_qos2_in cl ! j)" m2 "[1..<length (ms_clients m)]" fd] cleared d(1,2)
    by (simp add: m3_def)
  have "[0..<length (ms_clients m)] = 0 # [1..<length (ms_clients m)]"
    using assms(1) by (simp add: upt_conv_Cons)
  then have "mesh_publish_from_ingress ?src m = on_broker broker_notify_activity m3"
    by (simp add: mesh_publish_from_ingress_def broker_mesh_ingress_publish_remote_def m1_def [symmetric] m1(2) j(3) m2_def m3_def)
  then have eq: "mesh_handle_pubrel 0 rel m = mesh_reply 0 (packet_build_pubcomp pid 4)
      (upd_qos2 0 j (\<lambda>q. q\<lparr>mq_in_use := False\<rparr>) (upd_qos2 0 j (\<lambda>q. q\<lparr>mq_published := True\<rparr>) (on_broker broker_notify_activity m3)))"
    using j assms(5) by (simp add: mesh_handle_pubrel_def Let_def)
  have "mesh_reply 0 r m' = m'" if "mc_fd (mesh_at m' 0) < 0" for r m'
    using that by (simp add: mesh_reply_def mesh_send_def broker_send_all_def split: option.split)
  then show ?thesis
    unfolding eq using f d assms(1) by (simp add: broker_notify_activity_def)
qed

subsection \<open>Admission\<close>

lemma reject_frame: "bk_clients (reject_server_unavailable fd b) = bk_clients b"
  by (simp add: reject_server_unavailable_def broker_send_all_def upd_sock_def Let_def plat_close_def
      split: option.split prod.split)

lemma used_alloc: "client_used_slots (snd (client_alloc spawn_ok fd b)) \<le> Suc (client_used_slots b)"
proof (cases "find_idx (\<lambda>cl. cl_state cl = CLIENT_STATE_FREE) (bk_clients b)")
  case (Some c)
  then have c: "c < length (bk_clients b)" by (auto dest: find_idx_SomeD)
  have "length (filter P (upd_nth c g xs)) \<le> Suc (length (filter P xs))" if "c < length xs" for P g and xs :: "client list"
  proof -
    have "filter P (upd_nth c g xs) = filter P (take c xs) @ filter P [g (xs ! c)] @ filter P (drop (Suc c) xs)"
      using that by (simp add: upd_nth_def upd_conv_take_nth_drop)
    moreover have "filter P xs = filter P (take c xs) @ filter P [xs ! c] @ filter P (drop (Suc c) xs)"
      by (subst id_take_nth_drop [OF that]) simp
    ultimately show ?thesis by simp
  qed
  then show ?thesis
    using Some c by (simp add: client_alloc_def client_used_slots_def upd_thread_def upd_client_def)
qed (simp add: client_alloc_def)

text \<open>
  The admission limit. A connection that comes when the limit is reached changes no client, is
  answered with CONNACK code 3 and closed; and accepting connections never brings the number of
  clients above the limit.
\<close>

theorem admission_limited:
  assumes "0 \<le> fd" and "limit < length (bk_clients b)"
  shows "(limit \<le> client_used_slots b \<longrightarrow>
      bk_clients (broker_accept_one spawn_ok limit fd b) = bk_clients b \<and>
      so_closed (bk_socks (broker_accept_one spawn_ok limit fd b) fd) \<and>
      (accepting (bk_socks b fd) \<longrightarrow>
         so_sent (bk_socks (broker_accept_one spawn_ok limit fd b) fd) = so_sent (bk_socks b fd) @ [0x20, 2, 0, 3])) \<and>
    client_used_slots (broker_accept_one spawn_ok limit fd b) \<le> max limit (client_used_slots b)"
proof (cases "limit \<le> client_used_slots b")
  case True
  then have eq: "broker_accept_one spawn_ok limit fd b = reject_server_unavailable fd b"
    using assms by (simp add: broker_accept_one_def)
  have "client_used_slots (reject_server_unavailable fd b) = client_used_slots b"
    by (simp add: client_used_slots_def reject_frame)
  moreover have "so_closed (bk_socks (reject_server_unavailable fd b) fd)"
    by (simp add: reject_server_unavailable_def Let_def plat_close_def upd_sock_def)
  moreover have "so_sent (bk_socks (reject_server_unavailable fd b) fd) = so_sent (bk_socks b fd) @ [0x20, 2, 0, 3]"
    if "accepting (bk_socks b fd)"
    using assms(1) send_loop_accepting [OF that]
    by (simp add: reject_server_unavailable_def packet_build_connack_def broker_send_all_def plat_close_def upd_sock_def)
  ultimately show ?thesis by (simp add: eq reject_frame)
next
  case False
  have "client_used_slots (broker_accept_one spawn_ok limit fd b) = client_used_slots (snd (client_alloc spawn_ok fd b))"
    using assms False by (auto simp: broker_accept_one_def client_used_slots_def reject_frame split: prod.split option.split)
  then show ?thesis using False used_alloc [of spawn_ok fd b] by simp
qed

subsection \<open>Witnesses\<close>

text \<open>
  Two mesh clients on the descriptors 5 and 6, both subscribed to the topic \<open>a\<close>; the first has sent
  a QoS 2 message to it that waits for its PUBREL.
\<close>

definition letter_a :: "byte \<Rightarrow> mqtt_publish" where
  "letter_a q = zero_publish\<lparr>pub_topic := [97], pub_qos := q, pub_packet_id := (if q > 0 then 7 else 0)\<rparr>"

definition example_client :: "int \<Rightarrow> mesh_client" where
  "example_client fd = zero_mesh_client\<lparr>mc_fd := fd, mc_in_use := True,
     mc_subs := upd_nth 0 (\<lambda>_. \<lparr>mb_filter = [97], mb_qos = 1, mb_in_use = True\<rparr>) (mc_subs zero_mesh_client),
     mc_qos2_in := upd_nth 0 (\<lambda>_. \<lparr>mq_packet_id = 7, mq_pub = letter_a 2, mq_in_use = True, mq_published = False\<rparr>)
       (mc_qos2_in zero_mesh_client)\<rparr>"

definition example_mesh :: "int list \<Rightarrow> mesh" where
  "example_mesh tx = \<lparr>ms_broker = static_broker 1 2 (\<lambda>fd. if fd = 5 then quiet_sock\<lparr>so_tx := tx\<rparr> else quiet_sock),
     ms_clients = [example_client 5, example_client 6], ms_admission_limit = 1\<rparr>"

lemma four: "replicate 4 x = [x, x, x, x]"
  by (simp add: eval_nat_numeral)

lemma example_client_eq:
  "mc_subs (example_client fd) =
     \<lparr>mb_filter = [97], mb_qos = 1, mb_in_use = True\<rparr> # replicate 3 \<lparr>mb_filter = [], mb_qos = 0, mb_in_use = False\<rparr>"
  "mc_qos2_in (example_client fd) = \<lparr>mq_packet_id = 7, mq_pub = letter_a 2, mq_in_use = True, mq_published = False\<rparr> #
     replicate 3 \<lparr>mq_packet_id = 0, mq_pub = zero_publish, mq_in_use = False, mq_published = False\<rparr>"
  "mc_inflight (example_client fd) = replicate 4 zero_inflight"
  "mc_in_use (example_client fd)" "mc_fd (example_client fd) = fd" "mc_next_packet_id (example_client fd) = 0"
  by (simp_all add: example_client_def zero_mesh_client_def upd_nth_def four eval_nat_numeral)

lemma letter_a_ok: "q \<le> 2 \<Longrightarrow> message_ok (letter_a q)" "topic_publishable [97]" "pub_topic (letter_a q) = [97]"
  by (simp_all add: letter_a_def message_ok_def publish_ok_def zero_publish_def topic_publishable_def cstr_ok_def has_wildcard_def)

lemma matches_a: "mqtt_topic_match [97] [97]"
  by (simp add: mqtt_match_steps)

lemma example_client_facts:
  "0 \<le> fd \<Longrightarrow> mesh_client_ok (example_client fd)"
  "\<exists>s \<in> set (mc_subs (example_client fd)). mb_in_use s \<and> mqtt_topic_match (mb_filter s) [97]"
  "find_idx (\<lambda>s. mb_in_use s \<and> mqtt_topic_match (mb_filter s) [97]) (mc_subs (example_client fd)) = Some 0"
  by (auto simp: example_client_eq mesh_client_ok_def keys_unique_def filter_ok_def cstr_ok_def matches_a less_Suc_eq
      nth_Cons' topic_filter_valid_def)

lemma example_mesh_facts:
  "length (ms_clients (example_mesh tx)) = 2" "mesh_at (example_mesh tx) 0 = example_client 5"
  "mesh_at (example_mesh tx) 1 = example_client 6" "mesh_at (example_mesh tx) (Suc 0) = example_client 6"
  "bk_socks (ms_broker (example_mesh tx)) 5 = quiet_sock\<lparr>so_tx := tx\<rparr>"
  "fd \<noteq> 5 \<Longrightarrow> bk_socks (ms_broker (example_mesh tx)) fd = quiet_sock"
  "bk_cfg_p2p (ms_broker (example_mesh tx))" "bk_subs (ms_broker (example_mesh tx)) = replicate 2 zero_sub"
  by (simp_all add: example_mesh_def mesh_at_def static_broker_def)

lemma frame_a: "mesh_frame (letter_a 0) (example_client fd) = [0x30, 3, 0, 1, 97]"
proof -
  have "mesh_copy (letter_a 0) \<lparr>mb_filter = [97], mb_qos = 1, mb_in_use = True\<rparr> 1 = letter_a 0"
    by (simp add: mesh_copy_def letter_a_def)
  moreover have "packet_encode_remaining_len 3 = Some [3]"
    by (simp add: packet_encode_remaining_len_def encode_loop.simps)
  then have "packet_build_publish (letter_a 0) 712 = Some [0x30, 3, 0, 1, 97]"
    by (simp add: packet_build_publish_def letter_a_def zero_publish_def bounded_strlen_def write_str_def
        write_u16_def has_wildcard_def)
  ultimately show ?thesis
    by (simp add: mesh_frame_copy example_client_eq matches_a letter_a_ok next_id_def)
qed

theorem mesh_delivery_witness:
  "so_sent (bk_socks (ms_broker (broker_mesh_ingress_publish_remote (\<lambda>_. letter_a 0) (example_mesh []))) 6) =
   [0x30, 3, 0, 1, 97]"
proof -
  have "mesh_accepting (example_mesh [])"
    by (auto simp: mesh_accepting_def example_mesh_facts example_client_eq accepting_def quiet_sock_def less_2_cases_iff)
  then show ?thesis
    using mesh_delivery [of "example_mesh []" "letter_a 0" 1]
    by (simp add: example_mesh_facts example_client_eq(4,5) letter_a_ok frame_a quiet_sock_def)
qed

theorem released_message_lost_witness:
  "so_sent (bk_socks (ms_broker (mesh_handle_pubrel 0 \<lparr>pkt_type_flags = 0x62, pkt_remaining_len = 2, pkt_buf = [0, 7]\<rparr>
     (example_mesh [-1]))) 6) = []"
proof -
  have "unreleased 0 7 (example_mesh [-1]) = Some (letter_a 2)"
    by (simp add: unreleased_def mesh_qos2_find_def slot_of_def example_mesh_facts example_client_eq)
  then show ?thesis
    using released_message_lost [of "example_mesh [-1]" 7 "letter_a 2"
        "\<lparr>pkt_type_flags = 0x62, pkt_remaining_len = 2, pkt_buf = [0, 7]\<rparr>" "-1" "[]" 6]
    by (simp add: example_mesh_facts example_client_facts example_client_eq(4,5) letter_a_ok packet_id_from_ack_def read_u16_def quiet_sock_def)
qed

theorem admission_limited_witness:
  "so_sent (bk_socks (broker_accept_one True 1 6 (snd (client_alloc True 5 (idle_broker 2 2)))) 6) = [0x20, 2, 0, 3]"
proof -
  let ?b = "snd (client_alloc True 5 (idle_broker 2 2))"
  have "length (bk_clients ?b) = 2" "client_used_slots ?b = 1" "bk_socks ?b 6 = quiet_sock"
    by (simp_all add: client_alloc_def idle_broker_def client_pool_init_def static_broker_def client_used_slots_def
        upd_client_def upd_thread_def upd_nth_def zero_client_def eval_nat_numeral)
  then show ?thesis
    using admission_limited [of 6 1 ?b True] by (simp add: accepting_def quiet_sock_def)
qed

theorem mesh_filter_forgotten_witness:
  "let m = (example_mesh [])\<lparr>ms_broker := (ms_broker (example_mesh []))\<lparr>bk_subs := [zero_sub\<lparr>sub_in_use := True, sub_filter := [97]\<rparr>]\<rparr>\<rparr>
   in advertised (ms_broker (on_broker (topic_unsubscribe 0 [97]) m)) [97] = None"
proof -
  let ?m = "(example_mesh [])\<lparr>ms_broker := (ms_broker (example_mesh []))\<lparr>bk_subs := [zero_sub\<lparr>sub_in_use := True, sub_filter := [97]\<rparr>]\<rparr>\<rparr>"
  have "own_slot (ms_broker ?m) 0 [97] = Some 0"
    by (simp add: own_slot_def owns_def zero_sub_def example_mesh_facts)
  moreover have "fst (filter_stats_locked [97] (bk_subs (ms_broker ?m))) = 1"
    by (simp add: filter_stats_locked_def zero_sub_def)
  ultimately show ?thesis
    using mesh_filter_forgotten [of ?m 0 "[97]" 0 0 "\<lparr>mb_filter = [97], mb_qos = 1, mb_in_use = True\<rparr>"]
      example_mesh_facts(1,2,7) [of "[]"] by (simp add: mesh_at_def example_client_eq(1,4))
qed

theorem mesh_qos2_published_once_witness:
  "let m = upd_mesh 0 (\<lambda>_. zero_mesh_client\<lparr>mc_fd := 5, mc_in_use := True\<rparr>) (mesh_start (static_broker 1 2 (\<lambda>_. quiet_sock)) 1);
       pkt = (\<lambda>flags. \<lparr>pkt_type_flags = flags, pkt_remaining_len = 5, pkt_buf = [0, 1, 97, 0, 7]\<rparr>);
       m2 = fold (\<lambda>(stack, dup). mesh_handle_publish stack 0 dup) [(zero_publish, pkt 0x3C)] (mesh_handle_publish zero_publish 0 (pkt 0x34) m)
   in published m2 = [] \<and>
      published (mesh_handle_pubrel 0 \<lparr>pkt_type_flags = 0x62, pkt_remaining_len = 2, pkt_buf = [0, 7]\<rparr> m2) = [letter_a 2]"
proof -
  define b where "b = static_broker 1 2 (\<lambda>_. quiet_sock)"
  define cl where "cl = zero_mesh_client\<lparr>mc_fd := 5, mc_in_use := True\<rparr>"
  define m where "m = upd_mesh 0 (\<lambda>_. cl) (mesh_start b 1)"
  define pkt where "pkt = (\<lambda>flags. \<lparr>pkt_type_flags = flags, pkt_remaining_len = 5, pkt_buf = [0, 1, 97, 0, 7]\<rparr>)"
  define rel where "rel = \<lparr>pkt_type_flags = 0x62, pkt_remaining_len = 2, pkt_buf = [0, 7]\<rparr>"
  have parse: "packet_parse_publish (pkt 0x34) zero_publish = Some (letter_a 2)"
    "packet_parse_publish (pkt 0x3C) zero_publish = Some ((letter_a 2)\<lparr>pub_dup := 1\<rparr>)"
    using parse_publish_body [of "letter_a 2" 5 zero_publish] parse_publish_body [of "(letter_a 2)\<lparr>pub_dup := 1\<rparr>" 5 zero_publish]
    by (simp_all add: pkt_def letter_a_def zero_publish_def publish_ok_def cstr_ok_def publish_body_def write_str_def
        write_u16_def publish_header_def)
  have start: "mesh_ok (mesh_start b 1)" "mesh_client_alloc 5 (mesh_start b 1) = (Some 0, m)"
    subgoal by (rule mesh_start_ok) (simp_all add: b_def static_broker_def zero_sub_def)
    subgoal by (simp add: cl_def m_def mesh_client_alloc_def mesh_start_def zero_mesh_client_def eval_nat_numeral)
    done
  have "mesh_ok m" using keeps_mesh_alloc [OF _ start(2)] start(1) by (simp add: mesh_keeps_def)
  moreover have m: "mesh_at m 0 = cl" "length (ms_clients m) = 2" "ms_broker m = b"
    by (simp_all add: m_def mesh_start_def mesh_at_def upd_mesh_def)
  moreover have "mesh_qos2_find 7 cl = None" "mesh_qos2_alloc cl \<noteq> None"
    by (simp_all add: mesh_qos2_find_def mesh_qos2_alloc_def slot_of_def free_slot_def cl_def zero_mesh_client_def four)
  moreover have "packet_id_from_ack rel = 7" by (simp add: rel_def packet_id_from_ack_def read_u16_def)
  moreover have "mesh_qos2_packet 7 (zero_publish, pkt 0x34)" "mesh_qos2_packet 7 (zero_publish, pkt 0x3C)"
    by (simp_all add: mesh_qos2_packet_def parse) (simp_all add: letter_a_def)
  moreover have "published m = []" "bk_cfg_p2p b" by (simp_all add: published_def m b_def static_broker_def)
  ultimately show ?thesis
    using mesh_qos2_published_once [of m 0 7 zero_publish "pkt 0x34" "[(zero_publish, pkt 0x3C)]" rel "[]"] parse(1)
    by (simp add: Let_def m_def cl_def b_def pkt_def rel_def)
qed


end
