(* ===== verification/P2P_Node.thy ===== *)
theory P2P_Node
  imports Broker_Prelude "HOL-Library.List_Lexorder" "HOL-Library.Multiset"
begin

text \<open>
  Identifiers of the nodes of the peer network (\<^verbatim>\<open>src/include/p2p.h\<close>) and the FNV-1a hash the
  network code computes in several places. A \<open>uint8_t[16]\<close> is wrapped in the type \<open>node_id\<close>; the
  comparison \<open>memcmp (a, b, 16)\<close> of the code is the linear order of the type, so that sorting
  and minima of the library apply. \<open>id_equal\<close> of the code is equality.
\<close>

abbreviation (input) P2P_NODE_ID_LEN :: nat where "P2P_NODE_ID_LEN \<equiv> 16"
abbreviation (input) P2P_PEER_MAX :: nat where "P2P_PEER_MAX \<equiv> 10"

datatype node_id = NodeId (id_bytes: "byte list")

instantiation node_id :: linorder
begin

definition less_node_id :: "node_id \<Rightarrow> node_id \<Rightarrow> bool" where
  "less_node_id a b \<longleftrightarrow> id_bytes a < id_bytes b"

definition less_eq_node_id :: "node_id \<Rightarrow> node_id \<Rightarrow> bool" where
  "less_eq_node_id a b \<longleftrightarrow> id_bytes a \<le> id_bytes b"

instance
proof
  fix a b c :: node_id
  show "(a < b) = (a \<le> b \<and> \<not> b \<le> a)" by (auto simp: less_node_id_def less_eq_node_id_def)
  show "a \<le> a" by (simp add: less_eq_node_id_def)
  show "a \<le> b \<Longrightarrow> b \<le> c \<Longrightarrow> a \<le> c" by (auto simp: less_eq_node_id_def)
  show "a \<le> b \<Longrightarrow> b \<le> a \<Longrightarrow> a = b" by (cases a; cases b) (simp add: less_eq_node_id_def)
  show "a \<le> b \<or> b \<le> a" by (auto simp: less_eq_node_id_def)
qed

end

definition id_ok :: "node_id \<Rightarrow> bool" where
  "id_ok a \<longleftrightarrow> length (id_bytes a) = P2P_NODE_ID_LEN"

definition id_zero :: node_id where
  "id_zero = NodeId (replicate P2P_NODE_ID_LEN 0)"

definition id_cmp :: "node_id \<Rightarrow> node_id \<Rightarrow> int" where
  "id_cmp a b = memcmp (id_bytes a) (id_bytes b)"

lemma memcmp_lex: "length a = length b \<Longrightarrow> memcmp a b < 0 \<longleftrightarrow> a < b"
  by (induction a b rule: memcmp.induct) auto

lemma id_cmp_less:
  assumes "id_ok a" and "id_ok b"
  shows "id_cmp a b < 0 \<longleftrightarrow> a < b" and "id_cmp a b = 0 \<longleftrightarrow> a = b" and "id_cmp a b > 0 \<longleftrightarrow> b < a"
proof -
  have l: "length (id_bytes a) = length (id_bytes b)" using assms by (simp add: id_ok_def)
  show "id_cmp a b < 0 \<longleftrightarrow> a < b" using memcmp_lex [OF l] by (simp add: id_cmp_def less_node_id_def)
  show "id_cmp a b = 0 \<longleftrightarrow> a = b" using memcmp_eq_0 [OF l] by (cases a; cases b) (simp add: id_cmp_def)
  show "id_cmp a b > 0 \<longleftrightarrow> b < a"
    using memcmp_lex [OF l [symmetric]] memcmp_antisym [of "id_bytes a" "id_bytes b"]
    by (simp add: id_cmp_def less_node_id_def)
qed

subsection \<open>FNV-1a\<close>

definition fnv1a :: "u32 \<Rightarrow> byte list \<Rightarrow> u32" where
  "fnv1a h bs = fold (\<lambda>b h. fnv_step h b) bs h"

lemma fnv1a_append: "fnv1a h (as @ bs) = fnv1a (fnv1a h as) bs"
  by (simp add: fnv1a_def)

subsection \<open>The exchange sort\<close>

text \<open>
  Two nested loops over \<open>i < j\<close> that exchange the entries at \<open>i\<close> and \<open>j\<close> when \<open>swap\<close> says so: one
  pass of the inner loop moves the first of the rest to the front.
\<close>

fun sort_pass :: "('a \<Rightarrow> 'a \<Rightarrow> bool) \<Rightarrow> 'a \<Rightarrow> 'a list \<Rightarrow> 'a \<times> 'a list" where
  "sort_pass swap x [] = (x, [])"
| "sort_pass swap x (y # ys) =
     (if swap x y then (let (m, zs) = sort_pass swap y ys in (m, x # zs))
      else (let (m, zs) = sort_pass swap x ys in (m, y # zs)))"

lemma sort_pass_length [termination_simp]: "length (snd (sort_pass swap x ys)) = length ys"
  by (induction swap x ys rule: sort_pass.induct) (auto split: prod.splits)

fun exchange_sort :: "('a \<Rightarrow> 'a \<Rightarrow> bool) \<Rightarrow> 'a list \<Rightarrow> 'a list" where
  "exchange_sort swap [] = []"
| "exchange_sort swap (x # xs) = fst (sort_pass swap x xs) # exchange_sort swap (snd (sort_pass swap x xs))"

lemma sort_pass_mset: "add_mset (fst (sort_pass swap x ys)) (mset (snd (sort_pass swap x ys))) = add_mset x (mset ys)"
  by (induction swap x ys rule: sort_pass.induct) (auto split: prod.splits simp: add_mset_commute)

lemma sort_pass_set: "insert (fst (sort_pass swap x ys)) (set (snd (sort_pass swap x ys))) = insert x (set ys)"
  using arg_cong [OF sort_pass_mset, of set_mset swap x ys] by simp

lemma exchange_sort_mset [simp]: "mset (exchange_sort swap xs) = mset xs"
  by (induction swap xs rule: exchange_sort.induct) (simp_all add: sort_pass_mset)

lemma exchange_sort_set [simp]: "set (exchange_sort swap xs) = set xs"
  using mset_eq_setD [OF exchange_sort_mset] .

lemma exchange_sort_length [simp]: "length (exchange_sort swap xs) = length xs"
  using mset_eq_length [OF exchange_sort_mset] .

text \<open>With an exchange test that follows a key, on the elements of the list, the result is sorted by it.\<close>

definition swaps_by :: "('a \<Rightarrow> 'k::linorder) \<Rightarrow> ('a \<Rightarrow> 'a \<Rightarrow> bool) \<Rightarrow> 'a set \<Rightarrow> bool" where
  "swaps_by key swap A \<longleftrightarrow> (\<forall>a \<in> A. \<forall>b \<in> A. if swap a b then key b \<le> key a else key a \<le> key b)"

lemma swaps_by_mono: "swaps_by key swap A \<Longrightarrow> B \<subseteq> A \<Longrightarrow> swaps_by key swap B"
  unfolding swaps_by_def by blast

lemma sort_pass_least:
  "swaps_by key swap (insert x (set ys)) \<Longrightarrow> p \<in> insert x (set ys) \<Longrightarrow> key (fst (sort_pass swap x ys)) \<le> key p"
proof (induction swap x ys arbitrary: p rule: sort_pass.induct)
  case (2 swap x y ys)
  let ?z = "if swap x y then y else x"
  have k: "key ?z \<le> key x" "key ?z \<le> key y" using "2.prems"(1) by (auto simp: swaps_by_def)
  have e: "fst (sort_pass swap x (y # ys)) = fst (sort_pass swap ?z ys)" by (simp add: case_prod_beta Let_def)
  have s: "swaps_by key swap (insert ?z (set ys))" using "2.prems"(1) by (simp add: swaps_by_def)
  have IH: "key (fst (sort_pass swap ?z ys)) \<le> key q" if "q \<in> insert ?z (set ys)" for q
    using that "2.IH" s by (cases "swap x y") auto
  consider "p = x" | "p = y" | "p \<in> set ys" using "2.prems"(2) by auto
  then show ?case
    using IH [of ?z] IH [of p] k order_trans unfolding e by cases (blast, blast, simp)
qed simp

lemma exchange_sort_sorted: "swaps_by key swap (set xs) \<Longrightarrow> sorted (map key (exchange_sort swap xs))"
proof (induction swap xs rule: exchange_sort.induct)
  case (2 swap x xs)
  have s: "set (snd (sort_pass swap x xs)) \<subseteq> insert x (set xs)" using sort_pass_set [of swap x xs] by blast
  then have "swaps_by key swap (set (snd (sort_pass swap x xs)))"
    using "2.prems" swaps_by_mono [of key swap "set (x # xs)"] by simp
  then have "sorted (map key (exchange_sort swap (snd (sort_pass swap x xs))))" by (rule "2.IH")
  moreover have "\<forall>p \<in> set (snd (sort_pass swap x xs)). key (fst (sort_pass swap x xs)) \<le> key p"
    using sort_pass_least [of key swap x xs] "2.prems" s by auto
  ultimately show ?case by simp
qed simp

text \<open>With distinct keys there is one sorted order, that of the library's sort.\<close>

lemma sorted_mset_unique:
  assumes "mset xs = mset ys" and "inj_on f (set xs)" and "sorted (map f xs)" and "sorted (map f ys)"
  shows "xs = ys"
proof -
  have "map f xs = map f ys"
    using assms(1,3,4) properties_for_sort [of "map f xs" "map f ys"] by (metis mset_map sorted_sort_id)
  moreover have "set xs = set ys" using assms(1) mset_eq_setD by blast
  ultimately show ?thesis using assms(2) map_inj_on [of f xs ys] by simp
qed

lemma exchange_sort_eq:
  "swaps_by key swap (set xs) \<Longrightarrow> inj_on key (set xs) \<Longrightarrow> exchange_sort swap xs = sort_key key xs"
  by (rule sorted_mset_unique [of _ _ key]) (simp_all add: exchange_sort_sorted)

end
