(* ===== verification/P2P_Router.thy ===== *)
theory P2P_Router
  imports P2P_Node Topic_Match Packet_Correct
begin

text \<open>
  The router of \<^verbatim>\<open>src/p2p_router.c\<close>: which remote node subscribed to what (\<open>remote_nodes\<close>), and
  two tables derived from it that the publish path searches: a hash table with linear probing
  for filters without wildcards, whose deleted slots stay as tombstones, and a list of filters
  with wildcards.

  The capacities are the lengths of the lists: \<open>p\<close> subscriptions per node and \<open>n\<close> nodes, and
  \<open>n * p\<close> slots in each route table (\<open>P2P_REMOTE_EXACT_ROUTE_MAX\<close>).
\<close>

subsection \<open>State\<close>

record remote_sub =
  rs_filter :: cstr
  rs_qos :: byte
  rs_in_use :: bool

record remote_node =
  rn_owner :: node_id
  rn_next_hop :: node_id
  rn_in_use :: bool
  rn_subs :: "remote_sub list"

text \<open>\<open>in_use\<close> of a slot of the hash table: 0, \<open>P2P_EXACT_ROUTE_USED\<close>, \<open>P2P_EXACT_ROUTE_DELETED\<close>.\<close>

datatype route_use = RouteEmpty | RouteUsed | RouteDeleted

record exact_route =
  er_owner :: node_id
  er_next_hop :: node_id
  er_filter :: cstr
  er_use :: route_use

record wildcard_route =
  wr_owner :: node_id
  wr_next_hop :: node_id
  wr_filter :: cstr
  wr_in_use :: bool

record router =
  rt_nodes :: "remote_node list"
  rt_exact :: "exact_route list"
  rt_wild :: "wildcard_route list"

definition zero_remote_sub :: remote_sub where
  "zero_remote_sub = \<lparr>rs_filter = [], rs_qos = 0, rs_in_use = False\<rparr>"

definition zero_remote_node :: "nat \<Rightarrow> remote_node" where
  "zero_remote_node p = \<lparr>rn_owner = id_zero, rn_next_hop = id_zero, rn_in_use = False,
     rn_subs = replicate p zero_remote_sub\<rparr>"

definition zero_exact_route :: exact_route where
  "zero_exact_route = \<lparr>er_owner = id_zero, er_next_hop = id_zero, er_filter = [], er_use = RouteEmpty\<rparr>"

definition zero_wildcard_route :: wildcard_route where
  "zero_wildcard_route = \<lparr>wr_owner = id_zero, wr_next_hop = id_zero, wr_filter = [], wr_in_use = False\<rparr>"

text \<open>The static tables of the translation unit, and \<open>p2p_router_init\<close>, which does nothing.\<close>

definition static_router :: "nat \<Rightarrow> nat \<Rightarrow> router" where
  "static_router n p = \<lparr>rt_nodes = replicate n (zero_remote_node p),
     rt_exact = replicate (n * p) zero_exact_route, rt_wild = replicate (n * p) zero_wildcard_route\<rparr>"

definition p2p_router_init :: "router \<Rightarrow> router" where
  "p2p_router_init r = r"

subsection \<open>The route tables\<close>

definition filter_is_exact :: "cstr \<Rightarrow> bool" where
  "filter_is_exact f \<longleftrightarrow> \<not> has_wildcard f"

definition hash_filter :: "cstr \<Rightarrow> u32" where
  "hash_filter f = fnv1a 2166136261 f"

text \<open>The slots in the order the probing loop visits them.\<close>

definition probe :: "cstr \<Rightarrow> nat \<Rightarrow> nat list" where
  "probe f n = map (\<lambda>step. (unat (hash_filter f) mod n + step) mod n) [0..<n]"

text \<open>
  The probing loop of an insertion: \<open>Inl i\<close> when the entry is already at slot \<open>i\<close>, otherwise
  the slot to use, which is the first tombstone or the empty slot that ends the search.
\<close>

fun probe_insert ::
  "exact_route list \<Rightarrow> node_id \<Rightarrow> cstr \<Rightarrow> nat list \<Rightarrow> nat option \<Rightarrow> nat + nat option" where
  "probe_insert es own f [] free_route = Inr free_route"
| "probe_insert es own f (i # is) free_route =
     (let r = es ! i in
      if er_use r = RouteUsed \<and> er_owner r = own \<and> er_filter r = f then Inl i
      else if er_use r = RouteEmpty then Inr (if free_route \<noteq> None then free_route else Some i)
      else probe_insert es own f is
             (if er_use r = RouteDeleted \<and> free_route = None then Some i else free_route))"

definition exact_route_upsert_locked :: "node_id \<Rightarrow> node_id \<Rightarrow> cstr \<Rightarrow> exact_route list \<Rightarrow> exact_route list" where
  "exact_route_upsert_locked own hop f es =
     (if \<not> filter_is_exact f then es
      else case probe_insert es own f (probe f (length es)) None of
             Inl i \<Rightarrow> upd_nth i (\<lambda>r. r\<lparr>er_next_hop := hop\<rparr>) es
           | Inr (Some i) \<Rightarrow> upd_nth i (\<lambda>_. \<lparr>er_owner = own, er_next_hop = hop,
               er_filter = strncpy_str MQTT_TOPIC_MAX f, er_use = RouteUsed\<rparr>) es
           | Inr None \<Rightarrow> es)"

definition wildcard_key :: "wildcard_route \<Rightarrow> node_id \<times> cstr" where
  "wildcard_key r = (wr_owner r, wr_filter r)"

definition wildcard_route_upsert_locked ::
  "node_id \<Rightarrow> node_id \<Rightarrow> cstr \<Rightarrow> wildcard_route list \<Rightarrow> wildcard_route list" where
  "wildcard_route_upsert_locked own hop f ws =
     (if filter_is_exact f then ws
      else case slot_of wr_in_use wildcard_key (own, f) ws of
             Some i \<Rightarrow> upd_nth i (\<lambda>r. r\<lparr>wr_next_hop := hop\<rparr>) ws
           | None \<Rightarrow>
               (case free_slot wr_in_use ws of
                  Some i \<Rightarrow> upd_nth i (\<lambda>_. \<lparr>wr_owner = own, wr_next_hop = hop,
                    wr_filter = strncpy_str MQTT_TOPIC_MAX f, wr_in_use = True\<rparr>) ws
                | None \<Rightarrow> ws))"

definition exact_route_remove_locked :: "node_id \<Rightarrow> cstr \<Rightarrow> exact_route list \<Rightarrow> exact_route list" where
  "exact_route_remove_locked own f es =
     map (\<lambda>r. if er_use r = RouteUsed \<and> er_owner r = own \<and> er_filter r = f
              then r\<lparr>er_use := RouteDeleted\<rparr> else r) es"

definition wildcard_route_remove_locked :: "node_id \<Rightarrow> cstr \<Rightarrow> wildcard_route list \<Rightarrow> wildcard_route list" where
  "wildcard_route_remove_locked own f ws =
     map (\<lambda>r. if wr_in_use r \<and> wr_owner r = own \<and> wr_filter r = f then r\<lparr>wr_in_use := False\<rparr> else r) ws"

definition exact_routes_remove_node_locked :: "node_id \<Rightarrow> exact_route list \<Rightarrow> exact_route list" where
  "exact_routes_remove_node_locked node es =
     map (\<lambda>r. if er_use r = RouteUsed \<and> (er_owner r = node \<or> er_next_hop r = node)
              then r\<lparr>er_use := RouteDeleted\<rparr> else r) es"

definition wildcard_routes_remove_node_locked :: "node_id \<Rightarrow> wildcard_route list \<Rightarrow> wildcard_route list" where
  "wildcard_routes_remove_node_locked node ws =
     map (\<lambda>r. if wr_in_use r \<and> (wr_owner r = node \<or> wr_next_hop r = node) then r\<lparr>wr_in_use := False\<rparr> else r) ws"

definition route_upsert_locked :: "node_id \<Rightarrow> node_id \<Rightarrow> cstr \<Rightarrow> router \<Rightarrow> router" where
  "route_upsert_locked own hop f r =
     r\<lparr>rt_exact := exact_route_upsert_locked own hop f (rt_exact r),
       rt_wild := wildcard_route_upsert_locked own hop f (rt_wild r)\<rparr>"

definition node_routes_refresh_locked :: "remote_node \<Rightarrow> router \<Rightarrow> router" where
  "node_routes_refresh_locked nd r =
     fold (\<lambda>s r. if rs_in_use s then route_upsert_locked (rn_owner nd) (rn_next_hop nd) (rs_filter s) r else r)
       (rn_subs nd) r"

subsection \<open>Nodes\<close>

text \<open>The result is the index of the node.\<close>

definition find_node_locked :: "node_id \<Rightarrow> bool \<Rightarrow> router \<Rightarrow> nat option \<times> router" where
  "find_node_locked own create r =
     (case slot_of rn_in_use rn_owner own (rt_nodes r) of
        Some i \<Rightarrow> (Some i, r)
      | None \<Rightarrow>
          (case free_slot rn_in_use (rt_nodes r) of
             Some i \<Rightarrow>
               if create
               then (Some i, r\<lparr>rt_nodes := upd_nth i
                      (\<lambda>nd. (zero_remote_node (length (rn_subs nd)))\<lparr>rn_owner := own, rn_in_use := True\<rparr>) (rt_nodes r)\<rparr>)
               else (None, r)
           | None \<Rightarrow> (None, r)))"

definition clear_node_if_empty_locked :: "remote_node \<Rightarrow> remote_node" where
  "clear_node_if_empty_locked nd =
     (if \<exists>s \<in> set (rn_subs nd). rs_in_use s then nd else zero_remote_node (length (rn_subs nd)))"

text \<open>The result is \<open>changed\<close>.\<close>

definition p2p_router_remote_subscribe ::
  "node_id \<Rightarrow> cstr \<Rightarrow> byte \<Rightarrow> node_id \<Rightarrow> router \<Rightarrow> bool \<times> router" where
  "p2p_router_remote_subscribe own f qos hop r =
     (let next_is_direct = (hop = own) in
      case find_node_locked own True r of
        (None, r) \<Rightarrow> (False, r)
      | (Some n, r) \<Rightarrow>
          (let nd = rt_nodes r ! n;
               route_changed = (rn_next_hop nd = id_zero \<or> (next_is_direct \<and> rn_next_hop nd \<noteq> own));
               nd = (if route_changed then nd\<lparr>rn_next_hop := hop\<rparr> else nd);
               found = slot_of rs_in_use rs_filter f (rn_subs nd);
               slot = (if found \<noteq> None then found else free_slot rs_in_use (rn_subs nd))
           in case slot of
                None \<Rightarrow> (False, r\<lparr>rt_nodes := upd_nth n (\<lambda>_. nd) (rt_nodes r)\<rparr>)
              | Some j \<Rightarrow>
                  (let changed = (route_changed \<or> found = None \<or> rs_qos (rn_subs nd ! j) \<noteq> qos);
                       nd = nd\<lparr>rn_subs := upd_nth j (\<lambda>_. \<lparr>rs_filter = strncpy_str MQTT_TOPIC_MAX f,
                         rs_qos = qos, rs_in_use = True\<rparr>) (rn_subs nd)\<rparr>;
                       r = r\<lparr>rt_nodes := upd_nth n (\<lambda>_. nd) (rt_nodes r)\<rparr>
                   in (changed,
                       if route_changed then node_routes_refresh_locked nd r
                       else route_upsert_locked own (rn_next_hop nd) f r))))"

definition p2p_router_remote_unsubscribe :: "node_id \<Rightarrow> cstr \<Rightarrow> router \<Rightarrow> bool \<times> router" where
  "p2p_router_remote_unsubscribe own f r =
     (case find_node_locked own False r of
        (None, r) \<Rightarrow> (False, r)
      | (Some n, r) \<Rightarrow>
          (let nd = rt_nodes r ! n;
               changed = (\<exists>s \<in> set (rn_subs nd). rs_in_use s \<and> rs_filter s = f);
               nd = nd\<lparr>rn_subs := map (\<lambda>s. if rs_in_use s \<and> rs_filter s = f then s\<lparr>rs_in_use := False\<rparr> else s)
                         (rn_subs nd)\<rparr>;
               r = (if changed
                    then r\<lparr>rt_exact := exact_route_remove_locked own f (rt_exact r),
                           rt_wild := wildcard_route_remove_locked own f (rt_wild r)\<rparr>
                    else r)
           in (changed, r\<lparr>rt_nodes := upd_nth n (\<lambda>_. clear_node_if_empty_locked nd) (rt_nodes r)\<rparr>)))"

definition p2p_router_remove_node :: "node_id \<Rightarrow> router \<Rightarrow> router" where
  "p2p_router_remove_node node r =
     \<lparr>rt_nodes = map (\<lambda>nd. if rn_in_use nd \<and> (rn_owner nd = node \<or> rn_next_hop nd = node)
                           then zero_remote_node (length (rn_subs nd)) else nd) (rt_nodes r),
      rt_exact = exact_routes_remove_node_locked node (rt_exact r),
      rt_wild = wildcard_routes_remove_node_locked node (rt_wild r)\<rparr>"

record router_stats =
  st_remote_nodes :: byte
  st_remote_subs :: u16
  st_exact_routes :: u16
  st_wildcard_routes :: u16

definition p2p_router_stats :: "router \<Rightarrow> router_stats" where
  "p2p_router_stats r =
     (let nodes = filter rn_in_use (rt_nodes r) in
      \<lparr>st_remote_nodes = of_nat (length nodes),
       st_remote_subs = of_nat (sum_list (map (\<lambda>nd. used_count rs_in_use (rn_subs nd)) nodes)),
       st_exact_routes = of_nat (used_count (\<lambda>e. er_use e = RouteUsed) (rt_exact r)),
       st_wildcard_routes = of_nat (used_count wr_in_use (rt_wild r))\<rparr>)"

subsection \<open>Next hops\<close>

definition add_hop :: "node_id \<Rightarrow> node_id list \<Rightarrow> node_id list" where
  "add_hop hop hops = (if hop \<in> set hops then hops else hops @ [hop])"

text \<open>The probing loop of a lookup, which stops at the first empty slot or when \<open>out\<close> is full.\<close>

fun probe_hops ::
  "exact_route list \<Rightarrow> cstr \<Rightarrow> node_id option \<Rightarrow> nat \<Rightarrow> nat list \<Rightarrow> node_id list \<Rightarrow> node_id list" where
  "probe_hops es topic excl max_hops [] hops = hops"
| "probe_hops es topic excl max_hops (i # is) hops =
     (let r = es ! i in
      if \<not> length hops < max_hops then hops
      else if er_use r = RouteEmpty then hops
      else if er_use r \<noteq> RouteUsed then probe_hops es topic excl max_hops is hops
      else if er_filter r \<noteq> topic then probe_hops es topic excl max_hops is hops
      else if excl = Some (er_next_hop r) then probe_hops es topic excl max_hops is hops
      else probe_hops es topic excl max_hops is (add_hop (er_next_hop r) hops))"

fun wildcard_hops ::
  "wildcard_route list \<Rightarrow> cstr \<Rightarrow> node_id option \<Rightarrow> nat \<Rightarrow> node_id list \<Rightarrow> node_id list" where
  "wildcard_hops [] topic excl max_hops hops = hops"
| "wildcard_hops (r # rs) topic excl max_hops hops =
     (if \<not> length hops < max_hops then hops
      else if \<not> wr_in_use r then wildcard_hops rs topic excl max_hops hops
      else if excl = Some (wr_next_hop r) then wildcard_hops rs topic excl max_hops hops
      else if wr_next_hop r \<in> set hops then wildcard_hops rs topic excl max_hops hops
      else if router_topic_match (wr_filter r) topic
      then wildcard_hops rs topic excl max_hops (hops @ [wr_next_hop r])
      else wildcard_hops rs topic excl max_hops hops)"

definition p2p_router_find_next_hops :: "cstr \<Rightarrow> node_id option \<Rightarrow> nat \<Rightarrow> router \<Rightarrow> node_id list" where
  "p2p_router_find_next_hops topic excl max_hops r =
     (if max_hops = 0 then []
      else if filter_is_exact topic
      then wildcard_hops (rt_wild r) topic excl max_hops
             (probe_hops (rt_exact r) topic excl max_hops (probe topic (length (rt_exact r))) [])
      else wildcard_hops (rt_wild r) topic excl max_hops [])"

subsection \<open>Linear probing\<close>

definition nonempty :: "exact_route list \<Rightarrow> nat \<Rightarrow> bool" where
  "nonempty es i \<longleftrightarrow> er_use (es ! i) \<noteq> RouteEmpty"

definition exact_key :: "exact_route \<Rightarrow> node_id \<times> cstr" where
  "exact_key r = (er_owner r, er_filter r)"

definition er_used :: "exact_route \<Rightarrow> bool" where
  "er_used r \<longleftrightarrow> er_use r = RouteUsed"

lemma set_probe: "set (probe f n) = {..<n}"
proof (cases "n = 0")
  case False
  let ?s = "unat (hash_filter f) mod n"
  have s: "?s < n" using False by simp
  have "i \<in> set (probe f n)" if i: "i < n" for i
  proof (cases "?s \<le> i")
    case True
    then have "(?s + (i - ?s)) mod n = i" "i - ?s < n" using i by simp_all
    then show ?thesis unfolding probe_def by force
  next
    case False
    then have "(?s + (i + n - ?s)) mod n = i" "i + n - ?s < n" using i s by (simp_all add: mod_add_self2)
    then show ?thesis unfolding probe_def by force
  qed
  then show ?thesis using s by (auto simp: probe_def)
qed (simp add: probe_def)

lemma takeWhile_mono_set:
  "(\<And>x. x \<in> set xs \<Longrightarrow> P x \<Longrightarrow> Q x) \<Longrightarrow> set (takeWhile P xs) \<subseteq> set (takeWhile Q xs)"
  by (induction xs) auto

text \<open>What the insertion loop finds, on any list of slots still to visit.\<close>

lemma probe_insert_spec:
  assumes "probe_insert es own f is fr = res"
  shows "case res of
      Inl i \<Rightarrow> i \<in> set is \<and> er_used (es ! i) \<and> exact_key (es ! i) = (own, f)
    | Inr None \<Rightarrow> fr = None \<and> (\<forall>i \<in> set is. er_used (es ! i) \<and> exact_key (es ! i) \<noteq> (own, f))
    | Inr (Some i) \<Rightarrow>
        (\<forall>j \<in> set (takeWhile (nonempty es) is). er_used (es ! j) \<longrightarrow> exact_key (es ! j) \<noteq> (own, f)) \<and>
        (fr = Some i \<or> fr = None \<and> i \<in> set (takeWhile (\<lambda>j. nonempty es j \<or> j = i) is) \<and> \<not> er_used (es ! i))"
  using assms
proof (induction "is" arbitrary: fr res)
  case (Cons i "is")
  let ?r = "es ! i"
  consider (hit) "er_used ?r" "exact_key ?r = (own, f)" "nonempty es i" "er_use ?r = RouteUsed"
    | (used) "er_used ?r" "exact_key ?r \<noteq> (own, f)" "nonempty es i" "er_use ?r = RouteUsed"
    | (empty) "\<not> er_used ?r" "\<not> nonempty es i" "er_use ?r = RouteEmpty"
    | (deleted) "\<not> er_used ?r" "nonempty es i" "er_use ?r = RouteDeleted"
    by (cases "er_use ?r") (auto simp: er_used_def nonempty_def)
  then show ?case
  proof cases
    case hit
    then have "res = Inl i" using Cons.prems by (simp add: exact_key_def)
    then show ?thesis using hit by simp
  next
    case empty
    then have "res = Inr (if fr \<noteq> None then fr else Some i)" using Cons.prems by simp
    then show ?thesis using empty by auto
  next
    case used
    then have "probe_insert es own f is fr = res" using Cons.prems by (auto simp: Let_def exact_key_def)
    from Cons.IH [OF this] show ?thesis
      using used by (auto split: sum.splits option.splits)
  next
    case deleted
    then have "probe_insert es own f is (if fr = None then Some i else fr) = res"
      using Cons.prems by (simp split: if_splits)
    from Cons.IH [OF this] show ?thesis
      using deleted by (auto split: sum.splits option.splits if_splits)
  qed
qed (simp split: option.split)

definition exact_inv :: "exact_route list \<Rightarrow> bool" where
  "exact_inv es \<longleftrightarrow> keys_unique er_used exact_key es \<and>
     (\<forall>i < length es. er_used (es ! i) \<longrightarrow> filter_is_exact (er_filter (es ! i)) \<and> filter_ok (er_filter (es ! i)) \<and>
        i \<in> set (takeWhile (nonempty es) (probe (er_filter (es ! i)) (length es))))"

text \<open>The routes of a table as a map from owner and filter to the next hop.\<close>

definition exact_map :: "exact_route list \<Rightarrow> node_id \<times> cstr \<Rightarrow> node_id option" where
  "exact_map es k = map_option (\<lambda>i. er_next_hop (es ! i)) (slot_of er_used exact_key k es)"

definition wild_map :: "wildcard_route list \<Rightarrow> node_id \<times> cstr \<Rightarrow> node_id option" where
  "wild_map ws k = map_option (\<lambda>i. wr_next_hop (ws ! i)) (slot_of wr_in_use wildcard_key k ws)"

text \<open>A slot table as the set of its entries; with unique keys the map is read off the set.\<close>

lemma slot_map_iff:
  assumes "keys_unique used key xs"
  shows "map_option (\<lambda>i. val (xs ! i)) (slot_of used key k xs) = Some v \<longleftrightarrow>
    (\<exists>i < length xs. used (xs ! i) \<and> key (xs ! i) = k \<and> val (xs ! i) = v)"
proof
  assume "map_option (\<lambda>i. val (xs ! i)) (slot_of used key k xs) = Some v"
  then show "\<exists>i < length xs. used (xs ! i) \<and> key (xs ! i) = k \<and> val (xs ! i) = v"
    by (auto simp: slot_of_def dest: find_idx_SomeD)
next
  assume "\<exists>i < length xs. used (xs ! i) \<and> key (xs ! i) = k \<and> val (xs ! i) = v"
  then obtain i where i: "i < length xs" "used (xs ! i)" "key (xs ! i) = k" "val (xs ! i) = v" by blast
  then obtain j where j: "slot_of used key k xs = Some j"
    using find_idx_exI [of i xs "\<lambda>e. used e \<and> key e = k"] by (auto simp: slot_of_def)
  then have "j < length xs" "used (xs ! j)" "key (xs ! j) = k"
    by (auto simp: slot_of_def dest: find_idx_SomeD)
  then show "map_option (\<lambda>i. val (xs ! i)) (slot_of used key k xs) = Some v"
    using keys_uniqueD [OF assms, of i j] i j by simp
qed

lemma exact_map_iff: "exact_inv es \<Longrightarrow> exact_map es k = Some h \<longleftrightarrow>
    (\<exists>i < length es. er_used (es ! i) \<and> exact_key (es ! i) = k \<and> er_next_hop (es ! i) = h)"
  unfolding exact_map_def by (rule slot_map_iff) (simp add: exact_inv_def)

lemma map_ext_iff: "(\<And>k v. f k = Some v \<longleftrightarrow> g k = Some v) \<Longrightarrow> f = g"
  by (metis ext not_Some_eq)

lemma ex_upd_nth:
  assumes "i < length xs"
  shows "(\<exists>j < length xs. Q (upd_nth i (\<lambda>_. e) xs ! j)) \<longleftrightarrow> Q e \<or> (\<exists>j < length xs. j \<noteq> i \<and> Q (xs ! j))"
  using assms by (metis nth_upd_nth_other nth_upd_nth_same)

lemma keys_unique_put:
  assumes "keys_unique used key xs" and "i < length xs" and "used e \<Longrightarrow> key e = k"
    and "\<And>j. j < length xs \<Longrightarrow> used (xs ! j) \<Longrightarrow> key (xs ! j) = k \<Longrightarrow> j = i"
  shows "keys_unique used key (upd_nth i (\<lambda>_. e) xs)"
  unfolding keys_unique_def
proof (intro allI impI)
  let ?xs = "upd_nth i (\<lambda>_. e) xs"
  fix a b
  assume ab: "a < length ?xs" "b < length ?xs" "used (?xs ! a)" "used (?xs ! b)" and k: "key (?xs ! a) = key (?xs ! b)"
  show "a = b"
  proof (cases "a = i"; cases "b = i")
    assume "a = i" "b \<noteq> i"
    then show ?thesis using ab k assms(2,3) assms(4) [of b] by simp
  next
    assume "a \<noteq> i" "b = i"
    then show ?thesis using ab k assms(2,3) assms(4) [of a] by simp
  next
    assume "a \<noteq> i" "b \<noteq> i"
    then show ?thesis using ab k keys_uniqueD [OF assms(1), of a b] by simp
  qed simp
qed

text \<open>Storing one slot of the hash table, with a key that no other slot has.\<close>

lemma exact_store:
  assumes "exact_inv es" and "i < length es" and "er_used e" and "exact_key e = (own, f)" and "er_next_hop e = h"
    and "filter_is_exact f" and "filter_ok f"
    and "i \<in> set (takeWhile (\<lambda>j. nonempty es j \<or> j = i) (probe f (length es)))"
    and "\<And>j. j < length es \<Longrightarrow> er_used (es ! j) \<Longrightarrow> exact_key (es ! j) = (own, f) \<Longrightarrow> j = i"
    and "er_used (es ! i) \<Longrightarrow> exact_key (es ! i) = (own, f)"
  shows "exact_inv (upd_nth i (\<lambda>_. e) es)" and "exact_map (upd_nth i (\<lambda>_. e) es) = (exact_map es)((own, f) \<mapsto> h)"
proof -
  let ?es = "upd_nth i (\<lambda>_. e) es"
  have ne: "nonempty ?es j" if "nonempty es j \<or> j = i" "j < length es" for j
    using that assms(3) by (cases "j = i") (auto simp: nonempty_def er_used_def)
  have tw: "set (takeWhile (\<lambda>j. nonempty es j \<or> j = i) (probe g (length es)))
      \<subseteq> set (takeWhile (nonempty ?es) (probe g (length es)))" for g
    using ne set_probe [of g "length es"] by (intro takeWhile_mono_set) auto
  have tw0: "set (takeWhile (nonempty es) xs) \<subseteq> set (takeWhile (\<lambda>j. nonempty es j \<or> j = i) xs)" for xs
    by (rule takeWhile_mono_set) simp
  have ku: "keys_unique er_used exact_key ?es"
    using assms(1,4,9) by (intro keys_unique_put [of _ _ _ _ _ "(own, f)"]) (auto simp: exact_inv_def assms(2))
  show inv: "exact_inv ?es"
    unfolding exact_inv_def
  proof (intro conjI allI impI)
    fix j assume j: "j < length ?es" "er_used (?es ! j)"
    show "filter_is_exact (er_filter (?es ! j))" "filter_ok (er_filter (?es ! j))"
      using j assms(1,4,6,7) by (auto simp: nth_upd_nth exact_key_def exact_inv_def)
    show "j \<in> set (takeWhile (nonempty ?es) (probe (er_filter (?es ! j)) (length ?es)))"
    proof (cases "j = i")
      case True
      then have "er_filter (?es ! j) = f" using assms(2,4) by (simp add: exact_key_def)
      then show ?thesis using True assms(8) tw [of f] by auto
    next
      case False
      then have "j \<in> set (takeWhile (nonempty es) (probe (er_filter (es ! j)) (length es)))"
        using j assms(1) by (simp add: exact_inv_def)
      then have "j \<in> set (takeWhile (nonempty ?es) (probe (er_filter (es ! j)) (length es)))"
        using tw [of "er_filter (es ! j)"] tw0 by blast
      then show ?thesis using False by simp
    qed
  qed (rule ku)
  show "exact_map ?es = (exact_map es)((own, f) \<mapsto> h)"
  proof (rule map_ext_iff)
    fix k v
    have "exact_map ?es k = Some v \<longleftrightarrow> (\<exists>j < length es. er_used (?es ! j) \<and> exact_key (?es ! j) = k \<and> er_next_hop (?es ! j) = v)"
      using exact_map_iff [OF inv] by simp
    also have "\<dots> \<longleftrightarrow> (k = (own, f) \<and> v = h) \<or>
        (\<exists>j < length es. j \<noteq> i \<and> er_used (es ! j) \<and> exact_key (es ! j) = k \<and> er_next_hop (es ! j) = v)"
      unfolding ex_upd_nth [OF assms(2), of "\<lambda>r. er_used r \<and> exact_key r = k \<and> er_next_hop r = v"]
      using assms(3-5) by auto
    also have "\<dots> \<longleftrightarrow> ((exact_map es)((own, f) \<mapsto> h)) k = Some v"
      using exact_map_iff [OF assms(1), of k v] assms(9,10) by auto
    finally show "exact_map ?es k = Some v \<longleftrightarrow> ((exact_map es)((own, f) \<mapsto> h)) k = Some v" .
  qed
qed

lemma slot_of_Some_iff:
  "slot_of used key k xs \<noteq> None \<longleftrightarrow> (\<exists>i < length xs. used (xs ! i) \<and> key (xs ! i) = k)"
  by (auto simp: slot_of_def find_idx_None_nth)

lemma slot_of_SomeD: "slot_of used key k xs = Some i \<Longrightarrow> i < length xs \<and> used (xs ! i) \<and> key (xs ! i) = k"
  by (simp add: slot_of_def find_idx_Some)

lemma exact_upsert:
  assumes "exact_inv es" and "filter_ok f"
  shows "exact_inv (exact_route_upsert_locked own h f es)"
    and "filter_is_exact f \<Longrightarrow> exact_map es (own, f) \<noteq> None \<or> (\<exists>i < length es. \<not> er_used (es ! i)) \<Longrightarrow>
      exact_map (exact_route_upsert_locked own h f es) = (exact_map es)((own, f) \<mapsto> h)"
proof -
  let ?n = "length es"
  have inv: "keys_unique er_used exact_key es"
    "j < ?n \<Longrightarrow> er_used (es ! j) \<Longrightarrow> exact_key (es ! j) = (own, f) \<Longrightarrow> j \<in> set (takeWhile (nonempty es) (probe f ?n))" for j
    using assms(1) by (auto simp: exact_inv_def exact_key_def)
  have len: "length f < 128" using assms(2) by (simp add: filter_ok_def)
  have "exact_inv (exact_route_upsert_locked own h f es) \<and>
    (exact_map es (own, f) \<noteq> None \<or> (\<exists>i < ?n. \<not> er_used (es ! i)) \<longrightarrow>
      exact_map (exact_route_upsert_locked own h f es) = (exact_map es)((own, f) \<mapsto> h))" if ex: "filter_is_exact f"
  proof (cases "probe_insert es own f (probe f ?n) None")
    case (Inl i)
    then have i: "i < ?n" "er_used (es ! i)" "exact_key (es ! i) = (own, f)"
      using probe_insert_spec [OF Inl] set_probe [of f ?n] by auto
    let ?e = "(es ! i)\<lparr>er_next_hop := h\<rparr>"
    have "i \<in> set (takeWhile (\<lambda>j. nonempty es j \<or> j = i) (probe f ?n))"
      using inv(2) [OF i] takeWhile_mono_set [of "probe f ?n" "nonempty es" "\<lambda>j. nonempty es j \<or> j = i"] by blast
    moreover have "j = i" if "j < ?n" "er_used (es ! j)" "exact_key (es ! j) = (own, f)" for j
      using keys_uniqueD [OF inv(1)] that i by simp
    moreover have "exact_route_upsert_locked own h f es = upd_nth i (\<lambda>_. ?e) es"
      using ex Inl by (simp add: exact_route_upsert_locked_def upd_nth_def)
    moreover have "er_used ?e" "exact_key ?e = (own, f)" "er_next_hop ?e = h"
      using i by (simp_all add: er_used_def exact_key_def)
    ultimately show ?thesis
      using exact_store [OF assms(1) i(1), of ?e own f h] ex assms(2) i(3) by simp
  next
    case (Inr r)
    show ?thesis
    proof (cases r)
      case None
      have "\<forall>i < ?n. er_used (es ! i) \<and> exact_key (es ! i) \<noteq> (own, f)"
        using probe_insert_spec [OF Inr] None set_probe [of f ?n] by auto
      moreover from this have "exact_map es (own, f) = None"
        using slot_of_Some_iff [of er_used exact_key "(own, f)" es] by (auto simp: exact_map_def)
      ultimately show ?thesis
        using Inr None ex assms(1) by (auto simp: exact_route_upsert_locked_def)
    next
      case (Some i)
      note sp = probe_insert_spec [OF Inr, unfolded Some, simplified]
      then have i: "i < ?n" "\<not> er_used (es ! i)" "i \<in> set (takeWhile (\<lambda>j. nonempty es j \<or> j = i) (probe f ?n))"
        using set_probe [of f ?n] set_takeWhileD by fastforce+
      have "\<not> (j < ?n \<and> er_used (es ! j) \<and> exact_key (es ! j) = (own, f))" for j
        using inv(2) [of j] sp by blast
      moreover let ?e = "\<lparr>er_owner = own, er_next_hop = h, er_filter = strncpy_str 128 f, er_use = RouteUsed\<rparr>"
      have "exact_route_upsert_locked own h f es = upd_nth i (\<lambda>_. ?e) es"
        using ex Inr Some by (simp add: exact_route_upsert_locked_def)
      moreover have "er_used ?e" "exact_key ?e = (own, f)" "er_next_hop ?e = h"
        using len by (simp_all add: er_used_def exact_key_def)
      ultimately show ?thesis
        using exact_store [OF assms(1) i(1), of ?e own f h] ex assms(2) i(2,3) by auto
    qed
  qed
  then show "exact_inv (exact_route_upsert_locked own h f es)"
    and "filter_is_exact f \<Longrightarrow> exact_map es (own, f) \<noteq> None \<or> (\<exists>i < length es. \<not> er_used (es ! i)) \<Longrightarrow>
      exact_map (exact_route_upsert_locked own h f es) = (exact_map es)((own, f) \<mapsto> h)"
    using assms(1) by (auto simp: exact_route_upsert_locked_def)
qed

text \<open>A table that is not full has a slot for a new entry.\<close>

lemma slot_map_dom:
  "dom (\<lambda>k. map_option val (slot_of used key k xs)) = key ` {e \<in> set xs. used e}"
proof -
  have "slot_of used key k xs \<noteq> None \<longleftrightarrow> (\<exists>e \<in> set xs. used e \<and> key e = k)" for k
    using slot_of_Some_iff [of used key k xs] by (metis in_set_conv_nth)
  then show ?thesis by (auto simp: dom_def)
qed

lemma slot_room:
  assumes "keys_unique used key xs" and "card (key ` {e \<in> set xs. used e}) < length xs"
  shows "\<exists>i < length xs. \<not> used (xs ! i)"
proof (rule ccontr)
  assume "\<not> ?thesis"
  then have all: "\<forall>i < length xs. used (xs ! i)" by blast
  then have "inj_on (\<lambda>i. key (xs ! i)) {..<length xs}"
    using assms(1) by (auto simp: inj_on_def keys_unique_def)
  then have "card ((\<lambda>i. key (xs ! i)) ` {..<length xs}) = length xs" by (simp add: card_image)
  moreover have "(\<lambda>i. key (xs ! i)) ` {..<length xs} \<subseteq> key ` {e \<in> set xs. used e}" using all by auto
  moreover have "finite (key ` {e \<in> set xs. used e})" by simp
  ultimately show False using assms(2) card_mono by (metis not_less)
qed

subsection \<open>The interface of a route table\<close>

text \<open>
  What the router relies on: a table takes the filters it \<open>accepts\<close> and ignores the others; an
  upsert sets the route as long as the table has room, and a removal drops exactly the routes
  named. The lemmas inside say what refreshing all routes of one node does.
\<close>

locale route_table =
  fixes inv :: "'t \<Rightarrow> bool"
    and look :: "'t \<Rightarrow> node_id \<times> cstr \<Rightarrow> node_id option"
    and accepts :: "cstr \<Rightarrow> bool"
    and cap :: "'t \<Rightarrow> nat"
    and upsert :: "node_id \<Rightarrow> node_id \<Rightarrow> cstr \<Rightarrow> 't \<Rightarrow> 't"
    and remove :: "node_id \<Rightarrow> cstr \<Rightarrow> 't \<Rightarrow> 't"
    and remove_node :: "node_id \<Rightarrow> 't \<Rightarrow> 't"
  assumes upsert_inv: "inv t \<Longrightarrow> filter_ok f \<Longrightarrow> inv (upsert own h f t)"
    and upsert_look: "inv t \<Longrightarrow> filter_ok f \<Longrightarrow> accepts f \<Longrightarrow>
          look t (own, f) \<noteq> None \<or> card (dom (look t)) < cap t \<Longrightarrow>
          look (upsert own h f t) = (look t)((own, f) \<mapsto> h)"
    and upsert_skip: "\<not> accepts f \<Longrightarrow> upsert own h f t = t"
    and upsert_cap: "cap (upsert own h f t) = cap t"
    and look_dom: "inv t \<Longrightarrow> finite (dom (look t))" "inv t \<Longrightarrow> (own, f) \<in> dom (look t) \<Longrightarrow> accepts f"
    and remove_ok: "inv t \<Longrightarrow> inv (remove own f t)" "inv t \<Longrightarrow> look (remove own f t) = (look t)((own, f) := None)"
      "cap (remove own f t) = cap t"
    and remove_node_ok: "inv t \<Longrightarrow> inv (remove_node n t)" "cap (remove_node n t) = cap t"
      "inv t \<Longrightarrow> look (remove_node n t) = (\<lambda>k. if fst k = n \<or> look t k = Some n then None else look t k)"
begin

lemma upsert_within:
  assumes "inv t" and "filter_ok f" and "finite K" and "card K \<le> cap t" and "dom (look t) \<subseteq> K" and "(own, f) \<in> K"
  shows "look (upsert own h f t) = (if accepts f then (look t)((own, f) \<mapsto> h) else look t)"
proof (cases "accepts f")
  case True
  have "card (dom (look t)) < cap t" if "look t (own, f) = None"
  proof -
    have "dom (look t) \<subset> K" using assms(5,6) that by auto
    from psubset_card_mono [OF assms(3) this] show ?thesis using assms(4) by simp
  qed
  then have "look t (own, f) \<noteq> None \<or> card (dom (look t)) < cap t" by blast
  from upsert_look [OF assms(1,2) True this] show ?thesis using True by simp
qed (simp add: upsert_skip)

lemma refresh_inv:
  "inv t \<Longrightarrow> \<forall>f \<in> set fs. filter_ok f \<Longrightarrow> inv (fold (upsert own h) fs t) \<and> cap (fold (upsert own h) fs t) = cap t"
  by (induction fs arbitrary: t) (simp_all add: upsert_inv upsert_cap)

lemma refresh_within:
  assumes "inv t" and "\<forall>f \<in> set fs. filter_ok f" and "finite K" and "card K \<le> cap t" and "dom (look t) \<subseteq> K"
    and "\<forall>f \<in> set fs. (own, f) \<in> K"
  shows "inv (fold (upsert own h) fs t) \<and> cap (fold (upsert own h) fs t) = cap t \<and>
    look (fold (upsert own h) fs t) =
      (\<lambda>k. if fst k = own \<and> snd k \<in> set fs \<and> accepts (snd k) then Some h else look t k)"
  using assms
proof (induction fs arbitrary: t)
  case (Cons f fs)
  note up = upsert_within [OF Cons.prems(1) _ Cons.prems(3-5), of f own h]
  have l: "look (upsert own h f t) = (if accepts f then (look t)((own, f) \<mapsto> h) else look t)"
    using up Cons.prems by simp
  have "inv (fold (upsert own h) fs (upsert own h f t)) \<and> cap (fold (upsert own h) fs (upsert own h f t)) = cap (upsert own h f t) \<and>
    look (fold (upsert own h) fs (upsert own h f t)) =
      (\<lambda>k. if fst k = own \<and> snd k \<in> set fs \<and> accepts (snd k) then Some h else look (upsert own h f t) k)"
    using Cons.prems l by (intro Cons.IH) (auto simp: upsert_inv upsert_cap split: if_splits)
  then show ?case by (auto simp: l upsert_cap fun_eq_iff)
qed auto

end

definition wild_inv :: "wildcard_route list \<Rightarrow> bool" where
  "wild_inv ws \<longleftrightarrow> keys_unique wr_in_use wildcard_key ws \<and>
     (\<forall>i < length ws. wr_in_use (ws ! i) \<longrightarrow> \<not> filter_is_exact (wr_filter (ws ! i)) \<and> filter_ok (wr_filter (ws ! i)))"

lemma wild_map_iff: "wild_inv ws \<Longrightarrow> wild_map ws k = Some h \<longleftrightarrow>
    (\<exists>i < length ws. wr_in_use (ws ! i) \<and> wildcard_key (ws ! i) = k \<and> wr_next_hop (ws ! i) = h)"
  unfolding wild_map_def by (rule slot_map_iff) (simp add: wild_inv_def)

interpretation wilds: slot_table wr_in_use wildcard_key "\<lambda>r. r\<lparr>wr_in_use := False\<rparr>"
  by unfold_locales simp

lemma wild_store:
  assumes "wild_inv ws" and "i < length ws" and "wr_in_use e" and "wildcard_key e = (own, f)" and "wr_next_hop e = h"
    and "\<not> filter_is_exact f" and "filter_ok f"
    and "slot_of wr_in_use wildcard_key (own, f) ws = Some i \<or>
      slot_of wr_in_use wildcard_key (own, f) ws = None \<and> \<not> wr_in_use (ws ! i)"
  shows "wild_inv (upd_nth i (\<lambda>_. e) ws)" and "wild_map (upd_nth i (\<lambda>_. e) ws) = (wild_map ws)((own, f) \<mapsto> h)"
proof -
  let ?ws = "upd_nth i (\<lambda>_. e) ws"
  have ku: "keys_unique wr_in_use wildcard_key ws" using assms(1) by (simp add: wild_inv_def)
  have "keys_unique wr_in_use wildcard_key ?ws"
    using assms(4,8) by (intro wilds.unique_store [OF ku]) auto
  then show inv: "wild_inv ?ws"
    using assms(1,4,6,7) by (auto simp: wild_inv_def wildcard_key_def nth_upd_nth)
  have only: "j = i" if "j < length ws" "wr_in_use (ws ! j)" "wildcard_key (ws ! j) = (own, f)" for j
    using assms(8) that keys_uniqueD [OF ku, of j i] slot_of_Some_iff [of wr_in_use wildcard_key "(own, f)" ws]
      slot_of_SomeD [of wr_in_use wildcard_key "(own, f)" ws i] by auto
  have at: "wr_in_use (ws ! i) \<longrightarrow> wildcard_key (ws ! i) = (own, f)"
    using assms(8) slot_of_SomeD [of wr_in_use wildcard_key "(own, f)" ws i] by auto
  show "wild_map ?ws = (wild_map ws)((own, f) \<mapsto> h)"
  proof (rule map_ext_iff)
    fix k v
    have "wild_map ?ws k = Some v \<longleftrightarrow> (\<exists>j < length ws. wr_in_use (?ws ! j) \<and> wildcard_key (?ws ! j) = k \<and> wr_next_hop (?ws ! j) = v)"
      using wild_map_iff [OF inv] by simp
    also have "\<dots> \<longleftrightarrow> (k = (own, f) \<and> v = h) \<or>
        (\<exists>j < length ws. j \<noteq> i \<and> wr_in_use (ws ! j) \<and> wildcard_key (ws ! j) = k \<and> wr_next_hop (ws ! j) = v)"
      unfolding ex_upd_nth [OF assms(2), of "\<lambda>r. wr_in_use r \<and> wildcard_key r = k \<and> wr_next_hop r = v"]
      using assms(3-5) by auto
    also have "\<dots> \<longleftrightarrow> ((wild_map ws)((own, f) \<mapsto> h)) k = Some v"
      using wild_map_iff [OF assms(1), of k v] only at by auto
    finally show "wild_map ?ws k = Some v \<longleftrightarrow> ((wild_map ws)((own, f) \<mapsto> h)) k = Some v" .
  qed
qed

lemma wild_upsert:
  assumes "wild_inv ws" and "filter_ok f"
  shows "wild_inv (wildcard_route_upsert_locked own h f ws)"
    and "\<not> filter_is_exact f \<Longrightarrow> wild_map ws (own, f) \<noteq> None \<or> (\<exists>i < length ws. \<not> wr_in_use (ws ! i)) \<Longrightarrow>
      wild_map (wildcard_route_upsert_locked own h f ws) = (wild_map ws)((own, f) \<mapsto> h)"
proof -
  have len: "length f < 128" using assms(2) by (simp add: filter_ok_def)
  have "wild_inv (wildcard_route_upsert_locked own h f ws) \<and>
    (wild_map ws (own, f) \<noteq> None \<or> (\<exists>i < length ws. \<not> wr_in_use (ws ! i)) \<longrightarrow>
      wild_map (wildcard_route_upsert_locked own h f ws) = (wild_map ws)((own, f) \<mapsto> h))" if ex: "\<not> filter_is_exact f"
  proof (cases "slot_of wr_in_use wildcard_key (own, f) ws")
    case (Some i)
    then have i: "i < length ws" "wr_in_use (ws ! i)" "wildcard_key (ws ! i) = (own, f)"
      by (auto simp: slot_of_def dest: find_idx_SomeD)
    let ?e = "(ws ! i)\<lparr>wr_next_hop := h\<rparr>"
    have "wr_in_use ?e" "wildcard_key ?e = (own, f)" "wr_next_hop ?e = h" using i by (simp_all add: wildcard_key_def)
    moreover have "wildcard_route_upsert_locked own h f ws = upd_nth i (\<lambda>_. ?e) ws"
      using ex Some by (simp add: wildcard_route_upsert_locked_def upd_nth_def)
    ultimately show ?thesis using wild_store [OF assms(1) i(1), of ?e own f h] Some ex assms(2) by simp
  next
    case none: None
    show ?thesis
    proof (cases "free_slot wr_in_use ws")
      case (Some i)
      then have i: "i < length ws" "\<not> wr_in_use (ws ! i)" by (auto simp: free_slot_def dest: find_idx_SomeD)
      let ?e = "\<lparr>wr_owner = own, wr_next_hop = h, wr_filter = strncpy_str 128 f, wr_in_use = True\<rparr>"
      have "wr_in_use ?e" "wildcard_key ?e = (own, f)" "wr_next_hop ?e = h" using len by (simp_all add: wildcard_key_def)
      moreover have "wildcard_route_upsert_locked own h f ws = upd_nth i (\<lambda>_. ?e) ws"
        using ex none Some by (simp add: wildcard_route_upsert_locked_def)
      ultimately show ?thesis using wild_store [OF assms(1) i(1), of ?e own f h] none i(2) ex assms(2) by simp
    next
      case None
      moreover from this have "\<forall>i < length ws. wr_in_use (ws ! i)" by (simp add: free_slot_def find_idx_None_nth)
      ultimately show ?thesis
        using ex none assms(1) by (auto simp: wildcard_route_upsert_locked_def wild_map_def)
    qed
  qed
  then show "wild_inv (wildcard_route_upsert_locked own h f ws)"
    and "\<not> filter_is_exact f \<Longrightarrow> wild_map ws (own, f) \<noteq> None \<or> (\<exists>i < length ws. \<not> wr_in_use (ws ! i)) \<Longrightarrow>
      wild_map (wildcard_route_upsert_locked own h f ws) = (wild_map ws)((own, f) \<mapsto> h)"
    using assms(1) by (auto simp: wildcard_route_upsert_locked_def)
qed

text \<open>Dropping the routes that satisfy a predicate on key and next hop.\<close>

lemma exact_drop:
  fixes p :: "node_id \<times> cstr \<Rightarrow> node_id \<Rightarrow> bool"
  assumes "exact_inv es"
  defines "es' \<equiv> map (\<lambda>r. if er_use r = RouteUsed \<and> p (exact_key r) (er_next_hop r) then r\<lparr>er_use := RouteDeleted\<rparr> else r) es"
  shows "exact_inv es'" and "exact_map es' k = Some h \<longleftrightarrow> exact_map es k = Some h \<and> \<not> p k h"
proof -
  have at: "er_used (es' ! i) = (er_used (es ! i) \<and> \<not> p (exact_key (es ! i)) (er_next_hop (es ! i)))"
    "exact_key (es' ! i) = exact_key (es ! i)" "er_next_hop (es' ! i) = er_next_hop (es ! i)"
    "er_filter (es' ! i) = er_filter (es ! i)" "nonempty es' i = nonempty es i" if "i < length es" for i
    using that by (auto simp: es'_def er_used_def exact_key_def nonempty_def)
  have len: "length es' = length es" by (simp add: es'_def)
  have "takeWhile (nonempty es') (probe f (length es)) = takeWhile (nonempty es) (probe f (length es))" for f
    using at(5) set_probe [of f "length es"] by (intro takeWhile_cong) auto
  then show inv: "exact_inv es'"
    using assms(1) at len by (simp add: exact_inv_def keys_unique_def)
  show "exact_map es' k = Some h \<longleftrightarrow> exact_map es k = Some h \<and> \<not> p k h"
    unfolding exact_map_iff [OF inv] exact_map_iff [OF assms(1)] len using at by auto
qed

lemma wild_drop:
  fixes p :: "node_id \<times> cstr \<Rightarrow> node_id \<Rightarrow> bool"
  assumes "wild_inv ws"
  defines "ws' \<equiv> map (\<lambda>r. if wr_in_use r \<and> p (wildcard_key r) (wr_next_hop r) then r\<lparr>wr_in_use := False\<rparr> else r) ws"
  shows "wild_inv ws'" and "wild_map ws' k = Some h \<longleftrightarrow> wild_map ws k = Some h \<and> \<not> p k h"
proof -
  have at: "wr_in_use (ws' ! i) = (wr_in_use (ws ! i) \<and> \<not> p (wildcard_key (ws ! i)) (wr_next_hop (ws ! i)))"
    "wildcard_key (ws' ! i) = wildcard_key (ws ! i)" "wr_next_hop (ws' ! i) = wr_next_hop (ws ! i)"
    "wr_filter (ws' ! i) = wr_filter (ws ! i)" if "i < length ws" for i
    using that by (auto simp: ws'_def wildcard_key_def)
  have len: "length ws' = length ws" by (simp add: ws'_def)
  show inv: "wild_inv ws'" using assms(1) at len by (simp add: wild_inv_def keys_unique_def)
  show "wild_map ws' k = Some h \<longleftrightarrow> wild_map ws k = Some h \<and> \<not> p k h"
    unfolding wild_map_iff [OF inv] wild_map_iff [OF assms(1)] len using at by auto
qed

lemma exact_remove_eq: "exact_route_remove_locked own f es =
    map (\<lambda>r. if er_use r = RouteUsed \<and> (\<lambda>k h. k = (own, f)) (exact_key r) (er_next_hop r)
      then r\<lparr>er_use := RouteDeleted\<rparr> else r) es"
  by (simp add: exact_route_remove_locked_def exact_key_def)

lemma exact_remove_node_eq: "exact_routes_remove_node_locked n es =
    map (\<lambda>r. if er_use r = RouteUsed \<and> (\<lambda>k h. fst k = n \<or> h = n) (exact_key r) (er_next_hop r)
      then r\<lparr>er_use := RouteDeleted\<rparr> else r) es"
  by (simp add: exact_routes_remove_node_locked_def exact_key_def)

lemma wild_remove_eq: "wildcard_route_remove_locked own f ws =
    map (\<lambda>r. if wr_in_use r \<and> (\<lambda>k h. k = (own, f)) (wildcard_key r) (wr_next_hop r)
      then r\<lparr>wr_in_use := False\<rparr> else r) ws"
  by (simp add: wildcard_route_remove_locked_def wildcard_key_def)

lemma wild_remove_node_eq: "wildcard_routes_remove_node_locked n ws =
    map (\<lambda>r. if wr_in_use r \<and> (\<lambda>k h. fst k = n \<or> h = n) (wildcard_key r) (wr_next_hop r)
      then r\<lparr>wr_in_use := False\<rparr> else r) ws"
  by (simp add: wildcard_routes_remove_node_locked_def wildcard_key_def)

lemma exact_map_dom: "dom (exact_map es) = exact_key ` {e \<in> set es. er_used e}"
  using slot_map_dom [of "\<lambda>i. er_next_hop (es ! i)" er_used exact_key es] by (simp add: exact_map_def [abs_def])

lemma wild_map_dom: "dom (wild_map ws) = wildcard_key ` {e \<in> set ws. wr_in_use e}"
  using slot_map_dom [of "\<lambda>i. wr_next_hop (ws ! i)" wr_in_use wildcard_key ws] by (simp add: wild_map_def [abs_def])

lemma upsert_length [simp]:
  "length (exact_route_upsert_locked own h f es) = length es"
  "length (wildcard_route_upsert_locked own h f ws) = length ws"
  by (simp_all add: exact_route_upsert_locked_def wildcard_route_upsert_locked_def split: sum.split option.split)

lemma removed_inv:
  "exact_inv es \<Longrightarrow> exact_inv (exact_route_remove_locked own f es)"
  "exact_inv es \<Longrightarrow> exact_inv (exact_routes_remove_node_locked n es)"
  "wild_inv ws \<Longrightarrow> wild_inv (wildcard_route_remove_locked own f ws)"
  "wild_inv ws \<Longrightarrow> wild_inv (wildcard_routes_remove_node_locked n ws)"
  unfolding exact_remove_eq exact_remove_node_eq wild_remove_eq wild_remove_node_eq
  by (rule exact_drop(1) [where p = "\<lambda>k h. k = (own, f)"] exact_drop(1) [where p = "\<lambda>k h. fst k = n \<or> h = n"]
      wild_drop(1) [where p = "\<lambda>k h. k = (own, f)"] wild_drop(1) [where p = "\<lambda>k h. fst k = n \<or> h = n"],
      assumption)+

lemma removed_length [simp]:
  "length (exact_route_remove_locked own f es) = length es"
  "length (exact_routes_remove_node_locked n es) = length es"
  "length (wildcard_route_remove_locked own f ws) = length ws"
  "length (wildcard_routes_remove_node_locked n ws) = length ws"
  by (simp_all add: exact_route_remove_locked_def exact_routes_remove_node_locked_def
      wildcard_route_remove_locked_def wildcard_routes_remove_node_locked_def)

interpretation ex: route_table exact_inv exact_map filter_is_exact length
  exact_route_upsert_locked exact_route_remove_locked exact_routes_remove_node_locked
proof (unfold_locales, goal_cases)
  case (2 t f own h)
  have "exact_map t (own, f) \<noteq> None \<or> (\<exists>i < length t. \<not> er_used (t ! i))"
    using 2(1,4) slot_room [of er_used exact_key t] by (auto simp: exact_inv_def exact_map_dom)
  then show ?case using exact_upsert(2) [OF 2(1-3)] by simp
next
  case (6 t own f)
  then show ?case
    by (auto simp: exact_map_dom exact_inv_def exact_key_def in_set_conv_nth)
next
  case (8 t own f)
  then show ?case
    unfolding exact_remove_eq
    by (intro map_ext_iff) (simp add: exact_drop(2) [OF 8, where p = "\<lambda>k h. k = (own, f)"])
next
  case (12 t n)
  then show ?case
    unfolding exact_remove_node_eq
    by (intro map_ext_iff) (auto simp: exact_drop(2) [OF 12, where p = "\<lambda>k h. fst k = n \<or> h = n"])
next
  case 3
  then show ?case by (simp add: exact_route_upsert_locked_def)
qed (simp_all add: exact_upsert(1) exact_map_dom removed_inv)

interpretation wd: route_table wild_inv wild_map "\<lambda>f. \<not> filter_is_exact f" length
  wildcard_route_upsert_locked wildcard_route_remove_locked wildcard_routes_remove_node_locked
proof (unfold_locales, goal_cases)
  case (2 t f own h)
  have "wild_map t (own, f) \<noteq> None \<or> (\<exists>i < length t. \<not> wr_in_use (t ! i))"
    using 2(1,4) slot_room [of wr_in_use wildcard_key t] by (auto simp: wild_inv_def wild_map_dom)
  then show ?case using wild_upsert(2) [OF 2(1-3)] by simp
next
  case (6 t own f)
  then show ?case
    by (auto simp: wild_map_dom wild_inv_def wildcard_key_def in_set_conv_nth)
next
  case (8 t own f)
  then show ?case
    unfolding wild_remove_eq
    by (intro map_ext_iff) (simp add: wild_drop(2) [OF 8, where p = "\<lambda>k h. k = (own, f)"])
next
  case (12 t n)
  then show ?case
    unfolding wild_remove_node_eq
    by (intro map_ext_iff) (auto simp: wild_drop(2) [OF 12, where p = "\<lambda>k h. fst k = n \<or> h = n"])
next
  case 3
  then show ?case by (simp add: wildcard_route_upsert_locked_def)
qed (simp_all add: wild_upsert(1) wild_map_dom removed_inv)

end
