(* ===== verification/P2P_Election.thy ===== *)
theory P2P_Election
  imports P2P_Router Client_Handlers "HOL-Library.Product_Lexorder"
begin

text \<open>
  The router election of \<^verbatim>\<open>src/p2p_election.c\<close>. A node keeps the announcements of its peers, slot 0
  being itself, scores itself from its load and calls itself a router when it is among the best
  \<open>router_target_count\<close> nodes it knows.

  What the code reads from other parts is one record: the free client slots, the clock (each
  operation reads it once here) and the statistics of the router. The compile-time switches
  \<open>CONFIG_MQTT_P2P_STATIC_SEEDS_ONLY\<close> and \<open>P2P_ROUTER_COUNT\<close> are the fields of \<open>election_config\<close>;
  the arithmetic of \<open>int\<close> stays far from its bounds (scores are sums of a few terms below \<open>2^20\<close>).
\<close>

subsection \<open>State\<close>

datatype p2p_role = P2P_ROLE_LEAF | P2P_ROLE_ROUTER

definition role_byte :: "p2p_role \<Rightarrow> byte" where
  "role_byte r = (case r of P2P_ROLE_LEAF \<Rightarrow> 0 | P2P_ROLE_ROUTER \<Rightarrow> 1)"

record peer_score =
  ps_node_id :: node_id
  ps_addr :: u32
  ps_mqtt_port :: u16
  ps_p2p_port :: u16
  ps_score :: int
  ps_role :: byte
  ps_last_seen :: int
  ps_in_use :: bool

record announce =
  an_node_id :: node_id
  an_mqtt_port :: u16
  an_p2p_port :: u16
  an_score :: int
  an_role :: byte

record election =
  el_self_id :: node_id
  el_peers :: "peer_score list"
  el_role :: p2p_role
  el_topology_sig :: u32
  el_publish_count :: u32
  el_publish_rate :: u32
  el_window_ms :: int

record election_env =
  ee_free_slots :: nat
  ee_now :: int
  ee_stats :: router_stats

record election_config =
  ec_static_seeds_only :: bool
  ec_router_count :: nat
  ec_mqtt_port :: u16
  ec_p2p_port :: u16

abbreviation (input) P2P_PEER_TIMEOUT_MS :: int where "P2P_PEER_TIMEOUT_MS \<equiv> 15000"

definition zero_peer :: peer_score where
  "zero_peer = \<lparr>ps_node_id = id_zero, ps_addr = 0, ps_mqtt_port = 0, ps_p2p_port = 0, ps_score = 0, ps_role = 0,
     ps_last_seen = 0, ps_in_use = False\<rparr>"

text \<open>The environment as the other components give it.\<close>

definition election_env_of :: "broker \<Rightarrow> router \<Rightarrow> int \<Rightarrow> election_env" where
  "election_env_of b r now = \<lparr>ee_free_slots = client_free_slots b, ee_now = now, ee_stats = p2p_router_stats r\<rparr>"

subsection \<open>How many routers, how many links\<close>

definition score_before :: "peer_score \<Rightarrow> peer_score \<Rightarrow> bool" where
  "score_before a b \<longleftrightarrow>
     (if ps_score a \<noteq> ps_score b then ps_score a > ps_score b else id_cmp (ps_node_id a) (ps_node_id b) < 0)"

function ilog2_loop :: "nat \<Rightarrow> int \<Rightarrow> nat" where
  "ilog2_loop r n = (if 2 ^ (r + 1) \<le> n then ilog2_loop (r + 1) n else r)"
  by auto
termination
proof (relation "measure (\<lambda>(r, n). nat n - r)")
  fix r :: nat and n :: int
  assume "2 ^ (r + 1) \<le> n"
  moreover have "int (r + 1) < 2 ^ (r + 1)"
    using less_exp [of "r + 1"] by (metis of_nat_less_numeral_power_cancel_iff)
  ultimately have "r + 1 < nat n" by linarith
  then show "((r + 1, n), (r, n)) \<in> measure (\<lambda>(r, n). nat n - r)" by simp
qed simp

declare ilog2_loop.simps [simp del]

definition ilog2_floor :: "int \<Rightarrow> nat" where
  "ilog2_floor n = ilog2_loop 0 n"

text \<open>The search loops: the first candidate with the largest reward.\<close>

definition best_step :: "(int \<Rightarrow> int) \<Rightarrow> int \<Rightarrow> int \<times> int \<Rightarrow> int \<times> int" where
  "best_step reward candidate = (\<lambda>(best_reward, best).
     if reward candidate > best_reward \<or> (reward candidate = best_reward \<and> candidate < best)
     then (reward candidate, candidate) else (best_reward, best))"

definition best_candidate :: "(int \<Rightarrow> int) \<Rightarrow> int \<Rightarrow> int" where
  "best_candidate reward n =
     (let best = snd (fold (best_step reward) [1..n] (- 2147483648, 1)) in if best < 1 then 1 else best)"

definition publish_pressure :: "election \<Rightarrow> int" where
  "publish_pressure st = (if el_publish_rate st > 4000 then 4000 else uint (el_publish_rate st))"

definition remote_pressure :: "int \<Rightarrow> int \<Rightarrow> router_stats \<Rightarrow> int" where
  "remote_pressure sub_weight node_weight s = uint (st_remote_subs s) * sub_weight + uint (st_exact_routes s) * 2 +
     uint (st_wildcard_routes s) * 3 + uint (st_remote_nodes s) * node_weight"

definition router_reward :: "election_env \<Rightarrow> election \<Rightarrow> int \<Rightarrow> int \<Rightarrow> int" where
  "router_reward env st active candidate =
     (let span = (active + candidate - 1) div candidate;
          density_bonus = remote_pressure 4 6 (ee_stats env) * candidate div active;
          connectivity_bonus = (if candidate > 1 then int (ilog2_floor candidate) * 10 else 0);
          cost = candidate * 14 + span * span * 3 + active * 2
      in int (ee_free_slots env) * 8 + publish_pressure st div 8 + density_bonus + connectivity_bonus - cost)"

definition router_target_count :: "election_config \<Rightarrow> election_env \<Rightarrow> election \<Rightarrow> int \<Rightarrow> int" where
  "router_target_count cfg env st active =
     (if active \<le> 1 then active
      else if ec_router_count cfg > 0 then (if int (ec_router_count cfg) < active then int (ec_router_count cfg) else active)
      else if active \<le> 5 \<and> (publish_pressure st > 0 \<or> remote_pressure 4 6 (ee_stats env) > 0 \<or> st_remote_nodes (ee_stats env) > 0)
      then active
      else best_candidate (router_reward env st active) active)"

definition degree_reward :: "election_env \<Rightarrow> election \<Rightarrow> int \<Rightarrow> int \<Rightarrow> int" where
  "degree_reward env st active candidate =
     (let span = (active + candidate - 1) div candidate;
          coverage = remote_pressure 6 8 (ee_stats env) * candidate div active;
          diversity = (if candidate > 1 then int (ilog2_floor candidate) * 12 else 0);
          cost = candidate * 18 + span * span * 2 + active * 3;
          reward = publish_pressure st div 10 + coverage + diversity - cost
      in if st_remote_nodes (ee_stats env) > 0 then reward + 10 else reward)"

definition p2p_election_peer_budget :: "election_config \<Rightarrow> election_env \<Rightarrow> election \<Rightarrow> int \<Rightarrow> int" where
  "p2p_election_peer_budget cfg env st active =
     (if active \<le> 1 then 1
      else let peer_max = int (length (el_peers st)) - 1;
               max_degree = (if active - 1 > peer_max then peer_max else active - 1)
           in if ec_static_seeds_only cfg then max_degree
              else let max_degree = (if ec_router_count cfg > 0 \<and> int (ec_router_count cfg) < max_degree
                                     then int (ec_router_count cfg) else max_degree)
                   in if active \<le> 5 \<and>
                        (publish_pressure st > 0 \<or> remote_pressure 6 8 (ee_stats env) > 0 \<or> st_remote_nodes (ee_stats env) > 0)
                      then max_degree
                      else best_candidate (degree_reward env st active) max_degree)"

subsection \<open>Scores and roles\<close>

definition flush_publish_window_locked :: "int \<Rightarrow> election \<Rightarrow> election" where
  "flush_publish_window_locked now st =
     (if el_window_ms st = 0 then st\<lparr>el_window_ms := now\<rparr>
      else if now - el_window_ms st \<ge> 1000
      then st\<lparr>el_publish_rate := of_int (uint (el_publish_count st) * 1000 div (now - el_window_ms st)),
              el_publish_count := 0, el_window_ms := now\<rparr>
      else st)"

definition local_score :: "election_env \<Rightarrow> election \<Rightarrow> int \<times> election" where
  "local_score env st =
     (let uptime_bonus = (if ee_now env \<ge> 60000 then 20 else 0);
          active_peers = int (length (filter ps_in_use (tl (el_peers st))));
          st = flush_publish_window_locked (ee_now env) st;
          publish_penalty = (if el_publish_rate st > 1000 then 1000 else uint (el_publish_rate st))
      in (int (ee_free_slots env) * 10 + uptime_bonus - active_peers * 5 - publish_penalty, st))"

text \<open>\<open>upd_tl\<close> maps over the slots from 1 on.\<close>

definition upd_tl :: "('a \<Rightarrow> 'a) \<Rightarrow> 'a list \<Rightarrow> 'a list" where
  "upd_tl f xs = (case xs of [] \<Rightarrow> [] | x # ys \<Rightarrow> x # map f ys)"

definition expire_old_peers :: "int \<Rightarrow> election \<Rightarrow> election" where
  "expire_old_peers now st = st\<lparr>el_peers := upd_tl
     (\<lambda>p. if ps_in_use p \<and> now - ps_last_seen p > P2P_PEER_TIMEOUT_MS then zero_peer else p) (el_peers st)\<rparr>"

definition hash_update :: "u32 \<Rightarrow> byte list \<Rightarrow> u32" where
  "hash_update h bs = fnv1a h bs"

text \<open>The four bytes of an \<open>int\<close> in memory, least significant first.\<close>

definition int_bytes :: "int \<Rightarrow> byte list" where
  "int_bytes n = [of_int n, of_int (n div 256), of_int (n div 65536), of_int (n div 16777216)]"

definition set_self :: "(peer_score \<Rightarrow> peer_score) \<Rightarrow> election \<Rightarrow> election" where
  "set_self f st = st\<lparr>el_peers := upd_nth 0 f (el_peers st)\<rparr>"

text \<open>The result says whether the role or the topology signature changed.\<close>

definition recompute_role_locked :: "election_config \<Rightarrow> election_env \<Rightarrow> election \<Rightarrow> bool \<times> election" where
  "recompute_role_locked cfg env st =
     (let old_role = el_role st; old_sig = el_topology_sig st;
          st = expire_old_peers (ee_now env) st;
          (score, st) = local_score env st;
          st = set_self (\<lambda>p. p\<lparr>ps_score := score, ps_role := role_byte (el_role st), ps_last_seen := ee_now env\<rparr>) st
      in if ec_static_seeds_only cfg
         then let st = set_self (\<lambda>p. p\<lparr>ps_role := role_byte P2P_ROLE_ROUTER\<rparr>) (st\<lparr>el_role := P2P_ROLE_ROUTER\<rparr>);
                  sig = fold (\<lambda>p h. hash_update h (id_bytes (ps_node_id p))) (filter ps_in_use (el_peers st)) 2166136261;
                  st = st\<lparr>el_topology_sig := sig\<rparr>
              in (old_role \<noteq> el_role st \<or> old_sig \<noteq> sig, st)
         else let sorted = exchange_sort (\<lambda>a b. \<not> score_before a b) (filter ps_in_use (el_peers st));
                  router_count = router_target_count cfg env st (int (length sorted));
                  role = (if \<exists>p \<in> set (take (nat router_count) sorted). ps_node_id p = el_self_id st
                          then P2P_ROLE_ROUTER else P2P_ROLE_LEAF);
                  st = set_self (\<lambda>p. p\<lparr>ps_role := role_byte role\<rparr>) (st\<lparr>el_role := role\<rparr>);
                  sig = fold (\<lambda>p h. hash_update h (id_bytes (ps_node_id p)))
                          (filter (\<lambda>p. ps_role p = role_byte P2P_ROLE_ROUTER) sorted)
                          (hash_update 2166136261 (int_bytes router_count));
                  st = st\<lparr>el_topology_sig := sig\<rparr>
              in (old_role \<noteq> role \<or> old_sig \<noteq> sig, st))"

subsection \<open>Operations\<close>

definition p2p_election_init :: "election_config \<Rightarrow> nat \<Rightarrow> election_env \<Rightarrow> node_id \<Rightarrow> election" where
  "p2p_election_init cfg peer_max env node =
     snd (recompute_role_locked cfg env
       \<lparr>el_self_id = node,
        el_peers = zero_peer\<lparr>ps_node_id := node, ps_mqtt_port := ec_mqtt_port cfg, ps_p2p_port := ec_p2p_port cfg,
          ps_in_use := True\<rparr> # replicate peer_max zero_peer,
        el_role = P2P_ROLE_ROUTER, el_topology_sig = 0, el_publish_count = 0, el_publish_rate = 0, el_window_ms = 0\<rparr>)"

text \<open>The result says whether the caller resynchronises the local subscriptions with its peers.\<close>

definition p2p_election_update_self :: "election_config \<Rightarrow> election_env \<Rightarrow> election \<Rightarrow> bool \<times> election" where
  "p2p_election_update_self cfg env st = recompute_role_locked cfg env st"

definition p2p_election_update_peer ::
  "election_config \<Rightarrow> election_env \<Rightarrow> announce \<Rightarrow> u32 \<Rightarrow> election \<Rightarrow> bool \<times> election" where
  "p2p_election_update_peer cfg env ann addr st =
     (if an_node_id ann = el_self_id st then (False, st)
      else let found = slot_of ps_in_use ps_node_id (an_node_id ann) (tl (el_peers st));
               slot = (if found \<noteq> None then found else free_slot ps_in_use (tl (el_peers st)))
           in case slot of
                None \<Rightarrow> (False, st)
              | Some i \<Rightarrow> recompute_role_locked cfg env
                  (st\<lparr>el_peers := upd_nth (Suc i) (\<lambda>_. \<lparr>ps_node_id = an_node_id ann, ps_addr = addr,
                     ps_mqtt_port = an_mqtt_port ann, ps_p2p_port = an_p2p_port ann, ps_score = an_score ann,
                     ps_role = an_role ann, ps_last_seen = ee_now env, ps_in_use = True\<rparr>) (el_peers st)\<rparr>))"

definition p2p_election_record_publish :: "int \<Rightarrow> election \<Rightarrow> election" where
  "p2p_election_record_publish now st =
     (let st = flush_publish_window_locked now st in
      if el_publish_count st < 4294967295 then st\<lparr>el_publish_count := el_publish_count st + 1\<rparr> else st)"

definition p2p_election_role :: "election \<Rightarrow> p2p_role" where
  "p2p_election_role st = el_role st"

definition p2p_election_topology_sig :: "election \<Rightarrow> u32" where
  "p2p_election_topology_sig st = el_topology_sig st"

definition p2p_election_snapshot :: "nat \<Rightarrow> election \<Rightarrow> peer_score list" where
  "p2p_election_snapshot max_peers st = take max_peers (filter ps_in_use (el_peers st))"

definition p2p_election_build_announce :: "election_config \<Rightarrow> election_env \<Rightarrow> election \<Rightarrow> announce \<times> election" where
  "p2p_election_build_announce cfg env st =
     (let st = snd (recompute_role_locked cfg env st) in
      (\<lparr>an_node_id = el_self_id st, an_mqtt_port = ec_mqtt_port cfg, an_p2p_port = ec_p2p_port cfg,
        an_score = ps_score (el_peers st ! 0), an_role = role_byte (el_role st)\<rparr>, st))"

definition p2p_election_self_id :: "election \<Rightarrow> node_id" where
  "p2p_election_self_id st = el_self_id st"

end
