(* ===== verification/P2P_Shard.thy ===== *)
theory P2P_Shard
  imports P2P_Election
begin

text \<open>
  Shard ownership, \<^verbatim>\<open>src/p2p_shard.c\<close>: the first levels of a topic or filter are its shard key, the
  owner of a key is the router its hash selects, and two caches, one shared and one per thread,
  remember the owners found under a topology signature.

  The lengths of the lists are the sizes: \<open>P2P_SHARD_OWNER_CACHE_SIZE\<close> entries in the shared cache
  and 8 in that of a thread; the model has the cache of the calling thread.
\<close>

subsection \<open>State\<close>

record shard_entry =
  se_in_use :: bool
  se_sig :: u32
  se_key :: cstr
  se_owner :: node_id

record shard_caches =
  sh_owner_cache :: "shard_entry list"
  sh_thread_cache :: "shard_entry list"
  sh_thread_pos :: byte

abbreviation (input) P2P_SHARD_KEY_LEVELS :: nat where "P2P_SHARD_KEY_LEVELS \<equiv> 2"

definition zero_shard_entry :: shard_entry where
  "zero_shard_entry = \<lparr>se_in_use = False, se_sig = 0, se_key = [], se_owner = id_zero\<rparr>"

definition static_caches :: "nat \<Rightarrow> shard_caches" where
  "static_caches n = \<lparr>sh_owner_cache = replicate n zero_shard_entry, sh_thread_cache = replicate 8 zero_shard_entry,
     sh_thread_pos = 0\<rparr>"

subsection \<open>Shard keys\<close>

text \<open>The copying loop; \<open>len\<close> and \<open>slashes\<close> are its counters.\<close>

fun key_loop :: "cstr \<Rightarrow> nat \<Rightarrow> nat \<Rightarrow> cstr" where
  "key_loop [] len slashes = []"
| "key_loop (c # cs) len slashes =
     (if \<not> len < MQTT_TOPIC_MAX - 1 then []
      else if c = 43 \<or> c = 35 then []
      else if c = 47
      then (if slashes + 1 \<ge> P2P_SHARD_KEY_LEVELS then [c] else c # key_loop cs (len + 1) (slashes + 1))
      else c # key_loop cs (len + 1) slashes)"

text \<open>The loop that drops trailing slashes.\<close>

definition strip_slashes :: "cstr \<Rightarrow> cstr" where
  "strip_slashes s = rev (dropWhile (\<lambda>c. c = 47) (rev s))"

definition shard_key_from_str :: "cstr \<Rightarrow> cstr" where
  "shard_key_from_str src = (if src = [] then [] else strip_slashes (key_loop src 0 0))"

definition p2p_shard_key_from_topic :: "cstr \<Rightarrow> cstr" where
  "p2p_shard_key_from_topic topic = shard_key_from_str topic"

definition p2p_shard_key_from_filter :: "cstr \<Rightarrow> cstr" where
  "p2p_shard_key_from_filter flt = shard_key_from_str flt"

subsection \<open>Caches\<close>

definition fnv1a32_update :: "u32 \<Rightarrow> byte list \<Rightarrow> u32" where
  "fnv1a32_update h bs = fnv1a h bs"

text \<open>The four bytes of the signature in memory, least significant first.\<close>

definition u32_bytes :: "u32 \<Rightarrow> byte list" where
  "u32_bytes x = [ucast x, ucast (drop_bit 8 x), ucast (drop_bit 16 x), ucast (drop_bit 24 x)]"

definition shard_cache_key_hash :: "u32 \<Rightarrow> cstr \<Rightarrow> u32" where
  "shard_cache_key_hash sig key = fnv1a32_update (fnv1a32_update 2166136261 (u32_bytes sig)) key"

definition shard_cache_match :: "u32 \<Rightarrow> cstr \<Rightarrow> shard_entry \<Rightarrow> bool" where
  "shard_cache_match sig key e \<longleftrightarrow> se_in_use e \<and> se_sig e = sig \<and> se_key e = key"

definition shard_probe :: "u32 \<Rightarrow> nat \<Rightarrow> nat list" where
  "shard_probe h n = map (\<lambda>i. unat (h + of_nat i) mod n) [0..<n]"

fun lookup_loop :: "u32 \<Rightarrow> cstr \<Rightarrow> shard_entry list \<Rightarrow> nat list \<Rightarrow> node_id option" where
  "lookup_loop sig key es [] = None"
| "lookup_loop sig key es (i # is) =
     (if shard_cache_match sig key (es ! i) then Some (se_owner (es ! i))
      else if \<not> se_in_use (es ! i) then None
      else lookup_loop sig key es is)"

definition shard_cache_lookup :: "u32 \<Rightarrow> cstr \<Rightarrow> shard_caches \<Rightarrow> node_id option" where
  "shard_cache_lookup sig key c =
     lookup_loop sig key (sh_owner_cache c) (shard_probe (shard_cache_key_hash sig key) (length (sh_owner_cache c)))"

definition shard_cache_write :: "u32 \<Rightarrow> cstr \<Rightarrow> node_id \<Rightarrow> shard_entry" where
  "shard_cache_write sig key owner =
     \<lparr>se_in_use = True, se_sig = sig, se_key = strncpy_str MQTT_TOPIC_MAX key, se_owner = owner\<rparr>"

fun store_slot :: "u32 \<Rightarrow> cstr \<Rightarrow> shard_entry list \<Rightarrow> nat list \<Rightarrow> nat option" where
  "store_slot sig key es [] = None"
| "store_slot sig key es (i # is) =
     (if shard_cache_match sig key (es ! i) \<or> \<not> se_in_use (es ! i) then Some i else store_slot sig key es is)"

definition shard_cache_store :: "u32 \<Rightarrow> cstr \<Rightarrow> node_id \<Rightarrow> shard_caches \<Rightarrow> shard_caches" where
  "shard_cache_store sig key owner c =
     (let es = sh_owner_cache c; h = shard_cache_key_hash sig key;
          i = (case store_slot sig key es (shard_probe h (length es)) of Some i \<Rightarrow> i | None \<Rightarrow> unat h mod length es)
      in c\<lparr>sh_owner_cache := upd_nth i (\<lambda>_. shard_cache_write sig key owner) es\<rparr>)"

definition thread_cache_lookup :: "u32 \<Rightarrow> cstr \<Rightarrow> shard_caches \<Rightarrow> node_id option" where
  "thread_cache_lookup sig key c =
     map_option (\<lambda>i. se_owner (sh_thread_cache c ! i))
       (find_idx (\<lambda>e. se_in_use e \<and> se_sig e = sig \<and> se_key e = key) (sh_thread_cache c))"

definition thread_cache_store :: "u32 \<Rightarrow> cstr \<Rightarrow> node_id \<Rightarrow> shard_caches \<Rightarrow> shard_caches" where
  "thread_cache_store sig key owner c =
     c\<lparr>sh_thread_cache := upd_nth (unat (sh_thread_pos c)) (\<lambda>_. shard_cache_write sig key owner) (sh_thread_cache c),
       sh_thread_pos := of_nat ((unat (sh_thread_pos c) + 1) mod 8)\<rparr>"

subsection \<open>Owners\<close>

definition routers_by_id :: "election \<Rightarrow> peer_score list" where
  "routers_by_id st =
     (let peers = p2p_election_snapshot (length (el_peers st)) st in
      exchange_sort (\<lambda>a b. id_cmp (ps_node_id b) (ps_node_id a) < 0)
        (filter (\<lambda>p. ps_role p = role_byte P2P_ROLE_ROUTER) peers))"

definition shard_owner_id_from_key :: "election \<Rightarrow> cstr \<Rightarrow> shard_caches \<Rightarrow> node_id \<times> shard_caches" where
  "shard_owner_id_from_key st key c =
     (if key = [] then (p2p_election_self_id st, c)
      else let sig = p2p_election_topology_sig st in
      case thread_cache_lookup sig key c of
        Some owner \<Rightarrow> (owner, c)
      | None \<Rightarrow>
      (case shard_cache_lookup sig key c of
        Some owner \<Rightarrow> (owner, c)
      | None \<Rightarrow>
          (let routers = routers_by_id st in
           if routers = [] then (p2p_election_self_id st, c)
           else let hash = fnv1a32_update 2166136261 key;
                    owner = ps_node_id (routers ! (unat hash mod length routers))
                in (owner, thread_cache_store sig key owner (shard_cache_store sig key owner c)))))"

definition p2p_shard_owner_for_topic :: "election \<Rightarrow> cstr \<Rightarrow> shard_caches \<Rightarrow> node_id \<times> shard_caches" where
  "p2p_shard_owner_for_topic st topic c = shard_owner_id_from_key st (shard_key_from_str topic) c"

definition p2p_shard_owner_for_filter :: "election \<Rightarrow> cstr \<Rightarrow> shard_caches \<Rightarrow> node_id \<times> shard_caches" where
  "p2p_shard_owner_for_filter st flt c = shard_owner_id_from_key st (shard_key_from_str flt) c"

definition p2p_shard_is_local_owner_for_topic :: "election \<Rightarrow> cstr \<Rightarrow> shard_caches \<Rightarrow> bool \<times> shard_caches" where
  "p2p_shard_is_local_owner_for_topic st topic c =
     (let (owner, c) = p2p_shard_owner_for_topic st topic c in (owner = p2p_election_self_id st, c))"

definition p2p_shard_is_local_owner_for_filter :: "election \<Rightarrow> cstr \<Rightarrow> shard_caches \<Rightarrow> bool \<times> shard_caches" where
  "p2p_shard_is_local_owner_for_filter st flt c =
     (let (owner, c) = p2p_shard_owner_for_filter st flt c in (owner = p2p_election_self_id st, c))"

end
