(* ===== verification/P2P_Router_Correct.thy ===== *)
theory P2P_Router_Correct
  imports P2P_Router
begin

text \<open>
  What the router computes. The subscriptions stored per node are read as a map from owner and
  filter to the next hop (\<open>node_map\<close>), and so are the two route tables (\<open>routes\<close>). Every operation
  keeps \<open>router_inv\<close>; as long as the table of a node is not full the two maps stay equal, and then
  the search of the publish path lists exactly the next hops of the nodes that want a topic.
\<close>

subsection \<open>The subscriptions of the nodes as a map\<close>

definition node_filters :: "remote_node \<Rightarrow> cstr set" where
  "node_filters nd = {f. \<exists>s \<in> set (rn_subs nd). rs_in_use s \<and> rs_filter s = f}"

definition node_map :: "remote_node list \<Rightarrow> node_id \<times> cstr \<Rightarrow> node_id option" where
  "node_map nodes k =
     (case slot_of rn_in_use rn_owner (fst k) nodes of
        None \<Rightarrow> None
      | Some i \<Rightarrow> if \<exists>s \<in> set (rn_subs (nodes ! i)). rs_in_use s \<and> rs_filter s = snd k
                 then Some (rn_next_hop (nodes ! i)) else None)"

definition routes :: "router \<Rightarrow> node_id \<times> cstr \<Rightarrow> node_id option" where
  "routes r = exact_map (rt_exact r) ++ wild_map (rt_wild r)"

definition node_ok :: "nat \<Rightarrow> remote_node \<Rightarrow> bool" where
  "node_ok p nd \<longleftrightarrow> length (rn_subs nd) = p \<and> keys_unique rs_in_use rs_filter (rn_subs nd) \<and>
     (\<forall>s \<in> set (rn_subs nd). rs_in_use s \<longrightarrow> filter_ok (rs_filter s))"

definition nodes_ok :: "nat \<Rightarrow> remote_node list \<Rightarrow> bool" where
  "nodes_ok p nodes \<longleftrightarrow> keys_unique rn_in_use rn_owner nodes \<and> (\<forall>nd \<in> set nodes. node_ok p nd)"

text \<open>The invariant of the router: unique keys in every table, and every hash entry within reach of its probe.\<close>

definition router_inv :: "nat \<Rightarrow> nat \<Rightarrow> router \<Rightarrow> bool" where
  "router_inv n p r \<longleftrightarrow> nodes_ok p (rt_nodes r) \<and> length (rt_nodes r) = n \<and>
     exact_inv (rt_exact r) \<and> wild_inv (rt_wild r) \<and>
     length (rt_exact r) = n * p \<and> length (rt_wild r) = n * p"

text \<open>The routes agree with the subscriptions, next hops included.\<close>

definition router_sync :: "router \<Rightarrow> bool" where
  "router_sync r \<longleftrightarrow> routes r = node_map (rt_nodes r)"

lemma slot_of_eq_Some:
  assumes "keys_unique used key xs"
  shows "slot_of used key k xs = Some i \<longleftrightarrow> i < length xs \<and> used (xs ! i) \<and> key (xs ! i) = k"
proof
  assume *: "i < length xs \<and> used (xs ! i) \<and> key (xs ! i) = k"
  then obtain j where j: "slot_of used key k xs = Some j"
    using slot_of_Some_iff [of used key k xs] by fastforce
  with slot_of_SomeD [OF j] * keys_uniqueD [OF assms, of j i] show "slot_of used key k xs = Some i" by simp
qed (rule slot_of_SomeD)

lemma node_map_iff:
  assumes "keys_unique rn_in_use rn_owner nodes"
  shows "node_map nodes (own, f) = Some h \<longleftrightarrow>
    (\<exists>i < length nodes. rn_in_use (nodes ! i) \<and> rn_owner (nodes ! i) = own \<and>
       f \<in> node_filters (nodes ! i) \<and> rn_next_hop (nodes ! i) = h)"
proof -
  have at: "slot_of rn_in_use rn_owner own nodes = Some i \<longleftrightarrow>
      i < length nodes \<and> rn_in_use (nodes ! i) \<and> rn_owner (nodes ! i) = own" for i
    by (rule slot_of_eq_Some [OF assms])
  show ?thesis
  proof (cases "slot_of rn_in_use rn_owner own nodes")
    case None
    then have "\<not> (i < length nodes \<and> rn_in_use (nodes ! i) \<and> rn_owner (nodes ! i) = own)" for i
      using at [of i] by simp
    then show ?thesis using None by (auto simp: node_map_def)
  next
    case (Some i)
    then have i: "i < length nodes" "rn_in_use (nodes ! i)" "rn_owner (nodes ! i) = own" using at [of i] by simp_all
    have only: "j = i" if "j < length nodes" "rn_in_use (nodes ! j)" "rn_owner (nodes ! j) = own" for j
      using at [of j] Some that by simp
    have "(\<exists>j < length nodes. rn_in_use (nodes ! j) \<and> rn_owner (nodes ! j) = own \<and>
        f \<in> node_filters (nodes ! j) \<and> rn_next_hop (nodes ! j) = h) \<longleftrightarrow>
        f \<in> node_filters (nodes ! i) \<and> rn_next_hop (nodes ! i) = h" (is "?l \<longleftrightarrow> ?r")
    proof
      assume ?l then show ?r using only by blast
    next
      assume ?r then show ?l using i by blast
    qed
    moreover have "node_map nodes (own, f) = (if f \<in> node_filters (nodes ! i) then Some (rn_next_hop (nodes ! i)) else None)"
      using Some by (simp add: node_map_def node_filters_def)
    ultimately show ?thesis by simp
  qed
qed

lemma node_map_dom:
  "dom (node_map nodes) \<subseteq> {k. \<exists>nd \<in> set nodes. rn_in_use nd \<and> rn_owner nd = fst k \<and> snd k \<in> node_filters nd}"
  by (auto simp: node_map_def node_filters_def dest!: slot_of_SomeD split: option.splits if_splits)
    (metis nth_mem)

lemma card_node_filters: "node_ok p nd \<Longrightarrow> finite (node_filters nd) \<and> card (node_filters nd) \<le> p"
proof -
  assume ok: "node_ok p nd"
  have eq: "node_filters nd = rs_filter ` set (filter rs_in_use (rn_subs nd))" by (auto simp: node_filters_def)
  have "card (rs_filter ` set (filter rs_in_use (rn_subs nd))) \<le> length (filter rs_in_use (rn_subs nd))"
    using card_image_le [of "set (filter rs_in_use (rn_subs nd))" rs_filter]
      card_length [of "filter rs_in_use (rn_subs nd)"] by simp
  also have "\<dots> \<le> p" using ok by (metis length_filter_le node_ok_def)
  finally show ?thesis unfolding eq by simp
qed

lemma card_node_map:
  assumes "nodes_ok p nodes"
  shows "finite (dom (node_map nodes))" and "card (dom (node_map nodes)) \<le> length nodes * p"
proof -
  let ?K = "\<Union>i < length nodes. {rn_owner (nodes ! i)} \<times> node_filters (nodes ! i)"
  have ok: "node_ok p (nodes ! i)" if "i < length nodes" for i
    using assms that by (simp add: nodes_ok_def)
  have sub: "dom (node_map nodes) \<subseteq> ?K"
    using node_map_dom [of nodes] by (fastforce simp: in_set_conv_nth)
  have fin: "finite ?K" using card_node_filters [OF ok] by simp
  have "card ?K \<le> (\<Sum>i < length nodes. card ({rn_owner (nodes ! i)} \<times> node_filters (nodes ! i)))"
    by (rule card_UN_le) simp
  also have "\<dots> \<le> (\<Sum>i < length nodes. p)"
    using card_node_filters [OF ok] by (intro sum_mono) (simp add: card_cartesian_product)
  finally have "card ?K \<le> length nodes * p" by simp
  then show "card (dom (node_map nodes)) \<le> length nodes * p" using card_mono [OF fin sub] by simp
  show "finite (dom (node_map nodes))" using fin sub by (rule finite_subset [rotated])
qed

text \<open>Storing the node of \<open>own\<close> at its slot, or at a free one when it has none.\<close>

lemma node_map_store:
  assumes "keys_unique rn_in_use rn_owner nodes" and "i < length nodes" and "rn_in_use nd \<longrightarrow> rn_owner nd = own"
    and "slot_of rn_in_use rn_owner own nodes = Some i \<or>
      slot_of rn_in_use rn_owner own nodes = None \<and> \<not> rn_in_use (nodes ! i)"
  shows "keys_unique rn_in_use rn_owner (upd_nth i (\<lambda>_. nd) nodes)"
    and "node_map (upd_nth i (\<lambda>_. nd) nodes) =
      (\<lambda>k. if fst k = own then (if rn_in_use nd \<and> snd k \<in> node_filters nd then Some (rn_next_hop nd) else None)
           else node_map nodes k)"
proof -
  let ?nodes = "upd_nth i (\<lambda>_. nd) nodes"
  have only: "j = i" if "j < length nodes" "rn_in_use (nodes ! j)" "rn_owner (nodes ! j) = own" for j
    using assms(4) that keys_uniqueD [OF assms(1), of j i] slot_of_Some_iff [of rn_in_use rn_owner own nodes]
      slot_of_SomeD [of rn_in_use rn_owner own nodes i] by auto
  have at: "rn_in_use (nodes ! i) \<longrightarrow> rn_owner (nodes ! i) = own"
    using assms(4) slot_of_SomeD [of rn_in_use rn_owner own nodes i] by auto
  show ku: "keys_unique rn_in_use rn_owner ?nodes"
    using assms(3) only by (intro keys_unique_put [OF assms(1,2), of _ own]) auto
  show "node_map ?nodes = (\<lambda>k. if fst k = own
      then (if rn_in_use nd \<and> snd k \<in> node_filters nd then Some (rn_next_hop nd) else None) else node_map nodes k)"
  proof (rule map_ext_iff)
    fix k :: "node_id \<times> cstr" and h
    obtain o' f where k: "k = (o', f)" by fastforce
    have "node_map ?nodes (o', f) = Some h \<longleftrightarrow>
        (rn_in_use nd \<and> rn_owner nd = o' \<and> f \<in> node_filters nd \<and> rn_next_hop nd = h) \<or>
        (\<exists>j < length nodes. j \<noteq> i \<and> rn_in_use (nodes ! j) \<and> rn_owner (nodes ! j) = o' \<and>
          f \<in> node_filters (nodes ! j) \<and> rn_next_hop (nodes ! j) = h)"
      unfolding node_map_iff [OF ku] length_upd_nth
      by (rule ex_upd_nth [OF assms(2),
        of "\<lambda>m. rn_in_use m \<and> rn_owner m = o' \<and> f \<in> node_filters m \<and> rn_next_hop m = h"])
    then show "node_map ?nodes k = Some h \<longleftrightarrow> (if fst k = own
        then (if rn_in_use nd \<and> snd k \<in> node_filters nd then Some (rn_next_hop nd) else None) else node_map nodes k) = Some h"
      using assms(3) only at node_map_iff [OF assms(1), of o' f h] unfolding k by auto
  qed
qed

subsection \<open>Routes follow the subscriptions\<close>

lemma fold_route_upsert [simp]:
  "rt_exact (fold (route_upsert_locked own h) fs r) = fold (exact_route_upsert_locked own h) fs (rt_exact r)"
  "rt_wild (fold (route_upsert_locked own h) fs r) = fold (wildcard_route_upsert_locked own h) fs (rt_wild r)"
  "rt_nodes (fold (route_upsert_locked own h) fs r) = rt_nodes r"
  by (induction fs arbitrary: r) (simp_all add: route_upsert_locked_def)

lemma refresh_fold: "node_routes_refresh_locked nd r =
    fold (route_upsert_locked (rn_owner nd) (rn_next_hop nd)) (map rs_filter (filter rs_in_use (rn_subs nd))) r"
proof -
  have "fold (\<lambda>s r. if rs_in_use s then route_upsert_locked o' h (rs_filter s) r else r) ss r =
      fold (route_upsert_locked o' h) (map rs_filter (filter rs_in_use ss)) r" for o' h ss
    by (induction ss arbitrary: r) simp_all
  then show ?thesis by (simp add: node_routes_refresh_locked_def)
qed

lemma upserts_routes:
  fixes own h :: node_id
  defines "up \<equiv> fold (route_upsert_locked own h)"
  assumes "exact_inv (rt_exact r)" and "wild_inv (rt_wild r)" and "\<forall>f \<in> set fs. filter_ok f"
    and K: "finite K" "card K \<le> length (rt_exact r)" "card K \<le> length (rt_wild r)" "dom (routes r) \<subseteq> K"
      "\<forall>f \<in> set fs. (own, f) \<in> K"
  shows "routes (up fs r) = (\<lambda>k. if fst k = own \<and> snd k \<in> set fs then Some h else routes r k)"
proof -
  have d: "dom (exact_map (rt_exact r)) \<subseteq> K" "dom (wild_map (rt_wild r)) \<subseteq> K"
    using K(4) by (auto simp: routes_def)
  note e = ex.refresh_within [OF assms(2,4) K(1,2) d(1) K(5), of h]
  note w = wd.refresh_within [OF assms(3,4) K(1,3) d(2) K(5), of h]
  show "routes (up fs r) = (\<lambda>k. if fst k = own \<and> snd k \<in> set fs then Some h else routes r k)"
  proof
    fix k :: "node_id \<times> cstr"
    have ek: "exact_map (rt_exact (up fs r)) k =
        (if fst k = own \<and> snd k \<in> set fs \<and> filter_is_exact (snd k) then Some h else exact_map (rt_exact r) k)"
      and wk: "wild_map (rt_wild (up fs r)) k =
        (if fst k = own \<and> snd k \<in> set fs \<and> \<not> filter_is_exact (snd k) then Some h else wild_map (rt_wild r) k)"
      using e w by (simp_all add: up_def)
    have "wild_map (rt_wild r) k = None" if "filter_is_exact (snd k)"
      using wd.look_dom(2) [OF assms(3), of "fst k" "snd k"] that by (metis domIff prod.collapse)
    then show "routes (up fs r) k = (if fst k = own \<and> snd k \<in> set fs then Some h else routes r k)"
      by (auto simp: routes_def ek wk map_add_def split: option.split)
  qed
qed

lemma router_invD:
  assumes "router_inv n p r"
  shows "nodes_ok p (rt_nodes r)" "length (rt_nodes r) = n" "exact_inv (rt_exact r)" "wild_inv (rt_wild r)"
    "length (rt_exact r) = n * p" "length (rt_wild r) = n * p"
    "keys_unique rn_in_use rn_owner (rt_nodes r)" "i < length (rt_nodes r) \<Longrightarrow> node_ok p (rt_nodes r ! i)"
  using assms by (auto simp: router_inv_def nodes_ok_def)

lemma nodes_ok_put:
  assumes "nodes_ok p nodes" and "keys_unique rn_in_use rn_owner (upd_nth i (\<lambda>_. nd) nodes)" and "node_ok p nd"
  shows "nodes_ok p (upd_nth i (\<lambda>_. nd) nodes)"
  using assms by (auto simp: nodes_ok_def dest: set_upd_nth)

text \<open>The step all branches of a subscription share: store the node, then upsert routes of its filters.\<close>

lemma store_and_route:
  assumes inv: "router_inv n p r" and i: "slot_of rn_in_use rn_owner own (rt_nodes r) = Some i"
    and nd: "node_ok p nd" "rn_in_use nd" "rn_owner nd = own"
    and sup: "node_filters (rt_nodes r ! i) \<subseteq> node_filters nd" and fs: "set fs \<subseteq> node_filters nd"
  defines "r' \<equiv> fold (route_upsert_locked own (rn_next_hop nd)) fs (r\<lparr>rt_nodes := upd_nth i (\<lambda>_. nd) (rt_nodes r)\<rparr>)"
  shows "router_inv n p r'"
    and "node_map (rt_nodes r') = (\<lambda>k. if fst k = own
      then (if snd k \<in> node_filters nd then Some (rn_next_hop nd) else None) else node_map (rt_nodes r) k)"
    and "router_sync r \<Longrightarrow> routes r' = (\<lambda>k. if fst k = own \<and> snd k \<in> set fs then Some (rn_next_hop nd) else routes r k)"
proof -
  note I = router_invD [OF inv]
  have il: "i < length (rt_nodes r)" using slot_of_SomeD [OF i] by simp
  let ?r = "r\<lparr>rt_nodes := upd_nth i (\<lambda>_. nd) (rt_nodes r)\<rparr>"
  note st = node_map_store [OF I(7) il _ disjI1 [OF i], of nd]
  have m: "node_map (rt_nodes ?r) = (\<lambda>k. if fst k = own
      then (if snd k \<in> node_filters nd then Some (rn_next_hop nd) else None) else node_map (rt_nodes r) k)"
    using st(2) nd(2,3) by (auto simp: fun_eq_iff)
  then show "node_map (rt_nodes r') = (\<lambda>k. if fst k = own
      then (if snd k \<in> node_filters nd then Some (rn_next_hop nd) else None) else node_map (rt_nodes r) k)"
    by (simp add: r'_def)
  have ok: "nodes_ok p (rt_nodes ?r)" using nodes_ok_put [OF I(1) _ nd(1)] st(1) nd by simp
  have old: "snd k \<in> node_filters nd" if "node_map (rt_nodes r) k \<noteq> None" "fst k = own" for k
    using that i sup by (auto simp: node_map_def node_filters_def split: if_splits)
  have sub: "dom (node_map (rt_nodes r)) \<subseteq> dom (node_map (rt_nodes ?r))"
    unfolding m using old by (auto simp: dom_def)
  note card = card_node_map [OF ok]
  have rr: "routes ?r = routes r" by (simp add: routes_def)
  have K: "card (dom (node_map (rt_nodes ?r))) \<le> n * p" using card(2) I(2) by simp
  have oks: "\<forall>f \<in> set fs. filter_ok f" using fs nd(1) by (auto simp: node_filters_def node_ok_def)
  have in_K: "\<forall>f \<in> set fs. (own, f) \<in> dom (node_map (rt_nodes ?r))" unfolding m using fs by auto
  show "routes r' = (\<lambda>k. if fst k = own \<and> snd k \<in> set fs then Some (rn_next_hop nd) else routes r k)"
    if "router_sync r"
    using upserts_routes [of ?r fs "dom (node_map (rt_nodes ?r))" own "rn_next_hop nd", folded r'_def]
      I(3-6) K oks card(1) sub in_K that unfolding rr router_sync_def by auto
  show "router_inv n p r'"
    using ok I(2,5,6) ex.refresh_inv [OF I(3) oks, of own "rn_next_hop nd"] wd.refresh_inv [OF I(4) oks, of own "rn_next_hop nd"]
    unfolding router_inv_def by (simp add: r'_def)
qed

subsection \<open>Subscribing\<close>

text \<open>The next hop a node is reached through, and the one it gets with a subscription.\<close>

definition next_hop_of :: "remote_node list \<Rightarrow> node_id \<Rightarrow> node_id option" where
  "next_hop_of nodes own = map_option (\<lambda>i. rn_next_hop (nodes ! i)) (slot_of rn_in_use rn_owner own nodes)"

definition chosen_hop :: "node_id option \<Rightarrow> node_id \<Rightarrow> node_id \<Rightarrow> node_id" where
  "chosen_hop old own hop =
     (case old of None \<Rightarrow> hop | Some h \<Rightarrow> if h = id_zero \<or> hop = own then hop else h)"

lemma zero_node [simp]:
  "node_filters (zero_remote_node p) = {}" "node_ok p (zero_remote_node p)" "\<not> rn_in_use (zero_remote_node p)"
  by (auto simp: node_filters_def node_ok_def zero_remote_node_def zero_remote_sub_def keys_unique_def)

text \<open>Looking up or creating the node changes nothing that a route depends on.\<close>

lemma find_node_create:
  assumes inv: "router_inv n p r" and res: "find_node_locked own True r = (Some i, r1)"
  shows "router_inv n p r1" and "slot_of rn_in_use rn_owner own (rt_nodes r1) = Some i"
    and "rt_exact r1 = rt_exact r" and "rt_wild r1 = rt_wild r" and "node_map (rt_nodes r1) = node_map (rt_nodes r)"
    and "rn_next_hop (rt_nodes r1 ! i) = (case next_hop_of (rt_nodes r) own of None \<Rightarrow> id_zero | Some h \<Rightarrow> h)"
    and "node_filters (rt_nodes r1 ! i) = {f. node_map (rt_nodes r) (own, f) \<noteq> None}"
proof -
  note I = router_invD [OF inv]
  have "router_inv n p r1 \<and> slot_of rn_in_use rn_owner own (rt_nodes r1) = Some i \<and>
    rt_exact r1 = rt_exact r \<and> rt_wild r1 = rt_wild r \<and> node_map (rt_nodes r1) = node_map (rt_nodes r) \<and>
    rn_next_hop (rt_nodes r1 ! i) = (case next_hop_of (rt_nodes r) own of None \<Rightarrow> id_zero | Some h \<Rightarrow> h)"
  proof (cases "slot_of rn_in_use rn_owner own (rt_nodes r)")
    case (Some j)
    then show ?thesis using res inv by (auto simp: find_node_locked_def next_hop_of_def)
  next
    case None
    then obtain j where j: "free_slot rn_in_use (rt_nodes r) = Some j"
      using res by (auto simp: find_node_locked_def split: option.splits)
    let ?nd = "(zero_remote_node (length (rn_subs (rt_nodes r ! j))))\<lparr>rn_owner := own, rn_in_use := True\<rparr>"
    have jl: "j < length (rt_nodes r)" "\<not> rn_in_use (rt_nodes r ! j)"
      using j by (auto simp: free_slot_def dest: find_idx_SomeD)
    then have p: "length (rn_subs (rt_nodes r ! j)) = p" using I(8) by (simp add: node_ok_def)
    have r1: "i = j" "r1 = r\<lparr>rt_nodes := upd_nth j (\<lambda>_. ?nd) (rt_nodes r)\<rparr>"
      using res None j by (auto simp: find_node_locked_def upd_nth_def)
    have nd: "rn_owner ?nd = own" "rn_in_use ?nd" "node_filters ?nd = {}" "rn_next_hop ?nd = id_zero" "node_ok p ?nd"
      using zero_node(1,2) [of p] p by (auto simp: zero_remote_node_def node_filters_def node_ok_def)
    note st = node_map_store [OF I(7) jl(1) _ disjI2, of ?nd own]
    have ku: "keys_unique rn_in_use rn_owner (rt_nodes r1)" using st(1) nd None jl r1 by simp
    have "node_map (rt_nodes r) k = None" if "fst k = own" for k using None that by (simp add: node_map_def)
    then have m: "node_map (rt_nodes r1) = node_map (rt_nodes r)"
      using st(2) nd(1,3) None jl(2) r1(2) by (auto simp: fun_eq_iff)
    have ok: "nodes_ok p (rt_nodes r1)" using nodes_ok_put [OF I(1) _ nd(5)] ku r1(2) by simp
    have at: "rt_nodes r1 ! i = ?nd" "length (rt_nodes r1) = n" using r1 jl I(2) by simp_all
    have "slot_of rn_in_use rn_owner own (rt_nodes r1) = Some i"
      unfolding slot_of_eq_Some [OF ku] at(1) using at(2) nd r1(1) jl I(2) by simp
    moreover have "router_inv n p r1"
      using I(3-6) ok at(2) unfolding router_inv_def by (simp add: r1(2))
    ultimately show ?thesis using m at nd(4) None r1(2) by (simp add: next_hop_of_def)
  qed
  then show "router_inv n p r1" and s: "slot_of rn_in_use rn_owner own (rt_nodes r1) = Some i"
    and "rt_exact r1 = rt_exact r" and "rt_wild r1 = rt_wild r" and m: "node_map (rt_nodes r1) = node_map (rt_nodes r)"
    and "rn_next_hop (rt_nodes r1 ! i) = (case next_hop_of (rt_nodes r) own of None \<Rightarrow> id_zero | Some h \<Rightarrow> h)"
    by blast+
  show "node_filters (rt_nodes r1 ! i) = {f. node_map (rt_nodes r) (own, f) \<noteq> None}"
    unfolding m [symmetric] using s by (auto simp: node_map_def node_filters_def)
qed

interpretation rsubs: slot_table rs_in_use rs_filter "\<lambda>s. s\<lparr>rs_in_use := False\<rparr>"
  by unfold_locales simp

text \<open>The slot a subscription takes: its own, or a free one.\<close>

lemma sub_slot_store:
  fixes q :: byte
  assumes "node_ok p nd" and "filter_ok f" and "slot_of rs_in_use rs_filter f (rn_subs nd) = found"
    and "(if found \<noteq> None then found else free_slot rs_in_use (rn_subs nd)) = Some j"
  defines "nd' \<equiv> nd\<lparr>rn_subs := upd_nth j (\<lambda>_. \<lparr>rs_filter = strncpy_str MQTT_TOPIC_MAX f, rs_qos = q, rs_in_use = True\<rparr>) (rn_subs nd)\<rparr>"
  shows "node_ok p nd'" and "node_filters nd' = insert f (node_filters nd)"
proof -
  let ?e = "\<lparr>rs_filter = f, rs_qos = q, rs_in_use = True\<rparr>"
  have nd': "nd' = nd\<lparr>rn_subs := upd_nth j (\<lambda>_. ?e) (rn_subs nd)\<rparr>"
    using assms(2) by (simp add: nd'_def filter_ok_def)
  have ku: "keys_unique rs_in_use rs_filter (rn_subs nd)" using assms(1) by (simp add: node_ok_def)
  have j: "j < length (rn_subs nd)" "rs_in_use (rn_subs nd ! j) \<Longrightarrow> rs_filter (rn_subs nd ! j) = f"
    using assms(3,4) by (auto simp: free_slot_def slot_of_def split: if_splits dest: find_idx_SomeD)
  have only: "a = j" if "a < length (rn_subs nd)" "rs_in_use (rn_subs nd ! a)" "rs_filter (rn_subs nd ! a) = f" for a
    using assms(3,4) that slot_of_eq_Some [OF ku, of f a] by simp
  have "keys_unique rs_in_use rs_filter (rn_subs nd')"
    unfolding nd' using only by (auto intro!: keys_unique_put [OF ku j(1), of _ f])
  moreover have "filter_ok (rs_filter s)" if "s \<in> set (rn_subs nd')" "rs_in_use s" for s
    using that assms(1,2) set_upd_nth [of s j "\<lambda>_. ?e" "rn_subs nd"] by (auto simp: nd' node_ok_def)
  ultimately show "node_ok p nd'" using assms(1) by (simp add: node_ok_def nd')
  show "node_filters nd' = insert f (node_filters nd)"
  proof (intro set_eqI)
    fix g
    have "g \<in> node_filters nd' \<longleftrightarrow> g = f \<or> (\<exists>a < length (rn_subs nd). a \<noteq> j \<and> rs_in_use (rn_subs nd ! a) \<and> rs_filter (rn_subs nd ! a) = g)"
      using ex_upd_nth [OF j(1), of "\<lambda>s. rs_in_use s \<and> rs_filter s = g" ?e]
      by (auto simp: node_filters_def nd' Bex_def in_set_conv_nth)
    then show "g \<in> node_filters nd' \<longleftrightarrow> g \<in> insert f (node_filters nd)"
      using j(2) by (auto simp: node_filters_def in_set_conv_nth Bex_def)
  qed
qed

text \<open>The slots of a node are all taken only when it has \<open>p\<close> filters.\<close>

lemma sub_slot_room:
  assumes "node_ok p nd" and "f \<in> node_filters nd \<or> card (node_filters nd) < p"
  shows "\<exists>j. (if slot_of rs_in_use rs_filter f (rn_subs nd) \<noteq> None then slot_of rs_in_use rs_filter f (rn_subs nd)
    else free_slot rs_in_use (rn_subs nd)) = Some j"
proof (cases "slot_of rs_in_use rs_filter f (rn_subs nd)")
  case None
  then have "f \<notin> node_filters nd"
    using slot_of_Some_iff [of rs_in_use rs_filter f "rn_subs nd"] by (auto simp: node_filters_def in_set_conv_nth)
  moreover have "node_filters nd = rs_filter ` {s \<in> set (rn_subs nd). rs_in_use s}" by (auto simp: node_filters_def)
  ultimately have "\<exists>i < length (rn_subs nd). \<not> rs_in_use (rn_subs nd ! i)"
    using assms slot_room [of rs_in_use rs_filter "rn_subs nd"] by (simp add: node_ok_def)
  then obtain i where "free_slot rs_in_use (rn_subs nd) = Some i"
    using find_idx_exI [of _ "rn_subs nd" "\<lambda>s. \<not> rs_in_use s"] by (auto simp: free_slot_def)
  then show ?thesis using None by simp
qed auto

text \<open>A subscription with a slot for the filter, and one without.\<close>

lemma subscribe_slot:
  fixes hop :: node_id and q :: byte
  assumes inv: "router_inv n p r" and ok: "filter_ok f" and found: "find_node_locked own True r = (Some i, r1)"
    and slot: "(if slot_of rs_in_use rs_filter f (rn_subs (rt_nodes r1 ! i)) \<noteq> None
      then slot_of rs_in_use rs_filter f (rn_subs (rt_nodes r1 ! i)) else free_slot rs_in_use (rn_subs (rt_nodes r1 ! i))) = slt"
  defines "h \<equiv> chosen_hop (next_hop_of (rt_nodes r) own) own hop"
    and "r' \<equiv> snd (p2p_router_remote_subscribe own f q hop r)"
  shows "router_inv n p r'"
    and "slt \<noteq> None \<Longrightarrow> router_sync r \<Longrightarrow> router_sync r' \<and> node_map (rt_nodes r') =
      (\<lambda>k. if fst k = own \<and> (snd k = f \<or> node_map (rt_nodes r) k \<noteq> None) then Some h else node_map (rt_nodes r) k)"
proof -
  note F = find_node_create [OF inv found]
  note I = router_invD [OF F(1)]
  have i: "i < length (rt_nodes r1)" "rn_in_use (rt_nodes r1 ! i)" "rn_owner (rt_nodes r1 ! i) = own"
    using slot_of_SomeD [OF F(2)] by simp_all
  let ?nd0 = "rt_nodes r1 ! i"
  define rc where "rc \<longleftrightarrow> rn_next_hop ?nd0 = id_zero \<or> (hop = own \<and> rn_next_hop ?nd0 \<noteq> own)"
  define nd where "nd = (if rc then ?nd0\<lparr>rn_next_hop := hop\<rparr> else ?nd0)"
  have nd: "node_ok p nd" "rn_in_use nd" "rn_owner nd = own" "rn_subs nd = rn_subs ?nd0" "rn_next_hop nd = h"
      "node_filters nd = node_filters ?nd0"
    using i I(8) [OF i(1)] F(6)
    by (auto simp: nd_def rc_def node_ok_def node_filters_def h_def chosen_hop_def split: option.splits)
  note code = r'_def [unfolded p2p_router_remote_subscribe_def Let_def found prod.case option.case,
    folded rc_def, folded nd_def, unfolded nd(4) slot]
  have "router_inv n p r' \<and> (slt \<noteq> None \<longrightarrow> router_sync r \<longrightarrow> router_sync r' \<and> node_map (rt_nodes r') =
      (\<lambda>k. if fst k = own \<and> (snd k = f \<or> node_map (rt_nodes r) k \<noteq> None) then Some h else node_map (rt_nodes r) k))"
  proof (cases slt)
    case None
    then have "r' = r1\<lparr>rt_nodes := upd_nth i (\<lambda>_. nd) (rt_nodes r1)\<rparr>"
      by (simp add: code)
    then show ?thesis using store_and_route(1) [OF F(1,2) nd(1-3), of "[]"] nd(6) None by simp
  next
    case (Some j)
    define nd' where "nd' = nd\<lparr>rn_subs := upd_nth j
      (\<lambda>_. \<lparr>rs_filter = strncpy_str MQTT_TOPIC_MAX f, rs_qos = q, rs_in_use = True\<rparr>) (rn_subs nd)\<rparr>"
    have nd': "node_ok p nd'" "node_filters nd' = insert f (node_filters ?nd0)" "rn_in_use nd'" "rn_owner nd' = own"
        "rn_next_hop nd' = h"
      using sub_slot_store [OF nd(1) ok refl, unfolded nd(4) slot, OF Some, of q] nd
      unfolding nd'_def nd(4) by simp_all
    let ?r2 = "r1\<lparr>rt_nodes := upd_nth i (\<lambda>_. nd') (rt_nodes r1)\<rparr>"
    let ?fs = "if rc then map rs_filter (filter rs_in_use (rn_subs nd')) else [f]"
    have "r' = (if rc then node_routes_refresh_locked nd' ?r2 else route_upsert_locked own h f ?r2)"
      using Some nd(4,5) by (simp add: code nd'_def)
    then have r': "r' = fold (route_upsert_locked own (rn_next_hop nd')) ?fs ?r2"
      using nd' by (simp add: refresh_fold)
    have fs: "set ?fs = (if rc then node_filters nd' else {f})" by (auto simp: node_filters_def)
    have sup: "node_filters ?nd0 \<subseteq> node_filters nd'" using nd'(2) by blast
    have fs': "set ?fs \<subseteq> node_filters nd'" unfolding fs using nd'(2) by auto
    note S = store_and_route [OF F(1,2) nd'(1,3,4) sup fs', folded r']
    have old: "node_map (rt_nodes r) (own, g) \<noteq> None \<longleftrightarrow> g \<in> node_filters ?nd0" for g
      using F(7) by simp
    have m: "node_map (rt_nodes r') = (\<lambda>k. if fst k = own \<and> (snd k = f \<or> node_map (rt_nodes r) k \<noteq> None)
        then Some h else node_map (rt_nodes r) k)"
      unfolding S(2) F(5) nd'(2,5) using old by auto
    have "routes r' = node_map (rt_nodes r')" if sync: "router_sync r"
    proof -
      have rr: "routes r1 = node_map (rt_nodes r1)" using sync F(3-5) by (simp add: router_sync_def routes_def)
      then have S3: "routes r' = (\<lambda>k. if fst k = own \<and> snd k \<in> set ?fs then Some (rn_next_hop nd') else routes r1 k)"
        using S(3) by (simp add: router_sync_def)
      have at: "node_map (rt_nodes r1) k = (if snd k \<in> node_filters ?nd0 then Some (rn_next_hop ?nd0) else None)"
        if "fst k = own" for k
        using that F(2) by (auto simp: node_map_def node_filters_def)
      have "\<not> rc \<Longrightarrow> rn_next_hop ?nd0 = h" using nd(5) by (simp add: nd_def)
      then show ?thesis
        unfolding S(2) S3 rr fs nd'(2,5) by (auto simp: fun_eq_iff at)
    qed
    then show ?thesis using S(1) m by (simp add: router_sync_def)
  qed
  then show "router_inv n p r'" and "slt \<noteq> None \<Longrightarrow> router_sync r \<Longrightarrow> router_sync r' \<and> node_map (rt_nodes r') =
      (\<lambda>k. if fst k = own \<and> (snd k = f \<or> node_map (rt_nodes r) k \<noteq> None) then Some h else node_map (rt_nodes r) k)"
    by blast+
qed

text \<open>Any filter and node: the router stays well formed.\<close>

lemma subscribe_inv:
  assumes "router_inv n p r" and "filter_ok f"
  shows "router_inv n p (snd (p2p_router_remote_subscribe own f q hop r))"
proof (cases "find_node_locked own True r")
  case (Pair oi r1)
  show ?thesis
  proof (cases oi)
    case None
    then have "r1 = r" using Pair by (auto simp: find_node_locked_def split: option.splits)
    then show ?thesis using assms Pair None by (simp add: p2p_router_remote_subscribe_def Let_def)
  next
    case (Some i)
    then show ?thesis using subscribe_slot(1) [OF assms _ refl] Pair by simp
  qed
qed

lemma router_subscribe_map:
  fixes hop own :: node_id and q :: byte
  assumes inv: "router_inv n p r" and ok: "filter_ok f" and sync: "router_sync r"
    and node: "next_hop_of (rt_nodes r) own \<noteq> None \<or> (\<exists>nd \<in> set (rt_nodes r). \<not> rn_in_use nd)"
    and room: "node_map (rt_nodes r) (own, f) \<noteq> None \<or> card {g. node_map (rt_nodes r) (own, g) \<noteq> None} < p"
  defines "r' \<equiv> snd (p2p_router_remote_subscribe own f q hop r)"
  shows "router_sync r'" and "node_map (rt_nodes r') =
      (\<lambda>k. if fst k = own \<and> (snd k = f \<or> node_map (rt_nodes r) k \<noteq> None)
           then Some (chosen_hop (next_hop_of (rt_nodes r) own) own hop) else node_map (rt_nodes r) k)"
proof -
  have "free_slot rn_in_use (rt_nodes r) \<noteq> None" if "next_hop_of (rt_nodes r) own = None"
    using that node by (auto simp: free_slot_def find_idx_None)
  then have "fst (find_node_locked own True r) \<noteq> None"
    by (cases "slot_of rn_in_use rn_owner own (rt_nodes r)")
      (auto simp: find_node_locked_def next_hop_of_def split: option.split)
  then obtain i r1 where f: "find_node_locked own True r = (Some i, r1)"
    by (metis not_Some_eq prod.collapse)
  note F = find_node_create [OF inv f]
  have "node_ok p (rt_nodes r1 ! i)"
    using router_invD(8) [OF F(1)] slot_of_SomeD [OF F(2)] by simp
  then obtain j where "(if slot_of rs_in_use rs_filter f (rn_subs (rt_nodes r1 ! i)) \<noteq> None
      then slot_of rs_in_use rs_filter f (rn_subs (rt_nodes r1 ! i)) else free_slot rs_in_use (rn_subs (rt_nodes r1 ! i))) = Some j"
    using sub_slot_room [of p "rt_nodes r1 ! i" f] room F(7) by auto
  from subscribe_slot(2) [OF inv ok f this, of q hop, folded r'_def] sync
  show "router_sync r'" and "node_map (rt_nodes r') =
      (\<lambda>k. if fst k = own \<and> (snd k = f \<or> node_map (rt_nodes r) k \<noteq> None)
           then Some (chosen_hop (next_hop_of (rt_nodes r) own) own hop) else node_map (rt_nodes r) k)"
    by simp_all
qed

subsection \<open>Unsubscribing and losing a node\<close>

lemma map_add_drop: "(m(k := None)) ++ (m'(k := None)) = (m ++ m')(k := None)"
  by (auto simp: map_add_def fun_eq_iff split: option.split)

lemma filters_release:
  "node_filters (nd\<lparr>rn_subs := map (\<lambda>s. if rs_in_use s \<and> rs_filter s = f then s\<lparr>rs_in_use := False\<rparr> else s) (rn_subs nd)\<rparr>) =
    node_filters nd - {f}"
proof -
  let ?g = "\<lambda>s. if rs_in_use s \<and> rs_filter s = f then s\<lparr>rs_in_use := False\<rparr> else s"
  have e: "node_filters m = rs_filter ` set (filter rs_in_use (rn_subs m))" for m
    by (auto simp: node_filters_def)
  have m: "filter rs_in_use (map ?g ss) = filter (\<lambda>s. rs_filter s \<noteq> f) (filter rs_in_use ss)" for ss
    by (induction ss) auto
  have s: "rn_subs (nd\<lparr>rn_subs := ss\<rparr>) = ss" for ss by simp
  show ?thesis unfolding e s m by auto
qed

lemma clear_node_cases:
  "node_ok p nd \<Longrightarrow> clear_node_if_empty_locked nd = nd \<or>
    clear_node_if_empty_locked nd = zero_remote_node p \<and> node_filters nd = {}"
  by (auto simp: clear_node_if_empty_locked_def node_ok_def node_filters_def)

lemma cleared_node:
  assumes "node_ok p nd" and "rn_owner nd = own" and "node_filters nd = F"
  defines "c \<equiv> clear_node_if_empty_locked nd"
  shows "node_ok p c" and "rn_in_use c \<longrightarrow> rn_owner c = own"
    and "rn_in_use c \<longrightarrow> node_filters c = F \<and> rn_next_hop c = rn_next_hop nd" and "rn_in_use nd \<Longrightarrow> \<not> rn_in_use c \<Longrightarrow> F = {}"
  using clear_node_cases [OF assms(1)] assms by auto

lemma unsubscribe_facts:
  fixes own :: node_id and f :: cstr
  assumes inv: "router_inv n p r"
  defines "r' \<equiv> snd (p2p_router_remote_unsubscribe own f r)"
  shows "router_inv n p r'" and "node_map (rt_nodes r') = (node_map (rt_nodes r))((own, f) := None)"
    and "router_sync r \<Longrightarrow> routes r' = (routes r)((own, f) := None)"
    and "fst (p2p_router_remote_unsubscribe own f r) \<longleftrightarrow> node_map (rt_nodes r) (own, f) \<noteq> None"
proof -
  note I = router_invD [OF inv]
  have gone: "routes r = (routes r)((own, f) := None)" if "node_map (rt_nodes r) (own, f) = None" "router_sync r"
    using that by (auto simp: fun_eq_iff router_sync_def)
  have "router_inv n p r' \<and> node_map (rt_nodes r') = (node_map (rt_nodes r))((own, f) := None) \<and>
    (router_sync r \<longrightarrow> routes r' = (routes r)((own, f) := None)) \<and>
    (fst (p2p_router_remote_unsubscribe own f r) \<longleftrightarrow> node_map (rt_nodes r) (own, f) \<noteq> None)"
  proof (cases "slot_of rn_in_use rn_owner own (rt_nodes r)")
    case None
    then have "find_node_locked own False r = (None, r)" by (simp add: find_node_locked_def split: option.split)
    then have "p2p_router_remote_unsubscribe own f r = (False, r)" by (simp add: p2p_router_remote_unsubscribe_def)
    moreover have "node_map (rt_nodes r) (own, f) = None" using None by (simp add: node_map_def)
    ultimately show ?thesis using inv gone by (simp add: r'_def fun_upd_idem)
  next
    case (Some i)
    let ?nd = "rt_nodes r ! i"
    let ?nd' = "?nd\<lparr>rn_subs := map (\<lambda>s. if rs_in_use s \<and> rs_filter s = f then s\<lparr>rs_in_use := False\<rparr> else s) (rn_subs ?nd)\<rparr>"
    let ?ch = "\<exists>s \<in> set (rn_subs ?nd). rs_in_use s \<and> rs_filter s = f"
    have i: "i < length (rt_nodes r)" "rn_in_use ?nd" "rn_owner ?nd = own" using slot_of_SomeD [OF Some] by simp_all
    have nd: "node_ok p ?nd" using I(8) i(1) by blast
    have f': "node_filters ?nd' = node_filters ?nd - {f}" by (rule filters_release)
    have ch: "?ch \<longleftrightarrow> node_map (rt_nodes r) (own, f) \<noteq> None" using Some by (simp add: node_map_def)
    have find: "find_node_locked own False r = (Some i, r)" using Some by (simp add: find_node_locked_def)
    let ?c = "clear_node_if_empty_locked ?nd'"
    have "keys_unique rs_in_use rs_filter (rn_subs ?nd')"
      using nd by (auto simp: node_ok_def keys_unique_def split: if_splits)
    then have ok': "node_ok p ?nd'" using nd by (auto simp: node_ok_def)
    have ow: "rn_owner ?nd' = own" and iu: "rn_in_use ?nd'" and nh: "rn_next_hop ?nd' = rn_next_hop ?nd"
      using i by simp_all
    note c = cleared_node(1,2) [OF ok' ow f'] cleared_node(3) [OF ok' ow f', unfolded nh] cleared_node(4) [OF ok' ow f' iu]
    note st = node_map_store [OF I(7) i(1) c(2) disjI1 [OF Some]]
    let ?r = "r\<lparr>rt_nodes := upd_nth i (\<lambda>_. ?c) (rt_nodes r)\<rparr>"
    have res: "p2p_router_remote_unsubscribe own f r = (?ch,
      if ?ch then ?r\<lparr>rt_exact := exact_route_remove_locked own f (rt_exact r),
        rt_wild := wildcard_route_remove_locked own f (rt_wild r)\<rparr> else ?r)"
      by (auto simp: p2p_router_remote_unsubscribe_def find Let_def)
    have m: "node_map (rt_nodes r') = (node_map (rt_nodes r))((own, f) := None)"
    proof
      fix k
      have "node_map (rt_nodes r) k = (if snd k \<in> node_filters ?nd then Some (rn_next_hop ?nd) else None)"
        if "fst k = own" using that Some by (auto simp: node_map_def node_filters_def)
      then show "node_map (rt_nodes r') k = ((node_map (rt_nodes r))((own, f) := None)) k"
        using c(3,4) by (cases k) (auto simp: r'_def res st(2))
    qed
    have rt: "routes r' = (routes r)((own, f) := None)" if "router_sync r"
      using gone [OF _ that] ch ex.remove_ok(2) [OF I(3)] wd.remove_ok(2) [OF I(4)] map_add_drop
      by (auto simp: r'_def res routes_def)
    have "router_inv n p r'"
      using nodes_ok_put [OF I(1) st(1) c(1)] I(2-6) removed_inv(1) [OF I(3), of own f] removed_inv(3) [OF I(4), of own f]
      unfolding router_inv_def by (auto simp: r'_def res)
    then show ?thesis using m rt ch by (simp add: res)
  qed
  then show "router_inv n p r'" and "node_map (rt_nodes r') = (node_map (rt_nodes r))((own, f) := None)"
    and "router_sync r \<Longrightarrow> routes r' = (routes r)((own, f) := None)"
    and "fst (p2p_router_remote_unsubscribe own f r) \<longleftrightarrow> node_map (rt_nodes r) (own, f) \<noteq> None" by blast+
qed

lemma remove_node_facts:
  fixes node :: node_id
  assumes inv: "router_inv n p r"
  defines "drp \<equiv> \<lambda>m k. if fst k = node \<or> m k = Some node then None else m k"
  shows "router_inv n p (p2p_router_remove_node node r)"
    and "node_map (rt_nodes (p2p_router_remove_node node r)) = drp (node_map (rt_nodes r))"
    and "routes (p2p_router_remove_node node r) = drp (routes r)"
proof -
  note I = router_invD [OF inv]
  define clr where "clr = (\<lambda>nd. if rn_in_use nd \<and> (rn_owner nd = node \<or> rn_next_hop nd = node) then zero_remote_node (length (rn_subs nd)) else nd)"
  have nodes: "rt_nodes (p2p_router_remove_node node r) = map clr (rt_nodes r)"
    by (simp add: p2p_router_remove_node_def clr_def)
  have ku: "keys_unique rn_in_use rn_owner (map clr (rt_nodes r))"
    using I(7) by (auto simp: keys_unique_def clr_def split: if_splits)
  have ok: "nodes_ok p (map clr (rt_nodes r))"
    using I(1) ku zero_node(2) by (auto simp: nodes_ok_def node_ok_def clr_def)
  show m: "node_map (rt_nodes (p2p_router_remove_node node r)) = drp (node_map (rt_nodes r))"
  proof (rule map_ext_iff)
    fix k :: "node_id \<times> cstr" and h
    obtain o' f where k: "k = (o', f)" by fastforce
    show "node_map (rt_nodes (p2p_router_remove_node node r)) k = Some h \<longleftrightarrow> drp (node_map (rt_nodes r)) k = Some h"
    proof -
      have e: "rn_in_use (clr nd) \<and> rn_owner (clr nd) = o' \<and> f \<in> node_filters (clr nd) \<and> rn_next_hop (clr nd) = h \<longleftrightarrow>
          (rn_in_use nd \<and> rn_owner nd = o' \<and> f \<in> node_filters nd \<and> rn_next_hop nd = h) \<and> o' \<noteq> node \<and> h \<noteq> node" for nd
        by (auto simp: clr_def)
      have "node_map (rt_nodes (p2p_router_remove_node node r)) k = Some h \<longleftrightarrow>
          node_map (rt_nodes r) k = Some h \<and> o' \<noteq> node \<and> h \<noteq> node"
        unfolding nodes k node_map_iff [OF ku] node_map_iff [OF I(7)] by (simp add: e cong: conj_cong) blast
      then show ?thesis by (auto simp: drp_def k)
    qed
  qed
  have disj: "exact_map (rt_exact r) k = None \<or> wild_map (rt_wild r) k = None" for k
    using ex.look_dom(2) [OF I(3), of "fst k" "snd k"] wd.look_dom(2) [OF I(4), of "fst k" "snd k"]
    by (metis domIff prod.collapse)
  show rt: "routes (p2p_router_remove_node node r) = drp (routes r)"
  proof
    fix k
    show "routes (p2p_router_remove_node node r) k = drp (routes r) k"
      using disj [of k] ex.remove_node_ok(3) [OF I(3), of node] wd.remove_node_ok(3) [OF I(4), of node]
      by (auto simp: p2p_router_remove_node_def routes_def drp_def map_add_def split: option.splits)
  qed
  show "router_inv n p (p2p_router_remove_node node r)"
    using ok I(2,5,6) removed_inv(2) [OF I(3)] removed_inv(4) [OF I(4)] unfolding router_inv_def nodes
    by (simp add: p2p_router_remove_node_def)
qed

subsection \<open>The search of the publish path\<close>

text \<open>Hops collected in order without repetition, cut off at \<open>m\<close>: complete unless cut off.\<close>

definition collects :: "node_id list \<Rightarrow> node_id set \<Rightarrow> nat \<Rightarrow> node_id list \<Rightarrow> bool" where
  "collects hops H m res \<longleftrightarrow> distinct res \<and> length res \<le> m \<and> set hops \<subseteq> set res \<and> set res \<subseteq> set hops \<union> H \<and>
     (length res < m \<longrightarrow> set res = set hops \<union> H)"

lemma collects_done: "distinct hops \<Longrightarrow> length hops \<le> m \<Longrightarrow> length hops < m \<longrightarrow> H \<subseteq> set hops \<Longrightarrow> collects hops H m hops"
  by (auto simp: collects_def)

lemma collects_step: "collects hops' H' m res \<Longrightarrow> set hops \<subseteq> set hops' \<Longrightarrow> set hops' \<union> H' = set hops \<union> H \<Longrightarrow> collects hops H m res"
  unfolding collects_def by blast

lemma collects_trans: "collects hops H m mid \<Longrightarrow> collects mid H' m res \<Longrightarrow> collects hops (H \<union> H') m res"
proof -
  assume a: "collects hops H m mid" and b: "collects mid H' m res"
  have "length mid \<le> length res"
    using a b unfolding collects_def by (metis List.finite_set card_mono distinct_card)
  then show ?thesis using a b unfolding collects_def by auto
qed

definition probe_hits :: "exact_route list \<Rightarrow> cstr \<Rightarrow> node_id option \<Rightarrow> nat list \<Rightarrow> node_id set" where
  "probe_hits es topic excl is = {er_next_hop (es ! i) | i. i \<in> set (takeWhile (nonempty es) is) \<and> er_used (es ! i) \<and>
     er_filter (es ! i) = topic \<and> excl \<noteq> Some (er_next_hop (es ! i))}"

lemma probe_hops_spec:
  "distinct hops \<Longrightarrow> length hops \<le> m \<Longrightarrow>
    collects hops (probe_hits es topic excl is) m (probe_hops es topic excl m is hops)"
proof (induction "is" arbitrary: hops)
  case Nil
  then show ?case by (auto intro!: collects_done simp: probe_hits_def)
next
  case (Cons i "is")
  let ?r = "es ! i"
  have hits: "probe_hits es topic excl (i # is) = (if nonempty es i then
      (if er_used ?r \<and> er_filter ?r = topic \<and> excl \<noteq> Some (er_next_hop ?r) then {er_next_hop ?r} else {})
        \<union> probe_hits es topic excl is else {})"
    by (auto simp: probe_hits_def)
  consider (full) "\<not> length hops < m" | (empty) "length hops < m" "er_use ?r = RouteEmpty"
    | (hit) "length hops < m" "er_use ?r = RouteUsed" "er_filter ?r = topic" "excl \<noteq> Some (er_next_hop ?r)"
    | (skip) "length hops < m" "er_use ?r \<noteq> RouteEmpty" "\<not> (er_use ?r = RouteUsed \<and> er_filter ?r = topic \<and> excl \<noteq> Some (er_next_hop ?r))"
    by blast
  then show ?case
  proof cases
    case full
    then show ?thesis using Cons.prems by (simp add: Let_def collects_done)
  next
    case empty
    then have "probe_hits es topic excl (i # is) = {}" by (simp add: hits nonempty_def)
    then show ?thesis using Cons.prems empty by (simp add: Let_def collects_done)
  next
    case hit
    have "distinct (add_hop (er_next_hop ?r) hops)" "length (add_hop (er_next_hop ?r) hops) \<le> m"
      using hit Cons.prems by (auto simp: add_hop_def)
    note step = collects_step [OF Cons.IH [OF this], of hops "probe_hits es topic excl (i # is)"]
    have "probe_hits es topic excl (i # is) = insert (er_next_hop ?r) (probe_hits es topic excl is)"
      using hit by (simp add: hits nonempty_def er_used_def)
    moreover have "set (add_hop (er_next_hop ?r) hops) = insert (er_next_hop ?r) (set hops)" by (auto simp: add_hop_def)
    moreover have "probe_hops es topic excl m (i # is) hops = probe_hops es topic excl m is (add_hop (er_next_hop ?r) hops)"
      using hit by (simp add: Let_def)
    ultimately show ?thesis using step by auto
  next
    case skip
    then have "probe_hits es topic excl (i # is) = probe_hits es topic excl is"
      by (auto simp: hits nonempty_def er_used_def)
    moreover have "probe_hops es topic excl m (i # is) hops = probe_hops es topic excl m is hops"
      using skip by (auto simp: Let_def)
    ultimately show ?thesis using Cons.IH [OF Cons.prems] by simp
  qed
qed

definition wildcard_hits :: "wildcard_route list \<Rightarrow> cstr \<Rightarrow> node_id option \<Rightarrow> node_id set" where
  "wildcard_hits ws topic excl = {wr_next_hop r | r. r \<in> set ws \<and> wr_in_use r \<and>
     router_topic_match (wr_filter r) topic \<and> excl \<noteq> Some (wr_next_hop r)}"

lemma wildcard_hops_spec:
  "distinct hops \<Longrightarrow> length hops \<le> m \<Longrightarrow>
    collects hops (wildcard_hits ws topic excl) m (wildcard_hops ws topic excl m hops)"
proof (induction ws arbitrary: hops)
  case Nil
  then show ?case by (auto intro!: collects_done simp: wildcard_hits_def)
next
  case (Cons r ws)
  have hits: "wildcard_hits (r # ws) topic excl =
      (if wr_in_use r \<and> router_topic_match (wr_filter r) topic \<and> excl \<noteq> Some (wr_next_hop r) then {wr_next_hop r} else {})
        \<union> wildcard_hits ws topic excl"
    by (auto simp: wildcard_hits_def)
  consider (full) "\<not> length hops < m"
    | (hit) "length hops < m" "wr_in_use r" "router_topic_match (wr_filter r) topic" "excl \<noteq> Some (wr_next_hop r)" "wr_next_hop r \<notin> set hops"
    | (skip) "length hops < m" "\<not> (wr_in_use r \<and> router_topic_match (wr_filter r) topic \<and> excl \<noteq> Some (wr_next_hop r) \<and> wr_next_hop r \<notin> set hops)"
    by blast
  then show ?case
  proof cases
    case full
    then show ?thesis using Cons.prems by (simp add: collects_done)
  next
    case hit
    have "distinct (hops @ [wr_next_hop r])" "length (hops @ [wr_next_hop r]) \<le> m" using hit Cons.prems by auto
    from collects_step [OF Cons.IH [OF this], of hops "wildcard_hits (r # ws) topic excl"] hit
    show ?thesis by (auto simp: hits)
  next
    case skip
    then have "wildcard_hops (r # ws) topic excl m hops = wildcard_hops ws topic excl m hops" by auto
    moreover have "set hops \<union> wildcard_hits ws topic excl = set hops \<union> wildcard_hits (r # ws) topic excl"
      using skip by (auto simp: hits)
    ultimately show ?thesis using collects_step [OF Cons.IH [OF Cons.prems], of hops] by simp
  qed
qed

lemma next_hops_routes:
  fixes excl :: "node_id option" and topic :: cstr
  assumes inv: "router_inv n p r"
  defines "H \<equiv> {h. \<exists>own f. routes r (own, f) = Some h \<and> router_topic_match f topic \<and> excl \<noteq> Some h}"
  shows "collects [] H m (p2p_router_find_next_hops topic excl m r)"
proof -
  note I = router_invD [OF inv]
  let ?W = "wildcard_hits (rt_wild r) topic excl"
  let ?P = "probe_hits (rt_exact r) topic excl (probe topic (length (rt_exact r)))"
  have w: "h \<in> ?W \<longleftrightarrow> (\<exists>own f. wild_map (rt_wild r) (own, f) = Some h \<and> router_topic_match f topic \<and> excl \<noteq> Some h)" for h
    using wild_map_iff [OF I(4)] by (auto simp: wildcard_hits_def wildcard_key_def in_set_conv_nth)
  have pm: "h \<in> ?P \<longleftrightarrow> (\<exists>own. exact_map (rt_exact r) (own, topic) = Some h) \<and> excl \<noteq> Some h" for h
    using I(3) set_probe [of topic "length (rt_exact r)"]
    unfolding exact_map_iff [OF I(3)] probe_hits_def
    by (auto simp: exact_key_def exact_inv_def dest!: set_takeWhileD)
  have exact_f: "exact_map (rt_exact r) (own, f) = Some h \<Longrightarrow> router_topic_match f topic \<longleftrightarrow> f = topic" for own f h
    using ex.look_dom(2) [OF I(3), of own f] router_match_exact [of f topic] by (auto simp: filter_is_exact_def)
  have disj: "exact_map (rt_exact r) k = None \<or> wild_map (rt_wild r) k = None" for k
    using ex.look_dom(2) [OF I(3), of "fst k" "snd k"] wd.look_dom(2) [OF I(4), of "fst k" "snd k"]
    by (metis domIff prod.collapse)
  have m: "routes r k = Some h \<longleftrightarrow> exact_map (rt_exact r) k = Some h \<or> wild_map (rt_wild r) k = Some h" for k h
    using disj [of k] by (auto simp: routes_def map_add_def split: option.splits)
  have H: "H = ?P \<union> ?W"
  proof (intro set_eqI)
    fix h
    have "h \<in> ?P \<longleftrightarrow> (\<exists>own f. exact_map (rt_exact r) (own, f) = Some h \<and> router_topic_match f topic \<and> excl \<noteq> Some h)"
      unfolding pm using exact_f by metis
    then show "h \<in> H \<longleftrightarrow> h \<in> ?P \<union> ?W"
      unfolding H_def by (simp add: m w) blast
  qed
  have none: "?P = {}" if "\<not> filter_is_exact topic"
    using that ex.look_dom(2) [OF I(3), of _ topic] pm by (metis all_not_in_conv domI)
  show ?thesis
  proof (cases "m = 0")
    case False
    show ?thesis
    proof (cases "filter_is_exact topic")
      case True
      have mid: "collects [] ?P m (probe_hops (rt_exact r) topic excl m (probe topic (length (rt_exact r))) [])"
        using False by (intro probe_hops_spec) auto
      then have "distinct (probe_hops (rt_exact r) topic excl m (probe topic (length (rt_exact r))) [])"
        "length (probe_hops (rt_exact r) topic excl m (probe topic (length (rt_exact r))) []) \<le> m"
        by (simp_all add: collects_def)
      from collects_trans [OF mid wildcard_hops_spec [OF this]] show ?thesis
        using False True by (simp add: p2p_router_find_next_hops_def H)
    next
      case no: False
      then show ?thesis
        using False wildcard_hops_spec [of "[]" m "rt_wild r" topic excl] none
        by (simp add: p2p_router_find_next_hops_def H)
    qed
  qed (simp add: p2p_router_find_next_hops_def collects_def)
qed

lemma next_hops_spec:
  assumes "router_inv n p r" and "router_sync r"
  shows "collects [] {h. \<exists>own f. node_map (rt_nodes r) (own, f) = Some h \<and> router_topic_match f topic \<and> excl \<noteq> Some h}
    m (p2p_router_find_next_hops topic excl m r)"
  using next_hops_routes [OF assms(1), of topic excl m] assms(2) by (simp add: router_sync_def)

subsection \<open>The static tables\<close>

lemma static_router_ok: "router_inv n p (static_router n p)" "router_sync (static_router n p)"
  "node_map (rt_nodes (static_router n p)) = Map.empty"
proof -
  have e: "exact_map (replicate k zero_exact_route) = Map.empty" "wild_map (replicate k zero_wildcard_route) = Map.empty" for k
    by (auto simp: exact_map_def wild_map_def fun_eq_iff slot_of_def find_idx_None er_used_def zero_exact_route_def zero_wildcard_route_def)
  show m: "node_map (rt_nodes (static_router n p)) = Map.empty"
    by (auto simp: fun_eq_iff node_map_def static_router_def zero_remote_node_def dest!: slot_of_SomeD split: option.split)
  show "router_sync (static_router n p)" unfolding router_sync_def m by (simp add: routes_def static_router_def e)
  show "router_inv n p (static_router n p)"
    using zero_node(2,3) [of p]
    by (auto simp: router_inv_def static_router_def nodes_ok_def exact_inv_def wild_inv_def keys_unique_def
        er_used_def zero_exact_route_def zero_wildcard_route_def)
qed

subsection \<open>The router in use\<close>

text \<open>The states any sequence of calls leads to; the callers pass filters read into the 128-byte buffers.\<close>

inductive router_reachable :: "nat \<Rightarrow> nat \<Rightarrow> router \<Rightarrow> bool" for n p where
  start: "router_reachable n p (p2p_router_init (static_router n p))"
| subscribe: "router_reachable n p r \<Longrightarrow> filter_ok f \<Longrightarrow>
    router_reachable n p (snd (p2p_router_remote_subscribe own f q hop r))"
| unsubscribe: "router_reachable n p r \<Longrightarrow> router_reachable n p (snd (p2p_router_remote_unsubscribe own f r))"
| lost: "router_reachable n p r \<Longrightarrow> router_reachable n p (p2p_router_remove_node own r)"

lemma router_reachable_ok: "router_reachable n p r \<Longrightarrow> router_inv n p r"
  by (induction rule: router_reachable.induct)
    (simp_all add: p2p_router_init_def static_router_ok subscribe_inv unsubscribe_facts remove_node_facts)

text \<open>
  \<open>sub_room\<close>: a subscription is not refused, that is, the node is known or there is a slot for it, and its
  table has the filter or room for it. \<open>router_run\<close> are the runs in which none was.
\<close>

definition sub_room :: "nat \<Rightarrow> node_id \<Rightarrow> cstr \<Rightarrow> router \<Rightarrow> bool" where
  "sub_room p own f r \<longleftrightarrow>
     (next_hop_of (rt_nodes r) own \<noteq> None \<or> (\<exists>nd \<in> set (rt_nodes r). \<not> rn_in_use nd)) \<and>
     (node_map (rt_nodes r) (own, f) \<noteq> None \<or> card {g. node_map (rt_nodes r) (own, g) \<noteq> None} < p)"

inductive router_run :: "nat \<Rightarrow> nat \<Rightarrow> router \<Rightarrow> bool" for n p where
  start: "router_run n p (p2p_router_init (static_router n p))"
| subscribe: "router_run n p r \<Longrightarrow> filter_ok f \<Longrightarrow> sub_room p own f r \<Longrightarrow>
    router_run n p (snd (p2p_router_remote_subscribe own f q hop r))"
| unsubscribe: "router_run n p r \<Longrightarrow> router_run n p (snd (p2p_router_remote_unsubscribe own f r))"
| lost: "router_run n p r \<Longrightarrow> router_run n p (p2p_router_remove_node own r)"

lemma router_run_reachable: "router_run n p r \<Longrightarrow> router_reachable n p r"
  by (induction rule: router_run.induct) (auto intro: router_reachable.intros)

lemma router_run_sync: "router_run n p r \<Longrightarrow> router_sync r"
proof (induction rule: router_run.induct)
  case start
  then show ?case by (simp add: p2p_router_init_def static_router_ok)
next
  case (subscribe r f own q hop)
  then show ?case
    using router_subscribe_map [OF router_reachable_ok [OF router_run_reachable [OF subscribe(1)]] subscribe(2,4)]
    by (simp add: sub_room_def)
next
  case (unsubscribe r own f)
  then show ?case
    using unsubscribe_facts [OF router_reachable_ok [OF router_run_reachable [OF unsubscribe(1)]], of own f]
    by (simp add: router_sync_def)
next
  case (lost r own)
  then show ?case
    using remove_node_facts [OF router_reachable_ok [OF router_run_reachable [OF lost(1)]], of own]
    by (auto simp: router_sync_def fun_eq_iff)
qed

lemmas router_run_inv = router_reachable_ok [OF router_run_reachable]

subsection \<open>Properties\<close>


definition node_1 :: node_id where "node_1 = NodeId (replicate 16 1)"
definition node_2 :: node_id where "node_2 = NodeId (replicate 16 2)"


text \<open>Removing a subscription or a node drops exactly its routes: no route of a lost node or through it
  stays, whatever state the tables are in, and every other subscription keeps its route.\<close>

theorem router_removals:
  assumes "router_inv n p r"
  shows "(let r' = snd (p2p_router_remote_unsubscribe own f r) in
      router_inv n p r' \<and> node_map (rt_nodes r') = (node_map (rt_nodes r))((own, f) := None) \<and>
      (router_sync r \<longrightarrow> router_sync r')) \<and>
    (let r' = p2p_router_remove_node own r in
      router_inv n p r' \<and> (\<forall>k. routes r' k = (if fst k = own \<or> routes r k = Some own then None else routes r k)) \<and>
      (router_sync r \<longrightarrow> router_sync r'))"
  using unsubscribe_facts [OF assms, of own f] remove_node_facts [OF assms, of own]
  by (auto simp: Let_def router_sync_def)

theorem router_removals_witness:
  "routes (p2p_router_remove_node node_1 (static_router 2 1)) (node_1, [97]) = None \<and>
   router_sync (snd (p2p_router_remote_unsubscribe node_1 [97] (static_router 2 1)))"
  using router_removals [OF static_router_ok(1) [of 2 1], of node_1 "[97]"] static_router_ok(2) [of 2 1]
  by (simp add: Let_def)


lemma two_slots:
  "probe [97] (Suc (Suc 0)) = [0, Suc 0]" "probe [98] (Suc (Suc 0)) = [Suc 0, 0]" "replicate 2 x = [x, x]"
proof -
  have h: "hash_filter [97] = 3826002220" "hash_filter [98] = 3876335077"
    by (simp_all add: hash_filter_def fnv1a_def fnv_step_def)
  show "probe [97] (Suc (Suc 0)) = [0, Suc 0]" "probe [98] (Suc (Suc 0)) = [Suc 0, 0]"
    by (simp_all add: probe_def h upt_rec flip: numeral_2_eq_2)
  show "replicate 2 x = [x, x]" by (simp add: numeral_2_eq_2)
qed

lemma two_nodes: "node_1 \<noteq> id_zero" "node_2 \<noteq> id_zero" "node_1 \<noteq> node_2"
  by (simp_all add: node_1_def node_2_def id_zero_def)

lemmas static_simps = static_router_def zero_remote_node_def zero_remote_sub_def zero_exact_route_def
  zero_wildcard_route_def

lemmas router_eval = p2p_router_remote_subscribe_def find_node_locked_def slot_of_def free_slot_def upd_nth_def
  node_routes_refresh_locked_def route_upsert_locked_def exact_route_upsert_locked_def
  wildcard_route_upsert_locked_def node_map_def p2p_router_find_next_hops_def p2p_router_remove_node_def
  exact_routes_remove_node_locked_def wildcard_routes_remove_node_locked_def add_hop_def filter_is_exact_def
  has_wildcard_def


text \<open>When the table of a node is full and a direct link replaces its next hop, its routes still name the
  old hop: a publish goes to the node that was replaced, and the routes and subscriptions disagree.\<close>

theorem stale_routes:
  "let r1 = snd (p2p_router_remote_subscribe node_1 [97] 0 node_2 (static_router 2 1));
       r2 = snd (p2p_router_remote_subscribe node_1 [98] 0 node_1 r1) in
   node_map (rt_nodes r2) (node_1, [97]) = Some node_1 \<and>
   p2p_router_find_next_hops [97] None 8 r2 = [node_2] \<and>
   p2p_router_find_next_hops [97] None 8 (p2p_router_remove_node node_2 r2) = []"
  by (simp add: router_eval static_simps two_slots two_nodes two_nodes [symmetric] Let_def)

lemma sum_list_le: "\<forall>x \<in> set xs. f x \<le> (p :: nat) \<Longrightarrow> sum_list (map f xs) \<le> length xs * p"
  by (induction xs) auto

text \<open>In every state the calls can reach, a hash entry is found by its own probe, keys are unique in each
  table, and the statistics are the exact counts: the 8- and 16-bit counters do not wrap.\<close>

theorem router_stats_exact:
  assumes "router_reachable n p r" and "n < 256" and "n * p < 65536"
  shows "let s = p2p_router_stats r in
    router_inv n p r \<and>
    unat (st_remote_nodes s) = used_count rn_in_use (rt_nodes r) \<and>
    unat (st_remote_subs s) = sum_list (map (\<lambda>nd. used_count rs_in_use (rn_subs nd)) (filter rn_in_use (rt_nodes r))) \<and>
    unat (st_exact_routes s) = used_count er_used (rt_exact r) \<and>
    unat (st_wildcard_routes s) = used_count wr_in_use (rt_wild r)"
proof -
  have inv: "router_inv n p r" by (rule router_reachable_ok [OF assms(1)])
  note I = router_invD [OF inv]
  let ?nodes = "filter rn_in_use (rt_nodes r)"
  let ?c = "\<lambda>nd. used_count rs_in_use (rn_subs nd)"
  have nodes: "length ?nodes \<le> n" using I(2) by (metis length_filter_le)
  have "?c nd \<le> p" if "nd \<in> set ?nodes" for nd
    using that I(1) used_count_le [of rs_in_use "rn_subs nd"] by (auto simp: nodes_ok_def node_ok_def)
  then have "sum_list (map ?c ?nodes) \<le> length ?nodes * p" by (intro sum_list_le) blast
  also have "\<dots> \<le> n * p" using nodes by simp
  finally have subs: "sum_list (map ?c ?nodes) < 65536" using assms(3) by simp
  have e: "used_count er_used (rt_exact r) < 65536" "used_count wr_in_use (rt_wild r) < 65536"
    using used_count_le [of er_used "rt_exact r"] used_count_le [of wr_in_use "rt_wild r"] I(5,6) assms(3) by simp_all
  show ?thesis
    using inv nodes subs e assms(2)
    by (simp add: p2p_router_stats_def Let_def unat_of_nat used_count_def er_used_def [abs_def])
qed

theorem router_stats_exact_witness:
  "unat (st_remote_nodes (p2p_router_stats (snd (p2p_router_remote_subscribe node_1 [97] 0 node_2
     (p2p_router_init (static_router 2 1)))))) = 1"
proof -
  have "router_reachable 2 1 (snd (p2p_router_remote_subscribe node_1 [97] 0 node_2 (p2p_router_init (static_router 2 1))))"
    by (intro router_reachable.intros) (simp add: filter_ok_def cstr_ok_def)
  from router_stats_exact [OF this] show ?thesis
    by (simp add: Let_def p2p_router_init_def router_eval static_simps two_slots two_nodes two_nodes [symmetric] used_count_def)
qed

end
