(* ===== verification/P2P_Election_Correct.thy ===== *)
theory P2P_Election_Correct
  imports P2P_Election P2P_Router_Correct
begin

text \<open>
  What the election decides: the exchange sort is the library's stable sort for the order of the
  code, the two search loops find the first optimum, and a node is a router exactly when fewer
  than the target count of the nodes it knows come before it.
\<close>

subsection \<open>The order and the sort\<close>

definition rank_key :: "peer_score \<Rightarrow> int \<times> node_id" where
  "rank_key p = (- ps_score p, ps_node_id p)"

lemma score_before_iff:
  "id_ok (ps_node_id a) \<Longrightarrow> id_ok (ps_node_id b) \<Longrightarrow> score_before a b \<longleftrightarrow> rank_key a < rank_key b"
  using id_cmp_less(1) [of "ps_node_id a" "ps_node_id b"] by (auto simp: score_before_def rank_key_def)

abbreviation (input) worse_first :: "peer_score \<Rightarrow> peer_score \<Rightarrow> bool" where
  "worse_first \<equiv> \<lambda>a b. \<not> score_before a b"

lemma swaps_by_rank: "\<forall>p \<in> A. id_ok (ps_node_id p) \<Longrightarrow> swaps_by rank_key worse_first A"
  by (auto simp: swaps_by_def score_before_iff)

subsection \<open>The first optimum\<close>

lemma best_step_pair: "best_step r x (b, c) = (if r x > b \<or> (r x = b \<and> x < c) then (r x, x) else (b, c))"
  by (simp add: best_step_def)

lemma best_fold:
  assumes "sorted cs" and "\<forall>x \<in> set cs. c \<le> x" and "fold (best_step r) cs (b, c) = (b', c')"
  shows "b \<le> b'" and "\<forall>x \<in> set cs. r x \<le> b'"
    and "b' = b \<and> c' = c \<or> c' \<in> set cs \<and> b' = r c' \<and> b < b' \<and> (\<forall>x \<in> set cs. r x = b' \<longrightarrow> c' \<le> x)"
proof -
  have "b \<le> b' \<and> (\<forall>x \<in> set cs. r x \<le> b') \<and>
    (b' = b \<and> c' = c \<or> c' \<in> set cs \<and> b' = r c' \<and> b < b' \<and> (\<forall>x \<in> set cs. r x = b' \<longrightarrow> c' \<le> x))"
    using assms
  proof (induction cs arbitrary: b c)
    case (Cons x cs)
    show ?case
    proof (cases "r x > b")
      case True
      then have "fold (best_step r) cs (r x, x) = (b', c')" using Cons.prems(3) by (simp add: best_step_pair)
      from Cons.IH [OF _ _ this] Cons.prems True show ?thesis by auto
    next
      case False
      then have "fold (best_step r) cs (b, c) = (b', c')" using Cons.prems(2,3) by (simp add: best_step_pair)
      from Cons.IH [OF _ _ this] Cons.prems False show ?thesis by auto
    qed
  qed simp
  then show "b \<le> b'" and "\<forall>x \<in> set cs. r x \<le> b'"
    and "b' = b \<and> c' = c \<or> c' \<in> set cs \<and> b' = r c' \<and> b < b' \<and> (\<forall>x \<in> set cs. r x = b' \<longrightarrow> c' \<le> x)"
    by blast+
qed

lemma best_candidate_spec:
  assumes "1 \<le> n" and "- 2147483648 < r 1"
  shows "1 \<le> best_candidate r n \<and> best_candidate r n \<le> n \<and> (\<forall>x \<in> {1..n}. r x \<le> r (best_candidate r n)) \<and>
    (\<forall>x \<in> {1..n}. r x = r (best_candidate r n) \<longrightarrow> best_candidate r n \<le> x)"
proof -
  obtain b' c' where f: "fold (best_step r) [1..n] (- 2147483648, 1) = (b', c')" by fastforce
  have "sorted [1..n]" "\<forall>x \<in> set [1..n]. 1 \<le> x" by (simp_all add: sorted_upto)
  note B = best_fold [OF this f]
  have "r 1 \<le> b'" using B(2) assms(1) by simp
  then have "- 2147483648 < b'" using assms(2) by simp
  then have c: "c' \<in> {1..n}" "b' = r c'" "\<forall>x \<in> {1..n}. r x = b' \<longrightarrow> c' \<le> x" using B(3) by auto
  moreover have "best_candidate r n = c'" using c(1) by (simp add: best_candidate_def f)
  ultimately show ?thesis using B(2) by auto
qed

subsection \<open>Ranks\<close>

text \<open>The nodes a node knows, as the set of their ranks, and the first \<open>k\<close> of such a set.\<close>

definition actives :: "election \<Rightarrow> peer_score list" where
  "actives st = filter ps_in_use (el_peers st)"

definition ranks :: "election \<Rightarrow> (int \<times> node_id) set" where
  "ranks st = rank_key ` set (actives st)"

definition elected :: "(int \<times> node_id) set \<Rightarrow> nat \<Rightarrow> (int \<times> node_id) set" where
  "elected V k = {x \<in> V. card {y \<in> V. y < x} < k}"

lemma sorted_rank:
  fixes ks :: "'a::linorder list"
  assumes "sorted ks" and "distinct ks" and "i < length ks"
  shows "card {y \<in> set ks. y < ks ! i} = i"
proof -
  have lt: "ks ! a < ks ! b \<longleftrightarrow> a < b" if "a < length ks" "b < length ks" for a b
    using that assms(1,2) sorted_wrt_nth_less [of "(<)" ks a b] sorted_wrt_nth_less [of "(<)" ks b a]
    by (cases a b rule: linorder_cases) (auto simp: strict_sorted_iff)
  have "{y \<in> set ks. y < ks ! i} = (!) ks ` {..<i}"
  proof (intro equalityI subsetI)
    fix y assume "y \<in> {y \<in> set ks. y < ks ! i}"
    then show "y \<in> (!) ks ` {..<i}" using lt assms(3) by (auto simp: in_set_conv_nth)
  next
    fix y assume "y \<in> (!) ks ` {..<i}"
    then show "y \<in> {y \<in> set ks. y < ks ! i}" using lt assms(3) by auto
  qed
  moreover have "inj_on ((!) ks) {..<i}" using assms(2,3) by (auto simp: inj_on_def nth_eq_iff_index_eq)
  ultimately show ?thesis by (simp add: card_image)
qed

lemma elected_take:
  assumes "sorted ks" and "distinct ks"
  shows "elected (set ks) k = set (take k ks)"
proof (intro set_eqI)
  fix x
  show "x \<in> elected (set ks) k \<longleftrightarrow> x \<in> set (take k ks)"
  proof (cases "x \<in> set ks")
    case True
    then obtain i where i: "i < length ks" "x = ks ! i" by (auto simp: in_set_conv_nth)
    have "x \<in> set (take k ks) \<longleftrightarrow> i < k"
      using i assms(2) by (auto simp: in_set_conv_nth nth_eq_iff_index_eq)
    then show ?thesis using sorted_rank [OF assms i(1)] i True by (simp add: elected_def)
  next
    case False
    then show ?thesis using in_set_takeD [of x k ks] by (auto simp: elected_def)
  qed
qed

lemma card_elected: "finite V \<Longrightarrow> card (elected V k) = min k (card V)"
  using elected_take [of "sorted_list_of_set V" k] distinct_card [of "take k (sorted_list_of_set V)"]
  by (simp add: min.commute)

subsection \<open>The invariant\<close>

definition election_ok :: "nat \<Rightarrow> election \<Rightarrow> bool" where
  "election_ok n st \<longleftrightarrow> length (el_peers st) = Suc n \<and> keys_unique ps_in_use ps_node_id (el_peers st) \<and>
     ps_in_use (el_peers st ! 0) \<and> ps_node_id (el_peers st ! 0) = el_self_id st \<and>
     (\<forall>p \<in> set (el_peers st). ps_in_use p \<longrightarrow> id_ok (ps_node_id p))"

lemma actives_inj:
  assumes "keys_unique ps_in_use ps_node_id ps"
  shows "distinct (map ps_node_id (filter ps_in_use ps))"
  using assms
proof (induction ps)
  case (Cons p ps)
  have "keys_unique ps_in_use ps_node_id ps" using Cons.prems by (fastforce simp: keys_unique_def)
  moreover have "ps_node_id q \<noteq> ps_node_id p" if p: "ps_in_use p" and q: "q \<in> set ps" "ps_in_use q" for q
  proof -
    obtain j where "j < length ps" "ps ! j = q" using q(1) by (auto simp: in_set_conv_nth)
    then show ?thesis using keys_uniqueD [OF Cons.prems, of "Suc j" 0] p q(2) by auto
  qed
  ultimately show ?case using Cons.IH by (simp add: image_iff) metis
qed simp

lemma keys_unique_sub:
  assumes "keys_unique used key xs" and "length ys = length xs"
    and "\<And>i. i < length xs \<Longrightarrow> used (ys ! i) \<Longrightarrow> used (xs ! i) \<and> key (ys ! i) = key (xs ! i)"
  shows "keys_unique used key ys"
  using assms by (simp add: keys_unique_def)

text \<open>A recomputation may forget peers and rewrites only score, role and time of slot 0.\<close>

definition refreshed :: "election_env \<Rightarrow> election \<Rightarrow> election" where
  "refreshed env st =
     (let (score, st) = local_score env (expire_old_peers (ee_now env) st)
      in set_self (\<lambda>p. p\<lparr>ps_score := score, ps_role := role_byte (el_role st), ps_last_seen := ee_now env\<rparr>) st)"

lemma length_upd_tl [simp]: "length (upd_tl f xs) = length xs"
  by (simp add: upd_tl_def split: list.split)

lemma nth_upd_tl: "i < length xs \<Longrightarrow> upd_tl f xs ! i = (if i = 0 then xs ! 0 else f (xs ! i))"
  by (cases xs; cases i) (simp_all add: upd_tl_def)

lemma flush_fields [simp]:
  "el_peers (flush_publish_window_locked now st) = el_peers st"
  "el_self_id (flush_publish_window_locked now st) = el_self_id st"
  "el_role (flush_publish_window_locked now st) = el_role st"
  "el_topology_sig (flush_publish_window_locked now st) = el_topology_sig st"
  by (simp_all add: flush_publish_window_locked_def)

lemma refreshed_fields:
  "el_self_id (refreshed env st) = el_self_id st" "el_role (refreshed env st) = el_role st"
  "length (el_peers (refreshed env st)) = length (el_peers st)"
  by (simp_all add: refreshed_def local_score_def expire_old_peers_def set_self_def Let_def)

lemma refreshed_nth:
  assumes "i < length (el_peers st)"
  shows "ps_in_use (el_peers (refreshed env st) ! i) \<longleftrightarrow> ps_in_use (el_peers st ! i) \<and>
      (i = 0 \<or> ee_now env - ps_last_seen (el_peers st ! i) \<le> P2P_PEER_TIMEOUT_MS)"
    and "ps_in_use (el_peers (refreshed env st) ! i) \<Longrightarrow> ps_node_id (el_peers (refreshed env st) ! i) = ps_node_id (el_peers st ! i)"
  using assms
  by (auto simp: refreshed_def local_score_def expire_old_peers_def set_self_def Let_def nth_upd_nth nth_upd_tl zero_peer_def
      split: if_splits)

lemma election_ok_sub:
  assumes "election_ok n st" and "length (el_peers st') = length (el_peers st)" and "el_self_id st' = el_self_id st"
    and "\<And>i. i < length (el_peers st) \<Longrightarrow> ps_in_use (el_peers st' ! i) \<Longrightarrow>
      ps_in_use (el_peers st ! i) \<and> ps_node_id (el_peers st' ! i) = ps_node_id (el_peers st ! i)"
    and "ps_in_use (el_peers st' ! 0)"
  shows "election_ok n st'"
proof -
  have "id_ok (ps_node_id p)" if p: "p \<in> set (el_peers st')" "ps_in_use p" for p
  proof -
    obtain i where i: "i < length (el_peers st)" "p = el_peers st' ! i"
      using p(1) assms(2) by (auto simp: in_set_conv_nth)
    then show ?thesis using assms(1) assms(4) [OF i(1)] p(2) nth_mem [OF i(1)] by (auto simp: election_ok_def)
  qed
  moreover have "0 < length (el_peers st)" using assms(1) by (simp add: election_ok_def)
  ultimately show ?thesis
    using assms keys_unique_sub [of ps_in_use ps_node_id "el_peers st" "el_peers st'"] by (simp add: election_ok_def)
qed

lemma refreshed_ok: "election_ok n st \<Longrightarrow> election_ok n (refreshed env st)"
  by (rule election_ok_sub [of n st]) (auto simp: refreshed_fields refreshed_nth election_ok_def)

lemma recompute_peers:
  fixes cfg :: election_config and env :: election_env and st :: election
  defines "st' \<equiv> snd (recompute_role_locked cfg env st)"
  shows "el_peers st' = upd_nth 0 (\<lambda>p. p\<lparr>ps_role := role_byte (el_role st')\<rparr>) (el_peers (refreshed env st))"
    and "el_self_id st' = el_self_id st" and "el_publish_rate st' = el_publish_rate (refreshed env st)"
    and "ec_static_seeds_only cfg \<Longrightarrow> el_role st' = P2P_ROLE_ROUTER"
    and "\<not> ec_static_seeds_only cfg \<Longrightarrow> el_role st' = P2P_ROLE_ROUTER \<longleftrightarrow>
      (let sorted = exchange_sort worse_first (actives (refreshed env st)) in
       \<exists>p \<in> set (take (nat (router_target_count cfg env (refreshed env st) (int (length sorted)))) sorted).
         ps_node_id p = el_self_id st)"
  using refreshed_fields(1) [of env st]
  unfolding st'_def recompute_role_locked_def refreshed_def actives_def
  by (auto simp: Let_def set_self_def split: prod.split)

lemma recompute_sig:
  "\<not> ec_static_seeds_only cfg \<Longrightarrow> el_topology_sig (snd (recompute_role_locked cfg env st)) =
    (let sorted = exchange_sort worse_first (actives (refreshed env st)) in
     fold (\<lambda>p h. hash_update h (id_bytes (ps_node_id p))) (filter (\<lambda>p. ps_role p = role_byte P2P_ROLE_ROUTER) sorted)
       (hash_update 2166136261 (int_bytes (router_target_count cfg env (refreshed env st) (int (length sorted))))))"
  unfolding recompute_role_locked_def refreshed_def actives_def by (auto simp: Let_def set_self_def split: prod.split)

lemma recompute_ok:
  assumes "election_ok n st"
  shows "election_ok n (snd (recompute_role_locked cfg env st))"
  by (rule election_ok_sub [OF refreshed_ok [OF assms], of _ env])
    (use refreshed_ok [OF assms, of env] in \<open>auto simp: recompute_peers refreshed_fields nth_upd_nth election_ok_def split: if_splits\<close>)

lemma update_peer_cases:
  assumes "election_ok n st" and "id_ok (an_node_id ann)"
  shows "p2p_election_update_peer cfg env ann addr st = (False, st) \<or>
    (\<exists>st1. election_ok n st1 \<and> p2p_election_update_peer cfg env ann addr st = recompute_role_locked cfg env st1)"
proof -
  let ?ps = "el_peers st"
  let ?p = "\<lparr>ps_node_id = an_node_id ann, ps_addr = addr, ps_mqtt_port = an_mqtt_port ann,
    ps_p2p_port = an_p2p_port ann, ps_score = an_score ann, ps_role = an_role ann, ps_last_seen = ee_now env, ps_in_use = True\<rparr>"
  have ok: "election_ok n (st\<lparr>el_peers := upd_nth (Suc i) (\<lambda>_. ?p) ?ps\<rparr>)"
    if self: "an_node_id ann \<noteq> el_self_id st"
      and slot: "(if slot_of ps_in_use ps_node_id (an_node_id ann) (tl ?ps) \<noteq> None
        then slot_of ps_in_use ps_node_id (an_node_id ann) (tl ?ps) else free_slot ps_in_use (tl ?ps)) = Some i" for i
  proof -
    obtain q qs where q: "?ps = q # qs" using assms(1) by (cases ?ps) (auto simp: election_ok_def)
    have E: "keys_unique ps_in_use ps_node_id ?ps" "ps_node_id q = el_self_id st" "ps_in_use q" "length qs = n"
        "\<forall>p \<in> set ?ps. ps_in_use p \<longrightarrow> id_ok (ps_node_id p)"
      using assms(1) unfolding election_ok_def q by auto
    have il: "Suc i < length ?ps"
      using slot q by (auto simp: free_slot_def slot_of_def split: if_splits dest: find_idx_SomeD)
    have "j = Suc i" if j: "j < length ?ps" "ps_in_use (?ps ! j)" "ps_node_id (?ps ! j) = an_node_id ann" for j
    proof (cases j)
      case 0
      then show ?thesis using j(3) self q E(2) by simp
    next
      case (Suc k)
      then have "slot_of ps_in_use ps_node_id (an_node_id ann) (tl ?ps) \<noteq> None"
        using j q slot_of_Some_iff [of ps_in_use ps_node_id "an_node_id ann" qs] by auto
      then have "slot_of ps_in_use ps_node_id (an_node_id ann) qs = Some i" using slot q by simp
      then have "ps_in_use (?ps ! Suc i)" "ps_node_id (?ps ! Suc i) = an_node_id ann"
        using slot_of_SomeD [of ps_in_use ps_node_id "an_node_id ann" qs i] q by simp_all
      then show ?thesis using keys_uniqueD [OF E(1), of j "Suc i"] j il by simp
    qed
    then have "keys_unique ps_in_use ps_node_id (upd_nth (Suc i) (\<lambda>_. ?p) ?ps)"
      using keys_unique_put [OF E(1) il, of ?p "an_node_id ann"] by simp
    moreover have "id_ok (ps_node_id p)" if "p \<in> set (upd_nth (Suc i) (\<lambda>_. ?p) ?ps)" "ps_in_use p" for p
      using set_upd_nth [OF that(1)] that(2) E(5) assms(2) by auto
    ultimately show ?thesis using assms(1) by (simp add: election_ok_def)
  qed
  show ?thesis
  proof (cases "an_node_id ann = el_self_id st \<or> (if slot_of ps_in_use ps_node_id (an_node_id ann) (tl ?ps) \<noteq> None
      then slot_of ps_in_use ps_node_id (an_node_id ann) (tl ?ps) else free_slot ps_in_use (tl ?ps)) = None")
    case True
    then have "p2p_election_update_peer cfg env ann addr st = (False, st)"
      unfolding p2p_election_update_peer_def Let_def by (auto split: option.split)
    then show ?thesis ..
  next
    case False
    then obtain i where "(if slot_of ps_in_use ps_node_id (an_node_id ann) (tl ?ps) \<noteq> None
      then slot_of ps_in_use ps_node_id (an_node_id ann) (tl ?ps) else free_slot ps_in_use (tl ?ps)) = Some i"
      by (metis option.exhaust)
    then show ?thesis using ok [of i] False unfolding p2p_election_update_peer_def Let_def by auto
  qed
qed

lemma record_publish_ok: "election_ok n st \<Longrightarrow> election_ok n (p2p_election_record_publish now st)"
  by (simp add: p2p_election_record_publish_def Let_def election_ok_def)

lemma init_ok: "id_ok node \<Longrightarrow> election_ok n (p2p_election_init cfg n env node)"
  unfolding p2p_election_init_def
  by (rule recompute_ok) (auto simp: election_ok_def keys_unique_def zero_peer_def nth_Cons')

subsection \<open>The role is the rank\<close>

lemma rate_only: "el_publish_rate a = el_publish_rate b \<Longrightarrow> router_target_count cfg env a k = router_target_count cfg env b k"
proof -
  assume "el_publish_rate a = el_publish_rate b"
  then have "publish_pressure a = publish_pressure b" by (simp add: publish_pressure_def)
  then have "router_reward env a = router_reward env b" by (intro ext) (simp add: router_reward_def)
  with \<open>publish_pressure a = publish_pressure b\<close> show ?thesis by (simp only: router_target_count_def)
qed

lemma actives_recompute:
  "map rank_key (actives (snd (recompute_role_locked cfg env st))) = map rank_key (actives (refreshed env st))"
proof -
  have "map rank_key (filter ps_in_use (upd_nth 0 (\<lambda>p. p\<lparr>ps_role := x\<rparr>) ps)) = map rank_key (filter ps_in_use ps)" for x ps
    by (cases ps) (simp_all add: upd_nth_def rank_key_def)
  then show ?thesis by (simp add: actives_def recompute_peers(1))
qed

lemma elected_by_rank_raw:
  fixes cfg :: election_config and env :: election_env
  assumes "election_ok n st" and "\<not> ec_static_seeds_only cfg"
  defines "st' \<equiv> snd (recompute_role_locked cfg env st)"
  shows "el_role st' = P2P_ROLE_ROUTER \<longleftrightarrow>
    rank_key (el_peers st' ! 0) \<in> elected (ranks st') (nat (router_target_count cfg env st' (int (card (ranks st')))))"
    and "card (ranks st') = length (actives st')"
proof -
  let ?r = "refreshed env st"
  have ok: "election_ok n ?r" and ok': "election_ok n st'"
    using refreshed_ok recompute_ok assms(1) by (simp_all add: st'_def)
  have ids: "\<forall>p \<in> set (actives ?r). id_ok (ps_node_id p)" using ok by (auto simp: election_ok_def actives_def)
  have dist: "distinct (map ps_node_id (actives ?r))"
    unfolding actives_def by (rule actives_inj) (use ok in \<open>simp add: election_ok_def\<close>)
  let ?s = "exchange_sort worse_first (actives ?r)"
  let ?k = "nat (router_target_count cfg env st' (int (length ?s)))"
  have ranks: "ranks st' = rank_key ` set ?s"
    using arg_cong [OF actives_recompute, of set cfg env st] by (simp add: ranks_def st'_def)
  have "distinct (map ps_node_id ?s)" using dist by (metis exchange_sort_mset mset_map mset_eq_imp_distinct_iff)
  then have inj: "inj_on ps_node_id (set ?s)" and ds: "distinct ?s" by (simp_all add: distinct_map)
  then have "inj_on rank_key (set ?s)" by (auto simp: inj_on_def rank_key_def)
  then have dk: "distinct (map rank_key ?s)" using ds by (simp add: distinct_map)
  have len: "card (ranks st') = length ?s"
    using distinct_card [OF dk] by (simp add: ranks)
  then show "card (ranks st') = length (actives st')"
    using arg_cong [OF actives_recompute, of length cfg env st] by (simp add: st'_def)
  have take: "elected (ranks st') ?k = rank_key ` set (take ?k ?s)"
    using elected_take [OF exchange_sort_sorted [OF swaps_by_rank [of "set (actives ?r)"], OF ids] dk, of ?k] unfolding ranks take_map set_map .
  have pos: "0 < length (el_peers ?r)" using ok by (simp add: election_ok_def)
  let ?p = "el_peers ?r ! 0"
  have self: "?p \<in> set ?s" "ps_node_id ?p = el_self_id st"
    using ok pos by (auto simp: election_ok_def actives_def refreshed_fields)
  have rk: "rank_key (el_peers st' ! 0) = rank_key ?p"
    using pos by (simp add: st'_def recompute_peers(1) rank_key_def)
  have "el_role st' = P2P_ROLE_ROUTER \<longleftrightarrow> (\<exists>p \<in> set (take ?k ?s). ps_node_id p = el_self_id st)"
    using recompute_peers(5) [OF assms(2), of env st, folded st'_def] rate_only [of st' ?r cfg env]
      recompute_peers(3) [of cfg env st, folded st'_def] by (simp add: Let_def)
  also have "\<dots> \<longleftrightarrow> ?p \<in> set (take ?k ?s)"
  proof -
    have "(\<exists>p \<in> set (take ?k ?s). ps_node_id p = el_self_id st) \<longleftrightarrow> ps_node_id ?p \<in> ps_node_id ` set (take ?k ?s)"
      unfolding self(2) image_iff by (simp add: eq_commute)
    then show ?thesis unfolding inj_on_image_mem_iff [OF inj self(1) set_take_subset] .
  qed
  also have "\<dots> \<longleftrightarrow> rank_key ?p \<in> rank_key ` set (take ?k ?s)"
    by (rule inj_on_image_mem_iff [OF \<open>inj_on rank_key (set ?s)\<close> self(1) set_take_subset, symmetric])
  finally show "el_role st' = P2P_ROLE_ROUTER \<longleftrightarrow>
      rank_key (el_peers st' ! 0) \<in> elected (ranks st') (nat (router_target_count cfg env st' (int (card (ranks st')))))"
    by (simp only: take len rk)
qed

subsection \<open>Bounds\<close>

lemma best_candidate_bounds: "1 \<le> n \<Longrightarrow> 1 \<le> best_candidate r n \<and> best_candidate r n \<le> n"
proof -
  assume n: "1 \<le> n"
  obtain b' c' where f: "fold (best_step r) [1..n] (- 2147483648, 1) = (b', c')" by fastforce
  have "sorted [1..n]" "\<forall>x \<in> set [1..n]. 1 \<le> x" by (simp_all add: sorted_upto)
  then have "c' = 1 \<or> c' \<in> {1..n}" using best_fold(3) [OF _ _ f] by auto
  then show ?thesis using n by (auto simp: best_candidate_def f)
qed

lemma target_count_bounds:
  "1 \<le> n \<Longrightarrow> 1 \<le> router_target_count cfg env st n \<and> router_target_count cfg env st n \<le> n"
  using best_candidate_bounds [of n "router_reward env st n"] by (auto simp: router_target_count_def)

lemma ilog2_loop_bounds: "2 ^ r \<le> n \<Longrightarrow> 2 ^ ilog2_loop r n \<le> n \<and> n < 2 ^ (ilog2_loop r n + 1)"
proof (induction r n rule: ilog2_loop.induct)
  case (1 r n)
  show ?case
  proof (cases "2 ^ (r + 1) \<le> n")
    case True
    then show ?thesis using 1 by (simp add: ilog2_loop.simps [of r n])
  next
    case False
    then show ?thesis using "1.prems" by (simp add: ilog2_loop.simps [of r n])
  qed
qed

lemma remote_pressure_nonneg: "0 \<le> a \<Longrightarrow> 0 \<le> b \<Longrightarrow> 0 \<le> remote_pressure a b s"
  by (simp add: remote_pressure_def)

lemma publish_pressure_nonneg: "0 \<le> publish_pressure st"
  by (simp add: publish_pressure_def)

lemma square_bound: "1 < n \<Longrightarrow> n \<le> 10000 \<Longrightarrow> n * n \<le> (100000000 :: int)"
  using mult_mono [of n 10000 n 10000] by simp

lemma router_reward_1: "1 < n \<Longrightarrow> n \<le> 10000 \<Longrightarrow> - 2147483648 < router_reward env st n 1"
  using square_bound [of n] remote_pressure_nonneg [of 4 6 "ee_stats env"] publish_pressure_nonneg [of st]
    pos_imp_zdiv_nonneg_iff [of n "remote_pressure 4 6 (ee_stats env)"]
    pos_imp_zdiv_nonneg_iff [of 8 "publish_pressure st"]
  by (simp add: router_reward_def Let_def)

lemma degree_reward_1: "1 < n \<Longrightarrow> n \<le> 10000 \<Longrightarrow> - 2147483648 < degree_reward env st n 1"
  using square_bound [of n] remote_pressure_nonneg [of 6 8 "ee_stats env"] publish_pressure_nonneg [of st]
    pos_imp_zdiv_nonneg_iff [of n "remote_pressure 6 8 (ee_stats env)"]
    pos_imp_zdiv_nonneg_iff [of 10 "publish_pressure st"]
  by (simp add: degree_reward_def Let_def)

lemma peer_budget_cases:
  assumes "1 < n" and "1 \<le> int (length (el_peers st)) - 1"
  shows "\<exists>m. 1 \<le> m \<and> m \<le> n - 1 \<and> m \<le> int (length (el_peers st)) - 1 \<and>
    (p2p_election_peer_budget cfg env st n = m \<or>
     p2p_election_peer_budget cfg env st n = best_candidate (degree_reward env st n) m)"
proof -
  define m0 where "m0 = (if n - 1 > int (length (el_peers st)) - 1 then int (length (el_peers st)) - 1 else n - 1)"
  define m1 where "m1 = (if ec_router_count cfg > 0 \<and> int (ec_router_count cfg) < m0 then int (ec_router_count cfg) else m0)"
  have m0: "1 \<le> m0" "m0 \<le> n - 1" "m0 \<le> int (length (el_peers st)) - 1" using assms by (auto simp: m0_def)
  then have m1: "1 \<le> m1" "m1 \<le> n - 1" "m1 \<le> int (length (el_peers st)) - 1" by (auto simp: m1_def)
  have n: "\<not> n \<le> 1" using assms(1) by simp
  let ?b = "p2p_election_peer_budget cfg env st n"
  have "?b = m0 \<or> ?b = m1 \<or> ?b = best_candidate (degree_reward env st n) m1"
    unfolding p2p_election_peer_budget_def Let_def if_not_P [OF n] m0_def [symmetric] m1_def [symmetric]
    by (simp split: if_split)
  then show ?thesis using m0 m1 by metis
qed

lemma peer_budget_bounds:
  assumes "1 < n" and "1 \<le> int (length (el_peers st)) - 1"
  shows "1 \<le> p2p_election_peer_budget cfg env st n" and "p2p_election_peer_budget cfg env st n \<le> n - 1"
    and "p2p_election_peer_budget cfg env st n \<le> int (length (el_peers st)) - 1"
proof -
  obtain m where m: "1 \<le> m" "m \<le> n - 1" "m \<le> int (length (el_peers st)) - 1"
    "p2p_election_peer_budget cfg env st n = m \<or> p2p_election_peer_budget cfg env st n = best_candidate (degree_reward env st n) m"
    using peer_budget_cases [OF assms, of cfg env] by blast
  then show "1 \<le> p2p_election_peer_budget cfg env st n" "p2p_election_peer_budget cfg env st n \<le> n - 1"
    "p2p_election_peer_budget cfg env st n \<le> int (length (el_peers st)) - 1"
    using best_candidate_bounds [OF m(1), of "degree_reward env st n"] by auto
qed

subsection \<open>The election in use\<close>

inductive election_reachable :: "election_config \<Rightarrow> nat \<Rightarrow> election \<Rightarrow> bool" for cfg n where
  init: "id_ok node \<Longrightarrow> election_reachable cfg n (p2p_election_init cfg n env node)"
| update_self: "election_reachable cfg n st \<Longrightarrow> election_reachable cfg n (snd (p2p_election_update_self cfg env st))"
| update_peer: "election_reachable cfg n st \<Longrightarrow> id_ok (an_node_id ann) \<Longrightarrow>
    election_reachable cfg n (snd (p2p_election_update_peer cfg env ann addr st))"
| record_publish: "election_reachable cfg n st \<Longrightarrow> election_reachable cfg n (p2p_election_record_publish now st)"
| announce: "election_reachable cfg n st \<Longrightarrow> election_reachable cfg n (snd (p2p_election_build_announce cfg env st))"

text \<open>Slot 0 shows the node's own role.\<close>

definition role_shown :: "election \<Rightarrow> bool" where
  "role_shown st \<longleftrightarrow> ps_role (el_peers st ! 0) = role_byte (el_role st)"

lemma recompute_role_shown: "election_ok n st \<Longrightarrow> role_shown (snd (recompute_role_locked cfg env st))"
  using refreshed_ok [of n st env] by (simp add: role_shown_def recompute_peers(1) election_ok_def)

lemma election_reachable_ok: "election_reachable cfg n st \<Longrightarrow> election_ok n st \<and> role_shown st"
proof (induction rule: election_reachable.induct)
  case (init node env)
  have "election_ok n \<lparr>el_self_id = node, el_peers = zero_peer\<lparr>ps_node_id := node, ps_mqtt_port := ec_mqtt_port cfg,
      ps_p2p_port := ec_p2p_port cfg, ps_in_use := True\<rparr> # replicate n zero_peer,
      el_role = P2P_ROLE_ROUTER, el_topology_sig = 0, el_publish_count = 0, el_publish_rate = 0, el_window_ms = 0\<rparr>"
    using init by (auto simp: election_ok_def keys_unique_def zero_peer_def nth_Cons')
  then show ?case unfolding p2p_election_init_def by (blast intro: recompute_ok recompute_role_shown)
next
  case (update_peer st ann env addr)
  then show ?case
    using update_peer_cases [of n st ann cfg env addr] recompute_ok recompute_role_shown by force
next
  case (record_publish st now)
  then show ?case by (simp add: record_publish_ok p2p_election_record_publish_def Let_def role_shown_def election_ok_def)
qed (auto simp: p2p_election_update_self_def p2p_election_build_announce_def Let_def intro: recompute_ok recompute_role_shown)

subsection \<open>Properties\<close>

text \<open>C13: After any recomputation a node that takes part in the election is a router exactly when fewer than
  the target count of the live peers it knows, itself included, have a better score, ties broken by the smaller
  id; the target lies between one and the number of live peers, so the best node it knows is always one.\<close>

theorem elected_by_rank:
  assumes "election_ok n st" and "\<not> ec_static_seeds_only cfg"
  shows "let st' = snd (recompute_role_locked cfg env st);
             k = router_target_count cfg env st' (int (card (ranks st'))) in
    election_ok n st' \<and> 1 \<le> k \<and> k \<le> int (card (ranks st')) \<and>
    (el_role st' = P2P_ROLE_ROUTER \<longleftrightarrow>
      card {y \<in> ranks st'. y < rank_key (el_peers st' ! 0)} < nat k)"
proof -
  let ?st = "snd (recompute_role_locked cfg env st)"
  note ok = recompute_ok [OF assms(1), of cfg env]
  have "el_peers ?st ! 0 \<in> set (actives ?st)" using ok by (auto simp: election_ok_def actives_def)
  then have self: "rank_key (el_peers ?st ! 0) \<in> ranks ?st" by (simp add: ranks_def)
  then have "1 \<le> int (card (ranks ?st))" by (auto simp: ranks_def card_gt_0_iff Suc_le_eq)
  from target_count_bounds [OF this, of cfg env ?st] show ?thesis
    using ok self elected_by_rank_raw(1) [OF assms, of env] by (simp add: Let_def elected_def)
qed

text \<open>C14: Nodes that know the same peers with the same scores, and aim at the same number of routers, agree: exactly
  that number of them call themselves routers.\<close>

theorem routers_agree:
  assumes "\<not> ec_static_seeds_only cfg" and "V \<noteq> {}"
    and "\<forall>x \<in> V. election_ok n (S x) \<and> (let st' = snd (recompute_role_locked cfg (E x) (S x)) in
      ranks st' = V \<and> rank_key (el_peers st' ! 0) = x \<and> router_target_count cfg (E x) st' (int (card V)) = k)"
  shows "int (card {x \<in> V. el_role (snd (recompute_role_locked cfg (E x) (S x))) = P2P_ROLE_ROUTER}) = k"
proof -
  let ?st = "\<lambda>x. snd (recompute_role_locked cfg (E x) (S x))"
  have role: "el_role (?st x) = P2P_ROLE_ROUTER \<longleftrightarrow> x \<in> elected V (nat k)" if "x \<in> V" for x
    using elected_by_rank_raw(1) [of n "S x" cfg "E x"] assms(1,3) that by (auto simp: Let_def)
  obtain x where x: "x \<in> V" using assms(2) by blast
  then have "V = ranks (?st x)" using assms(3) by (auto simp: Let_def)
  then have fin: "finite V" by (simp add: ranks_def)
  then have "1 \<le> int (card V)" using assms(2) by (simp add: Suc_le_eq card_gt_0_iff)
  from target_count_bounds [OF this] have k: "1 \<le> k" "k \<le> int (card V)" using assms(3) x by (force simp: Let_def)+
  have "{x \<in> V. el_role (?st x) = P2P_ROLE_ROUTER} = elected V (nat k)"
    using role by (auto simp: elected_def)
  then show ?thesis using card_elected [OF fin, of "nat k"] k by simp
qed

text \<open>Where the target is searched for, the number found has the largest reward and is the smallest with it, and
  so is the number of links; neither is below one or above the nodes there are, and the budget fits the peer table.\<close>

theorem targets_optimal:
  assumes "1 < n" and "n \<le> 10000" and "el_peers st \<noteq> []" and "length (el_peers st) \<noteq> 1"
  shows "(let k = best_candidate (router_reward env st n) n in
      1 \<le> k \<and> k \<le> n \<and> (\<forall>c \<in> {1..n}. router_reward env st n c \<le> router_reward env st n k) \<and>
      (\<forall>c \<in> {1..n}. router_reward env st n c = router_reward env st n k \<longrightarrow> k \<le> c)) \<and>
    (let d = p2p_election_peer_budget cfg env st n in
      1 \<le> d \<and> d \<le> n - 1 \<and> d \<le> int (length (el_peers st)) - 1)"
proof -
  have "1 \<le> int (length (el_peers st)) - 1" using assms(3,4) by (cases "el_peers st") (auto simp: Suc_le_eq)
  note peer_budget_bounds [OF assms(1) this, of cfg env]
  then show ?thesis
    using best_candidate_spec [of n "router_reward env st n"] router_reward_1 [OF assms(1,2)] assms(1) by (simp add: Let_def)
qed

text \<open>In every state the operations can reach, the peers listed for the links are pairwise different nodes, the
  node itself comes first with the role it acts on, and there are no more of them than slots.\<close>

theorem election_snapshot_ok:
  assumes "election_reachable cfg n st" and "0 < m"
  shows "let snap = p2p_election_snapshot m st in
    distinct (map ps_node_id snap) \<and> length snap \<le> Suc n \<and> snap \<noteq> [] \<and>
    ps_node_id (hd snap) = p2p_election_self_id st \<and> ps_role (hd snap) = role_byte (p2p_election_role st)"
proof -
  note ok = election_reachable_ok [OF assms(1)]
  obtain p ps where p: "el_peers st = p # ps" using ok by (cases "el_peers st") (auto simp: election_ok_def)
  obtain k where k: "m = Suc k" using assms(2) by (cases m) auto
  have d: "distinct (map ps_node_id (filter ps_in_use (el_peers st)))"
    by (rule actives_inj) (use ok in \<open>simp add: election_ok_def\<close>)
  have "length (filter ps_in_use (el_peers st)) \<le> Suc n" using ok by (metis election_ok_def length_filter_le)
  then show ?thesis
    using ok d p k distinct_take [of "map ps_node_id (filter ps_in_use (el_peers st))" m]
    by (simp add: p2p_election_snapshot_def p2p_election_self_id_def p2p_election_role_def election_ok_def role_shown_def
        take_map Let_def)
qed

subsection \<open>Witnesses\<close>

definition quiet :: election_env where
  "quiet = \<lparr>ee_free_slots = 0, ee_now = 1,
     ee_stats = \<lparr>st_remote_nodes = 0, st_remote_subs = 0, st_exact_routes = 0, st_wildcard_routes = 0\<rparr>\<rparr>"

definition one_router :: election_config where
  "one_router = \<lparr>ec_static_seeds_only = False, ec_router_count = 1, ec_mqtt_port = 1883, ec_p2p_port = 4884\<rparr>"

text \<open>Two nodes that have heard of each other.\<close>

definition peer_at :: "node_id \<Rightarrow> peer_score" where
  "peer_at a = \<lparr>ps_node_id = a, ps_addr = 0, ps_mqtt_port = 1883, ps_p2p_port = 4884, ps_score = - 5, ps_role = 1,
     ps_last_seen = 1, ps_in_use = True\<rparr>"

definition pair_state :: "node_id \<Rightarrow> node_id \<Rightarrow> election" where
  "pair_state a b = \<lparr>el_self_id = a, el_peers = [peer_at a, peer_at b], el_role = P2P_ROLE_ROUTER,
     el_topology_sig = 0, el_publish_count = 0, el_publish_rate = 0, el_window_ms = 1\<rparr>"

lemma pair_ok:
  assumes "id_ok a" and "id_ok b" and "a \<noteq> b"
  shows "election_ok 1 (pair_state a b)"
    and "ranks (snd (recompute_role_locked one_router quiet (pair_state a b))) = {(5, a), (5, b)}"
    and "rank_key (el_peers (snd (recompute_role_locked one_router quiet (pair_state a b))) ! 0) = (5, a)"
proof -
  show "election_ok 1 (pair_state a b)"
    using assms by (auto simp: election_ok_def pair_state_def peer_at_def keys_unique_def nth_Cons')
  have "map rank_key (actives (refreshed quiet (pair_state a b))) = [(5, a), (5, b)]"
    by (simp add: refreshed_def local_score_def expire_old_peers_def flush_publish_window_locked_def upd_tl_def set_self_def
        upd_nth_def pair_state_def peer_at_def quiet_def actives_def rank_key_def Let_def)
  then show "ranks (snd (recompute_role_locked one_router quiet (pair_state a b))) = {(5, a), (5, b)}"
    using arg_cong [OF actives_recompute, of set one_router quiet "pair_state a b"] by (simp add: ranks_def)
  show "rank_key (el_peers (snd (recompute_role_locked one_router quiet (pair_state a b))) ! 0) = (5, a)"
    unfolding recompute_peers(1)
    by (simp add: refreshed_def local_score_def expire_old_peers_def flush_publish_window_locked_def upd_tl_def set_self_def
        upd_nth_def pair_state_def peer_at_def quiet_def rank_key_def Let_def)
qed

lemma pair_ids: "id_ok node_1" "id_ok node_2" "node_1 \<noteq> node_2" "node_2 \<noteq> node_1" "node_1 < node_2" "\<not> ec_static_seeds_only one_router"
  by (simp_all add: id_ok_def node_1_def node_2_def less_node_id_def one_router_def numeral_eq_Suc)

lemma one_router_target: "1 < n \<Longrightarrow> router_target_count one_router env st n = 1"
  by (simp add: router_target_count_def one_router_def)

theorem elected_by_rank_witness:
  "el_role (snd (recompute_role_locked one_router quiet (pair_state node_1 node_2))) = P2P_ROLE_ROUTER \<and>
   el_role (snd (recompute_role_locked one_router quiet (pair_state node_2 node_1))) = P2P_ROLE_LEAF"
proof -
  note p = pair_ok [OF pair_ids(1-3)] pair_ok [OF pair_ids(2,1,4)]
  have c: "card {(5, node_1), (5 :: int, node_2)} = 2" "card {(5, node_2), (5 :: int, node_1)} = 2"
    using pair_ids(3) by simp_all
  have s: "{y \<in> {(5, node_1), (5 :: int, node_2)}. y < (5, node_1)} = {}"
    "{y \<in> {(5, node_2), (5 :: int, node_1)}. y < (5, node_2)} = {(5, node_1)}"
    using pair_ids(5) by auto
  show ?thesis
    using elected_by_rank [OF p(1) pair_ids(6), of quiet] elected_by_rank [OF p(4) pair_ids(6), of quiet]
    unfolding p(2,3,5,6) c s Let_def by (simp add: one_router_target) (metis p2p_role.exhaust)
qed

theorem routers_agree_witness:
  "card {x \<in> {(5 :: int, node_1), (5, node_2)}. el_role (snd (recompute_role_locked one_router quiet
     (if snd x = node_1 then pair_state node_1 node_2 else pair_state node_2 node_1))) = P2P_ROLE_ROUTER} = 1"
proof -
  note p = pair_ok [OF pair_ids(1-3)] pair_ok [OF pair_ids(2,1,4)]
  have c: "card {(5 :: int, node_1), (5, node_2)} = 2" using pair_ids(3) by simp
  show ?thesis
    using routers_agree [OF pair_ids(6), of "{(5, node_1), (5, node_2)}" 1
      "\<lambda>x. if snd x = node_1 then pair_state node_1 node_2 else pair_state node_2 node_1" "\<lambda>_. quiet" 1]
      p pair_ids(4) by (simp add: Let_def c one_router_target insert_commute)
qed

theorem targets_optimal_witness:
  "p2p_election_peer_budget one_router quiet (pair_state node_1 node_2) 2 = 1"
  using targets_optimal [of 2 "pair_state node_1 node_2" quiet one_router] by (simp add: pair_state_def Let_def)

theorem election_snapshot_ok_witness:
  "ps_node_id (hd (p2p_election_snapshot 1 (p2p_election_init one_router 2 quiet node_1))) =
     p2p_election_self_id (p2p_election_init one_router 2 quiet node_1)"
  using election_snapshot_ok [OF election_reachable.init [OF pair_ids(1), of one_router 2 quiet], of 1] by (simp add: Let_def)

end
