(* ===== verification/P2P_Shard_Correct.thy ===== *)
theory P2P_Shard_Correct
  imports P2P_Shard P2P_Election_Correct
begin

text \<open>
  What the shard owner is: a topic and every filter that matches it below two plain levels have the
  same key, the owner of a key is a function of the set of router ids, and the caches return what
  the search would, as long as a topology signature stands for one set of routers.
\<close>

subsection \<open>Keys\<close>

definition level_key :: "cstr list \<Rightarrow> cstr" where
  "level_key ls = strip_slashes (case ls of [] \<Rightarrow> [] | [a] \<Rightarrow> a | a # b # _ \<Rightarrow> a @ 47 # b)"

lemma strip_slash [simp]: "strip_slashes (s @ [47]) = strip_slashes s"
  by (simp add: strip_slashes_def)

lemma key_loop_second:
  "\<not> has_wildcard (hd (levels s)) \<Longrightarrow> len + length s < 128 \<Longrightarrow>
    key_loop s len 1 = hd (levels s) @ (if tl (levels s) = [] then [] else [47])"
proof (induction s arbitrary: len)
  case (Cons c s)
  then show ?case by (cases "c = 47") auto
qed simp

lemma key_loop_first:
  "\<not> has_wildcard (hd (levels s)) \<Longrightarrow> (\<forall>b r. tl (levels s) = b # r \<longrightarrow> \<not> has_wildcard b) \<Longrightarrow> len + length s < 128 \<Longrightarrow>
    key_loop s len 0 = hd (levels s) @ (case tl (levels s) of [] \<Rightarrow> [] | b # r \<Rightarrow> 47 # b @ (if r = [] then [] else [47]))"
proof (induction s arbitrary: len)
  case (Cons c s)
  show ?case
  proof (cases "c = 47")
    case True
    have "\<not> has_wildcard (hd (levels s))" using Cons.prems(2) levels_Cons [of s] True by (auto simp del: levels_not_Nil)
    then have "key_loop s (len + 1) 1 = hd (levels s) @ (if tl (levels s) = [] then [] else [47])"
      using key_loop_second [of s "len + 1"] Cons.prems(3) by simp
    then show ?thesis using True Cons.prems(3) by (cases "levels s") auto
  next
    case False
    then have "key_loop s (len + 1) 0 = hd (levels s) @ (case tl (levels s) of [] \<Rightarrow> [] | b # r \<Rightarrow> 47 # b @ (if r = [] then [] else [47]))"
      using Cons by simp
    then show ?thesis using False Cons.prems by simp
  qed
qed simp

lemma shard_key_levels:
  assumes "\<forall>l \<in> set (take 2 (levels s)). \<not> has_wildcard l" and "length s < 128"
  shows "shard_key_from_str s = level_key (levels s)"
proof -
  have "\<not> has_wildcard (hd (levels s))" "\<forall>b r. tl (levels s) = b # r \<longrightarrow> \<not> has_wildcard b"
    using assms(1) by (cases "levels s"; auto simp: numeral_2_eq_2)+
  from key_loop_first [OF this, of 0] assms(2)
  have k: "key_loop s 0 0 = hd (levels s) @ (case tl (levels s) of [] \<Rightarrow> [] | b # r \<Rightarrow> 47 # b @ (if r = [] then [] else [47]))"
    by simp
  have app: "x @ 47 # b @ [47] = (x @ 47 # b) @ [47]" for x b :: cstr by simp
  show ?thesis
  proof (cases "levels s")
    case (Cons a ls)
    have "s = [] \<Longrightarrow> ls = [] \<and> a = []" using Cons by simp
    then show ?thesis
      using k Cons by (cases ls) (auto simp: shard_key_from_str_def level_key_def app strip_slashes_def simp del: append_assoc)
  qed simp
qed

lemma key_agrees:
  assumes "topic_filter_valid f" and "topic_match f t" and "\<forall>l \<in> set (take 2 (levels f)). \<not> has_wildcard l"
    and "length f < 128" and "length t < 128"
  shows "shard_key_from_str f = shard_key_from_str t"
proof -
  have m: "levels_match (levels f) (levels t)"
    using assms(1,2) mqtt_match_sound topic_match_mqtt by blast
  have plain: "l \<noteq> [35] \<and> l \<noteq> [43]" if "\<not> has_wildcard l" for l using that by (auto simp: has_wildcard_def)
  have "take 2 (levels t) = take 2 (levels f) \<and> level_key (levels t) = level_key (levels f)"
  proof (cases "levels f")
    case (Cons a ls)
    then have a: "\<not> has_wildcard a" using assms(3) by simp
    then obtain ts where t: "levels t = a # ts" "levels_match ls ts"
      using m Cons plain [of a] by (cases "levels t") auto
    show ?thesis
    proof (cases ls)
      case Nil
      then show ?thesis using Cons t by simp
    next
      case (Cons b ms)
      then have "\<not> has_wildcard b" using assms(3) \<open>levels f = a # ls\<close> by simp
      then obtain us where "ts = b # us" using t(2) Cons plain [of b] by (cases ts) auto
      then show ?thesis using t(1) Cons \<open>levels f = a # ls\<close> by (simp add: level_key_def)
    qed
  qed simp
  then show ?thesis using shard_key_levels [of f] shard_key_levels [of t] assms(3-5) by simp
qed

subsection \<open>Owners\<close>

definition router_ids :: "election \<Rightarrow> node_id set" where
  "router_ids st = ps_node_id ` {p \<in> set (actives st). ps_role p = 1}"

definition owner_among :: "node_id set \<Rightarrow> cstr \<Rightarrow> node_id" where
  "owner_among R key = sorted_list_of_set R ! (unat (fnv1a 2166136261 key) mod card R)"

definition owner_spec :: "election \<Rightarrow> cstr \<Rightarrow> node_id" where
  "owner_spec st key = (if router_ids st = {} then el_self_id st else owner_among (router_ids st) key)"

lemma routers_by_id_ids:
  assumes "election_ok n st"
  shows "map ps_node_id (routers_by_id st) = sorted_list_of_set (router_ids st)"
proof -
  let ?ps = "filter (\<lambda>p. ps_role p = 1) (actives st)"
  let ?sw = "\<lambda>a b. id_cmp (ps_node_id b) (ps_node_id a) < 0"
  have snap: "routers_by_id st = exchange_sort ?sw ?ps"
    by (simp add: routers_by_id_def p2p_election_snapshot_def actives_def role_byte_def)
  have ok: "\<forall>p \<in> set ?ps. id_ok (ps_node_id p)" using assms by (auto simp: election_ok_def actives_def)
  then have "swaps_by ps_node_id ?sw (set ?ps)"
    by (auto simp: swaps_by_def id_cmp_less)
  then have s: "sorted (map ps_node_id (routers_by_id st))" unfolding snap by (rule exchange_sort_sorted)
  have "distinct (map ps_node_id (actives st))"
    unfolding actives_def by (rule actives_inj) (use assms in \<open>simp add: election_ok_def\<close>)
  then have "distinct (map ps_node_id ?ps)" by (rule distinct_map_filter)
  then have d: "distinct (map ps_node_id (routers_by_id st))"
    unfolding snap by (metis exchange_sort_mset mset_map mset_eq_imp_distinct_iff)
  have "set (map ps_node_id (routers_by_id st)) = router_ids st" by (auto simp: snap router_ids_def)
  then show ?thesis using sorted_list_of_set.idem_if_sorted_distinct [OF s d] by simp
qed

subsection \<open>Caches\<close>

text \<open>Every cached owner satisfies \<open>P\<close> for its signature and key.\<close>

definition caches_ok :: "(u32 \<Rightarrow> cstr \<Rightarrow> node_id \<Rightarrow> bool) \<Rightarrow> shard_caches \<Rightarrow> bool" where
  "caches_ok P c \<longleftrightarrow> (\<forall>e \<in> set (sh_owner_cache c) \<union> set (sh_thread_cache c).
     se_in_use e \<longrightarrow> P (se_sig e) (se_key e) (se_owner e))"

lemma static_caches_ok: "caches_ok P (static_caches n)"
  by (auto simp: caches_ok_def static_caches_def zero_shard_entry_def)

lemma lookup_loop_Some:
  "lookup_loop sig key es is = Some owner \<Longrightarrow> \<exists>i \<in> set is. shard_cache_match sig key (es ! i) \<and> owner = se_owner (es ! i)"
  by (induction sig key es "is" rule: lookup_loop.induct) (auto split: if_splits)

lemma shard_probe_less: "0 < n \<Longrightarrow> i \<in> set (shard_probe h n) \<Longrightarrow> i < n"
  by (auto simp: shard_probe_def)

lemma shard_lookup_own: "caches_ok P c \<Longrightarrow> shard_cache_lookup sig key c = Some owner \<Longrightarrow> P sig key owner"
proof -
  assume ok: "caches_ok P c" and l: "shard_cache_lookup sig key c = Some owner"
  let ?es = "sh_owner_cache c"
  obtain i where i: "i \<in> set (shard_probe (shard_cache_key_hash sig key) (length ?es))"
      "shard_cache_match sig key (?es ! i)" "owner = se_owner (?es ! i)"
    using lookup_loop_Some l unfolding shard_cache_lookup_def by blast
  moreover have "0 < length ?es" using i(1) by (auto simp: shard_probe_def)
  ultimately have "?es ! i \<in> set ?es" using shard_probe_less by simp
  then show "P sig key owner" using ok i(2,3) by (auto simp: caches_ok_def shard_cache_match_def)
qed

lemma thread_lookup_own: "caches_ok P c \<Longrightarrow> thread_cache_lookup sig key c = Some owner \<Longrightarrow> P sig key owner"
  by (auto simp: thread_cache_lookup_def caches_ok_def find_idx_Some)

lemma store_ok:
  assumes "caches_ok P c" and "length key < 128" and "P sig key owner"
  shows "caches_ok P (thread_cache_store sig key owner (shard_cache_store sig key owner c))"
  using assms by (auto simp: caches_ok_def thread_cache_store_def shard_cache_store_def shard_cache_write_def Let_def
    dest!: set_upd_nth split: option.splits)

lemma search_owner:
  assumes "election_ok n st"
  shows "routers_by_id st = [] \<longleftrightarrow> router_ids st = {}"
    and "routers_by_id st \<noteq> [] \<Longrightarrow>
      ps_node_id (routers_by_id st ! (unat (fnv1a32_update 2166136261 key) mod length (routers_by_id st))) = owner_spec st key"
proof -
  have ids: "map ps_node_id (routers_by_id st) = sorted_list_of_set (router_ids st)" by (rule routers_by_id_ids [OF assms(1)])
  have fin: "finite (router_ids st)" by (simp add: router_ids_def)
  have len: "length (routers_by_id st) = card (router_ids st)" using arg_cong [OF ids, of length] fin by simp
  then show none: "routers_by_id st = [] \<longleftrightarrow> router_ids st = {}" using fin by (metis card_0_eq length_0_conv)
  assume r: "routers_by_id st \<noteq> []"
  then have "unat (fnv1a32_update 2166136261 key) mod length (routers_by_id st) < length (routers_by_id st)" by simp
  then have "ps_node_id (routers_by_id st ! (unat (fnv1a32_update 2166136261 key) mod length (routers_by_id st))) =
      sorted_list_of_set (router_ids st) ! (unat (fnv1a32_update 2166136261 key) mod length (routers_by_id st))"
    by (simp flip: ids)
  then show "ps_node_id (routers_by_id st ! (unat (fnv1a32_update 2166136261 key) mod length (routers_by_id st))) = owner_spec st key"
    using r none by (simp add: owner_spec_def owner_among_def len fnv1a32_update_def)
qed

text \<open>A lookup returns a cached owner or searches for it, and then stores what it found.\<close>

lemma owner_cases:
  assumes "election_ok n st" and "key \<noteq> []"
  defines "sig \<equiv> p2p_election_topology_sig st"
  obtains (cached) owner where "shard_owner_id_from_key st key c = (owner, c)" "\<And>P. caches_ok P c \<Longrightarrow> P sig key owner"
    | (alone) "router_ids st = {}" "shard_owner_id_from_key st key c = (owner_spec st key, c)"
    | (stored) "router_ids st \<noteq> {}" "shard_owner_id_from_key st key c =
        (owner_spec st key, thread_cache_store sig key (owner_spec st key) (shard_cache_store sig key (owner_spec st key) c))"
proof (cases "thread_cache_lookup sig key c")
  case (Some owner)
  show ?thesis
  proof (rule cached)
    show "shard_owner_id_from_key st key c = (owner, c)"
      using Some assms(2) by (simp add: shard_owner_id_from_key_def sig_def)
    show "P sig key owner" if "caches_ok P c" for P using that Some by (rule thread_lookup_own)
  qed
next
  case t: None
  show ?thesis
  proof (cases "shard_cache_lookup sig key c")
    case (Some owner)
    show ?thesis
    proof (rule cached)
      show "shard_owner_id_from_key st key c = (owner, c)"
        using t Some assms(2) by (simp add: shard_owner_id_from_key_def sig_def)
      show "P sig key owner" if "caches_ok P c" for P using that Some by (rule shard_lookup_own)
    qed
  next
    case None
    then show ?thesis
      using t alone stored search_owner(1) [OF assms(1)] search_owner(2) [OF assms(1), of key] assms(2)
      by (cases "routers_by_id st = []")
        (simp_all add: shard_owner_id_from_key_def sig_def Let_def owner_spec_def p2p_election_self_id_def)
  qed
qed

lemma owner_holds:
  assumes "election_ok n st" and "caches_ok P c" and "length key < 128" and "key \<noteq> []"
    and "P (p2p_election_topology_sig st) key (owner_spec st key)"
  shows "P (p2p_election_topology_sig st) key (fst (shard_owner_id_from_key st key c))"
    and "caches_ok P (snd (shard_owner_id_from_key st key c))"
proof -
  have "P (p2p_election_topology_sig st) key (fst (shard_owner_id_from_key st key c)) \<and>
    caches_ok P (snd (shard_owner_id_from_key st key c))"
    by (rule owner_cases [OF assms(1,4), of c]) (use assms(2,5) store_ok [OF assms(2,3,5)] in simp_all)
  then show "P (p2p_election_topology_sig st) key (fst (shard_owner_id_from_key st key c))"
    and "caches_ok P (snd (shard_owner_id_from_key st key c))" by blast+
qed

lemma length_shard_key: "length (shard_key_from_str s) < 128"
proof -
  have "length (key_loop s len sl) \<le> 127 - len" if "len \<le> 127" for len sl
    using that by (induction s len sl rule: key_loop.induct) auto
  from this [of 0 0] have "length (key_loop s 0 0) \<le> 127" by simp
  moreover have "length (strip_slashes x) \<le> length x" for x
    using length_dropWhile_le [of _ "rev x"] by (simp add: strip_slashes_def)
  ultimately have "length (strip_slashes (key_loop s 0 0)) \<le> 127" by (rule order_trans [rotated])
  then show ?thesis by (simp add: shard_key_from_str_def)
qed

text \<open>
  \<open>shard_run k sts c\<close>: the caches hold \<open>c\<close> after lookups that started with empty caches and were made in
  the states \<open>sts\<close> of the election, the last one first.
\<close>

inductive shard_run :: "nat \<Rightarrow> election list \<Rightarrow> shard_caches \<Rightarrow> bool" for k where
  start: "shard_run k [] (static_caches k)"
| topic: "shard_run k sts c \<Longrightarrow> election_ok n st \<Longrightarrow> shard_run k (st # sts) (snd (p2p_shard_owner_for_topic st t c))"
| filter: "shard_run k sts c \<Longrightarrow> election_ok n st \<Longrightarrow> shard_run k (st # sts) (snd (p2p_shard_owner_for_filter st f c))"

text \<open>What is cached was found in one of these states.\<close>

definition found_in :: "election list \<Rightarrow> u32 \<Rightarrow> cstr \<Rightarrow> node_id \<Rightarrow> bool" where
  "found_in sts sig key owner \<longleftrightarrow>
     (\<exists>st \<in> set sts. p2p_election_topology_sig st = sig \<and> router_ids st \<noteq> {} \<and> owner = owner_spec st key)"

lemma caches_ok_mono: "caches_ok P c \<Longrightarrow> (\<And>s k owner. P s k owner \<Longrightarrow> Q s k owner) \<Longrightarrow> caches_ok Q c"
  by (auto simp: caches_ok_def)

lemma found_in_lookup:
  assumes "caches_ok (found_in sts) c" and "election_ok n st"
  shows "caches_ok (found_in (st # sts)) (snd (shard_owner_id_from_key st (shard_key_from_str s) c))"
proof -
  let ?key = "shard_key_from_str s" and ?sig = "p2p_election_topology_sig st"
  have c: "caches_ok (found_in (st # sts)) c"
    using assms(1) by (rule caches_ok_mono) (auto simp: found_in_def)
  have new: "found_in (st # sts) ?sig ?key (owner_spec st ?key)" if "router_ids st \<noteq> {}"
    using that by (auto simp: found_in_def)
  show ?thesis
  proof (cases "?key = []")
    case False
    then show ?thesis
      by (rule owner_cases [OF assms(2), of ?key c]) (use c store_ok [OF c length_shard_key new] in simp_all)
  qed (simp add: shard_owner_id_from_key_def c)
qed

lemma shard_run_found: "shard_run k sts c \<Longrightarrow> caches_ok (found_in sts) c"
proof (induction rule: shard_run.induct)
  case (topic sts c n st t)
  then show ?case using found_in_lookup by (simp add: p2p_shard_owner_for_topic_def)
next
  case (filter sts c n st f)
  then show ?case using found_in_lookup by (simp add: p2p_shard_owner_for_filter_def)
qed (rule static_caches_ok)

subsection \<open>Properties\<close>



text \<open>A node \<open>node_2\<close> that is demoted because of a better peer, and elected again when that peer is gone.\<close>

definition seen_peer :: "node_id \<Rightarrow> int \<Rightarrow> byte \<Rightarrow> peer_score" where
  "seen_peer a score role = \<lparr>ps_node_id = a, ps_addr = 0, ps_mqtt_port = 1883, ps_p2p_port = 4884, ps_score = score,
     ps_role = role, ps_last_seen = 1, ps_in_use = True\<rparr>"

definition node_3 :: node_id where "node_3 = NodeId (replicate 16 3)"

definition elect_state :: "peer_score list \<Rightarrow> election" where
  "elect_state peers = \<lparr>el_self_id = node_2, el_peers = seen_peer node_2 0 1 # peers, el_role = P2P_ROLE_ROUTER,
     el_topology_sig = 0, el_publish_count = 0, el_publish_rate = 0, el_window_ms = 1\<rparr>"

lemma three_nodes: "node_1 \<noteq> node_2" "node_2 \<noteq> node_1" "node_3 \<noteq> node_2" "node_2 \<noteq> node_3" "node_1 < node_2"
  by (simp_all add: node_1_def node_2_def node_3_def less_node_id_def numeral_eq_Suc)

lemmas refresh_eval = refreshed_def local_score_def expire_old_peers_def flush_publish_window_locked_def
  upd_tl_def set_self_def upd_nth_def quiet_def elect_state_def seen_peer_def

lemma refreshed_demoted:
  "el_peers (refreshed quiet (elect_state [seen_peer node_3 0 0, seen_peer node_1 (- 100) 1])) =
    [seen_peer node_2 (- 10) 1, seen_peer node_3 0 0, seen_peer node_1 (- 100) 1]"
  by (simp add: refresh_eval role_byte_def Let_def)

lemma refreshed_again:
  "el_peers (refreshed quiet (elect_state [seen_peer node_1 (- 100) 1])) = [seen_peer node_2 (- 5) 1, seen_peer node_1 (- 100) 1]"
  by (simp add: refresh_eval role_byte_def Let_def)

lemma seen_fields [simp]:
  "ps_in_use (seen_peer a s r)" "ps_score (seen_peer a s r) = s" "ps_node_id (seen_peer a s r) = a" "ps_role (seen_peer a s r) = r"
  by (simp_all add: seen_peer_def)

lemma single_target: "1 < n \<Longrightarrow> nat (router_target_count one_router env st n) = 1"
  by (simp add: router_target_count_def one_router_def)

abbreviation (input) other_sig :: u32 where
  "other_sig \<equiv> hash_update (hash_update (hash_update 2166136261 (int_bytes 1)) (id_bytes node_2)) (id_bytes node_1)"

lemma sorted_demoted:
  "exchange_sort worse_first [seen_peer node_2 (- 10) 1, seen_peer node_3 0 0, seen_peer node_1 (- 100) 1] =
    [seen_peer node_3 0 0, seen_peer node_2 (- 10) 1, seen_peer node_1 (- 100) 1]"
  by (simp add: score_before_def Let_def)

lemma sorted_again:
  "exchange_sort worse_first [seen_peer node_2 (- 5) 1, seen_peer node_1 (- 100) 1] =
    [seen_peer node_2 (- 5) 1, seen_peer node_1 (- 100) 1]"
  by (simp add: score_before_def Let_def)

lemma router_ids_list: "router_ids st = set (map ps_node_id (filter (\<lambda>p. ps_role p = 1) (actives st)))"
  by (auto simp: router_ids_def)

definition demoted :: election where
  "demoted = snd (recompute_role_locked one_router quiet (elect_state [seen_peer node_3 0 0, seen_peer node_1 (- 100) 1]))"

definition again :: election where
  "again = snd (recompute_role_locked one_router quiet (elect_state [seen_peer node_1 (- 100) 1]))"

lemma demoted_facts: "router_ids demoted = {node_1}" "el_topology_sig demoted = other_sig" "election_ok 2 demoted"
proof -
  have ns: "\<not> ec_static_seeds_only one_router" by (simp add: one_router_def)
  have act: "actives (refreshed quiet (elect_state [seen_peer node_3 0 0, seen_peer node_1 (- 100) 1])) =
      [seen_peer node_2 (- 10) 1, seen_peer node_3 0 0, seen_peer node_1 (- 100) 1]"
    by (simp add: actives_def refreshed_demoted)
  have "el_role demoted \<noteq> P2P_ROLE_ROUTER"
    using recompute_peers(5) [OF ns, of quiet "elect_state [seen_peer node_3 0 0, seen_peer node_1 (- 100) 1]"] three_nodes
    unfolding act sorted_demoted Let_def demoted_def by (simp add: single_target elect_state_def)
  then have "el_role demoted = P2P_ROLE_LEAF" by (cases "el_role demoted") auto
  then have "el_peers demoted = [(seen_peer node_2 (- 10) 1)\<lparr>ps_role := 0\<rparr>, seen_peer node_3 0 0, seen_peer node_1 (- 100) 1]"
    using recompute_peers(1) [of one_router quiet "elect_state [seen_peer node_3 0 0, seen_peer node_1 (- 100) 1]"]
    unfolding refreshed_demoted demoted_def by (simp add: upd_nth_def role_byte_def)
  then show "router_ids demoted = {node_1}" by (auto simp: router_ids_list actives_def)
  show "el_topology_sig demoted = other_sig"
    using recompute_sig [OF ns, of quiet "elect_state [seen_peer node_3 0 0, seen_peer node_1 (- 100) 1]"]
    unfolding act sorted_demoted Let_def demoted_def by (simp add: role_byte_def one_router_target)
  have "id_ok node_1" "id_ok node_2" "id_ok node_3" by (simp_all add: id_ok_def node_1_def node_2_def node_3_def)
  moreover have "node_1 \<noteq> node_3" by (simp add: node_1_def node_3_def)
  ultimately have "election_ok 2 (elect_state [seen_peer node_3 0 0, seen_peer node_1 (- 100) 1])"
    using three_nodes by (auto simp: election_ok_def elect_state_def keys_unique_def nth_Cons' split: if_splits)
  then show "election_ok 2 demoted" unfolding demoted_def by (rule recompute_ok)
qed

lemma again_facts: "router_ids again = {node_1, node_2}" "el_topology_sig again = other_sig" "election_ok 1 again"
proof -
  have ns: "\<not> ec_static_seeds_only one_router" by (simp add: one_router_def)
  have act: "actives (refreshed quiet (elect_state [seen_peer node_1 (- 100) 1])) = [seen_peer node_2 (- 5) 1, seen_peer node_1 (- 100) 1]"
    by (simp add: actives_def refreshed_again)
  have "el_role again = P2P_ROLE_ROUTER"
    using recompute_peers(5) [OF ns, of quiet "elect_state [seen_peer node_1 (- 100) 1]"]
    unfolding act sorted_again Let_def again_def by (simp add: single_target elect_state_def)
  then have "el_peers again = [seen_peer node_2 (- 5) 1, seen_peer node_1 (- 100) 1]"
    using recompute_peers(1) [of one_router quiet "elect_state [seen_peer node_1 (- 100) 1]"]
    unfolding refreshed_again again_def by (simp add: upd_nth_def role_byte_def seen_peer_def)
  then show "router_ids again = {node_1, node_2}" by (auto simp: router_ids_list actives_def)
  show "el_topology_sig again = other_sig"
    using recompute_sig [OF ns, of quiet "elect_state [seen_peer node_1 (- 100) 1]"]
    unfolding act sorted_again Let_def again_def by (simp add: role_byte_def one_router_target)
  have "id_ok node_1" "id_ok node_2" by (simp_all add: id_ok_def node_1_def node_2_def)
  then have "election_ok 1 (elect_state [seen_peer node_1 (- 100) 1])"
    using three_nodes by (auto simp: election_ok_def elect_state_def keys_unique_def nth_Cons' split: if_splits)
  then show "election_ok 1 again" unfolding again_def by (rule recompute_ok)
qed

lemma shard_b: "shard_key_from_str [98] = [98]"
  by (simp add: shard_key_from_str_def strip_slashes_def)

lemma static_caches_empty:
  "thread_cache_lookup sig [98] (static_caches 4) = None" "shard_cache_lookup sig [98] (static_caches 4) = None"
proof -
  show "thread_cache_lookup sig [98] (static_caches 4) = None"
    by (auto simp: thread_cache_lookup_def static_caches_def find_idx_None zero_shard_entry_def)
  have "\<not> (\<exists>owner. shard_cache_lookup sig [98] (static_caches 4) = Some owner)"
    using shard_lookup_own [OF static_caches_ok [of "\<lambda>_ _ _. False"], of sig "[98]" 4] by blast
  then show "shard_cache_lookup sig [98] (static_caches 4) = None" by auto
qed

lemma stored_owner_found:
  "thread_cache_lookup sig [98] (thread_cache_store sig [98] node_1 (shard_cache_store sig [98] node_1 (static_caches 4))) = Some node_1"
proof -
  have "sh_thread_cache (static_caches 4) = zero_shard_entry # replicate 7 zero_shard_entry"
    by (simp add: static_caches_def numeral_eq_Suc)
  moreover have "sh_thread_pos (static_caches 4) = 0" by (simp add: static_caches_def)
  ultimately have "sh_thread_cache (thread_cache_store sig [98] node_1 (shard_cache_store sig [98] node_1 (static_caches 4)))
      = shard_cache_write sig [98] node_1 # replicate 7 zero_shard_entry"
    by (simp add: thread_cache_store_def shard_cache_store_def upd_nth_def Let_def)
  then show ?thesis by (simp add: thread_cache_lookup_def shard_cache_write_def)
qed

lemma again_owner: "owner_spec again [98] = node_2"
proof -
  have h: "fnv1a 2166136261 [98] = 3876335077" by (simp add: fnv1a_def fnv_step_def)
  have "sorted_list_of_set {node_1, node_2} = [node_1, node_2]"
    using three_nodes sorted_list_of_set.idem_if_sorted_distinct [of "[node_1, node_2]"] by simp
  moreover have "card {node_1, node_2} = 2" using three_nodes(1) by simp
  moreover have "unat (3876335077 :: u32) mod 2 = 1" by simp
  ultimately have "owner_among {node_1, node_2} [98] = node_2"
    unfolding owner_among_def h by (simp only: nth_Cons_Suc nth_Cons_0 One_nat_def)
  then show ?thesis by (simp add: owner_spec_def again_facts(1))
qed

text \<open>A node that is demoted and elected again keeps the owners it cached when it was demoted: the signature
  of the demotion still counts the node as a router, while the search that fills the cache no longer does.\<close>

theorem stale_owner:
  "let c = snd (p2p_shard_owner_for_topic demoted [98] (static_caches 4)) in
   fst (p2p_shard_owner_for_topic again [98] c) = node_1 \<and>
   fst (p2p_shard_owner_for_topic again [98] (static_caches 4)) = node_2"
proof -
  have "map ps_node_id (routers_by_id demoted) = [node_1]"
    unfolding routers_by_id_ids [OF demoted_facts(3)] demoted_facts(1) by simp
  then obtain p where p: "routers_by_id demoted = [p]" "ps_node_id p = node_1" by auto
  let ?c = "snd (p2p_shard_owner_for_topic demoted [98] (static_caches 4))"
  have "?c = thread_cache_store other_sig [98] node_1 (shard_cache_store other_sig [98] node_1 (static_caches 4))"
    using p by (simp add: p2p_shard_owner_for_topic_def shard_owner_id_from_key_def shard_b static_caches_empty Let_def
        p2p_election_topology_sig_def demoted_facts(2))
  then have "fst (p2p_shard_owner_for_topic again [98] ?c) = node_1"
    by (simp add: p2p_shard_owner_for_topic_def shard_owner_id_from_key_def shard_b p2p_election_topology_sig_def
        again_facts(2) Let_def stored_owner_found)
  moreover have "fst (p2p_shard_owner_for_topic again [98] (static_caches 4)) = node_2"
    using owner_holds(1) [OF again_facts(3) static_caches_ok, of "[98]" "\<lambda>_ key owner. owner = owner_spec again key" 4]
    by (simp add: p2p_shard_owner_for_topic_def shard_b again_owner)
  ultimately show ?thesis by (simp add: Let_def)
qed

end
