(* ===== verification/P2P_Wire.thy ===== *)
theory P2P_Wire
  imports P2P_Shard Client_Properties
begin

text \<open>
  The wire format of the peer network, \<^verbatim>\<open>src/p2p_peer.c\<close> and the packed structs of
  \<^verbatim>\<open>src/include/p2p.h\<close>: a frame is a type byte, the length of the payload in network order and the
  payload. The payloads are copies of packed structs, so their integers have the byte order of the
  machine: least significant byte first, as on the machines the broker runs on.
\<close>

subsection \<open>Messages\<close>

abbreviation (input) MQTT_PAYLOAD_BYTES :: nat where "MQTT_PAYLOAD_BYTES \<equiv> 512"
abbreviation (input) PUBLISH_HDR_BYTES :: nat where "PUBLISH_HDR_BYTES \<equiv> 24"
abbreviation (input) P2P_PUBLISH_FRAME_MAX :: nat where "P2P_PUBLISH_FRAME_MAX \<equiv> 24 + 128 + 512"
abbreviation (input) SUB_MSG_BYTES :: nat where "SUB_MSG_BYTES \<equiv> 145"
abbreviation (input) ANNOUNCE_BYTES :: nat where "ANNOUNCE_BYTES \<equiv> 25"

abbreviation (input) P2P_HELLO :: byte where "P2P_HELLO \<equiv> 1"
abbreviation (input) P2P_SUB_NOTIFY :: byte where "P2P_SUB_NOTIFY \<equiv> 2"
abbreviation (input) P2P_UNSUB_NOTIFY :: byte where "P2P_UNSUB_NOTIFY \<equiv> 3"
abbreviation (input) P2P_PUBLISH :: byte where "P2P_PUBLISH \<equiv> 4"

record p2p_publish_msg =
  pm_origin_id :: node_id
  pm_seq :: u16
  pm_topic :: cstr
  pm_payload :: "byte list"
  pm_qos :: byte
  pm_retain :: byte

record p2p_sub_msg =
  sm_owner_id :: node_id
  sm_filter :: cstr
  sm_qos :: byte

subsection \<open>Integers in memory\<close>

definition write_le16 :: "u16 \<Rightarrow> byte list" where
  "write_le16 v = [ucast v, ucast (drop_bit 8 v)]"

definition read_le16 :: "byte list \<Rightarrow> nat \<Rightarrow> u16" where
  "read_le16 p i = push_bit 8 (ucast (p ! Suc i)) OR ucast (p ! i)"

definition write_le32 :: "int \<Rightarrow> byte list" where
  "write_le32 n = int_bytes n"

definition read_le32 :: "byte list \<Rightarrow> nat \<Rightarrow> int" where
  "read_le32 p i =
     signed_take_bit 31 (uint (p ! i) + 256 * uint (p ! (i + 1)) + 65536 * uint (p ! (i + 2)) + 16777216 * uint (p ! (i + 3)))"

text \<open>A C string at offset \<open>i\<close> of a buffer, and a string in a zero-filled array of \<open>n\<close> bytes.\<close>

definition cstr_at :: "byte list \<Rightarrow> nat \<Rightarrow> cstr" where
  "cstr_at buf i = takeWhile (\<lambda>c. c \<noteq> 0) (drop i buf)"

definition zero_padded :: "nat \<Rightarrow> cstr \<Rightarrow> byte list" where
  "zero_padded n s = s @ replicate (n - length s) 0"

subsection \<open>Publish frames\<close>

definition cstr_len_bounded :: "cstr \<Rightarrow> nat \<Rightarrow> nat option" where
  "cstr_len_bounded s cap = (let len = length (takeWhile (\<lambda>c. c \<noteq> 0) s) in if len \<ge> cap then None else Some len)"

definition copy_cstr_bounded :: "nat \<Rightarrow> cstr \<Rightarrow> cstr option" where
  "copy_cstr_bounded cap src =
     (if cap = 0 then None else case cstr_len_bounded src cap of None \<Rightarrow> None | Some len \<Rightarrow> Some (take len src))"

definition publish_wire_hdr :: "p2p_publish_msg \<Rightarrow> nat \<Rightarrow> byte list" where
  "publish_wire_hdr msg topic_len = id_bytes (pm_origin_id msg) @ write_le16 (pm_seq msg) @ write_le16 (of_nat topic_len) @
     write_le16 (of_nat (length (pm_payload msg))) @ [pm_qos msg, pm_retain msg]"

definition build_publish_frame :: "p2p_publish_msg \<Rightarrow> nat \<Rightarrow> byte list option" where
  "build_publish_frame msg out_cap =
     (case cstr_len_bounded (pm_topic msg) MQTT_TOPIC_MAX of
        None \<Rightarrow> None
      | Some topic_len \<Rightarrow>
          if topic_len = 0 \<or> length (pm_payload msg) > MQTT_PAYLOAD_BYTES then None
          else (let needed = PUBLISH_HDR_BYTES + topic_len + length (pm_payload msg) in
                if needed > out_cap \<or> needed > 65535 then None
                else Some (publish_wire_hdr msg topic_len @ take topic_len (pm_topic msg) @ pm_payload msg)))"

definition parse_publish_frame :: "byte list \<Rightarrow> p2p_publish_msg option" where
  "parse_publish_frame buf =
     (if length buf < PUBLISH_HDR_BYTES then None
      else let topic_len = unat (read_le16 buf 18); payload_len = unat (read_le16 buf 20) in
           if topic_len = 0 \<or> topic_len \<ge> MQTT_TOPIC_MAX \<or> payload_len > MQTT_PAYLOAD_BYTES then None
           else if PUBLISH_HDR_BYTES + topic_len + payload_len \<noteq> length buf then None
           else Some \<lparr>pm_origin_id = NodeId (take P2P_NODE_ID_LEN buf), pm_seq = read_le16 buf 16,
                  pm_topic = cstr_at (take topic_len (drop PUBLISH_HDR_BYTES buf)) 0,
                  pm_payload = drop (PUBLISH_HDR_BYTES + topic_len) buf,
                  pm_qos = buf ! 22, pm_retain = buf ! 23\<rparr>)"

subsection \<open>The other payloads\<close>

definition sub_msg_bytes :: "p2p_sub_msg \<Rightarrow> byte list" where
  "sub_msg_bytes m = id_bytes (sm_owner_id m) @ zero_padded MQTT_TOPIC_MAX (sm_filter m) @ [sm_qos m]"

text \<open>
  The receiver casts the buffer to the struct. Nothing there ends the filter when the sender left
  out the NUL, and it then goes on with the bytes behind it.
\<close>

definition sub_msg_at :: "byte list \<Rightarrow> p2p_sub_msg" where
  "sub_msg_at mem = \<lparr>sm_owner_id = NodeId (take P2P_NODE_ID_LEN mem), sm_filter = cstr_at mem P2P_NODE_ID_LEN, sm_qos = mem ! 144\<rparr>"

definition announce_bytes :: "announce \<Rightarrow> byte list" where
  "announce_bytes a = id_bytes (an_node_id a) @ write_le16 (an_mqtt_port a) @ write_le16 (an_p2p_port a) @
     write_le32 (an_score a) @ [an_role a]"

definition announce_at :: "byte list \<Rightarrow> announce" where
  "announce_at mem = \<lparr>an_node_id = NodeId (take P2P_NODE_ID_LEN mem), an_mqtt_port = read_le16 mem 16,
     an_p2p_port = read_le16 mem 18, an_score = read_le32 mem 20, an_role = mem ! 24\<rparr>"

subsection \<open>Frames on a socket\<close>

definition p2p_hdr :: "byte \<Rightarrow> nat \<Rightarrow> byte list" where
  "p2p_hdr type len = type # write_u16 (of_nat len)"

definition p2p_send_frame :: "byte \<Rightarrow> byte list \<Rightarrow> sock \<Rightarrow> bool \<times> sock" where
  "p2p_send_frame type payload s =
     (if length payload > P2P_PUBLISH_FRAME_MAX then (False, s)
      else let (ok, s) = send_loop (p2p_hdr type (length payload)) s in
           if \<not> ok then (False, s)
           else if length payload > 0 then send_loop payload s else (True, s))"

definition recv_frame :: "nat \<Rightarrow> sock \<Rightarrow> (byte \<times> byte list) option \<times> sock" where
  "recv_frame cap s =
     (case recv_exact 3 s of
        (Inl e, s) \<Rightarrow> (None, s)
      | (Inr hdr, s) \<Rightarrow>
          (let len = unat (read_u16 hdr 1) in
           if len > cap then (None, s)
           else case recv_exact len s of
                  (Inl e, s) \<Rightarrow> (None, s)
                | (Inr payload, s) \<Rightarrow> (Some (hdr ! 0, payload), s)))"

subsection \<open>Round trips\<close>

lemma le16_length [simp]: "length (write_le16 v) = 2"
  by (simp add: write_le16_def)

lemma le16_join: "push_bit 8 (ucast (ucast (drop_bit 8 v) :: byte)) OR ucast (ucast v :: byte) = (v :: u16)"
  by (rule bit_word_eqI) (auto simp: bit_simps not_le)

lemma read_write_le16:
  "length as = i \<Longrightarrow> read_le16 (as @ write_le16 v @ bs) i = v"
  by (simp add: read_le16_def write_le16_def nth_append le16_join)

lemma le16_split: "write_le16 (push_bit 8 (ucast a) OR ucast b) = [b :: byte, a]"
  unfolding write_le16_def list.inject
  by (intro conjI refl; rule bit_word_eqI) (auto simp: bit_simps not_le dest: bit_imp_le_length)

lemma le32_length [simp]: "length (write_le32 n) = 4"
  by (simp add: write_le32_def int_bytes_def)

lemma bytes_of_int:
  "n mod 256 + 256 * (n div 256 mod 256) + 65536 * (n div 65536 mod 256) + 16777216 * (n div 16777216 mod 256) =
   (n :: int) mod 4294967296"
proof -
  have "n mod 4294967296 = 256 * (n div 256 mod 16777216) + n mod 256"
    using zmod_zmult2_eq [of 16777216 n 256] by simp
  moreover have "n div 256 mod 16777216 = 256 * (n div 65536 mod 65536) + n div 256 mod 256"
    using zmod_zmult2_eq [of 65536 "n div 256" 256] zdiv_zmult2_eq [of 256 n 256] by simp
  moreover have "n div 65536 mod 65536 = 256 * (n div 16777216 mod 256) + n div 65536 mod 256"
    using zmod_zmult2_eq [of 256 "n div 65536" 256] zdiv_zmult2_eq [of 256 n 65536] by simp
  ultimately show ?thesis by linarith
qed

lemma uint_byte_of_int: "uint (of_int n :: byte) = n mod 256"
  by (simp add: unsigned_of_int take_bit_eq_mod)

lemma read_write_le32:
  assumes "length as = i" and "- (2 ^ 31) \<le> n" and "n < 2 ^ 31"
  shows "read_le32 (as @ write_le32 n @ bs) i = n"
proof -
  have "(as @ write_le32 n @ bs) ! (i + k) = (write_le32 n @ bs) ! k" for k
    using nth_append_length_plus [of as "write_le32 n @ bs" k] assms(1) by simp
  from this [of 0] this [of 1] this [of 2] this [of 3]
  have "read_le32 (as @ write_le32 n @ bs) i = signed_take_bit 31 (n mod 4294967296)"
    by (simp only: read_le32_def write_le32_def int_bytes_def bytes_of_int [symmetric]) (simp add: uint_byte_of_int)
  also have "\<dots> = signed_take_bit 31 n"
    using signed_take_bit_take_bit [of 31 32 n] by (simp add: take_bit_eq_mod)
  also have "\<dots> = n" using assms(2,3) by (intro signed_take_bit_int_eq_self) simp_all
  finally show ?thesis .
qed

lemma cstr_at_id [simp]: "cstr_ok s \<Longrightarrow> cstr_at s 0 = s"
  by (auto simp: cstr_at_def cstr_ok_def takeWhile_eq_all_conv)

lemma cstr_at_ok [simp]: "cstr_ok (cstr_at s i)"
  by (auto simp: cstr_at_def cstr_ok_def dest: set_takeWhileD)

subsection \<open>Frames round trip\<close>

definition msg_ok :: "p2p_publish_msg \<Rightarrow> bool" where
  "msg_ok m \<longleftrightarrow> id_ok (pm_origin_id m) \<and> filter_ok (pm_topic m) \<and> length (pm_payload m) \<le> MQTT_PAYLOAD_BYTES"

definition sub_msg_ok :: "p2p_sub_msg \<Rightarrow> bool" where
  "sub_msg_ok m \<longleftrightarrow> id_ok (sm_owner_id m) \<and> filter_ok (sm_filter m)"

definition announce_ok :: "announce \<Rightarrow> bool" where
  "announce_ok a \<longleftrightarrow> id_ok (an_node_id a) \<and> - (2 ^ 31) \<le> an_score a \<and> an_score a < 2 ^ 31"

lemma len_bounded_ok: "filter_ok s \<Longrightarrow> cstr_len_bounded s MQTT_TOPIC_MAX = Some (length s)"
proof -
  assume "filter_ok s"
  then have t: "takeWhile (\<lambda>c. c \<noteq> 0) s = s" and "length s < 128"
    by (auto simp: filter_ok_def cstr_ok_def takeWhile_eq_all_conv)
  then show ?thesis unfolding cstr_len_bounded_def Let_def t by simp
qed

lemma copy_cstr_ok: "filter_ok s \<Longrightarrow> copy_cstr_bounded MQTT_TOPIC_MAX s = Some s"
  using len_bounded_ok by (simp add: copy_cstr_bounded_def)

definition publish_bytes :: "p2p_publish_msg \<Rightarrow> byte list" where
  "publish_bytes m = publish_wire_hdr m (length (pm_topic m)) @ pm_topic m @ pm_payload m"

lemma build_publish_ok:
  assumes "msg_ok m" and "pm_topic m \<noteq> []"
  shows "build_publish_frame m P2P_PUBLISH_FRAME_MAX = Some (publish_bytes m)" and "length (publish_bytes m) \<le> P2P_PUBLISH_FRAME_MAX"
    and "publish_bytes m \<noteq> []"
  using assms len_bounded_ok [of "pm_topic m"]
  by (auto simp: build_publish_frame_def publish_bytes_def publish_wire_hdr_def msg_ok_def id_ok_def filter_ok_def Let_def)

lemma parse_peer_publish:
  assumes "msg_ok m" and "pm_topic m \<noteq> []"
  shows "parse_publish_frame (publish_bytes m) = Some m"
proof -
  let ?t = "pm_topic m" and ?p = "pm_payload m" and ?id = "id_bytes (pm_origin_id m)"
  have len: "length ?id = 16" "length ?t < 128" "length ?p \<le> 512" "cstr_ok ?t" "0 < length ?t"
    using assms by (simp_all add: msg_ok_def id_ok_def filter_ok_def)
  let ?seq = "write_le16 (pm_seq m)" and ?tl = "write_le16 (of_nat (length ?t))" and ?pl = "write_le16 (of_nat (length ?p))"
  let ?tail = "[pm_qos m, pm_retain m] @ ?t @ ?p"
  have e: "publish_bytes m = ?id @ ?seq @ ?tl @ ?pl @ ?tail" by (simp add: publish_bytes_def publish_wire_hdr_def)
  have r: "read_le16 (publish_bytes m) 16 = pm_seq m" "read_le16 (publish_bytes m) 18 = of_nat (length ?t)"
      "read_le16 (publish_bytes m) 20 = of_nat (length ?p)"
    using read_write_le16 [of ?id 16 "pm_seq m" "?tl @ ?pl @ ?tail"]
      read_write_le16 [of "?id @ ?seq" 18 "of_nat (length ?t)" "?pl @ ?tail"]
      read_write_le16 [of "?id @ ?seq @ ?tl" 20 "of_nat (length ?p)" ?tail] len(1)
    by (simp_all add: e)
  have q: "publish_bytes m ! 22 = pm_qos m" "publish_bytes m ! 23 = pm_retain m"
    using len(1) by (simp_all add: e nth_append)
  have d: "take 16 (publish_bytes m) = ?id" "drop 24 (publish_bytes m) = ?t @ ?p" "length (publish_bytes m) = 24 + length ?t + length ?p"
    using len(1) by (simp_all add: e)
  have "drop (24 + length ?t) (publish_bytes m) = ?p" using drop_drop [of "length ?t" 24 "publish_bytes m"] d(2) by (simp add: add.commute)
  moreover have "unat (of_nat (length ?t) :: u16) = length ?t" "unat (of_nat (length ?p) :: u16) = length ?p"
    using len(2,3) by (simp_all add: unat_of_nat)
  ultimately show ?thesis
    using r q d len(2-5) by (simp add: parse_publish_frame_def Let_def)
qed

lemma parse_publish_msg_ok: "parse_publish_frame buf = Some m \<Longrightarrow> msg_ok m"
proof -
  assume p: "parse_publish_frame buf = Some m"
  then have "length (cstr_at (take (unat (read_le16 buf 18)) (drop 24 buf)) 0) \<le> unat (read_le16 buf 18)"
    by (metis cstr_at_def drop0 length_take length_takeWhile_le min.bounded_iff)
  then show ?thesis
    using p by (auto simp: parse_publish_frame_def msg_ok_def id_ok_def filter_ok_def Let_def split: if_splits)
qed

lemma sub_msg_roundtrip:
  assumes "sub_msg_ok m"
  shows "sub_msg_at (sub_msg_bytes m @ rest) = m" and "length (sub_msg_bytes m) = SUB_MSG_BYTES"
proof -
  have len: "length (id_bytes (sm_owner_id m)) = 16" "length (sm_filter m) < 128" "cstr_ok (sm_filter m)"
    using assms by (simp_all add: sub_msg_ok_def id_ok_def filter_ok_def)
  let ?z = "replicate (127 - length (sm_filter m)) 0 @ [sm_qos m] @ rest"
  have "128 - length (sm_filter m) = Suc (127 - length (sm_filter m))" using len(2) by simp
  then have "replicate (128 - length (sm_filter m)) (0 :: byte) = 0 # replicate (127 - length (sm_filter m)) 0"
    by (simp only: replicate_Suc)
  then have e: "sub_msg_bytes m @ rest = id_bytes (sm_owner_id m) @ sm_filter m @ 0 # ?z"
    by (simp add: sub_msg_bytes_def zero_padded_def)
  have "takeWhile (\<lambda>c. c \<noteq> 0) (sm_filter m @ 0 # ?z) = sm_filter m"
    using len(3) by (subst takeWhile_append2) (auto simp: cstr_ok_def)
  then have "cstr_at (sub_msg_bytes m @ rest) 16 = sm_filter m"
    using len(1) by (simp add: e cstr_at_def)
  moreover have "(sub_msg_bytes m @ rest) ! 144 = sm_qos m"
    using len(1,2) by (simp add: sub_msg_bytes_def zero_padded_def nth_append)
  moreover have "take 16 (sub_msg_bytes m @ rest) = id_bytes (sm_owner_id m)" using len(1) by (simp add: e)
  ultimately show "sub_msg_at (sub_msg_bytes m @ rest) = m" by (simp add: sub_msg_at_def)
  show "length (sub_msg_bytes m) = SUB_MSG_BYTES" using len by (simp add: sub_msg_bytes_def zero_padded_def)
qed

lemma announce_roundtrip:
  assumes "announce_ok a"
  shows "announce_at (announce_bytes a @ rest) = a" and "length (announce_bytes a) = ANNOUNCE_BYTES"
proof -
  let ?id = "id_bytes (an_node_id a)" and ?m = "write_le16 (an_mqtt_port a)" and ?p = "write_le16 (an_p2p_port a)"
    and ?s = "write_le32 (an_score a)"
  have len: "length ?id = 16" using assms by (simp add: announce_ok_def id_ok_def)
  have e: "announce_bytes a @ rest = ?id @ ?m @ ?p @ ?s @ [an_role a] @ rest" by (simp add: announce_bytes_def)
  have "read_le16 (announce_bytes a @ rest) 16 = an_mqtt_port a" "read_le16 (announce_bytes a @ rest) 18 = an_p2p_port a"
    "read_le32 (announce_bytes a @ rest) 20 = an_score a"
    using read_write_le16 [of ?id 16 "an_mqtt_port a" "?p @ ?s @ [an_role a] @ rest"]
      read_write_le16 [of "?id @ ?m" 18 "an_p2p_port a" "?s @ [an_role a] @ rest"]
      read_write_le32 [of "?id @ ?m @ ?p" 20 "an_score a" "[an_role a] @ rest"] len assms
    by (simp_all add: e announce_ok_def)
  moreover have "(announce_bytes a @ rest) ! 24 = an_role a" "take 16 (announce_bytes a @ rest) = ?id"
    using len by (simp_all add: e nth_append)
  ultimately show "announce_at (announce_bytes a @ rest) = a" by (simp add: announce_at_def)
  show "length (announce_bytes a) = ANNOUNCE_BYTES" using len by (simp add: announce_bytes_def)
qed

subsection \<open>Frames from one socket to the next\<close>

definition peer_frame :: "byte \<Rightarrow> byte list \<Rightarrow> byte list" where
  "peer_frame type payload = p2p_hdr type (length payload) @ payload"

lemma p2p_send_frame_accepting:
  "accepting s \<Longrightarrow> length payload \<le> P2P_PUBLISH_FRAME_MAX \<Longrightarrow>
    p2p_send_frame type payload s = (True, s\<lparr>so_sent := so_sent s @ peer_frame type payload\<rparr>)"
  using send_loop_accepting [of s] send_loop_accepting [of "s\<lparr>so_sent := so_sent s @ p2p_hdr type (length payload)\<rparr>" payload]
  by (simp add: p2p_send_frame_def peer_frame_def accepting_def)

lemma hdr_length [simp]: "length (p2p_hdr type n) = 3"
  by (simp add: p2p_hdr_def write_u16_def)

lemma hdr_read: "n < 2 ^ 16 \<Longrightarrow> p2p_hdr type n ! 0 = type \<and> unat (read_u16 (p2p_hdr type n) 1) = n"
proof -
  assume "n < 2 ^ 16"
  moreover have "read_u16 (p2p_hdr type n) 1 = of_nat n"
    by (simp add: read_u16_def p2p_hdr_def write_u16_def u16_split_join)
  ultimately show ?thesis by (simp add: p2p_hdr_def unat_of_nat)
qed

lemma recv_frame_incoming:
  assumes "incoming (peer_frame type payload @ bs) rest s" and "length payload \<le> cap" and "cap \<le> P2P_PUBLISH_FRAME_MAX"
  shows "\<exists>s'. recv_frame cap s = (Some (type, payload), s') \<and> incoming bs rest s' \<and> s'\<lparr>so_rx := []\<rparr> = s\<lparr>so_rx := []\<rparr>"
proof -
  let ?hdr = "p2p_hdr type (length payload)"
  have n: "length payload < 2 ^ 16" using assms(2,3) by simp
  have "incoming (?hdr @ payload @ bs) rest s" using assms(1) by (simp add: peer_frame_def)
  from recv_exact_incoming [OF this, of 3] obtain s1 where
    s1: "recv_exact 3 s = (Inr ?hdr, s1)" "incoming (payload @ bs) rest s1" "s1\<lparr>so_rx := []\<rparr> = s\<lparr>so_rx := []\<rparr>" by auto
  from recv_exact_incoming [OF s1(2), of "length payload"] obtain s2 where
    s2: "recv_exact (length payload) s1 = (Inr payload, s2)" "incoming bs rest s2" "s2\<lparr>so_rx := []\<rparr> = s1\<lparr>so_rx := []\<rparr>" by auto
  have "recv_frame cap s = (Some (type, payload), s2)"
    using s1(1) s2(1) hdr_read [OF n, of type] assms(2) by (simp add: recv_frame_def Let_def)
  then show ?thesis using s1(3) s2(2,3) by simp
qed

text \<open>
  C28: a message is read back the way it was sent. A publish message with a topic and a payload the
  broker accepts has a frame that fits the buffer of the receiver; however the network cuts the
  bytes of the frame into chunks, the receiver gets it and parses the message that was sent. The
  same holds of a subscription message and of an announcement, whatever their buffer held before.
\<close>

theorem peer_messages_roundtrip:
  assumes "msg_ok m" and "pm_topic m \<noteq> []" and "sub_msg_ok sub" and "announce_ok ann"
    and "accepting out" and "so_sent out = []"
    and "incoming (so_sent (snd (p2p_send_frame P2P_HELLO (announce_bytes ann) (snd (p2p_send_frame P2P_SUB_NOTIFY (sub_msg_bytes sub)
           (snd (p2p_send_frame P2P_PUBLISH (the (build_publish_frame m P2P_PUBLISH_FRAME_MAX)) out))))))) rest s"
  shows "\<exists>p1 s1 p2 s2 p3 s3. recv_frame P2P_PUBLISH_FRAME_MAX s = (Some (P2P_PUBLISH, p1), s1) \<and> parse_publish_frame p1 = Some m \<and>
     recv_frame P2P_PUBLISH_FRAME_MAX s1 = (Some (P2P_SUB_NOTIFY, p2), s2) \<and> length p2 = SUB_MSG_BYTES \<and> sub_msg_at (p2 @ old) = sub \<and>
     recv_frame P2P_PUBLISH_FRAME_MAX s2 = (Some (P2P_HELLO, p3), s3) \<and> length p3 = ANNOUNCE_BYTES \<and> announce_at (p3 @ old) = ann \<and>
     so_rx s3 = rest"
proof -
  note b = build_publish_ok [OF assms(1,2)] and s = sub_msg_roundtrip [OF assms(3)] and a = announce_roundtrip [OF assms(4)]
  have "incoming (peer_frame P2P_PUBLISH (publish_bytes m) @ peer_frame P2P_SUB_NOTIFY (sub_msg_bytes sub) @
      peer_frame P2P_HELLO (announce_bytes ann) @ []) rest s"
    using assms(5-7) b s(2) a(2) by (simp add: p2p_send_frame_accepting accepting_def)
  from recv_frame_incoming [OF this b(2)] obtain s1 where
    s1: "recv_frame P2P_PUBLISH_FRAME_MAX s = (Some (P2P_PUBLISH, publish_bytes m), s1)"
      "incoming (peer_frame P2P_SUB_NOTIFY (sub_msg_bytes sub) @ peer_frame P2P_HELLO (announce_bytes ann) @ []) rest s1" by auto
  from recv_frame_incoming [OF s1(2), of P2P_PUBLISH_FRAME_MAX] s(2) obtain s2 where
    s2: "recv_frame P2P_PUBLISH_FRAME_MAX s1 = (Some (P2P_SUB_NOTIFY, sub_msg_bytes sub), s2)"
      "incoming (peer_frame P2P_HELLO (announce_bytes ann) @ []) rest s2" by auto
  from recv_frame_incoming [OF s2(2), of P2P_PUBLISH_FRAME_MAX] a(2) obtain s3 where
    s3: "recv_frame P2P_PUBLISH_FRAME_MAX s2 = (Some (P2P_HELLO, announce_bytes ann), s3)" "incoming [] rest s3" by auto
  obtain cs where cs: "so_rx s3 = map RxData cs @ rest" "[] \<notin> set cs" "concat cs = []"
    using s3(2) unfolding incoming_def by blast
  then have "so_rx s3 = rest" by (cases cs) auto
  then show ?thesis using s1(1) s2(1) s3(1) parse_peer_publish [OF assms(1,2)] s a by blast
qed

definition example_id :: "byte \<Rightarrow> node_id" where
  "example_id k = NodeId (k # replicate 15 0)"

lemma example_id_ok [simp]: "id_ok (example_id k)"
  by (simp add: example_id_def id_ok_def)

theorem peer_messages_roundtrip_witness:
  "let m = \<lparr>pm_origin_id = example_id 1, pm_seq = 1, pm_topic = [97], pm_payload = [104, 105], pm_qos = 1, pm_retain = 0\<rparr>;
       sub = \<lparr>sm_owner_id = example_id 1, sm_filter = [97, 47, 35], sm_qos = 2\<rparr>;
       ann = \<lparr>an_node_id = example_id 1, an_mqtt_port = 1883, an_p2p_port = 4884, an_score = -5, an_role = 1\<rparr>;
       bytes = peer_frame P2P_PUBLISH (publish_bytes m) @ peer_frame P2P_SUB_NOTIFY (sub_msg_bytes sub) @
         peer_frame P2P_HELLO (announce_bytes ann);
       s = quiet_sock\<lparr>so_rx := [RxData (take 7 bytes), RxData (drop 7 bytes)]\<rparr>
   in \<exists>p1 s1 p2 s2 p3 s3. recv_frame P2P_PUBLISH_FRAME_MAX s = (Some (P2P_PUBLISH, p1), s1) \<and> parse_publish_frame p1 = Some m \<and>
     recv_frame P2P_PUBLISH_FRAME_MAX s1 = (Some (P2P_SUB_NOTIFY, p2), s2) \<and> length p2 = SUB_MSG_BYTES \<and> sub_msg_at (p2 @ []) = sub \<and>
     recv_frame P2P_PUBLISH_FRAME_MAX s2 = (Some (P2P_HELLO, p3), s3) \<and> length p3 = ANNOUNCE_BYTES \<and> announce_at (p3 @ []) = ann \<and>
     so_rx s3 = []"
proof -
  define m where "m = \<lparr>pm_origin_id = example_id 1, pm_seq = 1, pm_topic = [97], pm_payload = [104, 105], pm_qos = 1, pm_retain = 0\<rparr>"
  define sub where "sub = \<lparr>sm_owner_id = example_id 1, sm_filter = [97, 47, 35], sm_qos = 2\<rparr>"
  define ann where "ann = \<lparr>an_node_id = example_id 1, an_mqtt_port = 1883, an_p2p_port = 4884, an_score = -5, an_role = 1\<rparr>"
  define bytes where "bytes = peer_frame P2P_PUBLISH (publish_bytes m) @ peer_frame P2P_SUB_NOTIFY (sub_msg_bytes sub) @
    peer_frame P2P_HELLO (announce_bytes ann)"
  define s where "s = quiet_sock\<lparr>so_rx := [RxData (take 7 bytes), RxData (drop 7 bytes)]\<rparr>"
  have ok: "msg_ok m" "pm_topic m \<noteq> []" "sub_msg_ok sub" "announce_ok ann"
    by (simp_all add: m_def sub_def ann_def msg_ok_def sub_msg_ok_def announce_ok_def filter_ok_def cstr_ok_def)
  note b = build_publish_ok [OF ok(1,2)] and sb = sub_msg_roundtrip [OF ok(3)] and ab = announce_roundtrip [OF ok(4)]
  have q: "accepting quiet_sock" "so_sent quiet_sock = []" by (simp_all add: accepting_def quiet_sock_def)
  have sent: "so_sent (snd (p2p_send_frame P2P_HELLO (announce_bytes ann) (snd (p2p_send_frame P2P_SUB_NOTIFY (sub_msg_bytes sub)
      (snd (p2p_send_frame P2P_PUBLISH (the (build_publish_frame m P2P_PUBLISH_FRAME_MAX)) quiet_sock)))))) = bytes"
    using q b sb(2) ab(2) by (simp add: p2p_send_frame_accepting accepting_def bytes_def)
  have "7 < length bytes" using sb(2) by (simp add: bytes_def peer_frame_def)
  then have "incoming bytes [] s"
    unfolding incoming_def s_def by (intro exI [of _ "[take 7 bytes, drop 7 bytes]"]) auto
  then show ?thesis
    using peer_messages_roundtrip [OF ok q(1,2), of "[]" s "[]"] sent
    by (simp only: Let_def m_def [symmetric] sub_def [symmetric] ann_def [symmetric] bytes_def [symmetric] s_def [symmetric])
qed

end
