(* ===== verification/P2P_Peer.thy ===== *)
theory P2P_Peer
  imports P2P_Wire Mesh_Ingress
begin

text \<open>
  The peer transport, \<^verbatim>\<open>src/p2p_peer.c\<close>, and the node it completes: the broker with its mesh ingress,
  the router, the election and the shard caches.

  \<^item> A \<open>p2p_conn_t *\<close> is the index of the connection in \<open>conns\<close>. \<open>nd_threads\<close> are the threads that
    run \<open>peer_loop\<close>: each knows its connection and, while it waits for a frame, the descriptor it
    waits on. One step of a thread is what it does between two waits.
  \<^item> The broker calls the peer network while it works (\<open>bk_p2p\<close> lists the calls). \<open>run_p2p\<close> performs
    the calls not performed yet (\<open>nd_done\<close> counts the others): what they read and change, the
    broker's operations do not, so it does not matter that they are performed at the end of the
    operation. The sockets of clients and of peers are told apart by their descriptors.
  \<^item> The sizes of the fixed tables are the lengths of the lists.
\<close>

subsection \<open>State\<close>

record p2p_conn =
  cn_fd :: int
  cn_in_use :: bool
  cn_connected :: bool
  cn_node_id :: node_id
  cn_role :: byte
  cn_addr :: u32
  cn_p2p_port :: u16
  cn_outbound :: bool

record send_slot =
  sl_fd :: int
  sl_connected :: bool
  sl_node_id :: node_id

record seen_msg =
  sn_origin_id :: node_id
  sn_seq :: u16

record static_seed =
  sd_addr :: u32
  sd_p2p_port :: u16
  sd_in_use :: bool
  sd_retry_delay_ms :: u32
  sd_next_attempt_ms :: int

record pending_publish =
  pq_msg :: p2p_publish_msg
  pq_frame :: "byte list"
  pq_in_use :: bool

datatype peer_phase = PeerStart | PeerRecv | PeerEnded

record peer_thread =
  pt_slot :: nat
  pt_fd :: int
  pt_phase :: peer_phase

record node =
  nd_mesh :: mesh
  nd_done :: nat
  nd_router :: router
  nd_election :: election
  nd_caches :: shard_caches
  nd_cfg :: election_config
  nd_conns :: "p2p_conn list"
  nd_slots :: "send_slot list"
  nd_seen :: "seen_msg list"
  nd_seq :: u16
  nd_seeds :: "static_seed list"
  nd_pending :: "pending_publish list"
  nd_threads :: "peer_thread list"

abbreviation (input) P2P_CONNECT_MS :: u32 where "P2P_CONNECT_MS \<equiv> 3000"
abbreviation (input) P2P_CONNECT_BACKOFF_MAX_MS :: u32 where "P2P_CONNECT_BACKOFF_MAX_MS \<equiv> 30000"
abbreviation (input) INADDR_NONE :: u32 where "INADDR_NONE \<equiv> 0xFFFFFFFF"

definition zero_conn :: p2p_conn where
  "zero_conn = \<lparr>cn_fd = 0, cn_in_use = False, cn_connected = False, cn_node_id = id_zero, cn_role = 0, cn_addr = 0,
     cn_p2p_port = 0, cn_outbound = False\<rparr>"

definition free_send_slot :: send_slot where
  "free_send_slot = \<lparr>sl_fd = -1, sl_connected = False, sl_node_id = id_zero\<rparr>"

definition zero_seed :: static_seed where
  "zero_seed = \<lparr>sd_addr = 0, sd_p2p_port = 0, sd_in_use = False, sd_retry_delay_ms = 0, sd_next_attempt_ms = 0\<rparr>"

subsection \<open>Access\<close>

definition nd_broker :: "node \<Rightarrow> broker" where
  "nd_broker n = ms_broker (nd_mesh n)"

definition on_mesh :: "(mesh \<Rightarrow> mesh) \<Rightarrow> node \<Rightarrow> node" where
  "on_mesh f n = n\<lparr>nd_mesh := f (nd_mesh n)\<rparr>"

definition on_sock :: "int \<Rightarrow> (sock \<Rightarrow> sock) \<Rightarrow> node \<Rightarrow> node" where
  "on_sock fd f = on_mesh (on_broker (upd_sock fd f))"

definition conn_at :: "node \<Rightarrow> nat \<Rightarrow> p2p_conn" where
  "conn_at n i = nd_conns n ! i"

definition upd_conn :: "nat \<Rightarrow> (p2p_conn \<Rightarrow> p2p_conn) \<Rightarrow> node \<Rightarrow> node" where
  "upd_conn i f n = n\<lparr>nd_conns := upd_nth i f (nd_conns n)\<rparr>"

definition uptime :: "node \<Rightarrow> int" where
  "uptime n = bk_now (nd_broker n)"

definition node_env :: "node \<Rightarrow> election_env" where
  "node_env n = election_env_of (nd_broker n) (nd_router n) (uptime n)"

definition is_router :: "node \<Rightarrow> bool" where
  "is_router n \<longleftrightarrow> p2p_election_role (nd_election n) = P2P_ROLE_ROUTER"

subsection \<open>Static seeds\<close>

definition p2p_static_seed_clear :: "static_seed list \<Rightarrow> static_seed list" where
  "p2p_static_seed_clear seeds = map (\<lambda>_. zero_seed) seeds"

definition seed_key :: "static_seed \<Rightarrow> u32 \<times> u16" where
  "seed_key s = (sd_addr s, sd_p2p_port s)"

definition p2p_static_seed_add :: "u32 \<Rightarrow> u16 \<Rightarrow> static_seed list \<Rightarrow> bool \<times> static_seed list" where
  "p2p_static_seed_add addr port seeds =
     (if addr = INADDR_NONE \<or> addr = 0 \<or> port = 0 then (False, seeds)
      else if slot_of sd_in_use seed_key (addr, port) seeds \<noteq> None then (True, seeds)
      else case free_slot sd_in_use seeds of
             None \<Rightarrow> (False, seeds)
           | Some i \<Rightarrow> (True, upd_nth i (\<lambda>s. s\<lparr>sd_addr := addr, sd_p2p_port := port, sd_in_use := True\<rparr>) seeds))"

definition seed_retry_jitter_ms :: "u32 \<Rightarrow> u16 \<Rightarrow> u32" where
  "seed_retry_jitter_ms addr port =
     (let h = xor (xor addr (push_bit 16 (ucast port))) (ucast port);
          h = xor h (drop_bit 16 h);
          h = h * 2246822519;
          h = xor h (drop_bit 13 h)
      in h mod 1000)"

definition next_retry_delay :: "bool \<Rightarrow> u32 \<Rightarrow> u32" where
  "next_retry_delay connected delay =
     (if connected then P2P_CONNECT_MS
      else if delay < P2P_CONNECT_MS then P2P_CONNECT_MS
      else let next = delay * 2 in if next > P2P_CONNECT_BACKOFF_MAX_MS then P2P_CONNECT_BACKOFF_MAX_MS else next)"

definition static_seed_mark_result :: "int \<Rightarrow> u32 \<Rightarrow> u16 \<Rightarrow> bool \<Rightarrow> static_seed list \<Rightarrow> static_seed list" where
  "static_seed_mark_result now addr port connected seeds =
     (case slot_of sd_in_use seed_key (addr, port) seeds of
        None \<Rightarrow> seeds
      | Some i \<Rightarrow> upd_nth i (\<lambda>s. let delay = next_retry_delay connected (sd_retry_delay_ms s)
          in s\<lparr>sd_retry_delay_ms := delay,
               sd_next_attempt_ms := now + uint delay + uint (seed_retry_jitter_ms addr port)\<rparr>) seeds)"

subsection \<open>Sending\<close>

definition send_on_fd :: "int \<Rightarrow> byte \<Rightarrow> byte list \<Rightarrow> node \<Rightarrow> bool \<times> node" where
  "send_on_fd fd type payload n =
     (if fd < 0 then (False, n)
      else let (ok, s) = p2p_send_frame type payload (bk_socks (nd_broker n) fd) in (ok, on_sock fd (\<lambda>_. s) n))"

definition send_frame_to_slot :: "nat \<Rightarrow> byte \<Rightarrow> byte list \<Rightarrow> node \<Rightarrow> bool \<times> node" where
  "send_frame_to_slot slot type payload n = send_on_fd (sl_fd (nd_slots n ! slot)) type payload n"

definition find_send_slot :: "node_id \<Rightarrow> node \<Rightarrow> nat option" where
  "find_send_slot node n = find_idx (\<lambda>s. sl_connected s \<and> sl_node_id s = node) (nd_slots n)"

definition send_to_node :: "byte \<Rightarrow> byte list \<Rightarrow> node_id \<Rightarrow> node \<Rightarrow> bool \<times> node" where
  "send_to_node type payload node n =
     (case find_send_slot node n of None \<Rightarrow> (False, n) | Some slot \<Rightarrow> send_frame_to_slot slot type payload n)"

definition send_prebuilt_publish_to_node_unlocked :: "byte list \<Rightarrow> node_id \<Rightarrow> node \<Rightarrow> bool \<times> node" where
  "send_prebuilt_publish_to_node_unlocked fr node n = send_to_node P2P_PUBLISH fr node n"

text \<open>A loop that sends to each target and counts the sends that succeed.\<close>

fun send_count :: "(node_id \<Rightarrow> node \<Rightarrow> bool \<times> node) \<Rightarrow> node_id list \<Rightarrow> nat \<Rightarrow> node \<Rightarrow> nat \<times> node" where
  "send_count send [] sent n = (sent, n)"
| "send_count send (t # ts) sent n =
     (let (ok, n) = send t n in send_count send ts (if ok then sent + 1 else sent) n)"

text \<open>The result is the number of peers sent to and \<open>*route_count_out\<close>.\<close>

definition p2p_send_publish_from_router_prebuilt ::
  "p2p_publish_msg \<Rightarrow> byte list \<Rightarrow> node_id option \<Rightarrow> node \<Rightarrow> nat \<times> nat \<times> node" where
  "p2p_send_publish_from_router_prebuilt msg fr excl n =
     (let n = n\<lparr>nd_election := p2p_election_record_publish (uptime n) (nd_election n)\<rparr>;
          hops = p2p_router_find_next_hops (pm_topic msg) excl P2P_PEER_MAX (nd_router n)
      in if hops = [] then (0, 0, n)
         else let (sent, n) = send_count (send_prebuilt_publish_to_node_unlocked fr) hops 0 n in (sent, length hops, n))"

definition p2p_send_publish_from_router :: "p2p_publish_msg \<Rightarrow> node_id option \<Rightarrow> node \<Rightarrow> node" where
  "p2p_send_publish_from_router msg excl n =
     (case build_publish_frame msg P2P_PUBLISH_FRAME_MAX of
        None \<Rightarrow> n
      | Some fr \<Rightarrow> snd (snd (p2p_send_publish_from_router_prebuilt msg fr excl n)))"

definition p2p_router_publish :: "p2p_publish_msg \<Rightarrow> node_id option \<Rightarrow> node \<Rightarrow> node" where
  "p2p_router_publish msg excl n = p2p_send_publish_from_router msg excl n"

text \<open>The ids of the connected peers a condition selects.\<close>

definition peer_targets :: "(p2p_conn \<Rightarrow> bool) \<Rightarrow> node_id option \<Rightarrow> node \<Rightarrow> node_id list" where
  "peer_targets sel excl n =
     map cn_node_id (filter (\<lambda>c. cn_connected c \<and> sel c \<and> excl \<noteq> Some (cn_node_id c)) (nd_conns n))"

definition flood_publish_to_connected_peers :: "byte list \<Rightarrow> node_id option \<Rightarrow> node \<Rightarrow> node" where
  "flood_publish_to_connected_peers fr excl n =
     snd (send_count (send_prebuilt_publish_to_node_unlocked fr) (peer_targets (\<lambda>_. True) excl n) 0 n)"

definition send_sub_to_peers_by_role :: "byte list \<Rightarrow> byte \<Rightarrow> node_id option \<Rightarrow> bool \<Rightarrow> node \<Rightarrow> node" where
  "send_sub_to_peers_by_role payload type excl routers_only n =
     snd (send_count (send_to_node type payload)
       (peer_targets (\<lambda>c. routers_only = (cn_role c = role_byte P2P_ROLE_ROUTER)) excl n) 0 n)"

definition p2p_send_sub_to_routers :: "byte list \<Rightarrow> byte \<Rightarrow> node_id option \<Rightarrow> node \<Rightarrow> node" where
  "p2p_send_sub_to_routers payload type excl n = send_sub_to_peers_by_role payload type excl True n"

definition send_sub_to_leaves :: "byte list \<Rightarrow> byte \<Rightarrow> node_id option \<Rightarrow> node \<Rightarrow> node" where
  "send_sub_to_leaves payload type excl n = send_sub_to_peers_by_role payload type excl False n"

subsection \<open>Messages waiting for a route\<close>

definition pending_key :: "pending_publish \<Rightarrow> u16 \<times> node_id" where
  "pending_key p = (pm_seq (pq_msg p), pm_origin_id (pq_msg p))"

definition pending_qos_store :: "p2p_publish_msg \<Rightarrow> byte list \<Rightarrow> node \<Rightarrow> node" where
  "pending_qos_store msg fr n =
     (if fr = [] \<or> pm_qos msg = 0 then n
      else if slot_of pq_in_use pending_key (pm_seq msg, pm_origin_id msg) (nd_pending n) \<noteq> None then n
      else let slot = (case free_slot pq_in_use (nd_pending n) of None \<Rightarrow> 0 | Some i \<Rightarrow> i)
           in n\<lparr>nd_pending := upd_nth slot (\<lambda>_. \<lparr>pq_msg = msg, pq_frame = fr, pq_in_use = True\<rparr>) (nd_pending n)\<rparr>)"

text \<open>One message of the batch, with its index in the table.\<close>

definition flush_one :: "pending_publish \<times> nat \<Rightarrow> node \<Rightarrow> node" where
  "flush_one e n =
     (let (sent, routes, n) = p2p_send_publish_from_router_prebuilt (pq_msg (fst e)) (pq_frame (fst e)) None n
      in if routes > 0 \<and> sent > 0
         then n\<lparr>nd_pending := upd_nth (snd e) (\<lambda>p. p\<lparr>pq_in_use := False\<rparr>) (nd_pending n)\<rparr> else n)"

definition flush_pending_qos_for_filter :: "cstr option \<Rightarrow> node \<Rightarrow> node" where
  "flush_pending_qos_for_filter flt n =
     fold flush_one
       (filter (\<lambda>(p, i). pq_in_use p \<and> (case flt of None \<Rightarrow> True | Some f \<Rightarrow> topic_match_local f (pm_topic (pq_msg p))))
          (zip (nd_pending n) [0..<length (nd_pending n)])) n"

subsection \<open>What the broker calls\<close>

definition local_sub_msg :: "node \<Rightarrow> cstr \<Rightarrow> byte \<Rightarrow> p2p_sub_msg" where
  "local_sub_msg n f qos = \<lparr>sm_owner_id = p2p_election_self_id (nd_election n), sm_filter = f, sm_qos = qos\<rparr>"

text \<open>The message goes to the owner of the filter's shard and to every connected router.\<close>

definition send_local_sub :: "byte \<Rightarrow> cstr \<Rightarrow> p2p_sub_msg \<Rightarrow> node \<Rightarrow> node" where
  "send_local_sub type flt msg n =
     (let (owner, caches) = p2p_shard_owner_for_filter (nd_election n) flt (nd_caches n);
          n = n\<lparr>nd_caches := caches\<rparr>;
          n = (if id_cmp owner (sm_owner_id msg) \<noteq> 0 then snd (send_to_node type (sub_msg_bytes msg) owner n) else n)
      in p2p_send_sub_to_routers (sub_msg_bytes msg) type None n)"

definition p2p_local_subscribe :: "cstr \<Rightarrow> byte \<Rightarrow> node \<Rightarrow> node" where
  "p2p_local_subscribe flt qos n =
     (if qos > 2 then n
      else case copy_cstr_bounded MQTT_TOPIC_MAX flt of
             None \<Rightarrow> n
           | Some f \<Rightarrow> send_local_sub P2P_SUB_NOTIFY flt (local_sub_msg n f qos) n)"

definition p2p_local_unsubscribe :: "cstr \<Rightarrow> node \<Rightarrow> node" where
  "p2p_local_unsubscribe flt n =
     (case copy_cstr_bounded MQTT_TOPIC_MAX flt of
        None \<Rightarrow> n
      | Some f \<Rightarrow> send_local_sub P2P_UNSUB_NOTIFY flt (local_sub_msg n f 0) n)"

definition local_publish_msg :: "node \<Rightarrow> cstr \<Rightarrow> mqtt_publish \<Rightarrow> p2p_publish_msg" where
  "local_publish_msg n t pub = \<lparr>pm_origin_id = p2p_election_self_id (nd_election n), pm_seq = nd_seq n + 1, pm_topic = t,
     pm_payload = pub_payload pub, pm_qos = pub_qos pub, pm_retain = pub_retain pub\<rparr>"

text \<open>The route table, and when that reaches nobody every connected peer; the result is \<open>sent\<close> and \<open>routes\<close>.\<close>

definition publish_by_routes :: "p2p_publish_msg \<Rightarrow> byte list \<Rightarrow> node \<Rightarrow> nat \<times> nat \<times> node" where
  "publish_by_routes msg fr n =
     (let (sent, routes, n) = p2p_send_publish_from_router_prebuilt msg fr None n
      in (sent, routes, if sent = 0 then flood_publish_to_connected_peers fr None n else n))"

definition p2p_publish_from_local :: "mqtt_publish \<Rightarrow> node \<Rightarrow> node" where
  "p2p_publish_from_local pub n =
     (if pub_qos pub > 2 \<or> length (pub_payload pub) > MQTT_PAYLOAD_BYTES then n
      else case copy_cstr_bounded MQTT_TOPIC_MAX (pub_topic pub) of
             None \<Rightarrow> n
           | Some t \<Rightarrow>
               (let msg = local_publish_msg n t pub; n = n\<lparr>nd_seq := pm_seq msg\<rparr>
                in case build_publish_frame msg P2P_PUBLISH_FRAME_MAX of
                     None \<Rightarrow> n
                   | Some fr \<Rightarrow>
                       (let (owner, caches) = p2p_shard_owner_for_topic (nd_election n) (pub_topic pub) (nd_caches n);
                            n = n\<lparr>nd_caches := caches\<rparr>;
                            (sent, routes, n) =
                              (if id_cmp owner (pm_origin_id msg) = 0 then publish_by_routes msg fr n
                               else let (ok, n) = send_prebuilt_publish_to_node_unlocked fr owner n
                                    in if ok then (1, 0, n) else publish_by_routes msg fr n)
                        in if pub_qos pub > 0 \<and> routes > 0 \<and> sent = 0 then pending_qos_store msg fr n else n)))"

definition p2p_event_step :: "p2p_event \<Rightarrow> node \<Rightarrow> node" where
  "p2p_event_step e n =
     (case e of
        P2PSubscribe f q \<Rightarrow> p2p_local_subscribe f q n
      | P2PUnsubscribe f \<Rightarrow> p2p_local_unsubscribe f n
      | P2PPublish pub \<Rightarrow> p2p_publish_from_local pub n)"

definition run_p2p :: "node \<Rightarrow> node" where
  "run_p2p n = (let es = drop (nd_done n) (bk_p2p (nd_broker n))
     in fold p2p_event_step es (n\<lparr>nd_done := length (bk_p2p (nd_broker n))\<rparr>))"

text \<open>An operation of the broker or of the mesh ingress on a node.\<close>

definition node_op :: "(mesh \<Rightarrow> mesh) \<Rightarrow> node \<Rightarrow> node" where
  "node_op f n = run_p2p (on_mesh f n)"

subsection \<open>Announcing subscriptions\<close>

text \<open>The pages of the paged snapshot: sending does not change the table they come from.\<close>

lemma snapshot_cursor: "topic_get_sub_snapshots_from b 8 cur = (page, cur') \<Longrightarrow> cur < length (bk_subs b) \<Longrightarrow> cur < cur'"
  using snapshots_loop_pages [of b 8 cur "[]" page cur'] by (simp add: topic_get_sub_snapshots_from_def)

function sub_pages :: "broker \<Rightarrow> nat \<Rightarrow> sub_snapshot list list" where
  "sub_pages b cur =
     (if cur < length (bk_subs b)
      then let (page, cur') = topic_get_sub_snapshots_from b 8 cur in page # sub_pages b cur' else [])"
  by pat_completeness auto
termination
  by (relation "measure (\<lambda>(b, cur). length (bk_subs b) - cur)") (auto dest: snapshot_cursor [OF sym] intro: diff_less_mono2)

declare sub_pages.simps [simp del]

definition advertise_local_subs_to :: "nat \<Rightarrow> node \<Rightarrow> node" where
  "advertise_local_subs_to slot n =
     (if cn_role (conn_at n slot) \<noteq> role_byte P2P_ROLE_ROUTER then n
      else fold (\<lambda>s n. snd (send_frame_to_slot slot P2P_SUB_NOTIFY
               (sub_msg_bytes (local_sub_msg n (strncpy_str MQTT_TOPIC_MAX (ss_filter s)) (ss_qos s))) n))
             (concat (sub_pages (nd_broker n) 0)) n)"

definition p2p_resync_local_subscriptions :: "node \<Rightarrow> node" where
  "p2p_resync_local_subscriptions n =
     fold (\<lambda>s n. p2p_local_subscribe (ss_filter s) (ss_qos s) n)
       (concat (takeWhile (\<lambda>page. page \<noteq> []) (sub_pages (nd_broker n) 0))) n"

text \<open>The operations of the election that call back.\<close>

definition node_update_peer :: "announce \<Rightarrow> u32 \<Rightarrow> node \<Rightarrow> node" where
  "node_update_peer ann addr n =
     (let (changed, el) = p2p_election_update_peer (nd_cfg n) (node_env n) ann addr (nd_election n);
          n = n\<lparr>nd_election := el\<rparr>
      in if changed then p2p_resync_local_subscriptions n else n)"

definition node_update_self :: "node \<Rightarrow> node" where
  "node_update_self n =
     (let (changed, el) = p2p_election_update_self (nd_cfg n) (node_env n) (nd_election n);
          n = n\<lparr>nd_election := el\<rparr>
      in if changed then p2p_resync_local_subscriptions n else n)"

definition node_build_announce :: "node \<Rightarrow> announce \<times> node" where
  "node_build_announce n =
     (let (ann, el) = p2p_election_build_announce (nd_cfg n) (node_env n) (nd_election n) in (ann, n\<lparr>nd_election := el\<rparr>))"

definition send_hello :: "int \<Rightarrow> node \<Rightarrow> bool \<times> node" where
  "send_hello fd n = (let (ann, n) = node_build_announce n in send_on_fd fd P2P_HELLO (announce_bytes ann) n)"

definition send_current_hello_to_peers :: "node \<Rightarrow> node" where
  "send_current_hello_to_peers n =
     (let (ann, n) = node_build_announce n
      in snd (send_count (send_to_node P2P_HELLO (announce_bytes ann)) (peer_targets (\<lambda>_. True) None n) 0 n))"

end
