(* ===== verification/P2P_Transport.thy ===== *)
theory P2P_Transport
  imports P2P_Peer
begin

text \<open>
  The connections of \<^verbatim>\<open>src/p2p_peer.c\<close> and the threads that serve them: \<open>peer_loop\<close>, which runs once
  per connection, \<open>accept_loop\<close> and \<open>connect_loop\<close>; and discovery, \<^verbatim>\<open>src/p2p_discover.c\<close>. One step is
  one iteration of a loop.

  What the network does is a parameter of the steps: the connection that was accepted, the
  descriptor \<open>dial\<close> gives for an address (\<open>None\<close> when there is no socket or the connection is
  refused), the thread creation that fails, and \<open>stale\<close>, the bytes behind a frame in the receive
  buffer.
\<close>

subsection \<open>Connections\<close>

definition send_slot_update :: "nat \<Rightarrow> node \<Rightarrow> node" where
  "send_slot_update slot n =
     (let c = conn_at n slot
      in n\<lparr>nd_slots := upd_nth slot (\<lambda>_. if cn_connected c
             then \<lparr>sl_fd = cn_fd c, sl_connected = True, sl_node_id = cn_node_id c\<rparr> else free_send_slot) (nd_slots n)\<rparr>)"

definition send_slot_clear :: "nat \<Rightarrow> node \<Rightarrow> node" where
  "send_slot_clear slot n = n\<lparr>nd_slots := upd_nth slot (\<lambda>_. free_send_slot) (nd_slots n)\<rparr>"

definition close_fd :: "int \<Rightarrow> node \<Rightarrow> node" where
  "close_fd fd n = (if fd \<ge> 0 then on_mesh (on_broker (plat_close fd)) n else n)"

definition alloc_conn :: "int \<Rightarrow> u32 \<Rightarrow> u16 \<Rightarrow> bool \<Rightarrow> node \<Rightarrow> nat option \<times> node" where
  "alloc_conn fd addr port outbound n =
     (case free_slot cn_in_use (nd_conns n) of
        None \<Rightarrow> (None, n)
      | Some i \<Rightarrow> (Some i, upd_conn i (\<lambda>_. zero_conn\<lparr>cn_fd := fd, cn_addr := addr, cn_p2p_port := port,
          cn_outbound := outbound, cn_in_use := True\<rparr>) n))"

definition conn_is :: "node_id \<Rightarrow> p2p_conn \<Rightarrow> bool" where
  "conn_is node c \<longleftrightarrow> cn_in_use c \<and> cn_connected c \<and> cn_node_id c = node"

definition conn_exists :: "node_id \<Rightarrow> nat option \<Rightarrow> node \<Rightarrow> bool" where
  "conn_exists node except n \<longleftrightarrow> (\<exists>i \<in> set [0..<length (nd_conns n)]. except \<noteq> Some i \<and> conn_is node (conn_at n i))"

text \<open>Closing the socket of a connection and clearing it with its send slot.\<close>

definition drop_conn :: "nat \<Rightarrow> node \<Rightarrow> node" where
  "drop_conn slot n =
     send_slot_clear slot (upd_conn slot (\<lambda>_. zero_conn\<lparr>cn_fd := -1\<rparr>) (close_fd (cn_fd (conn_at n slot)) n))"

definition close_conn :: "nat \<Rightarrow> node \<Rightarrow> node" where
  "close_conn slot n =
     (let c = conn_at n slot; n = drop_conn slot n
      in if cn_connected c \<and> \<not> conn_exists (cn_node_id c) None n
         then n\<lparr>nd_router := p2p_router_remove_node (cn_node_id c) (nd_router n)\<rparr> else n)"

definition close_duplicate_conns :: "node_id \<Rightarrow> nat \<Rightarrow> node \<Rightarrow> node" where
  "close_duplicate_conns node except n =
     fold (\<lambda>i n. if i \<noteq> except \<and> conn_is node (conn_at n i) then drop_conn i n else n) [0..<length (nd_conns n)] n"

definition addr_conn_exists :: "u32 \<Rightarrow> u16 \<Rightarrow> node \<Rightarrow> bool" where
  "addr_conn_exists addr port n \<longleftrightarrow> (\<exists>c \<in> set (nd_conns n). cn_in_use c \<and> cn_addr c = addr \<and> cn_p2p_port c = port)"

definition connected_peer_count :: "node \<Rightarrow> nat" where
  "connected_peer_count n = used_count cn_connected (nd_conns n)"

record peer_snapshot =
  sp_node_id :: node_id
  sp_addr :: u32
  sp_p2p_port :: u16
  sp_role :: byte
  sp_outbound :: bool

definition p2p_peer_snapshot :: "nat \<Rightarrow> node \<Rightarrow> peer_snapshot list" where
  "p2p_peer_snapshot max_out n =
     take max_out (map (\<lambda>c. \<lparr>sp_node_id = cn_node_id c, sp_addr = cn_addr c, sp_p2p_port = cn_p2p_port c,
       sp_role = cn_role c, sp_outbound = cn_outbound c\<rparr>) (filter (\<lambda>c. cn_in_use c \<and> cn_connected c) (nd_conns n)))"

subsection \<open>Messages from a peer\<close>

definition seen_hash :: "node_id \<Rightarrow> u16 \<Rightarrow> u32" where
  "seen_hash origin seq =
     (let b = (\<lambda>i. ucast (id_bytes origin ! i) :: u32);
          h = b 0 OR push_bit 8 (b 1) OR push_bit 16 (b 2) OR push_bit 24 (b 3);
          h = xor h (ucast seq);
          h = xor h (drop_bit 16 h);
          h = h * 0x45d9f3b
      in xor h (drop_bit 16 h))"

definition seen_before :: "p2p_publish_msg \<Rightarrow> seen_msg list \<Rightarrow> bool \<times> seen_msg list" where
  "seen_before msg seen =
     (let idx = unat (seen_hash (pm_origin_id msg) (pm_seq msg) AND (of_nat (length seen) - 1));
          m = \<lparr>sn_origin_id = pm_origin_id msg, sn_seq = pm_seq msg\<rparr>
      in if seen ! idx = m then (True, seen) else (False, upd_nth idx (\<lambda>_. m) seen))"

definition remote_pub :: "p2p_publish_msg \<Rightarrow> mqtt_publish" where
  "remote_pub msg = zero_publish\<lparr>pub_topic := strncpy_str MQTT_TOPIC_MAX (pm_topic msg), pub_payload := pm_payload msg,
     pub_qos := pm_qos msg, pub_retain := pm_retain msg\<rparr>"

definition peer_handle_publish :: "nat \<Rightarrow> p2p_publish_msg \<Rightarrow> node \<Rightarrow> node" where
  "peer_handle_publish slot msg n =
     (let (dup, seen) = seen_before msg (nd_seen n) in
      if dup then n
      else let n = n\<lparr>nd_seen := seen\<rparr> in
           if length (pm_payload msg) > MQTT_PAYLOAD_BYTES then n
           else let pub = remote_pub msg;
                    n = node_op (\<lambda>m. broker_mesh_ingress_publish_remote (\<lambda>_. pub) (on_broker (topic_publish_remote pub) m)) n
                in if is_router n then p2p_router_publish msg (Some (cn_node_id (conn_at n slot))) n else n)"

definition peer_handle_sub :: "byte list \<Rightarrow> byte list \<Rightarrow> nat \<Rightarrow> node \<Rightarrow> node" where
  "peer_handle_sub payload stale slot n =
     (let sub = sub_msg_at (payload @ stale); from = cn_node_id (conn_at n slot);
          (changed, r) = p2p_router_remote_subscribe (sm_owner_id sub) (sm_filter sub) (sm_qos sub) from (nd_router n);
          n = flush_pending_qos_for_filter (Some (sm_filter sub)) (n\<lparr>nd_router := r\<rparr>)
      in if changed \<and> is_router n
         then send_sub_to_leaves payload P2P_SUB_NOTIFY (Some from) (p2p_send_sub_to_routers payload P2P_SUB_NOTIFY (Some from) n)
         else n)"

definition peer_handle_unsub :: "byte list \<Rightarrow> byte list \<Rightarrow> nat \<Rightarrow> node \<Rightarrow> node" where
  "peer_handle_unsub payload stale slot n =
     (let sub = sub_msg_at (payload @ stale); from = cn_node_id (conn_at n slot);
          (changed, r) = p2p_router_remote_unsubscribe (sm_owner_id sub) (sm_filter sub) (nd_router n);
          n = n\<lparr>nd_router := r\<rparr>
      in if changed \<and> is_router n
         then send_sub_to_leaves payload P2P_UNSUB_NOTIFY (Some from) (p2p_send_sub_to_routers payload P2P_UNSUB_NOTIFY (Some from) n)
         else n)"

definition peer_handle_hello :: "byte list \<Rightarrow> nat \<Rightarrow> node \<Rightarrow> node" where
  "peer_handle_hello payload slot n =
     (let ann = announce_at payload;
          n = send_slot_update slot (upd_conn slot (\<lambda>c. c\<lparr>cn_role := an_role ann\<rparr>) n)
      in node_update_peer ann (cn_addr (conn_at n slot)) n)"

definition peer_handle_frame :: "byte list \<Rightarrow> nat \<Rightarrow> byte \<Rightarrow> byte list \<Rightarrow> node \<Rightarrow> node" where
  "peer_handle_frame stale slot type payload n =
     (if type = P2P_SUB_NOTIFY \<and> length payload = SUB_MSG_BYTES then peer_handle_sub payload stale slot n
      else if type = P2P_UNSUB_NOTIFY \<and> length payload = SUB_MSG_BYTES then peer_handle_unsub payload stale slot n
      else if type = P2P_PUBLISH
      then (case parse_publish_frame payload of None \<Rightarrow> n | Some msg \<Rightarrow> peer_handle_publish slot msg n)
      else if type = P2P_HELLO \<and> length payload = ANNOUNCE_BYTES then peer_handle_hello payload slot n
      else n)"

subsection \<open>The thread of a connection\<close>

definition node_recv :: "int \<Rightarrow> node \<Rightarrow> (byte \<times> byte list) option \<times> node" where
  "node_recv fd n =
     (if fd < 0 then (None, n)
      else let (r, s) = recv_frame P2P_PUBLISH_FRAME_MAX (bk_socks (nd_broker n) fd) in (r, on_sock fd (\<lambda>_. s) n))"

text \<open>The first part of \<open>peer_loop\<close>: whether the connection is kept.\<close>

definition peer_accept_hello :: "announce \<Rightarrow> nat \<Rightarrow> node \<Rightarrow> node" where
  "peer_accept_hello ann slot n =
     (let n = upd_conn slot (\<lambda>c. c\<lparr>cn_node_id := an_node_id ann, cn_role := an_role ann, cn_connected := True\<rparr>) n;
          n = send_slot_update slot n;
          n = node_update_peer ann (cn_addr (conn_at n slot)) n;
          n = advertise_local_subs_to slot n
      in flush_pending_qos_for_filter None n)"

definition peer_hello :: "nat \<Rightarrow> node \<Rightarrow> bool \<times> node" where
  "peer_hello slot n =
     (let (ok, n) = send_hello (cn_fd (conn_at n slot)) n in
      if \<not> ok then (False, close_conn slot n)
      else case node_recv (cn_fd (conn_at n slot)) n of
             (None, n) \<Rightarrow> (False, close_conn slot n)
           | (Some (type, payload), n) \<Rightarrow>
               if type \<noteq> P2P_HELLO \<or> length payload \<noteq> ANNOUNCE_BYTES then (False, close_conn slot n)
               else let ann = announce_at payload in
                    if conn_exists (an_node_id ann) (Some slot) n
                    then let self = p2p_election_self_id (nd_election n);
                             outbound = cn_outbound (conn_at n slot);
                             keep_new = (if id_cmp self (an_node_id ann) < 0 then outbound else \<not> outbound)
                         in if \<not> keep_new then (False, close_conn slot n)
                            else (True, peer_accept_hello ann slot (close_duplicate_conns (an_node_id ann) slot n))
                    else (True, peer_accept_hello ann slot n))"

text \<open>One iteration of the second part, which waits on the descriptor \<open>fd\<close>.\<close>

definition peer_turn :: "byte list \<Rightarrow> nat \<Rightarrow> int \<Rightarrow> node \<Rightarrow> bool \<times> node" where
  "peer_turn stale slot fd n =
     (case node_recv fd n of
        (None, n) \<Rightarrow> (False, close_conn slot n)
      | (Some (type, payload), n) \<Rightarrow> (True, peer_handle_frame stale slot type payload n))"

definition thread_step :: "byte list \<Rightarrow> nat \<Rightarrow> node \<Rightarrow> node" where
  "thread_step stale k n =
     (let t = nd_threads n ! k; slot = pt_slot t;
          (go_on, n) = (case pt_phase t of
             PeerStart \<Rightarrow> peer_hello slot n
           | PeerRecv \<Rightarrow> peer_turn stale slot (pt_fd t) n
           | PeerEnded \<Rightarrow> (False, n))
      in n\<lparr>nd_threads := upd_nth k (\<lambda>_. \<lparr>pt_slot = slot, pt_fd = cn_fd (conn_at n slot),
             pt_phase = (if go_on then PeerRecv else PeerEnded)\<rparr>) (nd_threads n)\<rparr>)"

subsection \<open>Accepting and connecting\<close>

definition spawn_peer :: "bool \<Rightarrow> nat \<Rightarrow> node \<Rightarrow> node" where
  "spawn_peer spawn_ok slot n =
     (if spawn_ok then n\<lparr>nd_threads := nd_threads n @ [\<lparr>pt_slot = slot, pt_fd = cn_fd (conn_at n slot), pt_phase = PeerStart\<rparr>]\<rparr>
      else close_conn slot n)"

definition accept_turn :: "bool \<Rightarrow> int \<Rightarrow> u32 \<Rightarrow> node \<Rightarrow> node" where
  "accept_turn spawn_ok fd addr n =
     (if fd < 0 then n
      else case alloc_conn fd addr 0 False n of
             (None, n) \<Rightarrow> close_fd fd n
           | (Some slot, n) \<Rightarrow> spawn_peer spawn_ok slot n)"

definition connect_to_addr :: "bool \<Rightarrow> (u32 \<Rightarrow> u16 \<Rightarrow> int option) \<Rightarrow> u32 \<Rightarrow> u16 \<Rightarrow> node \<Rightarrow> bool \<times> node" where
  "connect_to_addr spawn_ok dial addr port n =
     (if addr_conn_exists addr port n then (False, n)
      else case dial addr port of
             None \<Rightarrow> (False, n)
           | Some fd \<Rightarrow>
               (case alloc_conn fd addr port True n of
                  (None, n) \<Rightarrow> (False, close_fd fd n)
                | (Some slot, n) \<Rightarrow> (True, spawn_peer spawn_ok slot n)))"

definition connect_to_peer :: "bool \<Rightarrow> (u32 \<Rightarrow> u16 \<Rightarrow> int option) \<Rightarrow> peer_score \<Rightarrow> node \<Rightarrow> bool \<times> node" where
  "connect_to_peer spawn_ok dial p n =
     (if ps_node_id p = p2p_election_self_id (nd_election n) \<or> ps_role p \<noteq> role_byte P2P_ROLE_ROUTER \<or>
         conn_exists (ps_node_id p) None n
      then (False, n) else connect_to_addr spawn_ok dial (ps_addr p) (ps_p2p_port p) n)"

definition peer_affinity :: "node_id \<Rightarrow> node_id \<Rightarrow> u32" where
  "peer_affinity self peer = fnv1a (fnv1a 2166136261 (id_bytes self)) (id_bytes peer)"

text \<open>The arithmetic is that of \<open>int32_t\<close>; a score beyond \<open>2^23\<close> leaves its range, and then wraps around here.\<close>

definition peer_priority :: "node_id \<Rightarrow> peer_score \<Rightarrow> int" where
  "peer_priority self p =
     signed_take_bit 31 (ps_score p * 256 - uint (peer_affinity self (ps_node_id p) AND 0x7ff))"

definition connect_candidates :: "peer_score list \<Rightarrow> node \<Rightarrow> peer_score list" where
  "connect_candidates peers n =
     filter (\<lambda>p. ps_role p = role_byte P2P_ROLE_ROUTER \<and> ps_node_id p \<noteq> p2p_election_self_id (nd_election n) \<and>
       \<not> conn_exists (ps_node_id p) None n) peers"

text \<open>The selection sort: the inner loop finds the best of the rest, which is exchanged with the first.\<close>

definition better :: "int \<times> peer_score \<Rightarrow> int \<times> peer_score \<Rightarrow> bool" where
  "better a b \<longleftrightarrow> fst a > fst b \<or> (fst a = fst b \<and> id_cmp (ps_node_id (snd a)) (ps_node_id (snd b)) < 0)"

fun best_index :: "('a \<Rightarrow> 'a \<Rightarrow> bool) \<Rightarrow> 'a list \<Rightarrow> nat \<Rightarrow> nat list \<Rightarrow> nat" where
  "best_index beats xs best [] = best"
| "best_index beats xs best (j # js) = best_index beats xs (if beats (xs ! j) (xs ! best) then j else best) js"

function selection_sort :: "('a \<Rightarrow> 'a \<Rightarrow> bool) \<Rightarrow> nat \<Rightarrow> 'a list \<Rightarrow> 'a list" where
  "selection_sort beats i xs =
     (if i < length xs
      then let best = best_index beats xs i [i + 1..<length xs]
           in selection_sort beats (i + 1) (if best \<noteq> i then xs[i := xs ! best, best := xs ! i] else xs)
      else xs)"
  by pat_completeness auto
termination
  by (relation "measure (\<lambda>(beats, i, xs). length xs - i)") auto

declare selection_sort.simps [simp del]

fun connect_best :: "bool \<Rightarrow> (u32 \<Rightarrow> u16 \<Rightarrow> int option) \<Rightarrow> int \<Rightarrow> peer_score list \<Rightarrow> int \<Rightarrow> node \<Rightarrow> int \<times> node" where
  "connect_best spawn_ok dial budget [] connected n = (connected, n)"
| "connect_best spawn_ok dial budget (p # ps) connected n =
     (if connected < budget
      then let (ok, n) = connect_to_peer spawn_ok dial p n
           in connect_best spawn_ok dial budget ps (if ok then connected + 1 else connected) n
      else (connected, n))"

text \<open>The loop over the copy of the seeds, with the time it was made.\<close>

fun connect_seeds ::
  "bool \<Rightarrow> (u32 \<Rightarrow> u16 \<Rightarrow> int option) \<Rightarrow> int \<Rightarrow> int \<Rightarrow> static_seed list \<Rightarrow> int \<Rightarrow> node \<Rightarrow> int \<times> node" where
  "connect_seeds spawn_ok dial now budget [] connected n = (connected, n)"
| "connect_seeds spawn_ok dial now budget (s # ss) connected n =
     (let mark = (\<lambda>ok n. n\<lparr>nd_seeds := static_seed_mark_result (uptime n) (sd_addr s) (sd_p2p_port s) ok (nd_seeds n)\<rparr>) in
      if addr_conn_exists (sd_addr s) (sd_p2p_port s) n then connect_seeds spawn_ok dial now budget ss connected (mark True n)
      else if sd_next_attempt_ms s > now then connect_seeds spawn_ok dial now budget ss connected n
      else let (ok, n) = connect_to_addr spawn_ok dial (sd_addr s) (sd_p2p_port s) n;
               n = mark ok n;
               connected = (if ok then connected + 1 else connected)
           in if \<not> ec_static_seeds_only (nd_cfg n) \<and> budget > 0 \<and> connected \<ge> budget then (connected, n)
              else connect_seeds spawn_ok dial now budget ss connected n)"

definition connect_turn :: "bool \<Rightarrow> (u32 \<Rightarrow> u16 \<Rightarrow> int option) \<Rightarrow> node \<Rightarrow> node" where
  "connect_turn spawn_ok dial n =
     (let peers = p2p_election_snapshot (P2P_PEER_MAX + 1) (nd_election n);
          self = p2p_election_self_id (nd_election n);
          budget = p2p_election_peer_budget (nd_cfg n) (node_env n) (nd_election n) (int (length peers));
          connected = (if budget > 0 then int (connected_peer_count n) else 0);
          (connected, n) =
            (if \<not> ec_static_seeds_only (nd_cfg n) \<and> connected < budget
             then let cands = map (\<lambda>p. (peer_priority self p, p)) (connect_candidates peers n)
                  in connect_best spawn_ok dial budget (map snd (selection_sort better 0 cands)) connected n
             else (connected, n));
          (connected, n) = connect_seeds spawn_ok dial (uptime n) budget (filter sd_in_use (nd_seeds n)) connected n
      in send_current_hello_to_peers n)"

subsection \<open>Start and discovery\<close>

text \<open>\<open>make_node_id\<close> of the build without a hardware id, from the start value of \<open>seed\<close>.\<close>

definition make_node_id :: "u32 \<Rightarrow> node_id" where
  "make_node_id seed = NodeId (map (\<lambda>k. ucast (drop_bit 16 (((\<lambda>s. s * 1103515245 + 12345) ^^ Suc k) seed))) [0..<P2P_NODE_ID_LEN])"

text \<open>\<open>make_node_id\<close> of the build with one: the loop over the bytes of the device id.\<close>

definition hw_node_id :: "byte list \<Rightarrow> node_id" where
  "hw_node_id device =
     NodeId (snd (fold (\<lambda>i (h, out).
        let h = fnv_step (fnv_step h (device ! (i mod length device))) (of_nat i) in (h, out @ [ucast (drop_bit 24 h)]))
      [0..<P2P_NODE_ID_LEN] (2166136261, [])))"

definition p2p_peer_start :: "node \<Rightarrow> node" where
  "p2p_peer_start n = n\<lparr>nd_conns := map (\<lambda>_. zero_conn\<lparr>cn_fd := -1\<rparr>) (nd_conns n),
     nd_slots := map (\<lambda>_. free_send_slot) (nd_slots n)\<rparr>"

text \<open>\<open>udp_ok\<close>: the discovery socket could be opened and bound; a node with only static seeds needs none.\<close>

definition p2p_start :: "bool \<Rightarrow> node_id \<Rightarrow> node \<Rightarrow> node" where
  "p2p_start udp_ok node n =
     (if \<not> ec_static_seeds_only (nd_cfg n) \<and> \<not> udp_ok then n
      else p2p_peer_start (n\<lparr>nd_election := p2p_election_init (nd_cfg n) (length (el_peers (nd_election n)) - 1) (node_env n) node\<rparr>))"

text \<open>One iteration of the announcing loop, with the datagram it broadcasts, and of the listening loop.\<close>

definition p2p_announce_turn :: "node \<Rightarrow> byte list \<times> node" where
  "p2p_announce_turn n = (let (ann, n) = node_build_announce n in (announce_bytes ann, n))"

definition p2p_listen_turn :: "byte list \<Rightarrow> u32 \<Rightarrow> node \<Rightarrow> node" where
  "p2p_listen_turn datagram src n =
     (if length datagram = ANNOUNCE_BYTES then node_update_peer (announce_at datagram) src n else n)"

text \<open>The static storage of a node, with a broker.\<close>

definition static_node :: "mesh \<Rightarrow> election_config \<Rightarrow> nat \<Rightarrow> nat \<Rightarrow> node" where
  "static_node m cfg nodes subs = \<lparr>nd_mesh = m, nd_done = length (bk_p2p (ms_broker m)), nd_router = static_router nodes subs,
     nd_election = \<lparr>el_self_id = id_zero, el_peers = replicate (P2P_PEER_MAX + 1) zero_peer, el_role = P2P_ROLE_LEAF,
       el_topology_sig = 0, el_publish_count = 0, el_publish_rate = 0, el_window_ms = 0\<rparr>,
     nd_caches = static_caches 64, nd_cfg = cfg, nd_conns = replicate P2P_PEER_MAX zero_conn,
     nd_slots = replicate P2P_PEER_MAX \<lparr>sl_fd = 0, sl_connected = False, sl_node_id = id_zero\<rparr>,
     nd_seen = replicate 128 \<lparr>sn_origin_id = id_zero, sn_seq = 0\<rparr>, nd_seq = 0, nd_seeds = replicate P2P_PEER_MAX zero_seed,
     nd_pending = replicate 8 \<lparr>pq_msg = \<lparr>pm_origin_id = id_zero, pm_seq = 0, pm_topic = [], pm_payload = [], pm_qos = 0,
       pm_retain = 0\<rparr>, pq_frame = [], pq_in_use = False\<rparr>,
     nd_threads = []\<rparr>"

text \<open>
  The steps of a node: those of the broker and its mesh ingress, and those of the network threads.
  A thread waits until there is something to read or the connection fails, so it moves at any time.
\<close>

inductive node_step :: "node \<Rightarrow> node \<Rightarrow> bool" where
  step_broker: "node_step n (node_op (broker_run_turn stack spawn_ok poll) n)"
| step_client: "c < length (bk_clients (nd_broker n)) \<Longrightarrow> node_step n (node_op (on_broker (client_thread_step stack_con stack c)) n)"
| step_clock: "uptime n \<le> t \<Longrightarrow> node_step n (on_mesh (on_broker (\<lambda>b. b\<lparr>bk_now := t\<rparr>)) n)"
| step_accept: "0 \<le> fd \<Longrightarrow> node_step n (accept_turn spawn_ok fd addr n)"
| step_thread: "k < length (nd_threads n) \<Longrightarrow> node_step n (thread_step stale k n)"
| step_connect: "(\<forall>a p fd. dial a p = Some fd \<longrightarrow> 0 \<le> fd) \<Longrightarrow> node_step n (connect_turn spawn_ok dial n)"
| step_discover: "node_step n (p2p_listen_turn datagram src n)"
| step_announce: "node_step n (snd (p2p_announce_turn n))"

inductive node_run :: "node \<Rightarrow> node \<Rightarrow> bool" where
  run_start: "node_run n n"
| run_step: "node_run n n' \<Longrightarrow> node_step n' n'' \<Longrightarrow> node_run n n''"

inductive_cases node_stepE: "node_step n n'"

end
