(* ===== verification/P2P_Transport_Correct.thy ===== *)
theory P2P_Transport_Correct
  imports P2P_Transport P2P_Shard_Correct Mesh_Properties
begin

text \<open>
  The connection table: what sending leaves alone, and the invariant of the table of connections and
  its copy for the senders.
\<close>

subsection \<open>What sending leaves alone\<close>

text \<open>
  \<open>sends\<close>: what may change are the sockets, the election, the shard caches, the counter of local
  messages, the waiting messages and the number of calls performed.
\<close>

definition sockless :: "mesh \<Rightarrow> mesh" where
  "sockless m = m\<lparr>ms_broker := (ms_broker m)\<lparr>bk_socks := \<lambda>_. quiet_sock\<rparr>\<rparr>"

lemma socklessD:
  assumes "sockless m' = sockless m"
  shows "ms_clients m' = ms_clients m" "bk_subs (ms_broker m') = bk_subs (ms_broker m)"
    "bk_p2p (ms_broker m') = bk_p2p (ms_broker m)" "bk_now (ms_broker m') = bk_now (ms_broker m)"
    "bk_clients (ms_broker m') = bk_clients (ms_broker m)"
  using arg_cong [OF assms, of ms_clients] arg_cong [OF assms, of "\<lambda>m. bk_subs (ms_broker m)"]
    arg_cong [OF assms, of "\<lambda>m. bk_p2p (ms_broker m)"] arg_cong [OF assms, of "\<lambda>m. bk_now (ms_broker m)"]
    arg_cong [OF assms, of "\<lambda>m. bk_clients (ms_broker m)"]
  by (simp_all add: sockless_def)

lemma sockless_upd [simp]: "sockless (m\<lparr>ms_broker := (ms_broker m)\<lparr>bk_socks := s\<rparr>\<rparr>) = sockless m"
  by (simp add: sockless_def)

definition sends :: "node \<Rightarrow> node \<Rightarrow> bool" where
  "sends n n' \<longleftrightarrow> nd_conns n' = nd_conns n \<and> nd_slots n' = nd_slots n \<and> nd_router n' = nd_router n \<and>
     nd_seen n' = nd_seen n \<and> nd_seeds n' = nd_seeds n \<and> nd_threads n' = nd_threads n \<and> nd_cfg n' = nd_cfg n \<and>
     el_self_id (nd_election n') = el_self_id (nd_election n) \<and> nd_done n' = nd_done n \<and>
     sockless (nd_mesh n') = sockless (nd_mesh n)"

named_theorems sends_intros \<open>operations that only send\<close>

lemma sends_refl [simp, sends_intros]: "sends n n"
  by (simp add: sends_def nd_broker_def)

lemma sends_trans: "sends n n' \<Longrightarrow> sends n' n'' \<Longrightarrow> sends n n''"
  by (simp add: sends_def)

lemma sendsD:
  assumes "sends n n'"
  shows "nd_conns n' = nd_conns n" "nd_slots n' = nd_slots n" "nd_router n' = nd_router n" "nd_seeds n' = nd_seeds n"
    "nd_threads n' = nd_threads n" "nd_seen n' = nd_seen n" "conn_at n' i = conn_at n i"
    "nd_done n' = nd_done n" "el_self_id (nd_election n') = el_self_id (nd_election n)" "nd_cfg n' = nd_cfg n"
    "sockless (nd_mesh n') = sockless (nd_mesh n)"
  using assms by (simp_all add: sends_def conn_at_def)

lemma sends_fold: "(\<And>x n. sends n (f x n)) \<Longrightarrow> sends n (fold f xs n)"
  by (induction xs arbitrary: n) (auto intro: sends_trans)

lemma sends_on_fd [sends_intros]: "sends n (snd (send_on_fd fd type payload n))"
  by (simp add: send_on_fd_def on_sock_def on_mesh_def on_broker_def upd_sock_def sends_def nd_broker_def split: prod.split)

lemma sends_to_slot [sends_intros]: "sends n (snd (send_frame_to_slot slot type payload n))"
  by (simp add: send_frame_to_slot_def sends_on_fd)

lemma sends_to_node [sends_intros]: "sends n (snd (send_to_node type payload node n))"
  by (simp add: send_to_node_def sends_to_slot split: option.split)

lemma sends_prebuilt [sends_intros]: "sends n (snd (send_prebuilt_publish_to_node_unlocked fr node n))"
  by (simp add: send_prebuilt_publish_to_node_unlocked_def sends_to_node)

lemma sends_count: "(\<And>t n. sends n (snd (send t n))) \<Longrightarrow> sends n (snd (send_count send ts k n))"
proof (induction ts arbitrary: n k)
  case (Cons t ts)
  then show ?case using sends_trans [OF Cons.prems [of n t] Cons.IH [OF Cons.prems]] by (simp add: case_prod_beta)
qed simp

lemma el_upd [simp]: "el_self_id (p2p_election_record_publish now st) = el_self_id st"
  by (simp add: p2p_election_record_publish_def flush_publish_window_locked_def Let_def)

lemma self_recompute [simp]: "el_self_id (snd (recompute_role_locked cfg env st)) = el_self_id st"
  by (rule recompute_peers)

lemma self_update_peer [simp]: "el_self_id (snd (p2p_election_update_peer cfg env ann addr st)) = el_self_id st"
  by (simp add: p2p_election_update_peer_def Let_def split: option.split)

lemma sends_election: "el_self_id el = el_self_id (nd_election n) \<Longrightarrow> sends n (n\<lparr>nd_election := el\<rparr>)"
  by (simp add: sends_def nd_broker_def)

lemma sends_caches: "sends n (n\<lparr>nd_caches := c\<rparr>)"
  by (simp add: sends_def nd_broker_def)

lemma sends_pending: "sends n (n\<lparr>nd_pending := p\<rparr>)"
  by (simp add: sends_def nd_broker_def)

lemma sends_seq: "sends n (n\<lparr>nd_seq := q\<rparr>)"
  by (simp add: sends_def nd_broker_def)

lemma sends_from_router [sends_intros]: "sends n (snd (snd (p2p_send_publish_from_router_prebuilt msg fr excl n)))"
proof -
  let ?n = "n\<lparr>nd_election := p2p_election_record_publish (uptime n) (nd_election n)\<rparr>"
  have e: "sends n ?n" by (rule sends_election) simp
  have "sends ?n (snd (send_count (send_prebuilt_publish_to_node_unlocked fr) hops 0 ?n))" for hops
    by (rule sends_count) (rule sends_prebuilt)
  from sends_trans [OF e this] show ?thesis
    using e by (simp add: p2p_send_publish_from_router_prebuilt_def Let_def case_prod_beta)
qed

lemma sends_router_publish [sends_intros]: "sends n (p2p_router_publish msg excl n)"
  using sends_from_router by (simp add: p2p_router_publish_def p2p_send_publish_from_router_def split: option.split)

lemma sends_flood [sends_intros]: "sends n (flood_publish_to_connected_peers fr excl n)"
  unfolding flood_publish_to_connected_peers_def by (rule sends_count) (rule sends_prebuilt)

lemma sends_by_role [sends_intros]: "sends n (send_sub_to_peers_by_role payload type excl r n)"
  unfolding send_sub_to_peers_by_role_def by (rule sends_count) (rule sends_to_node)

lemma sends_to_routers [sends_intros]: "sends n (p2p_send_sub_to_routers payload type excl n)"
  unfolding p2p_send_sub_to_routers_def by (rule sends_by_role)

lemma sends_to_leaves [sends_intros]: "sends n (send_sub_to_leaves payload type excl n)"
  unfolding send_sub_to_leaves_def by (rule sends_by_role)

lemma sends_flush_one: "sends n (flush_one e n)"
  using sends_from_router [of n "pq_msg (fst e)" "pq_frame (fst e)" None] sends_trans [OF _ sends_pending]
  by (simp add: flush_one_def case_prod_beta)

lemma sends_flush [sends_intros]: "sends n (flush_pending_qos_for_filter f n)"
  unfolding flush_pending_qos_for_filter_def by (rule sends_fold) (rule sends_flush_one)

lemma sends_store [sends_intros]: "sends n (pending_qos_store msg fr n)"
  using sends_pending by (simp add: pending_qos_store_def Let_def)

lemma sends_local_sub: "sends n (send_local_sub type f msg n)"
proof -
  let ?n = "\<lambda>c. n\<lparr>nd_caches := c\<rparr>"
  have "sends n (snd (send_to_node type p owner (?n c)))" for p owner c
    by (rule sends_trans [OF sends_caches sends_to_node])
  then have "sends n (p2p_send_sub_to_routers p type None (snd (send_to_node type p owner (?n c))))" for p owner c
    by (rule sends_trans) (rule sends_to_routers)
  moreover have "sends n (p2p_send_sub_to_routers p type None (?n c))" for p c
    by (rule sends_trans [OF sends_caches sends_to_routers])
  ultimately show ?thesis by (simp add: send_local_sub_def Let_def split: prod.split)
qed

lemma sends_local_subscribe [sends_intros]: "sends n (p2p_local_subscribe f q n)"
  by (simp add: p2p_local_subscribe_def sends_local_sub split: option.split)

lemma sends_local_unsubscribe [sends_intros]: "sends n (p2p_local_unsubscribe f n)"
  by (simp add: p2p_local_unsubscribe_def sends_local_sub split: option.split)

lemma sends_by_routes [sends_intros]: "sends n (snd (snd (publish_by_routes msg fr n)))"
  using sends_from_router [of n msg fr None] sends_trans [OF sends_from_router [of n msg fr None] sends_flood]
  by (simp add: publish_by_routes_def case_prod_beta)

lemma sends_from_local [sends_intros]: "sends n (p2p_publish_from_local pub n)"
proof -
  have s: "sends n (n\<lparr>nd_seq := q, nd_caches := c\<rparr>)" for q c
    using sends_trans [OF sends_seq sends_caches] .
  have r: "sends n (snd (snd (publish_by_routes msg fr (n\<lparr>nd_seq := q, nd_caches := c\<rparr>))))" for q c msg fr
    by (rule sends_trans [OF s sends_by_routes])
  have o1: "sends n (snd (send_prebuilt_publish_to_node_unlocked fr owner (n\<lparr>nd_seq := q, nd_caches := c\<rparr>)))" for q c owner fr
    by (rule sends_trans [OF s sends_prebuilt])
  have o2: "sends n (snd (snd (publish_by_routes msg fr
      (snd (send_prebuilt_publish_to_node_unlocked fr owner (n\<lparr>nd_seq := q, nd_caches := c\<rparr>))))))" for q c owner msg fr
    by (rule sends_trans [OF o1 sends_by_routes])
  note all = r o1 o2 sends_seq sends_trans [OF r sends_store] sends_trans [OF o1 sends_store] sends_trans [OF o2 sends_store]
  show ?thesis
    unfolding p2p_publish_from_local_def Let_def case_prod_beta by (simp add: all split: option.split)
qed

lemma sends_event: "sends n (p2p_event_step e n)"
  by (cases e) (simp_all add: p2p_event_step_def sends_intros)

lemma sends_advertise [sends_intros]: "sends n (advertise_local_subs_to slot n)"
  unfolding advertise_local_subs_to_def by (simp add: sends_fold sends_to_slot)

lemma sends_resync [sends_intros]: "sends n (p2p_resync_local_subscriptions n)"
  unfolding p2p_resync_local_subscriptions_def by (rule sends_fold) (rule sends_local_subscribe)

lemma sends_update_peer [sends_intros]: "sends n (node_update_peer ann addr n)"
proof -
  have "sends n (n\<lparr>nd_election := snd (p2p_election_update_peer cfg env ann addr (nd_election n))\<rparr>)" for cfg env
    by (rule sends_election) simp
  from this sends_trans [OF this sends_resync] show ?thesis by (simp add: node_update_peer_def Let_def case_prod_beta)
qed

lemma sends_announce [sends_intros]: "sends n (snd (node_build_announce n))"
  using sends_election [of "snd (recompute_role_locked (nd_cfg n) (node_env n) (nd_election n))" n]
  by (simp add: node_build_announce_def p2p_election_build_announce_def Let_def)

lemma sends_hello [sends_intros]: "sends n (snd (send_hello fd n))"
  using sends_trans [OF sends_announce sends_on_fd] by (simp add: send_hello_def case_prod_beta)

lemma sends_current_hello [sends_intros]: "sends n (send_current_hello_to_peers n)"
proof -
  have "sends n' (snd (send_count (send_to_node P2P_HELLO p) ts 0 n'))" for p ts n'
    by (rule sends_count) (rule sends_to_node)
  from sends_trans [OF sends_announce this] show ?thesis by (simp add: send_current_hello_to_peers_def case_prod_beta)
qed

lemma sends_recv: "node_recv fd n = (r, n') \<Longrightarrow> sends n n'"
  by (auto simp: node_recv_def on_sock_def on_mesh_def on_broker_def upd_sock_def sends_def nd_broker_def split: prod.splits if_splits)

subsection \<open>The connection table\<close>

definition same_conns :: "node \<Rightarrow> node \<Rightarrow> bool" where
  "same_conns n n' \<longleftrightarrow> nd_conns n' = nd_conns n \<and> nd_slots n' = nd_slots n \<and> nd_threads n' = nd_threads n"

lemma same_conns_refl [simp]: "same_conns n n"
  by (simp add: same_conns_def)

lemma same_conns_trans: "same_conns n n' \<Longrightarrow> same_conns n' n'' \<Longrightarrow> same_conns n n''"
  by (simp add: same_conns_def)

lemma sends_same: "sends n n' \<Longrightarrow> same_conns n n'"
  by (simp add: sends_def same_conns_def)

lemma same_sends: "same_conns n n' \<Longrightarrow> sends n' n'' \<Longrightarrow> same_conns n n''"
  by (simp add: sends_def same_conns_def)

lemma same_fold: "(\<And>x n. same_conns n (f x n)) \<Longrightarrow> same_conns n (fold f xs n)"
  by (induction xs arbitrary: n) (auto intro: same_conns_trans)

lemma same_on_mesh [simp]: "same_conns n (on_mesh f n)"
  by (simp add: same_conns_def on_mesh_def)

lemma same_run_p2p: "same_conns n (run_p2p n)"
proof -
  have "same_conns n (n\<lparr>nd_done := k\<rparr>)" for k by (simp add: same_conns_def)
  moreover have "same_conns n' (fold p2p_event_step es n')" for es n'
    by (rule same_fold) (rule sends_same [OF sends_event])
  ultimately show ?thesis unfolding run_p2p_def Let_def using same_conns_trans by blast
qed

lemma same_node_op [simp]: "same_conns n (node_op f n)"
  unfolding node_op_def by (rule same_conns_trans [OF same_on_mesh same_run_p2p])

definition empty_conn :: p2p_conn where
  "empty_conn = zero_conn\<lparr>cn_fd := -1\<rparr>"

definition slot_for :: "p2p_conn \<Rightarrow> send_slot" where
  "slot_for c = (if cn_connected c then \<lparr>sl_fd = cn_fd c, sl_connected = True, sl_node_id = cn_node_id c\<rparr> else free_send_slot)"

definition peer_conn_ok :: "p2p_conn \<Rightarrow> bool" where
  "peer_conn_ok c \<longleftrightarrow> (cn_in_use c \<longleftrightarrow> 0 \<le> cn_fd c) \<and> (cn_connected c \<longrightarrow> cn_in_use c)"

definition conns_ok :: "node \<Rightarrow> bool" where
  "conns_ok n \<longleftrightarrow> nd_slots n = map slot_for (nd_conns n) \<and> keys_unique cn_connected cn_node_id (nd_conns n) \<and>
     (\<forall>c \<in> set (nd_conns n). peer_conn_ok c) \<and>
     (\<forall>t \<in> set (nd_threads n). pt_slot t < length (nd_conns n))"

interpretation cns: slot_table cn_connected cn_node_id "\<lambda>_. empty_conn"
  by unfold_locales (simp add: empty_conn_def zero_conn_def)

lemma empty_conn_facts [simp]: "slot_for empty_conn = free_send_slot" "\<not> cn_in_use empty_conn" "\<not> cn_connected empty_conn" "cn_fd empty_conn = -1" "peer_conn_ok empty_conn"
  by (simp_all add: empty_conn_def zero_conn_def slot_for_def peer_conn_ok_def)

lemma conns_ok_same: "same_conns n n' \<Longrightarrow> conns_ok n \<Longrightarrow> conns_ok n'"
  by (simp add: same_conns_def conns_ok_def)

lemma conns_ok_sends: "sends n n' \<Longrightarrow> conns_ok n \<Longrightarrow> conns_ok n'"
  using conns_ok_same [OF sends_same] .

lemma map_upd_nth: "map f (upd_nth i g xs) = upd_nth i (\<lambda>_. f (g (xs ! i))) (map f xs)"
  by (simp add: upd_nth_def map_update)

lemma drop_conn_fields:
  "nd_conns (drop_conn i n) = upd_nth i (\<lambda>_. empty_conn) (nd_conns n)"
  "nd_slots (drop_conn i n) = upd_nth i (\<lambda>_. free_send_slot) (nd_slots n)"
  "nd_threads (drop_conn i n) = nd_threads n" "nd_router (drop_conn i n) = nd_router n"
  by (simp_all add: drop_conn_def send_slot_clear_def upd_conn_def close_fd_def on_mesh_def empty_conn_def)

lemma conns_ok_drop: "conns_ok n \<Longrightarrow> conns_ok (drop_conn i n)"
  using cns.unique_release [of "nd_conns n" i]
  by (auto simp: conns_ok_def drop_conn_fields map_upd_nth dest: set_upd_nth)

lemma close_conn_fields:
  "nd_conns (close_conn i n) = upd_nth i (\<lambda>_. empty_conn) (nd_conns n)" "nd_threads (close_conn i n) = nd_threads n"
  by (simp_all add: close_conn_def Let_def drop_conn_fields)

lemma conns_ok_close: "conns_ok n \<Longrightarrow> conns_ok (close_conn i n)"
  using conns_ok_drop [of n i] by (simp add: close_conn_def Let_def conns_ok_def)

text \<open>Without a second connection to a peer, the one in hand may take its id.\<close>

lemma drop_duplicates:
  fixes node :: node_id and except :: nat
  defines "step \<equiv> \<lambda>i n. if i \<noteq> except \<and> conn_is node (conn_at n i) then drop_conn i n else n"
  assumes "conns_ok n"
  shows "conns_ok (fold step js n)" and "nd_threads (fold step js n) = nd_threads n"
    and "length (nd_conns (fold step js n)) = length (nd_conns n)"
    and "j < length (nd_conns n) \<Longrightarrow> conn_at (fold step js n) j =
      (if j \<in> set js \<and> j \<noteq> except \<and> conn_is node (conn_at n j) then empty_conn else conn_at n j)"
proof -
  have "conns_ok (fold step js n) \<and> nd_threads (fold step js n) = nd_threads n \<and>
    length (nd_conns (fold step js n)) = length (nd_conns n) \<and> (\<forall>j < length (nd_conns n). conn_at (fold step js n) j =
      (if j \<in> set js \<and> j \<noteq> except \<and> conn_is node (conn_at n j) then empty_conn else conn_at n j))"
    using assms(2)
  proof (induction js arbitrary: n)
    case (Cons i js)
    have ok: "conns_ok (step i n)" using Cons.prems conns_ok_drop by (simp add: step_def)
    have st: "nd_threads (step i n) = nd_threads n" "length (nd_conns (step i n)) = length (nd_conns n)"
      by (simp_all add: step_def drop_conn_fields)
    have at: "conn_at (step i n) j = (if j = i \<and> j \<noteq> except \<and> conn_is node (conn_at n j) then empty_conn else conn_at n j)"
      if "j < length (nd_conns n)" for j
      using that by (auto simp: step_def conn_at_def drop_conn_fields nth_upd_nth)
    have "\<not> conn_is node empty_conn" by (simp add: conn_is_def)
    then show ?case using Cons.IH [OF ok] st at by auto
  qed simp
  then show "conns_ok (fold step js n)" "nd_threads (fold step js n) = nd_threads n"
    "length (nd_conns (fold step js n)) = length (nd_conns n)"
    "j < length (nd_conns n) \<Longrightarrow> conn_at (fold step js n) j =
      (if j \<in> set js \<and> j \<noteq> except \<and> conn_is node (conn_at n j) then empty_conn else conn_at n j)" by blast+
qed

lemma close_duplicates:
  fixes node :: node_id and except :: nat
  assumes "conns_ok n"
  defines "n' \<equiv> close_duplicate_conns node except n"
  shows "conns_ok n'" and "length (nd_conns n') = length (nd_conns n)" and "nd_threads n' = nd_threads n"
    and "except < length (nd_conns n) \<Longrightarrow> conn_at n' except = conn_at n except" and "\<not> conn_exists node (Some except) n'"
proof -
  note d = drop_duplicates [OF assms(1), where node = node and except = except and js = "[0..<length (nd_conns n)]"]
  show "conns_ok n'" "length (nd_conns n') = length (nd_conns n)" "nd_threads n' = nd_threads n"
    "except < length (nd_conns n) \<Longrightarrow> conn_at n' except = conn_at n except"
    using d by (simp_all add: n'_def close_duplicate_conns_def)
  have "\<not> conn_is node (conn_at n' j)" if "j < length (nd_conns n)" "j \<noteq> except" for j
    using d(4) [OF that(1)] that by (simp add: n'_def close_duplicate_conns_def conn_is_def)
  then show "\<not> conn_exists node (Some except) n'"
    using d(3) by (auto simp: conn_exists_def n'_def close_duplicate_conns_def)
qed

lemma conns_ok_alloc:
  assumes "conns_ok n" and "0 \<le> fd" and "alloc_conn fd addr port outbound n = (r, n')"
  shows "conns_ok n'" and "nd_threads n' = nd_threads n" and "length (nd_conns n') = length (nd_conns n)"
    and "r = Some i \<Longrightarrow> i < length (nd_conns n) \<and> cn_fd (conn_at n' i) = fd"
proof -
  let ?c = "zero_conn\<lparr>cn_fd := fd, cn_addr := addr, cn_p2p_port := port, cn_outbound := outbound, cn_in_use := True\<rparr>"
  have c: "peer_conn_ok ?c" "\<not> cn_connected ?c" "cn_fd ?c = fd" "slot_for ?c = free_send_slot"
    using assms(2) by (simp_all add: zero_conn_def slot_for_def peer_conn_ok_def)
  have "conns_ok n' \<and> nd_threads n' = nd_threads n \<and> length (nd_conns n') = length (nd_conns n) \<and>
    (\<forall>i. r = Some i \<longrightarrow> i < length (nd_conns n) \<and> cn_fd (conn_at n' i) = fd)"
  proof (cases "free_slot cn_in_use (nd_conns n)")
    case (Some j)
    then have j: "j < length (nd_conns n)" "\<not> cn_in_use (nd_conns n ! j)"
      by (auto simp: free_slot_def dest: find_idx_SomeD)
    then have nc: "\<not> cn_connected (nd_conns n ! j)" "nd_slots n ! j = free_send_slot"
      using assms(1) nth_mem [OF j(1)] by (auto simp: conns_ok_def slot_for_def peer_conn_ok_def)
    then have "nd_slots n = upd_nth j (\<lambda>_. free_send_slot) (nd_slots n)" by (metis list_update_id upd_nth_def)
    moreover have "keys_unique cn_connected cn_node_id (upd_nth j (\<lambda>_. ?c) (nd_conns n))"
      using assms(1) c(2) nc(1) by (auto simp: conns_ok_def keys_unique_def nth_upd_nth split: if_splits)
    ultimately have "conns_ok n'"
      using assms Some c by (auto simp: alloc_conn_def upd_conn_def conns_ok_def map_upd_nth dest!: set_upd_nth)
    then show ?thesis using Some assms(3) j(1) c(3) by (auto simp: alloc_conn_def upd_conn_def conn_at_def)
  qed (use assms in \<open>simp_all add: alloc_conn_def\<close>)
  then show "conns_ok n'" "nd_threads n' = nd_threads n" "length (nd_conns n') = length (nd_conns n)"
    "r = Some i \<Longrightarrow> i < length (nd_conns n) \<and> cn_fd (conn_at n' i) = fd" by blast+
qed

lemma close_fd_same [simp]: "same_conns n (close_fd fd n)"
  by (simp add: close_fd_def)

lemma conns_ok_spawn: "conns_ok n \<Longrightarrow> i < length (nd_conns n) \<Longrightarrow> conns_ok (spawn_peer spawn_ok i n)"
  using conns_ok_close [of n i] by (auto simp: spawn_peer_def conns_ok_def)

lemma conns_ok_accept:
  assumes "conns_ok n"
  shows "conns_ok (accept_turn spawn_ok fd addr n)"
proof (cases "0 \<le> fd")
  case True
  obtain r m where a: "alloc_conn fd addr 0 False n = (r, m)" by force
  note f = conns_ok_alloc [OF assms True a]
  show ?thesis
    using True a conns_ok_same [OF close_fd_same f(1)] conns_ok_spawn [OF f(1)] f(3,4)
    by (auto simp: accept_turn_def split: option.split)
qed (use assms in \<open>simp add: accept_turn_def\<close>)

lemma conns_ok_connect:
  assumes "conns_ok n" and "\<And>a p fd. dial a p = Some fd \<Longrightarrow> 0 \<le> fd"
  shows "conns_ok (snd (connect_to_addr spawn_ok dial addr port n))"
proof (cases "addr_conn_exists addr port n \<or> dial addr port = None")
  case False
  then obtain fd where fd: "dial addr port = Some fd" "\<not> addr_conn_exists addr port n" by blast
  obtain r m where a: "alloc_conn fd addr port True n = (r, m)" by force
  note f = conns_ok_alloc [OF assms(1) assms(2) [OF fd(1)] a]
  show ?thesis
    using fd a conns_ok_same [OF close_fd_same f(1)] conns_ok_spawn [OF f(1)] f(3,4)
    by (auto simp: connect_to_addr_def split: option.split)
qed (use assms in \<open>auto simp: connect_to_addr_def\<close>)

lemma conns_ok_connect_peer:
  "conns_ok n \<Longrightarrow> (\<And>a p fd. dial a p = Some fd \<Longrightarrow> 0 \<le> fd) \<Longrightarrow> conns_ok (snd (connect_to_peer spawn_ok dial p n))"
  using conns_ok_connect by (simp add: connect_to_peer_def)

lemma conns_ok_connect_best:
  "conns_ok n \<Longrightarrow> (\<And>a p fd. dial a p = Some fd \<Longrightarrow> 0 \<le> fd) \<Longrightarrow> conns_ok (snd (connect_best spawn_ok dial budget ps k n))"
proof (induction ps arbitrary: k n)
  case (Cons p ps)
  show ?case using Cons.IH [OF conns_ok_connect_peer [OF Cons.prems]] Cons.prems by (auto simp: case_prod_beta)
qed simp

lemma conns_ok_seeds [simp]: "conns_ok (n\<lparr>nd_seeds := s\<rparr>) = conns_ok n"
  by (simp add: conns_ok_def)

lemma conns_ok_connect_seeds:
  "conns_ok n \<Longrightarrow> (\<And>a p fd. dial a p = Some fd \<Longrightarrow> 0 \<le> fd) \<Longrightarrow> conns_ok (snd (connect_seeds spawn_ok dial now budget ss k n))"
proof (induction ss arbitrary: k n)
  case (Cons s ss)
  show ?case
    using Cons.IH [of "n\<lparr>nd_seeds := q\<rparr>" for q] Cons.IH [OF Cons.prems] conns_ok_connect [OF Cons.prems, where spawn_ok = spawn_ok and addr = "sd_addr s" and port = "sd_p2p_port s"]
      Cons.IH [of "(snd (connect_to_addr spawn_ok dial (sd_addr s) (sd_p2p_port s) n))\<lparr>nd_seeds := q\<rparr>" for q] Cons.prems
    by (simp add: case_prod_beta Let_def)
qed simp

lemma conns_ok_connect_turn:
  assumes "conns_ok n" and d: "\<And>a p fd. dial a p = Some fd \<Longrightarrow> 0 \<le> fd"
  shows "conns_ok (connect_turn spawn_ok dial n)"
proof -
  have "conns_ok (send_current_hello_to_peers m)" if "conns_ok m" for m
    using conns_ok_sends [OF sends_current_hello that] .
  moreover have "conns_ok (snd (connect_seeds spawn_ok dial now budget ss k m))" if "conns_ok m" for now budget ss k m
    using conns_ok_connect_seeds [OF that d] .
  moreover have "conns_ok (snd (connect_best spawn_ok dial budget ps k n))" for budget ps k
    using conns_ok_connect_best [OF assms] .
  ultimately show ?thesis unfolding connect_turn_def Let_def case_prod_beta using assms(1) by simp
qed

subsection \<open>The threads\<close>

lemma conns_ok_role:
  assumes "conns_ok n"
  shows "conns_ok (send_slot_update i (upd_conn i (\<lambda>c. c\<lparr>cn_role := r\<rparr>) n))"
proof (cases "i < length (nd_conns n)")
  case True
  have k: "keys_unique cn_connected cn_node_id (upd_nth i (\<lambda>c. c\<lparr>cn_role := r\<rparr>) (nd_conns n))"
    using assms by (auto simp: conns_ok_def keys_unique_def nth_upd_nth)
  have "(if cn_connected c then \<lparr>sl_fd = cn_fd c, sl_connected = True, sl_node_id = cn_node_id c\<rparr> else free_send_slot) = slot_for (c\<lparr>cn_role := r\<rparr>)" for c
    by (simp add: slot_for_def)
  then show ?thesis
    using assms True k
    by (auto simp: conns_ok_def send_slot_update_def upd_conn_def conn_at_def map_upd_nth Let_def peer_conn_ok_def dest!: set_upd_nth)
qed (use assms in \<open>simp add: send_slot_update_def upd_conn_def upd_nth_beyond conns_ok_def Let_def\<close>)

lemma conns_ok_connected:
  assumes "conns_ok n" and "i < length (nd_conns n)" and "0 \<le> cn_fd (conn_at n i)" and "\<not> conn_exists node (Some i) n"
  shows "conns_ok (send_slot_update i (upd_conn i (\<lambda>c. c\<lparr>cn_node_id := node, cn_role := r, cn_connected := True\<rparr>) n))"
proof -
  let ?c = "(conn_at n i)\<lparr>cn_node_id := node, cn_role := r, cn_connected := True\<rparr>"
  have use: "peer_conn_ok (nd_conns n ! j)" if "j < length (nd_conns n)" for j using assms(1) that by (simp add: conns_ok_def)
  have other: "cn_node_id (nd_conns n ! j) \<noteq> node" if "j < length (nd_conns n)" "j \<noteq> i" "cn_connected (nd_conns n ! j)" for j
    using assms(4) that use [OF that(1)] by (force simp: conn_exists_def conn_is_def conn_at_def peer_conn_ok_def)
  have k: "keys_unique cn_connected cn_node_id (upd_nth i (\<lambda>_. ?c) (nd_conns n))"
    unfolding keys_unique_def
  proof (intro allI impI)
    fix a b
    let ?cs = "upd_nth i (\<lambda>_. ?c) (nd_conns n)"
    assume ab: "a < length ?cs" "b < length ?cs" "cn_connected (?cs ! a)" "cn_connected (?cs ! b)" "cn_node_id (?cs ! a) = cn_node_id (?cs ! b)"
    have "keys_unique cn_connected cn_node_id (nd_conns n)" using assms(1) by (simp add: conns_ok_def)
    then show "a = b" using ab other [of a] other [of b] keys_uniqueD [of cn_connected cn_node_id "nd_conns n" a b]
      by (cases "a = i"; cases "b = i") simp_all
  qed
  have upd: "nd_conns (upd_conn i (\<lambda>c. c\<lparr>cn_node_id := node, cn_role := r, cn_connected := True\<rparr>) n) = upd_nth i (\<lambda>_. ?c) (nd_conns n)"
    by (simp add: upd_conn_def upd_nth_def conn_at_def)
  have "peer_conn_ok ?c" using use [OF assms(2)] assms(3) by (simp add: peer_conn_ok_def conn_at_def)
  then have c: "\<forall>c \<in> set (upd_nth i (\<lambda>_. ?c) (nd_conns n)). peer_conn_ok c"
    using assms(1,2) by (auto simp: conns_ok_def dest!: set_upd_nth)
  have "slot_for ?c = \<lparr>sl_fd = cn_fd ?c, sl_connected = True, sl_node_id = node\<rparr>" by (simp add: slot_for_def)
  then show ?thesis
    using assms(1,2) k c upd by (simp add: conns_ok_def send_slot_update_def conn_at_def map_upd_nth Let_def upd_conn_def)
qed

lemma conns_ok_accept_hello:
  assumes "conns_ok n" and "i < length (nd_conns n)" and "0 \<le> cn_fd (conn_at n i)" and "\<not> conn_exists (an_node_id ann) (Some i) n"
  shows "conns_ok (peer_accept_hello ann i n)"
  unfolding peer_accept_hello_def Let_def
  by (rule conns_ok_sends [OF sends_flush], rule conns_ok_sends [OF sends_advertise],
      rule conns_ok_sends [OF sends_update_peer], rule conns_ok_connected [OF assms])

lemma sent_fd: "fst (send_hello fd n) \<Longrightarrow> 0 \<le> fd"
  by (auto simp: send_hello_def send_on_fd_def case_prod_beta split: if_splits)

lemma conns_ok_hello:
  assumes "conns_ok n" and "i < length (nd_conns n)"
  shows "conns_ok (snd (peer_hello i n))"
proof -
  obtain ok n1 where h: "send_hello (cn_fd (conn_at n i)) n = (ok, n1)" by force
  have s1: "sends n n1" using sends_hello [of n "cn_fd (conn_at n i)"] h by simp
  obtain r n2 where r: "node_recv (cn_fd (conn_at n1 i)) n1 = (r, n2)" by force
  have s: "sends n n2" using sends_trans [OF s1 sends_recv [OF r]] .
  note ok1 = conns_ok_sends [OF s1 assms(1)] and ok2 = conns_ok_sends [OF s assms(1)]
  have i: "i < length (nd_conns n2)" and fd: "ok \<Longrightarrow> 0 \<le> cn_fd (conn_at n2 i)"
    using assms(2) sendsD [OF s] sent_fd [of "cn_fd (conn_at n i)" n] h by simp_all
  note d = close_duplicates [OF ok2, where except = i]
  have "conns_ok (peer_accept_hello ann i (close_duplicate_conns (an_node_id ann) i n2))" if ok for ann
    using that d i fd by (intro conns_ok_accept_hello) simp_all
  moreover have "conns_ok (peer_accept_hello ann i n2)" if ok "\<not> conn_exists (an_node_id ann) (Some i) n2" for ann
    using that i fd ok2 by (intro conns_ok_accept_hello) simp_all
  ultimately show ?thesis
    using h r conns_ok_close [OF ok1] conns_ok_close [OF ok2] by (simp add: peer_hello_def Let_def split: option.split)
qed

lemma conns_ok_frame:
  assumes "conns_ok n"
  shows "conns_ok (peer_handle_frame stale i type payload n)"
proof -
  have sub: "conns_ok (peer_handle_sub payload stale i n)"
  proof -
    have "same_conns n (n\<lparr>nd_router := r\<rparr>)" for r by (simp add: same_conns_def)
    then have "same_conns n (flush_pending_qos_for_filter f (n\<lparr>nd_router := r\<rparr>))" for f r
      using same_sends [OF _ sends_flush] by blast
    then have "conns_ok (flush_pending_qos_for_filter f (n\<lparr>nd_router := r\<rparr>))" for f r using conns_ok_same assms by blast
    moreover from this have "conns_ok (send_sub_to_leaves p t e (p2p_send_sub_to_routers p t e (flush_pending_qos_for_filter f (n\<lparr>nd_router := r\<rparr>))))"
      for p t e f r using conns_ok_sends [OF sends_to_leaves] conns_ok_sends [OF sends_to_routers] by blast
    ultimately show ?thesis by (simp add: peer_handle_sub_def Let_def case_prod_beta)
  qed
  have unsub: "conns_ok (peer_handle_unsub payload stale i n)"
  proof -
    have "conns_ok (n\<lparr>nd_router := r\<rparr>)" for r using assms by (simp add: conns_ok_def)
    moreover from this have "conns_ok (send_sub_to_leaves p t e (p2p_send_sub_to_routers p t e (n\<lparr>nd_router := r\<rparr>)))"
      for p t e r using conns_ok_sends [OF sends_to_leaves] conns_ok_sends [OF sends_to_routers] by blast
    ultimately show ?thesis by (simp add: peer_handle_unsub_def Let_def case_prod_beta)
  qed
  have pub: "conns_ok (peer_handle_publish i msg n)" for msg
  proof -
    have s: "conns_ok (n\<lparr>nd_seen := q\<rparr>)" for q using assms by (simp add: conns_ok_def)
    then have "conns_ok (node_op f (n\<lparr>nd_seen := q\<rparr>))" for f q using conns_ok_same [OF same_node_op] by blast
    moreover from this have "conns_ok (p2p_router_publish msg e (node_op f (n\<lparr>nd_seen := q\<rparr>)))" for e f q
      using conns_ok_sends [OF sends_router_publish] by blast
    ultimately show ?thesis using assms s by (simp add: peer_handle_publish_def Let_def case_prod_beta)
  qed
  have "conns_ok (peer_handle_hello payload i n)"
    unfolding peer_handle_hello_def Let_def by (rule conns_ok_sends [OF sends_update_peer], rule conns_ok_role [OF assms])
  then show ?thesis using sub unsub pub assms by (simp add: peer_handle_frame_def split: option.split)
qed

lemma conns_ok_turn: "conns_ok n \<Longrightarrow> conns_ok (snd (peer_turn stale i fd n))"
  using conns_ok_sends [OF sends_recv] conns_ok_close conns_ok_frame
  by (auto simp: peer_turn_def split: prod.split option.split)

lemma threads_accept_hello: "nd_threads (peer_accept_hello ann i n) = nd_threads n"
proof -
  let ?n = "send_slot_update i (upd_conn i (\<lambda>c. c\<lparr>cn_node_id := an_node_id ann, cn_role := an_role ann, cn_connected := True\<rparr>) n)"
  have "sends ?n (peer_accept_hello ann i n)"
    unfolding peer_accept_hello_def Let_def
    by (rule sends_trans [OF sends_trans [OF sends_update_peer sends_advertise] sends_flush])
  then show ?thesis by (simp add: sendsD send_slot_update_def upd_conn_def Let_def)
qed

lemma threads_hello: "conns_ok n \<Longrightarrow> nd_threads (snd (peer_hello i n)) = nd_threads n"
proof -
  assume ok: "conns_ok n"
  obtain b n1 where h: "send_hello (cn_fd (conn_at n i)) n = (b, n1)" by force
  have s1: "sends n n1" using sends_hello [of n "cn_fd (conn_at n i)"] h by simp
  obtain r n2 where r: "node_recv (cn_fd (conn_at n1 i)) n1 = (r, n2)" by force
  have s: "sends n n2" using sends_trans [OF s1 sends_recv [OF r]] .
  show ?thesis
    using h r sendsD(5) [OF s1] sendsD(5) [OF s] close_duplicates(3) [OF conns_ok_sends [OF s ok]]
    by (simp add: peer_hello_def Let_def close_conn_fields threads_accept_hello split: option.split)
qed

lemma threads_frame: "nd_threads (peer_handle_frame stale i type payload n) = nd_threads n"
proof -
  have "nd_threads (p2p_router_publish msg e (node_op f m)) = nd_threads m" "nd_threads (node_op f m) = nd_threads m"
    "nd_threads (send_sub_to_leaves p t e (p2p_send_sub_to_routers p t e m)) = nd_threads m"
    "nd_threads (flush_pending_qos_for_filter flt m) = nd_threads m" "nd_threads (node_update_peer ann addr m) = nd_threads m"
    for msg e f m p t flt ann addr
    using sendsD(5) [OF sends_router_publish] same_node_op [of m f] sendsD(5) [OF sends_to_leaves] sendsD(5) [OF sends_to_routers]
      sendsD(5) [OF sends_flush] sendsD(5) [OF sends_update_peer]
    by (simp_all add: same_conns_def)
  then show ?thesis
    by (simp add: peer_handle_frame_def peer_handle_sub_def peer_handle_unsub_def peer_handle_publish_def peer_handle_hello_def
        send_slot_update_def upd_conn_def Let_def case_prod_beta split: option.split)
qed

lemma threads_turn: "nd_threads (snd (peer_turn stale i fd n)) = nd_threads n"
proof -
  obtain r m where r: "node_recv fd n = (r, m)" by force
  then show ?thesis using sendsD(5) [OF sends_recv [OF r]]
    by (auto simp: peer_turn_def close_conn_fields threads_frame split: option.split)
qed

lemma conns_ok_thread:
  assumes "conns_ok n" and "k < length (nd_threads n)"
  shows "conns_ok (thread_step stale k n)"
proof -
  let ?t = "nd_threads n ! k"
  have slot: "pt_slot ?t < length (nd_conns n)" using assms by (simp add: conns_ok_def)
  have put: "conns_ok (m\<lparr>nd_threads := upd_nth k (\<lambda>_. \<lparr>pt_slot = pt_slot ?t, pt_fd = fd, pt_phase = ph\<rparr>) (nd_threads m)\<rparr>)"
    if "conns_ok m" "nd_threads m = nd_threads n" for m fd ph
    using that assms(2) by (auto simp: conns_ok_def dest!: set_upd_nth)
  show ?thesis
    using put [OF conns_ok_hello [OF assms(1) slot] threads_hello [OF assms(1)]] put [OF conns_ok_turn [OF assms(1)] threads_turn]
      put [OF assms(1) refl]
    by (simp add: thread_step_def Let_def case_prod_beta split: peer_phase.split)
qed

lemma conns_ok_step: "node_step n n' \<Longrightarrow> conns_ok n \<Longrightarrow> conns_ok n'"
proof (induction rule: node_step.induct)
  case (step_discover datagram src n)
  then show ?case using conns_ok_sends [OF sends_update_peer] by (simp add: p2p_listen_turn_def)
next
  case (step_announce n)
  then show ?case using conns_ok_sends [OF sends_announce] by (simp add: p2p_announce_turn_def case_prod_beta)
qed (blast intro: conns_ok_same [OF same_node_op] conns_ok_same [OF same_on_mesh] conns_ok_accept conns_ok_thread conns_ok_connect_turn)+

lemma conns_ok_run: "node_run n n' \<Longrightarrow> conns_ok n \<Longrightarrow> conns_ok n'"
  by (induction rule: node_run.induct) (auto intro: conns_ok_step)

lemma conns_ok_start: "nd_threads n = [] \<Longrightarrow> length (nd_slots n) = length (nd_conns n) \<Longrightarrow> conns_ok (p2p_start True node n)"
  by (auto simp: p2p_start_def p2p_peer_start_def conns_ok_def keys_unique_def zero_conn_def slot_for_def peer_conn_ok_def
      intro: nth_equalityI)

end
