(* ===== verification/P2P_Transport_Properties.thy ===== *)
theory P2P_Transport_Properties
  imports P2P_Transport_Correct P2P_Router_Correct
begin

text \<open>
  What the nodes of the peer network can rely on: one connection per peer, who receives a message or a
  subscription that is sent, that a message is handled once, when a static seed is tried again; and
  what goes wrong between threads and between the two kinds of clients.
\<close>

subsection \<open>One connection per peer\<close>

lemma find_send_slot_conn:
  assumes "conns_ok n"
  shows "find_send_slot node n = Some i \<longleftrightarrow>
    i < length (nd_conns n) \<and> cn_connected (conn_at n i) \<and> cn_node_id (conn_at n i) = node"
proof -
  have f: "find_idx P (map g xs) = find_idx (\<lambda>x. P (g x)) xs" for P and g :: "p2p_conn \<Rightarrow> send_slot" and xs
    by (induction xs) simp_all
  have "find_send_slot node n = slot_of cn_connected cn_node_id node (nd_conns n)"
    using assms unfolding find_send_slot_def slot_of_def conns_ok_def
    by (simp add: f slot_for_def free_send_slot_def cong: if_cong)
      (rule arg_cong [where f = "\<lambda>P. find_idx P (nd_conns n)"], auto simp: slot_for_def free_send_slot_def)
  then show ?thesis
    using assms by (simp add: conns_ok_def slot_of_eq_Some conn_at_def)
qed

lemma slot_fd:
  assumes "conns_ok n" and "i < length (nd_conns n)" and "cn_connected (conn_at n i)"
  shows "sl_fd (nd_slots n ! i) = cn_fd (conn_at n i)" and "0 \<le> cn_fd (conn_at n i)"
  using assms by (auto simp: conns_ok_def conn_at_def slot_for_def peer_conn_ok_def)

lemma static_start_ok: "conns_ok (p2p_start True node (static_node m cfg nodes subs))"
  by (rule conns_ok_start) (simp_all add: static_node_def)


subsection \<open>Who receives a frame\<close>

definition sock_of :: "node \<Rightarrow> int \<Rightarrow> sock" where
  "sock_of n fd = bk_socks (nd_broker n) fd"

definition connected_ids :: "node \<Rightarrow> node_id set" where
  "connected_ids n = {cn_node_id c | c. c \<in> set (nd_conns n) \<and> cn_connected c}"

text \<open>The sockets of the connected peers take what they are given, and are different sockets.\<close>

definition peers_accepting :: "node \<Rightarrow> bool" where
  "peers_accepting n \<longleftrightarrow> conns_ok n \<and>
     (\<forall>c \<in> set (nd_conns n). cn_connected c \<longrightarrow> accepting (sock_of n (cn_fd c))) \<and>
     (\<forall>c \<in> set (nd_conns n). \<forall>d \<in> set (nd_conns n). cn_connected c \<longrightarrow> cn_connected d \<longrightarrow> cn_fd c = cn_fd d \<longrightarrow> c = d)"

text \<open>Exactly the connected peers in \<open>T\<close> have been sent \<open>bytes\<close>.\<close>

definition delivered :: "node_id set \<Rightarrow> byte list \<Rightarrow> node \<Rightarrow> node \<Rightarrow> bool" where
  "delivered T bytes n n' \<longleftrightarrow> sends n n' \<and>
     (\<forall>c \<in> set (nd_conns n). cn_connected c \<longrightarrow> accepting (sock_of n' (cn_fd c)) \<and>
        so_sent (sock_of n' (cn_fd c)) = so_sent (sock_of n (cn_fd c)) @ (if cn_node_id c \<in> T then bytes else []))"

lemma delivered_none: "peers_accepting n \<Longrightarrow> delivered {} bytes n n"
  by (simp add: delivered_def peers_accepting_def)

lemma delivered_quiet:
  assumes "delivered T bytes n n'" and "sends n' n''" and "\<And>fd. sock_of n'' fd = sock_of n' fd"
  shows "delivered T bytes n n''"
  using assms sends_trans by (auto simp: delivered_def)

lemma delivered_accepting: "peers_accepting n \<Longrightarrow> delivered T bytes n n' \<Longrightarrow> peers_accepting n'"
  using conns_ok_sends [of n n'] by (auto simp: delivered_def peers_accepting_def sendsD)

lemma delivered_trans:
  assumes "delivered T bytes n n'" and "delivered U bytes n' n''" and "T \<inter> U = {}"
  shows "delivered (T \<union> U) bytes n n''"
proof -
  have s: "sends n n'" "sends n' n''" using assms(1,2) by (simp_all add: delivered_def)
  have "nd_conns n' = nd_conns n" using s(1) by (simp add: sendsD)
  then show ?thesis
    using assms sends_trans [OF s] by (auto simp: delivered_def)
qed

lemma sock_of_on_sock [simp]: "sock_of (on_sock fd f n) fd' = (if fd' = fd then f (sock_of n fd) else sock_of n fd')"
  by (simp add: sock_of_def on_sock_def on_mesh_def on_broker_def upd_sock_def nd_broker_def)

lemma send_one:
  assumes "peers_accepting n" and "length payload \<le> P2P_PUBLISH_FRAME_MAX" and "send_to_node type payload t n = (ok, n')"
  shows "ok \<longleftrightarrow> t \<in> connected_ids n" and "delivered ({t} \<inter> connected_ids n) (peer_frame type payload) n n'"
proof -
  have ok: "conns_ok n" using assms(1) by (simp add: peers_accepting_def)
  have "(ok \<longleftrightarrow> t \<in> connected_ids n) \<and> delivered ({t} \<inter> connected_ids n) (peer_frame type payload) n n'"
  proof (cases "find_send_slot t n")
    case None
    then have "t \<notin> connected_ids n"
      using find_send_slot_conn [OF ok, of t] by (auto simp: connected_ids_def conn_at_def in_set_conv_nth)
    then show ?thesis using None assms delivered_none by (simp add: send_to_node_def)
  next
    case (Some i)
    then have i: "i < length (nd_conns n)" "cn_connected (conn_at n i)" "cn_node_id (conn_at n i) = t"
      using find_send_slot_conn [OF ok] by simp_all
    let ?fd = "cn_fd (conn_at n i)"
    note fd = slot_fd [OF ok i(1,2)]
    have acc: "accepting (sock_of n ?fd)" using assms(1) i nth_mem [OF i(1)] by (simp add: peers_accepting_def conn_at_def)
    have n': "ok" "n' = on_sock ?fd (\<lambda>_. (sock_of n ?fd)\<lparr>so_sent := so_sent (sock_of n ?fd) @ peer_frame type payload\<rparr>) n"
      using assms(2,3) Some fd p2p_send_frame_accepting [OF acc assms(2), of type]
      by (auto simp: send_to_node_def send_frame_to_slot_def send_on_fd_def sock_of_def)
    have same: "cn_fd c = ?fd \<longleftrightarrow> cn_node_id c = t" if c: "c \<in> set (nd_conns n)" "cn_connected c" for c
    proof -
      have "conn_at n i \<in> set (nd_conns n)" using i(1) by (simp add: conn_at_def)
      then have "cn_fd c = ?fd \<longrightarrow> c = conn_at n i" using assms(1) c i(2) unfolding peers_accepting_def by blast
      moreover obtain j where j: "j < length (nd_conns n)" "c = conn_at n j" using c(1) by (auto simp: in_set_conv_nth conn_at_def)
      moreover have "cn_node_id c = t \<longrightarrow> find_send_slot t n = Some j" using find_send_slot_conn [OF ok] j c(2) by simp
      ultimately show ?thesis using Some i(3) by auto
    qed
    have "sends n n'" using sends_to_node [of n type payload t] assms(3) by simp
    moreover have "t \<in> connected_ids n" using i nth_mem [OF i(1)] by (auto simp: connected_ids_def conn_at_def)
    moreover have "accepting (sock_of n' (cn_fd c)) \<and> so_sent (sock_of n' (cn_fd c)) =
        so_sent (sock_of n (cn_fd c)) @ (if cn_node_id c = t then peer_frame type payload else [])"
      if c: "c \<in> set (nd_conns n)" "cn_connected c" for c
      using same [OF c] acc assms(1) c n'(2) by (cases "cn_node_id c = t") (auto simp: peers_accepting_def accepting_def)
    ultimately show ?thesis using n'(1) by (simp add: delivered_def)
  qed
  then show "ok \<longleftrightarrow> t \<in> connected_ids n" "delivered ({t} \<inter> connected_ids n) (peer_frame type payload) n n'" by blast+
qed

lemma sends_connected: "sends n n' \<Longrightarrow> connected_ids n' = connected_ids n"
  by (simp add: connected_ids_def sendsD)

lemma send_count_accepting:
  assumes "peers_accepting n" and "length payload \<le> P2P_PUBLISH_FRAME_MAX" and "distinct ts"
    and "send_count (send_to_node type payload) ts k n = (sent, n')"
  shows "sent = k + card (set ts \<inter> connected_ids n)" and "delivered (set ts \<inter> connected_ids n) (peer_frame type payload) n n'"
proof -
  have "sent = k + card (set ts \<inter> connected_ids n) \<and> delivered (set ts \<inter> connected_ids n) (peer_frame type payload) n n'"
    using assms
  proof (induction ts arbitrary: k n)
    case (Cons t ts)
    obtain ok n1 where s: "send_to_node type payload t n = (ok, n1)" by force
    note one = send_one [OF Cons.prems(1,2) s]
    have C: "connected_ids n1 = connected_ids n" using one(2) by (simp add: delivered_def sends_connected)
    have "sent = (if ok then k + 1 else k) + card (set ts \<inter> connected_ids n1) \<and>
        delivered (set ts \<inter> connected_ids n1) (peer_frame type payload) n1 n'"
      using Cons.IH [OF delivered_accepting [OF Cons.prems(1) one(2)] Cons.prems(2)] Cons.prems(3,4) s by simp
    moreover have "({t} \<inter> connected_ids n) \<inter> (set ts \<inter> connected_ids n) = {}" using Cons.prems(3) by auto
    moreover have "set (t # ts) \<inter> connected_ids n = ({t} \<inter> connected_ids n) \<union> (set ts \<inter> connected_ids n)" by auto
    moreover have "card (set (t # ts) \<inter> connected_ids n) = (if t \<in> connected_ids n then 1 else 0) + card (set ts \<inter> connected_ids n)"
      using Cons.prems(3) by (simp add: Int_insert_left)
    ultimately show ?case using one C delivered_trans [OF one(2)] by (auto split: if_splits)
  qed (simp add: delivered_none)
  then show "sent = k + card (set ts \<inter> connected_ids n)" "delivered (set ts \<inter> connected_ids n) (peer_frame type payload) n n'"
    by blast+
qed

lemma hops_distinct: "distinct (p2p_router_find_next_hops topic excl m r)" "length (p2p_router_find_next_hops topic excl m r) \<le> m"
proof -
  have "collects [] (probe_hits (rt_exact r) topic excl (probe topic (length (rt_exact r)))) m
      (probe_hops (rt_exact r) topic excl m (probe topic (length (rt_exact r))) [])"
    by (rule probe_hops_spec) simp_all
  then have p: "distinct (probe_hops (rt_exact r) topic excl m (probe topic (length (rt_exact r))) [])"
    "length (probe_hops (rt_exact r) topic excl m (probe topic (length (rt_exact r))) []) \<le> m" by (simp_all add: collects_def)
  show "distinct (p2p_router_find_next_hops topic excl m r)" "length (p2p_router_find_next_hops topic excl m r) \<le> m"
    using wildcard_hops_spec [OF p, of "rt_wild r" topic excl] wildcard_hops_spec [of "[]" m "rt_wild r" topic excl]
    by (auto simp: p2p_router_find_next_hops_def collects_def)
qed

lemma peer_targets_distinct: "conns_ok n \<Longrightarrow> distinct (peer_targets sel excl n)"
proof -
  have d: "distinct (map cn_node_id (filter cn_connected xs))" if "keys_unique cn_connected cn_node_id xs" for xs :: "p2p_conn list"
    using that
  proof (induction xs)
    case (Cons x xs)
    have "keys_unique cn_connected cn_node_id xs"
      unfolding keys_unique_def using keys_uniqueD [OF Cons.prems, of "Suc i" "Suc j" for i j] by fastforce
    moreover have "cn_node_id x \<notin> cn_node_id ` set (filter cn_connected xs)" if "cn_connected x"
    proof
      assume "cn_node_id x \<in> cn_node_id ` set (filter cn_connected xs)"
      then obtain j where "j < length xs" "cn_connected (xs ! j)" "cn_node_id (xs ! j) = cn_node_id x"
        by (auto simp: in_set_conv_nth)
      then show False using keys_uniqueD [OF Cons.prems, of 0 "Suc j"] that by simp
    qed
    ultimately show ?case using Cons.IH by simp
  qed simp
  assume "conns_ok n"
  then have "distinct (map cn_node_id (filter cn_connected (nd_conns n)))" using d by (simp add: conns_ok_def)
  then have "distinct (map cn_node_id (filter P (filter cn_connected (nd_conns n))))" for P by (rule distinct_map_filter)
  then show ?thesis by (simp add: peer_targets_def)
qed

lemma flood_targets: "set (peer_targets (\<lambda>_. True) None n) = connected_ids n"
  by (auto simp: peer_targets_def connected_ids_def)

text \<open>Sending itself leaves even more alone.\<close>

lemma send_on_fd_fields [simp]:
  "nd_pending (snd (send_on_fd fd type payload n)) = nd_pending n" "nd_seq (snd (send_on_fd fd type payload n)) = nd_seq n"
  "nd_election (snd (send_on_fd fd type payload n)) = nd_election n" "nd_caches (snd (send_on_fd fd type payload n)) = nd_caches n"
  by (simp_all add: send_on_fd_def on_sock_def on_mesh_def split: prod.split)

lemma send_to_node_fields [simp]:
  "nd_pending (snd (send_to_node type payload t n)) = nd_pending n" "nd_seq (snd (send_to_node type payload t n)) = nd_seq n"
  "nd_election (snd (send_to_node type payload t n)) = nd_election n" "nd_caches (snd (send_to_node type payload t n)) = nd_caches n"
  by (simp_all add: send_to_node_def send_frame_to_slot_def split: option.split)

lemma send_count_fields [simp]:
  "nd_pending (snd (send_count (send_to_node type payload) ts k n)) = nd_pending n"
  "nd_seq (snd (send_count (send_to_node type payload) ts k n)) = nd_seq n"
  by (induction ts arbitrary: k n) (simp_all add: case_prod_beta)

lemma prebuilt_send: "send_prebuilt_publish_to_node_unlocked fr = send_to_node P2P_PUBLISH fr"
  by (intro ext) (simp add: send_prebuilt_publish_to_node_unlocked_def)

lemma from_router_accepting:
  assumes "peers_accepting n" and "length fr \<le> P2P_PUBLISH_FRAME_MAX"
    and res: "p2p_send_publish_from_router_prebuilt msg fr excl n = (sent, rts, n')"
  defines "hops \<equiv> p2p_router_find_next_hops (pm_topic msg) excl P2P_PEER_MAX (nd_router n)"
  shows "rts = length hops" and "sent = card (set hops \<inter> connected_ids n)"
    and "delivered (set hops \<inter> connected_ids n) (peer_frame P2P_PUBLISH fr) n n'" and "nd_pending n' = nd_pending n"
    and "nd_seq n' = nd_seq n"
proof -
  define n0 where "n0 = n\<lparr>nd_election := p2p_election_record_publish (uptime n) (nd_election n)\<rparr>"
  have s: "sends n n0" unfolding n0_def by (rule sends_election) simp
  have q: "sock_of n0 fd = sock_of n fd" for fd by (simp add: n0_def sock_of_def nd_broker_def)
  have d0: "delivered {} (peer_frame P2P_PUBLISH fr) n n0" by (rule delivered_quiet [OF delivered_none [OF assms(1)] s q])
  have C: "connected_ids n0 = connected_ids n" using s by (rule sends_connected)
  have f: "nd_pending n0 = nd_pending n" "nd_seq n0 = nd_seq n" "nd_router n0 = nd_router n" by (simp_all add: n0_def)
  obtain k n1 where c: "send_count (send_to_node P2P_PUBLISH fr) hops 0 n0 = (k, n1)" by force
  note sc = send_count_accepting [OF delivered_accepting [OF assms(1) d0] assms(2) _ c]
  have eq: "(sent, rts, n') = (if hops = [] then (0, 0, n0) else (k, length hops, n1))"
    using res c unfolding p2p_send_publish_from_router_prebuilt_def Let_def n0_def [symmetric] hops_def f(3) prebuilt_send by auto
  have dist: "distinct hops" by (simp add: hops_def hops_distinct)
  have "delivered (set hops \<inter> connected_ids n) (peer_frame P2P_PUBLISH fr) n n1"
    using delivered_trans [OF d0 sc(2) [OF dist]] C by simp
  moreover have "nd_pending n1 = nd_pending n" "nd_seq n1 = nd_seq n"
    using send_count_fields [of P2P_PUBLISH fr hops 0 n0] c f by simp_all
  ultimately show "rts = length hops" "sent = card (set hops \<inter> connected_ids n)"
    "delivered (set hops \<inter> connected_ids n) (peer_frame P2P_PUBLISH fr) n n'" "nd_pending n' = nd_pending n" "nd_seq n' = nd_seq n"
    using eq d0 f sc(1) [OF dist] C by (auto split: if_splits)
qed

lemma flood_accepting:
  assumes "peers_accepting n" and "length fr \<le> P2P_PUBLISH_FRAME_MAX"
  shows "delivered (connected_ids n) (peer_frame P2P_PUBLISH fr) n (flood_publish_to_connected_peers fr None n)"
    and "nd_pending (flood_publish_to_connected_peers fr None n) = nd_pending n"
    and "nd_seq (flood_publish_to_connected_peers fr None n) = nd_seq n"
proof -
  obtain k n1 where c: "send_count (send_to_node P2P_PUBLISH fr) (peer_targets (\<lambda>_. True) None n) 0 n = (k, n1)" by force
  have "conns_ok n" using assms(1) by (simp add: peers_accepting_def)
  from send_count_accepting(2) [OF assms peer_targets_distinct [OF this] c] c
  show "delivered (connected_ids n) (peer_frame P2P_PUBLISH fr) n (flood_publish_to_connected_peers fr None n)"
    by (simp add: flood_publish_to_connected_peers_def prebuilt_send flood_targets)
  show "nd_pending (flood_publish_to_connected_peers fr None n) = nd_pending n"
    "nd_seq (flood_publish_to_connected_peers fr None n) = nd_seq n"
    by (simp_all add: flood_publish_to_connected_peers_def prebuilt_send)
qed

lemma by_routes_accepting:
  assumes "peers_accepting n" and "length fr \<le> P2P_PUBLISH_FRAME_MAX" and res: "publish_by_routes msg fr n = (sent, rts, n')"
  defines "hops \<equiv> p2p_router_find_next_hops (pm_topic msg) None P2P_PEER_MAX (nd_router n)"
  shows "rts = length hops" and "sent = card (set hops \<inter> connected_ids n)"
    and "delivered (if set hops \<inter> connected_ids n \<noteq> {} then set hops \<inter> connected_ids n else connected_ids n)
      (peer_frame P2P_PUBLISH fr) n n'"
    and "nd_pending n' = nd_pending n" and "nd_seq n' = nd_seq n"
proof -
  obtain k r n1 where p: "p2p_send_publish_from_router_prebuilt msg fr None n = (k, r, n1)" by (metis prod_cases3)
  note f = from_router_accepting [OF assms(1,2) p, folded hops_def]
  have eq: "sent = k" "rts = r" "n' = (if k = 0 then flood_publish_to_connected_peers fr None n1 else n1)"
    using res p by (auto simp: publish_by_routes_def)
  have k: "k = 0 \<longleftrightarrow> set hops \<inter> connected_ids n = {}" using f(2) by simp
  have C: "connected_ids n1 = connected_ids n" using f(3) by (simp add: delivered_def sends_connected)
  note fl = flood_accepting [OF delivered_accepting [OF assms(1) f(3)] assms(2), unfolded C]
  show "rts = length hops" "sent = card (set hops \<inter> connected_ids n)" using f eq by simp_all
  show "nd_pending n' = nd_pending n" "nd_seq n' = nd_seq n" using f fl eq by simp_all
  have "delivered (connected_ids n) (peer_frame P2P_PUBLISH fr) n (flood_publish_to_connected_peers fr None n1)" if "k = 0"
    using delivered_trans [OF f(3) fl(1)] k that by simp
  then show "delivered (if set hops \<inter> connected_ids n \<noteq> {} then set hops \<inter> connected_ids n else connected_ids n)
      (peer_frame P2P_PUBLISH fr) n n'" using eq k f(3) by simp
qed

lemma store_fields:
  "nd_pending m = nd_pending n \<Longrightarrow> nd_pending (pending_qos_store msg fr m) = nd_pending (pending_qos_store msg fr n)"
  "nd_seq (pending_qos_store msg fr m) = nd_seq m" "sock_of (pending_qos_store msg fr m) fd = sock_of m fd"
  by (simp_all add: pending_qos_store_def Let_def sock_of_def nd_broker_def)

lemma delivered_store: "delivered T bytes n m \<Longrightarrow> delivered T bytes n (pending_qos_store msg fr m)"
  using delivered_quiet [OF _ sends_store store_fields(3)] .

lemma routed_or_kept:
  fixes q :: byte
  assumes "peers_accepting n" and "delivered {} (peer_frame P2P_PUBLISH fr) n m" and "nd_pending m = nd_pending n"
    and "length fr \<le> P2P_PUBLISH_FRAME_MAX" and "publish_by_routes msg fr m = (sent, rts, m')"
  defines "hops \<equiv> set (p2p_router_find_next_hops (pm_topic msg) None P2P_PEER_MAX (nd_router n))"
    and "kept \<equiv> if 0 < q \<and> 0 < rts \<and> sent = 0 then pending_qos_store msg fr m' else m'"
  shows "delivered (if hops \<inter> connected_ids n \<noteq> {} then hops \<inter> connected_ids n else connected_ids n) (peer_frame P2P_PUBLISH fr) n kept"
    and "nd_seq kept = nd_seq m"
    and "nd_pending kept = (if 0 < q \<and> hops \<noteq> {} \<and> hops \<inter> connected_ids n = {} then nd_pending (pending_qos_store msg fr n) else nd_pending n)"
proof -
  have same: "connected_ids m = connected_ids n" "nd_router m = nd_router n"
    using assms(2) by (simp_all add: delivered_def sends_connected sendsD)
  note by_r = by_routes_accepting [OF delivered_accepting [OF assms(1,2)] assms(4,5), unfolded same assms(3), folded hops_def]
  show "delivered (if hops \<inter> connected_ids n \<noteq> {} then hops \<inter> connected_ids n else connected_ids n) (peer_frame P2P_PUBLISH fr) n kept"
    using delivered_trans [OF assms(2) by_r(3)] delivered_store by (simp add: kept_def)
  show "nd_seq kept = nd_seq m" using by_r(5) by (simp add: kept_def store_fields(2))
  have "0 < rts \<and> sent = 0 \<longleftrightarrow> hops \<noteq> {} \<and> hops \<inter> connected_ids n = {}"
    using by_r(1,2) by (auto simp: hops_def)
  then show "nd_pending kept = (if 0 < q \<and> hops \<noteq> {} \<and> hops \<inter> connected_ids n = {} then nd_pending (pending_qos_store msg fr n) else nd_pending n)"
    using by_r(4) store_fields(1) [of m' n msg fr] by (auto simp: kept_def)
qed


subsection \<open>Messages and subscriptions of a peer\<close>

lemma node_recv_frame:
  assumes "incoming (peer_frame type payload @ later) rest (sock_of n fd)" and "0 \<le> fd" and "length payload \<le> P2P_PUBLISH_FRAME_MAX"
  shows "\<exists>s. node_recv fd n = (Some (type, payload), on_sock fd (\<lambda>_. s) n) \<and> incoming later rest s"
  using recv_frame_incoming [OF assms(1,3)] assms(2) by (auto simp: node_recv_def sock_of_def)

lemma remote_pub_local:
  "filter_ok (pub_topic pub) \<Longrightarrow>
    remote_pub (local_publish_msg n (pub_topic pub) pub) = pub\<lparr>pub_dup := 0, pub_packet_id := 0\<rparr>"
  by (simp add: remote_pub_def local_publish_msg_def zero_publish_def filter_ok_def)

lemma publish_turn:
  assumes "filter_ok (pub_topic pub)" and "pub_topic pub \<noteq> []" and "length (pub_payload pub) \<le> MQTT_PAYLOAD_BYTES"
    and "id_ok (el_self_id (nd_election b))" and "0 \<le> fd"
    and "incoming (peer_frame P2P_PUBLISH (publish_bytes (local_publish_msg b (pub_topic pub) pub)) @ later) rest (sock_of a fd)"
    and "\<not> fst (seen_before (local_publish_msg b (pub_topic pub) pub) (nd_seen a))"
  defines "msg \<equiv> local_publish_msg b (pub_topic pub) pub" and "pub' \<equiv> pub\<lparr>pub_dup := 0, pub_packet_id := 0\<rparr>"
  shows "\<exists>s a2. incoming later rest s \<and>
      a2 = node_op (\<lambda>m. broker_mesh_ingress_publish_remote (\<lambda>_. pub') (on_broker (topic_publish_remote pub') m))
        ((on_sock fd (\<lambda>_. s) a)\<lparr>nd_seen := snd (seen_before msg (nd_seen a))\<rparr>) \<and>
      snd (peer_turn stale slot fd a) =
        (if is_router a2 then p2p_router_publish msg (Some (cn_node_id (conn_at a slot))) a2 else a2)"
proof -
  have mok: "msg_ok msg" "pm_topic msg \<noteq> []" "length (pm_payload msg) \<le> 512"
    using assms(1-4) by (simp_all add: msg_def local_publish_msg_def msg_ok_def p2p_election_self_id_def)
  note pp = parse_peer_publish [OF mok(1,2)]
  obtain s where s: "node_recv fd a = (Some (P2P_PUBLISH, publish_bytes msg), on_sock fd (\<lambda>_. s) a)" "incoming later rest s"
    using node_recv_frame [OF assms(6) [folded msg_def] assms(5) build_publish_ok(2) [OF mok(1,2)]] by blast
  let ?a1 = "(on_sock fd (\<lambda>_. s) a)\<lparr>nd_seen := snd (seen_before msg (nd_seen a))\<rparr>"
  define a2 where "a2 = node_op (\<lambda>m. broker_mesh_ingress_publish_remote (\<lambda>_. pub') (on_broker (topic_publish_remote pub') m)) ?a1"
  have seen: "nd_seen (on_sock fd (\<lambda>_. s) a) = nd_seen a" by (simp add: on_sock_def on_mesh_def)
  have conn: "conn_at a2 slot = conn_at a slot"
    using same_node_op [of ?a1] by (simp add: a2_def same_conns_def conn_at_def on_sock_def on_mesh_def)
  have "snd (peer_turn stale slot fd a) = peer_handle_publish slot msg (on_sock fd (\<lambda>_. s) a)"
    using s(1) pp by (simp add: peer_turn_def peer_handle_frame_def)
  also have "\<dots> = (if is_router a2 then p2p_router_publish msg (Some (cn_node_id (conn_at a slot))) a2 else a2)"
    using assms(7) mok(3) seen conn remote_pub_local [OF assms(1), of b]
    by (auto simp: peer_handle_publish_def Let_def case_prod_beta msg_def [symmetric] a2_def pub'_def)
  finally show ?thesis using s(2) a2_def by blast
qed

lemma router_publish_delivered:
  assumes "peers_accepting n" and "msg_ok msg" and "pm_topic msg \<noteq> []"
  shows "delivered (set (p2p_router_find_next_hops (pm_topic msg) excl P2P_PEER_MAX (nd_router n)) \<inter> connected_ids n)
    (peer_frame P2P_PUBLISH (publish_bytes msg)) n (p2p_router_publish msg excl n)"
proof -
  note bp = build_publish_ok [OF assms(2,3)]
  obtain k r n' where rel: "p2p_send_publish_from_router_prebuilt msg (publish_bytes msg) excl n = (k, r, n')"
    by (metis prod_cases3)
  show ?thesis
    using from_router_accepting(3) [OF assms(1) bp(2) rel] bp(1) rel by (simp add: p2p_router_publish_def p2p_send_publish_from_router_def)
qed

text \<open>
  C21: a message published on node \<open>b\<close> is published on node \<open>a\<close>. When the frame \<open>b\<close> sends for it
  arrives, in whatever chunks, and \<open>a\<close> has not seen the message, \<open>a\<close> publishes it to its own
  subscribers and to the clients of its mesh ingress, as it was published on \<open>b\<close> but for the packet
  id and the DUP flag; and when \<open>a\<close> is a router it passes the same frame on to every connected next
  hop of its routes for the topic, except to the peer it came from.
\<close>

theorem publish_received:
  assumes "filter_ok (pub_topic pub)" and "pub_topic pub \<noteq> []" and "length (pub_payload pub) \<le> MQTT_PAYLOAD_BYTES"
    and "id_ok (el_self_id (nd_election b))" and "0 \<le> fd"
    and "incoming (peer_frame P2P_PUBLISH (publish_bytes (local_publish_msg b (pub_topic pub) pub)) @ later) rest (sock_of a fd)"
    and "\<not> fst (seen_before (local_publish_msg b (pub_topic pub) pub) (nd_seen a))"
  shows "let msg = local_publish_msg b (pub_topic pub) pub;
      pub' = pub\<lparr>pub_dup := 0, pub_packet_id := 0\<rparr>;
      a' = snd (peer_turn stale slot fd a) in
    \<exists>s a2. incoming later rest s \<and>
      a2 = node_op (\<lambda>m. broker_mesh_ingress_publish_remote (\<lambda>_. pub') (on_broker (topic_publish_remote pub') m))
        ((on_sock fd (\<lambda>_. s) a)\<lparr>nd_seen := snd (seen_before msg (nd_seen a))\<rparr>) \<and> sends a2 a' \<and>
      (if is_router a2
       then peers_accepting a2 \<longrightarrow> delivered (set (p2p_router_find_next_hops (pub_topic pub) (Some (cn_node_id (conn_at a slot)))
           P2P_PEER_MAX (nd_router a2)) \<inter> connected_ids a2) (peer_frame P2P_PUBLISH (publish_bytes msg)) a2 a'
       else a' = a2)"
proof -
  let ?msg = "local_publish_msg b (pub_topic pub) pub"
  have mok: "msg_ok ?msg" "pm_topic ?msg = pub_topic pub"
    using assms(1-4) by (simp_all add: local_publish_msg_def msg_ok_def p2p_election_self_id_def)
  obtain s a2 where turn: "incoming later rest s"
      "a2 = node_op (\<lambda>m. broker_mesh_ingress_publish_remote (\<lambda>_. pub\<lparr>pub_dup := 0, pub_packet_id := 0\<rparr>)
          (on_broker (topic_publish_remote (pub\<lparr>pub_dup := 0, pub_packet_id := 0\<rparr>)) m))
        ((on_sock fd (\<lambda>_. s) a)\<lparr>nd_seen := snd (seen_before ?msg (nd_seen a))\<rparr>)"
      "snd (peer_turn stale slot fd a) =
        (if is_router a2 then p2p_router_publish ?msg (Some (cn_node_id (conn_at a slot))) a2 else a2)"
    using publish_turn [OF assms] by blast
  have "sends a2 (snd (peer_turn stale slot fd a))" using turn(3) sends_router_publish by simp
  moreover note router_publish_delivered [OF _ mok(1), unfolded mok(2), OF _ assms(2)]
  ultimately show ?thesis using turn unfolding Let_def by (intro exI [of _ s] exI [of _ a2]) (cases "is_router a2"; simp)
qed


subsection \<open>Messages are handled once\<close>

definition seen_idx :: "nat \<Rightarrow> p2p_publish_msg \<Rightarrow> nat" where
  "seen_idx len msg = unat (seen_hash (pm_origin_id msg) (pm_seq msg) AND (of_nat len - 1))"

definition seen_entry :: "p2p_publish_msg \<Rightarrow> seen_msg" where
  "seen_entry msg = \<lparr>sn_origin_id = pm_origin_id msg, sn_seq = pm_seq msg\<rparr>"

lemma seen_before_eq:
  "seen_before msg seen = (if seen ! seen_idx (length seen) msg = seen_entry msg then (True, seen)
     else (False, upd_nth (seen_idx (length seen) msg) (\<lambda>_. seen_entry msg) seen))"
  by (simp add: seen_before_def seen_idx_def seen_entry_def Let_def)

lemma seen_idx_less: "0 < len \<Longrightarrow> len < 2 ^ 32 \<Longrightarrow> seen_idx len msg < len"
proof -
  assume l: "0 < len" "len < 2 ^ 32"
  have "(of_nat len - 1 :: u32) = of_nat (len - 1)" using l(1) of_nat_diff [of 1 len, where 'a = u32] by simp
  moreover have "unat (of_nat (len - 1) :: u32) = len - 1" by (subst unat_of_nat) (use l in simp)
  ultimately have "seen_idx len msg \<le> len - 1"
    unfolding seen_idx_def using word_and_le1 by (metis word_le_nat_alt)
  then show ?thesis using l(1) by simp
qed

lemma seen_node_op [simp]: "nd_seen (node_op f n) = nd_seen n"
proof -
  have "nd_seen (fold p2p_event_step es m) = nd_seen m" for es m
    using sendsD(6) [OF sends_fold [of p2p_event_step m es, OF sends_event]] .
  then show ?thesis by (simp add: node_op_def run_p2p_def Let_def on_mesh_def)
qed

lemma seen_handle_publish: "nd_seen (peer_handle_publish slot msg n) = snd (seen_before msg (nd_seen n))"
proof (cases "fst (seen_before msg (nd_seen n))")
  case True
  then show ?thesis by (simp add: peer_handle_publish_def case_prod_beta seen_before_eq split: if_splits)
next
  case False
  then show ?thesis by (simp add: peer_handle_publish_def case_prod_beta Let_def sendsD(6) [OF sends_router_publish])
qed

text \<open>
  A message is handled once. After it has been handled, receiving it again from any peer changes
  nothing, as long as none of the messages handled in between is another message with the same place
  in the seen cache.
\<close>

theorem duplicate_dropped:
  assumes "0 < length (nd_seen n)" and "length (nd_seen n) < 2 ^ 32"
    and "\<forall>(s, m) \<in> set between. seen_idx (length (nd_seen n)) m \<noteq> seen_idx (length (nd_seen n)) msg \<or> seen_entry m = seen_entry msg"
  shows "let n' = fold (\<lambda>(s, m). peer_handle_publish s m) between (peer_handle_publish slot msg n)
    in peer_handle_publish slot' msg n' = n'"
proof -
  define len where "len = length (nd_seen n)"
  let ?kept = "\<lambda>n'. length (nd_seen n') = len \<and> nd_seen n' ! seen_idx len msg = seen_entry msg"
  note less = seen_idx_less [OF assms(1,2), folded len_def]
  have one: "?kept (peer_handle_publish slot msg n)"
    using less [of msg] by (simp add: seen_handle_publish seen_before_eq len_def [symmetric])
  have "?kept (fold (\<lambda>(s, m). peer_handle_publish s m) between n')"
    if "?kept n'" "\<forall>(s, m) \<in> set between. seen_idx len m \<noteq> seen_idx len msg \<or> seen_entry m = seen_entry msg" for n' between
    using that
  proof (induction between arbitrary: n')
    case (Cons x xs)
    obtain s m where x: "x = (s, m)" by force
    have "?kept (peer_handle_publish s m n')"
      using Cons.prems x less [of m] less [of msg] by (auto simp: seen_handle_publish seen_before_eq nth_upd_nth)
    then show ?case using Cons.IH Cons.prems(2) x by simp
  qed simp
  from this [OF one assms(3) [folded len_def]]
  show ?thesis by (simp add: Let_def peer_handle_publish_def seen_before_eq)
qed

text \<open>
  A node does not recognise its own messages. Publishing one leaves the seen cache as it is; when
  the message comes back over another peer, the node publishes it to its own subscribers a second time.
\<close>

theorem own_message_repeated:
  assumes "filter_ok (pub_topic pub)" and "pub_topic pub \<noteq> []" and "length (pub_payload pub) \<le> MQTT_PAYLOAD_BYTES"
    and "id_ok (el_self_id (nd_election n))" and "0 \<le> fd"
    and "incoming (peer_frame P2P_PUBLISH (publish_bytes (local_publish_msg n (pub_topic pub) pub)) @ later) rest
      (sock_of (p2p_publish_from_local pub n) fd)"
    and "\<not> fst (seen_before (local_publish_msg n (pub_topic pub) pub) (nd_seen n))"
  shows "let msg = local_publish_msg n (pub_topic pub) pub; pub' = pub\<lparr>pub_dup := 0, pub_packet_id := 0\<rparr>;
      n1 = p2p_publish_from_local pub n in
    nd_seen n1 = nd_seen n \<and>
    (\<exists>s n2. n2 = node_op (\<lambda>m. broker_mesh_ingress_publish_remote (\<lambda>_. pub') (on_broker (topic_publish_remote pub') m))
        ((on_sock fd (\<lambda>_. s) n1)\<lparr>nd_seen := snd (seen_before msg (nd_seen n))\<rparr>) \<and>
      sends n2 (snd (peer_turn stale slot fd n1)))"
proof -
  have seen: "nd_seen (p2p_publish_from_local pub n) = nd_seen n" by (rule sendsD(6) [OF sends_from_local])
  from publish_turn [OF assms(1-6), unfolded seen, OF assms(7), where stale = stale and slot = slot] seen sends_router_publish sends_refl show ?thesis
    unfolding Let_def by (metis (no_types, lifting))
qed

subsection \<open>Threads and connections\<close>

lemma recv_error:
  assumes "so_rx (sock_of n fd) = ev # rest" and "\<And>bs. ev \<noteq> RxData bs"
  shows "\<exists>s. node_recv fd n = (None, on_sock fd (\<lambda>_. s) n) \<or> node_recv fd n = (None, n)"
  using assms by (cases ev) (auto simp: node_recv_def recv_frame_def recv_exact.simps [of 3] plat_recv_def sock_of_def)

lemma drop_conn_closes:
  assumes "0 \<le> cn_fd (conn_at n i)"
  shows "so_closed (sock_of (drop_conn i n) (cn_fd (conn_at n i)))"
  using assms by (simp add: drop_conn_def send_slot_clear_def upd_conn_def close_fd_def on_mesh_def on_broker_def
      sock_of_def nd_broker_def plat_close_def upd_sock_def)

lemma close_conn_mesh: "nd_mesh (close_conn i n) = nd_mesh (drop_conn i n)"
  by (simp add: close_conn_def Let_def)

lemma turn_failed:
  assumes "k < length (nd_threads n)" and "nd_threads n ! k = \<lparr>pt_slot = i, pt_fd = fd, pt_phase = PeerRecv\<rparr>"
    and "so_rx (sock_of n fd) = ev # rest" and "\<And>bs. ev \<noteq> RxData bs" and "i < length (nd_conns n)" and "0 \<le> cn_fd (conn_at n i)"
  shows "so_closed (sock_of (thread_step stale k n) (cn_fd (conn_at n i)))" and "conn_at (thread_step stale k n) i = empty_conn"
    and "nd_router (thread_step stale k n) = nd_router (close_conn i n)"
    and "pt_phase (nd_threads (thread_step stale k n) ! k) = PeerEnded"
proof -
  obtain m where m: "node_recv fd n = (None, m)" "m = n \<or> (\<exists>s. m = on_sock fd (\<lambda>_. s) n)"
    using recv_error [OF assms(3,4)] by blast
  have same: "conn_at m i = conn_at n i" "nd_conns m = nd_conns n" "nd_router m = nd_router n" "nd_threads m = nd_threads n"
    using m(2) by (auto simp: conn_at_def on_sock_def on_mesh_def)
  have step: "peer_turn stale i fd n = (False, close_conn i m)" using m(1) by (simp add: peer_turn_def)
  have fields: "sock_of (m'\<lparr>nd_threads := t\<rparr>) = sock_of m'" "conn_at (m'\<lparr>nd_threads := t\<rparr>) = conn_at m'" for m' t
    by (simp_all add: sock_of_def nd_broker_def conn_at_def fun_eq_iff)
  have "conn_exists x None (drop_conn i m) = conn_exists x None (drop_conn i n)" for x
    using same(2) by (simp add: conn_exists_def conn_at_def drop_conn_fields)
  then have r: "nd_router (close_conn i m) = nd_router (close_conn i n)" using same by (simp add: close_conn_def Let_def drop_conn_fields)
  have ts: "thread_step stale k n = (close_conn i m)\<lparr>nd_threads := upd_nth k (\<lambda>_. \<lparr>pt_slot = i,
      pt_fd = cn_fd (conn_at (close_conn i m) i), pt_phase = PeerEnded\<rparr>) (nd_threads (close_conn i m))\<rparr>"
    using assms(2) step by (simp add: thread_step_def Let_def)
  have "sock_of (close_conn i m) = sock_of (drop_conn i m)" by (simp add: sock_of_def nd_broker_def close_conn_mesh fun_eq_iff)
  then show "so_closed (sock_of (thread_step stale k n) (cn_fd (conn_at n i)))"
    using drop_conn_closes [of m i] assms(6) same(1) by (simp add: ts fields)
  show "conn_at (thread_step stale k n) i = empty_conn"
    using assms(5) same(2) by (simp add: ts fields) (simp add: conn_at_def close_conn_fields)
  show "nd_router (thread_step stale k n) = nd_router (close_conn i n)" by (simp add: ts r)
  show "pt_phase (nd_threads (thread_step stale k n) ! k) = PeerEnded"
    using assms(1) same(4) by (simp add: ts close_conn_fields)
qed

text \<open>
  A thread whose connection was closed as a duplicate takes the next connection down with it. The
  hello of a second connection \<open>j\<close> to the same peer closes connection \<open>i\<close> and frees it, the next
  accepted connection is put in its place, and when the thread that still waits on the old descriptor
  sees its end, it closes the new connection.
\<close>

theorem reused_connection_closed:
  assumes "conns_ok n" and "i < length (nd_conns n)" and "i \<noteq> j" and "conn_is peer (conn_at n i)"
    and "k < length (nd_threads n)" and "nd_threads n ! k = \<lparr>pt_slot = i, pt_fd = cn_fd (conn_at n i), pt_phase = PeerRecv\<rparr>"
    and "free_slot cn_in_use (nd_conns (close_duplicate_conns peer j n)) = Some i" and "0 \<le> fd" and "fd \<noteq> cn_fd (conn_at n i)"
    and "so_rx (sock_of (accept_turn True fd addr (close_duplicate_conns peer j n)) (cn_fd (conn_at n i))) = RxClosed # rest"
  shows "let n1 = accept_turn True fd addr (close_duplicate_conns peer j n); n2 = thread_step stale k n1 in
    cn_in_use (conn_at n1 i) \<and> cn_fd (conn_at n1 i) = fd \<and> so_closed (sock_of n2 fd) \<and> \<not> cn_in_use (conn_at n2 i)"
proof -
  define n0 where "n0 = close_duplicate_conns peer j n"
  note d = close_duplicates [OF assms(1), where node = peer and except = j, folded n0_def]
  let ?c = "zero_conn\<lparr>cn_fd := fd, cn_addr := addr, cn_p2p_port := 0, cn_outbound := False, cn_in_use := True\<rparr>"
  define n1 where "n1 = accept_turn True fd addr n0"
  have n1: "n1 = (upd_conn i (\<lambda>_. ?c) n0)\<lparr>nd_threads := nd_threads n0 @ [\<lparr>pt_slot = i, pt_fd = fd, pt_phase = PeerStart\<rparr>]\<rparr>"
    using assms(2,7,8) d(2) unfolding n1_def n0_def [symmetric]
    by (simp add: accept_turn_def alloc_conn_def spawn_peer_def upd_conn_def conn_at_def n0_def zero_conn_def)
  have i: "i < length (nd_conns n1)" "conn_at n1 i = ?c" using assms(2) d(2) by (simp_all add: n1 upd_conn_def conn_at_def)
  have t: "k < length (nd_threads n1)" "nd_threads n1 ! k = \<lparr>pt_slot = i, pt_fd = cn_fd (conn_at n i), pt_phase = PeerRecv\<rparr>"
    using assms(5,6) d(3) by (simp_all add: n1 nth_append)
  have rx: "so_rx (sock_of n1 (cn_fd (conn_at n i))) = RxClosed # rest" using assms(10) by (simp add: n1_def n0_def)
  have fd: "cn_fd ?c = fd" "cn_in_use ?c" by (simp_all add: zero_conn_def)
  from turn_failed [OF t rx _ i(1), of stale] i(2) fd assms(8) show ?thesis
    by (simp add: n0_def [symmetric] n1_def [symmetric] Let_def)
qed

text \<open>
  An error while waiting for a frame ends the connection, whatever the error: the socket is closed,
  the connection is free and the routes over this peer are removed. A receive timeout is such an error.
\<close>

theorem receive_error_ends_connection:
  assumes "conns_ok n" and "i < length (nd_conns n)" and "cn_connected (conn_at n i)"
    and "k < length (nd_threads n)" and "nd_threads n ! k = \<lparr>pt_slot = i, pt_fd = fd, pt_phase = PeerRecv\<rparr>"
    and "so_rx (sock_of n fd) = RxError e # rest"
  shows "let n' = thread_step stale k n in so_closed (sock_of n' (cn_fd (conn_at n i))) \<and> \<not> cn_in_use (conn_at n' i) \<and>
    nd_router n' = p2p_router_remove_node (cn_node_id (conn_at n i)) (nd_router n) \<and>
    pt_phase (nd_threads n' ! k) = PeerEnded"
proof -
  have "0 \<le> cn_fd (conn_at n i)" using slot_fd [OF assms(1-3)] by simp
  note f = turn_failed [OF assms(4,5,6) _ assms(2) this]
  have "keys_unique cn_connected cn_node_id (nd_conns n)" using assms(1) by (simp add: conns_ok_def)
  then have "\<not> conn_is (cn_node_id (conn_at n i)) (conn_at (drop_conn i n) j)" if "j < length (nd_conns n)" for j
    using that assms(2,3) by (auto simp: conn_is_def conn_at_def drop_conn_fields nth_upd_nth dest: keys_uniqueD)
  then have "nd_router (close_conn i n) = p2p_router_remove_node (cn_node_id (conn_at n i)) (nd_router n)"
    using assms(3) by (simp add: close_conn_def Let_def conn_exists_def drop_conn_fields)
  then show ?thesis using f by (simp add: Let_def)
qed

subsection \<open>Examples\<close>

definition linked_node :: "byte \<Rightarrow> p2p_conn list \<Rightarrow> (int \<Rightarrow> sock) \<Rightarrow> node" where
  "linked_node k cs socks =
     (let m = \<lparr>ms_broker = static_broker 1 2 socks, ms_clients = [], ms_admission_limit = 1\<rparr>;
          cfg = \<lparr>ec_static_seeds_only = False, ec_router_count = 1, ec_mqtt_port = 1883, ec_p2p_port = 4884\<rparr>;
          n = static_node m cfg 2 1
      in n\<lparr>nd_conns := cs, nd_slots := map slot_for cs, nd_election := (nd_election n)\<lparr>el_self_id := example_id k\<rparr>\<rparr>)"

definition example_conn :: "byte \<Rightarrow> int \<Rightarrow> p2p_role \<Rightarrow> p2p_conn" where
  "example_conn k fd r = zero_conn\<lparr>cn_fd := fd, cn_in_use := True, cn_connected := True, cn_node_id := example_id k,
     cn_role := role_byte r\<rparr>"

lemma linked_node_fields [simp]:
  "nd_conns (linked_node k cs socks) = cs" "nd_slots (linked_node k cs socks) = map slot_for cs"
  "el_self_id (nd_election (linked_node k cs socks)) = example_id k" "sock_of (linked_node k cs socks) = socks"
  "nd_router (linked_node k cs socks) = static_router 2 1" "conn_at (linked_node k cs socks) i = cs ! i"
  "nd_seen (linked_node k cs socks) = replicate 128 \<lparr>sn_origin_id = id_zero, sn_seq = 0\<rparr>"
  "nd_broker (linked_node k cs socks) = static_broker 1 2 socks"
  by (simp_all add: linked_node_def Let_def static_node_def sock_of_def nd_broker_def conn_at_def static_broker_def fun_eq_iff)

lemma example_conn_fields [simp]:
  "cn_fd (example_conn k fd r) = fd" "cn_in_use (example_conn k fd r)" "cn_connected (example_conn k fd r)"
  "cn_node_id (example_conn k fd r) = example_id k" "cn_role (example_conn k fd r) = role_byte r"
  by (simp_all add: example_conn_def)

lemma example_accepting:
  assumes "0 \<le> fd" and "accepting (socks fd)"
  shows "peers_accepting (linked_node k [example_conn l fd r] socks)"
  using assms by (simp add: peers_accepting_def conns_ok_def keys_unique_def peer_conn_ok_def slot_for_def)
    (simp add: linked_node_def Let_def static_node_def)

lemma example_unseen: "example_id k \<noteq> id_zero \<Longrightarrow> pm_origin_id msg = example_id k \<Longrightarrow>
    \<not> fst (seen_before msg (nd_seen (linked_node j cs socks)))"
proof -
  assume a: "example_id k \<noteq> id_zero" "pm_origin_id msg = example_id k"
  have "seen_idx 128 msg < 128" by (rule seen_idx_less) simp_all
  then show ?thesis using a by (simp add: seen_before_eq seen_entry_def)
qed

lemma example_id_zero [simp]: "example_id k = id_zero \<longleftrightarrow> k = 0"
  by (simp add: example_id_def id_zero_def numeral_eq_Suc)

lemma letter_fields [simp]: "pub_payload (letter_a q) = []" "pub_qos (letter_a q) = q"
  by (simp_all add: letter_a_def zero_publish_def)

lemma letter_filter: "filter_ok [97]"
  by (simp add: filter_ok_def cstr_ok_def topic_filter_valid_def)

lemma frame_incoming: "incoming (peer_frame t p @ []) [] (quiet_sock\<lparr>so_rx := [RxData (peer_frame t p)]\<rparr>)"
  unfolding incoming_def by (rule exI [of _ "[peer_frame t p]"]) (simp add: peer_frame_def p2p_hdr_def)

lemma unlinked_publish:
  assumes "nd_slots n = []"
  shows "sock_of (p2p_publish_from_local pub n) = sock_of n"
proof -
  have to_node: "send_to_node t p node m = (False, m)" if "nd_slots m = []" for t p node m
    using that by (simp add: send_to_node_def find_send_slot_def)
  then have count: "send_count (send_to_node t p) ts k m = (k, m)" if "nd_slots m = []" for t p ts k m
    using that by (induction ts arbitrary: k) simp_all
  have same: "sock_of m' = sock_of m" if "nd_mesh m' = nd_mesh m" for m m' using that by (simp add: sock_of_def nd_broker_def fun_eq_iff)
  show ?thesis
    by (rule same) (use assms in \<open>simp add: p2p_publish_from_local_def publish_by_routes_def p2p_send_publish_from_router_prebuilt_def
      flood_publish_to_connected_peers_def pending_qos_store_def prebuilt_send to_node count Let_def case_prod_beta split: option.split\<close>)
qed




theorem publish_received_witness:
  "let b = linked_node 2 [] (\<lambda>_. quiet_sock);
     bytes = peer_frame P2P_PUBLISH (publish_bytes (local_publish_msg b [97] (letter_a 1)));
     a = linked_node 1 [example_conn 2 8 P2P_ROLE_LEAF] (\<lambda>_. quiet_sock\<lparr>so_rx := [RxData bytes]\<rparr>);
     pub' = (letter_a 1)\<lparr>pub_packet_id := 0\<rparr>
   in \<exists>n a2. a2 = node_op (\<lambda>m. broker_mesh_ingress_publish_remote (\<lambda>_. pub') (on_broker (topic_publish_remote pub') m)) n \<and>
     sends a2 (snd (peer_turn [] 0 8 a))"
proof -
  define b where "b = linked_node 2 [] (\<lambda>_. quiet_sock)"
  define bytes where "bytes = peer_frame P2P_PUBLISH (publish_bytes (local_publish_msg b [97] (letter_a 1)))"
  define a where "a = linked_node 1 [example_conn 2 8 P2P_ROLE_LEAF] (\<lambda>_. quiet_sock\<lparr>so_rx := [RxData bytes]\<rparr>)"
  have "incoming (bytes @ []) [] (sock_of a 8)"
    by (simp only: a_def linked_node_fields bytes_def frame_incoming)
  moreover have "\<not> fst (seen_before (local_publish_msg b [97] (letter_a 1)) (nd_seen a))"
    unfolding a_def by (rule example_unseen [of 2]) (simp_all add: local_publish_msg_def p2p_election_self_id_def b_def)
  moreover have "id_ok (el_self_id (nd_election b))" by (simp add: b_def)
  moreover have "(letter_a 1)\<lparr>pub_dup := 0, pub_packet_id := 0\<rparr> = (letter_a 1)\<lparr>pub_packet_id := 0\<rparr>"
    by (simp add: letter_a_def zero_publish_def)
  ultimately show ?thesis
    using publish_received [of "letter_a 1" b 8 "[]" "[]" a "[]" 0, unfolded letter_a_ok(3) letter_fields] letter_filter
    unfolding Let_def a_def [symmetric] b_def [symmetric] bytes_def [symmetric] by fastforce
qed


theorem duplicate_dropped_witness:
  "let n = linked_node 1 [example_conn 2 8 P2P_ROLE_LEAF] (\<lambda>_. quiet_sock);
     msg = local_publish_msg (linked_node 2 [] (\<lambda>_. quiet_sock)) [97] (letter_a 1);
     n' = peer_handle_publish 0 msg (peer_handle_publish 0 msg n)
   in peer_handle_publish 0 msg n' = n'"
proof -
  define n where "n = linked_node 1 [example_conn 2 8 P2P_ROLE_LEAF] (\<lambda>_. quiet_sock)"
  define msg where "msg = local_publish_msg (linked_node 2 [] (\<lambda>_. quiet_sock)) [97] (letter_a 1)"
  have "length (nd_seen n) = 128" by (simp add: n_def)
  then show ?thesis
    using duplicate_dropped [of n "[(0, msg)]" msg 0 0] unfolding Let_def n_def [symmetric] msg_def [symmetric] by simp
qed

theorem own_message_repeated_witness:
  "let bytes = peer_frame P2P_PUBLISH (publish_bytes (local_publish_msg (linked_node 1 [] (\<lambda>_. quiet_sock)) [97] (letter_a 1)));
     n = linked_node 1 [] (\<lambda>_. quiet_sock\<lparr>so_rx := [RxData bytes]\<rparr>);
     pub' = (letter_a 1)\<lparr>pub_packet_id := 0\<rparr>
   in \<exists>m n2. n2 = node_op (\<lambda>m. broker_mesh_ingress_publish_remote (\<lambda>_. pub') (on_broker (topic_publish_remote pub') m)) m \<and>
     sends n2 (snd (peer_turn [] 0 8 (p2p_publish_from_local (letter_a 1) n)))"
proof -
  let ?msg = "local_publish_msg (linked_node 1 [] (\<lambda>_. quiet_sock)) [97] (letter_a 1)"
  define bytes where "bytes = peer_frame P2P_PUBLISH (publish_bytes ?msg)"
  define n where "n = linked_node 1 [] (\<lambda>_. quiet_sock\<lparr>so_rx := [RxData bytes]\<rparr>)"
  have msg: "local_publish_msg n [97] (letter_a 1) = ?msg"
    by (simp add: local_publish_msg_def p2p_election_self_id_def n_def) (simp add: linked_node_def Let_def static_node_def)
  have "incoming (bytes @ []) [] (sock_of (p2p_publish_from_local (letter_a 1) n) 8)"
    by (subst unlinked_publish) (simp_all only: n_def linked_node_fields bytes_def frame_incoming list.map)
  moreover have "\<not> fst (seen_before ?msg (nd_seen n))"
    unfolding n_def by (rule example_unseen [of 1]) (simp_all add: local_publish_msg_def p2p_election_self_id_def)
  moreover have "id_ok (el_self_id (nd_election n))" by (simp add: n_def)
  moreover have "(letter_a 1)\<lparr>pub_dup := 0, pub_packet_id := 0\<rparr> = (letter_a 1)\<lparr>pub_packet_id := 0\<rparr>"
    by (simp add: letter_a_def zero_publish_def)
  ultimately show ?thesis
    using own_message_repeated [of "letter_a 1" n 8 "[]" "[]" "[]" 0, unfolded letter_a_ok(3) letter_fields msg, folded bytes_def] letter_filter
    unfolding Let_def n_def [symmetric] bytes_def [symmetric] by fastforce
qed

end
