(* ===== verification/P2P_Connect_Properties.thy ===== *)
theory P2P_Connect_Properties
  imports P2P_Transport_Properties
begin

text \<open>
  Who a node connects to and when, what it tells a peer that has connected, and what becomes of the
  messages that wait for a route.
\<close>

subsection \<open>Static seeds\<close>

lemma next_delay_doubles:
  "unat (next_retry_delay False 0) = 3000"
  "3000 \<le> unat d \<Longrightarrow> unat d \<le> 30000 \<Longrightarrow> unat (next_retry_delay False d) = min 30000 (2 * unat d)"
  by (auto simp: next_retry_delay_def Let_def word_less_nat_alt unat_word_ariths)

lemma jitter_less: "uint (seed_retry_jitter_ms addr port) < 1000"
proof -
  have "unat (h mod 1000 :: u32) < 1000" for h by (simp add: unat_mod)
  then have "unat (seed_retry_jitter_ms addr port) < 1000" by (simp only: seed_retry_jitter_ms_def Let_def)
  then show ?thesis by (metis of_nat_less_iff of_nat_numeral uint_nat)
qed

lemma mark_seed:
  fixes now :: int and ok :: bool
  assumes "slot_of sd_in_use seed_key (addr, port) seeds = Some i"
  defines "seeds' \<equiv> static_seed_mark_result now addr port ok seeds"
  shows "slot_of sd_in_use seed_key (addr, port) seeds' = Some i"
    and "sd_retry_delay_ms (seeds' ! i) = next_retry_delay ok (sd_retry_delay_ms (seeds ! i))"
    and "sd_next_attempt_ms (seeds' ! i) = now + uint (sd_retry_delay_ms (seeds' ! i)) + uint (seed_retry_jitter_ms addr port)"
    and "length seeds' = length seeds" and "j \<noteq> i \<Longrightarrow> seeds' ! j = seeds ! j"
proof -
  have i: "i < length seeds" using assms(1) by (auto simp: slot_of_def dest: find_idx_SomeD)
  have eq: "seeds' = upd_nth i (\<lambda>s. let delay = next_retry_delay ok (sd_retry_delay_ms s)
      in s\<lparr>sd_retry_delay_ms := delay, sd_next_attempt_ms := now + uint delay + uint (seed_retry_jitter_ms addr port)\<rparr>) seeds"
    using assms(1) by (simp add: seeds'_def static_seed_mark_result_def)
  show "sd_retry_delay_ms (seeds' ! i) = next_retry_delay ok (sd_retry_delay_ms (seeds ! i))"
    "sd_next_attempt_ms (seeds' ! i) = now + uint (sd_retry_delay_ms (seeds' ! i)) + uint (seed_retry_jitter_ms addr port)"
    "length seeds' = length seeds" "j \<noteq> i \<Longrightarrow> seeds' ! j = seeds ! j"
    using i by (simp_all add: eq Let_def)
  have "(sd_in_use (seeds' ! j) \<and> seed_key (seeds' ! j) = (addr, port)) = (sd_in_use (seeds ! j) \<and> seed_key (seeds ! j) = (addr, port))"
    if "j < length seeds" for j
    using that by (simp add: eq nth_upd_nth Let_def seed_key_def)
  then show "slot_of sd_in_use seed_key (addr, port) seeds' = Some i"
    using assms(1) i by (simp add: slot_of_def find_idx_Some) (simp add: eq)
qed

text \<open>
  When a seed is tried again. After \<open>k\<close> failed attempts in a row to reach a seed that is new, the
  node waits \<open>3000 * 2 ^ (k - 1)\<close> milliseconds, but never more than half a minute, and less than one
  second on top that depends only on the address; the other seeds are not affected, and a success
  brings the wait back to three seconds.
\<close>

theorem seed_backoff:
  assumes "slot_of sd_in_use seed_key (addr, port) seeds = Some i" and "sd_retry_delay_ms (seeds ! i) = 0" and "tries \<noteq> []"
  shows "let seeds' = fold (\<lambda>now. static_seed_mark_result now addr port False) tries seeds; s = seeds' ! i;
      seeds'' = static_seed_mark_result now addr port True seeds' in
    unat (sd_retry_delay_ms s) = min 30000 (3000 * 2 ^ (length tries - 1)) \<and>
    last tries + uint (sd_retry_delay_ms s) \<le> sd_next_attempt_ms s \<and>
    sd_next_attempt_ms s < last tries + uint (sd_retry_delay_ms s) + 1000 \<and>
    (\<forall>j < length seeds. j \<noteq> i \<longrightarrow> seeds' ! j = seeds ! j) \<and>
    sd_retry_delay_ms (seeds'' ! i) = 3000"
proof -
  let ?f = "fold (\<lambda>now. static_seed_mark_result now addr port False)"
  have all: "slot_of sd_in_use seed_key (addr, port) (?f tries seeds) = Some i \<and>
      unat (sd_retry_delay_ms (?f tries seeds ! i)) = min 30000 (3000 * 2 ^ (length tries - 1)) \<and>
      sd_next_attempt_ms (?f tries seeds ! i) = last tries + uint (sd_retry_delay_ms (?f tries seeds ! i)) + uint (seed_retry_jitter_ms addr port) \<and>
      (\<forall>j < length seeds. j \<noteq> i \<longrightarrow> ?f tries seeds ! j = seeds ! j)"
    using assms(3)
  proof (induction tries rule: rev_nonempty_induct)
    case (single t)
    then show ?case using mark_seed [OF assms(1), where now = t and ok = False] next_delay_doubles(1) assms(2) by simp
  next
    case (snoc t ts)
    let ?s = "?f ts seeds"
    have IH: "slot_of sd_in_use seed_key (addr, port) ?s = Some i" "unat (sd_retry_delay_ms (?s ! i)) = min 30000 (3000 * 2 ^ (length ts - 1))"
      "\<forall>j < length seeds. j \<noteq> i \<longrightarrow> ?s ! j = seeds ! j" using snoc.IH by simp_all
    have "(1 :: nat) \<le> 2 ^ (length ts - 1)" by simp
    then have "unat (next_retry_delay False (sd_retry_delay_ms (?s ! i))) = min 30000 (2 * unat (sd_retry_delay_ms (?s ! i)))"
      using IH(2) by (intro next_delay_doubles(2)) simp_all
    also have "\<dots> = min 30000 (3000 * 2 ^ length ts)"
      using IH(2) snoc.hyps by (cases ts) (simp_all add: min_def)
    finally show ?case using mark_seed [OF IH(1), where now = t and ok = False] IH(3) by simp
  qed
  have "next_retry_delay True d = 3000" for d by (simp add: next_retry_delay_def)
  then show ?thesis
    using all mark_seed(2) [where seeds = "?f tries seeds" and i = i and ok = True and now = now and addr = addr and port = port] jitter_less [of addr port]
    by (simp add: Let_def)
qed

subsection \<open>The order in which peers are dialled\<close>

text \<open>The contract of a comparison the sort can rely on, on the values it is used for.\<close>

locale comparison =
  fixes ok :: "'a \<Rightarrow> bool" and beats :: "'a \<Rightarrow> 'a \<Rightarrow> bool"
  assumes not_beats_trans: "ok a \<Longrightarrow> ok b \<Longrightarrow> ok c \<Longrightarrow> \<not> beats a b \<Longrightarrow> \<not> beats b c \<Longrightarrow> \<not> beats a c"
    and beats_asym: "ok a \<Longrightarrow> ok b \<Longrightarrow> beats a b \<Longrightarrow> \<not> beats b a"
begin

lemma best_index_spec:
  assumes "\<forall>x \<in> set xs. ok x" and "best < length xs" and "\<forall>j \<in> set js. j < length xs"
  shows "best_index beats xs best js \<in> insert best (set js) \<and> (\<forall>j \<in> insert best (set js). \<not> beats (xs ! j) (xs ! best_index beats xs best js))"
  using assms(2,3)
proof (induction js arbitrary: best)
  case (Cons j js)
  have okn: "ok (xs ! k)" if "k < length xs" for k using assms(1) that by simp
  define b where "b = (if beats (xs ! j) (xs ! best) then j else best)"
  define r where "r = best_index beats xs b js"
  have b: "b = j \<or> b = best" by (simp add: b_def)
  have lt: "best < length xs" "j < length xs" "b < length xs" using Cons.prems b by auto
  have ih: "r \<in> insert b (set js)" "\<forall>k \<in> insert b (set js). \<not> beats (xs ! k) (xs ! r)"
    using Cons.IH [of b] Cons.prems lt(3) unfolding r_def by simp_all
  have r: "r < length xs" using ih(1) Cons.prems lt(3) by auto
  note o = okn [OF lt(1)] okn [OF lt(2)] okn [OF lt(3)] okn [OF r]
  have "\<not> beats (xs ! best) (xs ! b)" "\<not> beats (xs ! j) (xs ! b)"
    using beats_asym [OF o(2,1)] beats_asym [OF o(1,1)] beats_asym [OF o(2,2)] by (auto simp: b_def)
  moreover have "\<not> beats (xs ! b) (xs ! r)" using ih(2) by simp
  ultimately have "\<not> beats (xs ! best) (xs ! r)" "\<not> beats (xs ! j) (xs ! r)"
    using not_beats_trans [OF o(1,3,4)] not_beats_trans [OF o(2,3,4)] by blast+
  moreover have "best_index beats xs best (j # js) = r" by (simp add: r_def b_def)
  ultimately show ?case using ih b by auto
next
  case Nil
  then have "ok (xs ! best)" using assms(1) by simp
  then have "\<not> beats (xs ! best) (xs ! best)" using beats_asym by blast
  then show ?case by simp
qed

lemma selection_sort_spec:
  assumes "\<forall>x \<in> set xs. ok x"
    and "sorted_wrt (\<lambda>a b. \<not> beats b a) (take i xs)" and "\<forall>a \<in> set (take i xs). \<forall>b \<in> set (drop i xs). \<not> beats b a"
  shows "mset (selection_sort beats i xs) = mset xs \<and> sorted_wrt (\<lambda>a b. \<not> beats b a) (selection_sort beats i xs)"
  using assms
proof (induction "length xs - i" arbitrary: i xs)
  case 0
  then show ?case by (simp add: selection_sort.simps)
next
  case (Suc d)
  then have i: "i < length xs" by simp
  define best where "best = best_index beats xs i [i + 1..<length xs]"
  have b: "i \<le> best" "best < length xs" "\<And>j. i \<le> j \<Longrightarrow> j < length xs \<Longrightarrow> \<not> beats (xs ! j) (xs ! best)"
    using best_index_spec [OF Suc.prems(1) i, of "[i + 1..<length xs]"] i
    unfolding best_def [symmetric] by (auto simp: Suc_le_eq)
  define ys where "ys = xs[i := xs ! best, best := xs ! i]"
  have ys: "(if best \<noteq> i then xs[i := xs ! best, best := xs ! i] else xs) = ys" by (simp add: ys_def)
  have m: "mset ys = mset xs" using mset_swap [of best xs i] i b(2) by (simp add: ys_def)
  have t: "take i ys = take i xs" "ys ! i = xs ! best" "length ys = length xs"
    using i b(1,2) by (auto simp: ys_def nth_list_update)
  have okys: "\<forall>x \<in> set ys. ok x" using Suc.prems(1) mset_eq_setD [OF m] by simp
  have "mset (drop i ys) = mset (drop i xs)"
    using m t(1) append_take_drop_id [of i ys] append_take_drop_id [of i xs] by (metis add_left_cancel mset_append)
  then have dr: "set (drop i ys) = set (drop i xs)" by (rule mset_eq_setD)
  have split: "take (Suc i) ys = take i xs @ [xs ! best]" using t i by (simp add: take_Suc_conv_app_nth)
  have least: "\<not> beats c (xs ! best)" if "c \<in> set (drop i xs)" for c
    using that b(3) by (auto simp: in_set_conv_nth)
  have "xs ! best \<in> set (drop i xs)" using b(1,2) by (auto simp: in_set_conv_nth intro!: exI [of _ "best - i"])
  then have "sorted_wrt (\<lambda>a b. \<not> beats b a) (take (Suc i) ys)"
    using Suc.prems split by (simp add: sorted_wrt_append)
  moreover have "\<forall>a \<in> set (take (Suc i) ys). \<forall>c \<in> set (drop (Suc i) ys). \<not> beats c a"
  proof (intro ballI)
    fix a c
    assume a: "a \<in> set (take (Suc i) ys)" and c: "c \<in> set (drop (Suc i) ys)"
    have "c \<in> set (drop i ys)" using c set_drop_subset_set_drop [of i "Suc i" ys] by auto
    then have "c \<in> set (drop i xs)" using dr by simp
    then show "\<not> beats c a" using a split Suc.prems(3) least by auto
  qed
  moreover have "d = length ys - Suc i" using Suc.hyps(2) t(3) by simp
  ultimately have "mset (selection_sort beats (i + 1) ys) = mset ys \<and> sorted_wrt (\<lambda>a b. \<not> beats b a) (selection_sort beats (i + 1) ys)"
    using Suc.hyps(1) [of ys "Suc i"] okys by simp
  moreover have "selection_sort beats i xs = selection_sort beats (i + 1) ys"
    by (subst selection_sort.simps) (simp only: i if_True Let_def best_def [symmetric] ys)
  ultimately show ?case using m by simp
qed

end

interpretation dial: comparison "\<lambda>x. id_ok (ps_node_id (snd x))" better
proof
  fix a b c :: "int \<times> peer_score"
  assume ok: "id_ok (ps_node_id (snd a))" "id_ok (ps_node_id (snd b))"
  show "better a b \<Longrightarrow> \<not> better b a"
    unfolding better_def id_cmp_less(1) [OF ok] id_cmp_less(1) [OF ok(2,1)] by auto
  assume c: "id_ok (ps_node_id (snd c))"
  show "\<not> better a b \<Longrightarrow> \<not> better b c \<Longrightarrow> \<not> better a c"
    unfolding better_def id_cmp_less(1) [OF ok] id_cmp_less(1) [OF ok(2) c] id_cmp_less(1) [OF ok(1) c] by auto
qed

text \<open>
  The peers a node dials, in order. The candidates are the routers it knows of, without itself and
  those it has a connection to; sorting them loses none, and each comes before those with a smaller
  priority or the same priority and a larger id.
\<close>

theorem candidates_in_order:
  assumes "\<forall>p \<in> set peers. id_ok (ps_node_id p)"
  shows "let self = p2p_election_self_id (nd_election n); cands = map (\<lambda>p. (peer_priority self p, p)) (connect_candidates peers n);
      order = map snd (selection_sort better 0 cands) in
    mset order = {#p \<in># mset peers. ps_role p = role_byte P2P_ROLE_ROUTER \<and> ps_node_id p \<noteq> self \<and> \<not> conn_exists (ps_node_id p) None n#} \<and>
    sorted_wrt (\<lambda>p q. peer_priority self p > peer_priority self q \<or>
      peer_priority self p = peer_priority self q \<and> ps_node_id p \<le> ps_node_id q) order"
proof -
  let ?self = "p2p_election_self_id (nd_election n)"
  define cands where "cands = map (\<lambda>p. (peer_priority ?self p, p)) (connect_candidates peers n)"
  have ok: "\<forall>x \<in> set cands. id_ok (ps_node_id (snd x)) \<and> fst x = peer_priority ?self (snd x)"
    using assms by (auto simp: cands_def connect_candidates_def)
  have s: "mset (selection_sort better 0 cands) = mset cands" "sorted_wrt (\<lambda>a b. \<not> better b a) (selection_sort better 0 cands)"
    using dial.selection_sort_spec [of cands 0] ok by simp_all
  have "mset (map snd (selection_sort better 0 cands)) = mset (map snd cands)" using s(1) by (metis mset_map)
  then have "mset (map snd (selection_sort better 0 cands)) = mset (connect_candidates peers n)" by (simp add: cands_def comp_def)
  moreover have "sorted_wrt (\<lambda>a b. peer_priority ?self (snd a) > peer_priority ?self (snd b) \<or>
      peer_priority ?self (snd a) = peer_priority ?self (snd b) \<and> ps_node_id (snd a) \<le> ps_node_id (snd b)) (selection_sort better 0 cands)"
  proof (rule sorted_wrt_mono_rel [OF _ s(2)])
    fix a b
    assume "a \<in> set (selection_sort better 0 cands)" "b \<in> set (selection_sort better 0 cands)" and nb: "\<not> better b a"
    then have "id_ok (ps_node_id (snd a))" "id_ok (ps_node_id (snd b))"
      "fst a = peer_priority ?self (snd a)" "fst b = peer_priority ?self (snd b)" using ok mset_eq_setD [OF s(1)] by auto
    then show "peer_priority ?self (snd a) > peer_priority ?self (snd b) \<or>
        peer_priority ?self (snd a) = peer_priority ?self (snd b) \<and> ps_node_id (snd a) \<le> ps_node_id (snd b)"
      using nb id_cmp_less(1) [of "ps_node_id (snd b)" "ps_node_id (snd a)"] by (auto simp: better_def)
  qed
  ultimately show ?thesis
    unfolding Let_def cands_def [symmetric] by (simp add: connect_candidates_def sorted_wrt_map mset_filter)
qed

subsection \<open>What a new peer is told\<close>

lemma sub_pages_all:
  "cur \<le> length (bk_subs b) \<Longrightarrow> concat (sub_pages b cur) = map (snapshot_of b) (filter sub_in_use (drop cur (bk_subs b))) \<and>
    concat (takeWhile (\<lambda>page. page \<noteq> []) (sub_pages b cur)) = concat (sub_pages b cur)"
proof (induction b cur rule: sub_pages.induct)
  case (1 b cur)
  show ?case
  proof (cases "cur < length (bk_subs b)")
    case True
    obtain page cur' where p: "topic_get_sub_snapshots_from b 8 cur = (page, cur')" by force
    then have l: "snapshots_loop b 8 cur cur [] = (page, cur')" by (simp add: topic_get_sub_snapshots_from_def)
    note f = snapshots_loop_pages [OF l 1(2)]
    have ih: "concat (sub_pages b cur') = map (snapshot_of b) (filter sub_in_use (drop cur' (bk_subs b)))"
      "concat (takeWhile (\<lambda>page. page \<noteq> []) (sub_pages b cur')) = concat (sub_pages b cur')"
      using 1(1) [OF True p [symmetric] refl] f by simp_all
    have eq: "sub_pages b cur = page # sub_pages b cur'" using True p by (simp add: sub_pages.simps [of b cur])
    have "page = [] \<Longrightarrow> sub_pages b cur' = []"
      using snapshots_short [OF l _ 1(2)] by (subst sub_pages.simps) simp
    then show ?thesis using ih f by (cases "page = []") (simp_all add: eq)
  qed (simp add: sub_pages.simps [of b cur])
qed

definition sub_frame :: "node \<Rightarrow> cstr \<Rightarrow> byte \<Rightarrow> byte list" where
  "sub_frame n f q = peer_frame P2P_SUB_NOTIFY (sub_msg_bytes (local_sub_msg n f q))"

lemma advertise_fold:
  assumes "conns_ok n" and "i < length (nd_conns n)" and "cn_connected (conn_at n i)"
    and "accepting (sock_of n (cn_fd (conn_at n i)))" and "id_ok (el_self_id (nd_election n))" and "\<forall>s \<in> set ss. filter_ok (ss_filter s)"
  shows "so_sent (sock_of (fold (\<lambda>s n. snd (send_frame_to_slot i P2P_SUB_NOTIFY
      (sub_msg_bytes (local_sub_msg n (strncpy_str MQTT_TOPIC_MAX (ss_filter s)) (ss_qos s))) n)) ss n) (cn_fd (conn_at n i))) =
    so_sent (sock_of n (cn_fd (conn_at n i))) @ concat (map (\<lambda>s. sub_frame n (ss_filter s) (ss_qos s)) ss)"
  using assms
proof (induction ss arbitrary: n)
  case (Cons s ss)
  let ?fd = "cn_fd (conn_at n i)" and ?msg = "local_sub_msg n (ss_filter s) (ss_qos s)"
  have f: "filter_ok (ss_filter s)" "strncpy_str MQTT_TOPIC_MAX (ss_filter s) = ss_filter s"
    using Cons.prems(6) by (simp_all add: filter_ok_def)
  have "sub_msg_ok ?msg" using f(1) Cons.prems(5) by (simp add: sub_msg_ok_def local_sub_msg_def p2p_election_self_id_def)
  then have len: "length (sub_msg_bytes ?msg) \<le> P2P_PUBLISH_FRAME_MAX" using sub_msg_roundtrip(2) by simp
  define n1 where "n1 = snd (send_frame_to_slot i P2P_SUB_NOTIFY (sub_msg_bytes ?msg) n)"
  have n1: "n1 = on_sock ?fd (\<lambda>_. (sock_of n ?fd)\<lparr>so_sent := so_sent (sock_of n ?fd) @ sub_frame n (ss_filter s) (ss_qos s)\<rparr>) n"
    using slot_fd [OF Cons.prems(1-3)] p2p_send_frame_accepting [OF Cons.prems(4) len, of P2P_SUB_NOTIFY]
    by (simp add: n1_def send_frame_to_slot_def send_on_fd_def sock_of_def sub_frame_def)
  have s1: "sends n n1" unfolding n1_def by (rule sends_to_slot)
  have ih: "conns_ok n1" "nd_conns n1 = nd_conns n" "conn_at n1 i = conn_at n i" "el_self_id (nd_election n1) = el_self_id (nd_election n)"
    "local_sub_msg n1 = local_sub_msg n" "accepting (sock_of n1 ?fd)"
    using conns_ok_sends [OF s1 Cons.prems(1)] sendsD [OF s1] Cons.prems(4) n1
    by (simp_all add: local_sub_msg_def p2p_election_self_id_def accepting_def fun_eq_iff)
  have "sub_frame n1 = sub_frame n" using ih(5) by (simp add: sub_frame_def fun_eq_iff)
  then show ?case
    using Cons.IH [of n1] Cons.prems ih n1 f(2) by (simp add: n1_def [symmetric])
qed simp

text \<open>
  C29: what a router is told when its connection is up. It is sent one message for every subscription
  in the table of the broker, in the order of the table, with the id of this node, the filter and the
  QoS of the subscription: the loop over the pages of the table ends, skips none and repeats none.
\<close>

theorem new_peer_told_all:
  assumes "conns_ok n" and "i < length (nd_conns n)" and "cn_connected (conn_at n i)"
    and "cn_role (conn_at n i) = role_byte P2P_ROLE_ROUTER" and "accepting (sock_of n (cn_fd (conn_at n i)))"
    and "id_ok (el_self_id (nd_election n))" and "\<forall>e \<in> set (bk_subs (nd_broker n)). sub_in_use e \<longrightarrow> filter_ok (sub_filter e)"
  shows "so_sent (sock_of (advertise_local_subs_to i n) (cn_fd (conn_at n i))) =
    so_sent (sock_of n (cn_fd (conn_at n i))) @
      concat (map (\<lambda>e. sub_frame n (sub_filter e) (sub_qos e)) (filter sub_in_use (bk_subs (nd_broker n))))"
proof -
  let ?ss = "concat (sub_pages (nd_broker n) 0)" and ?es = "filter sub_in_use (bk_subs (nd_broker n))"
  have ss: "?ss = map (snapshot_of (nd_broker n)) ?es" using sub_pages_all [of 0 "nd_broker n"] by simp
  have f: "ss_filter (snapshot_of (nd_broker n) e) = sub_filter e \<and> ss_qos (snapshot_of (nd_broker n) e) = sub_qos e \<and> filter_ok (sub_filter e)"
    if "e \<in> set ?es" for e
    using that assms(7) by (simp add: snapshot_of_def filter_ok_def)
  then have "\<forall>s \<in> set ?ss. filter_ok (ss_filter s)" by (auto simp: ss)
  note a = advertise_fold [OF assms(1-3,5,6) this]
  have "map (\<lambda>s. sub_frame n (ss_filter s) (ss_qos s)) ?ss = map (\<lambda>e. sub_frame n (sub_filter e) (sub_qos e)) ?es"
    unfolding ss map_map comp_def using f by (intro map_cong refl) simp
  then show ?thesis using a assms(4) by (simp add: advertise_local_subs_to_def)
qed

text \<open>
  The filters of the clients of the mesh ingress are left out. Whatever they have subscribed to,
  when the table of the broker is empty a new peer is told nothing, and neither are the others when
  the subscriptions are announced again.
\<close>

theorem mesh_filters_not_advertised:
  assumes "\<forall>e \<in> set (bk_subs (nd_broker n)). \<not> sub_in_use e"
  shows "advertise_local_subs_to i n = n \<and> p2p_resync_local_subscriptions n = n"
proof -
  have "filter sub_in_use (bk_subs (nd_broker n)) = []" using assms by (simp add: filter_empty_conv)
  then have "concat (sub_pages (nd_broker n) 0) = []" "concat (takeWhile (\<lambda>page. page \<noteq> []) (sub_pages (nd_broker n) 0)) = []"
    using sub_pages_all [of 0 "nd_broker n"] by simp_all
  then show ?thesis by (simp only: advertise_local_subs_to_def p2p_resync_local_subscriptions_def fold_simps) simp
qed

subsection \<open>Messages that wait for a route\<close>

definition reached :: "node \<Rightarrow> pending_publish \<Rightarrow> node_id set" where
  "reached n p = set (p2p_router_find_next_hops (pm_topic (pq_msg p)) None P2P_PEER_MAX (nd_router n)) \<inter> connected_ids n"

lemma flush_one_accepting:
  assumes "peers_accepting n" and "length (pq_frame p) \<le> P2P_PUBLISH_FRAME_MAX"
  shows "delivered (reached n p) (peer_frame P2P_PUBLISH (pq_frame p)) n (flush_one (p, i) n)"
    and "nd_pending (flush_one (p, i) n) = (if reached n p \<noteq> {} then upd_nth i (\<lambda>p. p\<lparr>pq_in_use := False\<rparr>) (nd_pending n) else nd_pending n)"
proof -
  obtain sent rts m where r: "p2p_send_publish_from_router_prebuilt (pq_msg p) (pq_frame p) None n = (sent, rts, m)" by (metis prod_cases3)
  note f = from_router_accepting [OF assms r, folded reached_def]
  have "finite (reached n p)" by (simp add: reached_def)
  then have c: "0 < rts \<and> 0 < sent \<longleftrightarrow> reached n p \<noteq> {}" using f(1,2) by (auto simp: reached_def card_gt_0_iff)
  have eq: "flush_one (p, i) n = (if reached n p \<noteq> {} then m\<lparr>nd_pending := upd_nth i (\<lambda>p. p\<lparr>pq_in_use := False\<rparr>) (nd_pending m)\<rparr> else m)"
    using r c by (simp add: flush_one_def)
  have "delivered (reached n p) (peer_frame P2P_PUBLISH (pq_frame p)) n (m\<lparr>nd_pending := q\<rparr>)" for q
    by (rule delivered_quiet [OF f(3) sends_pending]) (simp add: sock_of_def nd_broker_def)
  then show "delivered (reached n p) (peer_frame P2P_PUBLISH (pq_frame p)) n (flush_one (p, i) n)" using f(3) unfolding eq by (cases "reached n p = {}") simp_all
  show "nd_pending (flush_one (p, i) n) = (if reached n p \<noteq> {} then upd_nth i (\<lambda>p. p\<lparr>pq_in_use := False\<rparr>) (nd_pending n) else nd_pending n)"
    using eq f(4) by simp
qed

lemma flush_fold:
  assumes "peers_accepting n" and "\<forall>e \<in> set es. length (pq_frame (fst e)) \<le> P2P_PUBLISH_FRAME_MAX"
  shows "length (nd_pending (fold flush_one es n)) = length (nd_pending n)"
    and "j < length (nd_pending n) \<Longrightarrow> nd_pending (fold flush_one es n) ! j =
      (if \<exists>p. (p, j) \<in> set es \<and> reached n p \<noteq> {} then (nd_pending n ! j)\<lparr>pq_in_use := False\<rparr> else nd_pending n ! j)"
    and "c \<in> set (nd_conns n) \<Longrightarrow> cn_connected c \<Longrightarrow> so_sent (sock_of (fold flush_one es n) (cn_fd c)) = so_sent (sock_of n (cn_fd c)) @
      concat (map (\<lambda>e. if cn_node_id c \<in> reached n (fst e) then peer_frame P2P_PUBLISH (pq_frame (fst e)) else []) es)"
proof -
  have "length (nd_pending (fold flush_one es n)) = length (nd_pending n) \<and>
    (\<forall>j < length (nd_pending n). nd_pending (fold flush_one es n) ! j =
      (if \<exists>p. (p, j) \<in> set es \<and> reached n p \<noteq> {} then (nd_pending n ! j)\<lparr>pq_in_use := False\<rparr> else nd_pending n ! j)) \<and>
    (\<forall>c \<in> set (nd_conns n). cn_connected c \<longrightarrow> so_sent (sock_of (fold flush_one es n) (cn_fd c)) = so_sent (sock_of n (cn_fd c)) @
      concat (map (\<lambda>e. if cn_node_id c \<in> reached n (fst e) then peer_frame P2P_PUBLISH (pq_frame (fst e)) else []) es))"
    using assms
  proof (induction es arbitrary: n)
    case (Cons e es)
    obtain p i where e: "e = (p, i)" by force
    let ?n = "flush_one (p, i) n"
    note one = flush_one_accepting [OF Cons.prems(1), of p i]
    have d: "delivered (reached n p) (peer_frame P2P_PUBLISH (pq_frame p)) n ?n" using one(1) Cons.prems(2) e by simp
    have pend: "nd_pending ?n = (if reached n p \<noteq> {} then upd_nth i (\<lambda>p. p\<lparr>pq_in_use := False\<rparr>) (nd_pending n) else nd_pending n)"
      using one(2) Cons.prems(2) e by simp
    have same: "reached ?n = reached n" "nd_conns ?n = nd_conns n"
    proof -
      have s: "sends n ?n" using d by (simp add: delivered_def)
      show "reached ?n = reached n" unfolding reached_def sends_connected [OF s] sendsD(3) [OF s] ..
      show "nd_conns ?n = nd_conns n" using s by (rule sendsD)
    qed
    note ih = Cons.IH [OF delivered_accepting [OF Cons.prems(1) d]]
    have len: "length (nd_pending ?n) = length (nd_pending n)" by (simp add: pend)
    have at: "nd_pending ?n ! j = (if j = i \<and> reached n p \<noteq> {} then (nd_pending n ! j)\<lparr>pq_in_use := False\<rparr> else nd_pending n ! j)"
      if "j < length (nd_pending n)" for j
      using that by (simp add: pend nth_upd_nth)
    show ?case
      using ih Cons.prems(2) d by (auto simp: e len at same delivered_def)
  qed simp
  then show "length (nd_pending (fold flush_one es n)) = length (nd_pending n)"
    "j < length (nd_pending n) \<Longrightarrow> nd_pending (fold flush_one es n) ! j =
      (if \<exists>p. (p, j) \<in> set es \<and> reached n p \<noteq> {} then (nd_pending n ! j)\<lparr>pq_in_use := False\<rparr> else nd_pending n ! j)"
    "c \<in> set (nd_conns n) \<Longrightarrow> cn_connected c \<Longrightarrow> so_sent (sock_of (fold flush_one es n) (cn_fd c)) = so_sent (sock_of n (cn_fd c)) @
      concat (map (\<lambda>e. if cn_node_id c \<in> reached n (fst e) then peer_frame P2P_PUBLISH (pq_frame (fst e)) else []) es)"
    by blast+
qed

definition waits_for :: "cstr option \<Rightarrow> pending_publish \<Rightarrow> bool" where
  "waits_for flt p \<longleftrightarrow> pq_in_use p \<and> (case flt of None \<Rightarrow> True | Some f \<Rightarrow> topic_match_local f (pm_topic (pq_msg p)))"


subsection \<open>What the other nodes are told of a local subscription\<close>

text \<open>
  A subscription made on this node is sent to the owner of its shard when that is another, connected
  node, and then to every connected router, so a router that owns the shard gets it twice.
\<close>

theorem local_subscribe_sent:
  assumes "peers_accepting n" and "filter_ok f" and "q \<le> 2" and "id_ok (el_self_id (nd_election n))"
  shows "let owner = fst (p2p_shard_owner_for_filter (nd_election n) f (nd_caches n));
      routers = {cn_node_id c | c. c \<in> set (nd_conns n) \<and> cn_connected c \<and> cn_role c = role_byte P2P_ROLE_ROUTER} in
    \<exists>n1. delivered (if id_cmp owner (el_self_id (nd_election n)) \<noteq> 0 then {owner} \<inter> connected_ids n else {}) (sub_frame n f q) n n1 \<and>
      delivered routers (sub_frame n f q) n1 (p2p_local_subscribe f q n)"
proof -
  let ?msg = "local_sub_msg n f q"
  have "sub_msg_ok ?msg" using assms(2,4) by (simp add: sub_msg_ok_def local_sub_msg_def p2p_election_self_id_def)
  then have len: "length (sub_msg_bytes ?msg) \<le> P2P_PUBLISH_FRAME_MAX" using sub_msg_roundtrip(2) by simp
  obtain owner caches where o: "p2p_shard_owner_for_filter (nd_election n) f (nd_caches n) = (owner, caches)" by force
  define n0 where "n0 = n\<lparr>nd_caches := caches\<rparr>"
  have d0: "delivered {} (sub_frame n f q) n n0"
    by (rule delivered_quiet [OF delivered_none [OF assms(1)]]) (simp_all add: n0_def sends_caches sock_of_def nd_broker_def)
  obtain ok n1 where s: "send_to_node P2P_SUB_NOTIFY (sub_msg_bytes ?msg) owner n0 = (ok, n1)" by force
  note one = send_one [OF delivered_accepting [OF assms(1) d0] len s, folded sub_frame_def]
  define other where "other \<longleftrightarrow> id_cmp owner (el_self_id (nd_election n)) \<noteq> 0"
  define n2 where "n2 = (if other then n1 else n0)"
  have C: "connected_ids n0 = connected_ids n" by (simp add: n0_def connected_ids_def)
  have d2: "delivered (if other then {owner} \<inter> connected_ids n else {}) (sub_frame n f q) n n2"
    using d0 delivered_trans [OF d0 one(2)] C by (simp add: n2_def)
  have "nd_conns n2 = nd_conns n" using d2 by (simp add: delivered_def sendsD)
  then have set: "set (peer_targets (\<lambda>c. True = (cn_role c = role_byte P2P_ROLE_ROUTER)) None n2) =
      {cn_node_id c | c. c \<in> set (nd_conns n) \<and> cn_connected c \<and> cn_role c = role_byte P2P_ROLE_ROUTER}" (is "_ = ?routers")
    by (auto simp: peer_targets_def)
  have "?routers \<subseteq> connected_ids n2" using \<open>nd_conns n2 = nd_conns n\<close> by (auto simp: connected_ids_def)
  then have inter: "?routers \<inter> connected_ids n2 = ?routers" by (rule Int_absorb2)
  have a2: "peers_accepting n2" by (rule delivered_accepting [OF assms(1) d2])
  then have ok2: "conns_ok n2" by (simp add: peers_accepting_def)
  obtain k n3 where c: "send_count (send_to_node P2P_SUB_NOTIFY (sub_msg_bytes ?msg))
      (peer_targets (\<lambda>c. True = (cn_role c = role_byte P2P_ROLE_ROUTER)) None n2) 0 n2 = (k, n3)" by force
  from send_count_accepting(2) [OF a2 len peer_targets_distinct [OF ok2] c]
  have d3: "delivered ?routers (sub_frame n f q) n2 n3" by (simp only: set inter sub_frame_def)
  have "local_sub_msg n0 f q = ?msg" "sm_owner_id ?msg = el_self_id (nd_election n)"
    by (simp_all add: n0_def local_sub_msg_def p2p_election_self_id_def)
  then have "p2p_local_subscribe f q n = n3"
    using assms(2,3) o s c unfolding p2p_local_subscribe_def send_local_sub_def p2p_send_sub_to_routers_def
      send_sub_to_peers_by_role_def Let_def
    by (cases other) (simp_all add: copy_cstr_ok n2_def n0_def other_def)
  then show ?thesis using d2 d3 o by (auto simp: Let_def other_def)
qed

subsection \<open>Examples\<close>

theorem seed_backoff_witness:
  "let seeds = snd (p2p_static_seed_add 0x0A000002 4884 (replicate 2 zero_seed));
     s = fold (\<lambda>now. static_seed_mark_result now 0x0A000002 4884 False) [0, 5000] seeds ! 0
   in unat (sd_retry_delay_ms s) = 6000 \<and> 11000 \<le> sd_next_attempt_ms s \<and> sd_next_attempt_ms s < 12000"
proof -
  define seeds where "seeds = snd (p2p_static_seed_add 0x0A000002 4884 (replicate 2 zero_seed))"
  have "free_slot sd_in_use [zero_seed, zero_seed] = Some 0" "slot_of sd_in_use seed_key (0x0A000002, 4884) [zero_seed, zero_seed] = None"
    by (simp_all add: zero_seed_def slot_of_def free_slot_def)
  then have "seeds = [zero_seed\<lparr>sd_addr := 0x0A000002, sd_p2p_port := 4884, sd_in_use := True\<rparr>, zero_seed]"
    by (simp add: seeds_def p2p_static_seed_add_def two_slots upd_nth_def)
  then have "slot_of sd_in_use seed_key (0x0A000002, 4884) seeds = Some 0" "sd_retry_delay_ms (seeds ! 0) = 0"
    by (simp_all add: zero_seed_def slot_of_def seed_key_def)
  note b = seed_backoff [OF this, of "[0, 5000]"]
  define s where "s = fold (\<lambda>now. static_seed_mark_result now 0x0A000002 4884 False) [0, 5000] seeds ! 0"
  have "unat (sd_retry_delay_ms s) = min 30000 (3000 * 2 ^ (length [0 :: int, 5000] - 1))"
    "last [0, 5000] + uint (sd_retry_delay_ms s) \<le> sd_next_attempt_ms s"
    "sd_next_attempt_ms s < last [0, 5000] + uint (sd_retry_delay_ms s) + 1000"
    using b unfolding Let_def s_def [symmetric] by blast+
  then have "unat (sd_retry_delay_ms s) = 6000" "5000 + uint (sd_retry_delay_ms s) \<le> sd_next_attempt_ms s"
    "sd_next_attempt_ms s < 5000 + uint (sd_retry_delay_ms s) + 1000" by simp_all
  then show ?thesis unfolding Let_def seeds_def [symmetric] s_def [symmetric] by (simp add: uint_nat)
qed

theorem new_peer_told_all_witness:
  "let e = zero_sub\<lparr>sub_filter := [97], sub_qos := 1, sub_in_use := True\<rparr>;
     l = linked_node 1 [example_conn 2 8 P2P_ROLE_ROUTER] (\<lambda>_. quiet_sock);
     n = on_mesh (on_broker (\<lambda>b. b\<lparr>bk_subs := [zero_sub, e]\<rparr>)) l
   in so_sent (sock_of (advertise_local_subs_to 0 n) 8) = sub_frame n [97] 1"
proof -
  define e where "e = zero_sub\<lparr>sub_filter := [97], sub_qos := 1, sub_in_use := True\<rparr>"
  define l where "l = linked_node 1 [example_conn 2 8 P2P_ROLE_ROUTER] (\<lambda>_. quiet_sock)"
  define n where "n = on_mesh (on_broker (\<lambda>b. b\<lparr>bk_subs := [zero_sub, e]\<rparr>)) l"
  have same: "nd_conns n = nd_conns l" "nd_slots n = nd_slots l" "nd_threads n = nd_threads l" "nd_election n = nd_election l"
    "conn_at n 0 = conn_at l 0" "sock_of n = sock_of l" "bk_subs (nd_broker n) = [zero_sub, e]"
    by (simp_all add: n_def on_mesh_def on_broker_def conn_at_def sock_of_def nd_broker_def fun_eq_iff)
  have "peers_accepting l" unfolding l_def by (rule example_accepting) (simp_all add: accepting_def quiet_sock_def)
  then have "conns_ok n" "accepting (sock_of n 8)"
    using same by (simp_all add: peers_accepting_def conns_ok_def l_def)
  moreover have "conn_at n 0 = example_conn 2 8 P2P_ROLE_ROUTER" "so_sent (sock_of n 8) = []"
    using same by (simp_all add: l_def) (simp add: quiet_sock_def)
  moreover have "\<not> sub_in_use zero_sub" "sub_in_use e" "sub_filter e = [97]" "sub_qos e = 1" by (simp_all add: zero_sub_def e_def)
  ultimately show ?thesis
    using new_peer_told_all [of n 0] same letter_filter
    unfolding Let_def e_def [symmetric] l_def [symmetric] n_def [symmetric] by (simp add: l_def)
qed


end
