(* ===== verification/Http_Server.thy ===== *)
theory Http_Server
  imports Client_Handlers
begin

text \<open>
  The dashboard of the POSIX build, \<^verbatim>\<open>src/http.c\<close>: one thread accepts connections one after the other,
  reads a request, answers it and closes the connection. Requests read the snapshots of the broker or
  publish a message.

  \<^item> Text is a list of bytes; \<open>ascii\<close> gives that of a string literal. The page itself (\<open>DASHBOARD\<close>) is
    the argument \<open>page\<close>, and \<open>stray\<close> is the byte that follows a literal in memory, which the code sends
    once because a length is miscounted.
  \<^item> \<open>atoi\<close> is that of the usual C libraries: \<open>strtol\<close> with its bounds, cut to 32 bits.
  \<^item> \<open>None\<close> stands for a write or read outside a buffer, where C promises nothing.
\<close>

subsection \<open>Text\<close>

definition ascii :: "string \<Rightarrow> byte list" where
  "ascii s = map of_char s"

fun dec :: "nat \<Rightarrow> byte list" where
  "dec n = (if n < 10 then [48 + of_nat n] else dec (n div 10) @ [48 + of_nat (n mod 10)])"

declare dec.simps [simp del]

definition dec_int :: "int \<Rightarrow> byte list" where
  "dec_int i = (if i < 0 then 45 # dec (nat (- i)) else dec (nat i))"

definition is_space :: "byte \<Rightarrow> bool" where
  "is_space c \<longleftrightarrow> c = 32 \<or> 9 \<le> c \<and> c \<le> 13"

fun digits_value :: "nat \<Rightarrow> byte list \<Rightarrow> nat" where
  "digits_value acc [] = acc"
| "digits_value acc (c # cs) = (if 48 \<le> c \<and> c \<le> 57 then digits_value (acc * 10 + unat (c - 48)) cs else acc)"

definition atoi :: "byte list \<Rightarrow> int" where
  "atoi s =
     (let s = dropWhile is_space s;
          v = (case s of
                 [] \<Rightarrow> 0
               | c # cs \<Rightarrow> if c = 45 then - int (digits_value 0 cs) else if c = 43 then int (digits_value 0 cs)
                           else int (digits_value 0 s))
      in signed_take_bit 31 (max (- (2 ^ 63)) (min (2 ^ 63 - 1) v)))"

text \<open>\<open>strstr\<close>: what follows from the first occurrence on; the text of a buffer ends at its first NUL.\<close>

fun strstr :: "byte list \<Rightarrow> byte list \<Rightarrow> byte list option" where
  "strstr needle [] = (if needle = [] then Some [] else None)"
| "strstr needle (c # cs) = (if take (length needle) (c # cs) = needle then Some (c # cs) else strstr needle cs)"

definition c_text :: "byte list \<Rightarrow> byte list" where
  "c_text buf = takeWhile (\<lambda>c. c \<noteq> 0) buf"

definition starts_with :: "string \<Rightarrow> byte list \<Rightarrow> bool" where
  "starts_with s t \<longleftrightarrow> take (length s) t = ascii s"

abbreviation (input) CRLF :: "byte list" where "CRLF \<equiv> [13, 10]"
abbreviation (input) HEAD_END :: "byte list" where "HEAD_END \<equiv> [13, 10, 13, 10]"

subsection \<open>Replies\<close>

definition http_send_all :: "byte list \<Rightarrow> sock \<Rightarrow> bool \<times> sock" where
  "http_send_all buf s = send_loop buf s"

definition http_recv_all :: "nat \<Rightarrow> sock \<Rightarrow> (errno option + byte list) \<times> sock" where
  "http_recv_all n s = recv_exact n s"

definition http_header :: "nat \<Rightarrow> string \<Rightarrow> nat \<Rightarrow> byte list" where
  "http_header code ctype blen =
     (let reason = (if code = 200 then ''OK'' else if code = 400 then ''Bad Request'' else ''Not Found'')
      in ascii ''HTTP/1.1 '' @ dec code @ ascii '' '' @ ascii reason @ CRLF @
         ascii ''Content-Type: '' @ ascii ctype @ CRLF @
         ascii ''Content-Length: '' @ dec blen @ CRLF @
         ascii ''Access-Control-Allow-Origin: *'' @ CRLF @
         ascii ''Connection: close'' @ CRLF @ CRLF)"

definition http_send :: "nat \<Rightarrow> string \<Rightarrow> byte list \<Rightarrow> sock \<Rightarrow> sock" where
  "http_send code ctype body s =
     (let hdr = http_header code ctype (length body)
      in if length hdr \<ge> 256 then s
         else let (ok, s) = http_send_all hdr s
              in if \<not> ok then s else if body \<noteq> [] then snd (http_send_all body s) else s)"

subsection \<open>JSON\<close>

definition json_find_value :: "byte list \<Rightarrow> string \<Rightarrow> byte list option" where
  "json_find_value json key =
     (let search = 34 # ascii key @ [34, 58]
      in map_option (\<lambda>p. dropWhile (\<lambda>c. c = 32) (drop (length search) p)) (strstr search json))"

definition json_str :: "byte list \<Rightarrow> string \<Rightarrow> nat \<Rightarrow> byte list option" where
  "json_str json key cap =
     (case json_find_value json key of
        None \<Rightarrow> None
      | Some [] \<Rightarrow> None
      | Some (c # p) \<Rightarrow> if c \<noteq> 34 then None else Some (take (cap - 1) (takeWhile (\<lambda>c. c \<noteq> 34) p)))"

definition json_int :: "byte list \<Rightarrow> string \<Rightarrow> int" where
  "json_int json key = (case json_find_value json key of None \<Rightarrow> 0 | Some p \<Rightarrow> atoi p)"

definition quoted :: "byte list \<Rightarrow> byte list" where
  "quoted s = 34 # s @ [34]"

subsection \<open>The status\<close>

definition client_json :: "int \<Rightarrow> client_snapshot \<Rightarrow> byte list" where
  "client_json now c = ascii ''{'' @ quoted (ascii ''slot'') @ ascii '':'' @ dec (cs_slot c) @
     ascii '','' @ quoted (ascii ''client_id'') @ ascii '':'' @ quoted (cs_client_id c) @
     ascii '','' @ quoted (ascii ''keepalive'') @ ascii '':'' @ dec (unat (cs_keepalive c)) @
     ascii '','' @ quoted (ascii ''idle_ms'') @ ascii '':'' @ dec_int (now - cs_last_seen_ms c) @ ascii ''}''"

definition sub_json :: "sub_snapshot \<Rightarrow> byte list" where
  "sub_json s = ascii ''{'' @ quoted (ascii ''filter'') @ ascii '':'' @ quoted (ss_filter s) @
     ascii '','' @ quoted (ascii ''client_id'') @ ascii '':'' @ quoted (ss_client_id s) @
     ascii '','' @ quoted (ascii ''qos'') @ ascii '':'' @ dec (unat (ss_qos s)) @ ascii ''}''"

definition retain_json :: "cstr \<times> nat \<times> byte \<Rightarrow> byte list" where
  "retain_json r = ascii ''{'' @ quoted (ascii ''topic'') @ ascii '':'' @ quoted (fst r) @
     ascii '','' @ quoted (ascii ''payload_len'') @ ascii '':'' @ dec (fst (snd r)) @
     ascii '','' @ quoted (ascii ''qos'') @ ascii '':'' @ dec (unat (snd (snd r))) @ ascii ''}''"

text \<open>A list: the pieces the loop appends, each one call of \<open>snprintf\<close>.\<close>

fun list_pieces :: "bool \<Rightarrow> byte list list \<Rightarrow> byte list list" where
  "list_pieces first [] = []"
| "list_pieces first (x # xs) = (if first then [x] else [ascii '','', x]) @ list_pieces False xs"

definition section_pieces :: "string \<Rightarrow> byte list list \<Rightarrow> byte list list" where
  "section_pieces name xs = [ascii '','' @ quoted (ascii name) @ ascii '':['' ] @ list_pieces True xs"

definition status_pieces :: "broker \<Rightarrow> byte list list" where
  "status_pieces b =
     (let n = length (bk_subs b); now = bk_now b in
      [ascii ''{'' @ quoted (ascii ''uptime_ms'') @ ascii '':'' @ dec_int now] @
      section_pieces ''clients'' (map (client_json now) (client_get_snapshots b (length (bk_clients b)))) @ [ascii '']''] @
      section_pieces ''subscriptions'' (map sub_json (topic_get_sub_snapshots b n)) @ [ascii '']''] @
      section_pieces ''retained'' (map retain_json (topic_get_retain_snapshots b n)) @ [ascii '']}''])"

text \<open>
  The macro \<open>APPEND\<close>: \<open>pos\<close> grows by the length of the text whether it fits or not, and once \<open>pos\<close> has
  passed the end of the buffer the room that is left, negative, is taken for a huge one.
\<close>

abbreviation (input) STATUS_BUF :: nat where "STATUS_BUF \<equiv> 8192"

fun append_all :: "byte list \<Rightarrow> byte list list \<Rightarrow> byte list option" where
  "append_all t [] = Some t"
| "append_all t (x # xs) = (if length t > STATUS_BUF then None else append_all (t @ x) xs)"

definition handle_status :: "int \<Rightarrow> broker \<Rightarrow> broker option" where
  "handle_status fd b =
     (case append_all [] (status_pieces b) of
        None \<Rightarrow> None
      | Some t \<Rightarrow>
          if length t > STATUS_BUF then None
          else let t = (if length t = STATUS_BUF then take (STATUS_BUF - 1) t @ [0] else t)
               in Some (upd_sock fd (http_send 200 ''application/json'' t) b))"

subsection \<open>Publishing\<close>

abbreviation (input) MQTT_PAYLOAD_MAX :: nat where "MQTT_PAYLOAD_MAX \<equiv> 512"

definition json_error :: "string \<Rightarrow> byte list" where
  "json_error e = ascii ''{'' @ quoted (ascii ''ok'') @ ascii '':false,'' @ quoted (ascii ''error'') @ ascii '':'' @ quoted (ascii e) @ ascii ''}''"

definition handle_publish_api :: "int \<Rightarrow> byte list \<Rightarrow> broker \<Rightarrow> broker" where
  "handle_publish_api fd body b =
     (case json_str body ''topic'' MQTT_TOPIC_MAX of
        None \<Rightarrow> upd_sock fd (http_send 400 ''application/json'' (json_error ''missing topic'')) b
      | Some topic \<Rightarrow>
          if topic = [] then upd_sock fd (http_send 400 ''application/json'' (json_error ''missing topic'')) b
          else let payload = (case json_str body ''payload'' MQTT_PAYLOAD_MAX of None \<Rightarrow> [] | Some p \<Rightarrow> p);
                   qos = json_int body ''qos'';
                   qos = (if qos < 0 \<or> qos > 2 then 0 else qos);
                   pub = zero_publish\<lparr>pub_topic := topic, pub_payload := payload, pub_qos := of_int qos, pub_retain := 0\<rparr>;
                   b = topic_publish pub b
               in upd_sock fd (http_send 200 ''application/json''
                    (ascii ''{'' @ quoted (ascii ''ok'') @ ascii '':true}'')) b)"

subsection \<open>Connections\<close>

abbreviation (input) REQ_BUF :: nat where "REQ_BUF \<equiv> 4096"
abbreviation (input) BODY_BUF :: nat where "BODY_BUF \<equiv> 768"

function read_request :: "byte list \<Rightarrow> sock \<Rightarrow> byte list option \<times> sock" where
  "read_request got s =
     (if length got < REQ_BUF - 1
      then case plat_recv (REQ_BUF - 1 - length got) s of
             (Inl _, s) \<Rightarrow> (None, s)
           | (Inr bs, s) \<Rightarrow>
               if strstr HEAD_END (c_text (got @ bs)) \<noteq> None then (Some (got @ bs), s) else read_request (got @ bs) s
      else (Some got, s))"
  by pat_completeness auto
termination
  by (relation "measure (\<lambda>(got, s). REQ_BUF - length got)") (auto dest!: plat_recv_progress [OF sym] intro!: diff_less_mono2)

declare read_request.simps [simp del]

text \<open>The body of a publish request: what came with the header, and the rest of \<open>Content-Length\<close> bytes.\<close>

datatype body_result = BodyReady "byte list" | BodyTooLarge | BodyTruncated

definition content_length :: "byte list \<Rightarrow> int" where
  "content_length req =
     (let cl = (case strstr (ascii ''Content-Length:'') req of
                  None \<Rightarrow> strstr (ascii ''content-length:'') req
                | Some p \<Rightarrow> Some p)
      in case cl of None \<Rightarrow> 0 | Some p \<Rightarrow> atoi (drop 15 p))"

definition read_body :: "byte list \<Rightarrow> sock \<Rightarrow> body_result \<times> sock" where
  "read_body got s =
     (let req = c_text got in
      case strstr HEAD_END req of
        None \<Rightarrow> (BodyReady [], s)
      | Some p \<Rightarrow>
          (let start = length req - length p + 4;
               already = length got - start;
               remain = signed_take_bit 31 (content_length req - int already);
               buf = take (BODY_BUF - 1) (drop start got)
           in if remain > 0
              then if already + nat remain \<ge> BODY_BUF then (BodyTooLarge, s)
                   else (case http_recv_all (nat remain) s of
                           (Inl _, s) \<Rightarrow> (BodyTruncated, s)
                         | (Inr tail, s) \<Rightarrow> (BodyReady (buf @ tail), s))
              else (BodyReady buf, s)))"

definition handle_connection :: "byte list \<Rightarrow> byte \<Rightarrow> int \<Rightarrow> broker \<Rightarrow> broker option" where
  "handle_connection page stray fd b =
     (case read_request [] (bk_socks b fd) of
        (None, s) \<Rightarrow> Some (upd_sock fd (\<lambda>_. s) b)
      | (Some got, s) \<Rightarrow>
          (let b = upd_sock fd (\<lambda>_. s) b; req = c_text got in
           if starts_with ''OPTIONS'' req then Some (upd_sock fd (http_send 200 ''text/plain'' []) b)
           else if starts_with ''GET / '' req \<or> take 6 req = ascii ''GET /'' @ [13]
           then Some (upd_sock fd (http_send 200 ''text/html; charset=utf-8'' page) b)
           else if starts_with ''GET /api/status'' req then handle_status fd b
           else if starts_with ''POST /api/publish'' req
           then (let (body, s) = read_body got (bk_socks b fd); b = upd_sock fd (\<lambda>_. s) b in
                 case body of
                   BodyTooLarge \<Rightarrow> Some (upd_sock fd (http_send 400 ''application/json'' (json_error ''body too large'')) b)
                 | BodyTruncated \<Rightarrow>
                     Some (upd_sock fd (http_send 400 ''application/json'' (json_error ''truncated body'' @ [0, stray])) b)
                 | BodyReady body \<Rightarrow> Some (handle_publish_api fd (c_text body) b))
           else Some (upd_sock fd (http_send 404 ''application/json''
                  (ascii ''{'' @ quoted (ascii ''error'') @ ascii '':'' @ quoted (ascii ''not found'') @ ascii ''}'')) b)))"

text \<open>One iteration of the thread.\<close>

definition http_turn :: "byte list \<Rightarrow> byte \<Rightarrow> int \<Rightarrow> broker \<Rightarrow> broker option" where
  "http_turn page stray fd b = (if fd < 0 then Some b else map_option (plat_close fd) (handle_connection page stray fd b))"

end
