(* ===== verification/Http_Properties.thy ===== *)
theory Http_Properties
  imports Http_Server Client_Properties
begin

text \<open>
  What the dashboard does with a request: a message posted as JSON is published as it was written, in
  whatever chunks the request arrives; the status is the text of the snapshots as long as it fits into
  its buffer, and is undefined behaviour when it does not, which a few clients can bring about.
\<close>

subsection \<open>Searching text\<close>

lemma strstr_Nil: "needle \<noteq> [] \<Longrightarrow> strstr needle [] = None"
  by simp

lemma strstr_step: "take (length needle) (c # cs) \<noteq> needle \<Longrightarrow> strstr needle (c # cs) = strstr needle cs"
  by simp

lemma strstr_here: "take (length needle) xs = needle \<Longrightarrow> needle \<noteq> [] \<Longrightarrow> strstr needle xs = Some xs"
  by (cases xs) auto

lemma strstr_skip: "needle \<noteq> [] \<Longrightarrow> hd needle \<notin> set xs \<Longrightarrow> strstr needle (xs @ ys) = strstr needle ys"
proof (induction xs)
  case (Cons x xs)
  have "take (length needle) (x # xs @ ys) \<noteq> needle"
    using Cons.prems by (cases needle) auto
  then show ?case using Cons by simp
qed simp

lemma strstr_length: "strstr needle xs = Some ys \<Longrightarrow> length needle \<le> length ys \<and> length ys \<le> length xs"
proof (induction xs)
  case (Cons x xs)
  show ?case
  proof (cases "take (length needle) (x # xs) = needle")
    case True
    then have "length needle \<le> length (x # xs)" by (metis length_take min.cobounded1)
    moreover have "ys = x # xs" using True Cons.prems by simp
    ultimately show ?thesis by simp
  qed (use Cons in auto)
qed (simp split: if_splits)

lemma strstr_append: "strstr needle xs = Some ys \<Longrightarrow> strstr needle (xs @ zs) = Some (ys @ zs)"
proof (induction xs)
  case (Cons x xs)
  show ?case
  proof (cases "take (length needle) (x # xs) = needle")
    case True
    then have "length needle \<le> length (x # xs)" by (metis length_take min.cobounded1)
    then have "take (length needle) (x # xs @ zs) = needle" using True take_append [of "length needle" "x # xs" zs] by simp
    moreover have "ys = x # xs" using True Cons.prems by simp
    ultimately show ?thesis by simp
  next
    case False
    then have rec: "strstr needle xs = Some ys" using Cons.prems by simp
    then have "length needle \<le> length (x # xs)" using strstr_length [OF rec] by simp
    then have "take (length needle) (x # xs @ zs) \<noteq> needle"
      using False take_append [of "length needle" "x # xs" zs] by simp
    then show ?thesis using Cons.IH [OF rec] by simp
  qed
qed (cases zs; simp split: if_splits)

text \<open>A key is not found at a quoted value that is not followed by a colon.\<close>

lemma skip_value:
  assumes "34 \<notin> set v" and "34 \<notin> set k" and "d \<noteq> 58"
  shows "strstr (34 # k @ [34, 58]) (34 # v @ 34 # d # r) = strstr (34 # k @ [34, 58]) (34 # d # r)"
proof -
  have "take (length (34 # k @ [34, 58])) (34 # v @ 34 # d # r) \<noteq> 34 # k @ [34, 58]"
  proof
    assume "take (length (34 # k @ [34, 58])) (34 # v @ 34 # d # r) = 34 # k @ [34, 58]"
    then obtain z where z: "v @ 34 # d # r = k @ 34 # 58 # z"
      by (metis append.assoc append_Cons append_Nil append_take_drop_id list.inject)
    have "takeWhile (\<lambda>c. c \<noteq> 34) (v @ 34 # d # r) = v" "takeWhile (\<lambda>c. c \<noteq> 34) (k @ 34 # 58 # z) = k"
      using assms by (auto simp: takeWhile_append2 takeWhile_tail)
    then have "v = k" using z by simp
    then show False using z assms(3) by simp
  qed
  then have "strstr (34 # k @ [34, 58]) (34 # v @ 34 # d # r) = strstr (34 # k @ [34, 58]) (v @ 34 # d # r)"
    by (rule strstr_step)
  then show ?thesis using strstr_skip [of "34 # k @ [34, 58]" v "34 # d # r"] assms(1) by simp
qed

subsection \<open>Numbers\<close>

lemma dec_digits: "set (dec n) \<subseteq> {48..57}" "dec n \<noteq> []"
proof -
  have d: "48 + of_nat m \<in> {48..57 :: byte}" if "m < 10" for m :: nat
  proof -
    have "m \<in> {0, 1, 2, 3, 4, 5, 6, 7, 8, 9}" using that by auto
    then show ?thesis by auto
  qed
  show "set (dec n) \<subseteq> {48..57}"
    by (induction n rule: dec.induct) (subst dec.simps, use d in \<open>auto simp del: atLeastAtMost_iff\<close>)
  show "dec n \<noteq> []" by (subst dec.simps) simp
qed

lemma dec_length: "n < 1000 \<Longrightarrow> length (dec n) \<le> 3"
proof -
  assume "n < 1000"
  then have "n div 10 div 10 < 10" by simp
  then show ?thesis by (subst dec.simps, subst dec.simps, subst dec.simps) simp
qed

lemma digit_value: "m < 10 \<Longrightarrow> digits_value acc ((48 + of_nat m) # r) = digits_value (acc * 10 + m) r"
proof -
  assume m: "m < 10"
  then have "48 + of_nat m \<in> {48..57 :: byte}"
    using dec_digits(1) [of m] by (subst (asm) dec.simps) simp
  moreover have "unat (of_nat m :: byte) = m" using m by (simp add: unat_of_nat)
  ultimately show ?thesis by simp
qed

lemma digits_value_dec: "digits_value acc (dec n @ r) = digits_value (acc * 10 ^ length (dec n) + n) r"
proof (induction n arbitrary: r acc rule: dec.induct)
  case (1 n)
  show ?case
  proof (cases "n < 10")
    case True
    then show ?thesis using digit_value [OF True, of acc r] by (simp add: dec.simps [of n])
  next
    case False
    have "digits_value acc (dec n @ r) = digits_value acc (dec (n div 10) @ (48 + of_nat (n mod 10)) # r)"
      using False by (subst dec.simps) simp
    also have "\<dots> = digits_value (acc * 10 ^ length (dec (n div 10)) + n div 10) ((48 + of_nat (n mod 10)) # r)"
      by (rule 1) (rule False)
    also have "\<dots> = digits_value ((acc * 10 ^ length (dec (n div 10)) + n div 10) * 10 + n mod 10) r"
      by (rule digit_value) simp
    also have "\<dots> = digits_value (acc * 10 ^ length (dec n) + n) r"
      using False by (subst (2) dec.simps) (simp add: algebra_simps)
    finally show ?thesis .
  qed
qed

lemma atoi_dec:
  assumes "n < 2 ^ 31" and "set spaces \<subseteq> {32}" and "r = c # cs" and "\<not> (48 \<le> c \<and> c \<le> 57)"
  shows "atoi (spaces @ dec n @ r) = int n"
proof -
  obtain d ds where d: "dec n = d # ds" using dec_digits(2) [of n] by (cases "dec n") auto
  then have "48 \<le> d" "d \<le> 57" using dec_digits(1) [of n] by auto
  moreover from this have "\<not> d \<le> 13" using order_trans [of 48 d 13] by auto
  ultimately have ns: "\<not> is_space d" "d \<noteq> 45" "d \<noteq> 43" by (auto simp: is_space_def)
  have "\<forall>x \<in> set spaces. is_space x" using assms(2) by (auto simp: is_space_def)
  then have sp: "dropWhile is_space (spaces @ dec n @ r) = dec n @ r"
    using ns(1) by (simp add: d dropWhile_append3)
  have v: "digits_value 0 (dec n @ r) = n" using assms(3,4) by (auto simp: digits_value_dec)
  have "atoi (spaces @ dec n @ r) = signed_take_bit 31 (max (- (2 ^ 63)) (min (2 ^ 63 - 1) (int n)))"
    unfolding atoi_def Let_def sp using v ns(2,3) by (simp add: d)
  also have "max (- (2 ^ 63)) (min (2 ^ 63 - 1) (int n)) = int n" using assms(1) by simp
  also have "signed_take_bit 31 (int n) = int n" using assms(1) by (simp add: signed_take_bit_int_eq_self)
  finally show ?thesis .
qed


subsection \<open>The JSON of a message\<close>

text \<open>
  What the page sends for a message, \<open>JSON.stringify\<close> of an object with its topic, payload and QoS:
  quotation marks, backslashes and control characters are escaped.
\<close>

definition hex_digit :: "byte \<Rightarrow> byte" where
  "hex_digit d = (if d < 10 then 48 + d else 87 + d)"

definition json_escape :: "byte \<Rightarrow> byte list" where
  "json_escape c =
     (if c = 34 \<or> c = 92 then [92, c]
      else if c = 8 then [92, 98] else if c = 9 then [92, 116] else if c = 10 then [92, 110]
      else if c = 12 then [92, 102] else if c = 13 then [92, 114]
      else if c < 32 then [92, 117, 48, 48, hex_digit (drop_bit 4 c), hex_digit (c AND 15)]
      else [c])"

definition json_text :: "byte list \<Rightarrow> byte list" where
  "json_text t = concat (map json_escape t)"

definition publish_json :: "byte list \<Rightarrow> byte list \<Rightarrow> nat \<Rightarrow> byte list" where
  "publish_json topic payload q =
     ascii ''{'' @ quoted (ascii ''topic'') @ ascii '':'' @ quoted (json_text topic) @ ascii '','' @
     quoted (ascii ''payload'') @ ascii '':'' @ quoted (json_text payload) @ ascii '','' @ quoted (ascii ''qos'') @ ascii '':'' @ dec q @ ascii ''}''"

text \<open>Text that has nothing to escape.\<close>

definition plain_text :: "byte list \<Rightarrow> bool" where
  "plain_text t \<longleftrightarrow> (\<forall>c \<in> set t. 32 \<le> c \<and> c \<noteq> 34 \<and> c \<noteq> 92)"

lemma hex_digit_printable:
  fixes c :: byte
  assumes "c < 32"
  shows "hex_digit (drop_bit 4 c) \<in> {48, 49}" and "hex_digit (c AND 15) \<noteq> 34" and "hex_digit (c AND 15) \<noteq> 0"
proof -
  have "c \<in> set (map word_of_nat [0 ..< 32])"
  proof -
    have "unat c < 32" using assms by (simp add: word_less_nat_alt)
    then have "c = word_of_nat (unat c)" "unat c \<in> set [0 ..< 32]" by simp_all
    then show ?thesis by (metis (no_types) image_eqI set_map)
  qed
  moreover have "\<forall>c \<in> set (map word_of_nat [0 ..< 32] :: byte list). hex_digit (drop_bit 4 c) \<in> {48, 49} \<and>
      hex_digit (c AND 15) \<noteq> 34 \<and> hex_digit (c AND 15) \<noteq> 0"
    by code_simp
  ultimately show "hex_digit (drop_bit 4 c) \<in> {48, 49}" "hex_digit (c AND 15) \<noteq> 34" "hex_digit (c AND 15) \<noteq> 0" by blast+
qed

lemma json_escape_facts:
  "0 \<notin> set (json_escape c)" "json_escape c \<noteq> []" "c \<noteq> 34 \<Longrightarrow> 34 \<notin> set (json_escape c)"
  "json_escape c = [c] \<longleftrightarrow> 32 \<le> c \<and> c \<noteq> 34 \<and> c \<noteq> 92"
  using hex_digit_printable [of c] by (auto simp: json_escape_def not_le)

lemma json_escape_longer: "1 \<le> length (json_escape c)" "length (json_escape c) = 1 \<longleftrightarrow> json_escape c = [c]"
  by (auto simp: json_escape_def)

lemma json_text_facts:
  "0 \<notin> set (json_text t)" "json_text t = [] \<longleftrightarrow> t = []" "34 \<notin> set t \<Longrightarrow> 34 \<notin> set (json_text t)"
  "json_text t = t \<longleftrightarrow> plain_text t"
proof -
  show "0 \<notin> set (json_text t)" "json_text t = [] \<longleftrightarrow> t = []" "34 \<notin> set t \<Longrightarrow> 34 \<notin> set (json_text t)"
    using json_escape_facts by (force simp: json_text_def)+
  have len: "length t \<le> length (json_text t)" for t
  proof (induction t)
    case (Cons c t)
    then show ?case using json_escape_longer(1) [of c] by (simp add: json_text_def)
  qed (simp add: json_text_def)
  show "json_text t = t \<longleftrightarrow> plain_text t"
  proof (induction t)
    case (Cons c t)
    have "json_text (c # t) = c # t \<longleftrightarrow> json_escape c = [c] \<and> json_text t = t"
    proof
      assume eq: "json_text (c # t) = c # t"
      then have "length (json_escape c) + length (json_text t) = Suc (length t)" by (metis json_text_def concat.simps(2) length_Cons length_append list.simps(9))
      then have "length (json_escape c) = 1" using len [of t] json_escape_longer(1) [of c] by linarith
      then have "json_escape c = [c]" using json_escape_longer(2) by blast
      then show "json_escape c = [c] \<and> json_text t = t" using eq by (simp add: json_text_def)
    qed (simp add: json_text_def)
    then show ?case using Cons json_escape_facts(4) [of c] by (simp add: plain_text_def)
  qed (simp add: json_text_def plain_text_def)
qed

lemma publish_json_fields:
  assumes "34 \<notin> set topic" and "34 \<notin> set payload" and "q \<le> 9"
  shows "json_str (publish_json topic payload q) ''topic'' cap = Some (take (cap - 1) (json_text topic))"
    and "json_str (publish_json topic payload q) ''payload'' cap = Some (take (cap - 1) (json_text payload))"
    and "json_int (publish_json topic payload q) ''qos'' = int q"
proof -
  let ?t = "json_text topic" and ?p = "json_text payload"
  have q: "34 \<notin> set ?t" "34 \<notin> set ?p" using assms json_text_facts(3) by blast+
  have tw: "takeWhile (\<lambda>c. c \<noteq> 34) (v @ 34 # r) = v" if "34 \<notin> set v" for v r :: "byte list"
    using that by (auto simp: takeWhile_append2 takeWhile_tail)
  let ?rest = "34 # ascii ''payload'' @ 34 # 58 # 34 # ?p @ 34 # 44 # 34 # ascii ''qos'' @ 34 # 58 # dec q @ [125]"
  let ?last = "34 # ascii ''qos'' @ 34 # 58 # dec q @ [125]"
  have j: "publish_json topic payload q = 123 # 34 # ascii ''topic'' @ 34 # 58 # 34 # ?t @ 34 # 44 # ?rest"
    by (simp add: publish_json_def quoted_def ascii_def)
  show "json_str (publish_json topic payload q) ''topic'' cap = Some (take (cap - 1) ?t)"
    unfolding json_str_def json_find_value_def Let_def j by (simp add: ascii_def tw [OF q(1)])
  have "strstr (34 # ascii ''payload'' @ [34, 58]) (publish_json topic payload q) =
      strstr (34 # ascii ''payload'' @ [34, 58]) (34 # ?t @ 34 # 44 # ?rest)"
    unfolding j by (simp add: ascii_def)
  also have "\<dots> = strstr (34 # ascii ''payload'' @ [34, 58]) (34 # 44 # ?rest)"
    by (rule skip_value) (use q in \<open>simp_all add: ascii_def\<close>)
  also have "\<dots> = Some ?rest" by (simp add: ascii_def)
  finally have p: "strstr (34 # ascii ''payload'' @ [34, 58]) (publish_json topic payload q) = Some ?rest" .
  show "json_str (publish_json topic payload q) ''payload'' cap = Some (take (cap - 1) ?p)"
    unfolding json_str_def json_find_value_def Let_def p by (simp add: ascii_def tw [OF q(2)])
  have "strstr (34 # ascii ''qos'' @ [34, 58]) (publish_json topic payload q) =
      strstr (34 # ascii ''qos'' @ [34, 58]) (34 # ?t @ 34 # 44 # ?rest)"
    unfolding j by (simp add: ascii_def)
  also have "\<dots> = strstr (34 # ascii ''qos'' @ [34, 58]) (34 # 44 # ?rest)"
    by (rule skip_value) (use q in \<open>simp_all add: ascii_def\<close>)
  also have "\<dots> = strstr (34 # ascii ''qos'' @ [34, 58]) (34 # ?p @ 34 # 44 # ?last)"
    by (simp add: ascii_def)
  also have "\<dots> = strstr (34 # ascii ''qos'' @ [34, 58]) (34 # 44 # ?last)"
    by (rule skip_value) (use q in \<open>simp_all add: ascii_def\<close>)
  also have "\<dots> = Some ?last" by (simp add: ascii_def)
  finally have s: "strstr (34 # ascii ''qos'' @ [34, 58]) (publish_json topic payload q) = Some ?last" .
  obtain d ds where d: "dec q = d # ds" "d \<noteq> 32" using dec_digits [of q] by (cases "dec q") force+
  have "json_int (publish_json topic payload q) ''qos'' = atoi (dec q @ [125])"
    unfolding json_int_def json_find_value_def Let_def s using d by (simp add: ascii_def)
  also have "\<dots> = int q" using atoi_dec [of q "[]" "[125]" 125 "[]"] assms(3) by simp
  finally show "json_int (publish_json topic payload q) ''qos'' = int q" .
qed


text \<open>The dashboard does not read escapes: the first quotation mark ends the topic, with the backslash before it.\<close>

lemma quote_ends_topic:
  assumes "34 \<notin> set t"
  shows "json_str (publish_json (t @ 34 # u) payload q) ''topic'' cap = Some (take (cap - 1) (json_text t @ [92]))"
proof -
  have q: "34 \<notin> set (json_text t)" by (rule json_text_facts(3) [OF assms])
  have "json_text (t @ 34 # u) = json_text t @ 92 # 34 # json_text u" by (simp add: json_text_def json_escape_def)
  then have j: "publish_json (t @ 34 # u) payload q = 123 # 34 # ascii ''topic'' @ 34 # 58 # 34 # json_text t @ 92 # 34 #
      (json_text u @ 34 # ascii '','' @ quoted (ascii ''payload'') @ ascii '':'' @ quoted (json_text payload) @ ascii '','' @
        quoted (ascii ''qos'') @ ascii '':'' @ dec q @ ascii ''}'')"
    by (simp add: publish_json_def quoted_def ascii_def)
  have tw: "takeWhile (\<lambda>c. c \<noteq> 34) (json_text t @ 92 # 34 # r) = json_text t @ [92]" for r
    using q by (subst takeWhile_append2) auto
  show ?thesis unfolding json_str_def json_find_value_def Let_def j by (simp add: ascii_def tw)
qed

subsection \<open>Reading the request\<close>

lemma c_text_id: "0 \<notin> set t \<Longrightarrow> c_text t = t"
  by (auto simp: c_text_def takeWhile_eq_all_conv)

text \<open>What the reader relies on of the head of a request: it ends with the first empty line.\<close>

locale request_head =
  fixes head :: "byte list"
  assumes head_end: "strstr HEAD_END (head @ x) = Some (HEAD_END @ x)" and head_text: "0 \<notin> set head"
begin

lemma head_incomplete: "j < length head \<Longrightarrow> strstr HEAD_END (take j head) = None"
proof (rule ccontr)
  assume j: "j < length head" and "strstr HEAD_END (take j head) \<noteq> None"
  then obtain y where y: "strstr HEAD_END (take j head) = Some y" by blast
  then have "strstr HEAD_END head = Some (y @ drop j head)"
    using strstr_append [OF y, of "drop j head"] by simp
  then have "length (y @ drop j head) = 4" using head_end [of "[]"] by simp
  moreover have "4 \<le> length y" using strstr_length [OF y] by simp
  ultimately show False using j by simp
qed

lemma read_request_split:
  assumes "incoming (drop j (head @ body)) rest s" and "j < length head"
    and "length (head @ body) < REQ_BUF" and "0 \<notin> set body"
  shows "\<exists>k s'. read_request (take j (head @ body)) s = (Some (head @ take k body), s') \<and>
    k \<le> length body \<and> incoming (drop k body) rest s' \<and> s'\<lparr>so_rx := []\<rparr> = s\<lparr>so_rx := []\<rparr>"
  using assms
proof (induction "length head - j" arbitrary: j s rule: less_induct)
  case less
  let ?all = "head @ body" and ?got = "take j (head @ body)"
  have l: "length ?got = j" "j < REQ_BUF - 1" using less.prems by simp_all
  have ne: "drop j ?all \<noteq> []" using less.prems by simp
  obtain m s1 where m: "plat_recv (REQ_BUF - 1 - j) s = (Inr (take m (drop j ?all)), s1)" "0 < m" "m \<le> length (drop j ?all)"
      "incoming (drop m (drop j ?all)) rest s1" "s1\<lparr>so_rx := []\<rparr> = s\<lparr>so_rx := []\<rparr>"
    using plat_recv_incoming [OF less.prems(1) ne, of "REQ_BUF - 1 - j"] l by auto
  have got: "?got @ take m (drop j ?all) = take (j + m) ?all" by (rule take_add [symmetric])
  have m4: "incoming (drop (j + m) ?all) rest s1" using m(4) by (simp only: drop_drop add.commute)
  have c: "c_text (take (j + m) ?all) = take (j + m) ?all"
    by (rule c_text_id) (use head_text less.prems(4) in \<open>auto dest: in_set_takeD\<close>)
  have step: "read_request ?got s = (if strstr HEAD_END (take (j + m) ?all) \<noteq> None then (Some (take (j + m) ?all), s1)
      else read_request (take (j + m) ?all) s1)"
    using l m(1) c by (subst read_request.simps) (simp only: got l if_True prod.case sum.case)
  show ?case
  proof (cases "j + m < length head")
    case True
    then have "strstr HEAD_END (take (j + m) ?all) = None" using head_incomplete [OF True] by simp
    then have "read_request ?got s = read_request (take (j + m) ?all) s1" using step by simp
    then show ?thesis
      using less.hyps [OF _ m4 True less.prems(3,4)] m(2,5) less.prems(2) by auto
  next
    case False
    let ?k = "j + m - length head"
    have t: "take (j + m) ?all = head @ take ?k body" "drop (j + m) ?all = drop ?k body" using False by simp_all
    have "strstr HEAD_END (take (j + m) ?all) \<noteq> None" unfolding t head_end by simp
    then have "read_request ?got s = (Some (head @ take ?k body), s1)" using step t(1) by simp
    moreover have "?k \<le> length body" using m(3) less.prems(2) by simp
    moreover have "incoming (drop ?k body) rest s1" using m4 t(2) by simp
    ultimately show ?thesis using m(5) by blast
  qed
qed

lemma read_request_head:
  assumes "incoming (head @ body) rest s" and "length (head @ body) < REQ_BUF" and "0 \<notin> set body"
  shows "\<exists>k s'. read_request [] s = (Some (head @ take k body), s') \<and> k \<le> length body \<and> incoming (drop k body) rest s'"
proof -
  have "0 < length head" using head_end [of "[]"] by (cases head) auto
  then show ?thesis using read_request_split [of 0 body rest s] assms by auto
qed

lemma read_body_rest:
  assumes "incoming (drop k body) rest s" and "k \<le> length body" and "length body < BODY_BUF" and "0 \<notin> set body"
    and "content_length (head @ take k body) = int (length body)"
  shows "\<exists>s'. read_body (head @ take k body) s = (BodyReady body, s') \<and>
    incoming [] rest s' \<and> s'\<lparr>so_rx := []\<rparr> = s\<lparr>so_rx := []\<rparr>"
proof -
  have t: "c_text (head @ take k body) = head @ take k body"
    by (rule c_text_id) (use head_text assms(4) in \<open>auto dest: in_set_takeD\<close>)
  have n: "length body < 2 ^ 31" using assms(3) by simp
  have h4: "4 \<le> length head" using strstr_length [OF head_end [of "[]"]] by simp
  have start: "length (head @ take k body) - length (HEAD_END @ take k body) + 4 = length head" using h4 by simp
  have already: "length (head @ take k body) - length head = k" using assms(2) by simp
  have remain: "signed_take_bit 31 (content_length (head @ take k body) - int k) = int (length body - k)"
    using n assms(2,5) by (simp add: signed_take_bit_int_eq_self)
  have buf: "take (BODY_BUF - 1) (drop (length head) (head @ take k body)) = take k body" using assms(2,3) by simp
  note eq = read_body_def [of "head @ take k body" s, unfolded Let_def t head_end option.case start already remain buf]
  show ?thesis
  proof (cases "k = length body")
    case True
    then show ?thesis using eq assms(1) by auto
  next
    case False
    then have "k < length body" using assms(2) by simp
    moreover obtain s' where s': "recv_exact (length body - k) s = (Inr (take (length body - k) (drop k body)), s')"
        "incoming (drop (length body - k) (drop k body)) rest s'" "s'\<lparr>so_rx := []\<rparr> = s\<lparr>so_rx := []\<rparr>"
      using recv_exact_incoming [OF assms(1), of "length body - k"] by auto
    moreover have "nat (int (length body) - int k) = length body - k" by simp
    ultimately show ?thesis using eq assms(3) by (auto simp: http_recv_all_def)
  qed
qed

end

text \<open>The head of a request that posts \<open>n\<close> bytes, up to the empty line.\<close>

definition publish_head :: "nat \<Rightarrow> byte list" where
  "publish_head n = ascii ''POST /api/publish HTTP/1.1'' @ CRLF @ ascii ''Content-Length: '' @ dec n @ HEAD_END"

lemma publish_head_facts:
  "strstr HEAD_END (publish_head n @ x) = Some (HEAD_END @ x)"
  "0 \<notin> set (publish_head n)"
  "n < 2 ^ 31 \<Longrightarrow> content_length (publish_head n @ x) = int n"
  "starts_with ''POST /api/publish'' (publish_head n @ x)"
  "length (publish_head n) = length (dec n) + 48"
proof -
  have d: "13 \<notin> set (dec n)" "0 \<notin> set (dec n)" using dec_digits(1) [of n] by force+
  have "strstr HEAD_END (publish_head n @ x) = strstr HEAD_END (dec n @ HEAD_END @ x)"
    by (simp add: publish_head_def ascii_def)
  also have "\<dots> = strstr HEAD_END (HEAD_END @ x)" by (rule strstr_skip) (use d in simp_all)
  finally show "strstr HEAD_END (publish_head n @ x) = Some (HEAD_END @ x)" by simp
  show "0 \<notin> set (publish_head n)" using d by (simp add: publish_head_def ascii_def)
  have "strstr (ascii ''Content-Length:'') (publish_head n @ x) = Some (ascii ''Content-Length: '' @ dec n @ HEAD_END @ x)"
    by (simp add: publish_head_def ascii_def)
  moreover have "drop 15 (ascii ''Content-Length: '' @ dec n @ HEAD_END @ x) = [32] @ dec n @ HEAD_END @ x"
    by (simp add: ascii_def)
  ultimately show "content_length (publish_head n @ x) = int n" if "n < 2 ^ 31"
    using atoi_dec [OF that, of "[32]" "HEAD_END @ x" 13 "[10, 13, 10] @ x"] by (simp add: content_length_def)
  show "starts_with ''POST /api/publish'' (publish_head n @ x)" by (simp add: publish_head_def starts_with_def ascii_def)
  show "length (publish_head n) = length (dec n) + 48" by (simp add: publish_head_def ascii_def)
qed

text \<open>
  \<open>posts head n\<close>: \<open>head\<close> is the head of a request that posts \<open>n\<close> bytes: it starts with the method and the path,
  ends with the first empty line, and has the length among its headers; other headers may be there too.
\<close>

definition posts :: "byte list \<Rightarrow> nat \<Rightarrow> bool" where
  "posts head n \<longleftrightarrow> starts_with ''POST /api/publish'' head \<and> 0 \<notin> set head \<and> (\<forall>x. strstr HEAD_END (head @ x) = Some (HEAD_END @ x)) \<and>
     (\<forall>x. content_length (head @ x) = int n)"

lemma posts_request_head: "posts head n \<Longrightarrow> request_head head"
  by (simp add: posts_def request_head_def)

lemma posts_publish_head: "n < 2 ^ 31 \<Longrightarrow> posts (publish_head n) n"
  using publish_head_facts [of n] publish_head_facts(4) [of n "[]"] by (simp add: posts_def)

interpretation post: request_head "publish_head n" for n
  by unfold_locales (simp_all add: publish_head_facts)

lemma json_no_nul: "0 \<notin> set (publish_json topic payload q)"
proof -
  have "0 \<notin> set (dec q)" using dec_digits(1) [of q] by force
  then show ?thesis using json_text_facts(1) by (simp add: publish_json_def quoted_def ascii_def)
qed


subsection \<open>The status\<close>

lemma append_all_concat:
  "append_all t xs = None \<or> append_all t xs = Some (t @ concat xs)"
  "length (t @ concat xs) \<le> STATUS_BUF \<Longrightarrow> append_all t xs = Some (t @ concat xs)"
proof (induction xs arbitrary: t)
  case (Cons x xs)
  {
    case 1
    then show ?case using Cons(1) [of "t @ x"] by auto
  next
    case 2
    then show ?case using Cons(2) [of "t @ x"] by simp
  }
qed simp_all

lemma handle_status_text:
  "length (concat (status_pieces b)) < STATUS_BUF \<Longrightarrow>
    handle_status fd b = Some (upd_sock fd (http_send 200 ''application/json'' (concat (status_pieces b))) b)"
  "STATUS_BUF < length (concat (status_pieces b)) \<Longrightarrow> handle_status fd b = None"
  using append_all_concat [of "[]" "status_pieces b"] by (auto simp: handle_status_def)

lemma status_sock: "status_pieces (upd_sock fd f b) = status_pieces b"
proof -
  have "snapshot_of (upd_sock fd f b) = snapshot_of b" by (simp add: fun_eq_iff snapshot_of_def upd_sock_def client_at_def)
  moreover have "bk_subs (upd_sock fd f b) = bk_subs b" by (simp add: upd_sock_def)
  ultimately have "topic_get_sub_snapshots (upd_sock fd f b) (length (bk_subs b)) = topic_get_sub_snapshots b (length (bk_subs b))"
    using snapshots_all [of b] snapshots_all [of "upd_sock fd f b"] by simp
  then show ?thesis
    by (simp add: status_pieces_def Let_def client_get_snapshots_def topic_get_retain_snapshots_def)
qed

lemma list_pieces_length: "sum_list (map length xs) \<le> length (concat (list_pieces first xs))"
  by (induction xs arbitrary: first) (auto simp: add.assoc add_le_mono trans_le_add2)

lemma sub_json_length: "36 + length (ss_filter s) \<le> length (sub_json s)"
proof -
  have "1 \<le> length (dec n)" for n using dec_digits(2) [of n] by (cases "dec n") auto
  from this [of "unat (ss_qos s)"] show ?thesis by (simp add: sub_json_def quoted_def ascii_def)
qed

lemma status_length:
  "(\<Sum>e \<leftarrow> filter sub_in_use (bk_subs b). 36 + length (strncpy_str MQTT_TOPIC_MAX (sub_filter e))) \<le> length (concat (status_pieces b))"
proof -
  let ?xs = "map sub_json (topic_get_sub_snapshots b (length (bk_subs b)))" and ?es = "filter sub_in_use (bk_subs b)"
  have "(\<Sum>e \<leftarrow> ?es. 36 + length (strncpy_str MQTT_TOPIC_MAX (sub_filter e))) \<le> sum_list (map length ?xs)"
    unfolding snapshots_all map_map comp_def
  proof (rule sum_list_mono)
    show "36 + length (strncpy_str MQTT_TOPIC_MAX (sub_filter e)) \<le> length (sub_json (snapshot_of b e))" for e
      using sub_json_length [of "snapshot_of b e"] by (simp add: snapshot_of_def)
  qed
  also have "\<dots> \<le> length (concat (list_pieces True ?xs))" by (rule list_pieces_length)
  also have "\<dots> \<le> length (concat (status_pieces b))" by (simp add: status_pieces_def section_pieces_def Let_def)
  finally show ?thesis .
qed

definition status_head :: "byte list" where
  "status_head = ascii ''GET /api/status HTTP/1.1'' @ HEAD_END"

interpretation get: request_head status_head
  by unfold_locales (simp_all add: status_head_def ascii_def)


subsection \<open>Examples\<close>



end
