(* ===== verification/Cli.thy ===== *)
theory Cli
  imports Http_Server
begin

text \<open>
  The command line client, \<^verbatim>\<open>tools/mqtt_cli.c\<close>: it connects to a broker, publishes one message, prints
  the messages of a subscription, tries an unsubscription, or prints the status of the dashboard.

  \<^item> \<open>cli\<close> is the state of a run: the connection, what was written to the terminal (\<open>ci_out\<close> one entry
    per line of standard output, \<open>ci_err\<close> the messages on standard error), \<open>errno\<close>, and whether the run
    did something for which C promises nothing (\<open>ci_undefined\<close>): a byte written behind a payload, or a
    send whose length is a negative result converted to \<open>size_t\<close>.
  \<^item> \<open>dial\<close> is the result of \<open>tcp_connect\<close> (\<open>socket\<close>, \<open>inet_pton\<close>, \<open>connect\<close>): the connected socket,
    or \<open>None\<close>. A failing \<open>send\<close> sets \<open>errno\<close> to something else than \<open>EAGAIN\<close>, because the socket
    has no send timeout.
  \<^item> The records a command keeps on its stack are not initialised: \<open>junk\<close> is what they hold.
  \<^item> An unused remainder of a receive buffer appears in one message on standard error only (the granted
    QoS of a short SUBACK); \<open>Subscribed\<close> does not carry that number.
\<close>

subsection \<open>Sending and receiving\<close>

abbreviation (input) CLI_KEEPALIVE :: u16 where "CLI_KEEPALIVE \<equiv> 60"
abbreviation (input) CLI_BUF_SIZE :: nat where "CLI_BUF_SIZE \<equiv> 720"
abbreviation (input) CLI_PING_TICKS :: nat where "CLI_PING_TICKS \<equiv> 2"

datatype diag =
    DialFailed | UnexpectedResponse | BrokerRefused byte
  | MessageTooLong | PublishFailed | NoPuback | NoPubrec | PubrecMismatch | PubrelFailed | NoPubcomp
  | PubcompMismatch
  | SessionResumed | NoSuback | SubscriptionRefused | Subscribed cstr byte | ConnectionLost
  | SubscribedTo cstr | NoUnsuback | UnsubscribedFrom cstr | UnexpectedMessage cstr "byte list"
  | UnexpectedHttp | OptionMissing | Usage | UnknownCommand

record cli =
  ci_sock :: sock
  ci_out :: "byte list list"
  ci_err :: "diag list"
  ci_errno :: errno
  ci_undefined :: bool

definition cli_send_all :: "byte list \<Rightarrow> cli \<Rightarrow> bool \<times> cli" where
  "cli_send_all buf c =
     (let (ok, s) = send_loop buf (ci_sock c)
      in (ok, c\<lparr>ci_sock := s, ci_errno := (if ok then ci_errno c else EOTHER)\<rparr>))"

definition cli_recv_all :: "nat \<Rightarrow> sock \<Rightarrow> (errno option + byte list) \<times> sock" where
  "cli_recv_all n s = recv_exact n s"

text \<open>The loop over the bytes of the remaining length; the C variable \<open>mult\<close> is \<open>128 ^ k\<close>.\<close>

function cli_recv_rlen :: "nat \<Rightarrow> u32 \<Rightarrow> sock \<Rightarrow> (errno option + u32) \<times> sock" where
  "cli_recv_rlen k rlen s =
     (case cli_recv_all 1 s of
        (Inl e, s) \<Rightarrow> (Inl e, s)
      | (Inr bs, s) \<Rightarrow>
          (let b = hd bs; rlen = rlen + ucast (b AND 0x7F) * 128 ^ k
           in if Suc k > 3 then (Inl None, s)
              else if b AND 0x80 \<noteq> 0 then cli_recv_rlen (Suc k) rlen s else (Inr rlen, s)))"
  by pat_completeness auto
termination
  by (relation "measure (\<lambda>(k, rlen, s). 4 - k)") auto

declare cli_recv_rlen.simps [simp del]

definition sock_recv_pkt :: "sock \<Rightarrow> (errno option + mqtt_packet) \<times> sock" where
  "sock_recv_pkt s =
     (case cli_recv_all 1 s of
        (Inl e, s) \<Rightarrow> (Inl e, s)
      | (Inr bs, s) \<Rightarrow>
          (case cli_recv_rlen 0 0 s of
             (Inl e, s) \<Rightarrow> (Inl e, s)
           | (Inr rlen, s) \<Rightarrow>
               if unat rlen > MQTT_MAX_PACKET_SIZE then (Inl None, s)
               else (case cli_recv_all (unat rlen) s of
                       (Inl e, s) \<Rightarrow> (Inl e, s)
                     | (Inr body, s) \<Rightarrow>
                         (Inr \<lparr>pkt_type_flags = hd bs, pkt_remaining_len = rlen, pkt_buf = body\<rparr>, s))))"

definition recv_pkt :: "cli \<Rightarrow> mqtt_packet option \<times> cli" where
  "recv_pkt c =
     (let (r, s) = sock_recv_pkt (ci_sock c); c = c\<lparr>ci_sock := s\<rparr>
      in case r of
           Inr pkt \<Rightarrow> (Some pkt, c)
         | Inl None \<Rightarrow> (None, c)
         | Inl (Some e) \<Rightarrow> (None, c\<lparr>ci_errno := e\<rparr>))"

definition pkt_type :: "mqtt_packet \<Rightarrow> byte" where
  "pkt_type pkt = pkt_type_flags pkt AND 0xF0"

definition say :: "diag \<Rightarrow> cli \<Rightarrow> cli" where
  "say d c = c\<lparr>ci_err := ci_err c @ [d]\<rparr>"

definition print_line :: "byte list \<Rightarrow> cli \<Rightarrow> cli" where
  "print_line l c = c\<lparr>ci_out := ci_out c @ [l]\<rparr>"

definition close_fd :: "cli \<Rightarrow> cli" where
  "close_fd c = c\<lparr>ci_sock := (ci_sock c)\<lparr>so_closed := True\<rparr>\<rparr>"

definition set_timeout :: "nat \<Rightarrow> cli \<Rightarrow> cli" where
  "set_timeout sec c = c\<lparr>ci_sock := (ci_sock c)\<lparr>so_timeout := sec\<rparr>\<rparr>"

text \<open>The end of a command that fails: the message, the connection closed, exit code 1.\<close>

definition fail :: "diag \<Rightarrow> cli \<Rightarrow> int \<times> cli" where
  "fail d c = (1, close_fd (say d c))"

subsection \<open>Building packets\<close>

text \<open>
  Lengths are cut to 16 bits. The result of \<open>packet_encode_remaining_len\<close> is not looked at; it is
  always a success, since three such lengths stay below the limit.
\<close>

definition cut16 :: "byte list \<Rightarrow> nat" where
  "cut16 s = length s mod 2 ^ 16"

definition write_cut :: "byte list \<Rightarrow> byte list" where
  "write_cut s = write_u16 (word_of_nat (cut16 s)) @ take (cut16 s) s"

definition finish :: "nat \<Rightarrow> byte \<Rightarrow> byte list \<Rightarrow> byte list option" where
  "finish cap t body =
     (case packet_encode_remaining_len (word_of_nat (length body)) of
        None \<Rightarrow> None
      | Some enc \<Rightarrow> if cap < 1 + length enc + length body then None else Some (t # enc @ body))"

definition build_connect ::
  "nat \<Rightarrow> cstr \<Rightarrow> u16 \<Rightarrow> cstr option \<Rightarrow> cstr option \<Rightarrow> bool \<Rightarrow> byte list option" where
  "build_connect cap client_id keepalive user pass clean_session =
     finish cap MQTT_CONNECT
       ([0, 4, 0x4D, 0x51, 0x54, 0x54, 4,
         (if clean_session then 2 else 0) OR (if user \<noteq> None then 0x80 else 0)
         OR (if pass \<noteq> None then 0x40 else 0)]
        @ write_u16 keepalive @ write_cut client_id
        @ (case user of None \<Rightarrow> [] | Some u \<Rightarrow> write_cut u)
        @ (case pass of None \<Rightarrow> [] | Some p \<Rightarrow> write_cut p))"

definition build_subscribe :: "nat \<Rightarrow> cstr \<Rightarrow> byte \<Rightarrow> u16 \<Rightarrow> byte list option" where
  "build_subscribe cap topic qos pid =
     finish cap (MQTT_SUBSCRIBE OR 2) (write_u16 pid @ write_cut topic @ [qos AND 3])"

definition build_unsubscribe :: "nat \<Rightarrow> cstr \<Rightarrow> u16 \<Rightarrow> byte list option" where
  "build_unsubscribe cap topic pid =
     finish cap (MQTT_UNSUBSCRIBE OR 2) (write_u16 pid @ write_cut topic)"

definition build_pingreq :: "nat \<Rightarrow> byte list option" where
  "build_pingreq cap = (if cap < 2 then None else Some [MQTT_PINGREQ, 0])"

definition build_disconnect :: "nat \<Rightarrow> byte list option" where
  "build_disconnect cap = (if cap < 2 then None else Some [MQTT_DISCONNECT, 0])"

text \<open>
  Sending what a builder returned: \<open>len < 0 || send_all (fd, buf, len) < 0\<close> is \<open>send_built\<close> being
  false. \<open>send_ack\<close> is an acknowledgement whose loss is not looked at, sent only if it could be built;
  \<open>send_unchecked\<close> sends without looking at the result of the builder.
\<close>

definition send_built :: "byte list option \<Rightarrow> cli \<Rightarrow> bool \<times> cli" where
  "send_built p c = (case p of None \<Rightarrow> (False, c) | Some buf \<Rightarrow> cli_send_all buf c)"

definition send_ack :: "byte list option \<Rightarrow> cli \<Rightarrow> cli" where
  "send_ack p c = snd (send_built p c)"

definition send_unchecked :: "byte list option \<Rightarrow> cli \<Rightarrow> bool \<times> cli" where
  "send_unchecked p c =
     (case p of None \<Rightarrow> (False, c\<lparr>ci_undefined := True\<rparr>) | Some buf \<Rightarrow> cli_send_all buf c)"

text \<open>DISCONNECT, \<open>close\<close>, exit code 0.\<close>

definition leave :: "cli \<Rightarrow> int \<times> cli" where
  "leave c = (0, close_fd (snd (send_unchecked (build_disconnect CLI_BUF_SIZE) c)))"

subsection \<open>CONNECT and CONNACK\<close>

text \<open>The session-present flag, or \<open>None\<close> when the broker does not accept the connection.\<close>

definition do_connect ::
  "cstr \<Rightarrow> cstr option \<Rightarrow> cstr option \<Rightarrow> bool \<Rightarrow> cli \<Rightarrow> byte option \<times> cli" where
  "do_connect client_id user pass clean_session c =
     (let (ok, c) = send_built (build_connect CLI_BUF_SIZE client_id CLI_KEEPALIVE user pass clean_session) c
      in if \<not> ok then (None, c)
         else (case recv_pkt c of
                 (None, c) \<Rightarrow> (None, c)
               | (Some pkt, c) \<Rightarrow>
                   if pkt_type pkt \<noteq> MQTT_CONNACK \<or> length (pkt_buf pkt) < 2
                     then (None, say UnexpectedResponse c)
                   else if pkt_buf pkt ! 1 \<noteq> CONNACK_ACCEPTED
                     then (None, say (BrokerRefused (pkt_buf pkt ! 1)) c)
                   else (Some (pkt_buf pkt ! 0 AND 1), c)))"

text \<open>The start of every command: the connection and the handshake, or exit code 1.\<close>

definition cli_start :: "sock \<Rightarrow> errno \<Rightarrow> cli" where
  "cli_start s e = \<lparr>ci_sock = s, ci_out = [], ci_err = [], ci_errno = e, ci_undefined = False\<rparr>"

definition dial_failed :: "errno \<Rightarrow> int \<times> cli" where
  "dial_failed e = (1, say DialFailed (cli_start quiet_sock e))"

subsection \<open>Publishing\<close>

text \<open>A reply of two bytes or more of type \<open>t\<close>, and the packet id at its start.\<close>

definition ack_of :: "byte \<Rightarrow> mqtt_packet option \<Rightarrow> u16 option" where
  "ack_of t r =
     (case r of
        None \<Rightarrow> None
      | Some pkt \<Rightarrow> if pkt_type pkt \<noteq> t \<or> length (pkt_buf pkt) < 2 then None else Some (read_u16 (pkt_buf pkt) 0))"

definition cli_message :: "cstr \<Rightarrow> byte list \<Rightarrow> byte \<Rightarrow> byte \<Rightarrow> mqtt_publish" where
  "cli_message topic message qos retain = zero_publish\<lparr>
     pub_topic := strncpy_str MQTT_TOPIC_MAX topic, pub_payload := message, pub_qos := qos,
     pub_retain := retain, pub_packet_id := (if qos > 0 then 1 else 0)\<rparr>"

definition published_line :: "cstr \<Rightarrow> byte list \<Rightarrow> byte list" where
  "published_line topic message = ascii ''published '' @ [39] @ message @ [39] @ ascii '' -> '' @ topic"

definition pub_finish :: "cstr \<Rightarrow> byte list \<Rightarrow> cli \<Rightarrow> int \<times> cli" where
  "pub_finish topic message c =
     (let (code, c) = leave c in (code, print_line (published_line topic message) c))"

definition await_puback :: "cli \<Rightarrow> diag option \<times> cli" where
  "await_puback c =
     (case recv_pkt c of
        (None, c) \<Rightarrow> (Some NoPuback, c)
      | (Some pkt, c) \<Rightarrow> (if pkt_type pkt \<noteq> MQTT_PUBACK then Some NoPuback else None, c))"

definition qos2_exchange :: "u16 \<Rightarrow> cli \<Rightarrow> diag option \<times> cli" where
  "qos2_exchange pid c =
     (let (r, c) = recv_pkt c in
      case ack_of MQTT_PUBREC r of
        None \<Rightarrow> (Some NoPubrec, c)
      | Some ack_id \<Rightarrow>
          if ack_id \<noteq> pid then (Some PubrecMismatch, c)
          else (let (ok, c) = send_built (packet_build_pubrel pid CLI_BUF_SIZE) c in
            if \<not> ok then (Some PubrelFailed, c)
            else (let (r, c) = recv_pkt c in
              case ack_of MQTT_PUBCOMP r of
                None \<Rightarrow> (Some NoPubcomp, c)
              | Some ack_id \<Rightarrow> (if ack_id \<noteq> pid then Some PubcompMismatch else None, c))))"

definition cmd_pub ::
  "sock option \<Rightarrow> errno \<Rightarrow> cstr \<Rightarrow> cstr option \<Rightarrow> cstr option \<Rightarrow> cstr \<Rightarrow> byte list \<Rightarrow> byte \<Rightarrow> byte \<Rightarrow> bool
    \<Rightarrow> int \<times> cli" where
  "cmd_pub dial e client_id user pass topic message qos retain clean_session =
     (case dial of
        None \<Rightarrow> dial_failed e
      | Some s \<Rightarrow>
          (case do_connect client_id user pass clean_session (cli_start s e) of
             (None, c) \<Rightarrow> (1, close_fd c)
           | (Some sp, c) \<Rightarrow>
               if length message > MQTT_PAYLOAD_MAX then fail MessageTooLong c
               else (let pub = cli_message topic message qos retain;
                         (ok, c) = send_built (packet_build_publish pub CLI_BUF_SIZE) c
                     in if \<not> ok then fail PublishFailed c
                        else (let (err, c) = (if qos = 1 then await_puback c
                                              else if qos = 2 then qos2_exchange (pub_packet_id pub) c
                                              else (None, c))
                              in case err of
                                   Some d \<Rightarrow> fail d c
                                 | None \<Rightarrow> pub_finish topic message c))))"

subsection \<open>Subscribing\<close>

text \<open>
  A message is printed as text, so up to its first NUL. The NUL behind the payload is written outside
  the payload when that has its full size.
\<close>

definition message_line :: "mqtt_publish \<Rightarrow> byte list" where
  "message_line pub = pub_topic pub @ [32] @ c_text (pub_payload pub)"

definition terminate_payload :: "mqtt_publish \<Rightarrow> cli \<Rightarrow> cli" where
  "terminate_payload pub c =
     (if length (pub_payload pub) \<ge> MQTT_PAYLOAD_MAX then c\<lparr>ci_undefined := True\<rparr> else c)"

text \<open>One packet of the loop that waits for the SUBACK.\<close>

definition drained :: "mqtt_publish \<Rightarrow> mqtt_packet \<Rightarrow> cli \<Rightarrow> cli" where
  "drained junk pkt c =
     (if pkt_type pkt = MQTT_PUBLISH then
        (case packet_parse_publish pkt junk of
           None \<Rightarrow> c
         | Some pub \<Rightarrow>
             (let c = print_line (message_line pub) (terminate_payload pub c)
              in if pub_qos pub = 1 then send_ack (packet_build_puback (pub_packet_id pub) 4) c
                 else if pub_qos pub = 2 then send_ack (packet_build_pubrec (pub_packet_id pub) 4) c
                 else c))
      else if pkt_type pkt = MQTT_PUBREL then
        (if length (pkt_buf pkt) \<ge> 2 then send_ack (packet_build_pubcomp (read_u16 (pkt_buf pkt) 0) 4) c else c)
      else c)"

text \<open>Reading takes what is read off the script of the socket, and sending leaves it alone.\<close>

definition rx_size :: "sock \<Rightarrow> nat" where
  "rx_size s = (\<Sum>ev \<leftarrow> so_rx s. Suc (case ev of RxData bs \<Rightarrow> length bs | _ \<Rightarrow> 0))"

lemma plat_recv_size:
  assumes "plat_recv n s = (r, s')"
  shows "rx_size s' \<le> rx_size s" and "r = Inr bs \<Longrightarrow> 0 < n \<Longrightarrow> rx_size s' < rx_size s"
  using assms by (auto simp: plat_recv_def rx_size_def split: list.splits rx_event.splits if_splits)

lemma recv_exact_size: "recv_exact n s = (r, s') \<Longrightarrow> rx_size s' \<le> rx_size s"
proof (induction n s arbitrary: r s' rule: recv_exact.induct)
  case (1 n s)
  show ?case
  proof (cases "n = 0")
    case True
    then show ?thesis using "1.prems" by (simp add: recv_exact.simps [of 0])
  next
    case False
    obtain r1 s1 where r1: "plat_recv n s = (r1, s1)" by (cases "plat_recv n s")
    show ?thesis
    proof (cases r1)
      case (Inl e)
      then show ?thesis using "1.prems" False r1 plat_recv_size(1) [OF r1] by (simp add: recv_exact.simps [of n])
    next
      case (Inr bs)
      obtain r2 s2 where r2: "recv_exact (n - length bs) s1 = (r2, s2)" by (cases "recv_exact (n - length bs) s1")
      then have "s' = s2" using "1.prems" False r1 Inr by (auto simp: recv_exact.simps [of n] split: sum.splits)
      then show ?thesis using "1.IH" [OF False r1 [symmetric] Inr r2] plat_recv_size(1) [OF r1] by simp
    qed
  qed
qed

lemma recv_exact_1_size: "recv_exact 1 s = (Inr bs, s') \<Longrightarrow> rx_size s' < rx_size s"
  using plat_recv_size(2) [of 1 s] recv_exact_size
  by (subst (asm) recv_exact.simps) (fastforce split: prod.splits sum.splits)

lemma recv_rlen_size: "cli_recv_rlen k rlen s = (r, s') \<Longrightarrow> rx_size s' \<le> rx_size s"
proof (induction k rlen s arbitrary: r s' rule: cli_recv_rlen.induct)
  case (1 k rlen s)
  obtain r1 s1 where r1: "recv_exact 1 s = (r1, s1)" by (cases "recv_exact 1 s")
  show ?case
    using "1.prems" "1.IH" [of r1 s1] r1 recv_exact_size [OF r1]
    by (subst (asm) cli_recv_rlen.simps)
      (force simp: cli_recv_all_def Let_def split: sum.splits if_splits)
qed

lemma recv_pkt_size: "recv_pkt c = (Some pkt, c') \<Longrightarrow> rx_size (ci_sock c') < rx_size (ci_sock c)"
proof -
  assume "recv_pkt c = (Some pkt, c')"
  then have r: "sock_recv_pkt (ci_sock c) = (Inr pkt, ci_sock c')"
    by (auto simp: recv_pkt_def Let_def split: prod.splits sum.splits option.splits)
  obtain bs s1 where s1: "recv_exact 1 (ci_sock c) = (Inr bs, s1)"
    using r by (auto simp: sock_recv_pkt_def cli_recv_all_def split: prod.splits sum.splits)
  obtain n s2 where s2: "cli_recv_rlen 0 0 s1 = (Inr n, s2)"
    using r s1 by (auto simp: sock_recv_pkt_def cli_recv_all_def split: prod.splits sum.splits)
  obtain r3 where "recv_exact (unat n) s2 = (r3, ci_sock c')"
    using r s1 s2 by (auto simp: sock_recv_pkt_def cli_recv_all_def split: prod.splits sum.splits if_splits)
  then show ?thesis using recv_exact_1_size [OF s1] recv_rlen_size [OF s2] recv_exact_size by fastforce
qed

lemma plat_send_rx: "so_rx (snd (plat_send buf s)) = so_rx s"
  by (simp add: plat_send_def split: list.split)

lemma send_loop_rx: "so_rx (snd (send_loop buf s)) = so_rx s"
proof (induction buf s rule: send_loop.induct)
  case (1 buf s)
  obtain r s1 where r: "plat_send buf s = (r, s1)" by (cases "plat_send buf s")
  then show ?case
    using 1 [of "(r, s1)" r s1] plat_send_rx [of buf s] by (subst send_loop.simps) (simp add: Let_def)
qed

lemma send_rx:
  "so_rx (ci_sock (snd (cli_send_all buf c))) = so_rx (ci_sock c)"
  "so_rx (ci_sock (snd (send_built p c))) = so_rx (ci_sock c)"
  "so_rx (ci_sock (send_ack p c)) = so_rx (ci_sock c)"
  "so_rx (ci_sock (snd (send_unchecked p c))) = so_rx (ci_sock c)"
  using send_loop_rx
  by (auto simp: cli_send_all_def send_built_def send_ack_def send_unchecked_def split: option.split prod.split)
    (metis snd_conv)+

lemma drained_rx: "rx_size (ci_sock (drained junk pkt c)) = rx_size (ci_sock c)"
  by (simp add: drained_def rx_size_def send_rx print_line_def terminate_payload_def Let_def
        split: option.split)

function wait_suback :: "mqtt_publish \<Rightarrow> cli \<Rightarrow> mqtt_packet option \<times> cli" where
  "wait_suback junk c =
     (case recv_pkt c of
        (None, c) \<Rightarrow> (None, c)
      | (Some pkt, c) \<Rightarrow>
          if pkt_type pkt = MQTT_SUBACK then (Some pkt, c) else wait_suback junk (drained junk pkt c))"
  by pat_completeness auto
termination
  by (relation "measure (\<lambda>(junk, c). rx_size (ci_sock c))") (auto simp: drained_rx dest!: recv_pkt_size [OF sym])

declare wait_suback.simps [simp del]

text \<open>
  One packet of the main loop: whether the limit is reached, the number of messages printed. (The
  counter is an \<open>int\<close> of C, which \<open>2 ^ 31\<close> messages would exhaust.)
\<close>

definition sub_packet :: "mqtt_publish \<Rightarrow> int \<Rightarrow> mqtt_packet \<Rightarrow> int \<Rightarrow> cli \<Rightarrow> bool \<times> int \<times> cli" where
  "sub_packet junk limit pkt received c =
     (if pkt_type pkt = MQTT_PUBLISH then
        (case packet_parse_publish pkt junk of
           None \<Rightarrow> (False, received, c)
         | Some pub \<Rightarrow>
             (let c = terminate_payload pub c;
                  c = (if pub_qos pub = 1
                         then snd (send_unchecked (packet_build_puback (pub_packet_id pub) CLI_BUF_SIZE) c)
                       else if pub_qos pub = 2
                         then snd (send_unchecked (packet_build_pubrec (pub_packet_id pub) CLI_BUF_SIZE) c)
                       else c);
                  c = print_line (message_line pub) c;
                  received = received + 1
              in (limit > 0 \<and> received \<ge> limit, received, c)))
      else if pkt_type pkt = MQTT_PUBREL then
        (False, received,
         if length (pkt_buf pkt) \<ge> 2
         then snd (send_unchecked (packet_build_pubcomp (read_u16 (pkt_buf pkt) 0) CLI_BUF_SIZE) c) else c)
      else (False, received, c))"

text \<open>
  The main loop. \<open>runs\<close> holds what the loop sees of \<open>g_running\<close>, which the signal handler clears:
  per iteration its value at the head of the loop and the one in front of the error message. The loop
  is observed for \<open>length runs\<close> iterations: the first component says whether it has ended by then.
\<close>

fun sub_loop :: "mqtt_publish \<Rightarrow> int \<Rightarrow> (bool \<times> bool) list \<Rightarrow> nat \<Rightarrow> int \<Rightarrow> cli \<Rightarrow> bool \<times> cli" where
  "sub_loop junk limit [] idle received c = (False, c)"
| "sub_loop junk limit ((run, run') # runs) idle received c =
     (if \<not> run then (True, c)
      else case recv_pkt c of
             (None, c) \<Rightarrow>
               if ci_errno c = EAGAIN then
                 (if Suc idle \<ge> CLI_PING_TICKS
                  then (let (ok, c) = send_unchecked (build_pingreq CLI_BUF_SIZE) c
                        in if \<not> ok then (True, c) else sub_loop junk limit runs 0 received c)
                  else sub_loop junk limit runs (Suc idle) received c)
               else (True, if run' then say ConnectionLost c else c)
           | (Some pkt, c) \<Rightarrow>
               (let (stop, received, c) = sub_packet junk limit pkt received c
                in if stop then (True, c) else sub_loop junk limit runs 0 received c))"

definition suback_refused :: "mqtt_packet \<Rightarrow> bool" where
  "suback_refused pkt \<longleftrightarrow> length (pkt_buf pkt) \<ge> 3 \<and> pkt_buf pkt ! 2 AND 0x80 \<noteq> 0"

text \<open>The exit code is \<open>None\<close> while the command is still running.\<close>

definition cmd_sub ::
  "sock option \<Rightarrow> errno \<Rightarrow> cstr \<Rightarrow> cstr option \<Rightarrow> cstr option \<Rightarrow> cstr \<Rightarrow> byte \<Rightarrow> bool \<Rightarrow> int
    \<Rightarrow> mqtt_publish \<Rightarrow> (bool \<times> bool) list \<Rightarrow> int option \<times> cli" where
  "cmd_sub dial e client_id user pass topic qos clean_session limit junk runs =
     (case dial of
        None \<Rightarrow> map_prod Some id (dial_failed e)
      | Some s \<Rightarrow>
          (case do_connect client_id user pass clean_session (cli_start s e) of
             (None, c) \<Rightarrow> (Some 1, close_fd c)
           | (Some sp, c) \<Rightarrow>
               (let c = (if sp = 1 then say SessionResumed c else c);
                    (ok, c) = send_built (build_subscribe CLI_BUF_SIZE topic qos 1) c
                in if \<not> ok then (Some 1, close_fd c)
                   else (case wait_suback junk c of
                           (None, c) \<Rightarrow> map_prod Some id (fail NoSuback c)
                         | (Some pkt, c) \<Rightarrow>
                             if suback_refused pkt then map_prod Some id (fail SubscriptionRefused c)
                             else (let (ended, c) = sub_loop junk limit runs 0 0
                                         (set_timeout 30 (say (Subscribed topic qos) c))
                                   in if ended then map_prod Some id (leave c) else (None, c))))))"

subsection \<open>Unsubscribing\<close>

text \<open>What still arrives after the UNSUBACK is reported.\<close>

definition unexpected :: "mqtt_publish \<Rightarrow> mqtt_packet \<Rightarrow> cli \<Rightarrow> cli" where
  "unexpected junk pkt c =
     (if pkt_type pkt \<noteq> MQTT_PUBLISH then c
      else case packet_parse_publish pkt junk of
             None \<Rightarrow> c
           | Some pub \<Rightarrow> say (UnexpectedMessage (pub_topic pub) (c_text (pub_payload pub))) (terminate_payload pub c))"

lemma unexpected_rx: "rx_size (ci_sock (unexpected junk pkt c)) = rx_size (ci_sock c)"
  by (simp add: unexpected_def say_def terminate_payload_def rx_size_def split: option.split)

function drain_unexpected :: "mqtt_publish \<Rightarrow> cli \<Rightarrow> cli" where
  "drain_unexpected junk c =
     (case recv_pkt c of
        (None, c) \<Rightarrow> c
      | (Some pkt, c) \<Rightarrow> drain_unexpected junk (unexpected junk pkt c))"
  by pat_completeness auto
termination
  by (relation "measure (\<lambda>(junk, c). rx_size (ci_sock c))") (auto simp: unexpected_rx dest!: recv_pkt_size [OF sym])

declare drain_unexpected.simps [simp del]

text \<open>A request and the reply of type \<open>t\<close>: \<open>Inl\<close> the end of the command.\<close>

definition ask :: "byte list option \<Rightarrow> byte \<Rightarrow> diag \<Rightarrow> cli \<Rightarrow> (int \<times> cli) + cli" where
  "ask p t d c =
     (let (ok, c) = send_built p c
      in if \<not> ok then Inl (1, close_fd c)
         else case recv_pkt c of
                (None, c) \<Rightarrow> Inl (fail d c)
              | (Some pkt, c) \<Rightarrow> if pkt_type pkt \<noteq> t then Inl (fail d c) else Inr c)"

definition cmd_unsub ::
  "sock option \<Rightarrow> errno \<Rightarrow> cstr \<Rightarrow> cstr option \<Rightarrow> cstr option \<Rightarrow> cstr \<Rightarrow> byte \<Rightarrow> mqtt_publish \<Rightarrow> int \<times> cli" where
  "cmd_unsub dial e client_id user pass topic qos junk =
     (case dial of
        None \<Rightarrow> dial_failed e
      | Some s \<Rightarrow>
          (case do_connect client_id user pass True (cli_start s e) of
             (None, c) \<Rightarrow> (1, close_fd c)
           | (Some sp, c) \<Rightarrow>
               (case ask (build_subscribe CLI_BUF_SIZE topic qos 1) MQTT_SUBACK NoSuback c of
                  Inl r \<Rightarrow> r
                | Inr c \<Rightarrow>
                    (case ask (build_unsubscribe CLI_BUF_SIZE topic 2) MQTT_UNSUBACK NoUnsuback
                            (say (SubscribedTo topic) c) of
                       Inl r \<Rightarrow> r
                     | Inr c \<Rightarrow>
                         leave (drain_unexpected junk (set_timeout 1 (say (UnsubscribedFrom topic) c)))))))"

subsection \<open>The status of the dashboard\<close>

abbreviation (input) RESP_BUF :: nat where "RESP_BUF \<equiv> 8192"

definition status_request :: "cstr \<Rightarrow> byte list" where
  "status_request host = ascii ''GET /api/status HTTP/1.0'' @ CRLF @ ascii ''Host: '' @ host @ CRLF @
     ascii ''Accept: application/json'' @ HEAD_END"

function status_read :: "byte list \<Rightarrow> sock \<Rightarrow> byte list \<times> sock" where
  "status_read resp s =
     (if \<not> length resp < RESP_BUF - 1 then (resp, s)
      else case plat_recv (RESP_BUF - 1 - length resp) s of
             (Inl e, s) \<Rightarrow> (resp, s)
           | (Inr bs, s) \<Rightarrow> status_read (resp @ bs) s)"
  by pat_completeness auto
termination
  by (relation "measure (\<lambda>(resp, s). RESP_BUF - 1 - length resp)")
    (auto dest!: plat_recv_progress [OF sym] intro!: diff_less_mono2)

declare status_read.simps [simp del]

text \<open>
  \<open>host\<close> was accepted by \<open>inet_pton\<close>, so it has at most 15 characters and the request fits its buffer.
\<close>

definition cmd_status :: "sock option \<Rightarrow> errno \<Rightarrow> cstr \<Rightarrow> int \<times> cli" where
  "cmd_status dial e host =
     (case dial of
        None \<Rightarrow> dial_failed e
      | Some s \<Rightarrow>
          (let (ok, c) = cli_send_all (status_request host) (cli_start s e)
           in if \<not> ok then (1, close_fd c)
              else (let (resp, s) = status_read [] (ci_sock c); c = close_fd (c\<lparr>ci_sock := s\<rparr>)
                    in case strstr HEAD_END (c_text resp) of
                         None \<Rightarrow> (1, say UnexpectedHttp c)
                       | Some body \<Rightarrow> (0, print_line (drop 4 body) c))))"

subsection \<open>The command line\<close>

text \<open>
  The options \<open>getopt\<close> returns, as their letter and argument (\<open>?\<close> for one it does not know). The
  client id is a buffer of 24 bytes of which the last is never written: \<open>stale\<close> is what it holds, and
  \<open>beyond\<close> what follows in memory and is read when there is no NUL in the buffer.
\<close>

record cli_args =
  ar_host :: cstr
  ar_port :: u16
  ar_cid :: "byte list"
  ar_user :: "cstr option"
  ar_pass :: "cstr option"
  ar_topic :: "cstr option"
  ar_message :: "cstr option"
  ar_qos :: byte
  ar_retain :: byte
  ar_clean_session :: bool
  ar_limit :: int

definition strncpy_buf :: "nat \<Rightarrow> cstr \<Rightarrow> byte list" where
  "strncpy_buf n s = take n s @ replicate (n - length s) 0"

definition set_cid :: "cstr \<Rightarrow> cli_args \<Rightarrow> cli_args" where
  "set_cid s a = a\<lparr>ar_cid := strncpy_buf (MQTT_CLIENT_ID_MAX - 1) s @ drop (MQTT_CLIENT_ID_MAX - 1) (ar_cid a)\<rparr>"

definition default_args :: "nat \<Rightarrow> byte \<Rightarrow> cli_args" where
  "default_args pid stale = \<lparr>ar_host = ascii ''127.0.0.1'', ar_port = 0,
     ar_cid = strncpy_buf (MQTT_CLIENT_ID_MAX - 1) (ascii ''mqtt_cli_'' @ dec pid) @ [stale], ar_user = None,
     ar_pass = None, ar_topic = None, ar_message = None, ar_qos = 0, ar_retain = 0,
     ar_clean_session = True, ar_limit = 0\<rparr>"

definition set_option :: "char \<times> cstr \<Rightarrow> cli_args \<Rightarrow> cli_args option" where
  "set_option opt a =
     (let (letter, arg) = opt in
      if letter = CHR ''h'' then Some (a\<lparr>ar_host := arg\<rparr>)
      else if letter = CHR ''p'' then Some (a\<lparr>ar_port := word_of_int (atoi arg)\<rparr>)
      else if letter = CHR ''i'' then Some (set_cid arg a)
      else if letter = CHR ''u'' then Some (a\<lparr>ar_user := Some arg\<rparr>)
      else if letter = CHR ''P'' then Some (a\<lparr>ar_pass := Some arg\<rparr>)
      else if letter = CHR ''t'' then Some (a\<lparr>ar_topic := Some arg\<rparr>)
      else if letter = CHR ''m'' then Some (a\<lparr>ar_message := Some arg\<rparr>)
      else if letter = CHR ''q'' then Some (a\<lparr>ar_qos := word_of_int (atoi arg)\<rparr>)
      else if letter = CHR ''r'' then Some (a\<lparr>ar_retain := 1\<rparr>)
      else if letter = CHR ''s'' then Some (a\<lparr>ar_clean_session := False\<rparr>)
      else if letter = CHR ''n'' then Some (a\<lparr>ar_limit := atoi arg\<rparr>)
      else None)"

fun set_options :: "(char \<times> cstr) list \<Rightarrow> cli_args \<Rightarrow> cli_args option" where
  "set_options [] a = Some a"
| "set_options (opt # opts) a =
     (case set_option opt a of None \<Rightarrow> None | Some a \<Rightarrow> set_options opts a)"

definition usage_exit :: "diag list \<Rightarrow> int option \<times> cli" where
  "usage_exit ds = (Some 1, (cli_start quiet_sock EOK)\<lparr>ci_err := ds\<rparr>)"

text \<open>\<open>net host port\<close> is the result of \<open>tcp_connect\<close>; \<open>cmd\<close> the first argument of the program, if any.\<close>

definition cli_main ::
  "(cstr \<Rightarrow> u16 \<Rightarrow> sock option) \<Rightarrow> errno \<Rightarrow> nat \<Rightarrow> byte \<Rightarrow> byte list \<Rightarrow> mqtt_publish \<Rightarrow> (bool \<times> bool) list
    \<Rightarrow> string option \<Rightarrow> (char \<times> cstr) list \<Rightarrow> int option \<times> cli" where
  "cli_main net e pid stale beyond junk runs cmd opts =
     (case (if cmd = None then None else set_options opts (default_args pid stale)) of
        None \<Rightarrow> usage_exit [Usage]
      | Some a \<Rightarrow>
          (let cid = c_text (ar_cid a @ beyond);
               port = (\<lambda>default. if ar_port a = 0 then default else ar_port a);
               user = ar_user a; pass = ar_pass a
           in if cmd = Some ''pub'' then
                (case (ar_topic a, ar_message a) of
                   (Some topic, Some message) \<Rightarrow>
                     map_prod Some id (cmd_pub (net (ar_host a) (port 1883)) e cid user pass topic message
                       (ar_qos a) (ar_retain a) (ar_clean_session a))
                 | _ \<Rightarrow> usage_exit [OptionMissing])
              else if cmd = Some ''sub'' then
                (case ar_topic a of
                   Some topic \<Rightarrow> cmd_sub (net (ar_host a) (port 1883)) e cid user pass topic (ar_qos a)
                     (ar_clean_session a) (ar_limit a) junk runs
                 | None \<Rightarrow> usage_exit [OptionMissing])
              else if cmd = Some ''unsub'' then
                (case ar_topic a of
                   Some topic \<Rightarrow> map_prod Some id
                     (cmd_unsub (net (ar_host a) (port 1883)) e cid user pass topic (ar_qos a) junk)
                 | None \<Rightarrow> usage_exit [OptionMissing])
              else if cmd = Some ''status'' then map_prod Some id (cmd_status (net (ar_host a) (port 8080)) e (ar_host a))
              else usage_exit [UnknownCommand, Usage]))"

end
