(* ===== verification/Cli_Properties.thy ===== *)
theory Cli_Properties
  imports Cli Http_Properties
begin

text \<open>
  What the command line client does against a broker: it reads packets as the broker does, its packets
  are the ones the broker's parsers accept, a published message arrives unchanged, success is reported
  only for what the broker has acknowledged, and a subscriber prints every message it is sent.
\<close>

subsection \<open>Reading\<close>

text \<open>Two bytes at once, as the broker reads the start of a packet, or one after the other.\<close>

lemma recv_exact_0: "recv_exact 0 s = (Inr [], s)"
  by (simp add: recv_exact.simps [of 0])

lemma recv_exact_1: "recv_exact (Suc 0) s = plat_recv (Suc 0) s"
proof -
  have "length bs = Suc 0" if "plat_recv (Suc 0) s = (Inr bs, s')" for bs s'
    using plat_recv_progress [OF that] by (cases bs) auto
  then show ?thesis
    by (subst recv_exact.simps) (auto split: prod.split sum.split simp: recv_exact_0)
qed

lemma recv_exact_1_one: "recv_exact (Suc 0) s = (Inr bs, s') \<Longrightarrow> \<exists>b. bs = [b]"
  by (cases bs) (auto simp: recv_exact_1 dest!: plat_recv_progress)

lemma recv_exact_2:
  "recv_exact 2 s = (case recv_exact (Suc 0) s of
     (Inl e, s) \<Rightarrow> (Inl e, s)
   | (Inr bs, s) \<Rightarrow> (case recv_exact (Suc 0) s of (Inl e, s) \<Rightarrow> (Inl e, s) | (Inr cs, s) \<Rightarrow> (Inr (bs @ cs), s)))"
proof (cases "so_rx s")
  case Nil
  then show ?thesis by (simp add: recv_exact.simps [of 2] recv_exact_1 plat_recv_def)
next
  case (Cons ev evs)
  show ?thesis
  proof (cases ev)
    case (RxData bs)
    consider "bs = []" | b where "bs = [b]" | b c cs where "bs = b # c # cs"
      by (cases bs; cases "tl bs") auto
    then show ?thesis
      by cases (use Cons RxData in \<open>simp_all add: recv_exact.simps [of 2] recv_exact_1 recv_exact_0 plat_recv_def\<close>)
  qed (use Cons in \<open>simp_all add: recv_exact.simps [of 2] recv_exact_1 plat_recv_def\<close>)
qed

lemma cli_recv_rlen_eq:
  "cli_recv_rlen k rlen s =
     (case recv_exact (Suc 0) s of
        (Inl e, s) \<Rightarrow> (Inl e, s)
      | (Inr bs, s) \<Rightarrow>
          (let rlen = rlen + ucast (hd bs AND 0x7F) * 128 ^ k
           in if 3 < Suc k then (Inl None, s) else recv_rlen (Suc k) (hd bs) rlen s))"
proof (induction k rlen s rule: cli_recv_rlen.induct)
  case (1 k rlen s)
  show ?case
  proof (cases "recv_exact (Suc 0) s")
    case (Pair r s1)
    show ?thesis
    proof (cases r)
      case (Inr bs)
      show ?thesis
      proof (cases "3 < Suc k \<or> hd bs AND 0x80 = 0")
        case True
        then show ?thesis
          using Pair Inr by (subst cli_recv_rlen.simps) (auto simp: cli_recv_all_def Let_def recv_rlen.simps)
      next
        case False
        then have "cli_recv_rlen (Suc k) (rlen + ucast (hd bs AND 0x7F) * 128 ^ k) s1 =
            recv_rlen (Suc k) (hd bs) (rlen + ucast (hd bs AND 0x7F) * 128 ^ k) s1"
          using "1.IH" [of r s1 bs] Pair Inr
          by (subst recv_rlen.simps) (simp add: cli_recv_all_def Let_def)
        then show ?thesis
          using False Pair Inr by (subst cli_recv_rlen.simps) (simp add: cli_recv_all_def Let_def)
      qed
    qed (use Pair in \<open>simp add: cli_recv_rlen.simps [of k] cli_recv_all_def\<close>)
  qed
qed

lemma recv_pkt_reads: "sock_recv_pkt s = sock_recv_packet s"
proof (cases "recv_exact (Suc 0) s")
  case (Pair r s1)
  show ?thesis
  proof (cases r)
    case (Inl e)
    then show ?thesis using Pair by (simp add: sock_recv_pkt_def sock_recv_packet_def cli_recv_all_def recv_exact_2)
  next
    case (Inr bs)
    obtain t where t: "bs = [t]" using recv_exact_1_one Pair Inr by blast
    obtain r2 s2 where s2: "recv_exact (Suc 0) s1 = (r2, s2)" by (cases "recv_exact (Suc 0) s1")
    show ?thesis
    proof (cases r2)
      case (Inr cs)
      obtain l where "cs = [l]" using recv_exact_1_one s2 Inr by blast
      then show ?thesis
        using Pair \<open>r = Inr bs\<close> t s2 Inr
        by (simp add: sock_recv_pkt_def sock_recv_packet_def cli_recv_all_def recv_exact_2 cli_recv_rlen_eq [of 0] split: prod.split sum.split)
    qed (use Pair Inr t s2 in \<open>simp add: sock_recv_pkt_def sock_recv_packet_def cli_recv_all_def recv_exact_2 cli_recv_rlen_eq [of 0]\<close>)
  qed
qed

text \<open>
  C34: the client and the broker read packets alike: from every state of a connection, whatever it
  delivers and however it fails, the two readers return the same packet or the same error and leave the
  connection in the same state. Both refuse a remaining length of four bytes.
\<close>

theorem cli_reads_as_broker: "sock_recv_pkt s = sock_recv_packet s"
  by (rule recv_pkt_reads)

subsection \<open>The packets it sends\<close>

lemma frame_ex: "n < 2 ^ 28 \<Longrightarrow> \<exists>enc. packet_encode_remaining_len (word_of_nat n) = Some enc \<and> length enc \<le> 4"
  using encode_small_ex [of n] encode_length by blast

text \<open>What a builder returns is a frame of its body, and it does so when the body fits.\<close>

lemma finish_Some: "length body < 2 ^ 28 \<Longrightarrow> finish cap t body = Some bytes \<Longrightarrow> bytes = frame (t, body)"
  using frame_ex [of "length body"] by (auto simp: finish_def frame_def split: if_splits)

lemma finish_frame: "length body \<le> MQTT_MAX_PACKET_SIZE \<Longrightarrow> finish CLI_BUF_SIZE t body = Some (frame (t, body))"
  using frame_ex [of "length body"] by (auto simp: finish_def frame_def)

lemma cut16_id [simp]: "length s < 2 ^ 16 \<Longrightarrow> cut16 s = length s"
  by (simp add: cut16_def)

lemma write_cut_id: "length s < 2 ^ 16 \<Longrightarrow> write_cut s = write_str s"
  by (simp add: write_cut_def write_str_def)

definition opt_text :: "cstr option \<Rightarrow> cstr" where
  "opt_text s = (case s of None \<Rightarrow> [] | Some t \<Rightarrow> t)"

definition cli_connect :: "cstr \<Rightarrow> cstr option \<Rightarrow> cstr option \<Rightarrow> bool \<Rightarrow> mqtt_connect" where
  "cli_connect cid user pass clean = zero_connect\<lparr>conn_client_id := cid, conn_clean_session := clean,
     conn_keepalive := CLI_KEEPALIVE, conn_has_username := (user \<noteq> None), conn_username := opt_text user,
     conn_has_password := (pass \<noteq> None), conn_password := opt_text pass\<rparr>"

definition identity_ok :: "cstr \<Rightarrow> cstr option \<Rightarrow> cstr option \<Rightarrow> bool" where
  "identity_ok cid user pass \<longleftrightarrow> length cid < MQTT_CLIENT_ID_MAX \<and> length (opt_text user) < MQTT_USERNAME_MAX \<and>
     length (opt_text pass) < MQTT_PASSWORD_MAX \<and> (pass \<noteq> None \<longrightarrow> user \<noteq> None)"

text \<open>The strings of a command line: no NUL, and short enough for their length field.\<close>

definition arg_ok :: "cstr \<Rightarrow> bool" where
  "arg_ok s \<longleftrightarrow> cstr_ok s \<and> length s < 2 ^ 16"

lemma build_connect_finish:
  assumes "arg_ok cid" and "arg_ok (opt_text user)" and "arg_ok (opt_text pass)"
  shows "build_connect cap cid CLI_KEEPALIVE user pass clean =
    finish cap MQTT_CONNECT (connect_body (cli_connect cid user pass clean))"
proof -
  have "(case user of None \<Rightarrow> [] | Some u \<Rightarrow> write_cut u) = (if user \<noteq> None then write_str (opt_text user) else [])"
    "(case pass of None \<Rightarrow> [] | Some u \<Rightarrow> write_cut u) = (if pass \<noteq> None then write_str (opt_text pass) else [])"
    using assms(2,3) by (auto simp: opt_text_def arg_ok_def write_cut_id split: option.splits)
  then show ?thesis
    using assms(1)
    by (simp add: build_connect_def connect_body_def connect_will_body_def connect_cred_body_def cli_connect_def
        connect_flag_byte_def zero_connect_def write_cut_id arg_ok_def write_str_def write_u16_def
        or.assoc or.commute or.left_commute)
qed

text \<open>A string that is too long for the parser's buffer.\<close>

lemma read_str_too_long:
  assumes "length pre = i" and "cap \<le> length s" and "length s < 2 ^ 16"
  shows "read_str (pre @ write_str s @ rest) i cap = None"
proof -
  have "read_u16 (pre @ write_str s @ rest) i = word_of_nat (length s)"
    using read_u16_append [OF assms(1), of "word_of_nat (length s)" "s @ rest"] by (simp add: write_str_def)
  then have "unat (read_u16 (pre @ write_str s @ rest) i) = length s" using assms(3) by (simp add: unat_of_nat)
  then show ?thesis using assms(2) by (simp add: read_str_def Let_def)
qed

lemma connect_ok_cli:
  assumes "arg_ok cid" and "arg_ok (opt_text user)" and "arg_ok (opt_text pass)"
  shows "connect_ok (cli_connect cid user pass clean) \<longleftrightarrow> identity_ok cid user pass"
  using assms
  by (auto simp: connect_ok_def cli_connect_def identity_ok_def zero_connect_def arg_ok_def opt_text_def)

text \<open>The body determines the record: a string is found again behind its length.\<close>

lemma write_str_inject:
  assumes "length s < 2 ^ 16" and "length t < 2 ^ 16" and "write_str s @ x = write_str t @ y"
  shows "s = t \<and> x = y"
proof -
  have "write_u16 (word_of_nat (length s)) = write_u16 (word_of_nat (length t))"
    using assms(3) by (simp add: write_str_def append_eq_append_conv)
  then have "(word_of_nat (length s) :: u16) = word_of_nat (length t)"
    using read_u16_append [of "[]" 0 "word_of_nat (length s)" "[]"] read_u16_append [of "[]" 0 "word_of_nat (length t)" "[]"]
    by simp
  then have "unat (word_of_nat (length s) :: u16) = unat (word_of_nat (length t) :: u16)" by simp
  then have "length s = length t" using assms(1,2) by (simp add: unat_of_nat)
  then show ?thesis using assms(3) by (simp add: write_str_def append_eq_append_conv)
qed


lemma connect_rest_inject:
  assumes "connect_body k = connect_body c"
  shows "connect_flag_byte k = connect_flag_byte c"
    and "write_str (conn_client_id k) @ connect_will_body k @ connect_cred_body k =
         write_str (conn_client_id c) @ connect_will_body c @ connect_cred_body c"
  using assms by (simp_all add: connect_body_def write_u16_def)

lemma cli_connect_flags:
  "connect_set_flags (connect_flag_byte (cli_connect cid user pass clean)) zero_connect =
     zero_connect\<lparr>conn_clean_session := clean, conn_has_username := (user \<noteq> None), conn_has_password := (pass \<noteq> None)\<rparr>"
  by (cases user; cases pass; cases clean)
    (simp_all add: connect_set_flags_def connect_flag_byte_def cli_connect_def zero_connect_def)

lemma cli_connect_inject:
  assumes ok: "connect_ok c" and args: "arg_ok cid" "arg_ok (opt_text user)" "arg_ok (opt_text pass)"
    and eq: "connect_body (cli_connect cid user pass clean) = connect_body c"
  shows "identity_ok cid user pass"
proof -
  let ?k = "cli_connect cid user pass clean"
  have "connect_set_flags (connect_flag_byte c) zero_connect = connect_set_flags (connect_flag_byte ?k) zero_connect"
    using connect_rest_inject(1) [OF eq] by simp
  then have fl: "conn_has_will c = False" "conn_has_username c = (user \<noteq> None)" "conn_has_password c = (pass \<noteq> None)"
    unfolding connect_flag_bits(2) [OF ok] cli_connect_flags by (simp_all add: zero_connect_def)
  have lens: "length (conn_client_id c) < 24" "length (conn_username c) < 64" "length (conn_password c) < 64"
    "pass \<noteq> None \<longrightarrow> user \<noteq> None"
    using ok fl by (auto simp: connect_ok_def)
  have "write_str cid @ connect_cred_body ?k = write_str (conn_client_id c) @ connect_cred_body c"
    using connect_rest_inject(2) [OF eq] fl(1)
    by (simp add: connect_will_body_def cli_connect_def zero_connect_def)
  then have cred: "cid = conn_client_id c" "connect_cred_body ?k = connect_cred_body c"
    using write_str_inject [of cid "conn_client_id c"] args(1) lens(1) by (auto simp: arg_ok_def)
  have cb: "connect_cred_body c = (if user \<noteq> None then write_str (conn_username c) else []) @
      (if pass \<noteq> None then write_str (conn_password c) else [])"
    "connect_cred_body ?k = (if user \<noteq> None then write_str (opt_text user) else []) @
      (if pass \<noteq> None then write_str (opt_text pass) else [])"
    using fl(2,3) by (simp_all add: connect_cred_body_def cli_connect_def)
  have l16: "length (opt_text user) < 2 ^ 16" "length (opt_text pass) < 2 ^ 16" "length (conn_username c) < 2 ^ 16"
    "length (conn_password c) < 2 ^ 16"
    using args(2,3) lens(2,3) by (simp_all add: arg_ok_def)
  have u: "opt_text user = conn_username c \<and>
      (if pass \<noteq> None then write_str (opt_text pass) else []) = (if pass \<noteq> None then write_str (conn_password c) else [])"
    if "user \<noteq> None"
    using that cred(2) unfolding cb by (intro write_str_inject [OF l16(1,3)]) simp
  have "opt_text pass = conn_password c" if "pass \<noteq> None"
    using u lens(4) that write_str_inject [OF l16(2,4), of "[]" "[]"] by simp
  then show ?thesis
    using u cred(1) lens by (cases user; cases pass) (auto simp: identity_ok_def opt_text_def)
qed

lemma cli_connect_level:
  "packet_parse_connect (received (t, connect_body c)) zero_connect \<noteq> Inl UnsupportedLevel"
proof -
  have "read_str (connect_body c) 0 8 = Some ([0x4D, 0x51, 0x54, 0x54], 6)"
    using read_str_append [of "[]" 0 "[0x4D, 0x51, 0x54, 0x54]" 8]
    by (simp add: connect_body_def cstr_ok_def)
  moreover have "connect_body c ! 6 = 4" by (simp add: connect_body_def nth_append)
  ultimately show ?thesis
    by (simp add: packet_parse_connect_def received_def Let_def split: option.split)
qed

text \<open>
  The CONNECT of the client is what it looks like: the broker's parser returns exactly the client id, user
  name, password and session flag that were given when these fit the broker's buffers and no password
  comes without a user name; otherwise the parser refuses the packet. The client itself checks none of
  this.
\<close>

lemma cli_connect_parsed:
  assumes "arg_ok cid" and "arg_ok (opt_text user)" and "arg_ok (opt_text pass)"
  shows "packet_parse_connect (received (MQTT_CONNECT, connect_body (cli_connect cid user pass clean))) zero_connect =
      (if identity_ok cid user pass then Inr (cli_connect cid user pass clean) else Inl Malformed)"
proof -
  let ?k = "cli_connect cid user pass clean"
  show ?thesis
  proof (cases "identity_ok cid user pass")
    case True
    then show ?thesis
      using parse_connect_body [of ?k "received (MQTT_CONNECT, connect_body ?k)"] connect_ok_cli [OF assms]
      by (simp add: received_def)
  next
    case False
    have "packet_parse_connect (received (MQTT_CONNECT, connect_body ?k)) zero_connect \<noteq> Inr c" for c
      using parse_connect_inv [of "received (MQTT_CONNECT, connect_body ?k)" c] cli_connect_inject [OF _ assms] False
      by (auto simp: received_def)
    with cli_connect_level [of MQTT_CONNECT ?k] show ?thesis
      using False by (cases "packet_parse_connect (received (MQTT_CONNECT, connect_body ?k)) zero_connect")
        (auto intro: connect_error.exhaust)
  qed
qed

lemma build_connect_fits:
  assumes "arg_ok cid" and "arg_ok (opt_text user)" and "arg_ok (opt_text pass)" and "identity_ok cid user pass"
  shows "build_connect CLI_BUF_SIZE cid CLI_KEEPALIVE user pass clean =
    Some (frame (MQTT_CONNECT, connect_body (cli_connect cid user pass clean)))"
proof -
  have "length (connect_body (cli_connect cid user pass clean)) \<le> 704"
    using assms(4) by (auto simp: connect_body_def connect_will_body_def connect_cred_body_def cli_connect_def
        zero_connect_def identity_ok_def)
  then show ?thesis using finish_frame by (simp add: build_connect_finish [OF assms(1-3)])
qed

text \<open>Whatever CONNECT the client can build is that frame.\<close>

lemma build_connect_frame:
  assumes "arg_ok cid" and "arg_ok (opt_text user)" and "arg_ok (opt_text pass)"
    and "build_connect CLI_BUF_SIZE cid CLI_KEEPALIVE user pass clean = Some con"
  shows "con = frame (MQTT_CONNECT, connect_body (cli_connect cid user pass clean))"
    and "build_connect CLI_BUF_SIZE cid CLI_KEEPALIVE user pass clean =
      Some (frame (MQTT_CONNECT, connect_body (cli_connect cid user pass clean)))"
proof -
  have "length (connect_body (cli_connect cid user pass clean)) < 2 ^ 28"
    using assms(1-3) by (auto simp: connect_body_def connect_will_body_def connect_cred_body_def cli_connect_def
        zero_connect_def arg_ok_def)
  then show "con = frame (MQTT_CONNECT, connect_body (cli_connect cid user pass clean))"
    using assms(4) finish_Some by (simp add: build_connect_finish [OF assms(1-3)])
  then show "build_connect CLI_BUF_SIZE cid CLI_KEEPALIVE user pass clean =
      Some (frame (MQTT_CONNECT, connect_body (cli_connect cid user pass clean)))"
    using assms(4) by simp
qed

text \<open>SUBSCRIBE and UNSUBSCRIBE for a filter that fits.\<close>

lemma build_subscribe_fits:
  assumes "filter_ok topic" and "qos \<le> 2"
  shows "build_subscribe CLI_BUF_SIZE topic qos pid = Some (frame (MQTT_SUBSCRIBE OR 2, write_u16 pid @ sub_body [(topic, qos)]))"
proof -
  have "qos AND 3 = qos" using byte_le_2 [OF assms(2)] by auto
  moreover have "length topic < 128" using assms(1) by (simp add: filter_ok_def)
  ultimately show ?thesis
    by (simp add: build_subscribe_def write_cut_id sub_body_def finish_frame)
qed

lemma build_unsubscribe_fits:
  "filter_ok topic \<Longrightarrow> build_unsubscribe CLI_BUF_SIZE topic pid = Some (frame (MQTT_UNSUBSCRIBE OR 2, write_u16 pid @ unsub_body [topic]))"
  by (simp add: build_unsubscribe_def write_cut_id unsub_body_def finish_frame filter_ok_def)


subsection \<open>A run against a broker\<close>

text \<open>
  The connection of a client to a broker that takes what it is sent: what was sent so far, and the
  packets still to come, in whatever chunks, before \<open>rest\<close>.
\<close>

definition linked :: "byte list \<Rightarrow> (byte \<times> byte list) list \<Rightarrow> rx_event list \<Rightarrow> sock \<Rightarrow> bool" where
  "linked sent ps rest s \<longleftrightarrow> accepting s \<and> so_sent s = sent \<and> incoming (concat (map frame ps)) rest s"

lemma linked_send:
  assumes "linked sent ps rest (ci_sock c)"
  obtains s' where "cli_send_all buf c = (True, c\<lparr>ci_sock := s'\<rparr>)" and "linked (sent @ buf) ps rest s'"
proof -
  have "send_loop buf (ci_sock c) = (True, (ci_sock c)\<lparr>so_sent := so_sent (ci_sock c) @ buf\<rparr>)"
    using assms send_loop_accepting by (simp add: linked_def accepting_def)
  then show ?thesis
    using that [of "(ci_sock c)\<lparr>so_sent := so_sent (ci_sock c) @ buf\<rparr>"] assms
    by (simp add: cli_send_all_def linked_def accepting_def incoming_def)
qed

lemma linked_recv:
  assumes "linked sent (p # ps) rest (ci_sock c)" and "length (snd p) \<le> MQTT_MAX_PACKET_SIZE"
  obtains s' where "recv_pkt c = (Some (received p), c\<lparr>ci_sock := s'\<rparr>)" and "linked sent ps rest s'"
proof -
  obtain enc where enc: "packet_encode_remaining_len (of_nat (length (snd p))) = Some enc"
    using encode_Some_iff [of "of_nat (length (snd p))"] assms(2) by (auto simp: unat_of_nat)
  have "incoming (fst p # enc @ snd p @ concat (map frame ps)) rest (ci_sock c)"
    using assms(1) enc by (simp add: linked_def frame_def [of p])
  from sock_recv_incoming [OF this enc assms(2)] obtain s' where
    s': "sock_recv_packet (ci_sock c) = (Inr (received p), s')" "incoming (concat (map frame ps)) rest s'"
      "s'\<lparr>so_rx := []\<rparr> = (ci_sock c)\<lparr>so_rx := []\<rparr>"
    by (auto simp: received_def)
  have "recv_pkt c = (Some (received p), c\<lparr>ci_sock := s'\<rparr>)"
    using s'(1) by (simp add: recv_pkt_def recv_pkt_reads)
  moreover have "so_tx s' = so_tx (ci_sock c)" "so_sent s' = so_sent (ci_sock c)"
    using arg_cong [OF s'(3), of so_tx] arg_cong [OF s'(3), of so_sent] by simp_all
  then have "linked sent ps rest s'"
    using assms(1) s'(2) by (simp add: linked_def accepting_def)
  ultimately show ?thesis by (rule that)
qed

lemma linked_built:
  assumes "linked sent ps rest (ci_sock c)"
  obtains s' where "send_built (Some buf) c = (True, c\<lparr>ci_sock := s'\<rparr>)"
    and "send_unchecked (Some buf) c = (True, c\<lparr>ci_sock := s'\<rparr>)"
    and "send_ack (Some buf) c = c\<lparr>ci_sock := s'\<rparr>" and "linked (sent @ buf) ps rest s'"
  using linked_send [OF assms, of buf] that by (auto simp: send_built_def send_unchecked_def send_ack_def)

lemma pkt_type_received [simp]: "pkt_type (received (t, body)) = t AND 0xF0" "pkt_buf (received (t, body)) = body"
  by (simp_all add: pkt_type_def received_def)

lemma linked_leave:
  assumes "linked sent ps rest (ci_sock c)"
  obtains s' where "leave c = (0, c\<lparr>ci_sock := s'\<rparr>)" and "so_sent s' = sent @ frame (MQTT_DISCONNECT, [])" and "so_closed s'"
proof -
  obtain s1 where "send_unchecked (Some [0xE0, 0]) c = (True, c\<lparr>ci_sock := s1\<rparr>)" "linked (sent @ [0xE0, 0]) ps rest s1"
    using linked_built [OF assms] by metis
  then show ?thesis
    using that [of "s1\<lparr>so_closed := True\<rparr>"]
    by (simp add: leave_def build_disconnect_def close_fd_def frame_short linked_def)
qed

text \<open>The handshake, with a broker that accepts the connection.\<close>

lemma linked_connect:
  assumes "linked sent ((MQTT_CONNACK, [sp, CONNACK_ACCEPTED]) # ps) rest (ci_sock c)"
    and "arg_ok cid" and "arg_ok (opt_text user)" and "arg_ok (opt_text pass)" and 
      "build_connect CLI_BUF_SIZE cid CLI_KEEPALIVE user pass clean = Some con"
  obtains s' where "do_connect cid user pass clean c = (Some (sp AND 1), c\<lparr>ci_sock := s'\<rparr>)"
    and "linked (sent @ frame (MQTT_CONNECT, connect_body (cli_connect cid user pass clean))) ps rest s'"
proof -
  obtain s1 where s1: "send_built (build_connect CLI_BUF_SIZE cid CLI_KEEPALIVE user pass clean) c = (True, c\<lparr>ci_sock := s1\<rparr>)"
      "linked (sent @ frame (MQTT_CONNECT, connect_body (cli_connect cid user pass clean)))
        ((MQTT_CONNACK, [sp, CONNACK_ACCEPTED]) # ps) rest s1"
    using linked_built [OF assms(1)] unfolding build_connect_frame(2) [OF assms(2-5)] by metis
  from s1(2) have "linked (sent @ frame (MQTT_CONNECT, connect_body (cli_connect cid user pass clean)))
        ((MQTT_CONNACK, [sp, CONNACK_ACCEPTED]) # ps) rest (ci_sock (c\<lparr>ci_sock := s1\<rparr>))" by simp
  from linked_recv [OF this] obtain s2 where
    "recv_pkt (c\<lparr>ci_sock := s1\<rparr>) = (Some (received (MQTT_CONNACK, [sp, CONNACK_ACCEPTED])), c\<lparr>ci_sock := s2\<rparr>)"
    "linked (sent @ frame (MQTT_CONNECT, connect_body (cli_connect cid user pass clean))) ps rest s2"
    by auto
  then show ?thesis using that [of s2] s1(1) by (simp add: do_connect_def)
qed


text \<open>What the broker answers to a message with packet id 1, and what the client sends in between.\<close>

definition acks_for :: "byte \<Rightarrow> (byte \<times> byte list) list" where
  "acks_for qos = (if qos = 1 then [(MQTT_PUBACK, write_u16 1)]
     else if qos = 2 then [(MQTT_PUBREC, write_u16 1), (MQTT_PUBCOMP, write_u16 1)] else [])"

definition release_for :: "byte \<Rightarrow> (byte \<times> byte list) list" where
  "release_for qos = (if qos = 2 then [(MQTT_PUBREL OR 2, write_u16 1)] else [])"

lemma read_write_u16: "read_u16 (write_u16 v) 0 = v"
  using read_u16_append [of "[]" 0 v "[]"] by simp

lemma length_read_ack: "length (write_u16 v) = 2" "\<not> length (write_u16 v) < 2"
  by simp_all

lemma linked_exchange:
  assumes "linked sent (acks_for 2 @ ps) rest (ci_sock c)"
  obtains s' where "qos2_exchange 1 c = (None, c\<lparr>ci_sock := s'\<rparr>)"
    and "linked (sent @ concat (map frame (release_for 2))) ps rest s'"
proof -
  from assms have "linked sent ((MQTT_PUBREC, write_u16 1) # (MQTT_PUBCOMP, write_u16 1) # ps) rest (ci_sock c)"
    by (simp add: acks_for_def)
  from linked_recv [OF this] obtain s1 where
    s1: "recv_pkt c = (Some (received (MQTT_PUBREC, write_u16 1)), c\<lparr>ci_sock := s1\<rparr>)"
    "linked sent ((MQTT_PUBCOMP, write_u16 1) # ps) rest (ci_sock (c\<lparr>ci_sock := s1\<rparr>))" by auto
  obtain s2 where s2: "send_built (packet_build_pubrel 1 CLI_BUF_SIZE) (c\<lparr>ci_sock := s1\<rparr>) = (True, c\<lparr>ci_sock := s2\<rparr>)"
    "linked (sent @ concat (map frame (release_for 2))) ((MQTT_PUBCOMP, write_u16 1) # ps) rest (ci_sock (c\<lparr>ci_sock := s2\<rparr>))"
    using linked_built [OF s1(2), of "[MQTT_PUBREL OR 2, 2] @ write_u16 1"]
    by (auto simp: packet_build_pubrel_def release_for_def frame_short)
  from linked_recv [OF s2(2)] obtain s3 where
    s3: "recv_pkt (c\<lparr>ci_sock := s2\<rparr>) = (Some (received (MQTT_PUBCOMP, write_u16 1)), c\<lparr>ci_sock := s3\<rparr>)"
    "linked (sent @ concat (map frame (release_for 2))) ps rest s3" by auto
  show ?thesis
    by (rule that [OF _ s3(2)])
      (simp add: qos2_exchange_def s1(1) s2(1) s3(1) ack_of_def read_write_u16)
qed

lemma linked_await:
  assumes "linked sent (acks_for qos) rest (ci_sock c)" and "qos \<le> 2"
  obtains s' where "(if qos = 1 then await_puback c else if qos = 2 then qos2_exchange 1 c else (None, c)) = (None, c\<lparr>ci_sock := s'\<rparr>)"
    and "linked (sent @ concat (map frame (release_for qos))) [] rest s'"
proof -
  consider "qos = 0" | "qos = 1" | "qos = 2" using byte_le_2 [OF assms(2)] by blast
  then show ?thesis
  proof cases
    case 1
    then show ?thesis using that [of "ci_sock c"] assms(1) by (simp add: acks_for_def release_for_def)
  next
    case 2
    then have "linked sent [(MQTT_PUBACK, write_u16 1)] rest (ci_sock c)" using assms(1) by (simp add: acks_for_def)
    from linked_recv [OF this] obtain s' where
      "recv_pkt c = (Some (received (MQTT_PUBACK, write_u16 1)), c\<lparr>ci_sock := s'\<rparr>)" "linked sent [] rest s'" by auto
    then show ?thesis using that [of s'] 2 by (simp add: await_puback_def release_for_def)
  next
    case 3
    then have "linked sent (acks_for 2 @ []) rest (ci_sock c)" using assms(1) by simp
    from linked_exchange [OF this] show ?thesis using that 3 by auto
  qed
qed

text \<open>The message as it is sent: the topic is cut to the size of the field.\<close>

lemma cli_message_ok:
  assumes "topic_publishable topic" and "cstr_ok topic" and "length message \<le> MQTT_PAYLOAD_MAX" and "qos \<le> 2" and "retain \<le> 1"
  shows "publish_ok (cli_message topic message qos retain)" and "topic_publishable (pub_topic (cli_message topic message qos retain))"
    and "pub_qos (cli_message topic message qos retain) = qos"
    and "pub_packet_id (cli_message topic message qos retain) = (if qos > 0 then 1 else 0)"
    and "pub_topic (cli_message topic message qos retain) = take 127 topic"
    and "pub_payload (cli_message topic message qos retain) = message" and "pub_retain (cli_message topic message qos retain) = retain"
  using assms
  by (auto simp: cli_message_def zero_publish_def publish_ok_def strncpy_str_def topic_publishable_def has_wildcard_def cstr_ok_def
      dest: in_set_takeD)

lemma linked_publish:
  assumes "linked sent ((MQTT_CONNACK, [sp, CONNACK_ACCEPTED]) # acks_for qos) rest s"
    and "arg_ok cid" and "arg_ok (opt_text user)" and "arg_ok (opt_text pass)" and 
      "build_connect CLI_BUF_SIZE cid CLI_KEEPALIVE user pass clean = Some con"
    and "topic_publishable topic" and "cstr_ok topic"
    and "length message \<le> MQTT_PAYLOAD_MAX" and "qos \<le> 2" and "retain \<le> 1"
  obtains s' where "cmd_pub (Some s) e cid user pass topic message qos retain clean =
      (0, (cli_start s' e)\<lparr>ci_out := [published_line topic message]\<rparr>)"
    and "so_sent s' = sent @ concat (map frame ([(MQTT_CONNECT, connect_body (cli_connect cid user pass clean)),
      (publish_header (cli_message topic message qos retain), publish_body (cli_message topic message qos retain))]
      @ release_for qos @ [(MQTT_DISCONNECT, [])]))"
    and "so_closed s'"
proof -
  let ?p = "cli_message topic message qos retain" and ?c = "cli_start s e"
  let ?con = "frame (MQTT_CONNECT, connect_body (cli_connect cid user pass clean))"
  note p = cli_message_ok [OF assms(6-10)]
  have "linked sent ((MQTT_CONNACK, [sp, CONNACK_ACCEPTED]) # acks_for qos) rest (ci_sock ?c)"
    using assms(1) by (simp add: cli_start_def)
  from linked_connect [OF this assms(2-5)] obtain s1 where
    s1: "do_connect cid user pass clean ?c = (Some (sp AND 1), ?c\<lparr>ci_sock := s1\<rparr>)"
      "linked (sent @ ?con) (acks_for qos) rest (ci_sock (?c\<lparr>ci_sock := s1\<rparr>))"
    by (metis cli.select_convs(1) cli.surjective cli.update_convs(1))
  have build: "packet_build_publish ?p CLI_BUF_SIZE = Some (frame (publish_header ?p, publish_body ?p))"
    using build_publish_total [OF p(1,2), of CLI_BUF_SIZE] by (auto simp: frame_def)
  from linked_built [OF s1(2)] obtain s2 where
    s2: "send_built (packet_build_publish ?p CLI_BUF_SIZE) (?c\<lparr>ci_sock := s1\<rparr>) = (True, ?c\<lparr>ci_sock := s2\<rparr>)"
      "linked (sent @ ?con @ frame (publish_header ?p, publish_body ?p)) (acks_for qos) rest (ci_sock (?c\<lparr>ci_sock := s2\<rparr>))"
    unfolding build by auto
  from linked_await [OF s2(2) assms(9)] obtain s3 where
    s3: "(if qos = 1 then await_puback (?c\<lparr>ci_sock := s2\<rparr>) else if qos = 2 then qos2_exchange 1 (?c\<lparr>ci_sock := s2\<rparr>)
          else (None, ?c\<lparr>ci_sock := s2\<rparr>)) = (None, ?c\<lparr>ci_sock := s3\<rparr>)"
      "linked (sent @ ?con @ frame (publish_header ?p, publish_body ?p) @ concat (map frame (release_for qos))) [] rest
         (ci_sock (?c\<lparr>ci_sock := s3\<rparr>))"
    by auto
  have ack: "(if qos = 1 then await_puback (?c\<lparr>ci_sock := s2\<rparr>) else if qos = 2 then qos2_exchange (pub_packet_id ?p) (?c\<lparr>ci_sock := s2\<rparr>)
      else (None, ?c\<lparr>ci_sock := s2\<rparr>)) = (None, ?c\<lparr>ci_sock := s3\<rparr>)"
    using s3(1) p(4) by (auto split: if_splits)
  from linked_leave [OF s3(2)] obtain s4 where
    s4: "leave (?c\<lparr>ci_sock := s3\<rparr>) = (0, ?c\<lparr>ci_sock := s4\<rparr>)" "so_closed s4"
      "so_sent s4 = sent @ ?con @ frame (publish_header ?p, publish_body ?p) @ concat (map frame (release_for qos)) @ frame (MQTT_DISCONNECT, [])"
    by auto
  have "cmd_pub (Some s) e cid user pass topic message qos retain clean =
      (0, print_line (published_line topic message) (?c\<lparr>ci_sock := s4\<rparr>))"
    using assms(8) by (simp only: cmd_pub_def option.case s1(1) prod.case s2(1) ack Let_def pub_finish_def s4(1)) simp
  then show ?thesis
    using that [of s4] s4(2,3) by (simp add: print_line_def cli_start_def)
qed


subsection \<open>What exit code 0 says\<close>

text \<open>
  Reading depends on what the connection delivers only; \<open>rewired a b s\<close> is the same connection with
  another sending side.
\<close>

definition rewired :: "int list \<Rightarrow> byte list \<Rightarrow> sock \<Rightarrow> sock" where
  "rewired tx sent s = s\<lparr>so_tx := tx, so_sent := sent\<rparr>"

lemma plat_recv_rewired: "plat_recv n (rewired a b s) = map_prod id (rewired a b) (plat_recv n s)"
  by (simp add: plat_recv_def rewired_def split: list.split rx_event.split)

lemma recv_exact_rewired: "recv_exact n (rewired a b s) = map_prod id (rewired a b) (recv_exact n s)"
proof (induction n s rule: recv_exact.induct)
  case (1 n s)
  show ?case
  proof (cases "n = 0")
    case False
    obtain r s1 where r: "plat_recv n s = (r, s1)" by (cases "plat_recv n s")
    then show ?thesis
      using "1.IH" [OF False r [symmetric]] False plat_recv_rewired [of n a b s]
      by (cases r) (simp_all add: recv_exact.simps [of n] split: prod.split sum.split)
  qed (simp add: recv_exact_0)
qed

lemma recv_rlen_rewired: "recv_rlen k h n (rewired a b s) = map_prod id (rewired a b) (recv_rlen k h n s)"
proof (induction k h n s rule: recv_rlen.induct)
  case (1 k h n s)
  obtain r s1 where r: "recv_exact (Suc 0) s = (r, s1)" by (cases "recv_exact (Suc 0) s")
  show ?case
  proof (cases "h AND 0x80 = 0")
    case False
    then show ?thesis
      using "1.IH" [OF False] r recv_exact_rewired [of "Suc 0" a b s]
      by (cases r) (simp_all add: recv_rlen.simps [of k h] Let_def)
  qed (simp add: recv_rlen.simps [of k h])
qed

lemma sock_recv_packet_rewired: "sock_recv_packet (rewired a b s) = map_prod id (rewired a b) (sock_recv_packet s)"
  by (simp add: sock_recv_packet_def recv_exact_rewired recv_rlen_rewired split: prod.split sum.split)

lemma rewired_twice [simp]: "rewired a b (rewired c d s) = rewired a b s" "rewired (so_tx s) (so_sent s) s = s"
  by (simp_all add: rewired_def)

lemma recv_keeps_sent: "sock_recv_packet s = (r, s') \<Longrightarrow> so_sent s' = so_sent s \<and> so_tx s' = so_tx s"
proof -
  assume s: "sock_recv_packet s = (r, s')"
  then have "rewired (so_tx s) (so_sent s) s' = s'"
    using sock_recv_packet_rewired [of "so_tx s" "so_sent s" s] by simp
  then show ?thesis by (simp add: rewired_def) (metis sock.select_convs(1,3) sock.surjective sock.update_convs(1,3))
qed

lemma plat_send_rewired: "\<exists>a b. snd (plat_send buf s) = rewired a b s"
proof -
  have "snd (plat_send buf s) = rewired (so_tx (snd (plat_send buf s))) (so_sent (snd (plat_send buf s))) s"
    by (simp add: plat_send_def rewired_def split: list.split)
  then show ?thesis by blast
qed

lemma send_loop_rewired: "\<exists>a b. snd (send_loop buf s) = rewired a b s"
proof (induction buf s rule: send_loop.induct)
  case (1 buf s)
  obtain r s1 where r: "plat_send buf s = (r, s1)" by (cases "plat_send buf s")
  obtain a b where s1: "s1 = rewired a b s" using plat_send_rewired [of buf s] r by auto
  show ?case
  proof (cases "buf = [] \<or> r \<le> 0")
    case True
    then have "snd (send_loop buf s) = s1 \<or> snd (send_loop buf s) = s"
      using r by (subst (1 2) send_loop.simps) auto
    then show ?thesis using s1 rewired_twice(2) [of s] by metis
  next
    case False
    then show ?thesis using "1.IH" [OF _ r [symmetric]] r s1 by (subst send_loop.simps) auto
  qed
qed

lemma recv_packets_snoc:
  "recv_packets n s = (Inr ps, t) \<Longrightarrow> sock_recv_packet t = (Inr p, t') \<Longrightarrow> recv_packets (Suc n) s = (Inr (ps @ [p]), t')"
proof (induction n arbitrary: s ps)
  case (Suc n)
  obtain q s1 where q: "sock_recv_packet s = (Inr q, s1)"
    using Suc.prems(1) by (auto split: prod.splits sum.splits)
  then obtain qs where qs: "ps = q # qs" "recv_packets n s1 = (Inr qs, t)"
    using Suc.prems(1) by (auto split: prod.splits sum.splits)
  show ?case using Suc.IH [OF qs(2) Suc.prems(2)] q qs(1) by (simp only: recv_packets.simps(2) [of "Suc n"]) simp
qed simp

text \<open>
  \<open>cli_trace s ps out c\<close>: the run that started on the connection \<open>s\<close> and is now in state \<open>c\<close> has read
  the packets \<open>ps\<close> and sent \<open>out\<close>, completely.
\<close>

definition cli_trace :: "sock \<Rightarrow> mqtt_packet list \<Rightarrow> byte list \<Rightarrow> cli \<Rightarrow> bool" where
  "cli_trace s ps out c \<longleftrightarrow> so_sent (ci_sock c) = so_sent s @ out \<and>
     (\<exists>a b. recv_packets (length ps) s = (Inr ps, rewired a b (ci_sock c)))"

lemma trace_start: "cli_trace s [] [] (cli_start s e)"
  using rewired_twice(2) [of s] by (auto simp: cli_trace_def cli_start_def) (metis rewired_twice(2))

lemma trace_send:
  assumes "cli_trace s ps out c" and "send_built p c = (True, c')"
  obtains buf where "p = Some buf" and "cli_trace s ps (out @ buf) c'"
proof -
  obtain buf where p: "p = Some buf" and c': "cli_send_all buf c = (True, c')"
    using assms(2) by (auto simp: send_built_def split: option.splits)
  then have sl: "send_loop buf (ci_sock c) = (True, ci_sock c')"
    by (auto simp: cli_send_all_def Let_def split: prod.splits)
  obtain a b where "ci_sock c' = rewired a b (ci_sock c)"
    using send_loop_rewired [of buf "ci_sock c"] sl by auto
  then have "rewired x y (ci_sock c') = rewired x y (ci_sock c)" for x y by simp
  moreover have "so_sent (ci_sock c') = so_sent (ci_sock c) @ buf" using send_loop_sent [OF sl] by auto
  ultimately show ?thesis using that [OF p] assms(1) unfolding cli_trace_def by simp
qed

lemma trace_recv:
  assumes "cli_trace s ps out c" and "recv_pkt c = (Some p, c')"
  shows "cli_trace s (ps @ [p]) out c'"
proof -
  have r: "sock_recv_packet (ci_sock c) = (Inr p, ci_sock c')"
    using assms(2) by (auto simp: recv_pkt_def Let_def recv_pkt_reads split: prod.splits sum.splits option.splits)
  obtain a b where ab: "recv_packets (length ps) s = (Inr ps, rewired a b (ci_sock c))"
    using assms(1) by (auto simp: cli_trace_def)
  have "recv_packets (Suc (length ps)) s = (Inr (ps @ [p]), rewired a b (ci_sock c'))"
    using recv_packets_snoc [OF ab] r by (simp add: sock_recv_packet_rewired)
  then show ?thesis using assms(1) recv_keeps_sent [OF r] by (auto simp: cli_trace_def)
qed


definition accepted :: "mqtt_packet \<Rightarrow> bool" where
  "accepted pkt \<longleftrightarrow> pkt_type pkt = MQTT_CONNACK \<and> 2 \<le> length (pkt_buf pkt) \<and> pkt_buf pkt ! 1 = CONNACK_ACCEPTED"

definition acknowledged :: "byte \<Rightarrow> mqtt_packet list \<Rightarrow> bool" where
  "acknowledged qos acks \<longleftrightarrow>
     (if qos = 1 then \<exists>a. acks = [a] \<and> pkt_type a = MQTT_PUBACK
      else if qos = 2 then \<exists>a b. acks = [a, b] \<and> ack_of MQTT_PUBREC (Some a) = Some 1 \<and> ack_of MQTT_PUBCOMP (Some b) = Some 1
      else acks = [])"

lemma trace_connect:
  assumes "do_connect cid user pass clean (cli_start s e) = (Some sp, c)"
  obtains con pkt where "build_connect CLI_BUF_SIZE cid CLI_KEEPALIVE user pass clean = Some con"
    and "accepted pkt" and "cli_trace s [pkt] con c"
proof -
  obtain c1 where c1: "send_built (build_connect CLI_BUF_SIZE cid CLI_KEEPALIVE user pass clean) (cli_start s e) = (True, c1)"
    using assms by (auto simp: do_connect_def Let_def split: prod.splits if_splits)
  obtain con where con: "build_connect CLI_BUF_SIZE cid CLI_KEEPALIVE user pass clean = Some con" "cli_trace s [] con c1"
    using trace_send [OF trace_start c1] by auto
  obtain pkt where "recv_pkt c1 = (Some pkt, c)" "accepted pkt"
    using assms c1 by (auto simp: do_connect_def Let_def accepted_def not_less split: prod.splits option.splits if_splits)
  then show ?thesis using that [OF con(1)] trace_recv [OF con(2)] by auto
qed

lemma trace_exchange:
  assumes "cli_trace s ps out c" and "qos2_exchange 1 c = (None, c')"
  obtains acks where "acknowledged 2 acks" and "cli_trace s (ps @ acks) (out @ concat (map frame (release_for 2))) c'"
proof -
  obtain r1 c1 where r1: "recv_pkt c = (r1, c1)" by (cases "recv_pkt c")
  with assms(2) obtain a where a: "r1 = Some a" "ack_of MQTT_PUBREC (Some a) = Some 1"
    by (cases r1) (auto simp: qos2_exchange_def ack_of_def Let_def split: if_splits option.splits prod.splits)
  obtain ok c2 where c2: "send_built (packet_build_pubrel 1 CLI_BUF_SIZE) c1 = (ok, c2)" by force
  have ok: "ok" using assms(2) r1 a c2 by (auto simp: qos2_exchange_def split: if_splits)
  obtain r3 c3 where r3: "recv_pkt c2 = (r3, c3)" by (cases "recv_pkt c2")
  with assms(2) r1 a c2 ok have b0: "ack_of MQTT_PUBCOMP r3 = Some 1" "c' = c3"
    by (auto simp: qos2_exchange_def split: if_splits option.splits)
  then obtain b where b: "r3 = Some b" by (cases r3) (auto simp: ack_of_def)
  have "cli_trace s (ps @ [a]) out c1" using trace_recv assms(1) r1 a(1) by blast
  from trace_send [OF this] c2 ok have "cli_trace s (ps @ [a]) (out @ concat (map frame (release_for 2))) c2"
    by (auto simp: packet_build_pubrel_def release_for_def frame_short)
  from trace_recv [OF this] r3 b have "cli_trace s (ps @ [a, b]) (out @ concat (map frame (release_for 2))) c3" by simp
  then show ?thesis using that [of "[a, b]"] a(2) b0 b by (auto simp: acknowledged_def)
qed

lemma trace_await:
  assumes "cli_trace s ps out c"
    and "(if qos = 1 then await_puback c else if qos = 2 then qos2_exchange 1 c else (None, c)) = (None, c')"
  obtains acks where "acknowledged qos acks" and "cli_trace s (ps @ acks) (out @ concat (map frame (release_for qos))) c'"
proof -
  consider "qos = 1" | "qos = 2" | "qos \<noteq> 1" "qos \<noteq> 2" by blast
  then show ?thesis
  proof cases
    case 1
    then obtain a where "recv_pkt c = (Some a, c')" "pkt_type a = MQTT_PUBACK"
      using assms(2) by (auto simp: await_puback_def split: prod.splits option.splits if_splits)
    then show ?thesis
      using that [of "[a]"] trace_recv [OF assms(1)] 1 by (auto simp: acknowledged_def release_for_def)
  next
    case 2
    then show ?thesis using that trace_exchange [OF assms(1)] assms(2) by auto
  next
    case 3
    then show ?thesis using that [of "[]"] assms by (auto simp: acknowledged_def release_for_def)
  qed
qed

lemma leave_sent: "\<exists>rest. so_sent (ci_sock (snd (leave c))) = so_sent (ci_sock c) @ rest"
proof -
  obtain ok s' where "send_loop [MQTT_DISCONNECT, 0] (ci_sock c) = (ok, s')" by force
  then show ?thesis
    using send_loop_sent [of "[MQTT_DISCONNECT, 0]" "ci_sock c"]
    by (auto simp: leave_def build_disconnect_def send_unchecked_def cli_send_all_def close_fd_def)
qed

text \<open>A connection that takes what \<open>s\<close> takes, and delivers what \<open>t\<close> delivers.\<close>

definition like :: "sock \<Rightarrow> sock \<Rightarrow> sock" where
  "like s t = rewired (so_tx s) (so_sent s) t"

lemma plat_send_like: "plat_send buf s = (r, s') \<Longrightarrow> plat_send buf (like s t) = (r, like s' t)"
  by (auto simp: plat_send_def like_def rewired_def split: list.splits if_splits)

lemma send_loop_like: "send_loop buf s = (ok, s') \<Longrightarrow> send_loop buf (like s t) = (ok, like s' t)"
proof (induction buf s arbitrary: ok s' rule: send_loop.induct)
  case (1 buf s)
  obtain r s1 where r: "plat_send buf s = (r, s1)" by (cases "plat_send buf s")
  note r' = plat_send_like [OF r, of t]
  show ?case
  proof (cases "buf = [] \<or> r \<le> 0")
    case True
    then show ?thesis using "1.prems" r r' by (subst send_loop.simps, subst (asm) send_loop.simps) (auto split: if_splits)
  next
    case False
    then have "send_loop (drop (nat r) buf) s1 = (ok, s')"
      using "1.prems" r by (subst (asm) send_loop.simps) auto
    then show ?thesis using "1.IH" [OF _ r [symmetric]] False r' by (subst send_loop.simps) auto
  qed
qed

lemma send_built_like:
  assumes "send_built p c = (True, c')" and "ci_sock d = like (ci_sock c) t"
  obtains d' where "send_built p d = (True, d')" and "ci_sock d' = like (ci_sock c') t"
proof -
  obtain buf where p: "p = Some buf" and "send_loop buf (ci_sock c) = (True, ci_sock c')"
    using assms(1) by (auto simp: send_built_def cli_send_all_def Let_def split: option.splits prod.splits)
  then have "send_loop buf (ci_sock d) = (True, like (ci_sock c') t)" using send_loop_like assms(2) by simp
  then show ?thesis using that [of "d\<lparr>ci_sock := like (ci_sock c') t\<rparr>"] p by (simp add: send_built_def cli_send_all_def)
qed

lemma recv_like:
  "sock_recv_packet (like s t) = map_prod id (like s) (sock_recv_packet t)"
  "sock_recv_packet s = (r, s') \<Longrightarrow> like s' t = like s t"
  using recv_keeps_sent [of s r s'] by (simp_all add: like_def [abs_def] sock_recv_packet_rewired)

lemma connect_like:
  assumes "do_connect cid user pass clean (cli_start s e) = (Some sp, c)" and "sock_recv_packet t = (Inr pkt, t1)" and "accepted pkt"
  obtains sp' d where "do_connect cid user pass clean (cli_start (like s t) e') = (Some sp', d)" and "ci_sock d = like (ci_sock c) t1"
proof -
  let ?con = "build_connect CLI_BUF_SIZE cid CLI_KEEPALIVE user pass clean"
  obtain c0 q where c0: "send_built ?con (cli_start s e) = (True, c0)" "recv_pkt c0 = (Some q, c)"
    using assms(1) by (auto simp: do_connect_def Let_def split: prod.splits option.splits if_splits)
  have "ci_sock (cli_start (like s t) e') = like (ci_sock (cli_start s e)) t" by (simp add: cli_start_def)
  from send_built_like [OF c0(1) this] obtain d0 where
    d0: "send_built ?con (cli_start (like s t) e') = (True, d0)" "ci_sock d0 = like (ci_sock c0) t" .
  have "sock_recv_packet (ci_sock c0) = (Inr q, ci_sock c)"
    using c0(2) by (auto simp: recv_pkt_def Let_def recv_pkt_reads split: prod.splits sum.splits option.splits)
  note same = recv_like(2) [OF this]
  have "recv_pkt d0 = (Some pkt, d0\<lparr>ci_sock := like (ci_sock c) t1\<rparr>)"
    using assms(2) d0(2) by (simp add: recv_pkt_def recv_pkt_reads recv_like(1) same)
  then show ?thesis
    using that d0(1) assms(3) by (simp add: do_connect_def accepted_def)
qed

lemma like_own: "so_tx t = so_tx s \<Longrightarrow> so_sent t = so_sent s \<Longrightarrow> like s t = t"
  by (simp add: like_def rewired_def)

lemma exchange_fails:
  assumes "\<forall>a t2. sock_recv_packet t1 = (Inr a, t2) \<longrightarrow> ack_of MQTT_PUBREC (Some a) \<noteq> Some 1" and "ci_sock d = like s t1"
  obtains err d' where "qos2_exchange 1 d = (Some err, d')" and "so_sent (ci_sock d') = so_sent s"
proof -
  obtain r t2 where r: "sock_recv_packet t1 = (r, t2)" by force
  then have "sock_recv_pkt (ci_sock d) = (r, like s t2)" using assms(2) by (simp add: recv_pkt_reads recv_like(1))
  then have "fst (recv_pkt d) = (case r of Inr a \<Rightarrow> Some a | Inl _ \<Rightarrow> None) \<and> ci_sock (snd (recv_pkt d)) = like s t2"
    by (auto simp: recv_pkt_def Let_def split: sum.split option.split)
  then obtain r' d' where d': "recv_pkt d = (r', d')" "ci_sock d' = like s t2" "r' = (case r of Inr a \<Rightarrow> Some a | Inl _ \<Rightarrow> None)"
    by (cases "recv_pkt d") simp
  have "ack_of MQTT_PUBREC r' \<noteq> Some 1" using assms(1) r d'(3) by (auto simp: ack_of_def split: sum.splits)
  then have "\<exists>err. qos2_exchange 1 d = (Some err, d')"
    using d'(1) by (cases "ack_of MQTT_PUBREC r'") (auto simp: qos2_exchange_def)
  moreover have "so_sent (ci_sock d') = so_sent s" using d'(2) by (simp add: like_def rewired_def)
  ultimately show ?thesis using that by blast
qed

text \<open>Without the PUBREC nothing is sent after the message.\<close>

lemma stops_without_pubrec:
  assumes "do_connect cid user pass clean (cli_start s e) = (Some sp, c1)"
    and "send_built (packet_build_publish (cli_message topic message qos retain) CLI_BUF_SIZE) c1 = (True, c2)"
    and "\<not> length message > MQTT_PAYLOAD_MAX" and "qos = 2"
    and "sock_recv_packet t = (Inr pkt, t1)" and "accepted pkt"
    and "\<forall>a t2. sock_recv_packet t1 = (Inr a, t2) \<longrightarrow> ack_of MQTT_PUBREC (Some a) \<noteq> Some 1"
  shows "let (code, d) = cmd_pub (Some (like s t)) e' cid user pass topic message qos retain clean
    in code = 1 \<and> so_sent (ci_sock d) = so_sent (ci_sock c2)"
proof -
  obtain sp' d1 where d1: "do_connect cid user pass clean (cli_start (like s t) e') = (Some sp', d1)" "ci_sock d1 = like (ci_sock c1) t1"
    using connect_like [OF assms(1,5,6)] .
  obtain d2 where d2: "send_built (packet_build_publish (cli_message topic message qos retain) CLI_BUF_SIZE) d1 = (True, d2)"
      "ci_sock d2 = like (ci_sock c2) t1"
    using send_built_like [OF assms(2) d1(2)] .
  obtain err d3 where d3: "qos2_exchange 1 d2 = (Some err, d3)" "so_sent (ci_sock d3) = so_sent (ci_sock c2)"
    using exchange_fails [OF assms(7) d2(2)] .
  have "pub_packet_id (cli_message topic message qos retain) = 1" using assms(4) by (simp add: cli_message_def)
  then have "cmd_pub (Some (like s t)) e' cid user pass topic message qos retain clean = fail err d3"
    using d1(1) d2(1) d3(1) assms(3,4) by (simp add: cmd_pub_def)
  then show ?thesis using d3(2) by (simp add: fail_def say_def close_fd_def)
qed



subsection \<open>Printing what arrives\<close>

text \<open>Terminal and connection are independent; updates of both are kept in this order.\<close>

lemma out_sock [simp]: "c\<lparr>ci_sock := s, ci_out := l\<rparr> = c\<lparr>ci_out := l, ci_sock := s\<rparr>"
  by simp

lemma sock_inject [simp]: "c\<lparr>ci_sock := s\<rparr> = c\<lparr>ci_sock := t\<rparr> \<longleftrightarrow> s = t"
  by (cases c) simp

text \<open>
  What a broker sends a subscriber: messages, sent for the first time or again, PUBRELs, and other
  packets, in any order; what the subscriber answers, and what it prints.
\<close>

datatype sub_event = Message mqtt_publish | Release u16 | Other byte "byte list"

definition printable :: "mqtt_publish \<Rightarrow> bool" where
  "printable p \<longleftrightarrow> publish_ok p \<and> length (pub_payload p) < MQTT_PAYLOAD_MAX"

fun event_ok :: "sub_event \<Rightarrow> bool" where
  "event_ok (Message p) = printable p"
| "event_ok (Release pid) = (pid \<noteq> 0)"
| "event_ok (Other t body) = (t AND 0xF0 \<notin> {MQTT_PUBLISH, MQTT_PUBREL, MQTT_SUBACK} \<and> length body \<le> MQTT_MAX_PACKET_SIZE)"

fun event_packet :: "sub_event \<Rightarrow> byte \<times> byte list" where
  "event_packet (Message p) = (publish_header p, publish_body p)"
| "event_packet (Release pid) = (MQTT_PUBREL OR 2, write_u16 pid)"
| "event_packet (Other t body) = (t, body)"

definition answers :: "mqtt_publish \<Rightarrow> (byte \<times> byte list) list" where
  "answers p = (if pub_qos p = 1 then [(MQTT_PUBACK, write_u16 (pub_packet_id p))]
     else if pub_qos p = 2 then [(MQTT_PUBREC, write_u16 (pub_packet_id p))] else [])"

fun event_answers :: "sub_event \<Rightarrow> (byte \<times> byte list) list" where
  "event_answers (Message p) = answers p"
| "event_answers (Release pid) = [(MQTT_PUBCOMP, write_u16 pid)]"
| "event_answers (Other t body) = []"

fun event_lines :: "sub_event \<Rightarrow> byte list list" where
  "event_lines (Message p) = [message_line p]"
| "event_lines (Release pid) = []"
| "event_lines (Other t body) = []"

definition lines_of :: "sub_event list \<Rightarrow> byte list list" where
  "lines_of evs = concat (map event_lines evs)"

lemma lines_of_simps [simp]: "lines_of [] = []" "lines_of (ev # evs) = event_lines ev @ lines_of evs"
  "lines_of (evs @ evs') = lines_of evs @ lines_of evs'"
  by (simp_all add: lines_of_def)

lemma linked_answer:
  assumes "linked sent ps rest (ci_sock c)" and "publish_ok p"
  obtains s' where "(if pub_qos p = 1 then snd (send_unchecked (packet_build_puback (pub_packet_id p) CLI_BUF_SIZE) c)
      else if pub_qos p = 2 then snd (send_unchecked (packet_build_pubrec (pub_packet_id p) CLI_BUF_SIZE) c)
      else c) = c\<lparr>ci_sock := s'\<rparr>"
    and "linked (sent @ concat (map frame (answers p))) ps rest s'"
proof -
  have nz: "0 < pub_qos p \<Longrightarrow> pub_packet_id p \<noteq> 0" using assms(2) by (auto simp: publish_ok_def)
  consider "pub_qos p = 1" | "pub_qos p = 2" | "pub_qos p \<noteq> 1" "pub_qos p \<noteq> 2" by blast
  then show ?thesis
  proof cases
    case 1
    from linked_built [OF assms(1), of "[MQTT_PUBACK, 2] @ write_u16 (pub_packet_id p)"] obtain s' where
      "send_unchecked (Some ([MQTT_PUBACK, 2] @ write_u16 (pub_packet_id p))) c = (True, c\<lparr>ci_sock := s'\<rparr>)"
      "linked (sent @ [MQTT_PUBACK, 2] @ write_u16 (pub_packet_id p)) ps rest s'" by auto
    then show ?thesis using that [of s'] 1 nz by (simp add: packet_build_puback_def answers_def frame_short)
  next
    case 2
    from linked_built [OF assms(1), of "[MQTT_PUBREC, 2] @ write_u16 (pub_packet_id p)"] obtain s' where
      "send_unchecked (Some ([MQTT_PUBREC, 2] @ write_u16 (pub_packet_id p))) c = (True, c\<lparr>ci_sock := s'\<rparr>)"
      "linked (sent @ [MQTT_PUBREC, 2] @ write_u16 (pub_packet_id p)) ps rest s'" by auto
    then show ?thesis using that [of s'] 2 nz by (simp add: packet_build_pubrec_def answers_def frame_short)
  next
    case 3
    then show ?thesis using that [of "ci_sock c"] assms(1) by (simp add: answers_def)
  qed
qed

lemma linked_print:
  assumes "linked sent ((publish_header p, publish_body p) # ps) rest (ci_sock c)" and "publish_ok p"
    and "length (pub_payload p) < MQTT_PAYLOAD_MAX"
  obtains s1 s2 where "recv_pkt c = (Some (received (publish_header p, publish_body p)), c\<lparr>ci_sock := s1\<rparr>)"
    and "sub_packet junk limit (received (publish_header p, publish_body p)) n (c\<lparr>ci_sock := s1\<rparr>) =
      (limit > 0 \<and> n + 1 \<ge> limit, n + 1, c\<lparr>ci_out := ci_out c @ [message_line p], ci_sock := s2\<rparr>)"
    and "linked (sent @ concat (map frame (answers p))) ps rest s2"
proof -
  have "length (publish_body p) \<le> 704" using length_publish_body [OF assms(2)] by simp
  with linked_recv [OF assms(1)] obtain s1 where
    s1: "recv_pkt c = (Some (received (publish_header p, publish_body p)), c\<lparr>ci_sock := s1\<rparr>)"
      "linked sent ps rest (ci_sock (c\<lparr>ci_sock := s1\<rparr>))" by auto
  let ?q = "p\<lparr>pub_packet_id := if pub_qos p > 0 then pub_packet_id p else pub_packet_id junk\<rparr>"
  have parse: "packet_parse_publish (received (publish_header p, publish_body p)) junk = Some ?q"
    using parse_publish_body [OF assms(2), of "of_nat (length (publish_body p))" junk] by (simp add: received_def)
  have t: "pkt_type (received (publish_header p, publish_body p)) = MQTT_PUBLISH"
    using publish_header_bits(4) [OF assms(2)] by simp
  have line: "message_line ?q = message_line p" by (simp add: message_line_def)
  from linked_answer [OF s1(2) assms(2)] obtain s2 where
    s2: "(if pub_qos p = 1 then snd (send_unchecked (packet_build_puback (pub_packet_id p) CLI_BUF_SIZE) (c\<lparr>ci_sock := s1\<rparr>))
      else if pub_qos p = 2 then snd (send_unchecked (packet_build_pubrec (pub_packet_id p) CLI_BUF_SIZE) (c\<lparr>ci_sock := s1\<rparr>))
      else c\<lparr>ci_sock := s1\<rparr>) = c\<lparr>ci_sock := s2\<rparr>"
    "linked (sent @ concat (map frame (answers p))) ps rest s2" by auto
  have id: "pub_qos p = 1 \<Longrightarrow> pub_packet_id ?q = pub_packet_id p" "pub_qos p = 2 \<Longrightarrow> pub_packet_id ?q = pub_packet_id p" by simp_all
  have q: "pub_qos ?q = pub_qos p" by simp
  have room: "terminate_payload ?q (c\<lparr>ci_sock := s1\<rparr>) = c\<lparr>ci_sock := s1\<rparr>" using assms(3) by (simp add: terminate_payload_def)
  show ?thesis
  proof (rule that [OF s1(1) _ s2(2)])
    show "sub_packet junk limit (received (publish_header p, publish_body p)) n (c\<lparr>ci_sock := s1\<rparr>) =
        (limit > 0 \<and> n + 1 \<ge> limit, n + 1, c\<lparr>ci_out := ci_out c @ [message_line p], ci_sock := s2\<rparr>)"
      using s2(1) id unfolding sub_packet_def t parse option.case Let_def room q
      by (auto simp: print_line_def line split: if_splits)
  qed
qed

lemma linked_release:
  assumes "linked sent ((MQTT_PUBREL OR 2, write_u16 pid) # ps) rest (ci_sock c)" and "pid \<noteq> 0"
  obtains s1 s2 where "recv_pkt c = (Some (received (MQTT_PUBREL OR 2, write_u16 pid)), c\<lparr>ci_sock := s1\<rparr>)"
    and "sub_packet junk limit (received (MQTT_PUBREL OR 2, write_u16 pid)) n (c\<lparr>ci_sock := s1\<rparr>) = (False, n, c\<lparr>ci_sock := s2\<rparr>)"
    and "linked (sent @ frame (MQTT_PUBCOMP, write_u16 pid)) ps rest s2"
proof -
  from linked_recv [OF assms(1)] obtain s1 where
    s1: "recv_pkt c = (Some (received (MQTT_PUBREL OR 2, write_u16 pid)), c\<lparr>ci_sock := s1\<rparr>)"
      "linked sent ps rest (ci_sock (c\<lparr>ci_sock := s1\<rparr>))" by auto
  from linked_built [OF s1(2), of "[MQTT_PUBCOMP, 2] @ write_u16 pid"] obtain s2 where
    "send_unchecked (packet_build_pubcomp pid CLI_BUF_SIZE) (c\<lparr>ci_sock := s1\<rparr>) = (True, c\<lparr>ci_sock := s2\<rparr>)"
    "linked (sent @ frame (MQTT_PUBCOMP, write_u16 pid)) ps rest s2"
    using assms(2) by (auto simp: packet_build_pubcomp_def frame_short)
  then show ?thesis using that [OF s1(1)] by (simp add: sub_packet_def read_write_u16)
qed


lemma linked_other:
  assumes "linked sent ((t, body) # ps) rest (ci_sock c)" and "event_ok (Other t body)"
  obtains s1 where "recv_pkt c = (Some (received (t, body)), c\<lparr>ci_sock := s1\<rparr>)"
    and "sub_packet junk limit (received (t, body)) n (c\<lparr>ci_sock := s1\<rparr>) = (False, n, c\<lparr>ci_sock := s1\<rparr>)"
    and "linked sent ps rest s1"
proof -
  from linked_recv [OF assms(1)] assms(2) obtain s1 where
    "recv_pkt c = (Some (received (t, body)), c\<lparr>ci_sock := s1\<rparr>)" "linked sent ps rest s1" by auto
  then show ?thesis using that [of s1] assms(2) by (simp add: sub_packet_def)
qed

text \<open>The limit is on the number of lines; it is not reached before the last of the packets.\<close>

definition limit_allows :: "int \<Rightarrow> int \<Rightarrow> sub_event list \<Rightarrow> bool" where
  "limit_allows limit n evs \<longleftrightarrow> limit \<le> 0 \<or> (\<forall>k < length evs. n + int (length (lines_of (take k evs))) < limit)"

lemma limit_allows_Cons:
  assumes "limit_allows limit n (ev # evs)"
  shows "limit_allows limit (n + int (length (event_lines ev))) evs"
    and "evs \<noteq> [] \<Longrightarrow> \<not> (limit > 0 \<and> n + int (length (event_lines ev)) \<ge> limit)"
proof -
  have "limit \<le> 0 \<or> n + int (length (event_lines ev)) + int (length (lines_of (take k evs))) < limit" if "k < length evs" for k
    using assms that by (auto simp: limit_allows_def add.assoc dest!: spec [of _ "Suc k"])
  then show "limit_allows limit (n + int (length (event_lines ev))) evs"
    and "evs \<noteq> [] \<Longrightarrow> \<not> (limit > 0 \<and> n + int (length (event_lines ev)) \<ge> limit)"
    by (fastforce simp: limit_allows_def)+
qed

lemma sub_event_step:
  assumes "linked sent (event_packet ev # ps) rest (ci_sock c)" and "event_ok ev"
  obtains s1 s2 where "recv_pkt c = (Some (received (event_packet ev)), c\<lparr>ci_sock := s1\<rparr>)"
    and "sub_packet junk limit (received (event_packet ev)) n (c\<lparr>ci_sock := s1\<rparr>) =
      (event_lines ev \<noteq> [] \<and> limit > 0 \<and> n + int (length (event_lines ev)) \<ge> limit, n + int (length (event_lines ev)),
       c\<lparr>ci_out := ci_out c @ event_lines ev, ci_sock := s2\<rparr>)"
    and "linked (sent @ concat (map frame (event_answers ev))) ps rest s2"
proof (cases ev)
  case (Message p)
  then have p: "publish_ok p" "length (pub_payload p) < MQTT_PAYLOAD_MAX" using assms(2) by (simp_all add: printable_def)
  have "linked sent ((publish_header p, publish_body p) # ps) rest (ci_sock c)" using assms(1) Message by simp
  from linked_print [OF this p, of junk limit n] show ?thesis using that Message by auto
next
  case (Release pid)
  then have "linked sent ((MQTT_PUBREL OR 2, write_u16 pid) # ps) rest (ci_sock c)" "pid \<noteq> 0" using assms by simp_all
  from linked_release [OF this, of junk limit n] show ?thesis using that Release by auto
next
  case (Other t body)
  then have "linked sent ((t, body) # ps) rest (ci_sock c)" "event_ok (Other t body)" using assms by simp_all
  from linked_other [OF this, of junk limit n] show ?thesis using that Other by auto
qed

lemma sub_loop_delivers:
  assumes "linked sent (map event_packet evs) rest (ci_sock c)" and "\<forall>ev \<in> set evs. event_ok ev" and "limit_allows limit n evs"
  shows "\<exists>s'. sub_loop junk limit (replicate (length evs) (True, True) @ [(False, r)]) idle n c =
      (True, c\<lparr>ci_out := ci_out c @ lines_of evs, ci_sock := s'\<rparr>) \<and>
    linked (sent @ concat (map frame (concat (map event_answers evs)))) [] rest s'"
  using assms
proof (induction evs arbitrary: sent idle n c)
  case Nil
  then show ?case by (intro exI [of _ "ci_sock c"]) simp
next
  case (Cons ev evs)
  have "linked sent (event_packet ev # map event_packet evs) rest (ci_sock c)" "event_ok ev" using Cons.prems by simp_all
  from sub_event_step [OF this, of junk limit n] obtain s1 s2 where
    s1: "recv_pkt c = (Some (received (event_packet ev)), c\<lparr>ci_sock := s1\<rparr>)"
    and s2: "sub_packet junk limit (received (event_packet ev)) n (c\<lparr>ci_sock := s1\<rparr>) =
      (event_lines ev \<noteq> [] \<and> limit > 0 \<and> n + int (length (event_lines ev)) \<ge> limit, n + int (length (event_lines ev)),
       c\<lparr>ci_out := ci_out c @ event_lines ev, ci_sock := s2\<rparr>)"
      "linked (sent @ concat (map frame (event_answers ev))) (map event_packet evs) rest
        (ci_sock (c\<lparr>ci_out := ci_out c @ event_lines ev, ci_sock := s2\<rparr>))" by auto
  let ?stop = "event_lines ev \<noteq> [] \<and> limit > 0 \<and> n + int (length (event_lines ev)) \<ge> limit"
  let ?c = "c\<lparr>ci_out := ci_out c @ event_lines ev, ci_sock := s2\<rparr>"
  have loop: "sub_loop junk limit (replicate (length (ev # evs)) (True, True) @ [(False, r)]) idle n c =
      (if ?stop then (True, ?c)
       else sub_loop junk limit (replicate (length evs) (True, True) @ [(False, r)]) 0 (n + int (length (event_lines ev))) ?c)"
    by (simp add: s1 s2(1))
  note allow = limit_allows_Cons [OF Cons.prems(3)]
  show ?case
  proof (cases ?stop)
    case True
    then have "evs = []" using allow(2) by blast
    then show ?thesis using loop True s2(2) by (intro exI [of _ s2]) simp
  next
    case False
    from Cons.IH [OF s2(2) _ allow(1), of 0] Cons.prems(2) obtain s' where
      "sub_loop junk limit (replicate (length evs) (True, True) @ [(False, r)]) 0 (n + int (length (event_lines ev))) ?c =
        (True, ?c\<lparr>ci_out := ci_out ?c @ lines_of evs, ci_sock := s'\<rparr>)"
      "linked ((sent @ concat (map frame (event_answers ev))) @ concat (map frame (concat (map event_answers evs)))) [] rest s'"
      by auto
    then show ?thesis unfolding loop if_not_P [OF False] by (intro exI [of _ s']) simp
  qed
qed


text \<open>The same before the SUBACK, where the messages of a resumed session arrive.\<close>

lemma drained_eq:
  assumes "printable p"
  shows "drained junk (received (publish_header p, publish_body p)) c =
    (let c = print_line (message_line p) c
     in if pub_qos p = 1 then snd (send_unchecked (packet_build_puback (pub_packet_id p) CLI_BUF_SIZE) c)
        else if pub_qos p = 2 then snd (send_unchecked (packet_build_pubrec (pub_packet_id p) CLI_BUF_SIZE) c) else c)"
proof -
  have p: "publish_ok p" "length (pub_payload p) < 512" using assms by (simp_all add: printable_def)
  have "packet_parse_publish (received (publish_header p, publish_body p)) junk =
      Some (p\<lparr>pub_packet_id := if pub_qos p > 0 then pub_packet_id p else pub_packet_id junk\<rparr>)"
    using parse_publish_body [OF p(1), of "of_nat (length (publish_body p))" junk] by (simp add: received_def)
  moreover have "pkt_type (received (publish_header p, publish_body p)) = MQTT_PUBLISH"
    using publish_header_bits(4) [OF p(1)] by simp
  moreover have "0 < pub_qos p \<Longrightarrow> pub_packet_id p \<noteq> 0" using p(1) by (auto simp: publish_ok_def)
  ultimately show ?thesis
    using p(2) by (simp add: drained_def terminate_payload_def message_line_def packet_build_puback_def
        packet_build_pubrec_def send_ack_def send_built_def send_unchecked_def Let_def)
qed

lemma wait_suback_one:
  assumes "linked sent (event_packet ev # ps) rest (ci_sock c)" and "event_ok ev"
  obtains s' where "wait_suback junk c = wait_suback junk (c\<lparr>ci_out := ci_out c @ event_lines ev, ci_sock := s'\<rparr>)"
    and "linked (sent @ concat (map frame (event_answers ev))) ps rest s'"
proof (cases ev)
  case (Message p)
  then have p: "printable p" "publish_ok p" "length (publish_body p) \<le> 704"
    using assms(2) length_publish_body [of p] by (auto simp: printable_def)
  have t: "pkt_type (received (publish_header p, publish_body p)) = MQTT_PUBLISH"
    using publish_header_bits(4) [OF p(2)] by simp
  let ?c = "\<lambda>s. c\<lparr>ci_out := ci_out c @ [message_line p], ci_sock := s\<rparr>"
  have "linked sent ((publish_header p, publish_body p) # ps) rest (ci_sock c)" using assms(1) Message by simp
  from linked_recv [OF this] p(3) obtain s1 where
    s1: "recv_pkt c = (Some (received (publish_header p, publish_body p)), c\<lparr>ci_sock := s1\<rparr>)"
      "linked sent ps rest (ci_sock (?c s1))" by auto
  have "print_line (message_line p) (c\<lparr>ci_sock := s1\<rparr>) = ?c s1" by (simp add: print_line_def)
  with linked_answer [OF s1(2) p(2)] drained_eq [OF p(1), of junk "c\<lparr>ci_sock := s1\<rparr>"] obtain s2 where
    s2: "drained junk (received (publish_header p, publish_body p)) (c\<lparr>ci_sock := s1\<rparr>) = ?c s2"
      "linked (sent @ concat (map frame (answers p))) ps rest s2"
    by (auto simp: Let_def)
  have "wait_suback junk c = wait_suback junk (?c s2)"
    using s1(1) s2(1) t by (subst wait_suback.simps) simp
  then show ?thesis using that s2(2) Message by simp
next
  case (Release pid)
  then have "linked sent ((MQTT_PUBREL OR 2, write_u16 pid) # ps) rest (ci_sock c)" "pid \<noteq> 0" using assms by simp_all
  from linked_recv [OF this(1)] obtain s1 where
    s1: "recv_pkt c = (Some (received (MQTT_PUBREL OR 2, write_u16 pid)), c\<lparr>ci_sock := s1\<rparr>)"
      "linked sent ps rest (ci_sock (c\<lparr>ci_sock := s1\<rparr>))" by auto
  from linked_built [OF s1(2), of "[MQTT_PUBCOMP, 2] @ write_u16 pid"] \<open>pid \<noteq> 0\<close>
  obtain s2 where s2: "drained junk (received (MQTT_PUBREL OR 2, write_u16 pid)) (c\<lparr>ci_sock := s1\<rparr>) = c\<lparr>ci_sock := s2\<rparr>"
      "linked (sent @ frame (MQTT_PUBCOMP, write_u16 pid)) ps rest s2"
    by (auto simp: drained_def read_write_u16 packet_build_pubcomp_def frame_short)
  have "wait_suback junk c = wait_suback junk (c\<lparr>ci_sock := s2\<rparr>)"
    using s1(1) s2(1) by (subst wait_suback.simps) simp
  then show ?thesis using that [of s2] s2(2) Release by simp
next
  case (Other t body)
  then have "linked sent ((t, body) # ps) rest (ci_sock c)" using assms(1) by simp
  from linked_recv [OF this] assms(2) Other obtain s1 where
    s1: "recv_pkt c = (Some (received (t, body)), c\<lparr>ci_sock := s1\<rparr>)" "linked sent ps rest s1" by auto
  have "wait_suback junk c = wait_suback junk (c\<lparr>ci_sock := s1\<rparr>)"
    using s1(1) assms(2) Other by (subst wait_suback.simps) (simp add: drained_def)
  then show ?thesis using that [of s1] s1(2) Other by simp
qed

lemma wait_suback_delivers:
  assumes "linked sent (map event_packet evs @ (MQTT_SUBACK, body) # ps) rest (ci_sock c)"
    and "\<forall>ev \<in> set evs. event_ok ev" and "length body \<le> MQTT_MAX_PACKET_SIZE"
  shows "\<exists>s'. wait_suback junk c = (Some (received (MQTT_SUBACK, body)), c\<lparr>ci_out := ci_out c @ lines_of evs, ci_sock := s'\<rparr>) \<and>
    linked (sent @ concat (map frame (concat (map event_answers evs)))) ps rest s'"
  using assms(1,2)
proof (induction evs arbitrary: sent c)
  case Nil
  then have "linked sent ((MQTT_SUBACK, body) # ps) rest (ci_sock c)" by simp
  from linked_recv [OF this] assms(3) obtain s' where
    "recv_pkt c = (Some (received (MQTT_SUBACK, body)), c\<lparr>ci_sock := s'\<rparr>)" "linked sent ps rest s'" by auto
  then show ?case by (intro exI [of _ s']) (simp add: wait_suback.simps [of junk c])
next
  case (Cons ev evs)
  have "linked sent (event_packet ev # map event_packet evs @ (MQTT_SUBACK, body) # ps) rest (ci_sock c)" "event_ok ev"
    using Cons.prems by simp_all
  from wait_suback_one [OF this, of junk] obtain s1 where
    s1: "wait_suback junk c = wait_suback junk (c\<lparr>ci_out := ci_out c @ event_lines ev, ci_sock := s1\<rparr>)"
      "linked (sent @ concat (map frame (event_answers ev))) (map event_packet evs @ (MQTT_SUBACK, body) # ps) rest
        (ci_sock (c\<lparr>ci_out := ci_out c @ event_lines ev, ci_sock := s1\<rparr>))" by auto
  from Cons.IH [OF s1(2)] Cons.prems(2) show ?case using s1(1) by auto
qed



subsection \<open>The status on the command line\<close>

definition host_ok :: "cstr \<Rightarrow> bool" where
  "host_ok host \<longleftrightarrow> 0 \<notin> set host \<and> 13 \<notin> set host \<and> length host \<le> 15"

lemma status_request_head: "host_ok host \<Longrightarrow> request_head (status_request host)"
proof
  fix x
  assume h: "host_ok host"
  have skip: "strstr HEAD_END (host @ ys) = strstr HEAD_END ys" for ys
    using h by (intro strstr_skip) (simp_all add: host_ok_def)
  show "strstr HEAD_END (status_request host @ x) = Some (HEAD_END @ x)"
    by (simp add: status_request_def ascii_def skip)
  show "0 \<notin> set (status_request host)"
    using h by (simp add: status_request_def ascii_def host_ok_def)
qed

lemma status_turn:
  assumes "incoming (status_request host) rest (bk_socks b fd)" and "0 \<le> fd" and "host_ok host"
    and "length (concat (status_pieces b)) < STATUS_BUF"
  obtains s where "http_turn page stray fd b =
      Some (plat_close fd (upd_sock fd (http_send 200 ''application/json'' (concat (status_pieces b))) (upd_sock fd (\<lambda>_. s) b)))"
    and "s\<lparr>so_rx := []\<rparr> = (bk_socks b fd)\<lparr>so_rx := []\<rparr>"
proof -
  have "incoming (status_request host @ []) rest (bk_socks b fd)" using assms(1) by simp
  moreover have "length (status_request host @ []) < REQ_BUF"
    using assms(3) by (simp add: status_request_def ascii_def host_ok_def)
  ultimately obtain s where s: "read_request [] (bk_socks b fd) = (Some (status_request host), s)"
      "s\<lparr>so_rx := []\<rparr> = (bk_socks b fd)\<lparr>so_rx := []\<rparr>"
    using request_head.read_request_split [OF status_request_head [OF assms(3)], of 0 "[]" rest "bk_socks b fd"]
    by (auto simp: status_request_def ascii_def)
  have "0 \<notin> set (status_request host)" using request_head.head_text [OF status_request_head [OF assms(3)]] .
  then have "handle_connection page stray fd b = handle_status fd (upd_sock fd (\<lambda>_. s) b)"
    using s(1) by (simp add: handle_connection_def Let_def c_text_id) (simp add: status_request_def starts_with_def ascii_def)
  then show ?thesis
    using that [of s] s(2) assms(2,4) by (simp add: http_turn_def handle_status_text(1) status_sock)
qed

lemma http_header_end: "strstr HEAD_END (http_header code ctype n @ x) = Some (HEAD_END @ x)"
  if "13 \<notin> set (ascii ctype)" and "code = 200"
proof -
  have "13 \<notin> set (dec m)" for m using dec_digits(1) [of m] by force
  then have d: "strstr HEAD_END (dec m @ ys) = strstr HEAD_END ys" for m ys
    by (intro strstr_skip) simp_all
  have c: "strstr HEAD_END (ascii ctype @ ys) = strstr HEAD_END ys" for ys
    using that(1) by (intro strstr_skip) simp_all
  show ?thesis using that(2) c by (simp add: http_header_def d) (simp add: ascii_def d)
qed

lemma status_read_incoming:
  "incoming bs [RxClosed] s \<Longrightarrow> length resp \<le> RESP_BUF - 1 \<Longrightarrow>
    \<exists>s'. status_read resp s = (resp @ take (RESP_BUF - 1 - length resp) bs, s')"
proof (induction "RESP_BUF - 1 - length resp" arbitrary: resp bs s rule: less_induct)
  case less
  show ?case
  proof (cases "length resp < RESP_BUF - 1")
    case False
    then show ?thesis using less.prems(2) by (simp add: status_read.simps [of resp s])
  next
    case True
    show ?thesis
    proof (cases "bs = []")
      case True
      then obtain cs where cs: "so_rx s = map RxData cs @ [RxClosed]" "[] \<notin> set cs" "concat cs = []"
        using less.prems(1) by (auto simp: incoming_def)
      then have "cs = []" by (cases cs) auto
      then have "so_rx s = [RxClosed]" using cs(1) by simp
      then show ?thesis using True by (simp add: status_read.simps [of resp s] plat_recv_def)
    next
      case False
      let ?n = "RESP_BUF - 1 - length resp"
      from plat_recv_incoming [OF less.prems(1) False, of ?n] True obtain m s1 where
        m: "plat_recv ?n s = (Inr (take m bs), s1)" "0 < m" "m \<le> ?n" "m \<le> length bs" "incoming (drop m bs) [RxClosed] s1" by auto
      have "RESP_BUF - 1 - length (resp @ take m bs) < ?n" "length (resp @ take m bs) \<le> RESP_BUF - 1"
        using m(2-4) by simp_all
      from less.hyps [OF this(1) m(5) this(2)] obtain s2 where
        "status_read (resp @ take m bs) s1 = (resp @ take m bs @ take (?n - m) (drop m bs), s2)"
        using m(4) by auto
      moreover have "take m bs @ take (?n - m) (drop m bs) = take ?n bs"
        using m(3) by (metis le_add_diff_inverse take_add)
      ultimately show ?thesis using True m(1) by (simp add: status_read.simps [of resp s])
    qed
  qed
qed


lemma status_read_sent: "status_read resp s = (r, s') \<Longrightarrow> so_sent s' = so_sent s"
proof (induction resp s arbitrary: r s' rule: status_read.induct)
  case (1 resp s)
  have keep: "so_sent s1 = so_sent s" if "plat_recv n s = (q, s1)" for n q s1
    using that by (auto simp: plat_recv_def split: list.splits rx_event.splits if_splits)
  obtain q s1 where q: "plat_recv (RESP_BUF - 1 - length resp) s = (q, s1)" by force
  show ?case
  proof (cases "length resp < RESP_BUF - 1")
    case True
    then show ?thesis
      using "1.prems" "1.IH" [OF _ q [symmetric]] q keep [OF q]
      by (cases q) (auto simp: status_read.simps [of resp s])
  qed (use "1.prems" in \<open>simp add: status_read.simps [of resp s]\<close>)
qed

text \<open>
  C0: the status from end to end. When the dashboard receives the request of \<open>mqtt_cli status\<close>, in
  whatever chunks, and the text of its snapshots fits its buffer, then what it writes to the connection
  makes the client print that text and end with exit code 0, in whatever chunks the reply arrives, as
  long as head and text have at most 8191 bytes; of a longer reply the client prints the first 8191
  bytes, without a message.
\<close>

theorem cli_status_prints:
  assumes "incoming (status_request host) rest (bk_socks b fd)" and "0 \<le> fd" and "host_ok host"
    and "accepting (bk_socks b fd)" and "so_sent (bk_socks b fd) = []"
    and "text = concat (status_pieces b)" and "length text < STATUS_BUF" and "0 \<notin> set text"
    and "head = http_header 200 ''application/json'' (length text)"
    and "accepting s" and "incoming (head @ text) [RxClosed] s"
  shows "\<exists>b' s'. http_turn page stray fd b = Some b' \<and> so_sent (bk_socks b' fd) = head @ text \<and>
    so_closed (bk_socks b' fd) \<and>
    cmd_status (Some s) e host = (0, (cli_start s' e)\<lparr>ci_out := [take (RESP_BUF - 1 - length head) text]\<rparr>) \<and>
    so_sent s' = so_sent s @ status_request host \<and> so_closed s'"
proof -
  have d: "length (dec n) \<le> 4" if "n < 10000" for n
    using that dec_length [of "n div 10"] by (subst dec.simps) simp
  have l: "length head < 256" "4 \<le> length head"
    using d [OF less_trans [OF assms(7)]] dec_length [of 200] by (simp_all add: assms(9) http_header_def ascii_def)
  obtain s1 where s1: "http_turn page stray fd b =
      Some (plat_close fd (upd_sock fd (http_send 200 ''application/json'' text) (upd_sock fd (\<lambda>_. s1) b)))"
      "s1\<lparr>so_rx := []\<rparr> = (bk_socks b fd)\<lparr>so_rx := []\<rparr>"
    using status_turn [OF assms(1-3), of page stray] assms(6,7) by metis
  have "accepting s1" "so_sent s1 = []"
    using arg_cong [OF s1(2), of so_tx] arg_cong [OF s1(2), of so_sent] assms(4,5) by (simp_all add: accepting_def)
  then have sent: "so_sent (http_send 200 ''application/json'' text s1) = head @ text"
    using l(1) assms(9) by (simp add: http_send_def http_send_all_def Let_def send_loop_accepting accepting_def)
  have z: "0 \<notin> set (dec n)" for n using dec_digits(1) [of n] by force
  have hd0: "0 \<notin> set head" by (simp add: assms(9) http_header_def ascii_def z)
  let ?s = "s\<lparr>so_sent := so_sent s @ status_request host\<rparr>"
  have "incoming (head @ text) [RxClosed] ?s" using assms(11) by (simp add: incoming_def)
  from status_read_incoming [OF this, of "[]"] obtain s2 where
    s2: "status_read [] ?s = (take (RESP_BUF - 1) (head @ text), s2)" by auto
  have t: "take (RESP_BUF - 1) (head @ text) = head @ take (RESP_BUF - 1 - length head) text" using l(1) by simp
  have "c_text (head @ take (RESP_BUF - 1 - length head) text) = head @ take (RESP_BUF - 1 - length head) text"
    by (rule c_text_id) (use hd0 assms(8) in \<open>auto dest: in_set_takeD\<close>)
  moreover have "strstr HEAD_END (head @ take (RESP_BUF - 1 - length head) text) = Some (HEAD_END @ take (RESP_BUF - 1 - length head) text)"
    using http_header_end [of "''application/json''" 200] by (simp add: assms(9) ascii_def)
  ultimately have "cmd_status (Some s) e host = (0, print_line (take (RESP_BUF - 1 - length head) text)
      (close_fd ((cli_start s e)\<lparr>ci_sock := s2\<rparr>)))"
    using assms(10) s2 t
    by (simp add: cmd_status_def cli_send_all_def send_loop_accepting cli_start_def Let_def)
  then show ?thesis
    using s1(1) sent status_read_sent [OF s2]
    by (intro exI [of _ "plat_close fd (upd_sock fd (http_send 200 ''application/json'' text) (upd_sock fd (\<lambda>_. s1) b))"]
        exI [of _ "s2\<lparr>so_closed := True\<rparr>"])
      (auto simp: plat_close_def upd_sock_def print_line_def close_fd_def cli_start_def)
qed


subsection \<open>Where C promises nothing\<close>

text \<open>
  A message that fills the payload buffer is terminated behind it; a PUBREL with packet id 0, for which
  no PUBCOMP can be built, is answered with a send of \<open>(size_t) -1\<close> bytes; a client id of 23 characters
  or more is terminated by a byte that was never written.
\<close>

lemma full_payload:
  assumes "publish_ok p" and "length (pub_payload p) = MQTT_PAYLOAD_MAX"
  shows "ci_undefined (snd (snd (sub_packet junk limit (received (publish_header p, publish_body p)) n c)))"
proof -
  have keep: "ci_undefined c' \<Longrightarrow> ci_undefined (snd (send_unchecked b c'))" for b c'
    by (simp add: send_unchecked_def cli_send_all_def split: option.split prod.split)
  have "packet_parse_publish (received (publish_header p, publish_body p)) junk =
      Some (p\<lparr>pub_packet_id := if pub_qos p > 0 then pub_packet_id p else pub_packet_id junk\<rparr>)"
    using parse_publish_body [OF assms(1), of "of_nat (length (publish_body p))" junk] by (simp add: received_def)
  moreover have "pkt_type (received (publish_header p, publish_body p)) = MQTT_PUBLISH"
    using publish_header_bits(4) [OF assms(1)] by simp
  ultimately show ?thesis
    using assms(2) by (simp add: sub_packet_def terminate_payload_def print_line_def Let_def keep)
qed

lemma release_of_zero:
  "ci_undefined (snd (snd (sub_packet junk limit (received (MQTT_PUBREL OR 2, [0, 0])) n c)))"
  by (simp add: sub_packet_def read_u16_def packet_build_pubcomp_def send_unchecked_def)

lemma client_id_not_terminated:
  assumes "23 \<le> length s" and "cstr_ok s" and "length (ar_cid a) = 24" and "ar_cid a ! 23 \<noteq> 0"
  shows "c_text (ar_cid (set_cid s a) @ beyond) = take 23 s @ ar_cid a ! 23 # c_text beyond"
proof -
  have "drop 23 (ar_cid a) = [ar_cid a ! 23]"
    using Cons_nth_drop_Suc [of 23 "ar_cid a"] assms(3) by simp
  moreover have "\<forall>c \<in> set (take 23 s). c \<noteq> 0" using assms(2) by (auto simp: cstr_ok_def dest: in_set_takeD)
  ultimately show ?thesis
    using assms(1,4) by (simp add: set_cid_def strncpy_buf_def c_text_def takeWhile_append2)
qed

lemma any_puback: "recv_pkt c = (Some pkt, c') \<Longrightarrow> pkt_type pkt = MQTT_PUBACK \<Longrightarrow> await_puback c = (None, c')"
  by (simp add: await_puback_def)

subsection \<open>Examples\<close>

lemma linked_chunk: "ps \<noteq> [] \<Longrightarrow> linked [] ps rest (quiet_sock\<lparr>so_rx := RxData (concat (map frame ps)) # rest\<rparr>)"
  by (auto simp: linked_def accepting_def quiet_sock_def incoming_def frame_def neq_Nil_conv
      intro!: exI [of _ "[concat (map frame ps)]"])

lemma plain_connect:
  "build_connect CLI_BUF_SIZE [99] CLI_KEEPALIVE None None True =
    Some (frame (MQTT_CONNECT, connect_body (cli_connect [99] None None True)))"
  by (rule build_connect_fits) (simp_all add: arg_ok_def opt_text_def cstr_ok_def identity_ok_def)





theorem cli_status_prints_witness:
  "let b = static_broker 0 0 (\<lambda>_. quiet_sock\<lparr>so_rx := [RxData (status_request [49])]\<rparr>);
       text = concat (status_pieces b); head = http_header 200 ''application/json'' (length text)
   in \<exists>b' s'. http_turn [] 0 3 b = Some b' \<and> so_sent (bk_socks b' 3) = head @ text \<and>
        cmd_status (Some (quiet_sock\<lparr>so_rx := [RxData (head @ text), RxClosed]\<rparr>)) EOK [49] = (0, (cli_start s' EOK)\<lparr>ci_out := [text]\<rparr>)"
proof -
  define b where "b = static_broker 0 0 (\<lambda>_. quiet_sock\<lparr>so_rx := [RxData (status_request [49])]\<rparr>)"
  define json where "json = concat (status_pieces b)"
  define head where "head = http_header 200 ''application/json'' (length json)"
  have "bk_subs b = []" "bk_clients b = []" "bk_retains b = None" "bk_now b = 0" by (simp_all add: b_def static_broker_def)
  then have "topic_get_sub_snapshots b 0 = []" "client_get_snapshots b 0 = []" "topic_get_retain_snapshots b 0 = []"
    using snapshots_all [of b] by (simp_all add: client_get_snapshots_def topic_get_retain_snapshots_def)
  with \<open>bk_subs b = []\<close> \<open>bk_clients b = []\<close> \<open>bk_now b = 0\<close>
  have json: "json = ascii ''{'' @ quoted (ascii ''uptime_ms'') @ ascii '':0,'' @ quoted (ascii ''clients'') @ ascii '':[],'' @
      quoted (ascii ''subscriptions'') @ ascii '':[],'' @ quoted (ascii ''retained'') @ ascii '':[]}''"
    by (simp add: json_def status_pieces_def section_pieces_def dec_int_def dec.simps ascii_def)
  have "(length json < 1000 \<and> 0 \<notin> set json) \<and> length head < 1000"
    by (simp add: head_def json quoted_def ascii_def http_header_def dec.simps)
  then have t: "length json < 1000" "0 \<notin> set json" "length head < 1000" by simp_all
  have "incoming (status_request [49]) [] (bk_socks b 3)"
    unfolding incoming_def by (intro exI [of _ "[status_request [49]]"]) (simp add: b_def static_broker_def status_request_def ascii_def)
  moreover have "incoming (head @ json) [RxClosed] (quiet_sock\<lparr>so_rx := [RxData (head @ json), RxClosed]\<rparr>)"
    unfolding incoming_def by (intro exI [of _ "[head @ json]"]) (simp add: head_def http_header_def ascii_def)
  ultimately show ?thesis
    using cli_status_prints [OF _ _ _ _ _ json_def _ t(2) head_def, of "[49]" "[]" 3 "quiet_sock\<lparr>so_rx := [RxData (head @ json), RxClosed]\<rparr>" "[]" 0 EOK] t
    unfolding Let_def b_def [symmetric] json_def [symmetric] head_def [symmetric]
    by (auto simp: host_ok_def accepting_def quiet_sock_def) (auto simp: b_def static_broker_def quiet_sock_def)
qed

end
