(* ===== verification/Cli_Handshake.thy ===== *)
theory Cli_Handshake
  imports Cli_Properties
begin

text \<open>
  The command line client and the broker, connected: the CONNECT of the client is read by the thread of
  its connection, and the answer of the broker is read by the client.
\<close>

lemma linked_refused:
  assumes "linked sent ((MQTT_CONNACK, [0, rc]) # ps) rest (ci_sock c)" and "rc \<noteq> CONNACK_ACCEPTED"
    and "arg_ok cid" and "arg_ok (opt_text user)" and "arg_ok (opt_text pass)"
    and "build_connect CLI_BUF_SIZE cid CLI_KEEPALIVE user pass clean = Some con"
  obtains s' where "do_connect cid user pass clean c = (None, say (BrokerRefused rc) (c\<lparr>ci_sock := s'\<rparr>))"
proof -
  obtain s1 where s1: "send_built (build_connect CLI_BUF_SIZE cid CLI_KEEPALIVE user pass clean) c = (True, c\<lparr>ci_sock := s1\<rparr>)"
      "linked (sent @ frame (MQTT_CONNECT, connect_body (cli_connect cid user pass clean)))
        ((MQTT_CONNACK, [0, rc]) # ps) rest s1"
    using linked_built [OF assms(1)] unfolding build_connect_frame(2) [OF assms(3-6)] by metis
  from s1(2) have "linked (sent @ frame (MQTT_CONNECT, connect_body (cli_connect cid user pass clean)))
        ((MQTT_CONNACK, [0, rc]) # ps) rest (ci_sock (c\<lparr>ci_sock := s1\<rparr>))" by simp
  from linked_recv [OF this] obtain s2 where
    "recv_pkt (c\<lparr>ci_sock := s1\<rparr>) = (Some (received (MQTT_CONNACK, [0, rc])), c\<lparr>ci_sock := s2\<rparr>)" by auto
  then show ?thesis using that [of s2] s1(1) assms(2) by (simp add: do_connect_def)
qed

lemma takeover_newcomer:
  "c < length (bk_clients b) \<Longrightarrow> client_at (client_takeover c cid b) c = client_at b c"
  "bk_socks (client_takeover c cid b) = bk_socks b" "length (bk_clients (client_takeover c cid b)) = length (bk_clients b)"
  by (simp_all add: client_takeover_def client_at_def nth_enumerate_eq)

lemma delete_frame:
  "client_at (session_delete cid b) c = client_at b c" "bk_socks (session_delete cid b) = bk_socks b"
  "length (bk_clients (session_delete cid b)) = length (bk_clients b)"
  by (auto simp: session_delete_def upd_session_def client_at_def split: option.split)

text \<open>The broker's side: the reply, and what becomes of the client.\<close>

definition connack_code :: "broker \<Rightarrow> mqtt_connect \<Rightarrow> byte" where
  "connack_code b conn = (if auth_failed b conn then CONNACK_BAD_CREDENTIALS else CONNACK_ACCEPTED)"

text \<open>What the record held before the packet was read does not matter for the credentials.\<close>

lemma auth_failed_unannounced: "auth_failed b (keep_unannounced start conn) = auth_failed b conn"
  by (auto simp: auth_failed_def keep_unannounced_def split: option.split)

lemma handle_cli_connect:
  assumes "c < length (bk_clients b)" and "cl_state (client_at b c) = CLIENT_STATE_CONNECTED"
    and "accepting (bk_socks b (cl_fd (client_at b c)))"
    and "packet_parse_connect pkt stack = Inr (keep_unannounced stack (cli_connect cid user pass True))"
    and "length cid < MQTT_CLIENT_ID_MAX"
  defines "b' \<equiv> handle_connect stack c pkt b"
  shows "so_sent (bk_socks b' (cl_fd (client_at b c))) = so_sent (bk_socks b (cl_fd (client_at b c))) @
      frame (MQTT_CONNACK, [0, connack_code b (cli_connect cid user pass True)])"
    and "cl_state (client_at b' c) = (if auth_failed b (cli_connect cid user pass True) then CLIENT_STATE_DISCONNECTING else CLIENT_STATE_CONNECTED)"
    and "\<not> auth_failed b (cli_connect cid user pass True) \<Longrightarrow> cl_client_id (client_at b' c) = cid"
proof -
  let ?k = "keep_unannounced stack (cli_connect cid user pass True)" and ?fd = "cl_fd (client_at b c)"
  have k: "\<not> conn_has_will ?k" "conn_clean_session ?k" "conn_client_id ?k = cid"
    by (simp_all add: cli_connect_def zero_connect_def keep_unannounced_def)
  have a: "auth_failed b (cli_connect cid user pass True) = auth_failed b ?k" by (simp add: auth_failed_unannounced)
  then have ca: "connack_code b (cli_connect cid user pass True) = connack_code b ?k" by (simp add: connack_code_def)
  have send: "send_reply c (Some buf) b1 = upd_sock ?fd (\<lambda>s. s\<lparr>so_sent := so_sent s @ buf\<rparr>) b1"
    if "cl_fd (client_at b1 c) = ?fd" "bk_socks b1 = bk_socks b" for b1 buf
    using that assms(3) client_send_accepting [of b1 c buf] by (simp add: send_reply_def)
  have sk: "bk_socks (upd_sock x f b1) x = f (bk_socks b1 x)" for x f b1 by (simp add: upd_sock_def)
  have all: "so_sent (bk_socks b' ?fd) = so_sent (bk_socks b ?fd) @ frame (MQTT_CONNACK, [0, connack_code b ?k]) \<and>
      cl_state (client_at b' c) = (if auth_failed b ?k then CLIENT_STATE_DISCONNECTING else CLIENT_STATE_CONNECTED) \<and>
      (\<not> auth_failed b ?k \<longrightarrow> cl_client_id (client_at b' c) = cid)"
  proof (cases "auth_failed b ?k")
    case True
    then have "b' = close_client c (send_reply c (Some [MQTT_CONNACK, 2, 0, CONNACK_BAD_CREDENTIALS]) b)"
      using assms(4) by (simp add: b'_def handle_connect_def packet_build_connack_def)
    then show ?thesis
      using True assms(1) send [of b] by (simp add: close_client_def connack_code_def frame_short set_state_def upd_sock_def)
  next
    case False
    let ?b1 = "session_delete cid (upd_client c (adopt_connect ?k) (client_takeover c cid b))"
    have cl: "client_at ?b1 c = adopt_connect ?k (client_at b c)" "bk_socks ?b1 = bk_socks b" "c < length (bk_clients ?b1)"
      using assms(1) by (simp_all add: delete_frame takeover_newcomer)
    have fd: "cl_fd (client_at ?b1 c) = ?fd" using cl(1) k(1) by (simp add: adopt_connect_def Let_def)
    let ?b2 = "send_reply c (Some [MQTT_CONNACK, 2, 0, CONNACK_ACCEPTED]) ?b1"
    have "b' = set_rcvtimeo c (tick_sec (cl_keepalive (client_at ?b2 c))) ?b2"
      using assms(4) False k by (simp add: b'_def handle_connect_def accept_connect_def packet_build_connack_def Let_def)
    then show ?thesis
      using False cl fd send [OF fd cl(2)] assms(2,5) k
      by (simp add: set_rcvtimeo_def connack_code_def frame_short sk adopt_connect_def Let_def)
  qed
  from all [folded a ca] show "so_sent (bk_socks b' ?fd) = so_sent (bk_socks b ?fd) @ frame (MQTT_CONNACK, [0, connack_code b (cli_connect cid user pass True)])"
    "cl_state (client_at b' c) = (if auth_failed b (cli_connect cid user pass True) then CLIENT_STATE_DISCONNECTING else CLIENT_STATE_CONNECTED)"
    "\<not> auth_failed b (cli_connect cid user pass True) \<Longrightarrow> cl_client_id (client_at b' c) = cid" by simp_all
qed




end
