(* ===== verification/Broker_Program.thy ===== *)
theory Broker_Program
  imports Http_Properties
begin

text \<open>
  The broker together with its dashboard: the thread of \<^verbatim>\<open>src/http.c\<close> takes turns among the threads of
  the clients. Its turns keep the invariant as long as nobody posts a message to a topic with
  wildcards, which the dashboard, unlike the packet parser, does not refuse.
\<close>

subsection \<open>A turn of the dashboard\<close>

text \<open>\<open>http_ok fd b\<close>: the invariant, and the descriptor of the request is not a client's.\<close>

definition http_ok :: "int \<Rightarrow> broker \<Rightarrow> bool" where
  "http_ok fd b \<longleftrightarrow> broker_ok b \<and> (\<forall>c. live b c \<longrightarrow> cl_fd (client_at b c) \<noteq> fd)"

lemma http_ok_sock: "http_ok fd b \<Longrightarrow> http_ok fd (upd_sock fd f b)"
  using ok_other_sock by (simp add: http_ok_def live_def)

lemma http_ok_publish:
  assumes "http_ok fd b" and "message_ok pub" and "topic_publishable (pub_topic pub)"
  shows "http_ok fd (topic_publish pub b)"
proof -
  have ok: "broker_ok b" using assms(1) by (simp add: http_ok_def)
  then have k: "keeps b (topic_publish pub b)" using assms(2,3) keeps_publish by (simp add: broker_ok_def)
  then have "cl_fd (client_at (topic_publish pub b) c) = cl_fd (client_at b c)" if "live b c" for c
    using that by (simp add: keeps_def benign_def live_def)
  then show ?thesis using ok_env [OF ok k] keepsD(2) [OF k] assms(1) by (simp add: http_ok_def)
qed

lemma json_str_ok: "json_str body key cap = Some t \<Longrightarrow> 0 \<notin> set body \<Longrightarrow> 0 < cap \<Longrightarrow> cstr_ok t \<and> length t < cap"
proof -
  assume j: "json_str body key cap = Some t" and z: "0 \<notin> set body" and cap: "0 < cap"
  then obtain v c p where v: "json_find_value body key = Some v" "v = c # p" "t = take (cap - 1) (takeWhile (\<lambda>c. c \<noteq> 34) p)"
    by (auto simp: json_str_def split: option.splits list.splits if_splits)
  have sub: "strstr needle xs = Some ys \<Longrightarrow> set ys \<subseteq> set xs" for needle xs ys :: "byte list"
    by (induction xs) (auto split: if_splits)
  obtain q where "strstr (34 # ascii key @ [34, 58]) body = Some q" "v = dropWhile (\<lambda>c. c = 32) (drop (length (34 # ascii key @ [34, 58])) q)"
    using v(1) by (auto simp: json_find_value_def)
  then have "set v \<subseteq> set body" using sub by (meson set_dropWhileD set_drop_subset subset_code(1) subset_iff)
  then have "set t \<subseteq> set body" using v(2,3) by (auto dest!: in_set_takeD set_takeWhileD)
  then show ?thesis using z cap v(3) by (auto simp: cstr_ok_def)
qed

lemma c_text_nul: "0 \<notin> set (c_text t)"
  by (auto simp: c_text_def dest: set_takeWhileD)

lemma publish_api_ok:
  assumes "http_ok fd b" and "0 \<notin> set body"
    and "\<And>t. json_str body ''topic'' MQTT_TOPIC_MAX = Some t \<Longrightarrow> \<not> has_wildcard t"
  shows "http_ok fd (handle_publish_api fd body b)"
proof (cases "json_str body ''topic'' MQTT_TOPIC_MAX")
  case (Some topic)
  show ?thesis
  proof (cases "topic = []")
    case False
    have t: "cstr_ok topic" "length topic < 128" "topic_publishable topic"
      using json_str_ok [OF Some assms(2)] False assms(3) [OF Some] by (simp_all add: topic_publishable_def)
    let ?payload = "case json_str body ''payload'' MQTT_PAYLOAD_MAX of None \<Rightarrow> [] | Some p \<Rightarrow> p"
    have p: "length ?payload \<le> 512"
      using json_str_ok [of body "''payload''" 512] assms(2) by (auto split: option.split)
    have q: "(of_int (if q < 0 \<or> q > 2 then 0 else q) :: byte) \<le> 2" for q :: int
    proof -
      have "q < 0 \<or> q > 2 \<or> q = 0 \<or> q = 1 \<or> q = 2" by linarith
      then show ?thesis by auto
    qed
    have "message_ok (zero_publish\<lparr>pub_topic := topic, pub_payload := ?payload,
        pub_qos := of_int (if json_int body ''qos'' < 0 \<or> json_int body ''qos'' > 2 then 0 else json_int body ''qos''), pub_retain := 0\<rparr>)"
      using t(1,2) p q by (simp add: message_ok_def publish_ok_def zero_publish_def)
    from http_ok_sock [OF http_ok_publish [OF assms(1) this]] show ?thesis
      using False t(3) by (simp add: handle_publish_api_def Some Let_def)
  qed (use http_ok_sock [OF assms(1)] Some in \<open>simp add: handle_publish_api_def\<close>)
qed (use http_ok_sock [OF assms(1)] in \<open>simp add: handle_publish_api_def\<close>)

text \<open>The topic a request posts, if it gets as far as that.\<close>

definition posted_topic :: "sock \<Rightarrow> cstr option" where
  "posted_topic s =
     (case read_request [] s of
        (None, s) \<Rightarrow> None
      | (Some got, s) \<Rightarrow>
          if \<not> starts_with ''POST /api/publish'' (c_text got) then None
          else (case read_body got s of
                  (BodyReady body, s) \<Rightarrow> json_str (c_text body) ''topic'' MQTT_TOPIC_MAX
                | _ \<Rightarrow> None))"

lemma connection_ok:
  assumes "http_ok fd b" and "\<And>t. posted_topic (bk_socks b fd) = Some t \<Longrightarrow> \<not> has_wildcard t"
    and "handle_connection page stray fd b = Some b'"
  shows "http_ok fd b'"
proof -
  obtain r s where r: "read_request [] (bk_socks b fd) = (r, s)" by force
  let ?b = "upd_sock fd (\<lambda>_. s) b"
  have ok: "http_ok fd ?b" by (rule http_ok_sock [OF assms(1)])
  have at: "bk_socks ?b fd = s" by (simp add: upd_sock_def)
  show ?thesis
  proof (cases r)
    case (Some got)
    show ?thesis
    proof (cases "starts_with ''POST /api/publish'' (c_text got)")
      case True
      obtain q s2 where q: "read_body got s = (q, s2)" by force
      have ok2: "http_ok fd (upd_sock fd (\<lambda>_. s2) ?b)" by (rule http_ok_sock [OF ok])
      have "\<not> starts_with ''OPTIONS'' (c_text got)" "\<not> starts_with ''GET / '' (c_text got)"
        "take 6 (c_text got) \<noteq> ascii ''GET /'' @ [13]" "\<not> starts_with ''GET /api/status'' (c_text got)"
        using True by (cases "c_text got"; auto simp: starts_with_def ascii_def)+
      then show ?thesis
        using assms(3) r Some True q at ok2 http_ok_sock [OF ok2]
          publish_api_ok [OF ok2 c_text_nul] assms(2)
        by (auto simp: handle_connection_def Let_def posted_topic_def split: body_result.splits)
    next
      case False
      then show ?thesis
        using assms(3) r Some ok http_ok_sock [OF ok] at
        by (auto simp: handle_connection_def Let_def handle_status_def split: if_splits option.splits)
    qed
  qed (use assms(3) r ok in \<open>simp add: handle_connection_def\<close>)
qed

subsection \<open>The program\<close>

text \<open>
  One step of the program: a step of the broker, or a turn of the dashboard on a connection it has just
  accepted, \<open>None\<close> (undefined behaviour) and the posting of a topic with wildcards excluded.
\<close>

inductive program_step :: "broker \<Rightarrow> broker \<Rightarrow> bool" where
  broker: "broker_step b b' \<Longrightarrow> program_step b b'"
| dashboard: "0 \<le> fd \<Longrightarrow> \<forall>c < length (bk_clients b). cl_state (client_at b c) \<noteq> CLIENT_STATE_FREE \<longrightarrow>
    cl_fd (client_at b c) \<noteq> fd \<Longrightarrow> \<forall>t. posted_topic s = Some t \<longrightarrow> \<not> has_wildcard t \<Longrightarrow>
    http_turn page stray fd (upd_sock fd (\<lambda>_. s) b) = Some b' \<Longrightarrow> program_step b b'"

inductive program_reachable :: "broker \<Rightarrow> bool" where
  start: "broker_reachable b \<Longrightarrow> program_reachable b"
| step: "program_reachable b \<Longrightarrow> program_step b b' \<Longrightarrow> program_reachable b'"

inductive_cases program_stepE: "program_step b b'"

lemma program_step_ok: "program_step b b' \<Longrightarrow> broker_ok b \<Longrightarrow> broker_ok b'"
proof (erule program_stepE)
  fix fd s page stray
  assume ok: "broker_ok b" and fd: "0 \<le> fd" "\<forall>c < length (bk_clients b). cl_state (client_at b c) \<noteq> CLIENT_STATE_FREE \<longrightarrow>
      cl_fd (client_at b c) \<noteq> fd" and post: "\<forall>t. posted_topic s = Some t \<longrightarrow> \<not> has_wildcard t"
    and turn: "http_turn page stray fd (upd_sock fd (\<lambda>_. s) b) = Some b'"
  have h: "http_ok fd (upd_sock fd (\<lambda>_. s) b)"
    using ok fd(2) by (intro http_ok_sock) (simp add: http_ok_def live_def)
  obtain b1 where b1: "handle_connection page stray fd (upd_sock fd (\<lambda>_. s) b) = Some b1" "b' = plat_close fd b1"
    using turn fd(1) by (auto simp: http_turn_def)
  have "http_ok fd b1" using connection_ok [OF h _ b1(1)] post by (simp add: upd_sock_def)
  then show "broker_ok b'" using http_ok_sock [of fd b1] b1(2) by (simp add: plat_close_def http_ok_def)
qed (use broker_step_ok in blast)

lemma program_ok: "program_reachable b \<Longrightarrow> broker_ok b"
  by (induction rule: program_reachable.induct) (simp_all add: reachable_ok program_step_ok)



end
