(* ===== verification/Program_Start.thy ===== *)
theory Program_Start
  imports P2P_Connect_Properties Http_Properties
begin

text \<open>
  How the program starts and which sockets it listens on: the settings and listeners of \<^verbatim>\<open>src/broker.c\<close>,
  starting and stopping the dashboard (\<^verbatim>\<open>src/http.c\<close>), \<open>main\<close>, and the static seeds of the POSIX build,
  which come from an environment variable (\<^verbatim>\<open>src/p2p_peer.c\<close>).

  \<^item> \<open>os_result\<close> is what the operating system does with the calls that open one listener: the descriptor
    \<open>socket\<close> returns or the negated error, whether \<open>inet_pton\<close> takes the host, the errors of \<open>bind\<close> and
    \<open>listen\<close> (0 for none), and whether a thread can be created.
  \<^item> \<open>ls_open\<close> is the list of the listening descriptors the program has opened and not closed, and
    \<open>ls_bad_close\<close> says that it closed one it does not have: a descriptor of somebody else, if the
    number is in use again.
\<close>

subsection \<open>Listeners\<close>

abbreviation (input) EINVAL :: int where "EINVAL \<equiv> 22"

record os_result =
  os_socket :: int
  os_pton_ok :: bool
  os_bind :: nat
  os_listen :: nat
  os_thread_ok :: bool

record listeners =
  ls_bind_host :: cstr
  ls_listen_fd :: int
  ls_listen_port :: u16
  ls_extra_fd :: int
  ls_extra_port :: u16
  ls_extra_started :: bool
  ls_srv_fd :: int
  ls_running :: bool
  ls_open :: "int list"
  ls_bad_close :: bool

definition static_listeners :: "u16 \<Rightarrow> listeners" where
  "static_listeners port = \<lparr>ls_bind_host = [], ls_listen_fd = -1, ls_listen_port = port, ls_extra_fd = -1,
     ls_extra_port = 0, ls_extra_started = False, ls_srv_fd = -1, ls_running = False, ls_open = [], ls_bad_close = False\<rparr>"

definition close_listener :: "int \<Rightarrow> listeners \<Rightarrow> listeners" where
  "close_listener fd l =
     (if fd \<in> set (ls_open l) then l\<lparr>ls_open := remove1 fd (ls_open l)\<rparr> else l\<lparr>ls_bad_close := True\<rparr>)"

definition broker_set_bind_host :: "cstr option \<Rightarrow> listeners \<Rightarrow> int \<times> listeners" where
  "broker_set_bind_host host l =
     (case host of
        None \<Rightarrow> (0, l\<lparr>ls_bind_host := []\<rparr>)
      | Some h \<Rightarrow> if h = [] then (0, l\<lparr>ls_bind_host := []\<rparr>)
                  else if length h \<ge> 64 then (- EINVAL, l) else (0, l\<lparr>ls_bind_host := h\<rparr>))"

definition broker_set_listen_port :: "u16 \<Rightarrow> listeners \<Rightarrow> int \<times> listeners" where
  "broker_set_listen_port port l = (if port = 0 then (- EINVAL, l) else (0, l\<lparr>ls_listen_port := port\<rparr>))"

definition open_listener :: "os_result \<Rightarrow> u16 \<Rightarrow> listeners \<Rightarrow> int \<times> listeners" where
  "open_listener r port l =
     (let fd = os_socket r in
      if fd < 0 then (fd, l)
      else let l = l\<lparr>ls_open := fd # ls_open l\<rparr>
           in if ls_bind_host l \<noteq> [] \<and> \<not> os_pton_ok r then (- EINVAL, close_listener fd l)
              else if os_bind r \<noteq> 0 then (- int (os_bind r), close_listener fd l)
              else if os_listen r \<noteq> 0 then (- int (os_listen r), close_listener fd l)
              else (fd, l))"

definition broker_stop_mqtt_listener :: "listeners \<Rightarrow> int \<times> listeners" where
  "broker_stop_mqtt_listener l =
     (if ls_listen_fd l < 0 then (0, l) else (0, (close_listener (ls_listen_fd l) l)\<lparr>ls_listen_fd := -1\<rparr>))"

definition broker_start_mqtt_listener :: "os_result \<Rightarrow> listeners \<Rightarrow> int \<times> listeners" where
  "broker_start_mqtt_listener r l =
     (if ls_listen_fd l \<ge> 0 then (0, l)
      else let (fd, l) = open_listener r (ls_listen_port l) l; l = l\<lparr>ls_listen_fd := fd\<rparr>
           in if fd < 0 then (fd, l) else (0, l))"

definition broker_start_mesh_ingress_listener :: "os_result \<Rightarrow> u16 \<Rightarrow> listeners \<Rightarrow> int \<times> listeners" where
  "broker_start_mesh_ingress_listener r port l =
     (if port = 0 \<or> port = ls_listen_port l then (- EINVAL, l)
      else if ls_extra_started l then (0, l)
      else let (fd, l) = open_listener r port l; l = l\<lparr>ls_extra_fd := fd\<rparr>
           in if fd < 0 then (fd, l) else (0, l\<lparr>ls_extra_port := port, ls_extra_started := True\<rparr>))"

text \<open>The dashboard: after a failing \<open>bind\<close> the number of the closed descriptor stays in \<open>srv_fd\<close>.\<close>

definition http_server_start :: "os_result \<Rightarrow> listeners \<Rightarrow> int \<times> listeners" where
  "http_server_start r l =
     (let fd = os_socket r; l = l\<lparr>ls_srv_fd := fd\<rparr> in
      if fd < 0 then (-1, l)
      else let l = l\<lparr>ls_open := fd # ls_open l\<rparr>
           in if os_bind r \<noteq> 0 then (-1, close_listener fd l)
              else if os_listen r \<noteq> 0 then (-1, (close_listener fd l)\<lparr>ls_srv_fd := -1\<rparr>)
              else if \<not> os_thread_ok r then (-1, (close_listener fd (l\<lparr>ls_running := False\<rparr>))\<lparr>ls_srv_fd := -1\<rparr>)
              else (0, l\<lparr>ls_running := True\<rparr>))"

definition http_server_stop :: "listeners \<Rightarrow> listeners" where
  "http_server_stop l =
     (let l = l\<lparr>ls_running := False\<rparr>
      in if ls_srv_fd l \<ge> 0 then (close_listener (ls_srv_fd l) l)\<lparr>ls_srv_fd := -1\<rparr> else l)"

subsection \<open>Starting the program\<close>

definition broker_init :: "os_result \<Rightarrow> listeners \<times> node \<Rightarrow> int \<times> listeners \<times> node" where
  "broker_init r s =
     (let (l, n) = s;
          n = on_mesh (on_broker (\<lambda>b. session_init (topic_init b))) n;
          n = n\<lparr>nd_router := p2p_router_init (nd_router n)\<rparr>;
          n = on_mesh (\<lambda>m. if ms_admission_limit m > length (bk_clients (ms_broker m))
                           then m\<lparr>ms_admission_limit := length (bk_clients (ms_broker m))\<rparr> else m) n;
          (fd, l) = open_listener r (ls_listen_port l) l;
          l = l\<lparr>ls_listen_fd := fd\<rparr>
      in (if fd < 0 then fd else 0, l, n))"

text \<open>
  The sockets and threads of the peer network: which of its four loops run (announcing, listening for
  announcements, accepting, dialling). \<open>po_udp\<close> and \<open>po_tcp\<close> are the calls that open the two sockets,
  the flags whether each thread can be created.
\<close>

record p2p_os =
  po_udp :: os_result
  po_tcp :: os_result
  po_announce_ok :: bool
  po_hear_ok :: bool
  po_accept_ok :: bool
  po_dial_ok :: bool

record p2p_threads =
  pk_udp_fd :: int
  pk_listen_fd :: int
  pk_open :: "int list"
  pk_announcing :: bool
  pk_hearing :: bool
  pk_accepting :: bool
  pk_dialling :: bool

definition static_p2p :: p2p_threads where
  "static_p2p = \<lparr>pk_udp_fd = -1, pk_listen_fd = -1, pk_open = [], pk_announcing = False, pk_hearing = False,
     pk_accepting = False, pk_dialling = False\<rparr>"

definition udp_opens :: "p2p_os \<Rightarrow> bool" where
  "udp_opens os \<longleftrightarrow> 0 \<le> os_socket (po_udp os) \<and> os_bind (po_udp os) = 0"

definition tcp_opens :: "p2p_os \<Rightarrow> bool" where
  "tcp_opens os \<longleftrightarrow> 0 \<le> os_socket (po_tcp os) \<and> os_bind (po_tcp os) = 0 \<and> os_listen (po_tcp os) = 0"

definition peer_threads_start :: "p2p_os \<Rightarrow> p2p_threads \<Rightarrow> p2p_threads" where
  "peer_threads_start os k =
     (let fd = os_socket (po_tcp os); k = k\<lparr>pk_listen_fd := fd\<rparr>
      in if fd < 0 then k
         else let k = k\<lparr>pk_open := fd # pk_open k\<rparr>
              in if os_bind (po_tcp os) \<noteq> 0 \<or> os_listen (po_tcp os) \<noteq> 0
                 then k\<lparr>pk_open := remove1 fd (pk_open k), pk_listen_fd := -1\<rparr>
                 else k\<lparr>pk_accepting := po_accept_ok os, pk_dialling := po_dial_ok os\<rparr>)"

definition discovery_threads_start :: "bool \<Rightarrow> p2p_os \<Rightarrow> p2p_threads \<Rightarrow> p2p_threads" where
  "discovery_threads_start static_only os k =
     (if static_only then peer_threads_start os k
      else let fd = os_socket (po_udp os); k = k\<lparr>pk_udp_fd := fd\<rparr>
           in if fd < 0 then k
              else let k = k\<lparr>pk_open := fd # pk_open k\<rparr>
                   in if os_bind (po_udp os) \<noteq> 0 then k\<lparr>pk_open := remove1 fd (pk_open k), pk_udp_fd := -1\<rparr>
                      else peer_threads_start os (k\<lparr>pk_announcing := po_announce_ok os, pk_hearing := po_hear_ok os\<rparr>))"

text \<open>
  \<open>main\<close> up to the call of \<open>broker_run\<close>, which does not return; the first component is -1 when it ends
  early. \<open>wifi\<close> is the result of \<open>wifi_connect\<close>, 0 in a build without it; \<open>http\<close> the calls of the dashboard,
  if it is part of the build.
\<close>

definition main_start ::
  "int \<Rightarrow> os_result \<Rightarrow> os_result option \<Rightarrow> p2p_os \<Rightarrow> node_id \<Rightarrow> listeners \<times> p2p_threads \<times> node
    \<Rightarrow> int \<times> listeners \<times> p2p_threads \<times> node" where
  "main_start wifi r http os self s =
     (if wifi \<noteq> 0 then (-1, s)
      else let (l, k, n) = s; (rc, l, n) = broker_init r (l, on_mesh (on_broker client_pool_init) n)
           in if rc \<noteq> 0 then (-1, l, k, n)
              else let l = (case http of None \<Rightarrow> l | Some hr \<Rightarrow> snd (http_server_start hr l))
                   in (0, l, discovery_threads_start (ec_static_seeds_only (nd_cfg n)) os k, p2p_start (udp_opens os) self n))"

subsection \<open>Static seeds\<close>

text \<open>\<open>strtok_r\<close>: the pieces between separators, empty ones left out.\<close>

fun split_at :: "byte \<Rightarrow> byte list \<Rightarrow> byte list \<Rightarrow> byte list list" where
  "split_at sep piece [] = [piece]"
| "split_at sep piece (c # cs) = (if c = sep then piece # split_at sep [] cs else split_at sep (piece @ [c]) cs)"

definition strtok_all :: "byte \<Rightarrow> byte list \<Rightarrow> byte list list" where
  "strtok_all sep s = filter (\<lambda>t. t \<noteq> []) (split_at sep [] s)"

definition add_seed :: "(cstr \<Rightarrow> u32) \<Rightarrow> byte list \<Rightarrow> static_seed list \<Rightarrow> static_seed list" where
  "add_seed inet_addr tok seeds =
     (case find_last (\<lambda>c. c = 58) tok of
        None \<Rightarrow> seeds
      | Some colon \<Rightarrow>
          (let addr = inet_addr (take colon tok); port = atoi (drop (Suc colon) tok)
           in if addr \<noteq> INADDR_NONE \<and> port > 0 \<and> port \<le> 65535
              then snd (p2p_static_seed_add addr (word_of_int port) seeds) else seeds))"

text \<open>The state is whether the variable was read, and the seeds; \<open>env\<close> is the value of the variable.\<close>

definition load_env_static_seeds_once ::
  "(cstr \<Rightarrow> u32) \<Rightarrow> cstr option \<Rightarrow> bool \<times> static_seed list \<Rightarrow> bool \<times> static_seed list" where
  "load_env_static_seeds_once inet_addr env s =
     (let (loaded, seeds) = s in
      if loaded then (True, seeds)
      else case env of
             None \<Rightarrow> (True, seeds)
           | Some v \<Rightarrow> (True, if v = [] then seeds
                              else fold (add_seed inet_addr) (strtok_all 44 (strncpy_str 2048 v)) seeds))"


text \<open>One iteration of the connecting thread of the POSIX build.\<close>

definition posix_connect_turn ::
  "(cstr \<Rightarrow> u32) \<Rightarrow> cstr option \<Rightarrow> bool \<Rightarrow> (u32 \<Rightarrow> u16 \<Rightarrow> int option) \<Rightarrow> bool \<times> node \<Rightarrow> bool \<times> node" where
  "posix_connect_turn inet_addr env spawn_ok dial s =
     (let (loaded, n) = s; (loaded, seeds) = load_env_static_seeds_once inet_addr env (loaded, nd_seeds n)
      in (loaded, connect_turn spawn_ok dial (n\<lparr>nd_seeds := seeds\<rparr>)))"

subsection \<open>Descriptors\<close>

text \<open>
  \<open>listeners_ok restarts\<close>: the descriptors the program knows are open, each once, and it never closed one
  that was not its own; none other is open unless the dashboard may have been started again while it ran (\<open>restarts\<close>).
\<close>

definition known_fds :: "listeners \<Rightarrow> int list" where
  "known_fds l = filter (\<lambda>fd. 0 \<le> fd) [ls_listen_fd l, if ls_extra_started l then ls_extra_fd l else -1, ls_srv_fd l]"

definition listeners_ok :: "bool \<Rightarrow> listeners \<Rightarrow> bool" where
  "listeners_ok restarts l \<longleftrightarrow> \<not> ls_bad_close l \<and> distinct (known_fds l) \<and> distinct (ls_open l) \<and>
     set (known_fds l) \<subseteq> set (ls_open l) \<and> (\<not> restarts \<longrightarrow> set (ls_open l) \<subseteq> set (known_fds l))"

lemma known_fds_running [simp]: "known_fds (l\<lparr>ls_running := b\<rparr>) = known_fds l"
  by (simp add: known_fds_def)

text \<open>
  Calls in any order; a new descriptor is one the program does not have open. \<open>restarts\<close> says whether the
  dashboard may be started while it runs, which the code does not check.
\<close>

inductive listener_step :: "bool \<Rightarrow> listeners \<Rightarrow> listeners \<Rightarrow> bool" for restarts where
  bind_host: "listener_step restarts l (snd (broker_set_bind_host host l))"
| listen_port: "listener_step restarts l (snd (broker_set_listen_port port l))"
| start: "os_socket r \<notin> set (ls_open l) \<Longrightarrow> listener_step restarts l (snd (broker_start_mqtt_listener r l))"
| stop: "listener_step restarts l (snd (broker_stop_mqtt_listener l))"
| ingress: "os_socket r \<notin> set (ls_open l) \<Longrightarrow> listener_step restarts l (snd (broker_start_mesh_ingress_listener r port l))"
| http_start: "os_socket r \<notin> set (ls_open l) \<Longrightarrow> restarts \<or> ls_srv_fd l < 0 \<Longrightarrow> os_socket r < 0 \<or> os_bind r = 0 \<Longrightarrow>
    listener_step restarts l (snd (http_server_start r l))"
| http_stop: "listener_step restarts l (http_server_stop l)"

lemma open_listener_cases:
  assumes "open_listener r port l = (fd, l')" and "os_socket r \<notin> set (ls_open l)"
  shows "fd < 0 \<and> l' = l \<or> fd = os_socket r \<and> 0 \<le> fd \<and> l' = l\<lparr>ls_open := fd # ls_open l\<rparr>"
  using assms by (auto simp: open_listener_def Let_def close_listener_def split: if_splits)

lemma remove_known: "distinct xs \<Longrightarrow> set (remove1 x xs) = set xs - {x}"
  by simp

lemma ok_close:
  assumes "listeners_ok restarts l"
  shows "0 \<le> ls_listen_fd l \<Longrightarrow> listeners_ok restarts ((close_listener (ls_listen_fd l) l)\<lparr>ls_listen_fd := -1\<rparr>)"
    and "0 \<le> ls_srv_fd l \<Longrightarrow> listeners_ok restarts ((close_listener (ls_srv_fd l) l)\<lparr>ls_srv_fd := -1\<rparr>)"
  using assms by (auto simp: listeners_ok_def known_fds_def close_listener_def)

lemma ok_listen_fd:
  assumes "listeners_ok restarts l" and "ls_listen_fd l < 0"
  shows "fd < 0 \<Longrightarrow> listeners_ok restarts (l\<lparr>ls_listen_fd := fd\<rparr>)"
    and "0 \<le> fd \<Longrightarrow> fd \<notin> set (ls_open l) \<Longrightarrow> listeners_ok restarts (l\<lparr>ls_open := fd # ls_open l, ls_listen_fd := fd\<rparr>)"
  using assms by (auto simp: listeners_ok_def known_fds_def)

lemma ok_extra_fd:
  assumes "listeners_ok restarts l" and "\<not> ls_extra_started l"
  shows "listeners_ok restarts (l\<lparr>ls_extra_fd := fd\<rparr>)"
    and "0 \<le> fd \<Longrightarrow> fd \<notin> set (ls_open l) \<Longrightarrow>
      listeners_ok restarts (l\<lparr>ls_open := fd # ls_open l, ls_extra_fd := fd, ls_extra_port := port, ls_extra_started := True\<rparr>)"
  using assms by (auto simp: listeners_ok_def known_fds_def)

lemma ok_srv_fd:
  assumes "listeners_ok restarts l" and "restarts \<or> ls_srv_fd l < 0"
  shows "fd < 0 \<Longrightarrow> listeners_ok restarts (l\<lparr>ls_srv_fd := fd\<rparr>)" and "fd < 0 \<Longrightarrow> listeners_ok restarts (l\<lparr>ls_running := b, ls_srv_fd := fd\<rparr>)"
    and "0 \<le> fd \<Longrightarrow> fd \<notin> set (ls_open l) \<Longrightarrow> listeners_ok restarts (l\<lparr>ls_srv_fd := fd, ls_open := fd # ls_open l, ls_running := b\<rparr>)"
  using assms by (auto simp: listeners_ok_def known_fds_def)

lemma http_start_cases:
  assumes "os_socket r \<notin> set (ls_open l)" and "os_socket r < 0 \<or> os_bind r = 0"
  obtains fd where "snd (http_server_start r l) = l\<lparr>ls_srv_fd := fd\<rparr>" "fd < 0"
    | fd where "snd (http_server_start r l) = l\<lparr>ls_running := False, ls_srv_fd := fd\<rparr>" "fd < 0"
    | fd where "snd (http_server_start r l) = l\<lparr>ls_srv_fd := fd, ls_open := fd # ls_open l, ls_running := True\<rparr>"
        "0 \<le> fd" "fd \<notin> set (ls_open l)"
proof -
  consider "os_socket r < 0" | "0 \<le> os_socket r" "os_listen r \<noteq> 0" | "0 \<le> os_socket r" "os_listen r = 0" "\<not> os_thread_ok r"
    | "0 \<le> os_socket r" "os_listen r = 0" "os_thread_ok r" by linarith
  then show ?thesis
  proof cases
    case 1
    show ?thesis by (rule that(1) [of "os_socket r"]) (use 1 in \<open>simp_all add: http_server_start_def Let_def\<close>)
  next
    case 2
    show ?thesis by (rule that(1) [of "-1"]) (use 2 assms in \<open>simp_all add: http_server_start_def close_listener_def Let_def\<close>)
  next
    case 3
    show ?thesis by (rule that(2) [of "-1"]) (use 3 assms in \<open>simp_all add: http_server_start_def close_listener_def Let_def\<close>)
  next
    case 4
    show ?thesis by (rule that(3) [of "os_socket r"]) (use 4 assms in \<open>simp_all add: http_server_start_def Let_def\<close>)
  qed
qed

lemma listener_step_ok: "listener_step restarts l l' \<Longrightarrow> listeners_ok restarts l \<Longrightarrow> listeners_ok restarts l'"
proof (induction rule: listener_step.induct)
  case (bind_host l host)
  then show ?case by (auto simp: listeners_ok_def known_fds_def broker_set_bind_host_def split: option.splits)
next
  case (listen_port l port)
  then show ?case by (auto simp: listeners_ok_def known_fds_def broker_set_listen_port_def)
next
  case (start r l)
  obtain fd l1 where o: "open_listener r (ls_listen_port l) l = (fd, l1)" by force
  show ?case
  proof (cases "ls_listen_fd l \<ge> 0")
    case False
    then have neg: "ls_listen_fd l < 0" by simp
    have r: "snd (broker_start_mqtt_listener r l) = l1\<lparr>ls_listen_fd := fd\<rparr>"
      using False o by (simp add: broker_start_mqtt_listener_def Let_def)
    from open_listener_cases [OF o start(1)] show ?thesis
      using ok_listen_fd [OF start(2) neg] start(1) unfolding r by auto
  qed (use start(2) in \<open>simp add: broker_start_mqtt_listener_def\<close>)
next
  case (stop l)
  then show ?case using ok_close(1) by (auto simp: broker_stop_mqtt_listener_def)
next
  case (ingress r l port)
  obtain fd l1 where o: "open_listener r port l = (fd, l1)" by force
  show ?case
  proof (cases "port = 0 \<or> port = ls_listen_port l \<or> ls_extra_started l")
    case False
    then have r: "snd (broker_start_mesh_ingress_listener r port l) =
        (if fd < 0 then l1\<lparr>ls_extra_fd := fd\<rparr> else l1\<lparr>ls_extra_fd := fd, ls_extra_port := port, ls_extra_started := True\<rparr>)"
      using o by (simp add: broker_start_mesh_ingress_listener_def Let_def)
    from open_listener_cases [OF o ingress(1)] show ?thesis
      using ok_extra_fd [OF ingress(2)] False ingress(1) unfolding r by auto
  qed (use ingress(2) in \<open>auto simp: broker_start_mesh_ingress_listener_def\<close>)
next
  case (http_start r l)
  from http_start(1,3) show ?case
    by (cases rule: http_start_cases) (use ok_srv_fd [OF http_start(4,2)] in simp_all)
next
  case (http_stop l)
  have "listeners_ok restarts (l\<lparr>ls_running := False\<rparr>)" using http_stop by (simp add: listeners_ok_def)
  then show ?case using ok_close(2) [of restarts "l\<lparr>ls_running := False\<rparr>"] by (simp add: http_server_stop_def Let_def)
qed

inductive listener_run :: "bool \<Rightarrow> listeners \<Rightarrow> listeners \<Rightarrow> bool" for restarts where
  none: "listener_run restarts l l"
| more: "listener_run restarts l l' \<Longrightarrow> listener_step restarts l' l'' \<Longrightarrow> listener_run restarts l l''"



text \<open>The descriptor of a running dashboard that is started again stays open, and stopping closes only the new one.\<close>

lemma http_started_twice:
  assumes "ls_srv_fd l \<in> set (ls_open l)" and "0 \<le> os_socket r" and "os_socket r \<noteq> ls_srv_fd l"
    and "os_bind r = 0" and "os_listen r = 0" and "os_thread_ok r"
  shows "fst (http_server_start r l) = 0" and "ls_srv_fd l \<in> set (ls_open (http_server_stop (snd (http_server_start r l))))"
    and "ls_srv_fd (http_server_stop (snd (http_server_start r l))) = -1"
  using assms by (simp_all add: http_server_start_def http_server_stop_def close_listener_def Let_def)

lemma http_bind_failure:
  assumes "0 \<le> os_socket r" and "os_socket r \<notin> set (ls_open l)" and "os_bind r \<noteq> 0"
  shows "fst (http_server_start r l) = -1" and "ls_srv_fd (snd (http_server_start r l)) = os_socket r"
    and "ls_open (snd (http_server_start r l)) = ls_open l"
    and "ls_bad_close (http_server_stop (snd (http_server_start r l)))"
  using assms by (simp_all add: http_server_start_def http_server_stop_def close_listener_def Let_def)

subsection \<open>The start\<close>

lemma peer_threads_cases:
  "peer_threads_start os k = (if tcp_opens os
     then k\<lparr>pk_listen_fd := os_socket (po_tcp os), pk_open := os_socket (po_tcp os) # pk_open k,
            pk_accepting := po_accept_ok os, pk_dialling := po_dial_ok os\<rparr>
     else k\<lparr>pk_listen_fd := if os_socket (po_tcp os) < 0 then os_socket (po_tcp os) else -1\<rparr>)"
  by (auto simp: peer_threads_start_def tcp_opens_def Let_def)

lemma threads_need:
  assumes "tk = discovery_threads_start static_only os static_p2p"
  shows "pk_announcing tk \<or> pk_hearing tk \<or> pk_accepting tk \<or> pk_dialling tk \<Longrightarrow> udp_opens os \<or> static_only"
    and "pk_accepting tk \<or> pk_dialling tk \<Longrightarrow> 0 \<le> pk_listen_fd tk \<and> pk_listen_fd tk \<in> set (pk_open tk)"
  using assms by (auto simp: discovery_threads_start_def peer_threads_cases static_p2p_def udp_opens_def tcp_opens_def Let_def
      split: if_splits)

text \<open>
  C0: \<open>main\<close> reaches the state the invariants start from. From static storage, when \<open>main\<close> gets to
  \<open>broker_run\<close>, the network was up, the MQTT listener is open, the broker satisfies the invariant of its
  reachable states, the admission limit is at most the number of slots, and a thread of the peer network
  runs only on a node whose connections satisfy theirs; accepting and dialling have a listening socket.
  Otherwise the program ends with -1, with no listener open and no thread of the peer network.
\<close>

theorem main_starts:
  assumes "main_start wifi r http os self (static_listeners port, static_p2p, static_node \<lparr>ms_broker = static_broker c t socks,
      ms_clients = ms, ms_admission_limit = k\<rparr> cfg nodes subs) = (rc, l, tk, n)"
  shows "if rc = 0 then wifi = 0 \<and> 0 \<le> ls_listen_fd l \<and> ls_listen_fd l = os_socket r \<and> os_socket r \<in> set (ls_open l) \<and>
        broker_ok (nd_broker n) \<and> ms_admission_limit (nd_mesh n) \<le> length (bk_clients (nd_broker n)) \<and>
        (pk_announcing tk \<or> pk_hearing tk \<or> pk_accepting tk \<or> pk_dialling tk \<longrightarrow> conns_ok n) \<and>
        (pk_accepting tk \<or> pk_dialling tk \<longrightarrow> 0 \<le> pk_listen_fd tk \<and> pk_listen_fd tk \<in> set (pk_open tk))
      else rc = -1 \<and> ls_open l = [] \<and> tk = static_p2p"
proof (cases "wifi = 0")
  case True
  let ?b = "static_broker c t socks"
  let ?n = "on_mesh (on_broker client_pool_init) (static_node \<lparr>ms_broker = ?b, ms_clients = ms, ms_admission_limit = k\<rparr> cfg nodes subs)"
  obtain rc1 l1 n1 where init: "broker_init r (static_listeners port, ?n) = (rc1, l1, n1)" by (metis prod_cases3)
  obtain fd l0 where o: "open_listener r port (static_listeners port) = (fd, l0)" by force
  have fd: "fd < 0 \<and> l0 = static_listeners port \<or> fd = os_socket r \<and> 0 \<le> fd \<and> ls_open l0 = [fd]"
    using open_listener_cases [OF o] by (auto simp: static_listeners_def)
  have l1: "rc1 = (if fd < 0 then fd else 0)" "l1 = l0\<lparr>ls_listen_fd := fd\<rparr>"
    using init o by (auto simp: broker_init_def Let_def static_listeners_def)
  have n1: "nd_broker n1 = session_init (topic_init (client_pool_init ?b))" "nd_cfg n1 = cfg" "nd_threads n1 = []"
      "length (nd_slots n1) = length (nd_conns n1)" "ms_admission_limit (nd_mesh n1) \<le> length (bk_clients (nd_broker n1))"
    using init o by (auto simp: broker_init_def Let_def static_listeners_def nd_broker_def on_mesh_def on_broker_def static_node_def p2p_router_init_def
        split: if_splits)
  have "bk_sessions (topic_init (client_pool_init ?b)) = None"
    by (simp add: topic_init_def client_pool_init_def static_broker_def)
  then have ok: "broker_ok (nd_broker n1)"
    using ok_start [of ?b] n1(1) by (simp add: session_init_def static_broker_def)
  show ?thesis
  proof (cases "fd < 0")
    case True
    then show ?thesis using assms \<open>wifi = 0\<close> init l1 fd by (auto simp: main_start_def static_listeners_def)
  next
    case False
    have r: "rc = 0" "l = (case http of None \<Rightarrow> l1 | Some hr \<Rightarrow> snd (http_server_start hr l1))" "n = p2p_start (udp_opens os) self n1"
        "tk = discovery_threads_start (ec_static_seeds_only cfg) os static_p2p"
      using assms \<open>wifi = 0\<close> init l1 n1(2) False by (auto simp: main_start_def)
    have "ls_listen_fd l = fd" "fd \<in> set (ls_open l)"
      using r(2) l1(2) fd False by (auto simp: http_server_start_def close_listener_def Let_def split: option.split)
    moreover have "nd_broker n = nd_broker n1" "ms_admission_limit (nd_mesh n) = ms_admission_limit (nd_mesh n1)"
      using r(3) by (simp_all add: p2p_start_def p2p_peer_start_def nd_broker_def)
    moreover have "pk_announcing tk \<or> pk_hearing tk \<or> pk_accepting tk \<or> pk_dialling tk \<longrightarrow> conns_ok n"
    proof
      assume "pk_announcing tk \<or> pk_hearing tk \<or> pk_accepting tk \<or> pk_dialling tk"
      then have "udp_opens os \<or> ec_static_seeds_only cfg" using threads_need(1) r(4) by blast
      then have "n = p2p_start True self n1" using r(3) n1(2) by (auto simp: p2p_start_def)
      then show "conns_ok n" using conns_ok_start [OF n1(3,4)] by simp
    qed
    ultimately show ?thesis using r(1) \<open>wifi = 0\<close> fd False ok n1(5) threads_need(2) r(4) by auto
  qed
next
  case False
  then show ?thesis using assms by (auto simp: main_start_def static_listeners_def)
qed



text \<open>
  When the TCP listener of the peer network cannot be opened, the announcing thread runs all the same:
  the node announces itself, with its id and score, and can neither be connected to nor dial.
\<close>

lemma announces_without_listening:
  assumes "udp_opens os" and "\<not> tcp_opens os" and "po_announce_ok os"
  shows "let k = discovery_threads_start False os static_p2p
    in pk_announcing k \<and> \<not> pk_accepting k \<and> \<not> pk_dialling k \<and> pk_listen_fd k < 0"
  using assms
  by (auto simp: discovery_threads_start_def peer_threads_cases static_p2p_def udp_opens_def Let_def)

text \<open>Without the discovery socket nothing of the peer network runs, though seeds and accepting do not need it.\<close>

lemma no_discovery_no_peers:
  assumes "\<not> udp_opens os"
  shows "let k = discovery_threads_start False os static_p2p
    in \<not> pk_announcing k \<and> \<not> pk_hearing k \<and> \<not> pk_accepting k \<and> \<not> pk_dialling k \<and> pk_open k = []"
  using assms by (auto simp: discovery_threads_start_def static_p2p_def udp_opens_def Let_def)

subsection \<open>Seeds from the environment\<close>

definition seed_text :: "cstr \<times> nat \<Rightarrow> byte list" where
  "seed_text x = fst x @ 58 # dec (snd x)"

fun seeds_text :: "(cstr \<times> nat) list \<Rightarrow> byte list" where
  "seeds_text [] = []"
| "seeds_text [x] = seed_text x"
| "seeds_text (x # y # xs) = seed_text x @ 44 # seeds_text (y # xs)"

lemma split_at_piece:
  "sep \<notin> set p \<Longrightarrow> split_at sep acc (p @ sep # cs) = (acc @ p) # split_at sep [] cs"
  "sep \<notin> set p \<Longrightarrow> split_at sep acc p = [acc @ p]"
  by (induction p arbitrary: acc) auto

lemma seed_text_facts:
  assumes "44 \<notin> set h"
  shows "44 \<notin> set (seed_text (h, p))" and "seed_text (h, p) \<noteq> []"
    and "find_last (\<lambda>c. c = 58) (seed_text (h, p)) = Some (length h)"
proof -
  have d: "44 \<notin> set (dec p)" "58 \<notin> set (dec p)" using dec_digits(1) [of p] by force+
  show "44 \<notin> set (seed_text (h, p))" using assms d(1) by (simp add: seed_text_def)
  show "seed_text (h, p) \<noteq> []" by (simp add: seed_text_def)
  have "\<forall>c \<in> set (dec p). c \<noteq> 58" using d(2) by blast
  then have "find_last (\<lambda>c. c = 58) (dec p) = None" by (simp add: find_last_None find_idx_None)
  then show "find_last (\<lambda>c. c = 58) (seed_text (h, p)) = Some (length h)"
    unfolding seed_text_def by (induction h) simp_all
qed

lemma strtok_seeds:
  "\<forall>x \<in> set xs. 44 \<notin> set (fst x) \<Longrightarrow> strtok_all 44 (seeds_text xs) = map seed_text xs"
proof (induction xs rule: seeds_text.induct)
  case (2 x)
  then show ?case using seed_text_facts [of "fst x" "snd x"] by (simp add: strtok_all_def split_at_piece)
next
  case (3 x y xs)
  then show ?case using seed_text_facts [of "fst x" "snd x"] by (simp add: strtok_all_def split_at_piece)
qed (simp add: strtok_all_def)

lemma atoi_dec_end: "n < 2 ^ 31 \<Longrightarrow> atoi (dec n) = int n"
proof -
  assume n: "n < 2 ^ 31"
  obtain d ds where d: "dec n = d # ds" using dec_digits(2) [of n] by (cases "dec n") auto
  then have r: "48 \<le> d" "d \<le> 57" using dec_digits(1) [of n] by auto
  then have "\<not> d \<le> 13" "d \<noteq> 32" "d \<noteq> 45" "d \<noteq> 43" using order_trans [of 48 d 13] by auto
  moreover have "digits_value 0 (dec n) = n" using digits_value_dec [of 0 n "[]"] by simp
  moreover have "signed_take_bit 31 (int n) = int n" using n by (simp add: signed_take_bit_int_eq_self)
  ultimately show ?thesis using n unfolding atoi_def d by (simp add: is_space_def d)
qed

lemma add_seed_text:
  assumes "44 \<notin> set h" and "inet_addr h \<noteq> INADDR_NONE" and "0 < p" and "p \<le> 65535"
  shows "add_seed inet_addr (seed_text (h, p)) seeds = snd (p2p_static_seed_add (inet_addr h) (word_of_nat p) seeds)"
  using seed_text_facts(3) [OF assms(1), of p] atoi_dec_end [of p] assms(2-4)
  by (simp add: add_seed_def) (simp add: seed_text_def)

text \<open>
  C0: the seeds of the environment variable. For a list of hosts and ports of at most 2047 characters,
  the first turn of the connecting thread adds each seed, in the order of the list, with the address of
  its host and its port; later turns leave the seeds alone.
\<close>

theorem env_seeds_added:
  assumes "\<forall>(h, p) \<in> set xs. 44 \<notin> set h \<and> inet_addr h \<noteq> INADDR_NONE \<and> 0 < p \<and> p \<le> 65535"
    and "length (seeds_text xs) \<le> 2047"
  shows "load_env_static_seeds_once inet_addr (Some (seeds_text xs)) (False, seeds) =
      (True, fold (\<lambda>(h, p) s. snd (p2p_static_seed_add (inet_addr h) (word_of_nat p) s)) xs seeds) \<and>
    load_env_static_seeds_once inet_addr env (True, seeds) = (True, seeds)"
proof -
  have cut: "strncpy_str 2048 (seeds_text xs) = seeds_text xs" using assms(2) by (simp add: strncpy_str_def)
  have "fold (add_seed inet_addr) (map seed_text xs) seeds =
      fold (\<lambda>(h, p) s. snd (p2p_static_seed_add (inet_addr h) (word_of_nat p) s)) xs seeds"
    using assms(1) by (induction xs arbitrary: seeds) (auto simp: add_seed_text)
  moreover have "strtok_all 44 (seeds_text xs) = map seed_text xs" using assms(1) by (intro strtok_seeds) auto
  moreover have "seeds_text xs = [] \<Longrightarrow> xs = []"
    using assms(1) seed_text_facts(2) by (cases xs rule: seeds_text.cases) (auto simp: seed_text_def)
  ultimately show ?thesis by (auto simp: load_env_static_seeds_once_def cut)
qed

subsection \<open>Examples\<close>


theorem main_starts_witness:
  "let r = \<lparr>os_socket = 3, os_pton_ok = True, os_bind = 0, os_listen = 0, os_thread_ok = True\<rparr>;
       cfg = \<lparr>ec_static_seeds_only = False, ec_router_count = 1, ec_mqtt_port = 1883, ec_p2p_port = 4884\<rparr>;
       n = static_node \<lparr>ms_broker = static_broker 2 4 (\<lambda>_. quiet_sock), ms_clients = [], ms_admission_limit = 8\<rparr> cfg 2 1;
       os = \<lparr>po_udp = r\<lparr>os_socket := 4\<rparr>, po_tcp = r\<lparr>os_socket := 5\<rparr>, po_announce_ok = True, po_hear_ok = True, po_accept_ok = True, po_dial_ok = True\<rparr>;
       (rc, l, tk, n') = main_start 0 r None os (make_node_id 1) (static_listeners 1883, static_p2p, n)
   in rc = 0 \<and> ls_listen_fd l = 3 \<and> broker_ok (nd_broker n') \<and> ms_admission_limit (nd_mesh n') \<le> 2"
proof -
  let ?r = "\<lparr>os_socket = 3, os_pton_ok = True, os_bind = 0, os_listen = 0, os_thread_ok = True\<rparr>"
  let ?cfg = "\<lparr>ec_static_seeds_only = False, ec_router_count = 1, ec_mqtt_port = 1883, ec_p2p_port = 4884\<rparr>"
  let ?n = "static_node \<lparr>ms_broker = static_broker 2 4 (\<lambda>_. quiet_sock), ms_clients = [], ms_admission_limit = 8\<rparr> ?cfg 2 1"
  let ?os = "\<lparr>po_udp = ?r\<lparr>os_socket := 4\<rparr>, po_tcp = ?r\<lparr>os_socket := 5\<rparr>, po_announce_ok = True, po_hear_ok = True, po_accept_ok = True, po_dial_ok = True\<rparr>"
  let ?m = "main_start 0 ?r None ?os (make_node_id 1) (static_listeners 1883, static_p2p, ?n)"
  note defs = main_start_def broker_init_def open_listener_def static_listeners_def Let_def nd_broker_def on_mesh_def on_broker_def
    static_node_def p2p_start_def udp_opens_def p2p_peer_start_def session_init_def topic_init_def client_pool_init_def static_broker_def
  have "fst ?m = 0" "length (bk_clients (nd_broker (snd (snd (snd ?m))))) = 2" by (simp_all add: defs)
  moreover obtain rc l tk n' where m: "?m = (rc, l, tk, n')" by (metis prod_cases4)
  ultimately have "rc = 0" "length (bk_clients (nd_broker n')) = 2" by simp_all
  then show ?thesis using main_starts [OF m] unfolding Let_def m by simp
qed

theorem env_seeds_added_witness:
  "load_env_static_seeds_once (\<lambda>h. of_nat (length h)) (Some (ascii ''10.0.0.2:4884'')) (False, replicate 1 zero_seed) =
     (True, [zero_seed\<lparr>sd_addr := 8, sd_p2p_port := 4884, sd_in_use := True\<rparr>])"
proof -
  have t: "ascii ''10.0.0.2:4884'' = seeds_text [(ascii ''10.0.0.2'', 4884)]"
    by (simp add: seed_text_def ascii_def dec.simps)
  show ?thesis unfolding t
    by (subst env_seeds_added [THEN conjunct1]) (simp_all add: ascii_def seed_text_def dec.simps p2p_static_seed_add_def zero_seed_def
        slot_of_def free_slot_def upd_nth_def)
qed

end
