(* ===== verification/Wifi.thy ===== *)
theory Wifi
  imports Broker_Prelude
begin

text \<open>
  Joining the wireless network on the embedded build, \<^verbatim>\<open>src/wifi.c\<close>: \<open>wifi_connect\<close> at the start, and the
  work item that joins again after a loss.

  \<^item> The two semaphores have a limit of one, so a bool each. \<open>wf_scheduled\<close>: the work item waits for its
    delay. \<open>wf_worker\<close> and \<open>wf_startup\<close>: what the work item and \<open>wifi_connect\<close> wait for.
  \<^item> A thread that waits for a semaphore moves at any time: it takes the semaphore, or, when that is not
    available, its wait has timed out. \<open>k_sem_reset\<close> also ends the waits of others with an error, as
    Zephyr documents.
  \<^item> \<open>wf_up\<close> is not in the code: no loss was reported since an attempt last succeeded.
  \<^item> The network stack is outside the repository: whether there is an interface and the result of a
    connect request are arguments, its events are steps. \<open>ip_config\<close> is the build option: DHCP, or static
    addresses that \<open>net_addr_pton\<close> accepts or not.
\<close>

abbreviation (input) ERR_NODEV :: int where "ERR_NODEV \<equiv> 19"
abbreviation (input) ERR_INVAL :: int where "ERR_INVAL \<equiv> 22"
abbreviation (input) ERR_TIMEDOUT :: int where "ERR_TIMEDOUT \<equiv> 116"

datatype wait_for = Association | Address

datatype startup = NotStarted | Waiting wait_for | Returned int

datatype ip_config = Dhcp | StaticIp bool

datatype wifi_event = ConnectResult "int option" | DisconnectResult

record wifi =
  wf_sem_connected :: bool
  wf_sem_ip :: bool
  wf_scheduled :: bool
  wf_worker :: "wait_for option"
  wf_startup :: startup
  wf_up :: bool

definition static_wifi :: wifi where
  "static_wifi = \<lparr>wf_sem_connected = False, wf_sem_ip = False, wf_scheduled = False, wf_worker = None,
     wf_startup = NotStarted, wf_up = False\<rparr>"

subsection \<open>Semaphores and events\<close>

definition k_sem_take :: "wait_for \<Rightarrow> wifi \<Rightarrow> bool \<times> wifi" where
  "k_sem_take f w =
     (case f of
        Association \<Rightarrow> (wf_sem_connected w, w\<lparr>wf_sem_connected := False\<rparr>)
      | Address \<Rightarrow> (wf_sem_ip w, w\<lparr>wf_sem_ip := False\<rparr>))"

definition reset_sems :: "wifi \<Rightarrow> wifi" where
  "reset_sems w = w\<lparr>wf_sem_connected := False, wf_sem_ip := False,
     wf_startup := (case wf_startup w of Waiting f \<Rightarrow> Returned (- ERR_TIMEDOUT) | s \<Rightarrow> s)\<rparr>"

definition schedule :: "wifi \<Rightarrow> wifi" where
  "schedule w = w\<lparr>wf_scheduled := True\<rparr>"

definition on_wifi_event :: "wifi_event \<Rightarrow> wifi \<Rightarrow> wifi" where
  "on_wifi_event ev w =
     (case ev of
        ConnectResult status \<Rightarrow>
          if status \<noteq> None \<and> status \<noteq> Some 0 then w else w\<lparr>wf_sem_connected := True\<rparr>
      | DisconnectResult \<Rightarrow> (schedule w)\<lparr>wf_up := False\<rparr>)"

definition on_ipv4_event :: "wifi \<Rightarrow> wifi" where
  "on_ipv4_event w = w\<lparr>wf_sem_ip := True\<rparr>"

subsection \<open>Joining\<close>

text \<open>The result of a step that does not wait, or \<open>None\<close> when it waits.\<close>

definition connect_wifi :: "int \<Rightarrow> int option" where
  "connect_wifi req = (if req \<noteq> 0 then Some req else None)"

definition setup_ip :: "ip_config \<Rightarrow> int option" where
  "setup_ip cfg = (case cfg of Dhcp \<Rightarrow> None | StaticIp ok \<Rightarrow> Some (if ok then 0 else - ERR_INVAL))"

text \<open>What follows a wait: another wait, or the result.\<close>

definition after_wait :: "ip_config \<Rightarrow> wait_for \<Rightarrow> bool \<Rightarrow> wait_for + int" where
  "after_wait cfg f taken =
     (if \<not> taken then Inr (- ERR_TIMEDOUT)
      else case f of
             Address \<Rightarrow> Inr 0
           | Association \<Rightarrow> (case setup_ip cfg of None \<Rightarrow> Inl Address | Some rc \<Rightarrow> Inr rc))"

definition startup_ends :: "int \<Rightarrow> wifi \<Rightarrow> wifi" where
  "startup_ends rc w = w\<lparr>wf_startup := Returned rc, wf_up := (rc = 0)\<rparr>"

definition wifi_connect :: "bool \<Rightarrow> int \<Rightarrow> wifi \<Rightarrow> wifi" where
  "wifi_connect iface req w =
     (if \<not> iface then startup_ends (- ERR_NODEV) w
      else case connect_wifi req of
             Some rc \<Rightarrow> startup_ends rc w
           | None \<Rightarrow> w\<lparr>wf_startup := Waiting Association\<rparr>)"

definition startup_wake :: "ip_config \<Rightarrow> wait_for \<Rightarrow> wifi \<Rightarrow> wifi" where
  "startup_wake cfg f w =
     (let (taken, w) = k_sem_take f w
      in case after_wait cfg f taken of
           Inl f' \<Rightarrow> w\<lparr>wf_startup := Waiting f'\<rparr>
         | Inr rc \<Rightarrow> startup_ends rc w)"

definition work_ends :: "int \<Rightarrow> wifi \<Rightarrow> wifi" where
  "work_ends rc w =
     (let w = w\<lparr>wf_worker := None\<rparr> in if rc \<noteq> 0 then schedule w else w\<lparr>wf_up := True\<rparr>)"

definition reconnect_work_fn :: "bool \<Rightarrow> int \<Rightarrow> wifi \<Rightarrow> wifi" where
  "reconnect_work_fn iface req w =
     (let w = w\<lparr>wf_scheduled := False\<rparr>
      in if \<not> iface then schedule w
         else let w = reset_sems w
              in case connect_wifi req of
                   Some rc \<Rightarrow> work_ends rc w
                 | None \<Rightarrow> w\<lparr>wf_worker := Some Association\<rparr>)"

definition work_wake :: "ip_config \<Rightarrow> wait_for \<Rightarrow> wifi \<Rightarrow> wifi" where
  "work_wake cfg f w =
     (let (taken, w) = k_sem_take f w
      in case after_wait cfg f taken of
           Inl f' \<Rightarrow> w\<lparr>wf_worker := Some f'\<rparr>
         | Inr rc \<Rightarrow> work_ends rc w)"

inductive wifi_step :: "ip_config \<Rightarrow> wifi \<Rightarrow> wifi \<Rightarrow> bool" for cfg where
  start: "wf_startup w = NotStarted \<Longrightarrow> wifi_step cfg w (wifi_connect iface req w)"
| startup: "wf_startup w = Waiting f \<Longrightarrow> wifi_step cfg w (startup_wake cfg f w)"
| wifi_event: "wf_startup w \<noteq> NotStarted \<Longrightarrow> wifi_step cfg w (on_wifi_event ev w)"
| ipv4_event: "wf_startup w \<noteq> NotStarted \<Longrightarrow> wifi_step cfg w (on_ipv4_event w)"
| work: "wf_scheduled w \<Longrightarrow> wf_worker w = None \<Longrightarrow> wifi_step cfg w (reconnect_work_fn iface req w)"
| worker: "wf_worker w = Some f \<Longrightarrow> wifi_step cfg w (work_wake cfg f w)"

inductive wifi_run :: "ip_config \<Rightarrow> wifi \<Rightarrow> wifi \<Rightarrow> bool" for cfg where
  none: "wifi_run cfg w w"
| more: "wifi_run cfg w w' \<Longrightarrow> wifi_step cfg w' w'' \<Longrightarrow> wifi_run cfg w w''"

subsection \<open>A loss is repaired\<close>

definition repairing :: "wifi \<Rightarrow> bool" where
  "repairing w \<longleftrightarrow> wf_scheduled w \<or> wf_worker w \<noteq> None"

definition wifi_ok :: "wifi \<Rightarrow> bool" where
  "wifi_ok w \<longleftrightarrow> (wf_up w \<or> repairing w \<or> (\<exists>f. wf_startup w = Waiting f) \<or> wf_startup w = NotStarted \<or>
     (\<exists>rc. rc \<noteq> 0 \<and> wf_startup w = Returned rc))"

lemma wifi_step_ok: "wifi_step cfg w w' \<Longrightarrow> wifi_ok w \<Longrightarrow> wifi_ok w'"
proof (induction rule: wifi_step.induct)
  case (start w iface req)
  then show ?case by (auto simp: wifi_ok_def wifi_connect_def startup_ends_def connect_wifi_def)
next
  case (startup w f)
  then show ?case
    by (auto simp: wifi_ok_def startup_wake_def startup_ends_def Let_def split: prod.split sum.split)
next
  case (wifi_event w ev)
  then show ?case by (auto simp: wifi_ok_def on_wifi_event_def schedule_def repairing_def split: wifi_event.split)
next
  case (ipv4_event w)
  then show ?case by (auto simp: wifi_ok_def on_ipv4_event_def repairing_def)
next
  case (work w iface req)
  then show ?case
    by (auto simp: wifi_ok_def reconnect_work_fn_def work_ends_def schedule_def repairing_def Let_def split: option.split)
next
  case (worker w f)
  then show ?case
    by (auto simp: wifi_ok_def work_wake_def work_ends_def schedule_def repairing_def Let_def split: prod.split sum.split)
qed

text \<open>
  C33: a lost network is joined again. Whatever the network stack reports and whenever the waits end,
  once \<open>wifi_connect\<close> has returned 0 a loss is followed by an attempt that is scheduled or running until
  one succeeds; and an attempt that starts, is answered by an association and, with DHCP, an address,
  succeeds.
\<close>

theorem loss_is_repaired:
  assumes "wifi_run cfg static_wifi w" and "wf_startup w = Returned 0" and "\<not> wf_up w"
  shows "(wf_scheduled w \<or> wf_worker w \<noteq> None) \<and>
    (wf_worker w = None \<longrightarrow> cfg \<noteq> StaticIp False \<longrightarrow>
      (let w1 = work_wake cfg Association (on_wifi_event (ConnectResult (Some 0)) (reconnect_work_fn True 0 w));
           w2 = (if cfg = Dhcp then work_wake cfg Address (on_ipv4_event w1) else w1)
       in wf_up w2 \<and> wf_worker w2 = None \<and> \<not> wf_scheduled w2))"
proof -
  have "wifi_ok w" using assms(1)
  proof (induction "static_wifi" w rule: wifi_run.induct)
    case none
    show ?case by (simp add: wifi_ok_def static_wifi_def)
  qed (use wifi_step_ok in blast)
  then have "repairing w" using assms(2,3) by (auto simp: wifi_ok_def)
  moreover have "wf_up w2 \<and> wf_worker w2 = None \<and> \<not> wf_scheduled w2"
    if "cfg \<noteq> StaticIp False" "w1 = work_wake cfg Association (on_wifi_event (ConnectResult (Some 0)) (reconnect_work_fn True 0 w))"
      "w2 = (if cfg = Dhcp then work_wake cfg Address (on_ipv4_event w1) else w1)" for w1 w2
    unfolding that(2,3) using that(1)
    by (cases cfg) (simp_all add: work_wake_def reconnect_work_fn_def connect_wifi_def on_wifi_event_def on_ipv4_event_def
        k_sem_take_def after_wait_def setup_ip_def work_ends_def reset_sems_def schedule_def Let_def)
  ultimately show ?thesis unfolding repairing_def Let_def by blast
qed

text \<open>
  A loss that is reported while \<open>wifi_connect\<close> still waits makes it fail: the work item resets the
  semaphores, which ends the wait, and \<open>main\<close> halts although the network answers the new attempt.
\<close>

lemma startup_aborted:
  assumes "wf_startup w = Waiting f" and "wf_worker w = None"
  defines "w1 \<equiv> reconnect_work_fn True 0 (on_wifi_event DisconnectResult w)"
  shows "wf_startup w1 = Returned (- ERR_TIMEDOUT)"
    and "wf_up (work_wake (StaticIp True) Association (on_wifi_event (ConnectResult (Some 0)) w1))"
    and "wf_startup (work_wake (StaticIp True) Association (on_wifi_event (ConnectResult (Some 0)) w1)) = Returned (- ERR_TIMEDOUT)"
  using assms(1,2)
  by (simp_all add: w1_def work_wake_def reconnect_work_fn_def connect_wifi_def on_wifi_event_def
      k_sem_take_def after_wait_def setup_ip_def work_ends_def reset_sems_def schedule_def Let_def)

text \<open>The network is joined at the start and lost.\<close>

theorem loss_is_repaired_witness:
  "let w = on_wifi_event DisconnectResult (startup_wake (StaticIp True) Association
       (on_wifi_event (ConnectResult (Some 0)) (wifi_connect True 0 static_wifi)))
   in wf_startup w = Returned 0 \<and> \<not> wf_up w \<and> wf_scheduled w"
proof -
  let ?w1 = "wifi_connect True 0 static_wifi"
  let ?w2 = "on_wifi_event (ConnectResult (Some 0)) ?w1"
  let ?w3 = "startup_wake (StaticIp True) Association ?w2"
  let ?w = "on_wifi_event DisconnectResult ?w3"
  note defs = static_wifi_def wifi_connect_def connect_wifi_def on_wifi_event_def startup_wake_def k_sem_take_def
    after_wait_def setup_ip_def startup_ends_def schedule_def
  have "wifi_step (StaticIp True) static_wifi ?w1" by (intro start) (simp add: static_wifi_def)
  moreover have "wifi_step (StaticIp True) ?w1 ?w2" by (intro wifi_event) (simp add: defs)
  moreover have "wifi_step (StaticIp True) ?w2 ?w3" by (intro startup) (simp add: defs)
  moreover have "wifi_step (StaticIp True) ?w3 ?w" by (intro wifi_event) (simp add: defs)
  ultimately have "wifi_run (StaticIp True) static_wifi ?w" by (meson more none)
  moreover have "wf_startup ?w = Returned 0 \<and> \<not> wf_up ?w \<and> wf_worker ?w = None" by (simp add: defs)
  ultimately show ?thesis using loss_is_repaired [of "StaticIp True" ?w] by (simp add: Let_def)
qed

end
